(* ===== verification/Prelude.thy ===== *)
theory Prelude
  imports Main "HOL-Library.Word" "HOL-Library.Multiset"
begin

text \<open>
  Shared material of the development: the C integer conventions (unsigned 32-bit
  arithmetic on indices written out on \<^typ>\<open>nat\<close>), the part of the C library the
  components call (\<open>realloc\<close>), the collections of rewrite rules the component
  proofs use, and generic lemmas on lists and words.
\<close>

named_theorems u32_simps \<open>unsigned 32-bit arithmetic inside the range\<close>

type_synonym addr = nat
type_synonym uint8 = "8 word"
type_synonym uint16 = "16 word"
type_synonym uint32 = "32 word"
type_synonym uint64 = "64 word"

section \<open>C integers\<close>

text \<open>An \<open>unsigned\<close> index computed modulo \<open>2 ^ 32\<close>.\<close>

definition u32 :: "nat \<Rightarrow> nat" where
  "u32 n = n mod 2 ^ 32"

definition u32_minus :: "nat \<Rightarrow> nat \<Rightarrow> nat" where
  "u32_minus a b = (a + (2 ^ 32 - b mod 2 ^ 32)) mod 2 ^ 32"

text \<open>The value \<open>-1\<close> of an unsigned 32-bit field.\<close>

definition U32_MAX :: nat where
  "U32_MAX = 2 ^ 32 - 1"

lemma u32_small [u32_simps]: "n < 2 ^ 32 \<Longrightarrow> u32 n = n"
  by (simp add: u32_def)

lemma u32_minus_small [u32_simps]:
  assumes "b \<le> a" "a < 2 ^ 32"
  shows "u32_minus a b = a - b"
proof -
  have "a + (2 ^ 32 - b mod 2 ^ 32) = (a - b) + 2 ^ 32"
    using assms by (simp add: mod_less)
  then show ?thesis
    using assms unfolding u32_minus_def by (simp only: mod_add_self2) (simp add: mod_less)
qed

lemma u32_minus_1_le:
  assumes "0 < a"
  shows "u32_minus a 1 \<le> a - 1"
proof -
  have "a + (2 ^ 32 - 1 mod 2 ^ 32) = (a - 1) + 2 ^ 32"
    using assms by simp
  then have "u32_minus a 1 = (a - 1) mod 2 ^ 32"
    unfolding u32_minus_def by (simp only: mod_add_self2)
  then show ?thesis by simp
qed

text \<open>
  Subtraction of two \<open>int\<close> values. A result outside the type is undefined behaviour,
  the value \<^const>\<open>None\<close>.
\<close>

definition int_sub :: "int \<Rightarrow> int \<Rightarrow> int option" where
  "int_sub a b = (if - (2 ^ 31) \<le> a - b \<and> a - b < 2 ^ 31 then Some (a - b) else None)"

lemma unat_less_32: "unat (w::uint32) < 2 ^ 32"
  using unsigned_less [of w, where 'a = nat] by simp

lemma sint_small:
  fixes w :: uint32
  assumes "unat w < 2 ^ 31"
  shows "sint w = int (unat w)"
proof -
  have "int (unat w) < int (2 ^ 31)" using assms by (simp only: of_nat_less_iff)
  then have "uint w < 2 ^ 31" by simp
  moreover have "- (2 ^ 31) \<le> uint w" by (rule order.trans [OF _ uint_ge_0]) simp
  ultimately have "signed_take_bit 31 (uint w) = uint w"
    by (simp add: signed_take_bit_int_eq_self)
  then show ?thesis by (simp add: sint_uint)
qed

lemma int_sub_small:
  fixes v w :: uint32
  assumes "unat v < 2 ^ 31" "unat w < 2 ^ 31"
  shows "int_sub (sint v) (sint w) = Some (int (unat v) - int (unat w))"
proof -
  have "int (unat v) < int (2 ^ 31)" "int (unat w) < int (2 ^ 31)"
    using assms by (simp_all only: of_nat_less_iff)
  moreover have "int (2 ^ 31) = 2 ^ 31" by simp
  ultimately have "- (2 ^ 31) \<le> int (unat v) - int (unat w)" "int (unat v) - int (unat w) < 2 ^ 31"
    using of_nat_0_le_iff [of "unat v"] of_nat_0_le_iff [of "unat w"] by linarith+
  then show ?thesis unfolding int_sub_def sint_small [OF assms(1)] sint_small [OF assms(2)] by simp
qed

section \<open>Lists\<close>

text \<open>Reading an updated list, also outside its range.\<close>

lemma nth_list_update':
  "xs[i := y] ! j = (if i = j \<and> j < length xs then y else xs ! j)"
  by (cases "i < length xs") (auto simp: nth_list_update list_update_beyond)

lemma mset_concat_update:
  assumes "i < length xss"
  shows "mset (concat (xss[i := ys])) + mset (xss ! i) = mset (concat xss) + mset ys"
  using assms
proof (induction xss arbitrary: i)
  case (Cons xs xss)
  then show ?case by (cases i) (auto simp: ac_simps)
qed simp

lemma concat_concat_map: "concat (concat xsss) = concat (map concat xsss)"
  by (induction xsss) auto

section \<open>The C library\<close>

text \<open>
  \<open>realloc\<close> of an array to \<open>a\<close> cells. The environment decides whether it
  succeeds (\<open>None\<close>: it returns a null pointer) and what the new cells hold.
\<close>

definition c_realloc :: "'a option \<Rightarrow> 'a list \<Rightarrow> nat \<Rightarrow> 'a list option" where
  "c_realloc env p a = map_option (\<lambda>junk. take a p @ replicate (a - length p) junk) env"

lemma c_realloc_SomeD:
  assumes "c_realloc env p a = Some q"
  shows "length q = a" and "\<And>i. i < length p \<Longrightarrow> i < a \<Longrightarrow> q ! i = p ! i"
  using assms by (auto simp: c_realloc_def nth_append)

lemma find_SomeD: "find P xs = Some x \<Longrightarrow> x \<in> set xs \<and> P x"
  by (induction xs) (auto split: if_splits)

end
