(* ===== verification/TryCatch.thy ===== *)
theory TryCatch
  imports Prelude "HOL-Library.Monad_Syntax"
begin

text \<open>
  The exceptions of \<open>trycatch_finally.c\<close>: the macros \<open>Try\<close>, \<open>Catch\<close>, \<open>Finally\<close>, \<open>EndTry\<close> and \<open>Throw\<close> over
  \<open>setjmp\<close> and \<open>longjmp\<close>. A block of C code that uses them is a statement; running it follows the expansion
  of the macros, with the frames on the C stack, the chain of \<open>prev\<close> pointers from the thread's
  \<open>ExceptionStack\<close> and the flag \<open>Exception_flag\<close>. A frame is gone when its block is left; using it
  afterwards is \<^const>\<open>None\<close>. An exception is identified by its variable, here by its name. The text of a
  message is what \<open>vsnprintf\<close> makes of the cause and its arguments.
\<close>

type_synonym place = "string \<times> string \<times> int"

text \<open>\<open>Leave\<close> stands for a \<open>return\<close>, \<open>break\<close> or \<open>goto\<close> out of the enclosing blocks.\<close>

datatype stmt =
  Skip
| Print string
| Throw string place "string option"
| Leave
| Seq stmt stmt
| Try stmt "(string \<times> stmt) list" "stmt option"

datatype out = Printed string | Uncaught string "string option" place

record ntyExceptionFrame =
  fr_where :: place
  fr_exception :: "string option"
  fr_prev :: "nat option"
  fr_message :: string

record exn_state =
  es_top :: "nat option"
  es_frames :: "nat \<rightharpoonup> ntyExceptionFrame"
  es_next :: nat
  es_out :: "out list"

text \<open>How a block ends: it runs to its end, is left, or jumps to the \<open>setjmp\<close> of a frame.\<close>

datatype ending = Done | Left | Jumped nat

datatype exception_flag = ExceptionEntered | ExceptionThrown | ExceptionHandled | ExceptionFinalized

definition EXCEPTIN_MESSAGE_LENGTH :: nat where "EXCEPTIN_MESSAGE_LENGTH = 512"

definition ntyExceptionPopStack :: "exn_state \<Rightarrow> exn_state option" where
  "ntyExceptionPopStack s = do { f \<leftarrow> es_top s; fr \<leftarrow> es_frames s f; Some (s\<lparr>es_top := fr_prev fr\<rparr>) }"

definition ntyExceptionThrow :: "string \<Rightarrow> place \<Rightarrow> string option \<Rightarrow> exn_state \<Rightarrow> (ending \<times> exn_state) option" where
  "ntyExceptionThrow excep wh cause s =
     (case es_top s of
        None \<Rightarrow> Some (Done, s\<lparr>es_out := es_out s @ [Uncaught excep (map_option (take (EXCEPTIN_MESSAGE_LENGTH - 1)) cause) wh]\<rparr>)
      | Some f \<Rightarrow>
          do { fr \<leftarrow> es_frames s f;
               let fr = fr\<lparr>fr_exception := Some excep, fr_where := wh\<rparr>;
               let fr = (case cause of None \<Rightarrow> fr | Some c \<Rightarrow> fr\<lparr>fr_message := take (EXCEPTIN_MESSAGE_LENGTH - 1) c\<rparr>);
               s \<leftarrow> ntyExceptionPopStack (s\<lparr>es_frames := (es_frames s)(f \<mapsto> fr)\<rparr>);
               Some (Jumped f, s) })"

text \<open>The opening of \<open>Try\<close>: a frame on the stack, its \<open>exception\<close> not set.\<close>

definition try_enter :: "exn_state \<Rightarrow> nat \<times> exn_state" where
  "try_enter s =
     (let f = es_next s
      in (f, s\<lparr>es_frames := (es_frames s)(f \<mapsto> \<lparr>fr_where = ('''', '''', 0), fr_exception = None, fr_prev = es_top s, fr_message = ''''\<rparr>),
               es_top := Some f, es_next := f + 1\<rparr>))"

text \<open>The frame is a local variable of the block.\<close>

definition drop_frame :: "nat \<Rightarrow> exn_state \<Rightarrow> exn_state" where
  "drop_frame f s = s\<lparr>es_frames := (es_frames s)(f := None)\<rparr>"

text \<open>\<open>EndTry\<close>: an exception that was not handled is thrown again, without a message.\<close>

definition end_try :: "nat \<Rightarrow> exception_flag \<Rightarrow> exn_state \<Rightarrow> (ending \<times> exn_state) option" where
  "end_try f flag s =
     (if flag = ExceptionThrown
      then do { fr \<leftarrow> es_frames s f; e \<leftarrow> fr_exception fr; ntyExceptionThrow e (fr_where fr) None s }
      else Some (Done, s))"

lemma map_of_smaller: "map_of cs e = Some h \<Longrightarrow> size h < size (Try b cs fin)"
  using size_list_estimation' [of "(e, h)" cs "size h" "size_prod (\<lambda>_. 0) size"] by (auto dest!: map_of_SomeD)

text \<open>
  Running a statement. After the body of \<open>Try\<close> the flag is \<open>ExceptionEntered\<close> and the frame is popped, by
  the first of \<open>Catch\<close>, \<open>Finally\<close> and \<open>EndTry\<close>; after a jump to the frame it is \<open>ExceptionThrown\<close> and the
  first \<open>Catch\<close> with the exception of the frame runs. \<open>Finally\<close> follows in both cases when the handler ran
  to its end.
\<close>

function exec :: "stmt \<Rightarrow> exn_state \<Rightarrow> (ending \<times> exn_state) option" where
  "exec Skip s = Some (Done, s)"
| "exec (Print t) s = Some (Done, s\<lparr>es_out := es_out s @ [Printed t]\<rparr>)"
| "exec (Throw e wh cause) s = ntyExceptionThrow e wh cause s"
| "exec Leave s = Some (Left, s)"
| "exec (Seq a b) s = do { (en, s) \<leftarrow> exec a s; if en = Done then exec b s else Some (en, s) }"
| "exec (Try body catches fin) s =
     do { let fs = try_enter s;
          let f = fst fs;
          (en, s) \<leftarrow> exec body (snd fs);
          x \<leftarrow>
            (if en = Done then do { s \<leftarrow> ntyExceptionPopStack s; Some (Done, ExceptionEntered, s) }
             else if en = Jumped f
             then do { fr \<leftarrow> es_frames s f;
                       e \<leftarrow> fr_exception fr;
                       case map_of catches e of
                         None \<Rightarrow> Some (Done, ExceptionThrown, s)
                       | Some h \<Rightarrow> do { (en, s) \<leftarrow> exec h s; Some (en, ExceptionHandled, s) } }
             else Some (en, ExceptionEntered, s));
          (en, flag, s) \<leftarrow>
            (case fin of
               None \<Rightarrow> Some x
             | Some c \<Rightarrow>
                 if fst x \<noteq> Done then Some x
                 else do { let flag = (if fst (snd x) = ExceptionEntered then ExceptionFinalized else fst (snd x));
                           (en, s) \<leftarrow> exec c (snd (snd x));
                           Some (en, flag, s) });
          (en, s) \<leftarrow> (if en = Done then end_try f flag s else Some (en, s));
          Some (en, drop_frame f s) }"
  by pat_completeness auto
termination
  by (relation "measure (\<lambda>(p, s). size p)") (auto dest: map_of_smaller)

declare exec.simps(6) [simp del]

section \<open>What the statements mean\<close>

text \<open>
  The meaning without frames: what is put out, and the exception that leaves the statement. Outside every
  \<open>Try\<close> a \<open>Throw\<close> reports the exception and goes on. A handler runs outside its own block; when it
  throws, \<open>Finally\<close> is skipped.
\<close>

function meaning :: "bool \<Rightarrow> stmt \<Rightarrow> out list \<times> (string \<times> place) option" where
  "meaning inside Skip = ([], None)"
| "meaning inside (Print t) = ([Printed t], None)"
| "meaning inside (Throw e wh cause) =
     (if inside then ([], Some (e, wh)) else ([Uncaught e (map_option (take (EXCEPTIN_MESSAGE_LENGTH - 1)) cause) wh], None))"
| "meaning inside Leave = ([], None)"
| "meaning inside (Seq a b) =
     (let r = meaning inside a
      in if snd r = None then (fst r @ fst (meaning inside b), snd (meaning inside b)) else r)"
| "meaning inside (Try body catches fin) =
     (let r = meaning True body;
          finally = (\<lambda>out exc.
            let q = (case fin of None \<Rightarrow> ([], None) | Some c \<Rightarrow> meaning inside c)
            in if snd q \<noteq> None then (out @ fst q, snd q)
               else (case exc of
                       None \<Rightarrow> (out @ fst q, None)
                     | Some (e, wh) \<Rightarrow> if inside then (out @ fst q, exc) else (out @ fst q @ [Uncaught e None wh], None)))
      in case snd r of
           None \<Rightarrow> finally (fst r) None
         | Some (e, wh) \<Rightarrow>
             (case map_of catches e of
                None \<Rightarrow> finally (fst r) (Some (e, wh))
              | Some h \<Rightarrow>
                  (let q = meaning inside h
                   in if snd q = None then finally (fst r @ fst q) None else (fst r @ fst q, snd q))))"
  by pat_completeness auto
termination
  by (relation "measure (\<lambda>(i, p). size p)") (auto dest: map_of_smaller)

text \<open>Statements without \<open>Leave\<close>.\<close>

function stays :: "stmt \<Rightarrow> bool" where
  "stays Leave \<longleftrightarrow> False"
| "stays (Seq a b) \<longleftrightarrow> stays a \<and> stays b"
| "stays (Try b cs fin) \<longleftrightarrow> stays b \<and> (\<forall>h \<in> snd ` set cs. stays h) \<and> (case fin of None \<Rightarrow> True | Some c \<Rightarrow> stays c)"
| "stays Skip \<longleftrightarrow> True" | "stays (Print t) \<longleftrightarrow> True" | "stays (Throw e wh c) \<longleftrightarrow> True"
  by pat_completeness auto
termination
proof (relation "measure size", goal_cases)
  case (5 b cs fin h)
  then obtain e where "(e, h) \<in> set cs" by auto
  then show ?case using size_list_estimation' [of "(e, h)" cs "size h" "size_prod (\<lambda>_. 0) size"] by simp
qed auto

section \<open>The chain of frames\<close>

fun chain :: "(nat \<rightharpoonup> ntyExceptionFrame) \<Rightarrow> nat option \<Rightarrow> nat list \<Rightarrow> bool" where
  "chain h p [] \<longleftrightarrow> p = None"
| "chain h p (f # fs) \<longleftrightarrow> p = Some f \<and> (\<exists>fr. h f = Some fr \<and> chain h (fr_prev fr) fs)"

text \<open>The live frames, innermost first.\<close>

definition frames_ok :: "exn_state \<Rightarrow> nat list \<Rightarrow> bool" where
  "frames_ok s fs \<longleftrightarrow> chain (es_frames s) (es_top s) fs \<and> distinct fs \<and> (\<forall>f \<in> set fs. f < es_next s)"

lemma chain_cong: "(\<And>f. f \<in> set fs \<Longrightarrow> h' f = h f) \<Longrightarrow> chain h' p fs = chain h p fs"
  by (induction fs arbitrary: p) auto

text \<open>A statement that ends: to its end with the frames as they were, or with a jump to the innermost frame.\<close>

definition ends_as :: "exn_state \<Rightarrow> nat list \<Rightarrow> (string \<times> place) option \<Rightarrow> ending \<Rightarrow> exn_state \<Rightarrow> bool" where
  "ends_as s fs exc en s' \<longleftrightarrow> es_next s \<le> es_next s'
     \<and> (case exc of
          None \<Rightarrow> en = Done \<and> frames_ok s' fs \<and> (\<forall>f < es_next s. es_frames s' f = es_frames s f)
        | Some (e, wh) \<Rightarrow> \<exists>g gs fr. fs = g # gs \<and> en = Jumped g \<and> frames_ok s' gs \<and> es_frames s' g = Some fr \<and> fr_exception fr = Some e \<and> fr_where fr = wh
            \<and> (\<forall>f < es_next s. f \<noteq> g \<longrightarrow> es_frames s' f = es_frames s f))"

lemma ends_as_trans: "ends_as s fs None en s1 \<Longrightarrow> ends_as s1 fs exc en' s2 \<Longrightarrow> ends_as s fs exc en' s2"
  by (force simp: ends_as_def split: option.splits)

lemma ends_as_out [simp]: "ends_as s fs exc en (s'\<lparr>es_out := l\<rparr>) = ends_as s fs exc en s'" "ends_as (s\<lparr>es_out := l\<rparr>) fs exc en s' = ends_as s fs exc en s'"
  by (simp_all add: ends_as_def frames_ok_def split: option.split)

lemma throw_ends:
  assumes "frames_ok s fs"
  shows "\<exists>en s'. ntyExceptionThrow e wh c s = Some (en, s') \<and> ends_as s fs (if fs = [] then None else Some (e, wh)) en s'
    \<and> es_out s' = es_out s @ (if fs = [] then [Uncaught e (map_option (take (EXCEPTIN_MESSAGE_LENGTH - 1)) c) wh] else [])"
proof (cases fs)
  case Nil
  then show ?thesis using assms by (simp add: ntyExceptionThrow_def frames_ok_def ends_as_def)
next
  case (Cons g gs)
  obtain fr where fr: "es_top s = Some g" "es_frames s g = Some fr" "chain (es_frames s) (fr_prev fr) gs" "g \<notin> set gs" using assms Cons by (auto simp: frames_ok_def)
  define fr' where "fr' = (case c of None \<Rightarrow> fr\<lparr>fr_exception := Some e, fr_where := wh\<rparr>
    | Some t \<Rightarrow> fr\<lparr>fr_exception := Some e, fr_where := wh, fr_message := take (EXCEPTIN_MESSAGE_LENGTH - 1) t\<rparr>)"
  have f': "fr_prev fr' = fr_prev fr" "fr_exception fr' = Some e" "fr_where fr' = wh" by (auto simp: fr'_def split: option.splits)
  let ?s = "s\<lparr>es_frames := (es_frames s)(g \<mapsto> fr'), es_top := fr_prev fr\<rparr>"
  have "ntyExceptionThrow e wh c s = Some (Jumped g, ?s)"
    using fr f'(1) by (auto simp: ntyExceptionThrow_def ntyExceptionPopStack_def Let_def fr'_def split: option.splits)
  moreover have "chain ((es_frames s)(g \<mapsto> fr')) (fr_prev fr) gs" using fr(3,4) by (subst chain_cong [of gs _ "es_frames s"]) auto
  then have "frames_ok ?s gs" using assms Cons by (auto simp: frames_ok_def)
  ultimately show ?thesis using Cons f' by (auto simp: ends_as_def)
qed

text \<open>The rest of a \<open>Try\<close> statement after its body and handlers: \<open>Finally\<close> and \<open>EndTry\<close>.\<close>

definition try_rest :: "nat \<Rightarrow> stmt option \<Rightarrow> ending \<times> exception_flag \<times> exn_state \<Rightarrow> (ending \<times> exn_state) option" where
  "try_rest f fin x =
     do { (en, flag, s) \<leftarrow>
            (case fin of
               None \<Rightarrow> Some x
             | Some c \<Rightarrow>
                 if fst x \<noteq> Done then Some x
                 else do { let flag = (if fst (snd x) = ExceptionEntered then ExceptionFinalized else fst (snd x));
                           (en, s) \<leftarrow> exec c (snd (snd x));
                           Some (en, flag, s) });
          (en, s) \<leftarrow> (if en = Done then end_try f flag s else Some (en, s));
          Some (en, drop_frame f s) }"

lemma exec_Try:
  "exec (Try body catches fin) s =
     do { let f = es_next s;
          (en, s) \<leftarrow> exec body (snd (try_enter s));
          x \<leftarrow>
            (if en = Done then do { s \<leftarrow> ntyExceptionPopStack s; Some (Done, ExceptionEntered, s) }
             else if en = Jumped f
             then do { fr \<leftarrow> es_frames s f;
                       e \<leftarrow> fr_exception fr;
                       case map_of catches e of
                         None \<Rightarrow> Some (Done, ExceptionThrown, s)
                       | Some h \<Rightarrow> do { (en, s) \<leftarrow> exec h s; Some (en, ExceptionHandled, s) } }
             else Some (en, ExceptionEntered, s));
          try_rest f fin x }"
  unfolding exec.simps(6) try_rest_def try_enter_def Let_def fst_conv snd_conv ..

lemma drop_frame_ends:
  assumes "ends_as s fs exc en s'" "f \<ge> es_next s" "\<forall>g \<in> set fs. g < es_next s"
  shows "ends_as s fs exc en (drop_frame f s')"
proof -
  have "f \<notin> set fs" using assms(2,3) by auto
  then have "chain ((es_frames s')(f := None)) p gs = chain (es_frames s') p gs" if "set gs \<subseteq> set fs" for p gs
    using that by (intro chain_cong) auto
  then have ok: "frames_ok (drop_frame f s') gs = frames_ok s' gs" if "set gs \<subseteq> set fs" for gs using that by (simp add: frames_ok_def drop_frame_def)
  show ?thesis
  proof (cases exc)
    case None
    then show ?thesis using assms ok [of fs] by (simp add: ends_as_def) (simp add: drop_frame_def)
  next
    case (Some x)
    obtain e wh g gs fr where j: "exc = Some (e, wh)" "fs = g # gs" "en = Jumped g" "frames_ok s' gs" "es_frames s' g = Some fr" "fr_exception fr = Some e" "fr_where fr = wh"
      "\<forall>f < es_next s. f \<noteq> g \<longrightarrow> es_frames s' f = es_frames s f" "es_next s \<le> es_next s'" using assms(1) Some by (cases x) (auto simp: ends_as_def)
    have "frames_ok (drop_frame f s') gs" using ok [of gs] j(2,4) by auto
    moreover have "es_frames (drop_frame f s') g = Some fr" "\<forall>h < es_next s. h \<noteq> g \<longrightarrow> es_frames (drop_frame f s') h = es_frames s h" "es_next s \<le> es_next (drop_frame f s')"
      using j assms(2) \<open>f \<notin> set fs\<close> by (auto simp: drop_frame_def)
    ultimately show ?thesis using j(1-3,6,7) by (simp add: ends_as_def)
  qed
qed

text \<open>
  The state \<open>s1\<close> after body and handler, still below the statement that started in \<open>s\<close>: the frame \<open>f\<close> of
  the block is there, with the exception when none of the handlers took it.
\<close>

lemma try_rest_ends:
  assumes s1: "ends_as s fs None Done s1" "es_next s < es_next s1" and fr: "flag = ExceptionThrown \<longleftrightarrow> exc \<noteq> None"
      "\<And>e wh. exc = Some (e, wh) \<Longrightarrow> \<exists>fr. es_frames s1 (es_next s) = Some fr \<and> fr_exception fr = Some e \<and> fr_where fr = wh"
    and ok: "frames_ok s fs"
    and fin: "\<And>c s. fin = Some c \<Longrightarrow> frames_ok s fs \<Longrightarrow> \<exists>en s'. exec c s = Some (en, s') \<and> ends_as s fs (snd (meaning (fs \<noteq> []) c)) en s' \<and> es_out s' = es_out s @ fst (meaning (fs \<noteq> []) c)"
    and q: "q = (case fin of None \<Rightarrow> ([], None) | Some c \<Rightarrow> meaning (fs \<noteq> []) c)"
    and res: "res = (if snd q \<noteq> None then q
       else (case exc of None \<Rightarrow> (fst q, None) | Some (e, wh) \<Rightarrow> if fs \<noteq> [] then (fst q, exc) else (fst q @ [Uncaught e None wh], None)))"
  shows "\<exists>en s'. try_rest (es_next s) fin (Done, flag, s1) = Some (en, s') \<and> ends_as s fs (snd res) en s' \<and> es_out s' = es_out s1 @ fst res"
proof -
  let ?f = "es_next s"
  let ?flag = "if fin = None then flag else if flag = ExceptionEntered then ExceptionFinalized else flag"
  have low: "\<forall>g \<in> set fs. g < ?f" using ok by (simp add: frames_ok_def)
  have ok1: "frames_ok s1 fs" using s1(1) by (simp add: ends_as_def)
  have "\<exists>en s2. (case fin of None \<Rightarrow> Some (Done, flag, s1) | Some c \<Rightarrow> do { (en, s) \<leftarrow> exec c s1; Some (en, ?flag, s) }) = Some (en, ?flag, s2)
      \<and> ends_as s1 fs (snd q) en s2 \<and> es_out s2 = es_out s1 @ fst q"
  proof (cases fin)
    case None
    then show ?thesis using q ok1 by (simp add: ends_as_def)
  next
    case (Some c)
    then show ?thesis using fin [OF Some ok1] q by auto
  qed
  then obtain en s2 where s2: "(case fin of None \<Rightarrow> Some (Done, flag, s1) | Some c \<Rightarrow> do { (en, s) \<leftarrow> exec c s1; Some (en, ?flag, s) }) = Some (en, ?flag, s2)"
    "ends_as s1 fs (snd q) en s2" "es_out s2 = es_out s1 @ fst q" by blast
  have run: "try_rest ?f fin (Done, flag, s1) = do { (en, s) \<leftarrow> (if en = Done then end_try ?f ?flag s2 else Some (en, s2)); Some (en, drop_frame ?f s) }"
    using s2(1) by (auto simp: try_rest_def Let_def bind_eq_Some_conv split: option.splits)
  have two: "ends_as s fs (snd q) en s2" using ends_as_trans [OF s1(1) s2(2)] .
  have drop: "ends_as s fs x e' (drop_frame ?f s')" if "ends_as s fs x e' s'" for x e' s' using drop_frame_ends [OF that _ low] by simp
  have outd: "es_out (drop_frame ?f s') = es_out s'" for s' by (simp add: drop_frame_def)
  show ?thesis
  proof (cases "snd q")
    case (Some x)
    then have "en \<noteq> Done" using two by (auto simp: ends_as_def split: prod.splits)
    then show ?thesis using run drop [OF two] Some res outd s2(3) by auto
  next
    case None
    then have en: "en = Done" and ok2: "frames_ok s2 fs" and keep: "\<forall>f < es_next s1. es_frames s2 f = es_frames s1 f" using s2(2) by (auto simp: ends_as_def)
    show ?thesis
    proof (cases exc)
      case None
      then have "end_try ?f ?flag s2 = Some (Done, s2)" using fr(1) by (auto simp: end_try_def)
      then show ?thesis using run en drop [OF two] None \<open>snd q = None\<close> res outd s2(3) by auto
    next
      case (Some ew)
      obtain e wh where ew: "exc = Some (e, wh)" using Some by (cases ew) auto
      obtain fr' where fr': "es_frames s2 ?f = Some fr'" "fr_exception fr' = Some e" "fr_where fr' = wh" using fr(2) [OF ew] keep s1(2) by auto
      have fl: "?flag = ExceptionThrown" using fr(1) ew by auto
      obtain en' s3 where t: "ntyExceptionThrow e wh None s2 = Some (en', s3)" "ends_as s2 fs (if fs = [] then None else Some (e, wh)) en' s3"
        "es_out s3 = es_out s2 @ (if fs = [] then [Uncaught e None wh] else [])" using throw_ends [OF ok2, of e wh None] by auto
      have "ends_as s fs (if fs = [] then None else Some (e, wh)) en' s3" using ends_as_trans [OF _ t(2)] two \<open>snd q = None\<close> by simp
      from drop [OF this] show ?thesis using run en fr' fl t(1,3) ew \<open>snd q = None\<close> res outd s2(3) by (auto simp: end_try_def)
    qed
  qed
qed


lemma try_enter_ok:
  assumes "frames_ok s fs"
  shows "frames_ok (snd (try_enter s)) (es_next s # fs)"
proof -
  have "es_next s \<notin> set fs" using assms by (auto simp: frames_ok_def)
  then have "chain (es_frames (snd (try_enter s))) (es_top s) fs" using assms
    by (subst chain_cong [of fs _ "es_frames s"]) (auto simp: try_enter_def Let_def frames_ok_def)
  then show ?thesis using assms \<open>es_next s \<notin> set fs\<close> by (auto simp: try_enter_def Let_def frames_ok_def less_SucI)
qed

lemma frames_ok_tail: "frames_ok s (f # fs) \<Longrightarrow> \<exists>s'. ntyExceptionPopStack s = Some s' \<and> frames_ok s' fs \<and> es_frames s' = es_frames s \<and> es_next s' = es_next s \<and> es_out s' = es_out s"
  by (auto simp: frames_ok_def ntyExceptionPopStack_def)

section \<open>The macros implement the meaning\<close>

lemma exec_meaning:
  "stays p \<Longrightarrow> frames_ok s fs \<Longrightarrow> \<exists>en s'. exec p s = Some (en, s') \<and> ends_as s fs (snd (meaning (fs \<noteq> []) p)) en s' \<and> es_out s' = es_out s @ fst (meaning (fs \<noteq> []) p)"
proof (induction p arbitrary: s fs rule: measure_induct_rule [where f = size])
  case (less p)
  note IH = less.IH and ok = less.prems(2)
  show ?case
  proof (cases p)
    case (Throw e wh c)
    then show ?thesis using throw_ends [OF ok, of e wh c] by auto
  next
    case (Seq a b)
    obtain en s1 where a: "exec a s = Some (en, s1)" "ends_as s fs (snd (meaning (fs \<noteq> []) a)) en s1" "es_out s1 = es_out s @ fst (meaning (fs \<noteq> []) a)"
      using IH [of a s fs] Seq less.prems by auto
    show ?thesis
    proof (cases "snd (meaning (fs \<noteq> []) a)")
      case None
      then have s1: "en = Done" "frames_ok s1 fs" using a(2) by (auto simp: ends_as_def)
      obtain en2 s2 where b: "exec b s1 = Some (en2, s2)" "ends_as s1 fs (snd (meaning (fs \<noteq> []) b)) en2 s2" "es_out s2 = es_out s1 @ fst (meaning (fs \<noteq> []) b)"
        using IH [of b s1 fs] Seq less.prems s1 by auto
      have "ends_as s fs (snd (meaning (fs \<noteq> []) b)) en2 s2" using ends_as_trans [OF _ b(2)] a(2) None by simp
      then show ?thesis using Seq a b s1 None by (simp add: Let_def)
    next
      case (Some x)
      then have "en \<noteq> Done" using a(2) by (auto simp: ends_as_def split: prod.splits)
      then show ?thesis using Seq a Some by (simp add: Let_def)
    qed
  next
    case (Try body catches fin)
    let ?f = "es_next s" and ?in = "fs \<noteq> []" and ?s0 = "snd (try_enter s)"
    have stays: "stays body" "\<And>e h. map_of catches e = Some h \<Longrightarrow> stays h" "\<And>c. fin = Some c \<Longrightarrow> stays c"
      using less.prems(1) Try by (auto dest!: map_of_SomeD)
    have sz: "size body < size p" "\<And>e h. map_of catches e = Some h \<Longrightarrow> size h < size p" "\<And>c. fin = Some c \<Longrightarrow> size c < size p"
      using Try map_of_smaller by (simp, metis, simp)
    have fin: "\<exists>en s'. exec c s = Some (en, s') \<and> ends_as s fs (snd (meaning ?in c)) en s' \<and> es_out s' = es_out s @ fst (meaning ?in c)"
      if "fin = Some c" "frames_ok s fs" for c s using IH [OF sz(3) [OF that(1)] stays(3) [OF that(1)] that(2)] .
    have s0: "frames_ok ?s0 (?f # fs)" "es_next ?s0 = Suc ?f" "es_out ?s0 = es_out s" "\<forall>g < ?f. es_frames ?s0 g = es_frames s g"
      using try_enter_ok [OF ok] by (auto simp: try_enter_def Let_def)
    obtain en s1 where b: "exec body ?s0 = Some (en, s1)" "ends_as ?s0 (?f # fs) (snd (meaning True body)) en s1" "es_out s1 = es_out s @ fst (meaning True body)"
      using IH [OF sz(1) stays(1) s0(1)] s0(3) by auto
    define q where "q = (case fin of None \<Rightarrow> ([], None) | Some c \<Rightarrow> meaning ?in c)"
    define rest where "rest exc = (if snd q \<noteq> None then q
       else (case exc of None \<Rightarrow> (fst q, None) | Some (e, wh) \<Rightarrow> if ?in then (fst q, exc) else (fst q @ [Uncaught e None wh], None)))" for exc
    have m: "meaning ?in p = (case snd (meaning True body) of
         None \<Rightarrow> (fst (meaning True body) @ fst (rest None), snd (rest None))
       | Some (e, wh) \<Rightarrow> (case map_of catches e of
           None \<Rightarrow> (fst (meaning True body) @ fst (rest (Some (e, wh))), snd (rest (Some (e, wh))))
         | Some h \<Rightarrow> if snd (meaning ?in h) = None then (fst (meaning True body) @ fst (meaning ?in h) @ fst (rest None), snd (rest None))
                     else (fst (meaning True body) @ fst (meaning ?in h), snd (meaning ?in h))))"
      unfolding Try by (auto simp: rest_def q_def Let_def split: option.split)
    show ?thesis
    proof (cases "snd (meaning True body)")
      case None
      then have en: "en = Done" and ok1: "frames_ok s1 (?f # fs)" "\<forall>g < Suc ?f. es_frames s1 g = es_frames ?s0 g" "Suc ?f \<le> es_next s1" using b(2) s0(2) by (auto simp: ends_as_def)
      obtain s2 where s2: "ntyExceptionPopStack s1 = Some s2" "frames_ok s2 fs" "es_frames s2 = es_frames s1" "es_next s2 = es_next s1" "es_out s2 = es_out s1" using frames_ok_tail [OF ok1(1)] by blast
      have e2: "ends_as s fs None Done s2" using s2 ok1 s0(4) by (auto simp: ends_as_def)
      obtain en' s' where "try_rest ?f fin (Done, ExceptionEntered, s2) = Some (en', s')" "ends_as s fs (snd (rest None)) en' s'" "es_out s' = es_out s2 @ fst (rest None)"
        using try_rest_ends [OF e2 _ _ _ ok fin q_def rest_def [of None], of ExceptionEntered] ok1(3) s2(4) by auto
      then show ?thesis using Try b en s2 None m by (auto simp: exec_Try)
    next
      case (Some ew)
      obtain e wh where ew: "snd (meaning True body) = Some (e, wh)" using Some by (cases ew) auto
      obtain fr where s1: "en = Jumped ?f" "frames_ok s1 fs" "es_frames s1 ?f = Some fr" "fr_exception fr = Some e" "fr_where fr = wh"
        "\<forall>g < ?f. es_frames s1 g = es_frames ?s0 g" "Suc ?f \<le> es_next s1" using b(2) ew s0(2) by (auto simp: ends_as_def)
      have e1: "ends_as s fs None Done s1" using s1 s0(4) by (auto simp: ends_as_def)
      show ?thesis
      proof (cases "map_of catches e")
        case None
        obtain en' s' where "try_rest ?f fin (Done, ExceptionThrown, s1) = Some (en', s')" "ends_as s fs (snd (rest (Some (e, wh)))) en' s'" "es_out s' = es_out s1 @ fst (rest (Some (e, wh)))"
          using try_rest_ends [OF e1 _ _ _ ok fin q_def rest_def [of "Some (e, wh)"], of ExceptionThrown] s1 by auto
        then show ?thesis using Try b s1 ew None m by (auto simp: exec_Try)
      next
        case (Some h)
        obtain en2 s2 where h: "exec h s1 = Some (en2, s2)" "ends_as s1 fs (snd (meaning ?in h)) en2 s2" "es_out s2 = es_out s1 @ fst (meaning ?in h)"
          using IH [OF sz(2) [OF Some] stays(2) [OF Some] s1(2)] by blast
        have e2: "ends_as s fs (snd (meaning ?in h)) en2 s2" using ends_as_trans [OF e1 h(2)] .
        show ?thesis
        proof (cases "snd (meaning ?in h)")
          case None
          then have "en2 = Done" "Suc ?f \<le> es_next s2" using h(2) s1(7) by (auto simp: ends_as_def)
          moreover obtain en' s' where "try_rest ?f fin (Done, ExceptionHandled, s2) = Some (en', s')" "ends_as s fs (snd (rest None)) en' s'" "es_out s' = es_out s2 @ fst (rest None)"
            using try_rest_ends [OF _ _ _ _ ok fin q_def rest_def [of None], of s2 ExceptionHandled] e2 None calculation by auto
          ultimately show ?thesis using Try b s1 ew Some h None m by (auto simp: exec_Try)
        next
          case x: (Some x)
          then have ne: "en2 \<noteq> Done" using h(2) by (auto simp: ends_as_def split: prod.splits)
          then have "try_rest ?f fin (en2, ExceptionHandled, s2) = Some (en2, drop_frame ?f s2)" by (auto simp: try_rest_def split: option.splits)
          moreover have "ends_as s fs (snd (meaning ?in h)) en2 (drop_frame ?f s2)" using drop_frame_ends [OF e2] ok by (simp add: frames_ok_def)
          moreover have "es_out (drop_frame ?f s2) = es_out s2" by (simp add: drop_frame_def)
          ultimately show ?thesis using Try b s1 ew Some h x m by (auto simp: exec_Try)
        qed
      qed
    qed
  qed (use less.prems ok in \<open>auto simp: ends_as_def frames_ok_def\<close>)
qed

section \<open>The test program\<close>

fun seq :: "stmt list \<Rightarrow> stmt" where
  "seq [] = Skip"
| "seq (p # ps) = Seq p (seq ps)"

definition at :: "string \<Rightarrow> int \<Rightarrow> place" where
  "at fn ln = (fn, ''trycatch_finally.c'', ln)"

abbreviation "AE \<equiv> ''AException''"
abbreviation "BE \<equiv> ''BException''"
abbreviation "CE \<equiv> ''CException''"
abbreviation "DE \<equiv> ''DException''"

definition thread_prog :: "string \<Rightarrow> stmt" where
  "thread_prog selfid =
     seq [Try (Throw AE (at ''thread'' 155) (Some ''A'')) [(AE, Print (''catch A : '' @ selfid))] None,
          Try (Throw BE (at ''thread'' 165) (Some ''B'')) [(BE, Print (''catch B : '' @ selfid))] None,
          Try (Throw CE (at ''thread'' 175) (Some ''C'')) [(CE, Print (''catch C : '' @ selfid))] None,
          Try (Throw DE (at ''thread'' 185) (Some ''D'')) [(DE, Print (''catch D : '' @ selfid))] None,
          Try (seq [Throw AE (at ''thread'' 195) (Some ''A Again''), Throw BE (at ''thread'' 196) (Some ''B Again''),
                    Throw CE (at ''thread'' 197) (Some ''C Again''), Throw DE (at ''thread'' 198) (Some ''D Again'')])
              [(AE, Print (''catch A again : '' @ selfid)), (BE, Print (''catch B again : '' @ selfid)),
               (CE, Print (''catch C again : '' @ selfid)), (DE, Print (''catch B again : '' @ selfid))] None]"

text \<open>The main thread up to the start of the other threads.\<close>

definition main_prog :: stmt where
  "main_prog =
     seq [Throw DE (at ''main'' 227) None,
          Throw CE (at ''main'' 229) (Some ''null C''),
          Print ''=> Test1: Try-Catch'',
          Try (seq [Try (Throw BE (at ''main'' 236) (Some ''recall B'')) [(BE, Print ''recall B'')] None,
                    Throw AE (at ''main'' 241) None])
              [(AE, Print ''Result: Ok'')] None,
          Print ''=> Test1: Ok''] "

definition no_frames :: exn_state where
  "no_frames = \<lparr>es_top = None, es_frames = Map.empty, es_next = 0, es_out = []\<rparr>"

section \<open>Properties\<close>

text \<open>
  C19. Code that uses the macros and does not leave their blocks behaves as its meaning says, started with no
  frame on the exception stack: it ends, no frame is left on the stack, and what it puts out is the output
  of the blocks that ought to run, exceptions going to the nearest handler.
\<close>

theorem trycatch_macros_correct:
  assumes "stays p" "es_top s = None"
  shows "\<exists>s'. exec p s = Some (Done, s') \<and> es_top s' = None \<and> es_out s' = es_out s @ fst (meaning False p) \<and> snd (meaning False p) = None"
proof -
  have "frames_ok s []" using assms(2) by (simp add: frames_ok_def)
  then obtain en s' where s': "exec p s = Some (en, s')" "ends_as s [] (snd (meaning False p)) en s'" "es_out s' = es_out s @ fst (meaning False p)"
    using exec_meaning [OF assms(1), of s "[]"] by auto
  have "snd (meaning False p) = None" using s'(2) by (auto simp: ends_as_def split: option.splits)
  then show ?thesis using s' by (auto simp: ends_as_def frames_ok_def)
qed

theorem trycatch_macros_correct_witness:
  "\<exists>s'. exec main_prog no_frames = Some (Done, s') \<and> es_top s' = None
    \<and> es_out s' = [Uncaught DE None (at ''main'' 227), Uncaught CE (Some ''null C'') (at ''main'' 229), Printed ''=> Test1: Try-Catch'',
        Printed ''recall B'', Printed ''Result: Ok'', Printed ''=> Test1: Ok'']"
proof -
  have "stays main_prog" by (simp add: main_prog_def)
  moreover have "fst (meaning False main_prog) = [Uncaught DE None (at ''main'' 227), Uncaught CE (Some ''null C'') (at ''main'' 229), Printed ''=> Test1: Try-Catch'',
        Printed ''recall B'', Printed ''Result: Ok'', Printed ''=> Test1: Ok'']"
    by (simp add: main_prog_def EXCEPTIN_MESSAGE_LENGTH_def)
  ultimately show ?thesis using trycatch_macros_correct [of main_prog no_frames] by (auto simp: no_frames_def)
qed

text \<open>
  Leaving a \<open>Try\<close> block by a jump of C leaves its frame, a dead local variable, on top of the exception
  stack: the block is left with the stack pointing to it, and the next \<open>Throw\<close> uses it.
\<close>

theorem leaving_try_dangles:
  assumes "stays b" "es_top s = None" "snd (meaning True b) = None"
  shows "\<exists>s'. exec (Try (Seq b Leave) cs fin) s = Some (Left, s') \<and> es_top s' = Some (es_next s) \<and> es_frames s' (es_next s) = None
    \<and> (\<forall>e wh c. ntyExceptionThrow e wh c s' = None)"
proof -
  let ?f = "es_next s"
  have ok: "frames_ok s []" using assms(2) by (simp add: frames_ok_def)
  obtain en s1 where b: "exec b (snd (try_enter s)) = Some (en, s1)" "ends_as (snd (try_enter s)) [?f] (snd (meaning True b)) en s1"
    using exec_meaning [OF assms(1) try_enter_ok [OF ok]] by auto
  then have s1: "en = Done" "es_top s1 = Some ?f" using assms(3) by (auto simp: ends_as_def frames_ok_def)
  let ?s = "drop_frame ?f s1"
  have "exec (Try (Seq b Leave) cs fin) s = Some (Left, ?s)"
    using b(1) s1(1) by (auto simp: exec_Try try_rest_def split: option.splits)
  moreover have "es_top ?s = Some ?f" "es_frames ?s ?f = None" using s1(2) by (simp_all add: drop_frame_def)
  ultimately show ?thesis by (auto simp: ntyExceptionThrow_def)
qed

theorem leaving_try_dangles_witness:
  "\<exists>s'. exec (Try (Seq (Print ''work'') Leave) [(AE, Skip)] None) no_frames = Some (Left, s') \<and> ntyExceptionThrow BE (at ''main'' 1) None s' = None"
  using leaving_try_dangles [of "Print ''work''" no_frames "[(AE, Skip)]" None] by (auto simp: no_frames_def at_def)

end
