(* ===== verification/CArray.thy ===== *)
theory CArray
  imports Prelude "HOL-Library.Monad_Syntax"
begin

text \<open>
  Arrays and strings of C. An array is the list of its cells; an access outside it is \<^const>\<open>None\<close>. A
  \<open>char\<close> array is a \<^typ>\<open>string\<close> whose text ends at the first null character; the library functions read
  on until they meet one and fail when they run off the array.
\<close>

section \<open>Arrays\<close>

definition rd :: "'a list \<Rightarrow> nat \<Rightarrow> 'a option" where
  "rd xs i = (if i < length xs then Some (xs ! i) else None)"

definition wr :: "'a list \<Rightarrow> nat \<Rightarrow> 'a \<Rightarrow> 'a list option" where
  "wr xs i v = (if i < length xs then Some (xs[i := v]) else None)"

text \<open>A block of cells is written from the index \<open>i\<close> on (\<open>memcpy\<close>, \<open>recv\<close>).\<close>

definition wr_block :: "'a list \<Rightarrow> nat \<Rightarrow> 'a list \<Rightarrow> 'a list option" where
  "wr_block xs i bs = (if i + length bs \<le> length xs then Some (take i xs @ bs @ drop (i + length bs) xs) else None)"

lemma wr_block_length: "wr_block xs i bs = Some ys \<Longrightarrow> length ys = length xs"
  by (auto simp: wr_block_def split: if_splits)

lemma wr_length: "wr xs i v = Some ys \<Longrightarrow> length ys = length xs"
  by (auto simp: wr_def split: if_splits)

section \<open>Strings\<close>

abbreviation NUL :: char where "NUL \<equiv> CHR 0x00"

fun strlen :: "string \<Rightarrow> nat option" where
  "strlen [] = None"
| "strlen (c # cs) = (if c = NUL then Some 0 else map_option Suc (strlen cs))"

fun strncpy :: "nat \<Rightarrow> string \<Rightarrow> string option" where
  "strncpy 0 s = Some []"
| "strncpy (Suc n) [] = None"
| "strncpy (Suc n) (c # s) = (if c = NUL then Some (replicate (Suc n) NUL) else map_option (Cons c) (strncpy n s))"

text \<open>Whether \<open>strstr\<close> finds the needle.\<close>

fun strstr :: "string \<Rightarrow> string \<Rightarrow> bool option" where
  "strstr [] needle = None"
| "strstr (c # cs) needle =
     (if c = NUL then Some False
      else if take (length needle) (c # cs) = needle then Some True
      else strstr cs needle)"

text \<open>A loop \<open>while (s[i] != c) i++\<close>.\<close>

fun scan_char :: "char \<Rightarrow> string \<Rightarrow> nat option" where
  "scan_char c [] = None"
| "scan_char c (d # s) = (if d = c then Some 0 else map_option Suc (scan_char c s))"

definition find_char :: "char \<Rightarrow> string \<Rightarrow> nat \<Rightarrow> nat option" where
  "find_char c s i = map_option ((+) i) (scan_char c (drop i s))"

text \<open>The text of a string.\<close>

definition c_text :: "string \<Rightarrow> string option" where
  "c_text s = map_option (\<lambda>n. take n s) (strlen s)"

lemma strlen_Some: "strlen s = Some n \<longleftrightarrow> n < length s \<and> s ! n = NUL \<and> NUL \<notin> set (take n s)"
proof (induction s arbitrary: n)
  case (Cons c s)
  then show ?case by (cases n) auto
qed simp

lemma strlen_append: "NUL \<notin> set s \<Longrightarrow> strlen (s @ NUL # t) = Some (length s)"
  by (induction s) auto

lemma c_text_append: "NUL \<notin> set s \<Longrightarrow> c_text (s @ NUL # t) = Some s"
  by (simp add: c_text_def strlen_append)

lemma scan_char_None: "scan_char c s = None \<longleftrightarrow> c \<notin> set s"
  by (induction s) auto

lemma scan_char_append: "c \<notin> set s \<Longrightarrow> scan_char c (s @ c # t) = Some (length s)"
  by (induction s) auto

lemma scan_char_Some: "scan_char c s = Some n \<Longrightarrow> n < length s \<and> s ! n = c \<and> c \<notin> set (take n s)"
proof (induction s arbitrary: n)
  case (Cons d s)
  then show ?case by (cases n) (auto split: if_splits)
qed simp

lemma strncpy_length: "strncpy n s = Some t \<Longrightarrow> length t = n"
  by (induction n s arbitrary: t rule: strncpy.induct) (auto split: if_splits)

lemma strncpy_text: "NUL \<notin> set s \<Longrightarrow> length s < n \<Longrightarrow> strncpy n (s @ NUL # t) = Some (s @ replicate (n - length s) NUL)"
proof (induction s arbitrary: n)
  case Nil
  then show ?case by (cases n) auto
next
  case (Cons c s)
  then show ?case by (cases n) auto
qed

end
