(* ===== verification/NtyChannel.thy ===== *)
theory NtyChannel
  imports CArray
begin

text \<open>
  The character device of \<open>ntychannel_mmap.c\<close>: two channels of 4096 bytes, read and written at the
  position of the open file. Positions are 64-bit words, counts 32-bit words, as in the source. The
  kernel's answers are inputs. The user memory is given by what can be accessed of it: the bytes that can
  be read, or how many can be written; a copy beyond that faults. An access outside the channel's
  buffer or through a null pointer is \<^const>\<open>None\<close>.
\<close>

definition NTYCHANNEL_NR_DEVS :: nat where "NTYCHANNEL_NR_DEVS = 2"
definition NTYCHANNEL_SIZE :: nat where "NTYCHANNEL_SIZE = 4096"

abbreviation "ENODEV \<equiv> (19 :: int)"
abbreviation "EFAULT \<equiv> (14 :: int)"
abbreviation "EINVAL \<equiv> (22 :: int)"
abbreviation "ENOMEM \<equiv> (12 :: int)"
abbreviation "EAGAIN \<equiv> (11 :: int)"

text \<open>A channel; \<open>data\<close> is \<^const>\<open>None\<close> when it is the null pointer.\<close>

record ntychannel =
  nc_data :: "uint8 list option"
  nc_size :: uint64

text \<open>An open file: the channel it was opened for and its position.\<close>

record nty_file =
  f_channel :: nat
  f_pos :: uint64

section \<open>File operations\<close>

definition ntychannel_open :: "nat \<Rightarrow> int \<times> nat option" where
  "ntychannel_open minor = (if minor \<ge> NTYCHANNEL_NR_DEVS then (- ENODEV, None) else (0, Some minor))"

definition ntychannel_release :: "nty_file \<Rightarrow> int" where
  "ntychannel_release f = 0"

text \<open>The number of bytes to move: the 32-bit count, cut at the end of the channel.\<close>

definition nty_count :: "uint64 \<Rightarrow> uint64 \<Rightarrow> uint32" where
  "nty_count p sz =
     (let count = ucast sz :: uint32; room = word_of_nat NTYCHANNEL_SIZE - p
      in if ucast count > room then ucast room else count)"

definition ntychannel_read :: "nat \<Rightarrow> nty_file \<Rightarrow> uint64 \<Rightarrow> ntychannel list \<Rightarrow> (int \<times> uint8 list \<times> nty_file) option" where
  "ntychannel_read user f sz devp =
     do { let p = f_pos f;
          channel \<leftarrow> rd devp (f_channel f);
          if p \<ge> word_of_nat NTYCHANNEL_SIZE then Some (0, [], f)
          else do { let count = nty_count p sz;
                    data \<leftarrow> nc_data channel;
                    if unat p + unat count > length data then None
                    else do { let bytes = take (unat count) (drop (unat p) data);
                              if user < unat count then Some (- EFAULT, take user bytes, f)
                              else Some (sint count, bytes, f\<lparr>f_pos := f_pos f + ucast count\<rparr>) } } }"

text \<open>
  When the user memory ends before \<open>count\<close> bytes, \<open>copy_from_user\<close> has copied what there was, filled the
  rest of the target with zeros and reports the fault.
\<close>

definition ntychannel_write :: "nty_file \<Rightarrow> uint8 list \<Rightarrow> uint64 \<Rightarrow> ntychannel list \<Rightarrow> (int \<times> nty_file \<times> ntychannel list) option" where
  "ntychannel_write f buffer sz devp =
     do { let p = f_pos f;
          channel \<leftarrow> rd devp (f_channel f);
          if p \<ge> word_of_nat NTYCHANNEL_SIZE then Some (0, f, devp)
          else do { let count = nty_count p sz;
                    data \<leftarrow> nc_data channel;
                    let bytes = take (unat count) buffer;
                    data \<leftarrow> wr_block data (unat p) (bytes @ replicate (unat count - length bytes) 0);
                    devp \<leftarrow> wr devp (f_channel f) (channel\<lparr>nc_data := Some data\<rparr>);
                    if length buffer < unat count then Some (- EFAULT, f, devp)
                    else Some (sint count, f\<lparr>f_pos := f_pos f + ucast count\<rparr>, devp) } }"

definition ntychannel_llseek :: "nty_file \<Rightarrow> uint64 \<Rightarrow> int \<Rightarrow> int \<times> nty_file" where
  "ntychannel_llseek f offset whence =
     (let new = (if whence = 0 then Some offset
                 else if whence = 1 then Some (f_pos f + offset)
                 else if whence = 2 then Some (word_of_nat NTYCHANNEL_SIZE - 1 + offset)
                 else None)
      in case new of
           None \<Rightarrow> (- EINVAL, f)
         | Some newpos \<Rightarrow>
             if sint newpos < 0 \<or> sint newpos > int NTYCHANNEL_SIZE then (- EINVAL, f)
             else (sint newpos, f\<lparr>f_pos := newpos\<rparr>))"

text \<open>
  Mapping: the flags are set, and the physical pages from that of \<open>data\<close> on, as many as the area asks
  for, are mapped. \<open>flags\<close> are the three kernel constants, \<open>remap\<close> is the answer of \<open>remap_pfn_range\<close>.
\<close>

record vm_area =
  vm_start :: uint64
  vm_end :: uint64
  vm_flags :: uint64

unbundle bit_operations_syntax

definition ntychannel_mmap :: "uint64 \<times> uint64 \<times> uint64 \<Rightarrow> bool \<Rightarrow> uint64 \<Rightarrow> vm_area \<Rightarrow> int \<times> vm_area \<times> (uint64 \<times> uint64) option" where
  "ntychannel_mmap flags remap phys vma =
     (case flags of (vm_io, vm_dontexpand, vm_dontdump) \<Rightarrow>
        let vma = vma\<lparr>vm_flags := vm_flags vma OR vm_io\<rparr>;
            vma = vma\<lparr>vm_flags := vm_flags vma OR (vm_dontexpand OR vm_dontdump)\<rparr>
        in if \<not> remap then (- EAGAIN, vma, None)
           else (0, vma, Some (drop_bit 12 phys, vm_end vma - vm_start vma)))"

section \<open>Loading and unloading\<close>

text \<open>
  The module: its major number, the channels, how many device numbers are registered, and whether the
  device is added. \<open>reg\<close> is the
  answer of the registration, \<open>major\<close> the number \<open>alloc_chrdev_region\<close> hands out, \<open>devs\<close> whether the array of
  channels is allocated, \<open>mem i\<close> whether the data of channel \<open>i\<close> is.
\<close>

record nty_module =
  nm_major :: int
  nm_devp :: "ntychannel list option"
  nm_regions :: int
  nm_cdev :: bool

fun init_channels :: "(nat \<Rightarrow> bool) \<Rightarrow> nat \<Rightarrow> nat \<Rightarrow> ntychannel list option" where
  "init_channels mem i 0 = Some []"
| "init_channels mem i (Suc n) =
     (if mem i then map_option (Cons \<lparr>nc_data = Some (replicate NTYCHANNEL_SIZE 0), nc_size = word_of_nat NTYCHANNEL_SIZE\<rparr>) (init_channels mem (i + 1) n)
      else None)"

definition ntychannel_init :: "int \<Rightarrow> int \<Rightarrow> int \<Rightarrow> bool \<Rightarrow> (nat \<Rightarrow> bool) \<Rightarrow> (int \<times> nty_module) option" where
  "ntychannel_init channel_major reg major devs mem =
     (let m = \<lparr>nm_major = (if channel_major \<noteq> 0 then channel_major else major), nm_devp = None, nm_regions = (if reg < 0 then 0 else int NTYCHANNEL_NR_DEVS), nm_cdev = (reg \<ge> 0)\<rparr>
      in if reg < 0 then Some (reg, m)
         else if \<not> devs then Some (- ENOMEM, m\<lparr>nm_regions := nm_regions m - 1\<rparr>)
         else do { chs \<leftarrow> init_channels mem 0 NTYCHANNEL_NR_DEVS; Some (0, m\<lparr>nm_devp := Some chs\<rparr>) })"

definition ntychannel_exit :: "nty_module \<Rightarrow> nty_module" where
  "ntychannel_exit m = m\<lparr>nm_cdev := False, nm_devp := None, nm_regions := nm_regions m - 2\<rparr>"

section \<open>Results in numbers\<close>

lemmas nty_consts = NTYCHANNEL_SIZE_def NTYCHANNEL_NR_DEVS_def

lemma unat_ucast_up: "LENGTH('a) \<le> LENGTH('b) \<Longrightarrow> unat (ucast (w :: 'a :: len word) :: 'b :: len word) = unat w"
  by (simp add: unsigned_ucast_eq take_bit_nat_eq_self order.strict_trans2 [OF unsigned_less])

lemma nty_room: "unat p < NTYCHANNEL_SIZE \<Longrightarrow> unat (word_of_nat NTYCHANNEL_SIZE - p :: uint64) = NTYCHANNEL_SIZE - unat p"
  by (subst unat_sub) (simp_all add: nty_consts word_le_nat_alt)

lemma nty_pos_less: "word_of_nat NTYCHANNEL_SIZE \<le> (p :: uint64) \<longleftrightarrow> NTYCHANNEL_SIZE \<le> unat p"
  by (simp add: nty_consts word_le_nat_alt)

definition nty_len :: "nat \<Rightarrow> uint64 \<Rightarrow> nat" where
  "nty_len p sz = min (unat sz mod 2 ^ 32) (NTYCHANNEL_SIZE - p)"

lemma nty_count_len:
  assumes "unat p < NTYCHANNEL_SIZE"
  shows "unat (nty_count p sz) = nty_len (unat p) sz"
proof -
  let ?room = "word_of_nat NTYCHANNEL_SIZE - p :: uint64" and ?c = "ucast sz :: uint32"
  have r: "unat ?room = NTYCHANNEL_SIZE - unat p" "unat ?room \<le> 4096" using nty_room [OF assms] by (auto simp: nty_consts)
  have c: "unat ?c = unat sz mod 2 ^ 32" by (simp add: unsigned_ucast_eq take_bit_eq_mod)
  have "unat (ucast ?c :: uint64) = unat ?c" by (rule unat_ucast_up) simp
  moreover have "unat (ucast ?room :: uint32) = unat ?room" using r(2) by (simp add: unsigned_ucast_eq take_bit_nat_eq_self)
  ultimately show ?thesis using r(1) c by (auto simp: nty_count_def nty_len_def Let_def word_less_nat_alt min_def)
qed

lemma nty_count_sint:
  assumes "unat p < NTYCHANNEL_SIZE"
  shows "sint (nty_count p sz) = int (nty_len (unat p) sz)"
proof -
  have "unat (nty_count p sz) < 2 ^ 31" using nty_count_len [OF assms, of sz] by (simp add: nty_len_def nty_consts)
  then have "sint (nty_count p sz) = int (unat (nty_count p sz))" by (intro sint_small) simp_all
  then show ?thesis using nty_count_len [OF assms, of sz] by simp
qed

lemma nty_count_pos:
  assumes "unat p < NTYCHANNEL_SIZE"
  shows "unat (p + ucast (nty_count p sz)) = unat p + nty_len (unat p) sz"
proof -
  have "unat (ucast (nty_count p sz) :: uint64) = nty_len (unat p) sz" using nty_count_len [OF assms, of sz] by (subst unat_ucast_up) simp_all
  then show ?thesis using assms by (subst unat_word_ariths) (simp add: nty_len_def nty_consts)
qed

section \<open>Well-formed states\<close>

definition channels_ok :: "ntychannel list \<Rightarrow> bool" where
  "channels_ok devp \<longleftrightarrow> length devp = NTYCHANNEL_NR_DEVS \<and> (\<forall>c \<in> set devp. \<exists>d. nc_data c = Some d \<and> length d = NTYCHANNEL_SIZE)"

definition file_ok :: "nty_file \<Rightarrow> bool" where
  "file_ok f \<longleftrightarrow> f_channel f < NTYCHANNEL_NR_DEVS \<and> unat (f_pos f) \<le> NTYCHANNEL_SIZE"

text \<open>The bytes of a channel.\<close>

definition channel_bytes :: "ntychannel list \<Rightarrow> nat \<Rightarrow> uint8 list" where
  "channel_bytes devp i = the (nc_data (devp ! i))"

lemma channel_of:
  assumes "channels_ok devp" "i < NTYCHANNEL_NR_DEVS"
  shows "rd devp i = Some (devp ! i)" "nc_data (devp ! i) = Some (channel_bytes devp i)" "length (channel_bytes devp i) = NTYCHANNEL_SIZE"
proof -
  have "devp ! i \<in> set devp" using assms by (auto simp: channels_ok_def)
  then obtain d where "nc_data (devp ! i) = Some d" "length d = NTYCHANNEL_SIZE" using assms(1) by (auto simp: channels_ok_def)
  then show "rd devp i = Some (devp ! i)" "nc_data (devp ! i) = Some (channel_bytes devp i)" "length (channel_bytes devp i) = NTYCHANNEL_SIZE"
    using assms by (auto simp: channels_ok_def rd_def channel_bytes_def)
qed

lemma nty_read_result:
  assumes "channels_ok devp" "file_ok f"
  defines "p \<equiv> unat (f_pos f)"
  shows "\<exists>f'. ntychannel_read user f sz devp = Some (if p = NTYCHANNEL_SIZE then (0, [], f)
      else if user < nty_len p sz then (- EFAULT, take user (take (nty_len p sz) (drop p (channel_bytes devp (f_channel f)))), f)
      else (int (nty_len p sz), take (nty_len p sz) (drop p (channel_bytes devp (f_channel f))), f'))
    \<and> f_channel f' = f_channel f \<and> (p < NTYCHANNEL_SIZE \<longrightarrow> unat (f_pos f') = p + nty_len p sz)"
proof (cases "p = NTYCHANNEL_SIZE")
  case True
  then show ?thesis using assms channel_of [OF assms(1), of "f_channel f"]
    by (intro exI [of _ f]) (simp add: ntychannel_read_def nty_pos_less file_ok_def)
next
  case False
  then have p: "unat (f_pos f) < NTYCHANNEL_SIZE" using assms by (simp add: file_ok_def)
  have "unat (f_pos f) + nty_len p sz \<le> NTYCHANNEL_SIZE" using p by (simp add: nty_len_def p_def)
  then show ?thesis using False p assms(2) channel_of [OF assms(1), of "f_channel f"] nty_count_len [OF p, of sz] nty_count_sint [OF p, of sz] nty_count_pos [OF p, of sz]
    by (intro exI [of _ "f\<lparr>f_pos := f_pos f + ucast (nty_count (f_pos f) sz)\<rparr>"])
      (simp add: ntychannel_read_def nty_pos_less file_ok_def p_def not_le Let_def)
qed

text \<open>What a write leaves in the channel.\<close>

definition written :: "uint8 list \<Rightarrow> nat \<Rightarrow> nat \<Rightarrow> uint8 list \<Rightarrow> uint8 list" where
  "written d p n buffer = take p d @ take n buffer @ replicate (n - length buffer) 0 @ drop (p + n) d"

lemma channels_ok_update:
  assumes "channels_ok devp" "i < NTYCHANNEL_NR_DEVS" "length d = NTYCHANNEL_SIZE"
  shows "channels_ok (devp[i := (devp ! i)\<lparr>nc_data := Some d\<rparr>])"
    "channel_bytes (devp[i := (devp ! i)\<lparr>nc_data := Some d\<rparr>]) j = (if j = i then d else channel_bytes devp j)"
  using assms by (auto simp: channels_ok_def channel_bytes_def nth_list_update dest!: set_update_subset_insert [THEN subsetD])

lemma nty_write_result:
  fixes sz :: uint64
  assumes "channels_ok devp" "file_ok f" "unat (f_pos f) < NTYCHANNEL_SIZE"
  defines "p \<equiv> unat (f_pos f)" and "i \<equiv> f_channel f" and "n \<equiv> nty_len (unat (f_pos f)) sz"
  shows "\<exists>f' devp'. ntychannel_write f buffer sz devp = Some (if length buffer < n then (- EFAULT, f, devp') else (int n, f', devp'))
    \<and> channels_ok devp' \<and> f_channel f' = i \<and> unat (f_pos f') = p + n
    \<and> (\<forall>j. channel_bytes devp' j = (if j = i then written (channel_bytes devp i) p n buffer else channel_bytes devp j))"
proof -
  let ?d = "channel_bytes devp i" and ?d' = "written (channel_bytes devp i) p n buffer"
  have i: "i < NTYCHANNEL_NR_DEVS" using assms(2) by (simp add: file_ok_def i_def)
  have n: "p + n \<le> NTYCHANNEL_SIZE" using assms(3) by (simp add: nty_len_def p_def n_def)
  have d: "length ?d = NTYCHANNEL_SIZE" using channel_of [OF assms(1) i] by simp
  have len: "length ?d' = NTYCHANNEL_SIZE" using n d by (auto simp: written_def min_def)
  have w: "wr_block ?d p (take n buffer @ replicate (n - length (take n buffer)) 0) = Some ?d'"
    using n d by (auto simp: wr_block_def written_def min_def)
  let ?devp = "devp[i := (devp ! i)\<lparr>nc_data := Some ?d'\<rparr>]"
  have "wr devp i ((devp ! i)\<lparr>nc_data := Some ?d'\<rparr>) = Some ?devp" using assms(1) i by (simp add: wr_def channels_ok_def)
  then have "ntychannel_write f buffer sz devp = Some (if length buffer < n then (- EFAULT, f, ?devp) else (int n, f\<lparr>f_pos := f_pos f + ucast (nty_count (f_pos f) sz)\<rparr>, ?devp))"
    using assms(3) channel_of [OF assms(1) i] nty_count_len [OF assms(3), of sz] nty_count_sint [OF assms(3), of sz] w
    by (simp add: ntychannel_write_def nty_pos_less p_def i_def n_def Let_def not_le)
  then show ?thesis using channels_ok_update [OF assms(1) i len] nty_count_pos [OF assms(3), of sz]
    by (intro exI [of _ "f\<lparr>f_pos := f_pos f + ucast (nty_count (f_pos f) sz)\<rparr>"] exI [of _ ?devp]) (simp add: p_def i_def n_def)
qed

section \<open>A process at work\<close>

datatype nty_op = Read nat uint64 | Write "uint8 list" uint64 | Seek uint64 int

fun nty_step :: "nty_op \<Rightarrow> nty_file \<times> ntychannel list \<Rightarrow> (int \<times> nty_file \<times> ntychannel list) option" where
  "nty_step (Read user sz) (f, devp) = do { (r, out, f) \<leftarrow> ntychannel_read user f sz devp; Some (r, f, devp) }"
| "nty_step (Write buffer sz) (f, devp) = ntychannel_write f buffer sz devp"
| "nty_step (Seek offset whence) (f, devp) = (case ntychannel_llseek f offset whence of (r, f) \<Rightarrow> Some (r, f, devp))"

lemma nty_seek_ok:
  assumes "file_ok f" "ntychannel_llseek f offset whence = (r, f')"
  shows "file_ok f' \<and> (r = - EINVAL \<or> 0 \<le> r \<and> r \<le> int NTYCHANNEL_SIZE)"
proof -
  have "unat w \<le> NTYCHANNEL_SIZE" if "0 \<le> sint w" "sint w \<le> int NTYCHANNEL_SIZE" for w :: uint64
  proof -
    have "uint w = take_bit 64 (sint w)" using uint_sint [of w] by simp
    then have "uint w = sint w" using that by (simp add: nty_consts take_bit_int_eq_self)
    then show ?thesis using that(2) by (simp add: unat_eq_nat_uint)
  qed
  then show ?thesis using assms by (auto simp: ntychannel_llseek_def Let_def file_ok_def split: if_splits)
qed


text \<open>
  C36. Channels keep their 4096 bytes and an open file its position between 0 and 4096: every read, write
  and seek on such a state, whatever its arguments, returns without an access outside the channel, leaves
  such a state, and its result is a number of bytes or position in the range or one of two errors.
\<close>

theorem nty_state_typed:
  assumes "channels_ok devp" "file_ok f"
  shows "\<exists>r f' devp'. nty_step op (f, devp) = Some (r, f', devp') \<and> channels_ok devp' \<and> file_ok f'
    \<and> (r \<in> {- EFAULT, - EINVAL} \<or> 0 \<le> r \<and> r \<le> int NTYCHANNEL_SIZE)"
proof (cases op)
  case (Read user sz)
  let ?p = "unat (f_pos f)"
  obtain f' where "ntychannel_read user f sz devp = Some (if ?p = NTYCHANNEL_SIZE then (0, [], f)
      else if user < nty_len ?p sz then (- EFAULT, take user (take (nty_len ?p sz) (drop ?p (channel_bytes devp (f_channel f)))), f)
      else (int (nty_len ?p sz), take (nty_len ?p sz) (drop ?p (channel_bytes devp (f_channel f))), f'))"
    "f_channel f' = f_channel f" "?p < NTYCHANNEL_SIZE \<longrightarrow> unat (f_pos f') = ?p + nty_len ?p sz"
    using nty_read_result [OF assms, of user sz] by blast
  then show ?thesis using Read assms by (auto simp: file_ok_def nty_len_def)
next
  case (Write buffer sz)
  show ?thesis
  proof (cases "unat (f_pos f) < NTYCHANNEL_SIZE")
    case True
    let ?n = "nty_len (unat (f_pos f)) sz"
    obtain f' devp' where "ntychannel_write f buffer sz devp = Some (if length buffer < ?n then (- EFAULT, f, devp') else (int ?n, f', devp'))"
      "channels_ok devp'" "f_channel f' = f_channel f" "unat (f_pos f') = unat (f_pos f) + ?n" using nty_write_result [OF assms True, of buffer sz] by blast
    moreover have "unat (f_pos f) + ?n \<le> NTYCHANNEL_SIZE" using True by (simp add: nty_len_def)
    ultimately show ?thesis using Write assms(2) by (auto simp: file_ok_def)
  next
    case False
    then show ?thesis using Write assms channel_of(1) [OF assms(1), of "f_channel f"] by (simp add: ntychannel_write_def nty_pos_less file_ok_def)
  qed
next
  case (Seek offset whence)
  obtain r f' where "ntychannel_llseek f offset whence = (r, f')" by fastforce
  then show ?thesis using Seek assms nty_seek_ok [OF assms(2)] by auto
qed

lemma seek_set:
  assumes "unat w \<le> NTYCHANNEL_SIZE"
  shows "ntychannel_llseek f w 0 = (int (unat w), f\<lparr>f_pos := w\<rparr>)"
proof -
  have u: "uint w = int (unat w)" by simp
  have small: "uint w \<le> 4096" using assms unfolding u nty_consts by linarith
  moreover have "- (2 ^ 63) \<le> uint w" by (rule order.trans [OF _ uint_ge_0]) simp
  ultimately have "signed_take_bit 63 (uint w) = uint w" by (intro signed_take_bit_int_eq_self) simp_all
  then have "sint w = int (unat w)" by (simp add: sint_uint)
  then show ?thesis using small by (simp add: ntychannel_llseek_def Let_def nty_consts)
qed

section \<open>Properties\<close>

lemma init_channels_ok: "ntychannel_init major reg new True (\<lambda>i. True) = Some (0, m) \<Longrightarrow> 0 \<le> reg \<Longrightarrow> \<exists>devp. nm_devp m = Some devp \<and> channels_ok devp"
  by (auto simp: ntychannel_init_def NTYCHANNEL_NR_DEVS_def numeral_2_eq_2 channels_ok_def Let_def)

definition zero_channels :: "ntychannel list" where
  "zero_channels = replicate 2 \<lparr>nc_data = Some (replicate NTYCHANNEL_SIZE 0), nc_size = word_of_nat NTYCHANNEL_SIZE\<rparr>"

lemma zero_channels_ok: "channels_ok zero_channels"
  by (simp add: channels_ok_def zero_channels_def nty_consts)

theorem nty_state_typed_witness:
  "\<exists>r f' devp'. nty_step (Write [1, 2] 9000) (\<lparr>f_channel = 1, f_pos = 4095\<rparr>, zero_channels) = Some (r, f', devp') \<and> channels_ok devp' \<and> file_ok f'"
  using nty_state_typed [OF zero_channels_ok, of "\<lparr>f_channel = 1, f_pos = 4095\<rparr>" "Write [1, 2] 9000"] by (auto simp: file_ok_def nty_consts)

text \<open>
  Bytes written at a position, with room for them in the channel, are read back unchanged after seeking
  to that position; the rest of the channel and the other channel stay as they were.
\<close>

theorem nty_write_read:
  assumes "channels_ok devp" "file_ok f" "unat (f_pos f) + length bs \<le> NTYCHANNEL_SIZE" "bs \<noteq> []" "length bs \<le> user"
  shows "\<exists>f1 devp1 f2 f3. ntychannel_write f bs (of_nat (length bs)) devp = Some (int (length bs), f1, devp1)
    \<and> ntychannel_llseek f1 (f_pos f) 0 = (int (unat (f_pos f)), f2)
    \<and> ntychannel_read user f2 (of_nat (length bs)) devp1 = Some (int (length bs), bs, f3)
    \<and> f_pos f3 = f_pos f1 \<and> f_channel f3 = f_channel f
    \<and> (\<forall>j. channel_bytes devp1 j = (if j = f_channel f
         then take (unat (f_pos f)) (channel_bytes devp j) @ bs @ drop (unat (f_pos f) + length bs) (channel_bytes devp j) else channel_bytes devp j))"
proof -
  let ?p = "unat (f_pos f)" and ?n = "length bs" and ?i = "f_channel f"
  have p: "?p < NTYCHANNEL_SIZE" using assms(3,4) by (cases bs) auto
  have "unat (of_nat ?n :: uint64) = ?n" using assms(3) by (simp add: nty_consts unat_of_nat)
  then have n: "nty_len ?p (of_nat ?n) = ?n" using assms(3) by (simp add: nty_len_def nty_consts)
  obtain f1 devp1 where w: "ntychannel_write f bs (of_nat ?n) devp = Some (int ?n, f1, devp1)" "channels_ok devp1" "f_channel f1 = ?i" "unat (f_pos f1) = ?p + ?n"
    "\<forall>j. channel_bytes devp1 j = (if j = ?i then written (channel_bytes devp ?i) ?p ?n bs else channel_bytes devp j)"
    using nty_write_result [OF assms(1,2) p, of bs "of_nat ?n", unfolded n] by auto
  define f2 where "f2 = f1\<lparr>f_pos := f_pos f\<rparr>"
  have seek: "ntychannel_llseek f1 (f_pos f) 0 = (int ?p, f2)" using seek_set [of "f_pos f" f1] p by (simp add: f2_def)
  have f2: "file_ok f2" "unat (f_pos f2) = ?p" "f_channel f2 = ?i" using assms(2) w(3) by (auto simp: file_ok_def f2_def)
  have len: "length (channel_bytes devp ?i) = NTYCHANNEL_SIZE" using channel_of [OF assms(1)] assms(2) by (simp add: file_ok_def)
  have bytes: "take ?n (drop ?p (channel_bytes devp1 ?i)) = bs" using w(5) len p by (simp add: written_def)
  obtain f3 where r: "ntychannel_read user f2 (of_nat ?n) devp1 = Some (int ?n, bs, f3)" "f_channel f3 = ?i" "unat (f_pos f3) = ?p + ?n"
    using nty_read_result [OF w(2) f2(1), of user "of_nat ?n", unfolded f2 n bytes] p assms(5) by (auto split: if_splits)
  have "f_pos f3 = f_pos f1" using r(3) w(4) by (simp add: word_unat_eq_iff)
  then show ?thesis using w(1,5) seek r(1,2) by (auto simp: written_def)
qed

theorem nty_write_read_witness:
  "\<exists>f1 devp1 f2 f3. ntychannel_write \<lparr>f_channel = 0, f_pos = 10\<rparr> [7, 8] 2 zero_channels = Some (2, f1, devp1)
    \<and> ntychannel_llseek f1 10 0 = (10, f2) \<and> ntychannel_read 2 f2 2 devp1 = Some (2, [7, 8], f3)"
  using nty_write_read [OF zero_channels_ok, of "\<lparr>f_channel = 0, f_pos = 10\<rparr>" "[7, 8]" 2] by (auto simp: file_ok_def nty_consts)

end
