(* ===== verification/Reactor.thy ===== *)
theory Reactor
  imports CArray "HOL-Library.Signed_Division"
begin

text \<open>
  The reactor of \<open>httpserver.cpp\<close> and \<open>reactor.cpp\<close>, which share this code: the blocks of connections
  indexed by descriptor, the listeners, and the loop that calls the callback of the connection an event
  is for. What a connection holds is left open here.

  \<open>new\<close> throws when there is no memory and then the program ends; only its success is modelled. A new
  block is not initialised apart from the members with an initialiser, so its contents are the
  parameter \<open>mem\<close>: \<open>mem k i\<close> is what the \<open>i\<close>-th connection of the \<open>k\<close>-th block holds when it is
  allocated. The kernel's part is the interest list of the epoll descriptor.
\<close>

unbundle bit_operations_syntax

definition BLOCK_SIZE :: nat where "BLOCK_SIZE = 1024"
definition BUFFER_SIZE :: nat where "BUFFER_SIZE = 1024"

definition EPOLLIN :: uint32 where "EPOLLIN = 1"
definition EPOLLOUT :: uint32 where "EPOLLOUT = 4"

text \<open>The values of a member \<open>cb\<close>; the last stands for one that was never set.\<close>

datatype zv_callback = ACCEPT_CB | RECV_CB | SEND_CB | UNSET_CB

record 'c zv_reactor =
  zr_epfd :: int
  zr_blocknum :: int
  zr_connblocks :: "'c list list"
  zr_interest :: "int \<rightharpoonup> uint32"
  zr_sent :: "(int \<times> string) list"
  zr_closed :: "int list"

section \<open>The kernel's interest list\<close>

definition epoll_add :: "int \<Rightarrow> uint32 \<Rightarrow> 'c zv_reactor \<Rightarrow> 'c zv_reactor" where
  "epoll_add fd ev R = (if zr_interest R fd = None then R\<lparr>zr_interest := (zr_interest R)(fd \<mapsto> ev)\<rparr> else R)"

definition epoll_mod :: "int \<Rightarrow> uint32 \<Rightarrow> 'c zv_reactor \<Rightarrow> 'c zv_reactor" where
  "epoll_mod fd ev R = (if zr_interest R fd = None then R else R\<lparr>zr_interest := (zr_interest R)(fd \<mapsto> ev)\<rparr>)"

definition epoll_del :: "int \<Rightarrow> 'c zv_reactor \<Rightarrow> 'c zv_reactor" where
  "epoll_del fd R = R\<lparr>zr_interest := (zr_interest R)(fd := None)\<rparr>"

definition close_fd :: "int \<Rightarrow> 'c zv_reactor \<Rightarrow> 'c zv_reactor" where
  "close_fd fd R = R\<lparr>zr_closed := zr_closed R @ [fd], zr_interest := (zr_interest R)(fd := None)\<rparr>"

definition send_bytes :: "int \<Rightarrow> string \<Rightarrow> 'c zv_reactor \<Rightarrow> 'c zv_reactor" where
  "send_bytes fd bs R = R\<lparr>zr_sent := zr_sent R @ [(fd, bs)]\<rparr>"

section \<open>Blocks of connections\<close>

definition new_block :: "(nat \<Rightarrow> nat \<Rightarrow> 'c) \<Rightarrow> nat \<Rightarrow> 'c list" where
  "new_block mem k = map (mem k) [0..<BLOCK_SIZE]"

definition zv_init_reactor :: "(nat \<Rightarrow> nat \<Rightarrow> 'c) \<Rightarrow> int \<Rightarrow> 'c zv_reactor" where
  "zv_init_reactor mem ep =
     \<lparr>zr_epfd = ep, zr_blocknum = 1, zr_connblocks = [new_block mem 0], zr_interest = Map.empty, zr_sent = [], zr_closed = []\<rparr>"

fun free_blocks :: "'c list list \<Rightarrow> 'c list list" where
  "free_blocks [] = []"
| "free_blocks (pre # cur) = free_blocks cur"

definition zv_dest_reactor :: "'c zv_reactor \<Rightarrow> 'c zv_reactor" where
  "zv_dest_reactor R = close_fd (zr_epfd R) (R\<lparr>zr_connblocks := free_blocks (zr_connblocks R)\<rparr>)"

definition zv_connect_openblock :: "(nat \<Rightarrow> nat \<Rightarrow> 'c) \<Rightarrow> 'c zv_reactor \<Rightarrow> 'c zv_reactor" where
  "zv_connect_openblock mem R =
     R\<lparr>zr_connblocks := zr_connblocks R @ [new_block mem (length (zr_connblocks R))], zr_blocknum := zr_blocknum R + 1\<rparr>"

function open_blocks :: "(nat \<Rightarrow> nat \<Rightarrow> 'c) \<Rightarrow> int \<Rightarrow> 'c zv_reactor \<Rightarrow> 'c zv_reactor" where
  "open_blocks mem blockidx R =
     (if blockidx \<ge> zr_blocknum R then open_blocks mem blockidx (zv_connect_openblock mem R) else R)"
  by pat_completeness auto
termination
  by (relation "measure (\<lambda>(mem, blockidx, R). nat (blockidx - zr_blocknum R + 1))") (auto simp: zv_connect_openblock_def)

declare open_blocks.simps [simp del]

text \<open>A pointer to a connection: the block and the index in it.\<close>

definition zv_connect_idx :: "(nat \<Rightarrow> nat \<Rightarrow> 'c) \<Rightarrow> int \<Rightarrow> 'c zv_reactor \<Rightarrow> ((nat \<times> nat) \<times> 'c zv_reactor) option" where
  "zv_connect_idx mem fd R =
     (let blockidx = fd sdiv int BLOCK_SIZE;
          R = open_blocks mem blockidx R;
          i = fd smod int BLOCK_SIZE
      in if i < 0 \<or> nat blockidx \<ge> length (zr_connblocks R) then None else Some ((nat blockidx, nat i), R))"

definition conn_at :: "'c zv_reactor \<Rightarrow> nat \<times> nat \<Rightarrow> 'c option" where
  "conn_at R s = do { b \<leftarrow> rd (zr_connblocks R) (fst s); rd b (snd s) }"

definition put_conn :: "nat \<times> nat \<Rightarrow> 'c \<Rightarrow> 'c zv_reactor \<Rightarrow> 'c zv_reactor option" where
  "put_conn s c R =
     do { b \<leftarrow> rd (zr_connblocks R) (fst s);
          b \<leftarrow> wr b (snd s) c;
          Some (R\<lparr>zr_connblocks := (zr_connblocks R)[fst s := b]\<rparr>) }"

section \<open>The event loop\<close>

text \<open>
  What the kernel gives to a callback: the descriptor \<open>accept\<close> returns, the bytes \<open>recv\<close> reads (none at
  the end of the stream, \<^const>\<open>None\<close> on an error), the contents of fresh memory, and the file system as
  the first and the second \<open>open\<close> of the callback find it.
\<close>

record reactor_io =
  io_accept :: int
  io_recv :: "string option"
  io_new :: string
  io_fs :: "string \<Rightarrow> string option"
  io_fs2 :: "string \<Rightarrow> string option"

type_synonym event = "int \<times> uint32 \<times> reactor_io \<times> reactor_io"

definition handle_event :: "(nat \<Rightarrow> nat \<Rightarrow> 'c) \<Rightarrow> ('c \<Rightarrow> zv_callback)
    \<Rightarrow> (reactor_io \<Rightarrow> zv_callback \<Rightarrow> int \<Rightarrow> 'c zv_reactor \<Rightarrow> 'c zv_reactor option) \<Rightarrow> event \<Rightarrow> 'c zv_reactor \<Rightarrow> 'c zv_reactor option" where
  "handle_event mem cb_of call e R =
     (case e of (confd, events, io, io') \<Rightarrow>
        do { (conn, R) \<leftarrow> zv_connect_idx mem confd R;
             R \<leftarrow> (if events AND EPOLLIN \<noteq> 0 then do { c \<leftarrow> conn_at R conn; call io (cb_of c) confd R } else Some R);
             if events AND EPOLLOUT \<noteq> 0 then do { c \<leftarrow> conn_at R conn; call io' (cb_of c) confd R } else Some R })"

fun handle_events :: "(nat \<Rightarrow> nat \<Rightarrow> 'c) \<Rightarrow> ('c \<Rightarrow> zv_callback)
    \<Rightarrow> (reactor_io \<Rightarrow> zv_callback \<Rightarrow> int \<Rightarrow> 'c zv_reactor \<Rightarrow> 'c zv_reactor option) \<Rightarrow> event list \<Rightarrow> 'c zv_reactor \<Rightarrow> 'c zv_reactor option" where
  "handle_events mem cb_of call [] R = Some R"
| "handle_events mem cb_of call (e # es) R = do { R \<leftarrow> handle_event mem cb_of call e R; handle_events mem cb_of call es R }"

section \<open>The connections as a table\<close>

definition blocks_ok :: "'c zv_reactor \<Rightarrow> bool" where
  "blocks_ok R \<longleftrightarrow> zr_blocknum R = int (length (zr_connblocks R)) \<and> zr_connblocks R \<noteq> [] \<and> (\<forall>b \<in> set (zr_connblocks R). length b = BLOCK_SIZE)"

definition conn_table :: "(nat \<Rightarrow> nat \<Rightarrow> 'c) \<Rightarrow> 'c zv_reactor \<Rightarrow> int \<Rightarrow> 'c" where
  "conn_table mem R fd =
     (let b = nat fd div BLOCK_SIZE; i = nat fd mod BLOCK_SIZE
      in if b < length (zr_connblocks R) then zr_connblocks R ! b ! i else mem b i)"

text \<open>The state apart from the blocks.\<close>

definition same_rest :: "'c zv_reactor \<Rightarrow> 'c zv_reactor \<Rightarrow> bool" where
  "same_rest R R' \<longleftrightarrow> zr_epfd R' = zr_epfd R \<and> zr_interest R' = zr_interest R \<and> zr_sent R' = zr_sent R \<and> zr_closed R' = zr_closed R"

abbreviation slot_of :: "int \<Rightarrow> nat \<times> nat" where
  "slot_of fd \<equiv> (nat fd div BLOCK_SIZE, nat fd mod BLOCK_SIZE)"

lemma openblock_ok:
  assumes "blocks_ok R"
  shows "blocks_ok (zv_connect_openblock mem R)" "conn_table mem (zv_connect_openblock mem R) = conn_table mem R"
    "same_rest R (zv_connect_openblock mem R)" "length (zr_connblocks (zv_connect_openblock mem R)) = Suc (length (zr_connblocks R))"
  using assms
  by (auto simp: blocks_ok_def zv_connect_openblock_def new_block_def same_rest_def conn_table_def Let_def fun_eq_iff nth_append less_Suc_eq BLOCK_SIZE_def)

lemma open_blocks_ok:
  "blocks_ok R \<Longrightarrow> blocks_ok (open_blocks mem k R) \<and> conn_table mem (open_blocks mem k R) = conn_table mem R \<and> same_rest R (open_blocks mem k R)
    \<and> k < int (length (zr_connblocks (open_blocks mem k R))) \<and> length (zr_connblocks R) \<le> length (zr_connblocks (open_blocks mem k R))"
proof (induction mem k R rule: open_blocks.induct)
  case (1 mem k R)
  show ?case
  proof (cases "k \<ge> zr_blocknum R")
    case True
    show ?thesis using 1(1) [OF True openblock_ok(1) [OF 1(2)]] openblock_ok [OF 1(2), of mem] True
      by (subst (1 2 3 4 5) open_blocks.simps) (auto simp: same_rest_def)
  next
    case False
    then show ?thesis using 1(2) by (subst (1 2 3 4 5) open_blocks.simps) (auto simp: same_rest_def blocks_ok_def)
  qed
qed

lemma zv_connect_idx_ok:
  assumes "blocks_ok R" "0 \<le> fd"
  obtains R' where "zv_connect_idx mem fd R = Some (slot_of fd, R')" "blocks_ok R'" "conn_table mem R' = conn_table mem R" "same_rest R R'"
    "nat fd div BLOCK_SIZE < length (zr_connblocks R')"
proof -
  obtain n where "fd = int n" using assms(2) nonneg_int_cases by blast
  then have d: "fd sdiv int BLOCK_SIZE = int (nat fd div BLOCK_SIZE)" "fd smod int BLOCK_SIZE = int (nat fd mod BLOCK_SIZE)"
    by (auto simp: signed_divide_int_def signed_modulo_int_def BLOCK_SIZE_def sgn_if zdiv_int zmod_int)
  show ?thesis using open_blocks_ok [OF assms(1), of mem "fd sdiv int BLOCK_SIZE"] that unfolding zv_connect_idx_def Let_def d by auto
qed


lemma conn_at_table:
  assumes "blocks_ok R" "nat fd div BLOCK_SIZE < length (zr_connblocks R)"
  shows "conn_at R (slot_of fd) = Some (conn_table mem R fd)"
proof -
  have "length (zr_connblocks R ! (nat fd div BLOCK_SIZE)) = BLOCK_SIZE" using assms by (auto simp: blocks_ok_def)
  then show ?thesis using assms(2) by (simp add: conn_at_def rd_def conn_table_def Let_def BLOCK_SIZE_def)
qed

lemma put_conn_ok:
  assumes "blocks_ok R" "nat fd div BLOCK_SIZE < length (zr_connblocks R)" "0 \<le> fd"
  obtains R' where "put_conn (slot_of fd) c R = Some R'" "blocks_ok R'" "same_rest R R'" "length (zr_connblocks R') = length (zr_connblocks R)"
    "\<And>fd'. 0 \<le> fd' \<Longrightarrow> conn_table mem R' fd' = (if fd' = fd then c else conn_table mem R fd')"
proof -
  let ?b = "nat fd div BLOCK_SIZE" and ?i = "nat fd mod BLOCK_SIZE"
  let ?R = "R\<lparr>zr_connblocks := (zr_connblocks R)[?b := (zr_connblocks R ! ?b)[?i := c]]\<rparr>"
  have len: "length (zr_connblocks R ! ?b) = BLOCK_SIZE" and all: "\<forall>b \<in> set (zr_connblocks R). length b = BLOCK_SIZE" using assms by (auto simp: blocks_ok_def)
  have "put_conn (slot_of fd) c R = Some ?R" using assms(2) len by (simp add: put_conn_def rd_def wr_def BLOCK_SIZE_def)
  moreover have "blocks_ok ?R" using assms(1) len all by (auto simp: blocks_ok_def dest!: set_update_subset_insert [THEN subsetD])
  moreover have "conn_table mem ?R fd' = (if fd' = fd then c else conn_table mem R fd')" if "0 \<le> fd'" for fd'
  proof -
    have eq: "fd' = fd \<longleftrightarrow> nat fd' div BLOCK_SIZE = ?b \<and> nat fd' mod BLOCK_SIZE = ?i"
      using that assms(3) by (metis div_mult_mod_eq nat_eq_iff2 nat_0_le)
    show ?thesis using assms(2) len by (auto simp: conn_table_def Let_def nth_list_update eq BLOCK_SIZE_def)
  qed
  ultimately show ?thesis using that by (simp add: same_rest_def)
qed

section \<open>Armed connections\<close>

definition armed :: "uint32 \<Rightarrow> zv_callback \<Rightarrow> bool" where
  "armed ev cb \<longleftrightarrow> ev = EPOLLIN \<and> (cb = ACCEPT_CB \<or> cb = RECV_CB) \<or> ev = EPOLLOUT \<and> cb = SEND_CB"

text \<open>
  Every descriptor in the interest list has a connection that knows it and whose callback fits the event
  it waits for.
\<close>

definition reactor_inv :: "(nat \<Rightarrow> nat \<Rightarrow> 'c) \<Rightarrow> ('c \<Rightarrow> zv_callback) \<Rightarrow> ('c \<Rightarrow> int) \<Rightarrow> 'c zv_reactor \<Rightarrow> bool" where
  "reactor_inv mem cb_of fd_of R \<longleftrightarrow> blocks_ok R
     \<and> (\<forall>fd ev. zr_interest R fd = Some ev \<longrightarrow> 0 \<le> fd \<and> fd_of (conn_table mem R fd) = fd \<and> armed ev (cb_of (conn_table mem R fd)))"

text \<open>\<open>accept\<close> returns an error or a descriptor that is not in use.\<close>

definition accept_ok :: "reactor_io \<Rightarrow> 'c zv_reactor \<Rightarrow> bool" where
  "accept_ok io R \<longleftrightarrow> io_accept io < 0 \<or> zr_interest R (io_accept io) = None"

text \<open>\<open>epoll_wait\<close> reports events of registered descriptors that were asked for (errors apart).\<close>

definition asked_for :: "event \<Rightarrow> 'c zv_reactor \<Rightarrow> bool" where
  "asked_for e R \<longleftrightarrow> (case e of (fd, events, io, io') \<Rightarrow>
     \<exists>ev. zr_interest R fd = Some ev \<and> (events AND EPOLLIN \<noteq> 0 \<longrightarrow> ev AND EPOLLIN \<noteq> 0) \<and> (events AND EPOLLOUT \<noteq> 0 \<longrightarrow> ev AND EPOLLOUT \<noteq> 0))"

definition event_ok :: "event \<Rightarrow> 'c zv_reactor \<Rightarrow> bool" where
  "event_ok e R \<longleftrightarrow> asked_for e R \<and> accept_ok (fst (snd (snd e))) R"

text \<open>The answers of \<open>accept\<close> are right at the time of each call in a batch of events.\<close>

fun accepts_ok :: "(nat \<Rightarrow> nat \<Rightarrow> 'c) \<Rightarrow> ('c \<Rightarrow> zv_callback)
    \<Rightarrow> (reactor_io \<Rightarrow> zv_callback \<Rightarrow> int \<Rightarrow> 'c zv_reactor \<Rightarrow> 'c zv_reactor option) \<Rightarrow> event list \<Rightarrow> 'c zv_reactor \<Rightarrow> bool" where
  "accepts_ok mem cb_of call [] R \<longleftrightarrow> True"
| "accepts_ok mem cb_of call (e # es) R \<longleftrightarrow> accept_ok (fst (snd (snd e))) R
     \<and> (case handle_event mem cb_of call e R of None \<Rightarrow> True | Some R' \<Rightarrow> accepts_ok mem cb_of call es R')"

text \<open>Other registered descriptors are not touched.\<close>

definition others_kept :: "int \<Rightarrow> 'c zv_reactor \<Rightarrow> 'c zv_reactor \<Rightarrow> bool" where
  "others_kept fd R R' \<longleftrightarrow> (\<forall>fd'. fd' \<noteq> fd \<longrightarrow> zr_interest R fd' \<noteq> None \<longrightarrow> zr_interest R' fd' = zr_interest R fd')"

section \<open>Updating one connection\<close>

lemma reactor_inv_update:
  assumes "reactor_inv mem cb_of fd_of R" "blocks_ok R'" "\<And>fd'. 0 \<le> fd' \<Longrightarrow> conn_table mem R' fd' = (if fd' = fd then c else conn_table mem R fd')"
    "\<And>fd'. fd' \<noteq> fd \<Longrightarrow> zr_interest R' fd' = zr_interest R fd'"
    "\<And>ev. zr_interest R' fd = Some ev \<Longrightarrow> 0 \<le> fd \<and> fd_of c = fd \<and> armed ev (cb_of c)"
  shows "reactor_inv mem cb_of fd_of R'" "others_kept fd R R'"
proof -
  have "0 \<le> fd' \<and> fd_of (conn_table mem R' fd') = fd' \<and> armed ev (cb_of (conn_table mem R' fd'))" if "zr_interest R' fd' = Some ev" for fd' ev
    using assms(1,3,4,5) that by (cases "fd' = fd") (auto simp: reactor_inv_def)
  then show "reactor_inv mem cb_of fd_of R'" using assms(2) by (simp add: reactor_inv_def)
  show "others_kept fd R R'" using assms(4) by (simp add: others_kept_def)
qed

lemma conn_table_cong: "zr_connblocks R' = zr_connblocks R \<Longrightarrow> conn_table mem R' = conn_table mem R"
  by (simp add: conn_table_def fun_eq_iff Let_def)

lemma blocks_ok_cong: "zr_connblocks R' = zr_connblocks R \<Longrightarrow> zr_blocknum R' = zr_blocknum R \<Longrightarrow> blocks_ok R' = blocks_ok R"
  by (simp add: blocks_ok_def)

lemma kernel_calls_blocks [simp]:
  "blocks_ok (epoll_add fd ev R) = blocks_ok R" "blocks_ok (epoll_mod fd ev R) = blocks_ok R" "blocks_ok (epoll_del fd R) = blocks_ok R"
  "blocks_ok (close_fd fd R) = blocks_ok R" "blocks_ok (send_bytes fd bs R) = blocks_ok R"
  "conn_table mem (epoll_add fd ev R) = conn_table mem R" "conn_table mem (epoll_mod fd ev R) = conn_table mem R"
  "conn_table mem (epoll_del fd R) = conn_table mem R" "conn_table mem (close_fd fd R) = conn_table mem R"
  "conn_table mem (send_bytes fd bs R) = conn_table mem R"
  by (auto intro!: conn_table_cong blocks_ok_cong simp: epoll_add_def epoll_mod_def epoll_del_def close_fd_def send_bytes_def)

lemma kernel_calls_interest [simp]:
  "zr_interest (epoll_add fd ev R) = (if zr_interest R fd = None then (zr_interest R)(fd \<mapsto> ev) else zr_interest R)"
  "zr_interest (epoll_mod fd ev R) = (if zr_interest R fd = None then zr_interest R else (zr_interest R)(fd \<mapsto> ev))"
  "zr_interest (epoll_del fd R) = (zr_interest R)(fd := None)" "zr_interest (close_fd fd R) = (zr_interest R)(fd := None)"
  "zr_interest (send_bytes fd bs R) = zr_interest R"
  "zr_sent (epoll_add fd ev R) = zr_sent R" "zr_sent (epoll_mod fd ev R) = zr_sent R" "zr_sent (epoll_del fd R) = zr_sent R"
  "zr_sent (close_fd fd R) = zr_sent R" "zr_sent (send_bytes fd bs R) = zr_sent R @ [(fd, bs)]"
  by (simp_all add: epoll_add_def epoll_mod_def epoll_del_def close_fd_def send_bytes_def)

text \<open>A callback that ends with its own connection changed and armed again, or out of the list.\<close>

lemma callback_keeps:
  assumes "reactor_inv mem cb_of fd_of R" "blocks_ok R'" "\<forall>fd'. 0 \<le> fd' \<longrightarrow> conn_table mem R' fd' = (if fd' = fd then c else conn_table mem R fd')"
    "zr_interest R' = (zr_interest R)(fd := x)" "\<And>ev. x = Some ev \<Longrightarrow> 0 \<le> fd \<and> fd_of c = fd \<and> armed ev (cb_of c)"
  shows "reactor_inv mem cb_of fd_of R' \<and> others_kept fd R R'"
  using reactor_inv_update [OF assms(1,2), of fd c] assms(3-5) by simp

text \<open>The shape of every callback: look the connection up, change it, store it, tell the kernel.\<close>

lemma lookup_store:
  assumes "blocks_ok R" "0 \<le> fd"
  obtains R1 where "zv_connect_idx mem fd R = Some (slot_of fd, R1)" "conn_at R1 (slot_of fd) = Some (conn_table mem R fd)"
    "blocks_ok R1" "conn_table mem R1 = conn_table mem R" "same_rest R R1"
    "\<And>c. \<exists>R2. put_conn (slot_of fd) c R1 = Some R2 \<and> blocks_ok R2 \<and> same_rest R R2
      \<and> (\<forall>fd'. 0 \<le> fd' \<longrightarrow> conn_table mem R2 fd' = (if fd' = fd then c else conn_table mem R fd'))"
proof -
  obtain R1 where R1: "zv_connect_idx mem fd R = Some (slot_of fd, R1)" "blocks_ok R1" "conn_table mem R1 = conn_table mem R" "same_rest R R1"
    "nat fd div BLOCK_SIZE < length (zr_connblocks R1)" using zv_connect_idx_ok [OF assms] .
  have put: "\<exists>R2. put_conn (slot_of fd) c R1 = Some R2 \<and> blocks_ok R2 \<and> same_rest R R2
      \<and> (\<forall>fd'. 0 \<le> fd' \<longrightarrow> conn_table mem R2 fd' = (if fd' = fd then c else conn_table mem R fd'))" for c
  proof -
    obtain R2 where R2: "put_conn (slot_of fd) c R1 = Some R2" "blocks_ok R2" "same_rest R1 R2"
      "\<And>fd'. 0 \<le> fd' \<Longrightarrow> conn_table mem R2 fd' = (if fd' = fd then c else conn_table mem R1 fd')" using put_conn_ok [OF R1(2,5) assms(2), of c mem] by metis
    then show ?thesis using R1(3,4) by (auto simp: same_rest_def)
  qed
  have "conn_at R1 (slot_of fd) = Some (conn_table mem R fd)" using conn_at_table [OF R1(2,5), of mem] R1(3) by simp
  then show ?thesis using that R1 put by blast
qed

locale reactor_server =
  fixes mem :: "nat \<Rightarrow> nat \<Rightarrow> 'c"
    and cb_of :: "'c \<Rightarrow> zv_callback"
    and fd_of :: "'c \<Rightarrow> int"
    and call :: "reactor_io \<Rightarrow> zv_callback \<Rightarrow> int \<Rightarrow> 'c zv_reactor \<Rightarrow> 'c zv_reactor option"
  assumes call_keeps: "reactor_inv mem cb_of fd_of R \<Longrightarrow> zr_interest R fd = Some ev \<Longrightarrow> accept_ok io R \<or> cb_of (conn_table mem R fd) \<noteq> ACCEPT_CB
    \<Longrightarrow> call io (cb_of (conn_table mem R fd)) fd R = Some R' \<Longrightarrow> reactor_inv mem cb_of fd_of R' \<and> others_kept fd R R'"
begin

lemma handle_event_calls:
  assumes "reactor_inv mem cb_of fd_of R" "zr_interest R fd = Some ev" "event_ok (fd, events, io, io') R"
  obtains R1 where "reactor_inv mem cb_of fd_of R1" "same_rest R R1" "conn_table mem R1 = conn_table mem R"
    "handle_event mem cb_of call (fd, events, io, io') R =
       (if events AND EPOLLIN \<noteq> 0 then call io (cb_of (conn_table mem R1 fd)) fd R1
        else if events AND EPOLLOUT \<noteq> 0 then call io' (cb_of (conn_table mem R1 fd)) fd R1 else Some R1)"
    "events AND EPOLLIN = 0 \<longrightarrow> events AND EPOLLOUT \<noteq> 0 \<longrightarrow> cb_of (conn_table mem R1 fd) \<noteq> ACCEPT_CB"
proof -
  have b: "blocks_ok R" "0 \<le> fd" "armed ev (cb_of (conn_table mem R fd))" using assms(1,2) by (auto simp: reactor_inv_def)
  obtain R1 where R1: "zv_connect_idx mem fd R = Some (slot_of fd, R1)" "blocks_ok R1" "conn_table mem R1 = conn_table mem R" "same_rest R R1"
    "nat fd div BLOCK_SIZE < length (zr_connblocks R1)" using zv_connect_idx_ok [OF b(1,2)] .
  have inv: "reactor_inv mem cb_of fd_of R1" using assms(1) R1 by (simp add: reactor_inv_def same_rest_def)
  have conn: "conn_at R1 (slot_of fd) = Some (conn_table mem R1 fd)" using conn_at_table R1 by blast
  have one: "\<not> (events AND EPOLLIN \<noteq> 0 \<and> events AND EPOLLOUT \<noteq> 0)" "events AND EPOLLOUT \<noteq> 0 \<Longrightarrow> cb_of (conn_table mem R1 fd) \<noteq> ACCEPT_CB"
    using assms(2,3) b(3) R1(3) by (auto simp: event_ok_def asked_for_def armed_def EPOLLIN_def EPOLLOUT_def)
  show ?thesis
    by (rule that [OF inv R1(4,3)]) (use R1(1) conn one in \<open>auto simp: handle_event_def split: option.splits\<close>)
qed

lemma handle_event_keeps:
  assumes "reactor_inv mem cb_of fd_of R" "event_ok e R" "handle_event mem cb_of call e R = Some R'"
  shows "reactor_inv mem cb_of fd_of R' \<and> others_kept (fst e) R R'"
proof -
  obtain fd events io io' where e: "e = (fd, events, io, io')" by (cases e)
  obtain ev where ev: "zr_interest R fd = Some ev" "accept_ok io R" using assms(2) e by (auto simp: event_ok_def asked_for_def)
  obtain R1 where R1: "reactor_inv mem cb_of fd_of R1" "same_rest R R1" "conn_table mem R1 = conn_table mem R"
    "handle_event mem cb_of call (fd, events, io, io') R =
       (if events AND EPOLLIN \<noteq> 0 then call io (cb_of (conn_table mem R1 fd)) fd R1
        else if events AND EPOLLOUT \<noteq> 0 then call io' (cb_of (conn_table mem R1 fd)) fd R1 else Some R1)"
    "events AND EPOLLIN = 0 \<longrightarrow> events AND EPOLLOUT \<noteq> 0 \<longrightarrow> cb_of (conn_table mem R1 fd) \<noteq> ACCEPT_CB"
    using handle_event_calls [OF assms(1) ev(1)] assms(2) e by blast
  have ev1: "zr_interest R1 fd = Some ev" "accept_ok io R1" using ev R1(2) by (auto simp: same_rest_def accept_ok_def)
  have "reactor_inv mem cb_of fd_of R' \<and> others_kept fd R1 R'"
  proof (cases "events AND EPOLLIN \<noteq> 0")
    case True
    then show ?thesis using call_keeps [OF R1(1) ev1(1)] ev1(2) R1(4) assms(3) e by auto
  next
    case False
    then show ?thesis using call_keeps [OF R1(1) ev1(1)] R1 assms(3) e by (auto simp: others_kept_def split: if_splits)
  qed
  then show ?thesis using R1(2) e by (simp add: others_kept_def same_rest_def)
qed

lemma asked_for_kept:
  assumes "asked_for e R" "others_kept fd R R'" "fst e \<noteq> fd"
  shows "asked_for e R'"
  using assms by (cases e) (auto simp: asked_for_def others_kept_def)

text \<open>A whole batch: its events were asked for when \<open>epoll_wait\<close> returned.\<close>

lemma handle_events_keeps:
  "reactor_inv mem cb_of fd_of R \<Longrightarrow> \<forall>e \<in> set es. asked_for e R \<Longrightarrow> distinct (map fst es) \<Longrightarrow> accepts_ok mem cb_of call es R
    \<Longrightarrow> handle_events mem cb_of call es R = Some R' \<Longrightarrow> reactor_inv mem cb_of fd_of R'"
proof (induction es arbitrary: R)
  case (Cons e es)
  obtain R1 where R1: "handle_event mem cb_of call e R = Some R1" "handle_events mem cb_of call es R1 = Some R'"
    using Cons.prems(5) by (auto simp: bind_eq_Some_conv)
  have "event_ok e R" using Cons.prems by (simp add: event_ok_def)
  from handle_event_keeps [OF Cons.prems(1) this R1(1)] have k: "reactor_inv mem cb_of fd_of R1" "others_kept (fst e) R R1" by auto
  have "\<forall>e' \<in> set es. asked_for e' R1"
  proof
    fix e' assume "e' \<in> set es"
    then have "asked_for e' R" "fst e' \<noteq> fst e" using Cons.prems(2,3) by (auto simp: image_iff)
    then show "asked_for e' R1" using asked_for_kept k(2) by blast
  qed
  then show ?case using Cons.IH [OF k(1)] Cons.prems R1 by simp
qed simp

end

end
