(* ===== verification/HttpParse.thy ===== *)
theory HttpParse
  imports Reactor
begin

text \<open>
  The HTTP part of \<open>httpserver.cpp\<close>: the table of header fields, the reading of lines, the request and
  the response. A read or write outside an array is \<^const>\<open>None\<close>.
\<close>

definition KEY_MAX_LENGTH :: nat where "KEY_MAX_LENGTH = 128"
definition VALUE_MAX_LENGTH :: nat where "VALUE_MAX_LENGTH = 512"
definition MAX_KEY_COUNT :: nat where "MAX_KEY_COUNT = 128"

section \<open>Header fields\<close>

record zv_kvpair =
  kp_key :: string
  kp_value :: string

record zv_kvstore =
  kv_table :: "zv_kvpair list"
  kv_maxnum :: nat
  kv_count :: nat

definition init_kvstore :: zv_kvstore where
  "init_kvstore =
     \<lparr>kv_table = replicate MAX_KEY_COUNT \<lparr>kp_key = replicate KEY_MAX_LENGTH NUL, kp_value = replicate VALUE_MAX_LENGTH NUL\<rparr>,
      kv_maxnum = MAX_KEY_COUNT, kv_count = 0\<rparr>"

text \<open>A null store or key gives the result \<open>-1\<close>.\<close>

definition put_kvpair :: "zv_kvstore option \<Rightarrow> string \<Rightarrow> string \<Rightarrow> (int \<times> zv_kvstore option) option" where
  "put_kvpair kvstore key val =
     (case kvstore of
        None \<Rightarrow> Some (-1, None)
      | Some kv \<Rightarrow>
          do { p \<leftarrow> rd (kv_table kv) (kv_count kv);
               k \<leftarrow> strncpy KEY_MAX_LENGTH key;
               v \<leftarrow> strncpy VALUE_MAX_LENGTH val;
               t \<leftarrow> wr (kv_table kv) (kv_count kv) \<lparr>kp_key = k, kp_value = v\<rparr>;
               Some (0, Some (kv\<lparr>kv_table := t, kv_count := kv_count kv + 1\<rparr>)) })"

fun get_loop :: "zv_kvpair list \<Rightarrow> char \<Rightarrow> nat \<Rightarrow> nat \<Rightarrow> string option option" where
  "get_loop table c i 0 = Some None"
| "get_loop table c i (Suc n) =
     do { p \<leftarrow> rd table i;
          d \<leftarrow> rd (kp_key p) 0;
          if d = c then Some (Some (kp_value p)) else get_loop table c (i + 1) n }"

text \<open>The inner option is the null pointer of the result.\<close>

definition get_kvpair :: "zv_kvstore option \<Rightarrow> string \<Rightarrow> string option option" where
  "get_kvpair kvstore key =
     (case kvstore of None \<Rightarrow> Some None
      | Some kv \<Rightarrow> do { c \<leftarrow> rd key 0; get_loop (kv_table kv) c 0 (kv_count kv) })"

text \<open>\<open>dest_kvstore\<close> deletes the table only when its pointer is null: the result says what is freed.\<close>

definition dest_kvstore :: "zv_kvpair list option \<Rightarrow> zv_kvpair list option" where
  "dest_kvstore table = (case table of None \<Rightarrow> Some [] | Some t \<Rightarrow> None)"

section \<open>Lines\<close>

abbreviation CR :: char where "CR \<equiv> CHR 0x0D"
abbreviation LF :: char where "LF \<equiv> CHR 0x0A"

text \<open>
  The loop of \<open>readline\<close>; the last argument counts what is left of \<open>idx < len\<close>, \<open>j\<close> is how far
  \<open>linebuf\<close> has moved.
\<close>

fun line_loop :: "string \<Rightarrow> nat \<Rightarrow> nat \<Rightarrow> string \<Rightarrow> nat \<Rightarrow> (int \<times> string) option" where
  "line_loop allbuf idx j linebuf 0 = Some (-1, linebuf)"
| "line_loop allbuf idx j linebuf (Suc n) =
     do { c \<leftarrow> rd allbuf idx;
          crlf \<leftarrow> (if c = CR then do { d \<leftarrow> rd allbuf (idx + 1); Some (d = LF) } else Some False);
          if crlf then Some (int idx + 2, linebuf)
          else do { linebuf \<leftarrow> wr linebuf j c; line_loop allbuf (idx + 1) (j + 1) linebuf n } }"

definition readline :: "string \<Rightarrow> nat \<Rightarrow> string \<Rightarrow> (int \<times> string) option" where
  "readline allbuf idx linebuf = do { len \<leftarrow> strlen allbuf; line_loop allbuf idx 0 linebuf (len - idx) }"

lemma line_loop_progress: "line_loop allbuf idx j lb n = Some (r, lb') \<Longrightarrow> r = -1 \<or> int idx + 2 \<le> r \<and> r \<le> int (idx + n) + 1"
proof (induction allbuf idx j lb n rule: line_loop.induct)
  case (2 allbuf idx j linebuf n)
  then show ?case by (fastforce simp: bind_eq_Some_conv split: if_splits)
qed simp

lemma readline_progress: "readline allbuf idx lb = Some (r, lb') \<Longrightarrow> r = -1 \<or> int idx + 2 \<le> r \<and> r \<le> int (length allbuf) + 1"
  using line_loop_progress by (fastforce simp: readline_def bind_eq_Some_conv strlen_Some)

section \<open>Requests and responses\<close>

record zv_connect =
  zc_fd :: int
  zc_cb :: zv_callback
  zc_rbuffer :: string
  zc_rc :: int
  zc_count :: int
  zc_wbuffer :: string
  zc_wc :: int
  zc_resource :: string
  zc_enable_sendfile :: bool
  zc_header :: "zv_kvstore option"

text \<open>
  The request line: the resource is what stands between the fifth character and the next space. The function
  prints the buffers it uses, which reads each of them up to a null byte: \<open>strlen\<close> without its result.
\<close>

definition take_resource :: "string \<Rightarrow> string \<Rightarrow> (string \<times> string) option" where
  "take_resource linebuf resource =
     do { get \<leftarrow> strstr linebuf ''GET'';
          if get
          then do { i \<leftarrow> find_char (CHR '' '') linebuf 5;
                    linebuf \<leftarrow> wr linebuf i NUL;
                    n \<leftarrow> strlen linebuf;
                    if n < 4 then None
                    else do { resource \<leftarrow> wr_block resource 0 (take (n - 4) (drop 4 linebuf));
                              _ \<leftarrow> strlen resource;
                              Some (linebuf, resource) } }
          else Some (linebuf, resource) }"

function header_loop :: "string \<Rightarrow> int \<Rightarrow> string \<Rightarrow> zv_kvstore option \<Rightarrow> (string \<times> zv_kvstore option) option" where
  "header_loop rbuffer idx linebuf header =
     (if idx = -1 then Some (linebuf, header)
      else do { (idx', linebuf) \<leftarrow> readline rbuffer (nat idx) linebuf;
                i \<leftarrow> find_char (CHR '':'') linebuf 0;
                linebuf \<leftarrow> wr linebuf i NUL;
                (r, header) \<leftarrow> put_kvpair header linebuf (drop (i + 1) linebuf);
                header_loop rbuffer idx' linebuf header })"
  by pat_completeness auto
termination
proof (relation "measure (\<lambda>(rbuffer, idx, linebuf, header). if idx = -1 then 0 else Suc (length rbuffer + 2 - nat idx))", goal_cases)
  case (2 rbuffer idx linebuf header x idx' lb i lb' y r h)
  then have "idx' = -1 \<or> int (nat idx) + 2 \<le> idx' \<and> idx' \<le> int (length rbuffer) + 1" using readline_progress by metis
  then have "idx' = -1 \<or> nat idx < nat idx' \<and> nat idx' \<le> length rbuffer + 1" by linarith
  then show ?case using 2(1) by auto
qed simp

declare header_loop.simps [simp del]

definition zv_http_request :: "string \<Rightarrow> zv_connect \<Rightarrow> zv_connect option" where
  "zv_http_request linebuf conn =
     do { _ \<leftarrow> strlen (zc_rbuffer conn);
          (idx, linebuf) \<leftarrow> readline (zc_rbuffer conn) 0 linebuf;
          _ \<leftarrow> strlen linebuf;
          (linebuf, resource) \<leftarrow> take_resource linebuf (zc_resource conn);
          let conn = conn\<lparr>zc_resource := resource\<rparr>;
          (linebuf, header) \<leftarrow> header_loop (zc_rbuffer conn) idx linebuf (zc_header conn);
          Some (conn\<lparr>zc_header := header\<rparr>) }"


text \<open>\<open>%ld\<close> of a file size.\<close>

fun digits :: "nat \<Rightarrow> nat \<Rightarrow> string" where
  "digits 0 n = ''''"
| "digits (Suc f) n = (if n < 10 then [char_of (48 + n)] else digits f (n div 10) @ [char_of (48 + n mod 10)])"

definition ld :: "nat \<Rightarrow> string" where
  "ld n = digits (Suc n) n"

definition http_head :: "nat \<Rightarrow> string" where
  "http_head n =
     ''HTTP/1.1 200 OK'' @ [CR, LF] @
     ''Accept-Ranges: bytes'' @ [CR, LF] @
     ''Content-Length: '' @ ld n @ [CR, LF] @
     ''Content-Type: text/html'' @ [CR, LF] @
     ''Date: 2024'' @ [CHR 0xE5, CHR 0xB9, CHR 0xB4] @ '' 11'' @ [CHR 0xE6, CHR 0x9C, CHR 0x88] @ '' 25'' @ [CHR 0xE6, CHR 0x97, CHR 0xA5] @
     '' '' @ [CHR 0xE6, CHR 0x98, CHR 0x9F, CHR 0xE6, CHR 0x9C, CHR 0x9F, CHR 0xE4, CHR 0xB8, CHR 0x80] @ '' 16:10:29 CST'' @ [CR, LF, CR, LF]"

text \<open>\<open>open\<close> and \<open>fstat\<close> see the file system \<open>fs\<close>; the result \<open>-1\<close> is a file that cannot be opened.\<close>

definition zv_http_response :: "(string \<Rightarrow> string option) \<Rightarrow> zv_connect \<Rightarrow> (int \<times> zv_connect) option" where
  "zv_http_response fs conn =
     do { path \<leftarrow> c_text (zc_resource conn);
          case fs path of
            None \<Rightarrow> Some (-1, conn)
          | Some file \<Rightarrow>
              do { let head = http_head (length file);
                   w \<leftarrow> wr_block (zc_wbuffer conn) 0 (head @ [NUL]);
                   Some (0, conn\<lparr>zc_wbuffer := w, zc_enable_sendfile := True, zc_wc := int (length head)\<rparr>) } }"

section \<open>Reading lines\<close>

lemma wr_at: "j < length lb \<Longrightarrow> wr lb j c = Some (take j lb @ c # drop (Suc j) lb)"
  by (simp add: wr_def upd_conv_take_nth_drop)

lemma line_loop_step:
  assumes "allbuf = pre @ c # post" "idx = length pre" "c \<noteq> CR"
  shows "line_loop allbuf idx j lb (Suc n) = do { lb \<leftarrow> wr lb j c; line_loop allbuf (idx + 1) (j + 1) lb n }"
  using assms by (simp add: rd_def)

text \<open>A line that ends with CR and LF.\<close>

lemma line_loop_line:
  "allbuf = pre @ h @ CR # LF # post \<Longrightarrow> idx = length pre \<Longrightarrow> CR \<notin> set h \<Longrightarrow> length h < n
    \<Longrightarrow> line_loop allbuf idx j lb n = (if j + length h \<le> length lb \<or> h = [] then Some (int (idx + length h) + 2, take j lb @ h @ drop (j + length h) lb) else None)"
proof (induction h arbitrary: pre idx j lb n)
  case Nil
  then show ?case by (cases n) (auto simp: rd_def nth_append)
next
  case (Cons c h)
  obtain m where m: "n = Suc m" using Cons.prems(4) by (cases n) auto
  have step: "line_loop allbuf idx j lb n = do { lb \<leftarrow> wr lb j c; line_loop allbuf (idx + 1) (j + 1) lb m }"
    unfolding m by (rule line_loop_step [of _ pre _ "h @ CR # LF # post"]) (use Cons.prems in auto)
  show ?case
  proof (cases "j < length lb")
    case True
    have "line_loop allbuf (idx + 1) (j + 1) (take j lb @ c # drop (Suc j) lb) m =
      (if j + 1 + length h \<le> length lb \<or> h = [] then Some (int (idx + 1 + length h) + 2, take (j + 1) (take j lb @ c # drop (Suc j) lb) @ h @ drop (j + 1 + length h) (take j lb @ c # drop (Suc j) lb)) else None)"
      using Cons.IH [of "pre @ [c]" "idx + 1" m "j + 1" "take j lb @ c # drop (Suc j) lb"] Cons.prems m True by auto
    then show ?thesis unfolding step using True by (auto simp: wr_at min_def drop_drop add.commute)
  qed (simp add: step wr_def)
qed

text \<open>The rest of the buffer, without a line end.\<close>

lemma line_loop_rest:
  "allbuf = pre @ h @ post \<Longrightarrow> idx = length pre \<Longrightarrow> CR \<notin> set h \<Longrightarrow> j + length h \<le> length lb
    \<Longrightarrow> line_loop allbuf idx j lb (length h) = Some (-1, take j lb @ h @ drop (j + length h) lb)"
proof (induction h arbitrary: pre idx j lb)
  case (Cons c h)
  have step: "line_loop allbuf idx j lb (length (c # h)) = do { lb \<leftarrow> wr lb j c; line_loop allbuf (idx + 1) (j + 1) lb (length h) }"
    unfolding list.size add_Suc_right add_0_right by (rule line_loop_step [of _ pre _ "h @ post"]) (use Cons.prems in auto)
  have "j < length lb" using Cons.prems by simp
  then show ?case unfolding step using Cons.IH [of "pre @ [c]" "idx + 1" "j + 1" "take j lb @ c # drop (Suc j) lb"] Cons.prems
    by (auto simp: wr_at min_def drop_drop add.commute)
qed simp

section \<open>A request that ends with an empty line\<close>

text \<open>
  Such a request, as every HTTP request, makes the parser look for a colon in a line buffer that has
  none: the buffer keeps the last line with its colon overwritten.
\<close>

definition crlf :: string where "crlf = [CR, LF]"

text \<open>A header line with one colon and no line end in it.\<close>

definition header_line :: "string \<Rightarrow> bool" where
  "header_line h \<longleftrightarrow> (\<exists>k v. h = k @ CHR '':'' # v \<and> CHR '':'' \<notin> set (k @ v) \<and> CR \<notin> set h \<and> NUL \<notin> set h)"

lemma header_loop_blank:
  assumes "rb = pre @ concat (map (\<lambda>h. h @ crlf) hs) @ crlf @ NUL # rest" "NUL \<notin> set pre" "\<forall>h \<in> set hs. header_line h" "CHR '':'' \<notin> set lb"
  shows "header_loop rb (int (length pre)) lb kv = None"
  using assms
proof (induction hs arbitrary: pre lb kv)
  case Nil
  have "strlen rb = Some (length pre + 2)" using Nil.prems strlen_append [of "pre @ crlf" rest] by (auto simp: crlf_def)
  moreover have "line_loop rb (length pre) 0 lb 2 = Some (int (length pre) + 2, lb)"
    using line_loop_line [of rb pre "[]" "NUL # rest" _ 2 0 lb] Nil.prems(1) by (simp add: crlf_def)
  moreover have "find_char (CHR '':'') lb 0 = None" using Nil.prems(4) by (simp add: find_char_def scan_char_None)
  ultimately show ?case by (subst header_loop.simps) (simp add: readline_def)
next
  case (Cons h hs)
  let ?pre = "pre @ h @ crlf" and ?tl = "concat (map (\<lambda>h. h @ crlf) hs) @ crlf"
  obtain k v where h: "h = k @ CHR '':'' # v" "CHR '':'' \<notin> set (k @ v)" "CR \<notin> set h" "NUL \<notin> set h" using Cons.prems(3) by (auto simp: header_line_def)
  have nul: "NUL \<notin> set ?tl" using Cons.prems(3) by (auto simp: header_line_def crlf_def)
  have rb: "rb = pre @ h @ CR # LF # (?tl @ NUL # rest)" "rb = (pre @ h @ crlf @ ?tl) @ NUL # rest" using Cons.prems(1) by (auto simp: crlf_def)
  have len: "strlen rb = Some (length pre + length h + 2 + length ?tl)"
    unfolding rb(2) by (subst strlen_append) (use Cons.prems(2) h nul in \<open>auto simp: crlf_def\<close>)
  have line: "line_loop rb (length pre) 0 lb (length h + 2 + length ?tl) =
      (if length h \<le> length lb then Some (int (length ?pre), h @ drop (length h) lb) else None)"
    using line_loop_line [OF rb(1) refl h(3), of "length h + 2 + length ?tl" 0 lb] h(1) by (simp add: crlf_def)
  show ?case
  proof (cases "length h \<le> length lb")
    case True
    let ?lb = "h @ drop (length h) lb" and ?lb' = "k @ NUL # v @ drop (length h) lb"
    have "find_char (CHR '':'') ?lb 0 = Some (length k)" using h(1,2) by (simp add: find_char_def scan_char_append)
    moreover have "wr ?lb (length k) NUL = Some ?lb'" using h(1) by (simp add: wr_def list_update_append)
    moreover have "header_loop rb (int (length ?pre)) ?lb' kv' = None" for kv'
    proof (rule Cons.IH)
      show "CHR '':'' \<notin> set ?lb'" using h(2) Cons.prems(4) by (auto dest: in_set_dropD)
    qed (use Cons.prems h in \<open>auto simp: crlf_def\<close>)
    ultimately show ?thesis using len line True
      by (subst header_loop.simps) (auto simp: readline_def add.assoc split: option.splits bind_splits)
  qed (use len line in \<open>subst header_loop.simps, simp add: readline_def add.assoc\<close>)
qed

lemma wr_block_start: "length bs \<le> length xs \<Longrightarrow> wr_block xs 0 bs = Some (bs @ drop (length bs) xs)"
  by (simp add: wr_block_def)

lemma take_resource_get:
  assumes "path \<noteq> []" "CHR '' '' \<notin> set (tl path)" "NUL \<notin> set path" "length path < length resource" "resource ! length path = NUL"
  shows "take_resource (''GET '' @ path @ CHR '' '' # tail) resource = Some (''GET '' @ path @ NUL # tail, path @ drop (length path) resource)"
proof -
  obtain p ps where path: "path = p # ps" using assms(1) by (cases path) auto
  have "find_char (CHR '' '') (''GET '' @ path @ CHR '' '' # tail) 5 = Some (length (''GET '' @ path))"
    using assms(2) path by (simp add: find_char_def scan_char_append)
  moreover have "wr (''GET '' @ path @ CHR '' '' # tail) (length (''GET '' @ path)) NUL = Some (''GET '' @ path @ NUL # tail)"
    by (simp add: wr_def list_update_append)
  moreover have "strlen (''GET '' @ path @ NUL # tail) = Some (4 + length path)" using strlen_append [of "''GET '' @ path" tail] assms(3) by simp
  moreover have "strstr (''GET '' @ path @ CHR '' '' # tail) ''GET'' = Some True" by simp
  moreover have "strlen (path @ drop (length path) resource) = Some (length path)"
    using strlen_append [OF assms(3), of "drop (Suc (length path)) resource"] Cons_nth_drop_Suc [OF assms(4)] assms(5) by simp
  ultimately show ?thesis using assms(4) by (simp add: take_resource_def wr_block_start)
qed

section \<open>A request that breaks off inside a line\<close>

text \<open>A header line with a colon; the last line of the request has no line end.\<close>

definition colon_line :: "string \<Rightarrow> bool" where
  "colon_line h \<longleftrightarrow> CHR '':'' \<in> set h \<and> CR \<notin> set h \<and> NUL \<notin> set h"

abbreviation more_lines :: "string list \<Rightarrow> string" where
  "more_lines hs \<equiv> concat (map (\<lambda>h. crlf @ h) hs)"

lemma strncpy_returns: "NUL \<in> set s \<Longrightarrow> \<exists>t. strncpy n s = Some t"
  by (induction n s rule: strncpy.induct) auto

text \<open>The table has room for \<open>n\<close> more fields.\<close>

definition kv_room :: "nat \<Rightarrow> zv_kvstore option \<Rightarrow> bool" where
  "kv_room n kvstore \<longleftrightarrow> (case kvstore of None \<Rightarrow> True | Some kv \<Rightarrow> kv_count kv + n \<le> length (kv_table kv))"

lemma put_kvpair_ok:
  assumes "kv_room (Suc n) kv" "NUL \<in> set key" "NUL \<in> set val"
  shows "\<exists>r kv'. put_kvpair kv key val = Some (r, kv') \<and> kv_room n kv'"
proof (cases kv)
  case (Some k)
  obtain a b where "strncpy KEY_MAX_LENGTH key = Some a" "strncpy VALUE_MAX_LENGTH val = Some b" using strncpy_returns assms(2,3) by metis
  then show ?thesis using assms(1) Some by (simp add: put_kvpair_def kv_room_def rd_def wr_def)
qed (use assms(1) in \<open>simp add: put_kvpair_def kv_room_def\<close>)

lemma drop_behind: "length a = n \<Longrightarrow> n \<le> m \<Longrightarrow> drop m (a @ drop n lb) = drop m lb"
  by simp

text \<open>Reading one line of the request: what stands in the buffer behind the line stays.\<close>

lemma readline_line:
  assumes rb: "rb = pre @ h @ more_lines hs @ NUL # rest" and clean: "NUL \<notin> set (pre @ h @ more_lines hs)" "CR \<notin> set h" and fits: "length h \<le> length lb"
  shows "readline rb (length pre) lb = Some (if hs = [] then -1 else int (length (pre @ h @ crlf)), h @ drop (length h) lb)"
proof -
  have eq: "rb = (pre @ h @ more_lines hs) @ NUL # rest" using rb by simp
  have len: "strlen rb = Some (length pre + length h + length (more_lines hs))" unfolding eq by (subst strlen_append [OF clean(1)]) simp
  show ?thesis
  proof (cases hs)
    case Nil
    then have "rb = pre @ h @ NUL # rest" using rb by simp
    from line_loop_rest [OF this refl clean(2), of 0 lb] fits show ?thesis using len Nil by (simp add: readline_def)
  next
    case (Cons h' hs')
    then have "rb = pre @ h @ CR # LF # (h' @ more_lines hs' @ NUL # rest)" using rb by (simp add: crlf_def)
    from line_loop_line [OF this refl clean(2), of "length h + length (more_lines hs)" 0 lb] fits Cons show ?thesis
      using len by (simp add: readline_def crlf_def)
  qed
qed

lemma header_loop_ok:
  assumes "rb = pre @ h @ more_lines hs @ NUL # rest" "NUL \<notin> set (pre @ h @ more_lines hs)" "\<forall>h \<in> set (h # hs). colon_line h \<and> length h \<le> m"
    "NUL \<in> set (drop m lb)" "kv_room (Suc (length hs)) kv"
  shows "\<exists>lb' kv'. header_loop rb (int (length pre)) lb kv = Some (lb', kv')"
  using assms
proof (induction hs arbitrary: pre h lb kv)
  case (Nil pre h lb kv)
  have fits: "length h \<le> m" "m < length lb" using Nil.prems(3,4) by (auto dest: length_pos_if_in_set)
  have read: "readline rb (length pre) lb = Some (-1, h @ drop (length h) lb)"
    using readline_line [OF Nil.prems(1,2)] Nil.prems(3) fits by (simp add: colon_line_def)
  obtain k v where kv: "h = k @ CHR '':'' # v" "CHR '':'' \<notin> set k" using Nil.prems(3) split_list_first [of "CHR '':''" h] by (auto simp: colon_line_def)
  have find: "find_char (CHR '':'') (h @ drop (length h) lb) 0 = Some (length k)" using kv by (simp add: find_char_def scan_char_append)
  have wr: "wr (h @ drop (length h) lb) (length k) NUL = Some (k @ NUL # v @ drop (length h) lb)" using kv(1) by (simp add: wr_def list_update_append)
  have "NUL \<in> set (v @ drop (length h) lb)" using Nil.prems(4) set_drop_subset_set_drop [OF fits(1), of lb] by auto
  then obtain r kv' where "put_kvpair kv (k @ NUL # v @ drop (length h) lb) (v @ drop (length h) lb) = Some (r, kv')"
    using put_kvpair_ok [OF Nil.prems(5)] by (metis in_set_conv_decomp)
  then show ?case using read find wr by (subst header_loop.simps) (simp add: header_loop.simps [of _ "-1"])
next
  case (Cons h' hs pre h lb kv)
  have fits: "length h \<le> m" "m < length lb" using Cons.prems(3,4) by (auto dest: length_pos_if_in_set)
  have read: "readline rb (length pre) lb = Some (int (length (pre @ h @ crlf)), h @ drop (length h) lb)"
    using readline_line [OF Cons.prems(1,2)] Cons.prems(3) fits by (simp add: colon_line_def)
  obtain k v where kv: "h = k @ CHR '':'' # v" "CHR '':'' \<notin> set k" using Cons.prems(3) split_list_first [of "CHR '':''" h] by (auto simp: colon_line_def)
  let ?lb = "k @ NUL # v @ drop (length h) lb"
  have find: "find_char (CHR '':'') (h @ drop (length h) lb) 0 = Some (length k)" using kv by (simp add: find_char_def scan_char_append)
  have wr: "wr (h @ drop (length h) lb) (length k) NUL = Some ?lb" using kv(1) by (simp add: wr_def list_update_append)
  have "NUL \<in> set (v @ drop (length h) lb)" using Cons.prems(4) set_drop_subset_set_drop [OF fits(1), of lb] by auto
  then obtain r kv' where put: "put_kvpair kv ?lb (v @ drop (length h) lb) = Some (r, kv')" "kv_room (Suc (length hs)) kv'"
    using put_kvpair_ok [of "Suc (length hs)" kv] Cons.prems(5) by (metis in_set_conv_decomp length_Cons)
  have "drop m ?lb = drop m lb"
  proof -
    have "?lb = (k @ NUL # v) @ drop (length h) lb" "length (k @ NUL # v) = length h" using kv(1) by simp_all
    then show ?thesis using drop_behind [of _ "length h"] fits(1) by metis
  qed
  then have "\<exists>lb' kv''. header_loop rb (int (length (pre @ h @ crlf))) ?lb kv' = Some (lb', kv'')"
    using Cons.prems put(2) by (intro Cons.IH [of _ h']) (simp_all add: crlf_def)
  then show ?case using read find wr put(1) by (subst header_loop.simps) auto
qed

text \<open>
  A request line followed by header lines, each with a colon, the last line without a line end: the resource is
  taken and the header lines are read.
\<close>

lemma request_ok:
  assumes rb: "zc_rbuffer conn = req @ NUL # rest" and req: "req = ''GET '' @ path @ CHR '' '' # tail @ more_lines hs"
    and path: "path \<noteq> []" "CHR '' '' \<notin> set (tl path)" and clean: "CR \<notin> set (path @ tail)" "NUL \<notin> set (path @ tail)" "\<forall>h \<in> set hs. colon_line h"
    and lb: "NUL \<in> set (drop (length req) lb)" and res: "length path < length (zc_resource conn)" "zc_resource conn ! length path = NUL"
    and kv: "kv_room (length hs) (zc_header conn)"
  shows "\<exists>kv'. zv_http_request lb conn = Some (conn\<lparr>zc_resource := path @ drop (length path) (zc_resource conn), zc_header := kv'\<rparr>)"
proof -
  let ?line = "''GET '' @ path @ CHR '' '' # tail" and ?rb = "zc_rbuffer conn"
  define behind where "behind = drop (length ?line) lb"
  have nul: "NUL \<notin> set req" using clean by (auto simp: req crlf_def colon_line_def)
  have len: "length ?line \<le> length req" "length req < length lb" using lb by (auto simp: req dest: length_pos_if_in_set)
  have all: "strlen ?rb = Some (length req)" unfolding rb by (rule strlen_append [OF nul])
  have line: "readline ?rb 0 lb = Some (if hs = [] then -1 else int (length (?line @ crlf)), ?line @ behind)"
    using readline_line [of ?rb "[]" ?line hs rest lb] rb req nul clean len by (simp add: behind_def)
  have behind: "NUL \<in> set behind" using lb set_drop_subset_set_drop [OF len(1), of lb] by (auto simp: behind_def)
  then have "NUL \<in> set (?line @ behind)" by simp
  then obtain n where print: "strlen (?line @ behind) = Some n" using strlen_append by (metis split_list_first)
  have take: "take_resource (?line @ behind) (zc_resource conn) = Some (''GET '' @ path @ NUL # (tail @ behind), path @ drop (length path) (zc_resource conn))"
    using take_resource_get [OF path _ res, of "tail @ behind"] clean(2) by simp
  define lb1 where "lb1 = ''GET '' @ path @ NUL # (tail @ behind)"
  define L where "L = ?line @ behind"
  note read = all line [folded L_def] print [folded L_def] take [folded L_def lb1_def]
  show ?thesis
  proof (cases hs)
    case Nil
    have "zv_http_request lb conn = Some (conn\<lparr>zc_resource := path @ drop (length path) (zc_resource conn), zc_header := zc_header conn\<rparr>)"
      using read Nil by (simp add: zv_http_request_def header_loop.simps [of _ "-1"] Let_def)
    then show ?thesis by blast
  next
    case (Cons h hs')
    have "?rb = (?line @ crlf) @ h @ more_lines hs' @ NUL # rest" using rb req Cons by (simp add: crlf_def)
    moreover have "length h \<le> length req" if "h \<in> set hs" for h
    proof -
      have "length (crlf @ h) \<le> length (more_lines hs)" using that by (induction hs) auto
      then show ?thesis by (simp add: req)
    qed
    moreover have "drop (length req) lb1 = drop (length req) lb"
    proof -
      have "lb1 = (''GET '' @ path @ NUL # tail) @ behind" "length (''GET '' @ path @ NUL # tail) = length ?line" by (simp_all add: lb1_def)
      then show ?thesis unfolding behind_def using drop_behind [of _ "length ?line"] len(1) by metis
    qed
    ultimately have "\<exists>lb' kv'. header_loop ?rb (int (length (?line @ crlf))) lb1 (zc_header conn) = Some (lb', kv')"
      using Cons clean(3) nul lb kv by (intro header_loop_ok [of _ _ h hs' rest "length req"]) (auto simp: req crlf_def)
    then show ?thesis using read Cons by (auto simp: zv_http_request_def Let_def)
  qed
qed

lemma digits_length: "n < 10 ^ Suc k \<Longrightarrow> length (digits f n) \<le> Suc k"
proof (induction f arbitrary: n k)
  case (Suc f)
  show ?case
  proof (cases "n < 10")
    case False
    then obtain k' where k: "k = Suc k'" using Suc.prems by (cases k) auto
    have "n div 10 < 10 ^ Suc k'" using Suc.prems k by (simp add: less_mult_imp_div_less mult.commute)
    then show ?thesis using Suc.IH [of "n div 10" k'] False k by simp
  qed simp
qed simp

lemma http_head_fits: "n < 2 ^ 63 \<Longrightarrow> length (http_head n) \<le> 160"
  using digits_length [of n 18 "Suc n"] by (simp add: http_head_def ld_def)

lemma response_ok:
  assumes "c_text (zc_resource conn) = Some path" "fs path = Some file" "length file < 2 ^ 63" "length (zc_wbuffer conn) = BUFFER_SIZE"
  obtains w where "zv_http_response fs conn = Some (0, conn\<lparr>zc_wbuffer := w, zc_enable_sendfile := True, zc_wc := int (length (http_head (length file)))\<rparr>)"
    "take (length (http_head (length file))) w = http_head (length file)" "length w = BUFFER_SIZE"
proof -
  let ?h = "http_head (length file)"
  let ?w = "(?h @ [NUL]) @ drop (length (?h @ [NUL])) (zc_wbuffer conn)"
  have "length (?h @ [NUL]) \<le> length (zc_wbuffer conn)" using http_head_fits [OF assms(3)] assms(4) by (simp add: BUFFER_SIZE_def)
  then have "wr_block (zc_wbuffer conn) 0 (?h @ [NUL]) = Some ?w" "length ?w = BUFFER_SIZE" using wr_block_start assms(4) by (blast, simp)
  then show ?thesis using that [of ?w] assms(1,2) by (simp add: zv_http_response_def Let_def)
qed

section \<open>Properties\<close>

text \<open>
  C39. A request with its request line, header lines and the empty line at the end makes the parser read
  past its line buffer, whenever the fresh line buffer holds no colon and the lines have no second one: the header loop
  does, unless printing a buffer without a null byte did so before.
\<close>

theorem http_request_overruns:
  assumes rb: "zc_rbuffer conn = reqline @ crlf @ concat (map (\<lambda>h. h @ crlf) hs) @ crlf @ NUL # rest" and hs: "\<forall>h \<in> set hs. header_line h"
    and req: "CR \<notin> set reqline" "NUL \<notin> set reqline" "CHR '':'' \<notin> set reqline" and lb: "CHR '':'' \<notin> set linebuf"
  shows "zv_http_request linebuf conn = None"
proof -
  let ?rb = "zc_rbuffer conn" and ?tl = "concat (map (\<lambda>h. h @ crlf) hs) @ crlf"
  have nul: "NUL \<notin> set (reqline @ crlf @ ?tl)" using req hs by (auto simp: header_line_def crlf_def)
  have "strlen ?rb = Some (length (reqline @ crlf @ ?tl))" using strlen_append [OF nul, of rest] rb by simp
  moreover have "line_loop ?rb 0 0 linebuf (length (reqline @ crlf @ ?tl)) =
      (if length reqline \<le> length linebuf \<or> reqline = [] then Some (int (length reqline) + 2, reqline @ drop (length reqline) linebuf) else None)"
    using line_loop_line [of ?rb "[]" reqline "?tl @ NUL # rest" 0 "length (reqline @ crlf @ ?tl)" 0 linebuf] rb req(1) by (simp add: crlf_def)
  ultimately have line: "readline ?rb 0 linebuf = (if length reqline \<le> length linebuf \<or> reqline = [] then Some (int (length (reqline @ crlf)), reqline @ drop (length reqline) linebuf) else None)"
    by (simp add: readline_def crlf_def)
  have "CHR '':'' \<notin> set l" if "take_resource (reqline @ drop (length reqline) linebuf) r = Some (l, r')" for r l r'
    using that req(3) lb by (auto simp: take_resource_def bind_eq_Some_conv wr_def split: if_splits dest!: set_update_subset_insert [THEN subsetD] dest: in_set_dropD)
  then have "header_loop ?rb (int (length (reqline @ crlf))) l kv = None" if "take_resource (reqline @ drop (length reqline) linebuf) r = Some (l, r')" for r l r' kv
    using that header_loop_blank [of ?rb "reqline @ crlf" hs rest l kv] rb hs nul by auto
  then show ?thesis using line by (auto simp: zv_http_request_def Let_def split: bind_splits)
qed

definition blank_conn :: zv_connect where
  "blank_conn = \<lparr>zc_fd = 0, zc_cb = UNSET_CB, zc_rbuffer = replicate BUFFER_SIZE NUL, zc_rc = 0, zc_count = 0, zc_wbuffer = replicate BUFFER_SIZE NUL, zc_wc = 0,
     zc_resource = replicate BUFFER_SIZE NUL, zc_enable_sendfile = False, zc_header = None\<rparr>"

theorem http_request_overruns_witness:
  "zv_http_request (replicate BUFFER_SIZE NUL) (blank_conn\<lparr>zc_rbuffer := ''GET / HTTP/1.1'' @ crlf @ ''Host: a'' @ crlf @ crlf @ [NUL]\<rparr>) = None"
proof -
  have "header_line ''Host: a''" unfolding header_line_def by (rule exI [of _ "''Host''"], rule exI [of _ "'' a''"]) simp
  then show ?thesis
    by (intro http_request_overruns [of _ "''GET / HTTP/1.1''" "[''Host: a'']" "[]"]) simp_all
qed

end
