(* ===== verification/HttpServer.thy ===== *)
theory HttpServer
  imports HttpParse
begin

text \<open>
  The callbacks of \<open>httpserver.cpp\<close> and the states the server reaches. The results of the callbacks are
  dropped by the event loop and not modelled; \<open>send\<close> and \<open>sendfile\<close> are recorded as what is handed to them.
\<close>

section \<open>Callbacks\<close>

definition send_cb :: "(nat \<Rightarrow> nat \<Rightarrow> zv_connect) \<Rightarrow> reactor_io \<Rightarrow> int \<Rightarrow> zv_connect zv_reactor \<Rightarrow> zv_connect zv_reactor option" where
  "send_cb mem io fd R =
     do { (s, R) \<leftarrow> zv_connect_idx mem fd R;
          conn \<leftarrow> conn_at R s;
          (r, conn) \<leftarrow> zv_http_response (io_fs io) conn;
          if zc_wc conn < 0 \<or> zc_wc conn > int (length (zc_wbuffer conn)) then None
          else do { let head = take (nat (zc_wc conn)) (zc_wbuffer conn);
                    let done = conn\<lparr>zc_cb := RECV_CB\<rparr>;
                    if zc_enable_sendfile conn
                    then do { path \<leftarrow> c_text (zc_resource conn);
                              case io_fs2 io path of
                                None \<Rightarrow> do { R \<leftarrow> put_conn s conn R; Some (send_bytes fd head R) }
                              | Some file \<Rightarrow>
                                  do { R \<leftarrow> put_conn s done R;
                                       Some (epoll_mod fd EPOLLIN (send_bytes fd file (send_bytes fd head R))) } }
                    else do { R \<leftarrow> put_conn s done R; Some (epoll_mod fd EPOLLIN (send_bytes fd head R)) } } }"

definition recv_cb :: "(nat \<Rightarrow> nat \<Rightarrow> zv_connect) \<Rightarrow> reactor_io \<Rightarrow> int \<Rightarrow> zv_connect zv_reactor \<Rightarrow> zv_connect zv_reactor option" where
  "recv_cb mem io fd R =
     do { (s, R) \<leftarrow> zv_connect_idx mem fd R;
          conn \<leftarrow> conn_at R s;
          case io_recv io of
            None \<Rightarrow> Some R
          | Some data \<Rightarrow>
              if data = ''''
              then do { R \<leftarrow> put_conn s (conn\<lparr>zc_fd := -1, zc_rc := 0, zc_wc := 0\<rparr>) R;
                        Some (close_fd fd (epoll_del fd R)) }
              else if zc_rc conn < 0 then None
              else do { rb \<leftarrow> wr_block (zc_rbuffer conn) (nat (zc_rc conn)) data;
                        conn \<leftarrow> zv_http_request (io_new io) (conn\<lparr>zc_rbuffer := rb, zc_rc := zc_rc conn + int (length data)\<rparr>);
                        R \<leftarrow> put_conn s (conn\<lparr>zc_cb := SEND_CB\<rparr>) R;
                        Some (epoll_mod fd EPOLLOUT R) } }"

definition accept_cb :: "(nat \<Rightarrow> nat \<Rightarrow> zv_connect) \<Rightarrow> reactor_io \<Rightarrow> int \<Rightarrow> zv_connect zv_reactor \<Rightarrow> zv_connect zv_reactor option" where
  "accept_cb mem io fd R =
     (let clientfd = io_accept io
      in if clientfd < 0 then Some R
         else do { (s, R) \<leftarrow> zv_connect_idx mem clientfd R;
                   conn \<leftarrow> conn_at R s;
                   R \<leftarrow> put_conn s (conn\<lparr>zc_fd := clientfd, zc_cb := RECV_CB, zc_count := 1024, zc_header := Some init_kvstore\<rparr>) R;
                   Some (epoll_add clientfd EPOLLIN R) })"

definition http_call :: "(nat \<Rightarrow> nat \<Rightarrow> zv_connect) \<Rightarrow> reactor_io \<Rightarrow> zv_callback \<Rightarrow> int \<Rightarrow> zv_connect zv_reactor \<Rightarrow> zv_connect zv_reactor option" where
  "http_call mem io cb fd R =
     (case cb of ACCEPT_CB \<Rightarrow> accept_cb mem io fd R | RECV_CB \<Rightarrow> recv_cb mem io fd R | SEND_CB \<Rightarrow> send_cb mem io fd R | UNSET_CB \<Rightarrow> None)"

definition set_listener :: "int \<Rightarrow> zv_callback \<Rightarrow> zv_connect zv_reactor \<Rightarrow> zv_connect zv_reactor option" where
  "set_listener fd cb R =
     (if fd < 0 then None
      else do { conn \<leftarrow> conn_at R (0, nat fd);
                R \<leftarrow> put_conn (0, nat fd) (conn\<lparr>zc_fd := fd, zc_cb := cb\<rparr>) R;
                Some (epoll_add fd EPOLLIN R) })"

text \<open>The start of \<open>main\<close>: \<open>fds\<close> are the results of \<open>init_server\<close>.\<close>

fun set_listeners :: "int list \<Rightarrow> zv_connect zv_reactor \<Rightarrow> zv_connect zv_reactor option" where
  "set_listeners [] R = Some R"
| "set_listeners (fd # fds) R = do { R \<leftarrow> set_listener fd ACCEPT_CB R; set_listeners fds R }"

definition http_start :: "(nat \<Rightarrow> nat \<Rightarrow> zv_connect) \<Rightarrow> int \<Rightarrow> int list \<Rightarrow> zv_connect zv_reactor option" where
  "http_start mem ep fds = set_listeners fds (zv_init_reactor mem ep)"

text \<open>One round of the loop of \<open>main\<close>: the events that \<open>epoll_wait\<close> returned.\<close>

definition http_round :: "(nat \<Rightarrow> nat \<Rightarrow> zv_connect) \<Rightarrow> event list \<Rightarrow> zv_connect zv_reactor \<Rightarrow> zv_connect zv_reactor option" where
  "http_round mem es R = handle_events mem zc_cb (http_call mem) es R"

section \<open>The server keeps its connections armed\<close>

lemma request_keeps_fd:
  "zv_http_request lb c = Some c' \<Longrightarrow> zc_fd c' = zc_fd c \<and> zc_rbuffer c' = zc_rbuffer c \<and> zc_rc c' = zc_rc c \<and> zc_wbuffer c' = zc_wbuffer c \<and> zc_wc c' = zc_wc c"
  by (auto simp: zv_http_request_def bind_eq_Some_conv Let_def split: prod.splits)

lemma response_keeps_fd:
  "zv_http_response fs c = Some (r, c') \<Longrightarrow> zc_fd c' = zc_fd c \<and> zc_cb c' = zc_cb c \<and> zc_rbuffer c' = zc_rbuffer c \<and> zc_rc c' = zc_rc c \<and> zc_resource c' = zc_resource c"
  by (auto simp: zv_http_response_def bind_eq_Some_conv Let_def split: option.splits)

lemma send_cb_keeps:
  assumes inv: "reactor_inv mem zc_cb zc_fd R" and ev: "zr_interest R fd = Some ev" and cb: "zc_cb (conn_table mem R fd) = SEND_CB"
    and run: "send_cb mem io fd R = Some R'"
  shows "reactor_inv mem zc_cb zc_fd R' \<and> others_kept fd R R'"
proof -
  let ?c = "conn_table mem R fd"
  have b: "blocks_ok R" "0 \<le> fd" "zc_fd ?c = fd" "armed ev (zc_cb ?c)" using inv ev by (auto simp: reactor_inv_def)
  obtain R1 where R1: "zv_connect_idx mem fd R = Some (slot_of fd, R1)" "conn_at R1 (slot_of fd) = Some ?c"
    "\<And>c. \<exists>R2. put_conn (slot_of fd) c R1 = Some R2 \<and> blocks_ok R2 \<and> same_rest R R2
      \<and> (\<forall>fd'. 0 \<le> fd' \<longrightarrow> conn_table mem R2 fd' = (if fd' = fd then c else conn_table mem R fd'))"
    using lookup_store [OF b(1,2), of mem] by metis
  obtain r c where c: "zv_http_response (io_fs io) ?c = Some (r, c)" using run R1 by (auto simp: send_cb_def bind_eq_Some_conv)
  let ?d = "c\<lparr>zc_cb := RECV_CB\<rparr>"
  have k: "zc_fd c = fd" "zc_cb c = SEND_CB" using response_keeps_fd [OF c] b(3) cb by auto
  obtain R2 where R2: "put_conn (slot_of fd) c R1 = Some R2" "blocks_ok R2" "same_rest R R2"
    "\<forall>fd'. 0 \<le> fd' \<longrightarrow> conn_table mem R2 fd' = (if fd' = fd then c else conn_table mem R fd')" using R1(3) [of c] by blast
  obtain R3 where R3: "put_conn (slot_of fd) ?d R1 = Some R3" "blocks_ok R3" "same_rest R R3"
    "\<forall>fd'. 0 \<le> fd' \<longrightarrow> conn_table mem R3 fd' = (if fd' = fd then ?d else conn_table mem R fd')" using R1(3) [of ?d] by blast
  consider bs where "R' = send_bytes fd bs R2" | bs where "R' = epoll_mod fd EPOLLIN (send_bytes fd bs R3)"
    | bs bs' where "R' = epoll_mod fd EPOLLIN (send_bytes fd bs (send_bytes fd bs' R3))"
    using run R1(1,2) c R2(1) R3(1) by (auto simp: send_cb_def bind_eq_Some_conv Let_def split: if_splits option.splits)
  then show ?thesis
  proof cases
    case 1
    show ?thesis by (rule callback_keeps [OF inv, of _ fd c "Some ev"]) (use 1 R2 k b cb ev in \<open>auto simp: same_rest_def\<close>)
  qed (rule callback_keeps [OF inv, of _ fd ?d "Some EPOLLIN"]; use R3 k b ev in \<open>auto simp: same_rest_def armed_def\<close>)+
qed

lemma recv_cb_keeps:
  assumes inv: "reactor_inv mem zc_cb zc_fd R" and ev: "zr_interest R fd = Some ev" and run: "recv_cb mem io fd R = Some R'"
  shows "reactor_inv mem zc_cb zc_fd R' \<and> others_kept fd R R'"
proof -
  let ?c = "conn_table mem R fd"
  have b: "blocks_ok R" "0 \<le> fd" "zc_fd ?c = fd" using inv ev by (auto simp: reactor_inv_def)
  obtain R1 where R1: "zv_connect_idx mem fd R = Some (slot_of fd, R1)" "conn_at R1 (slot_of fd) = Some ?c"
    "blocks_ok R1" "conn_table mem R1 = conn_table mem R" "same_rest R R1"
    "\<And>c. \<exists>R2. put_conn (slot_of fd) c R1 = Some R2 \<and> blocks_ok R2 \<and> same_rest R R2
      \<and> (\<forall>fd'. 0 \<le> fd' \<longrightarrow> conn_table mem R2 fd' = (if fd' = fd then c else conn_table mem R fd'))"
    using lookup_store [OF b(1,2), of mem] by metis
  consider "R' = R1" | c R2 where "put_conn (slot_of fd) c R1 = Some R2" "R' = close_fd fd (epoll_del fd R2)"
    | c R2 where "put_conn (slot_of fd) (c\<lparr>zc_cb := SEND_CB\<rparr>) R1 = Some R2" "R' = epoll_mod fd EPOLLOUT R2" "zc_fd c = fd"
    using run R1(1,2) b(3) by (auto simp: recv_cb_def bind_eq_Some_conv split: if_splits option.splits dest!: request_keeps_fd)
  then show ?thesis
  proof cases
    case 1
    then show ?thesis using inv R1 by (auto simp: reactor_inv_def others_kept_def same_rest_def)
  next
    case (2 c R2)
    then have "blocks_ok R2" "same_rest R R2" "\<forall>fd'. 0 \<le> fd' \<longrightarrow> conn_table mem R2 fd' = (if fd' = fd then c else conn_table mem R fd')"
      using R1(6) [of c] by auto
    then show ?thesis by (intro callback_keeps [OF inv, of _ fd c None]) (use 2 in \<open>auto simp: same_rest_def\<close>)
  next
    case (3 c R2)
    let ?d = "c\<lparr>zc_cb := SEND_CB\<rparr>"
    have "blocks_ok R2" "same_rest R R2" "\<forall>fd'. 0 \<le> fd' \<longrightarrow> conn_table mem R2 fd' = (if fd' = fd then ?d else conn_table mem R fd')"
      using 3(1) R1(6) [of ?d] by auto
    then show ?thesis by (intro callback_keeps [OF inv, of _ fd ?d "Some EPOLLOUT"]) (use 3 ev b(2) in \<open>auto simp: same_rest_def armed_def\<close>)
  qed
qed

lemma accept_cb_ok:
  assumes inv: "reactor_inv mem zc_cb zc_fd R" and acc: "0 \<le> io_accept io" "zr_interest R (io_accept io) = None"
  obtains R' where "accept_cb mem io fd R = Some R'" "reactor_inv mem zc_cb zc_fd R' \<and> others_kept (io_accept io) R R'"
    "zr_interest R' = (zr_interest R)(io_accept io \<mapsto> EPOLLIN)" "zr_sent R' = zr_sent R"
    "conn_table mem R' (io_accept io) = (conn_table mem R (io_accept io))\<lparr>zc_fd := io_accept io, zc_cb := RECV_CB, zc_count := 1024, zc_header := Some init_kvstore\<rparr>"
proof -
  let ?n = "io_accept io"
  have b: "blocks_ok R" using inv by (simp add: reactor_inv_def)
  define c where "c = (conn_table mem R ?n)\<lparr>zc_fd := ?n, zc_cb := RECV_CB, zc_count := 1024, zc_header := Some init_kvstore\<rparr>"
  obtain R1 where R1: "zv_connect_idx mem ?n R = Some (slot_of ?n, R1)" "conn_at R1 (slot_of ?n) = Some (conn_table mem R ?n)"
    "\<And>c. \<exists>R2. put_conn (slot_of ?n) c R1 = Some R2 \<and> blocks_ok R2 \<and> same_rest R R2
      \<and> (\<forall>fd'. 0 \<le> fd' \<longrightarrow> conn_table mem R2 fd' = (if fd' = ?n then c else conn_table mem R fd'))"
    using lookup_store [OF b acc(1), of mem] by metis
  obtain R2 where R2: "put_conn (slot_of ?n) c R1 = Some R2" "blocks_ok R2" "same_rest R R2"
    "\<forall>fd'. 0 \<le> fd' \<longrightarrow> conn_table mem R2 fd' = (if fd' = ?n then c else conn_table mem R fd')" using R1(3) [of c] by blast
  let ?R = "epoll_add ?n EPOLLIN R2"
  have "accept_cb mem io fd R = Some ?R" using acc(1) R1(1,2) R2(1) by (simp add: accept_cb_def c_def)
  moreover have "reactor_inv mem zc_cb zc_fd ?R \<and> others_kept ?n R ?R"
    by (rule callback_keeps [OF inv, of _ ?n c "Some EPOLLIN"]) (use R2 acc in \<open>auto simp: same_rest_def armed_def c_def\<close>)
  ultimately show ?thesis by (rule that) (use R2 acc in \<open>simp_all add: same_rest_def c_def\<close>)
qed

lemma accept_cb_keeps:
  assumes inv: "reactor_inv mem zc_cb zc_fd R" and acc: "accept_ok io R" and run: "accept_cb mem io fd R = Some R'"
  shows "reactor_inv mem zc_cb zc_fd R' \<and> others_kept fd R R'"
proof (cases "io_accept io < 0")
  case True
  then show ?thesis using inv run by (simp add: accept_cb_def others_kept_def)
next
  case False
  then have new: "0 \<le> io_accept io" "zr_interest R (io_accept io) = None" using acc by (auto simp: accept_ok_def)
  obtain R1 where "accept_cb mem io fd R = Some R1" "reactor_inv mem zc_cb zc_fd R1 \<and> others_kept (io_accept io) R R1"
    by (rule accept_cb_ok [OF inv new])
  then show ?thesis using run new(2) unfolding others_kept_def by (metis option.inject)
qed

text \<open>The event loop on these callbacks.\<close>

interpretation http: reactor_server mem zc_cb zc_fd "http_call mem" for mem
proof unfold_locales
  fix R R' :: "zv_connect zv_reactor" and fd ev io
  assume a: "reactor_inv mem zc_cb zc_fd R" "zr_interest R fd = Some ev" "accept_ok io R \<or> zc_cb (conn_table mem R fd) \<noteq> ACCEPT_CB"
    "http_call mem io (zc_cb (conn_table mem R fd)) fd R = Some R'"
  show "reactor_inv mem zc_cb zc_fd R' \<and> others_kept fd R R'"
    using a accept_cb_keeps [OF a(1)] recv_cb_keeps [OF a(1,2)] send_cb_keeps [OF a(1,2)]
    by (cases "zc_cb (conn_table mem R fd)") (auto simp: http_call_def)
qed

section \<open>The start of the server\<close>

lemma slot_small: "0 \<le> fd \<Longrightarrow> fd < int BLOCK_SIZE \<Longrightarrow> slot_of fd = (0, nat fd)"
  by (auto simp: BLOCK_SIZE_def)

lemma init_reactor_inv: "reactor_inv mem cb_of fd_of (zv_init_reactor mem ep)"
  by (simp add: reactor_inv_def blocks_ok_def zv_init_reactor_def new_block_def)

lemma set_listener_ok:
  assumes inv: "reactor_inv mem zc_cb zc_fd R" and fd: "0 \<le> fd" "fd < int BLOCK_SIZE" and new: "zr_interest R fd = None"
  obtains R' where "set_listener fd ACCEPT_CB R = Some R'" "reactor_inv mem zc_cb zc_fd R'" "zr_interest R' = (zr_interest R)(fd \<mapsto> EPOLLIN)"
    "\<forall>fd'. 0 \<le> fd' \<longrightarrow> fd' \<noteq> fd \<longrightarrow> conn_table mem R' fd' = conn_table mem R fd'" "zr_sent R' = zr_sent R"
proof -
  let ?c = "(conn_table mem R fd)\<lparr>zc_fd := fd, zc_cb := ACCEPT_CB\<rparr>"
  have b: "blocks_ok R" "nat fd div BLOCK_SIZE < length (zr_connblocks R)" using inv slot_small [OF fd] by (auto simp: reactor_inv_def blocks_ok_def)
  obtain R2 where R2: "put_conn (slot_of fd) ?c R = Some R2" "blocks_ok R2" "same_rest R R2"
    "\<And>fd'. 0 \<le> fd' \<Longrightarrow> conn_table mem R2 fd' = (if fd' = fd then ?c else conn_table mem R fd')" using put_conn_ok [OF b fd(1), of ?c mem] by metis
  let ?R = "epoll_add fd EPOLLIN R2"
  have "set_listener fd ACCEPT_CB R = Some ?R"
    using conn_at_table [OF b, of mem] R2(1) fd(1) unfolding slot_small [OF fd] by (simp add: set_listener_def)
  moreover have "reactor_inv mem zc_cb zc_fd ?R \<and> others_kept fd R ?R"
    by (rule callback_keeps [OF inv, of _ fd ?c "Some EPOLLIN"]) (use R2 fd new in \<open>auto simp: same_rest_def armed_def\<close>)
  ultimately show ?thesis using that R2 new by (auto simp: same_rest_def)
qed

lemma set_listeners_ok:
  "reactor_inv mem zc_cb zc_fd R \<Longrightarrow> distinct fds \<Longrightarrow> \<forall>fd \<in> set fds. 0 \<le> fd \<and> fd < int BLOCK_SIZE \<and> zr_interest R fd = None
    \<Longrightarrow> \<exists>R'. set_listeners fds R = Some R' \<and> reactor_inv mem zc_cb zc_fd R' \<and> dom (zr_interest R') = dom (zr_interest R) \<union> set fds
      \<and> (\<forall>fd. 0 \<le> fd \<longrightarrow> fd \<notin> set fds \<longrightarrow> conn_table mem R' fd = conn_table mem R fd) \<and> zr_sent R' = zr_sent R"
proof (induction fds arbitrary: R)
  case (Cons fd fds)
  obtain R1 where R1: "set_listener fd ACCEPT_CB R = Some R1" "reactor_inv mem zc_cb zc_fd R1" "zr_interest R1 = (zr_interest R)(fd \<mapsto> EPOLLIN)"
    "\<forall>fd'. 0 \<le> fd' \<longrightarrow> fd' \<noteq> fd \<longrightarrow> conn_table mem R1 fd' = conn_table mem R fd'" "zr_sent R1 = zr_sent R"
    using set_listener_ok [OF Cons.prems(1), of fd] Cons.prems(3) by auto
  have "\<forall>fd' \<in> set fds. 0 \<le> fd' \<and> fd' < int BLOCK_SIZE \<and> zr_interest R1 fd' = None" using Cons.prems(2,3) R1(3) by auto
  with Cons.IH [OF R1(2)] Cons.prems(2) obtain R' where "set_listeners fds R1 = Some R'" "reactor_inv mem zc_cb zc_fd R'" "dom (zr_interest R') = dom (zr_interest R1) \<union> set fds"
    "\<forall>fd. 0 \<le> fd \<longrightarrow> fd \<notin> set fds \<longrightarrow> conn_table mem R' fd = conn_table mem R1 fd" "zr_sent R' = zr_sent R1" by auto
  then show ?case using R1 by auto
qed simp

lemma http_start_ok:
  assumes "distinct fds" "\<forall>fd \<in> set fds. 0 \<le> fd \<and> fd < int BLOCK_SIZE"
  obtains R where "http_start mem ep fds = Some R" "reactor_inv mem zc_cb zc_fd R" "dom (zr_interest R) = set fds"
    "\<And>fd. 0 \<le> fd \<Longrightarrow> fd \<notin> set fds \<Longrightarrow> conn_table mem R fd = mem (nat fd div BLOCK_SIZE) (nat fd mod BLOCK_SIZE)" "zr_sent R = []"
proof -
  have t: "conn_table mem (zv_init_reactor mem ep) fd = mem (nat fd div BLOCK_SIZE) (nat fd mod BLOCK_SIZE)" for fd
    by (auto simp: conn_table_def zv_init_reactor_def new_block_def Let_def BLOCK_SIZE_def)
  obtain R where "http_start mem ep fds = Some R" "reactor_inv mem zc_cb zc_fd R" "dom (zr_interest R) = set fds"
    "\<forall>fd. 0 \<le> fd \<longrightarrow> fd \<notin> set fds \<longrightarrow> conn_table mem R fd = conn_table mem (zv_init_reactor mem ep) fd" "zr_sent R = []"
    using set_listeners_ok [OF init_reactor_inv assms(1), of mem ep] assms(2) by (auto simp: http_start_def zv_init_reactor_def)
  then show ?thesis using that t by simp
qed

text \<open>The states of the running server.\<close>

inductive http_reach :: "(nat \<Rightarrow> nat \<Rightarrow> zv_connect) \<Rightarrow> zv_connect zv_reactor \<Rightarrow> bool" for mem where
  started: "distinct fds \<Longrightarrow> http_start mem ep fds = Some R \<Longrightarrow> http_reach mem R"
| round: "http_reach mem R \<Longrightarrow> \<forall>e \<in> set es. asked_for e R \<Longrightarrow> distinct (map fst es) \<Longrightarrow> accepts_ok mem zc_cb (http_call mem) es R
    \<Longrightarrow> http_round mem es R = Some R' \<Longrightarrow> http_reach mem R'"

lemma set_listeners_range: "set_listeners fds R = Some R' \<Longrightarrow> length (zr_connblocks R) = 1 \<Longrightarrow> \<forall>b \<in> set (zr_connblocks R). length b = BLOCK_SIZE
    \<Longrightarrow> \<forall>fd \<in> set fds. 0 \<le> fd \<and> fd < int BLOCK_SIZE"
proof (induction fds arbitrary: R)
  case (Cons fd fds)
  obtain R1 where R1: "set_listener fd ACCEPT_CB R = Some R1" "set_listeners fds R1 = Some R'" using Cons.prems(1) by (auto simp: bind_eq_Some_conv)
  obtain b where b: "zr_connblocks R = [b]" "length b = BLOCK_SIZE" using Cons.prems(2,3) by (auto simp: length_Suc_conv)
  have "0 \<le> fd" "fd < int BLOCK_SIZE" "length (zr_connblocks R1) = 1" "\<forall>b \<in> set (zr_connblocks R1). length b = BLOCK_SIZE"
    using R1(1) b by (auto simp: set_listener_def conn_at_def put_conn_def rd_def wr_def bind_eq_Some_conv epoll_add_def split: if_splits)
  then show ?case using Cons.IH [OF R1(2)] by auto
qed simp

lemma http_reach_inv: "http_reach mem R \<Longrightarrow> reactor_inv mem zc_cb zc_fd R"
proof (induction rule: http_reach.induct)
  case (started fds ep R)
  then have "\<forall>fd \<in> set fds. 0 \<le> fd \<and> fd < int BLOCK_SIZE"
    using set_listeners_range [of fds "zv_init_reactor mem ep" R] by (simp add: http_start_def zv_init_reactor_def new_block_def)
  then show ?case using http_start_ok [of fds mem ep] started by auto
next
  case (round R es R')
  then show ?case using http.handle_events_keeps by (auto simp: http_round_def)
qed

section \<open>Serving a file\<close>


section \<open>Properties\<close>

text \<open>
  The blocks of connections behave as one table indexed by descriptor, with the contents of fresh
  memory where nothing was stored: looking a connection up opens the blocks it needs and changes nothing
  of the table, and a store through the returned pointer changes exactly that entry.
\<close>

theorem connection_table_refines:
  assumes "blocks_ok R" "0 \<le> fd"
  shows "\<exists>s R1 R2. zv_connect_idx mem fd R = Some (s, R1) \<and> blocks_ok R1 \<and> conn_table mem R1 = conn_table mem R \<and> same_rest R R1
    \<and> conn_at R1 s = Some (conn_table mem R fd)
    \<and> put_conn s c R1 = Some R2 \<and> blocks_ok R2 \<and> same_rest R R2
    \<and> (\<forall>fd'. 0 \<le> fd' \<longrightarrow> conn_table mem R2 fd' = (if fd' = fd then c else conn_table mem R fd'))"
  using lookup_store [OF assms, of mem] by metis

theorem connection_table_refines_witness:
  "\<exists>s R1 R2. zv_connect_idx (\<lambda>k i. blank_conn) 5000 (zv_init_reactor (\<lambda>k i. blank_conn) 3) = Some (s, R1) \<and> conn_at R1 s = Some blank_conn
    \<and> put_conn s (blank_conn\<lparr>zc_fd := 5000\<rparr>) R1 = Some R2 \<and> conn_table (\<lambda>k i. blank_conn) R2 5000 = blank_conn\<lparr>zc_fd := 5000\<rparr>"
proof -
  let ?R = "zv_init_reactor (\<lambda>k i. blank_conn) 3"
  have "blocks_ok ?R" by (simp add: blocks_ok_def zv_init_reactor_def new_block_def)
  moreover have "conn_table (\<lambda>k i. blank_conn) ?R 5000 = blank_conn" by (simp add: conn_table_def zv_init_reactor_def BLOCK_SIZE_def)
  ultimately show ?thesis using connection_table_refines [of ?R 5000 "\<lambda>k i. blank_conn" "blank_conn\<lparr>zc_fd := 5000\<rparr>"] by auto
qed

text \<open>
  C22. In every state of the running server each descriptor in the interest list has a connection that
  knows it and whose callback fits the event it waits for: listeners and readers wait for input, writers
  for output. Whole batches of events are run, of descriptors that were registered when the batch began.
\<close>

theorem http_connections_armed:
  assumes "http_reach mem R"
  shows "blocks_ok R \<and> (\<forall>fd ev. zr_interest R fd = Some ev \<longrightarrow>
    0 \<le> fd \<and> zc_fd (conn_table mem R fd) = fd \<and> armed ev (zc_cb (conn_table mem R fd)))"
  using http_reach_inv [OF assms] by (simp add: reactor_inv_def)

theorem http_connections_armed_witness:
  "\<exists>R. http_start (\<lambda>k i. blank_conn) 3 [4] = Some R \<and> dom (zr_interest R) = {4} \<and> zc_fd (conn_table (\<lambda>k i. blank_conn) R 4) = 4"
proof -
  obtain R where R: "http_start (\<lambda>k i. blank_conn) 3 [4] = Some R" "dom (zr_interest R) = {4}"
    by (rule http_start_ok [of "[4]" "\<lambda>k i. blank_conn" 3]) (simp_all add: BLOCK_SIZE_def)
  have "http_reach (\<lambda>k i. blank_conn) R" by (rule started [OF _ R(1)]) simp
  then show ?thesis using http_connections_armed [of "\<lambda>k i. blank_conn" R] R by blast
qed





end
