(* ===== verification/EchoReactor.thy ===== *)
theory EchoReactor
  imports Reactor
begin

text \<open>
  The callbacks of \<open>reactor.cpp\<close>, the echo server on the same reactor: what is received is copied to the
  write buffer and sent back. The results of the callbacks are dropped by the event loop and not modelled.
\<close>

record echo_connect =
  ec_fd :: int
  ec_cb :: zv_callback
  ec_rbuffer :: string
  ec_rc :: int
  ec_count :: int
  ec_wbuffer :: string
  ec_wc :: int

section \<open>Callbacks\<close>

definition send_cb :: "(nat \<Rightarrow> nat \<Rightarrow> echo_connect) \<Rightarrow> int \<Rightarrow> echo_connect zv_reactor \<Rightarrow> echo_connect zv_reactor option" where
  "send_cb mem fd R =
     do { (s, R) \<leftarrow> zv_connect_idx mem fd R;
          conn \<leftarrow> conn_at R s;
          if ec_wc conn < 0 \<or> ec_wc conn > int (length (ec_wbuffer conn)) then None
          else do { R \<leftarrow> put_conn s (conn\<lparr>ec_cb := RECV_CB\<rparr>) R;
                    Some (epoll_mod fd EPOLLIN (send_bytes fd (take (nat (ec_wc conn)) (ec_wbuffer conn)) R)) } }"

definition recv_cb :: "(nat \<Rightarrow> nat \<Rightarrow> echo_connect) \<Rightarrow> reactor_io \<Rightarrow> int \<Rightarrow> echo_connect zv_reactor \<Rightarrow> echo_connect zv_reactor option" where
  "recv_cb mem io fd R =
     do { (s, R) \<leftarrow> zv_connect_idx mem fd R;
          conn \<leftarrow> conn_at R s;
          case io_recv io of
            None \<Rightarrow> Some R
          | Some data \<Rightarrow>
              if data = ''''
              then do { R \<leftarrow> put_conn s (conn\<lparr>ec_fd := -1, ec_rc := 0, ec_wc := 0\<rparr>) R;
                        Some (close_fd fd (epoll_del fd R)) }
              else if ec_rc conn < 0 then None
              else do { rb \<leftarrow> wr_block (ec_rbuffer conn) (nat (ec_rc conn)) data;
                        let rc = ec_rc conn + int (length data);
                        wb \<leftarrow> wr_block (ec_wbuffer conn) 0 (take (nat rc) rb);
                        R \<leftarrow> put_conn s (conn\<lparr>ec_rbuffer := rb, ec_rc := rc, ec_wbuffer := wb, ec_wc := rc, ec_cb := SEND_CB\<rparr>) R;
                        Some (epoll_mod fd EPOLLOUT R) } }"

definition accept_cb :: "(nat \<Rightarrow> nat \<Rightarrow> echo_connect) \<Rightarrow> reactor_io \<Rightarrow> int \<Rightarrow> echo_connect zv_reactor \<Rightarrow> echo_connect zv_reactor option" where
  "accept_cb mem io fd R =
     (let clientfd = io_accept io
      in if clientfd < 0 then Some R
         else do { (s, R) \<leftarrow> zv_connect_idx mem clientfd R;
                   conn \<leftarrow> conn_at R s;
                   R \<leftarrow> put_conn s (conn\<lparr>ec_fd := clientfd, ec_cb := RECV_CB, ec_count := 2\<rparr>) R;
                   Some (epoll_add clientfd EPOLLIN R) })"

definition echo_call :: "(nat \<Rightarrow> nat \<Rightarrow> echo_connect) \<Rightarrow> reactor_io \<Rightarrow> zv_callback \<Rightarrow> int \<Rightarrow> echo_connect zv_reactor \<Rightarrow> echo_connect zv_reactor option" where
  "echo_call mem io cb fd R =
     (case cb of ACCEPT_CB \<Rightarrow> accept_cb mem io fd R | RECV_CB \<Rightarrow> recv_cb mem io fd R | SEND_CB \<Rightarrow> send_cb mem fd R | UNSET_CB \<Rightarrow> None)"

section \<open>The server keeps its connections armed\<close>

lemma echo_send_keeps:
  assumes inv: "reactor_inv mem ec_cb ec_fd R" and ev: "zr_interest R fd = Some ev" and run: "send_cb mem fd R = Some R'"
  shows "reactor_inv mem ec_cb ec_fd R' \<and> others_kept fd R R'"
proof -
  let ?c = "conn_table mem R fd"
  let ?d = "?c\<lparr>ec_cb := RECV_CB\<rparr>"
  have b: "blocks_ok R" "0 \<le> fd" "ec_fd ?c = fd" using inv ev by (auto simp: reactor_inv_def)
  obtain R1 where R1: "zv_connect_idx mem fd R = Some (slot_of fd, R1)" "conn_at R1 (slot_of fd) = Some ?c"
    "\<And>c. \<exists>R2. put_conn (slot_of fd) c R1 = Some R2 \<and> blocks_ok R2 \<and> same_rest R R2
      \<and> (\<forall>fd'. 0 \<le> fd' \<longrightarrow> conn_table mem R2 fd' = (if fd' = fd then c else conn_table mem R fd'))"
    using lookup_store [OF b(1,2), of mem] by metis
  obtain R2 where R2: "put_conn (slot_of fd) ?d R1 = Some R2" "blocks_ok R2" "same_rest R R2"
    "\<forall>fd'. 0 \<le> fd' \<longrightarrow> conn_table mem R2 fd' = (if fd' = fd then ?d else conn_table mem R fd')" using R1(3) [of ?d] by blast
  obtain bs where "R' = epoll_mod fd EPOLLIN (send_bytes fd bs R2)" using run R1(1,2) R2(1) by (auto simp: send_cb_def split: if_splits)
  then show ?thesis
    by (intro callback_keeps [OF inv, of _ fd ?d "Some EPOLLIN"]) (use R2 b ev in \<open>auto simp: same_rest_def armed_def\<close>)
qed

lemma echo_recv_keeps:
  assumes inv: "reactor_inv mem ec_cb ec_fd R" and ev: "zr_interest R fd = Some ev" and run: "recv_cb mem io fd R = Some R'"
  shows "reactor_inv mem ec_cb ec_fd R' \<and> others_kept fd R R'"
proof -
  let ?c = "conn_table mem R fd"
  have b: "blocks_ok R" "0 \<le> fd" "ec_fd ?c = fd" using inv ev by (auto simp: reactor_inv_def)
  obtain R1 where R1: "zv_connect_idx mem fd R = Some (slot_of fd, R1)" "conn_at R1 (slot_of fd) = Some ?c"
    "blocks_ok R1" "conn_table mem R1 = conn_table mem R" "same_rest R R1"
    "\<And>c. \<exists>R2. put_conn (slot_of fd) c R1 = Some R2 \<and> blocks_ok R2 \<and> same_rest R R2
      \<and> (\<forall>fd'. 0 \<le> fd' \<longrightarrow> conn_table mem R2 fd' = (if fd' = fd then c else conn_table mem R fd'))"
    using lookup_store [OF b(1,2), of mem] by metis
  consider "R' = R1" | c R2 where "put_conn (slot_of fd) c R1 = Some R2" "R' = close_fd fd (epoll_del fd R2)"
    | c R2 where "put_conn (slot_of fd) (c\<lparr>ec_cb := SEND_CB\<rparr>) R1 = Some R2" "R' = epoll_mod fd EPOLLOUT R2" "ec_fd c = fd"
    using run R1(1,2) b(3) by (auto simp: recv_cb_def Let_def bind_eq_Some_conv split: if_splits option.splits)
  then show ?thesis
  proof cases
    case 1
    then show ?thesis using inv R1 by (auto simp: reactor_inv_def others_kept_def same_rest_def)
  next
    case (2 c R2)
    then have "blocks_ok R2" "same_rest R R2" "\<forall>fd'. 0 \<le> fd' \<longrightarrow> conn_table mem R2 fd' = (if fd' = fd then c else conn_table mem R fd')"
      using R1(6) [of c] by auto
    then show ?thesis by (intro callback_keeps [OF inv, of _ fd c None]) (use 2 in \<open>auto simp: same_rest_def\<close>)
  next
    case (3 c R2)
    let ?d = "c\<lparr>ec_cb := SEND_CB\<rparr>"
    have "blocks_ok R2" "same_rest R R2" "\<forall>fd'. 0 \<le> fd' \<longrightarrow> conn_table mem R2 fd' = (if fd' = fd then ?d else conn_table mem R fd')"
      using 3(1) R1(6) [of ?d] by auto
    then show ?thesis by (intro callback_keeps [OF inv, of _ fd ?d "Some EPOLLOUT"]) (use 3 ev b(2) in \<open>auto simp: same_rest_def armed_def\<close>)
  qed
qed

lemma echo_accept_keeps:
  assumes inv: "reactor_inv mem ec_cb ec_fd R" and acc: "accept_ok io R" and run: "accept_cb mem io fd R = Some R'"
  shows "reactor_inv mem ec_cb ec_fd R' \<and> others_kept fd R R'"
proof (cases "io_accept io < 0")
  case True
  then show ?thesis using inv run by (simp add: accept_cb_def others_kept_def)
next
  case False
  let ?n = "io_accept io"
  have b: "blocks_ok R" "0 \<le> ?n" "zr_interest R ?n = None" using inv acc False by (auto simp: reactor_inv_def accept_ok_def)
  define c where "c = (conn_table mem R ?n)\<lparr>ec_fd := ?n, ec_cb := RECV_CB, ec_count := 2\<rparr>"
  obtain R1 where R1: "zv_connect_idx mem ?n R = Some (slot_of ?n, R1)" "conn_at R1 (slot_of ?n) = Some (conn_table mem R ?n)"
    "\<And>c. \<exists>R2. put_conn (slot_of ?n) c R1 = Some R2 \<and> blocks_ok R2 \<and> same_rest R R2
      \<and> (\<forall>fd'. 0 \<le> fd' \<longrightarrow> conn_table mem R2 fd' = (if fd' = ?n then c else conn_table mem R fd'))"
    using lookup_store [OF b(1,2), of mem] by metis
  obtain R2 where R2: "put_conn (slot_of ?n) c R1 = Some R2" "blocks_ok R2" "same_rest R R2"
    "\<forall>fd'. 0 \<le> fd' \<longrightarrow> conn_table mem R2 fd' = (if fd' = ?n then c else conn_table mem R fd')" using R1(3) [of c] by blast
  have R': "R' = epoll_add ?n EPOLLIN R2" using run False R1(1,2) R2(1) by (simp add: accept_cb_def c_def)
  have "reactor_inv mem ec_cb ec_fd R' \<and> others_kept ?n R R'"
    by (rule callback_keeps [OF inv, of _ ?n c "Some EPOLLIN"]) (use R' R2 b in \<open>auto simp: same_rest_def armed_def c_def\<close>)
  then show ?thesis using b(3) unfolding others_kept_def by metis
qed

interpretation echo: reactor_server mem ec_cb ec_fd "echo_call mem" for mem
proof unfold_locales
  fix R R' :: "echo_connect zv_reactor" and fd ev io
  assume a: "reactor_inv mem ec_cb ec_fd R" "zr_interest R fd = Some ev" "accept_ok io R \<or> ec_cb (conn_table mem R fd) \<noteq> ACCEPT_CB"
    "echo_call mem io (ec_cb (conn_table mem R fd)) fd R = Some R'"
  show "reactor_inv mem ec_cb ec_fd R' \<and> others_kept fd R R'"
    using a echo_accept_keeps [OF a(1)] echo_recv_keeps [OF a(1,2)] echo_send_keeps [OF a(1,2)]
    by (cases "ec_cb (conn_table mem R fd)") (auto simp: echo_call_def)
qed

section \<open>What a client gets back\<close>

text \<open>The client sends the chunks one after the other, each received and answered before the next.\<close>

fun echo_rounds :: "(nat \<Rightarrow> nat \<Rightarrow> echo_connect) \<Rightarrow> (string \<Rightarrow> reactor_io) \<Rightarrow> int \<Rightarrow> string list \<Rightarrow> echo_connect zv_reactor \<Rightarrow> echo_connect zv_reactor option" where
  "echo_rounds mem io fd [] R = Some R"
| "echo_rounds mem io fd (c # cs) R =
     do { R \<leftarrow> handle_event mem ec_cb (echo_call mem) (fd, EPOLLIN, io c, io c) R;
          R \<leftarrow> handle_event mem ec_cb (echo_call mem) (fd, EPOLLOUT, io c, io c) R;
          echo_rounds mem io fd cs R }"

text \<open>A connection that has received \<open>s\<close> and waits for more.\<close>

definition echo_holds :: "(nat \<Rightarrow> nat \<Rightarrow> echo_connect) \<Rightarrow> int \<Rightarrow> string \<Rightarrow> echo_connect zv_reactor \<Rightarrow> bool" where
  "echo_holds mem fd s R \<longleftrightarrow> blocks_ok R \<and> 0 \<le> fd \<and> zr_interest R fd = Some EPOLLIN
     \<and> (let c = conn_table mem R fd
        in ec_cb c = RECV_CB \<and> ec_rc c = int (length s) \<and> take (length s) (ec_rbuffer c) = s \<and> length s \<le> BUFFER_SIZE
           \<and> length (ec_rbuffer c) = BUFFER_SIZE \<and> length (ec_wbuffer c) = BUFFER_SIZE)"

lemma wr_block_prefix: "take i xs = s \<Longrightarrow> i + length bs \<le> length xs \<Longrightarrow> wr_block xs i bs = Some (s @ bs @ drop (i + length bs) xs)"
  by (auto simp: wr_block_def)

lemma lookup_event:
  assumes "zv_connect_idx mem fd R = Some (s, R1)" "conn_at R1 s = Some c"
  shows "handle_event mem cb_of call (fd, EPOLLIN, io, io') R = call io (cb_of c) fd R1"
    "handle_event mem cb_of call (fd, EPOLLOUT, io, io') R = call io' (cb_of c) fd R1"
  using assms by (simp_all add: handle_event_def EPOLLIN_def EPOLLOUT_def split: option.splits)

lemma echo_recv_run:
  assumes b: "blocks_ok R" "0 \<le> fd" "zr_interest R fd \<noteq> None" and c: "conn_table mem R fd = c" "ec_rc c = int (length s)" "take (length s) (ec_rbuffer c) = s"
    and len: "length (ec_rbuffer c) = BUFFER_SIZE" "length (ec_wbuffer c) = BUFFER_SIZE" and d: "io_recv io = Some d" "d \<noteq> []" "length (s @ d) \<le> BUFFER_SIZE"
  obtains R' rb wb where "recv_cb mem io fd R = Some R'" "blocks_ok R'" "zr_interest R' fd = Some EPOLLOUT" "zr_sent R' = zr_sent R"
    "conn_table mem R' fd = c\<lparr>ec_rbuffer := s @ d @ rb, ec_rc := int (length (s @ d)), ec_wbuffer := s @ d @ wb, ec_wc := int (length (s @ d)), ec_cb := SEND_CB\<rparr>"
    "length (s @ d @ rb) = BUFFER_SIZE" "length (s @ d @ wb) = BUFFER_SIZE"
proof -
  define rb where "rb = drop (length (s @ d)) (ec_rbuffer c)"
  define wb where "wb = drop (length (s @ d)) (ec_wbuffer c)"
  define e where "e = c\<lparr>ec_rbuffer := s @ d @ rb, ec_rc := int (length (s @ d)), ec_wbuffer := s @ d @ wb, ec_wc := int (length (s @ d)), ec_cb := SEND_CB\<rparr>"
  have w1: "wr_block (ec_rbuffer c) (length s) d = Some (s @ d @ rb)" using wr_block_prefix [OF c(3), of d] d(3) len(1) by (simp add: rb_def)
  have w2: "wr_block (ec_wbuffer c) 0 (s @ d) = Some (s @ d @ wb)" using d(3) len(2) by (simp add: wr_block_def wb_def)
  obtain R1 where R1: "zv_connect_idx mem fd R = Some (slot_of fd, R1)" "conn_at R1 (slot_of fd) = Some c"
    "\<And>c. \<exists>R2. put_conn (slot_of fd) c R1 = Some R2 \<and> blocks_ok R2 \<and> same_rest R R2
      \<and> (\<forall>fd'. 0 \<le> fd' \<longrightarrow> conn_table mem R2 fd' = (if fd' = fd then c else conn_table mem R fd'))"
    using lookup_store [OF b(1,2), of mem] c(1) by metis
  obtain R2 where R2: "put_conn (slot_of fd) e R1 = Some R2" "blocks_ok R2" "same_rest R R2"
    "\<forall>fd'. 0 \<le> fd' \<longrightarrow> conn_table mem R2 fd' = (if fd' = fd then e else conn_table mem R fd')" using R1(3) [of e] by blast
  have "nat (int (length s) + int (length d)) = length (s @ d)" by simp
  then have "recv_cb mem io fd R = Some (epoll_mod fd EPOLLOUT R2)" using R1(1,2) R2(1) d(1,2) c(2) w1 w2 by (simp add: recv_cb_def e_def Let_def)
  then show ?thesis using that [of "epoll_mod fd EPOLLOUT R2" wb rb] R2 b d(3) len by (auto simp: same_rest_def e_def rb_def wb_def)
qed

lemma echo_send_run:
  assumes b: "blocks_ok R" "0 \<le> fd" "zr_interest R fd \<noteq> None" and c: "conn_table mem R fd = c" "ec_wc c = int n" "n \<le> length (ec_wbuffer c)"
  obtains R' where "send_cb mem fd R = Some R'" "blocks_ok R'" "zr_interest R' fd = Some EPOLLIN" "zr_sent R' = zr_sent R @ [(fd, take n (ec_wbuffer c))]"
    "conn_table mem R' fd = c\<lparr>ec_cb := RECV_CB\<rparr>"
proof -
  obtain R1 where R1: "zv_connect_idx mem fd R = Some (slot_of fd, R1)" "conn_at R1 (slot_of fd) = Some c"
    "\<And>c. \<exists>R2. put_conn (slot_of fd) c R1 = Some R2 \<and> blocks_ok R2 \<and> same_rest R R2
      \<and> (\<forall>fd'. 0 \<le> fd' \<longrightarrow> conn_table mem R2 fd' = (if fd' = fd then c else conn_table mem R fd'))"
    using lookup_store [OF b(1,2), of mem] c(1) by metis
  obtain R2 where R2: "put_conn (slot_of fd) (c\<lparr>ec_cb := RECV_CB\<rparr>) R1 = Some R2" "blocks_ok R2" "same_rest R R2"
    "\<forall>fd'. 0 \<le> fd' \<longrightarrow> conn_table mem R2 fd' = (if fd' = fd then c\<lparr>ec_cb := RECV_CB\<rparr> else conn_table mem R fd')" using R1(3) [of "c\<lparr>ec_cb := RECV_CB\<rparr>"] by blast
  let ?R = "epoll_mod fd EPOLLIN (send_bytes fd (take n (ec_wbuffer c)) R2)"
  have "send_cb mem fd R = Some ?R" using R1(1,2) R2(1) c by (simp add: send_cb_def)
  then show ?thesis using that [of ?R] R2 b by (auto simp: same_rest_def)
qed

text \<open>The lookup that an event starts with.\<close>

lemma event_call:
  assumes "blocks_ok R" "0 \<le> fd"
  obtains R1 where "blocks_ok R1" "conn_table mem R1 = conn_table mem R" "same_rest R R1"
    "\<And>call io io'. handle_event mem ec_cb call (fd, EPOLLIN, io, io') R = call io (ec_cb (conn_table mem R fd)) fd R1"
    "\<And>call io io'. handle_event mem ec_cb call (fd, EPOLLOUT, io, io') R = call io' (ec_cb (conn_table mem R fd)) fd R1"
  using lookup_store [OF assms, of mem] lookup_event by metis

lemma echo_round:
  assumes h: "echo_holds mem fd s R" and io: "io_recv io = Some d" "d \<noteq> []" "length (s @ d) \<le> BUFFER_SIZE"
  obtains R1 R2 where "handle_event mem ec_cb (echo_call mem) (fd, EPOLLIN, io, io) R = Some R1"
    "handle_event mem ec_cb (echo_call mem) (fd, EPOLLOUT, io, io) R1 = Some R2" "echo_holds mem fd (s @ d) R2" "zr_sent R2 = zr_sent R @ [(fd, s @ d)]"
proof -
  define c where "c = conn_table mem R fd"
  have b: "blocks_ok R" "0 \<le> fd" "zr_interest R fd = Some EPOLLIN" and c: "ec_cb c = RECV_CB" "ec_rc c = int (length s)" "take (length s) (ec_rbuffer c) = s"
    "length (ec_rbuffer c) = BUFFER_SIZE" "length (ec_wbuffer c) = BUFFER_SIZE" using h by (auto simp: echo_holds_def Let_def c_def)
  obtain Ra where Ra: "blocks_ok Ra" "conn_table mem Ra = conn_table mem R" "same_rest R Ra"
    "handle_event mem ec_cb (echo_call mem) (fd, EPOLLIN, io, io) R = recv_cb mem io fd Ra"
    using event_call [OF b(1,2), of mem] c(1) by (metis c_def echo_call_def zv_callback.case(2))
  have ra: "zr_interest Ra fd \<noteq> None" "conn_table mem Ra fd = c" using Ra(2,3) b(3) by (auto simp: same_rest_def c_def)
  obtain R1 rb wb where R1: "recv_cb mem io fd Ra = Some R1" "blocks_ok R1" "zr_interest R1 fd = Some EPOLLOUT" "zr_sent R1 = zr_sent Ra"
    and c1: "conn_table mem R1 fd = c\<lparr>ec_rbuffer := s @ d @ rb, ec_rc := int (length (s @ d)), ec_wbuffer := s @ d @ wb, ec_wc := int (length (s @ d)), ec_cb := SEND_CB\<rparr>"
    and len: "length (s @ d @ rb) = BUFFER_SIZE" "length (s @ d @ wb) = BUFFER_SIZE"
    using echo_recv_run [OF Ra(1) b(2) ra c(2-5) io] .
  obtain Rb where Rb: "blocks_ok Rb" "conn_table mem Rb = conn_table mem R1" "same_rest R1 Rb"
    "handle_event mem ec_cb (echo_call mem) (fd, EPOLLOUT, io, io) R1 = send_cb mem fd Rb"
  proof (rule event_call [OF R1(2) b(2), of mem])
    fix Rb assume "blocks_ok Rb" "conn_table mem Rb = conn_table mem R1" "same_rest R1 Rb"
      "\<And>call io io'. handle_event mem ec_cb call (fd, EPOLLOUT, io, io') R1 = call io' (ec_cb (conn_table mem R1 fd)) fd Rb"
    then show thesis using that c1 by (simp add: echo_call_def)
  qed
  obtain R2 where R2: "send_cb mem fd Rb = Some R2" "blocks_ok R2" "zr_interest R2 fd = Some EPOLLIN"
    "zr_sent R2 = zr_sent Rb @ [(fd, take (length (s @ d)) (s @ d @ wb))]" "conn_table mem R2 fd = (conn_table mem R1 fd)\<lparr>ec_cb := RECV_CB\<rparr>"
  proof (rule echo_send_run [OF Rb(1) b(2), of mem "conn_table mem R1 fd" "length (s @ d)"])
    show "zr_interest Rb fd \<noteq> None" using Rb(3) R1(3) by (simp add: same_rest_def)
  qed (use Rb(2) c1 that in auto)
  have "echo_holds mem fd (s @ d) R2" using R2 b(2) c1 len io(3) by (simp add: echo_holds_def Let_def)
  moreover have "zr_sent R2 = zr_sent R @ [(fd, s @ d)]" using R2(4) Rb(3) R1(4) Ra(3) by (simp add: same_rest_def)
  ultimately show ?thesis using that Ra(4) R1(1) Rb(4) R2(1) by metis
qed

lemma echo_rounds_run:
  "echo_holds mem fd s R \<Longrightarrow> \<forall>c. io_recv (io c) = Some c \<Longrightarrow> [] \<notin> set cs \<Longrightarrow> length (s @ concat cs) \<le> BUFFER_SIZE
    \<Longrightarrow> \<exists>R'. echo_rounds mem io fd cs R = Some R' \<and> echo_holds mem fd (s @ concat cs) R'
      \<and> zr_sent R' = zr_sent R @ map (\<lambda>i. (fd, s @ concat (take (Suc i) cs))) [0..<length cs]"
proof (induction cs arbitrary: s R)
  case (Cons c cs)
  have len: "length (s @ c) \<le> BUFFER_SIZE" "length ((s @ c) @ concat cs) \<le> BUFFER_SIZE" using Cons.prems(4) by simp_all
  have c: "io_recv (io c) = Some c" "c \<noteq> []" using Cons.prems(2,3) by auto
  obtain R1 R2 where R: "handle_event mem ec_cb (echo_call mem) (fd, EPOLLIN, io c, io c) R = Some R1"
    "handle_event mem ec_cb (echo_call mem) (fd, EPOLLOUT, io c, io c) R1 = Some R2" "echo_holds mem fd (s @ c) R2" "zr_sent R2 = zr_sent R @ [(fd, s @ c)]"
    using echo_round [OF Cons.prems(1) c len(1)] by metis
  obtain R' where R': "echo_rounds mem io fd cs R2 = Some R'" "echo_holds mem fd ((s @ c) @ concat cs) R'"
    "zr_sent R' = zr_sent R2 @ map (\<lambda>i. (fd, (s @ c) @ concat (take (Suc i) cs))) [0..<length cs]"
    using Cons.IH [OF R(3) Cons.prems(2) _ len(2)] Cons.prems(3) by auto
  have "map (\<lambda>i. (fd, s @ concat (take (Suc i) (c # cs)))) [0..<length (c # cs)]
      = (fd, s @ c) # map (\<lambda>i. (fd, (s @ c) @ concat (take (Suc i) cs))) [0..<length cs]"
    by (simp add: upt_conv_Cons map_Suc_upt [symmetric] del: upt_Suc)
  then show ?case using R R' by simp
qed simp

lemma echo_overflow:
  assumes h: "echo_holds mem fd s R" and io: "io_recv io = Some d" "length (s @ d) > BUFFER_SIZE"
  shows "handle_event mem ec_cb (echo_call mem) (fd, EPOLLIN, io, io) R = None"
proof -
  define c where "c = conn_table mem R fd"
  have b: "blocks_ok R" "0 \<le> fd" and c: "ec_cb c = RECV_CB" "ec_rc c = int (length s)" "length (ec_rbuffer c) = BUFFER_SIZE" "length s \<le> BUFFER_SIZE"
    using h by (auto simp: echo_holds_def Let_def c_def)
  obtain Ra where Ra: "blocks_ok Ra" "conn_table mem Ra = conn_table mem R"
    "handle_event mem ec_cb (echo_call mem) (fd, EPOLLIN, io, io) R = recv_cb mem io fd Ra"
    using event_call [OF b(1,2), of mem] c(1) by (metis c_def echo_call_def zv_callback.case(2))
  obtain R1 where "zv_connect_idx mem fd Ra = Some (slot_of fd, R1)" "conn_at R1 (slot_of fd) = Some c"
    using lookup_store [OF Ra(1) b(2), of mem] Ra(2) by (metis c_def)
  moreover have "wr_block (ec_rbuffer c) (length s) d = None" "d \<noteq> []" using io(2) c(3,4) by (auto simp: wr_block_def)
  ultimately show ?thesis using Ra(3) io(1) c(2) by (simp add: recv_cb_def)
qed

section \<open>Properties\<close>

text \<open>
  The answers of the echo server pile up: to the n-th chunk it sends back everything received so far,
  because the read position is never reset. While the total fits the buffer every round returns; the
  chunk that exceeds it is written past the end of the buffer.
\<close>

theorem echo_answers_pile_up:
  assumes "echo_holds mem fd [] R" "\<forall>c. io_recv (io c) = Some c" "[] \<notin> set cs" "length (concat cs) \<le> BUFFER_SIZE"
  shows "\<exists>R'. echo_rounds mem io fd cs R = Some R'
    \<and> zr_sent R' = zr_sent R @ map (\<lambda>i. (fd, concat (take (Suc i) cs))) [0..<length cs]
    \<and> (\<forall>d. length (concat cs @ d) > BUFFER_SIZE \<longrightarrow> echo_rounds mem io fd (cs @ [d]) R = None)"
proof -
  have app: "echo_rounds mem io fd (cs @ [d]) R = (case echo_rounds mem io fd cs R of None \<Rightarrow> None | Some R' \<Rightarrow> echo_rounds mem io fd [d] R')" for d
    by (induction cs arbitrary: R) (auto split: option.splits bind_splits)
  obtain R' where R': "echo_rounds mem io fd cs R = Some R'" "echo_holds mem fd (concat cs) R'"
    "zr_sent R' = zr_sent R @ map (\<lambda>i. (fd, concat (take (Suc i) cs))) [0..<length cs]"
    using echo_rounds_run [OF assms(1,2,3)] assms(4) by auto
  have "echo_rounds mem io fd (cs @ [d]) R = None" if "length (concat cs @ d) > BUFFER_SIZE" for d
    using app [of d] R'(1) echo_overflow [OF R'(2), of "io d" d] assms(2) that by simp
  then show ?thesis using R' by blast
qed

definition echo_sample :: "echo_connect" where
  "echo_sample = \<lparr>ec_fd = 7, ec_cb = RECV_CB, ec_rbuffer = replicate BUFFER_SIZE NUL, ec_rc = 0, ec_count = 2, ec_wbuffer = replicate BUFFER_SIZE NUL, ec_wc = 0\<rparr>"

theorem echo_answers_pile_up_witness:
  "\<exists>R'. echo_rounds (\<lambda>k i. echo_sample) (\<lambda>c. \<lparr>io_accept = -1, io_recv = Some c, io_new = '''', io_fs = (\<lambda>p. None), io_fs2 = (\<lambda>p. None)\<rparr>) 7 [''ab'', ''c'']
      (epoll_add 7 EPOLLIN (zv_init_reactor (\<lambda>k i. echo_sample) 3)) = Some R' \<and> zr_sent R' = [(7, ''ab''), (7, ''abc'')]"
proof -
  let ?R = "epoll_add 7 EPOLLIN (zv_init_reactor (\<lambda>k i. echo_sample) 3)"
  let ?io = "\<lambda>c. \<lparr>io_accept = -1, io_recv = Some c, io_new = '''', io_fs = (\<lambda>p. None), io_fs2 = (\<lambda>p. None)\<rparr>"
  have "zr_sent ?R = []" by (simp add: zv_init_reactor_def)
  moreover have "echo_holds (\<lambda>k i. echo_sample) 7 [] ?R"
    by (auto simp: echo_holds_def zv_init_reactor_def epoll_add_def blocks_ok_def new_block_def conn_table_def Let_def echo_sample_def BLOCK_SIZE_def)
  ultimately show ?thesis using echo_answers_pile_up [of "\<lambda>k i. echo_sample" 7 ?R ?io "[''ab'', ''c'']"] by (auto simp: BUFFER_SIZE_def)
qed

end
