(* ===== verification/BTree.thy ===== *)
theory BTree
  imports CArray
begin

text \<open>
  The B-tree of \<open>btree.c\<close> (data structures). Nodes live in a heap by address, address 0 is \<open>NULL\<close>; a
  node holds its two arrays. An access outside an array, through \<open>NULL\<close> or to a node that was freed is
  \<^const>\<open>None\<close>, as is a failed assertion. \<open>calloc\<close> hands out the addresses in order, and \<open>bt_calloc\<close> says
  which requests it serves.
\<close>

section \<open>Copying and shifting cells\<close>

text \<open>The loops that copy and shift cells; the last argument but one lists the values of the loop variable.\<close>

fun copy_cells :: "nat \<Rightarrow> 'a list \<Rightarrow> nat \<Rightarrow> nat list \<Rightarrow> 'a list \<Rightarrow> 'a list option" where
  "copy_cells so ys dof [] zs = Some zs"
| "copy_cells so ys dof (j # js) zs = do { v \<leftarrow> rd ys (j + so); zs \<leftarrow> wr zs (j + dof) v; copy_cells so ys dof js zs }"

fun shift_up :: "nat list \<Rightarrow> 'a list \<Rightarrow> 'a list option" where
  "shift_up [] xs = Some xs"
| "shift_up (j # js) xs = do { v \<leftarrow> rd xs j; xs \<leftarrow> wr xs (j + 1) v; shift_up js xs }"

fun shift_down :: "nat list \<Rightarrow> 'a list \<Rightarrow> 'a list option" where
  "shift_down [] xs = Some xs"
| "shift_down (j # js) xs = do { v \<leftarrow> rd xs (j + 1); xs \<leftarrow> wr xs j v; shift_down js xs }"

section \<open>Nodes\<close>

record btree_node =
  bn_keys :: "int list"
  bn_childrens :: "addr list"
  bn_num :: nat
  bn_leaf :: bool

record btree =
  bt_root :: addr
  bt_t :: nat
  bt_heap :: "addr \<Rightarrow> btree_node option"
  bt_next :: addr
  bt_calloc :: "addr \<Rightarrow> bool"

definition node_at :: "btree \<Rightarrow> addr \<Rightarrow> btree_node option" where
  "node_at T a = (if a = 0 then None else bt_heap T a)"

definition put_node :: "addr \<Rightarrow> btree_node \<Rightarrow> btree \<Rightarrow> btree option" where
  "put_node a nd T = (if a = 0 \<or> bt_heap T a = None then None else Some (T\<lparr>bt_heap := (bt_heap T)(a \<mapsto> nd)\<rparr>))"

definition btree_create_node :: "nat \<Rightarrow> bool \<Rightarrow> btree \<Rightarrow> (addr \<times> btree) option" where
  "btree_create_node t leaf T =
     (let a = bt_next T
      in if \<not> bt_calloc T a then None
         else Some (a, T\<lparr>bt_heap := (bt_heap T)(a \<mapsto> \<lparr>bn_keys = replicate (2 * t - 1) 0, bn_childrens = replicate (2 * t) 0,
                                                   bn_num = 0, bn_leaf = leaf\<rparr>), bt_next := a + 1\<rparr>))"

definition btree_destroy_node :: "addr \<Rightarrow> btree \<Rightarrow> btree option" where
  "btree_destroy_node a T = do { _ \<leftarrow> node_at T a; Some (T\<lparr>bt_heap := (bt_heap T)(a := None)\<rparr>) }"

definition btree_create :: "nat \<Rightarrow> btree \<Rightarrow> btree option" where
  "btree_create t T = do { (x, T) \<leftarrow> btree_create_node t True (T\<lparr>bt_t := t\<rparr>); Some (T\<lparr>bt_root := x\<rparr>) }"

section \<open>Insertion\<close>

definition btree_split_child :: "addr \<Rightarrow> nat \<Rightarrow> btree \<Rightarrow> btree option" where
  "btree_split_child x i T =
     do { let t = bt_t T;
          xn \<leftarrow> node_at T x;
          y \<leftarrow> rd (bn_childrens xn) i;
          yn \<leftarrow> node_at T y;
          (z, T) \<leftarrow> btree_create_node t (bn_leaf yn) T;
          zn \<leftarrow> node_at T z;
          zk \<leftarrow> copy_cells t (bn_keys yn) 0 [0..<t - 1] (bn_keys zn);
          zc \<leftarrow> (if \<not> bn_leaf yn then copy_cells t (bn_childrens yn) 0 [0..<t] (bn_childrens zn) else Some (bn_childrens zn));
          T \<leftarrow> put_node z (zn\<lparr>bn_num := t - 1, bn_keys := zk, bn_childrens := zc\<rparr>) T;
          T \<leftarrow> put_node y (yn\<lparr>bn_num := t - 1\<rparr>) T;
          xn \<leftarrow> node_at T x;
          xc \<leftarrow> shift_up (rev [i + 1..<bn_num xn + 1]) (bn_childrens xn);
          xc \<leftarrow> wr xc (i + 1) z;
          xk \<leftarrow> shift_up (rev [i..<bn_num xn]) (bn_keys xn);
          v \<leftarrow> rd (bn_keys yn) (t - 1);
          xk \<leftarrow> wr xk i v;
          put_node x (xn\<lparr>bn_childrens := xc, bn_keys := xk, bn_num := bn_num xn + 1\<rparr>) T }"

text \<open>
  The loops of \<open>btree_insert_nonfull\<close>, with the counter \<open>i + 1\<close>: in a leaf the keys are shifted on the
  way, in an inner node only the place is found.
\<close>

fun shift_greater :: "int \<Rightarrow> nat \<Rightarrow> int list \<Rightarrow> (nat \<times> int list) option" where
  "shift_greater k 0 ks = Some (0, ks)"
| "shift_greater k (Suc i) ks =
     do { v \<leftarrow> rd ks i;
          if v > k then do { ks \<leftarrow> wr ks (i + 1) v; shift_greater k i ks } else Some (Suc i, ks) }"

fun find_place :: "int \<Rightarrow> nat \<Rightarrow> int list \<Rightarrow> nat option" where
  "find_place k 0 ks = Some 0"
| "find_place k (Suc i) ks = do { v \<leftarrow> rd ks i; if v > k then find_place k i ks else Some (Suc i) }"

partial_function (option) btree_insert_nonfull :: "addr \<Rightarrow> int \<Rightarrow> btree \<Rightarrow> btree option" where
  "btree_insert_nonfull x k T =
     do { xn \<leftarrow> node_at T x;
          if bn_leaf xn
          then do { (i, ks) \<leftarrow> shift_greater k (bn_num xn) (bn_keys xn);
                    ks \<leftarrow> wr ks i k;
                    put_node x (xn\<lparr>bn_keys := ks, bn_num := bn_num xn + 1\<rparr>) T }
          else do { i \<leftarrow> find_place k (bn_num xn) (bn_keys xn);
                    c \<leftarrow> rd (bn_childrens xn) i;
                    cn \<leftarrow> node_at T c;
                    (i, T) \<leftarrow> (if bn_num cn = 2 * bt_t T - 1
                               then do { T \<leftarrow> btree_split_child x i T;
                                         xn \<leftarrow> node_at T x;
                                         v \<leftarrow> rd (bn_keys xn) i;
                                         Some (if k > v then i + 1 else i, T) }
                               else Some (i, T));
                    xn \<leftarrow> node_at T x;
                    c \<leftarrow> rd (bn_childrens xn) i;
                    btree_insert_nonfull c k T } }"

declare btree_insert_nonfull.simps [code]

definition btree_insert :: "int \<Rightarrow> btree \<Rightarrow> btree option" where
  "btree_insert key T =
     do { let r = bt_root T;
          rn \<leftarrow> node_at T r;
          if bn_num rn = 2 * bt_t T - 1
          then do { (nd, T) \<leftarrow> btree_create_node (bt_t T) False T;
                    let T = T\<lparr>bt_root := nd\<rparr>;
                    nn \<leftarrow> node_at T nd;
                    cs \<leftarrow> wr (bn_childrens nn) 0 r;
                    T \<leftarrow> put_node nd (nn\<lparr>bn_childrens := cs\<rparr>) T;
                    T \<leftarrow> btree_split_child nd 0 T;
                    nn \<leftarrow> node_at T nd;
                    v \<leftarrow> rd (bn_keys nn) 0;
                    c \<leftarrow> rd (bn_childrens nn) (if v < key then 1 else 0);
                    btree_insert_nonfull c key T }
          else btree_insert_nonfull r key T }"

text \<open>The keys \<open>btree_traverse\<close> prints.\<close>

fun trav_children :: "(addr \<Rightarrow> int list option) \<Rightarrow> bool \<Rightarrow> addr list \<Rightarrow> int list \<Rightarrow> nat \<Rightarrow> nat \<Rightarrow> int list option" where
  "trav_children trav leaf cs ks i 0 =
     (if leaf then Some [] else do { c \<leftarrow> rd cs i; trav c })"
| "trav_children trav leaf cs ks i (Suc n) =
     do { out \<leftarrow> (if leaf then Some [] else do { c \<leftarrow> rd cs i; trav c });
          v \<leftarrow> rd ks i;
          more \<leftarrow> trav_children trav leaf cs ks (i + 1) n;
          Some (out @ v # more) }"

text \<open>Fuel bounds the depth of the recursion.\<close>

fun btree_traverse :: "nat \<Rightarrow> btree \<Rightarrow> addr \<Rightarrow> int list option" where
  "btree_traverse 0 T x = None"
| "btree_traverse (Suc f) T x =
     do { xn \<leftarrow> node_at T x; trav_children (btree_traverse f T) (bn_leaf xn) (bn_childrens xn) (bn_keys xn) 0 (bn_num xn) }"

text \<open>
  The lines of \<open>btree_print\<close>: layer, number of keys, leaf flag and keys of a node, then its children; a
  null child is skipped.
\<close>

type_synonym print_line = "int \<times> nat \<times> bool \<times> int list"

fun print_keys :: "int list \<Rightarrow> nat \<Rightarrow> nat \<Rightarrow> int list option" where
  "print_keys ks i 0 = Some []"
| "print_keys ks i (Suc n) = do { v \<leftarrow> rd ks i; more \<leftarrow> print_keys ks (i + 1) n; Some (v # more) }"

fun print_children :: "(addr \<Rightarrow> print_line list option) \<Rightarrow> addr list \<Rightarrow> nat \<Rightarrow> nat \<Rightarrow> print_line list option" where
  "print_children pr cs i 0 = Some []"
| "print_children pr cs i (Suc n) =
     do { c \<leftarrow> rd cs i;
          out \<leftarrow> (if c \<noteq> 0 then pr c else Some []);
          more \<leftarrow> print_children pr cs (i + 1) n;
          Some (out @ more) }"

fun btree_print :: "nat \<Rightarrow> btree \<Rightarrow> addr \<Rightarrow> int \<Rightarrow> print_line list option" where
  "btree_print 0 T p layer = None"
| "btree_print (Suc f) T p layer =
     (if p = 0 then Some []
      else do { nd \<leftarrow> node_at T p;
                ks \<leftarrow> print_keys (bn_keys nd) 0 (bn_num nd);
                more \<leftarrow> print_children (\<lambda>c. btree_print f T c (layer + 1)) (bn_childrens nd) 0 (bn_num nd + 1);
                Some ((layer, bn_num nd, bn_leaf nd, ks) # more) })"

end
