(* ===== verification/BTreeInsert.thy ===== *)
theory BTreeInsert
  imports BTree
begin

text \<open>
  Insertion into the B-tree of \<open>btree.c\<close>: splitting a full child and inserting below a node that is not
  full keep the shape of a B-tree and insert the key at its place.
\<close>

section \<open>Array loops\<close>

lemma copy_cells_append: "copy_cells so ys d (js @ ks) zs = do { zs \<leftarrow> copy_cells so ys d js zs; copy_cells so ys d ks zs }"
proof (induction js arbitrary: zs)
  case (Cons j js)
  then have "copy_cells so ys d (js @ ks) = (\<lambda>zs. do { zs \<leftarrow> copy_cells so ys d js zs; copy_cells so ys d ks zs })" by (intro ext)
  then show ?case by simp
qed simp

lemma copy_cells_range:
  assumes "n + so \<le> length ys" "n + d \<le> length zs"
  shows "copy_cells so ys d [0..<n] zs = Some (take d zs @ take n (drop so ys) @ drop (n + d) zs)"
  using assms
proof (induction n)
  case (Suc n)
  have "drop (n + d) zs = zs ! (n + d) # drop (Suc (n + d)) zs" using Suc.prems by (simp add: Cons_nth_drop_Suc)
  moreover have "take (Suc n) (drop so ys) = take n (drop so ys) @ [ys ! (n + so)]" using Suc.prems by (simp add: take_Suc_conv_app_nth add.commute)
  ultimately show ?case using Suc by (auto simp: copy_cells_append rd_def wr_def list_update_append)
qed simp

lemma shift_up_range:
  assumes "i \<le> n" "n < length xs"
  shows "shift_up (rev [i..<n]) xs = Some (take (Suc i) xs @ take (n - i) (drop i xs) @ drop (Suc n) xs)"
  using assms
proof (induction n arbitrary: xs)
  case 0
  then show ?case by simp
next
  case (Suc n)
  show ?case
  proof (cases "i \<le> n")
    case True
    let ?xs = "xs[Suc n := xs ! n]"
    have "shift_up (rev [i..<n]) ?xs = Some (take (Suc i) ?xs @ take (n - i) (drop i ?xs) @ drop (Suc n) ?xs)"
      using Suc.IH [of ?xs] True Suc.prems by simp
    moreover have "take (Suc i) ?xs = take (Suc i) xs" "take (n - i) (drop i ?xs) = take (n - i) (drop i xs)" using True Suc.prems by (simp_all add: take_drop)
    moreover have "drop (Suc n) ?xs = xs ! n # drop (Suc (Suc n)) xs"
      using Suc.prems by (simp add: drop_update_swap Cons_nth_drop_Suc [symmetric, of "Suc n" xs])
    moreover have "take (Suc n - i) (drop i xs) = take (n - i) (drop i xs) @ [xs ! n]"
      using True Suc.prems by (simp add: Suc_diff_le take_Suc_conv_app_nth)
    ultimately show ?thesis using True Suc.prems by (simp add: rd_def wr_def)
  next
    case False
    then have "i = Suc n" using Suc.prems by simp
    then show ?thesis using Suc.prems by simp
  qed
qed

text \<open>Making room in a filled part of length \<open>n\<close> and writing a cell inserts it there.\<close>

lemma insert_cell:
  assumes "i \<le> n" "n < length xs"
  obtains ys where "shift_up (rev [i..<n]) xs = Some ys" "length ys = length xs"
    "wr ys i v = Some (ys[i := v])" "take (Suc n) (ys[i := v]) = take i xs @ v # drop i (take n xs)"
proof (rule that [OF shift_up_range [OF assms]])
  show "take (Suc n) ((take (Suc i) xs @ take (n - i) (drop i xs) @ drop (Suc n) xs)[i := v]) = take i xs @ v # drop i (take n xs)"
    using assms by (simp add: list_update_append take_drop take_Suc_conv_app_nth Suc_diff_le)
qed (use assms in \<open>simp_all add: wr_def\<close>)

section \<open>Finding the place\<close>

lemma find_place_ok:
  assumes "n \<le> length ks"
  shows "\<exists>p. find_place k n ks = Some p \<and> p \<le> n \<and> (\<forall>j. p \<le> j \<and> j < n \<longrightarrow> k < ks ! j) \<and> (0 < p \<longrightarrow> ks ! (p - 1) \<le> k)"
  using assms
proof (induction n)
  case (Suc n)
  then obtain p where p: "find_place k n ks = Some p" "p \<le> n" "\<forall>j. p \<le> j \<and> j < n \<longrightarrow> k < ks ! j" "0 < p \<longrightarrow> ks ! (p - 1) \<le> k" by auto
  show ?case
  proof (cases "ks ! n > k")
    case True
    then show ?thesis using p Suc.prems by (intro exI [of _ p]) (auto simp: rd_def less_Suc_eq)
  qed (use Suc.prems in \<open>auto simp: rd_def\<close>)
qed simp

lemma find_place_cong: "take n ks = take n ks' \<Longrightarrow> n \<le> length ks \<Longrightarrow> n \<le> length ks' \<Longrightarrow> find_place k n ks = find_place k n ks'"
proof (induction n)
  case (Suc n)
  have "ks ! n = ks' ! n" using Suc.prems(1) by (metis lessI nth_take)
  moreover have "take n ks = take n ks'" using Suc.prems(1) by (metis less_or_eq_imp_le lessI min.absorb1 take_take)
  ultimately show ?case using Suc by (simp add: rd_def)
qed simp

lemma shift_greater_find:
  assumes "n < length ks"
  shows "shift_greater k n ks = do { p \<leftarrow> find_place k n ks; ks \<leftarrow> shift_up (rev [p..<n]) ks; Some (p, ks) }"
  using assms
proof (induction n arbitrary: ks)
  case (Suc n)
  show ?case
  proof (cases "ks ! n > k")
    case True
    let ?ks = "ks[Suc n := ks ! n]"
    obtain p where p: "find_place k n ks = Some p" "p \<le> n" using find_place_ok [of n ks k] Suc.prems by auto
    have "find_place k n ?ks = find_place k n ks" using Suc.prems by (intro find_place_cong) auto
    then show ?thesis using True Suc.prems Suc.IH [of ?ks] p by (simp add: rd_def wr_def)
  qed (use Suc.prems in \<open>simp add: rd_def\<close>)
qed simp

section \<open>Trees in the heap\<close>

datatype btr = BN (baddr: addr) (bsub: "btr list") (bkeys: "int list")

text \<open>A node that holds the keys \<open>ks\<close> and the children \<open>cs\<close> (none in a leaf).\<close>

definition node_ok :: "nat \<Rightarrow> btree_node \<Rightarrow> int list \<Rightarrow> addr list \<Rightarrow> bool" where
  "node_ok t nd ks cs \<longleftrightarrow> length (bn_keys nd) = 2 * t - 1 \<and> length (bn_childrens nd) = 2 * t \<and> bn_num nd = length ks \<and> length ks \<le> 2 * t - 1
     \<and> take (length ks) (bn_keys nd) = ks \<and> bn_leaf nd = (cs = []) \<and> (cs \<noteq> [] \<longrightarrow> length cs = length ks + 1 \<and> take (length cs) (bn_childrens nd) = cs)"

fun brep :: "(addr \<Rightarrow> btree_node option) \<Rightarrow> nat \<Rightarrow> btr \<Rightarrow> bool" where
  "brep h t (BN a cs ks) \<longleftrightarrow> a \<noteq> 0 \<and> (\<exists>nd. h a = Some nd \<and> node_ok t nd ks (map baddr cs)) \<and> (\<forall>c \<in> set cs. brep h t c)"

fun baddrs :: "btr \<Rightarrow> addr list" where
  "baddrs (BN a cs ks) = a # concat (map baddrs cs)"

lemma brep_cong: "(\<And>a. a \<in> set (baddrs b) \<Longrightarrow> h' a = h a) \<Longrightarrow> brep h' t b = brep h t b"
  by (induction b) auto

lemma baddr_in: "baddr b \<in> set (baddrs b)"
  by (cases b) simp

lemma node_children:
  assumes "node_ok t nd ks cs" "i < length cs"
  shows "rd (bn_childrens nd) i = Some (cs ! i)"
proof -
  have "cs \<noteq> []" "length cs \<le> 2 * t" using assms by (auto simp: node_ok_def)
  then have "take (length cs) (bn_childrens nd) = cs" "i < length (bn_childrens nd)" using assms by (auto simp: node_ok_def)
  then show ?thesis using assms(2) by (metis nth_take rd_def)
qed

lemma node_keys:
  assumes "node_ok t nd ks cs" "i < length ks"
  shows "rd (bn_keys nd) i = Some (ks ! i)"
  using assms unfolding node_ok_def rd_def by (metis nth_take less_le_trans)

section \<open>Splitting a full child\<close>

text \<open>The halves of a full node.\<close>

lemma node_low_half:
  assumes "node_ok t nd ks cs" "length ks = 2 * t - 1" "cs = [] \<or> length cs = 2 * t" "1 \<le> t"
  shows "node_ok t (nd\<lparr>bn_num := t - 1\<rparr>) (take (t - 1) ks) (take t cs)"
proof -
  have "take (t - 1) ks = take (t - 1) (bn_keys nd)" using assms unfolding node_ok_def by (metis length_take min.absorb2 order_refl take_all)
  moreover have "cs \<noteq> [] \<Longrightarrow> take t cs = take t (bn_childrens nd)" using assms by (auto simp: node_ok_def)
  ultimately show ?thesis using assms unfolding node_ok_def by auto
qed

lemma node_high_half:
  assumes "node_ok t nd ks cs" "length ks = 2 * t - 1" "cs = [] \<or> length cs = 2 * t" "1 \<le> t" "bn_leaf zn = bn_leaf nd"
    "length zk = 2 * t - 1" "length zc = 2 * t" "take (t - 1) zk = take (t - 1) (drop t (bn_keys nd))"
    "cs \<noteq> [] \<Longrightarrow> take t zc = take t (drop t (bn_childrens nd))"
  shows "node_ok t (zn\<lparr>bn_num := t - 1, bn_keys := zk, bn_childrens := zc\<rparr>) (drop t ks) (drop t cs)"
proof -
  have k: "bn_keys nd = ks" and c: "cs \<noteq> [] \<Longrightarrow> bn_childrens nd = cs" using assms by (auto simp: node_ok_def)
  then have "length (drop t ks) = t - 1" "take (t - 1) zk = drop t ks" using assms by auto
  moreover have "cs \<noteq> [] \<Longrightarrow> length (drop t cs) = t \<and> take t zc = drop t cs" using assms c by auto
  ultimately show ?thesis using assms unfolding node_ok_def by (auto simp: Suc_diff_le)
qed

text \<open>The parent gets the middle key and the new child.\<close>

lemma node_insert_child:
  assumes ok: "node_ok t nd (ks1 @ ks2) (cs1 @ c # cs2)" and len: "length cs1 = length ks1" "length ks1 + length ks2 < 2 * t - 1"
  obtains xc xk where "shift_up (rev [length cs1 + 1..<bn_num nd + 1]) (bn_childrens nd) = Some xc" "length cs1 + 1 < length xc"
    "shift_up (rev [length cs1..<bn_num nd]) (bn_keys nd) = Some xk" "length cs1 < length xk"
    "node_ok t (nd\<lparr>bn_childrens := xc[length cs1 + 1 := z], bn_keys := xk[length cs1 := v], bn_num := bn_num nd + 1\<rparr>) (ks1 @ v # ks2) (cs1 @ c # z # cs2)"
proof -
  let ?i = "length cs1" and ?n = "bn_num nd"
  have n: "?n = length ks1 + length ks2" "length cs2 = length ks2" "take (length (cs1 @ c # cs2)) (bn_childrens nd) = cs1 @ c # cs2"
    "take (length (ks1 @ ks2)) (bn_keys nd) = ks1 @ ks2" "length (bn_keys nd) = 2 * t - 1" "length (bn_childrens nd) = 2 * t" "\<not> bn_leaf nd"
    using ok len by (auto simp: node_ok_def)
  have le: "?i + 1 \<le> ?n + 1" "?n + 1 < length (bn_childrens nd)" "?i \<le> ?n" "?n < length (bn_keys nd)" using n len by auto
  obtain xc where xc: "shift_up (rev [?i + 1..<?n + 1]) (bn_childrens nd) = Some xc" "length xc = length (bn_childrens nd)"
    "take (Suc (?n + 1)) (xc[?i + 1 := z]) = take (?i + 1) (bn_childrens nd) @ z # drop (?i + 1) (take (?n + 1) (bn_childrens nd))"
    using insert_cell [OF le(1,2)] by metis
  obtain xk where xk: "shift_up (rev [?i..<?n]) (bn_keys nd) = Some xk" "length xk = length (bn_keys nd)"
    "take (Suc ?n) (xk[?i := v]) = take ?i (bn_keys nd) @ v # drop ?i (take ?n (bn_keys nd))"
    using insert_cell [OF le(3,4)] by metis
  have c1: "take (?n + 1) (bn_childrens nd) = cs1 @ c # cs2" and k1: "take ?n (bn_keys nd) = ks1 @ ks2" using n len by auto
  have "take (?i + 1) (bn_childrens nd) = take (?i + 1) (take (?n + 1) (bn_childrens nd))" "take ?i (bn_keys nd) = take ?i (take ?n (bn_keys nd))"
    using n(1) len by (simp_all add: min_def del: take_take) (simp_all add: min_def)
  then have "take (?i + 1) (bn_childrens nd) = cs1 @ [c]" "take ?i (bn_keys nd) = ks1" unfolding c1 k1 using len by simp_all
  then have "take (Suc (?n + 1)) (xc[?i + 1 := z]) = cs1 @ c # z # cs2" "take (Suc ?n) (xk[?i := v]) = ks1 @ v # ks2"
    unfolding xc(3) xk(3) c1 k1 using len by simp_all
  then have "node_ok t (nd\<lparr>bn_childrens := xc[?i + 1 := z], bn_keys := xk[?i := v], bn_num := ?n + 1\<rparr>) (ks1 @ v # ks2) (cs1 @ c # z # cs2)"
    using n len xc(2) xk(2) by (simp add: node_ok_def)
  moreover have "?i + 1 < length xc" "?i < length xk" using xc(2) xk(2) le by simp_all
  ultimately show thesis using that xc(1) xk(1) by blast
qed

text \<open>The heap cells \<open>A\<close> may differ; the other parts of the tree variable are kept.\<close>

definition heap_frame :: "addr set \<Rightarrow> btree \<Rightarrow> btree \<Rightarrow> bool" where
  "heap_frame A T T' \<longleftrightarrow> (\<forall>a. a \<notin> A \<longrightarrow> bt_heap T' a = bt_heap T a) \<and> bt_root T' = bt_root T \<and> bt_t T' = bt_t T \<and> bt_calloc T' = bt_calloc T"

lemma heap_frame_trans: "heap_frame A T T' \<Longrightarrow> heap_frame B T' T'' \<Longrightarrow> heap_frame (A \<union> B) T T''"
  by (auto simp: heap_frame_def)

lemma split_child_ok:
  assumes x: "bt_heap T x = Some xn" "node_ok t xn (ks1 @ ks2) (cs1 @ y # cs2)" "length cs1 = length ks1" "length ks1 + length ks2 < 2 * t - 1"
    and y: "bt_heap T y = Some yn" "node_ok t yn yks ycs" "length yks = 2 * t - 1" "ycs = [] \<or> length ycs = 2 * t"
    and t: "1 \<le> t" "bt_t T = t" and z: "z = bt_next T" "bt_calloc T z"
    and ne: "x \<noteq> 0" "y \<noteq> 0" "z \<noteq> 0" "x \<noteq> y" "z \<noteq> x" "z \<noteq> y"
  shows "\<exists>T' xn' yn' zn'. btree_split_child x (length cs1) T = Some T' \<and> heap_frame {x, y, z} T T' \<and> bt_next T' = z + 1
    \<and> bt_heap T' x = Some xn' \<and> node_ok t xn' (ks1 @ yks ! (t - 1) # ks2) (cs1 @ y # z # cs2)
    \<and> bt_heap T' y = Some yn' \<and> node_ok t yn' (take (t - 1) yks) (take t ycs)
    \<and> bt_heap T' z = Some zn' \<and> node_ok t zn' (drop t yks) (drop t ycs)"
proof -
  have yk: "bn_keys yn = yks" "length (bn_keys yn) = 2 * t - 1" "length (bn_childrens yn) = 2 * t" "bn_leaf yn \<longleftrightarrow> ycs = []" using y by (auto simp: node_ok_def)
  define zn where "zn = \<lparr>bn_keys = replicate (2 * t - 1) 0, bn_childrens = replicate (2 * t) 0, bn_num = 0, bn_leaf = bn_leaf yn\<rparr>"
  define zk where "zk = take (t - 1) (drop t (bn_keys yn)) @ drop (t - 1) (replicate (2 * t - 1) (0 :: int))"
  define zc where "zc = (if \<not> bn_leaf yn then take t (drop t (bn_childrens yn)) @ drop t (replicate (2 * t) 0) else replicate (2 * t) 0)"
  have ck: "copy_cells t (bn_keys yn) 0 [0..<t - 1] (bn_keys zn) = Some zk"
    using copy_cells_range [of "t - 1" t "bn_keys yn" 0 "bn_keys zn"] yk t(1) by (simp add: zn_def zk_def)
  have cc: "(if \<not> bn_leaf yn then copy_cells t (bn_childrens yn) 0 [0..<t] (bn_childrens zn) else Some (bn_childrens zn)) = Some zc"
    using copy_cells_range [of t t "bn_childrens yn" 0 "bn_childrens zn"] yk by (simp add: zn_def zc_def)
  have zok: "node_ok t (zn\<lparr>bn_num := t - 1, bn_keys := zk, bn_childrens := zc\<rparr>) (drop t yks) (drop t ycs)"
    by (rule node_high_half [OF y(2-4) t(1)]) (use yk t(1) in \<open>auto simp: zk_def zc_def zn_def\<close>)
  have yok: "node_ok t (yn\<lparr>bn_num := t - 1\<rparr>) (take (t - 1) yks) (take t ycs)" by (rule node_low_half [OF y(2-4) t(1)])
  obtain xc xk where xx: "shift_up (rev [length cs1 + 1..<bn_num xn + 1]) (bn_childrens xn) = Some xc" "length cs1 + 1 < length xc"
    "shift_up (rev [length cs1..<bn_num xn]) (bn_keys xn) = Some xk" "length cs1 < length xk"
    and xok: "node_ok t (xn\<lparr>bn_childrens := xc[length cs1 + 1 := z], bn_keys := xk[length cs1 := yks ! (t - 1)], bn_num := bn_num xn + 1\<rparr>)
      (ks1 @ yks ! (t - 1) # ks2) (cs1 @ y # z # cs2)"
    using node_insert_child [OF x(2-4)] by metis
  have rc: "rd (bn_childrens xn) (length cs1) = Some y" using node_children [OF x(2), of "length cs1"] by simp
  have rv: "rd (bn_keys yn) (t - 1) = Some (yks ! (t - 1))" using yk t(1) by (simp add: rd_def)
  define T1 where "T1 = T\<lparr>bt_heap := (bt_heap T)(z \<mapsto> zn), bt_next := z + 1\<rparr>"
  define T2 where "T2 = T1\<lparr>bt_heap := (bt_heap T1)(z \<mapsto> zn\<lparr>bn_num := t - 1, bn_keys := zk, bn_childrens := zc\<rparr>)\<rparr>"
  define T3 where "T3 = T2\<lparr>bt_heap := (bt_heap T2)(y \<mapsto> yn\<lparr>bn_num := t - 1\<rparr>)\<rparr>"
  have n1: "node_at T x = Some xn" "node_at T y = Some yn" using x y ne by (auto simp: node_at_def)
  have n2: "btree_create_node t (bn_leaf yn) T = Some (z, T1)" using z by (simp add: btree_create_node_def T1_def zn_def Let_def)
  have n3: "node_at T1 z = Some zn" using ne by (simp add: node_at_def T1_def)
  have n4: "put_node z (zn\<lparr>bn_num := t - 1, bn_keys := zk, bn_childrens := zc\<rparr>) T1 = Some T2" using ne by (simp add: put_node_def T1_def T2_def)
  have n5: "put_node y (yn\<lparr>bn_num := t - 1\<rparr>) T2 = Some T3" using ne y by (simp add: put_node_def T1_def T2_def T3_def)
  have n6: "node_at T3 x = Some xn" using ne x by (simp add: node_at_def T1_def T2_def T3_def)
  have n7: "put_node x nd T3 = Some (T3\<lparr>bt_heap := (bt_heap T3)(x \<mapsto> nd)\<rparr>)" for nd using ne x by (simp add: put_node_def T1_def T2_def T3_def)
  let ?xn = "xn\<lparr>bn_childrens := xc[length cs1 + 1 := z], bn_keys := xk[length cs1 := yks ! (t - 1)], bn_num := bn_num xn + 1\<rparr>"
  define T4 where "T4 = T3\<lparr>bt_heap := (bt_heap T3)(x \<mapsto> ?xn)\<rparr>"
  have "btree_split_child x (length cs1) T = Some T4"
    unfolding T4_def btree_split_child_def t(2) Let_def using xx
    by (simp only: n1 n2 n3 n4 n5 n6 n7 rc rv ck cc xx wr_def Option.bind.simps prod.case if_True)
  moreover have "heap_frame {x, y, z} T T4" "bt_next T4 = z + 1" "bt_heap T4 x = Some ?xn" "bt_heap T4 y = Some (yn\<lparr>bn_num := t - 1\<rparr>)"
    "bt_heap T4 z = Some (zn\<lparr>bn_num := t - 1, bn_keys := zk, bn_childrens := zc\<rparr>)"
    using ne by (simp_all add: heap_frame_def T1_def T2_def T3_def T4_def)
  ultimately show ?thesis using xok yok zok by blast
qed

section \<open>The keys in order\<close>

fun inter :: "int list list \<Rightarrow> int list \<Rightarrow> int list" where
  "inter [] ks = ks"
| "inter (c # cs) [] = c"
| "inter (c # cs) (k # ks) = c @ k # inter cs ks"

fun inord :: "btr \<Rightarrow> int list" where
  "inord (BN a cs ks) = inter (map inord cs) ks"

text \<open>What stands before and after a child.\<close>

fun ipre :: "int list list \<Rightarrow> int list \<Rightarrow> int list" where
  "ipre (c # cs) (k # ks) = c @ k # ipre cs ks"
| "ipre _ _ = []"

fun ipost :: "int list \<Rightarrow> int list list \<Rightarrow> int list" where
  "ipost (k # ks) (c # cs) = k # c @ ipost ks cs"
| "ipost _ _ = []"

lemma inter_post: "length cs = length ks \<Longrightarrow> inter (c # cs) ks = c @ ipost ks cs"
  by (induction ks arbitrary: c cs) (auto simp: length_Suc_conv)

lemma inter_split:
  "length cs1 = length ks1 \<Longrightarrow> length cs2 = length ks2 \<Longrightarrow> inter (cs1 @ c # cs2) (ks1 @ ks2) = ipre cs1 ks1 @ c @ ipost ks2 cs2"
  by (induction cs1 ks1 rule: ipre.induct) (auto simp: inter_post)

lemma ipre_last: "length cs = length ks \<Longrightarrow> ks \<noteq> [] \<Longrightarrow> \<exists>us. ipre cs ks = us @ [last ks]"
proof (induction cs ks rule: ipre.induct)
  case (1 c cs k ks)
  then show ?case by (cases "ks = []") fastforce+
qed auto

lemma ipost_hd: "length cs = length ks \<Longrightarrow> ks \<noteq> [] \<Longrightarrow> \<exists>us. ipost ks cs = hd ks # us"
  by (cases ks; cases cs) auto

lemma insort_mid:
  assumes "sorted (xs @ ms @ ys)" "\<forall>x \<in> set xs. x \<le> k" "\<forall>y \<in> set ys. k \<le> (y :: int)"
  shows "insort k (xs @ ms @ ys) = xs @ insort k ms @ ys"
proof -
  have "sort (k # xs @ ms @ ys) = xs @ insort k ms @ ys"
    by (rule properties_for_sort) (use assms in \<open>auto simp: sorted_append sorted_insort set_insort_key\<close>)
  then show ?thesis using assms(1) by (simp add: sorted_sort_id)
qed

text \<open>In a sorted tree the keys before a child are at most \<open>k\<close> when the last separator before it is.\<close>

lemma insort_child:
  assumes "sorted (ipre cs1 ks1 @ ms @ ipost ks2 cs2)" "length cs1 = length ks1" "length cs2 = length ks2"
    "ks1 \<noteq> [] \<Longrightarrow> last ks1 \<le> k" "ks2 \<noteq> [] \<Longrightarrow> k \<le> hd ks2"
  shows "insort k (ipre cs1 ks1 @ ms @ ipost ks2 cs2) = ipre cs1 ks1 @ insort k ms @ ipost ks2 cs2"
proof (rule insort_mid [OF assms(1)])
  show "\<forall>x \<in> set (ipre cs1 ks1). x \<le> k"
  proof (cases "ks1 = []")
    case False
    then obtain us where us: "ipre cs1 ks1 = us @ [last ks1]" using ipre_last [OF assms(2)] by blast
    then have "\<forall>x \<in> set us. x \<le> last ks1" using assms(1) by (auto simp: sorted_append)
    then show ?thesis using us assms(4) False by fastforce
  qed (use assms(2) in simp)
  show "\<forall>y \<in> set (ipost ks2 cs2). k \<le> y"
  proof (cases "ks2 = []")
    case False
    then obtain us where us: "ipost ks2 cs2 = hd ks2 # us" using ipost_hd [OF assms(3)] by blast
    then have "\<forall>y \<in> set us. hd ks2 \<le> y" using assms(1) by (auto simp: sorted_append)
    then show ?thesis using us assms(5) False by fastforce
  qed simp
qed

section \<open>B-trees\<close>

fun bwf :: "nat \<Rightarrow> nat \<Rightarrow> btr \<Rightarrow> bool" where
  "bwf t 0 (BN a cs ks) \<longleftrightarrow> cs = []"
| "bwf t (Suc d) (BN a cs ks) \<longleftrightarrow> length cs = length ks + 1
     \<and> (\<forall>c \<in> set cs. bwf t d c \<and> t - 1 \<le> length (bkeys c) \<and> length (bkeys c) \<le> 2 * t - 1)"

text \<open>\<open>b\<close> is a B-tree of depth \<open>d\<close> in the heap; the addresses from \<open>bt_next\<close> on are free.\<close>

definition sub_ok :: "btree \<Rightarrow> nat \<Rightarrow> btr \<Rightarrow> bool" where
  "sub_ok T d b \<longleftrightarrow> brep (bt_heap T) (bt_t T) b \<and> bwf (bt_t T) d b \<and> distinct (baddrs b) \<and> (\<forall>a \<in> set (baddrs b). a < bt_next T)
     \<and> 2 \<le> bt_t T \<and> (\<forall>a. bt_calloc T a) \<and> 0 < bt_next T"

text \<open>The result of an insertion below a node.\<close>

definition ins_ok :: "btree \<Rightarrow> nat \<Rightarrow> btr \<Rightarrow> int \<Rightarrow> btree \<Rightarrow> btr \<Rightarrow> bool" where
  "ins_ok T d b k T' b' \<longleftrightarrow> sub_ok T' d b' \<and> baddr b' = baddr b \<and> inord b' = insort k (inord b) \<and> bt_next T \<le> bt_next T'
     \<and> length (bkeys b) \<le> length (bkeys b') \<and> length (bkeys b') \<le> 2 * bt_t T - 1
     \<and> heap_frame (set (baddrs b) \<union> {bt_next T..<bt_next T'}) T T' \<and> set (baddrs b') \<subseteq> set (baddrs b) \<union> {bt_next T..<bt_next T'}"

lemma leaf_ins_ok:
  assumes ok: "sub_ok T 0 b" and full: "length (bkeys b) < 2 * bt_t T - 1" and s: "sorted (inord b)"
  shows "\<exists>T' b'. btree_insert_nonfull (baddr b) k T = Some T' \<and> ins_ok T 0 b k T' b'"
proof -
  obtain a ks where b: "b = BN a [] ks" using ok by (cases b) (auto simp: sub_ok_def)
  let ?t = "bt_t T"
  obtain nd where nd: "bt_heap T a = Some nd" "node_ok ?t nd ks []" "a \<noteq> 0" using ok b by (auto simp: sub_ok_def)
  have n: "bn_num nd = length ks" "length (bn_keys nd) = 2 * ?t - 1" "take (length ks) (bn_keys nd) = ks" "bn_leaf nd" using nd(2) by (auto simp: node_ok_def)
  have len: "length ks < length (bn_keys nd)" using full b n(2) by simp
  obtain p where p: "find_place k (length ks) (bn_keys nd) = Some p" "p \<le> length ks" "\<forall>j. p \<le> j \<and> j < length ks \<longrightarrow> k < bn_keys nd ! j"
    "0 < p \<longrightarrow> bn_keys nd ! (p - 1) \<le> k" using find_place_ok [of "length ks" "bn_keys nd" k] len by auto
  have nth: "bn_keys nd ! j = ks ! j" if "j < length ks" for j using n(3) that by (metis nth_take)
  obtain ys where ys: "shift_up (rev [p..<length ks]) (bn_keys nd) = Some ys" "length ys = length (bn_keys nd)" "wr ys p k = Some (ys[p := k])"
    "take (Suc (length ks)) (ys[p := k]) = take p (bn_keys nd) @ k # drop p (take (length ks) (bn_keys nd))"
    using insert_cell [OF p(2) len] by metis
  have tp: "take p (bn_keys nd) = take p ks" using n(3) p(2) by (metis min.absorb2 take_take min.commute)
  let ?ks = "take p ks @ k # drop p ks" and ?nd = "nd\<lparr>bn_keys := ys[p := k], bn_num := length ks + 1\<rparr>"
  let ?T = "T\<lparr>bt_heap := (bt_heap T)(a \<mapsto> ?nd)\<rparr>"
  have "node_ok ?t ?nd ?ks []" using nd(2) ys n tp p(2) len by (auto simp: node_ok_def)
  then have "sub_ok ?T 0 (BN a [] ?ks)" using ok b nd(3) by (auto simp: sub_ok_def)
  moreover have "?ks = insort k ks"
  proof -
    have "\<forall>x \<in> set (drop p ks). k \<le> x" using p(3) nth by (auto simp: in_set_conv_nth less_imp_le)
    moreover have "\<forall>x \<in> set (take p ks). x \<le> k"
    proof
      fix x assume "x \<in> set (take p ks)"
      then obtain j where j: "j < p" "x = ks ! j" using p(2) by (auto simp: in_set_conv_nth)
      have "ks ! j \<le> ks ! (p - 1)" using s b j p(2) by (intro sorted_nth_mono) auto
      then show "x \<le> k" using j p(2,4) nth [of "p - 1"] by auto
    qed
    moreover have "sorted (take p ks @ [] @ drop p ks)" using s b by simp
    ultimately have "insort k (take p ks @ [] @ drop p ks) = take p ks @ insort k [] @ drop p ks" by (intro insort_mid) auto
    then show ?thesis by simp
  qed
  ultimately have "ins_ok T 0 b k ?T (BN a [] ?ks)"
    using full b p(2) by (auto simp: ins_ok_def heap_frame_def)
  moreover have "btree_insert_nonfull (baddr b) k T = Some ?T"
    using nd n p(1) ys(1,3) len b by (subst btree_insert_nonfull.simps) (simp add: node_at_def put_node_def shift_greater_find)
  ultimately show ?thesis by blast
qed

section \<open>Inner nodes\<close>

lemma sub_ok_child:
  assumes "sub_ok T (Suc d) (BN a cs ks)" "c \<in> set cs"
  shows "sub_ok T d c" "bt_t T - 1 \<le> length (bkeys c)" "length (bkeys c) \<le> 2 * bt_t T - 1" "a \<notin> set (baddrs c)"
proof -
  obtain cs1 cs2 where "cs = cs1 @ c # cs2" using assms(2) by (meson split_list)
  then show "sub_ok T d c" "bt_t T - 1 \<le> length (bkeys c)" "length (bkeys c) \<le> 2 * bt_t T - 1" "a \<notin> set (baddrs c)"
    using assms by (auto simp: sub_ok_def)
qed

text \<open>The result for a child gives the result for its parent.\<close>

lemma descend_ok:
  assumes ok: "sub_ok T (Suc d) (BN a (es1 @ e # es2) (js1 @ js2))" and len: "length es1 = length js1" "length (js1 @ js2) \<le> 2 * bt_t T - 1"
    and ins: "ins_ok T d e k T' e'" and s: "sorted (inord (BN a (es1 @ e # es2) (js1 @ js2)))"
    and sep: "js1 \<noteq> [] \<Longrightarrow> last js1 \<le> k" "js2 \<noteq> [] \<Longrightarrow> k \<le> hd js2"
  shows "ins_ok T (Suc d) (BN a (es1 @ e # es2) (js1 @ js2)) k T' (BN a (es1 @ e' # es2) (js1 @ js2))"
proof -
  let ?A = "set (baddrs e) \<union> {bt_next T..<bt_next T'}"
  have len2: "length es2 = length js2" using ok len by (auto simp: sub_ok_def)
  have fr: "heap_frame ?A T T'" and e': "sub_ok T' d e'" "baddr e' = baddr e" "inord e' = insort k (inord e)" "bt_next T \<le> bt_next T'"
    "length (bkeys e) \<le> length (bkeys e')" "length (bkeys e') \<le> 2 * bt_t T - 1" "set (baddrs e') \<subseteq> ?A" using ins by (auto simp: ins_ok_def)
  have t: "bt_t T' = bt_t T" using fr by (simp add: heap_frame_def)
  have same: "bt_heap T' c = bt_heap T c" if "c \<notin> set (baddrs e)" "c < bt_next T" for c using fr that by (auto simp: heap_frame_def)
  have d: "distinct (baddrs (BN a (es1 @ e # es2) (js1 @ js2)))" "\<forall>c \<in> set (baddrs (BN a (es1 @ e # es2) (js1 @ js2))). c < bt_next T" using ok by (auto simp: sub_ok_def)
  have "brep (bt_heap T') (bt_t T) c" if c: "c \<in> set es1 \<union> set es2" for c
  proof -
    have "set (baddrs c) \<inter> set (baddrs e) = {}" "\<forall>x \<in> set (baddrs c). x < bt_next T" using d c by auto
    then have "brep (bt_heap T') (bt_t T) c = brep (bt_heap T) (bt_t T) c" by (intro brep_cong same) auto
    then show ?thesis using ok c by (auto simp: sub_ok_def)
  qed
  moreover have "bt_heap T' a = bt_heap T a" using d by (intro same) auto
  ultimately have "brep (bt_heap T') (bt_t T) (BN a (es1 @ e' # es2) (js1 @ js2))" using ok e'(1,2) t by (auto simp: sub_ok_def)
  moreover have "bwf (bt_t T) (Suc d) (BN a (es1 @ e' # es2) (js1 @ js2))" using ok e' t sub_ok_child(2) [OF ok, of e] by (auto simp: sub_ok_def)
  moreover have others: "\<forall>x \<in> {a} \<union> set (concat (map baddrs (es1 @ es2))). x \<notin> set (baddrs e) \<and> x < bt_next T" using d by auto
  have "x \<notin> set (baddrs e')" if "x \<in> {a} \<union> set (concat (map baddrs (es1 @ es2)))" for x
  proof -
    have "x \<notin> ?A" using bspec [OF others that] by simp
    then show ?thesis using e'(7) by blast
  qed
  then have "distinct (baddrs e')" "set (baddrs e') \<inter> ({a} \<union> set (concat (map baddrs (es1 @ es2)))) = {}"
    using e'(1) by (simp add: sub_ok_def, blast)
  then have "distinct (baddrs (BN a (es1 @ e' # es2) (js1 @ js2)))" using d(1) by auto
  moreover have "x < bt_next T'" if "x \<in> set (baddrs (BN a (es1 @ e' # es2) (js1 @ js2)))" for x
  proof (cases "x \<in> set (baddrs e')")
    case True
    then show ?thesis using e'(1) by (simp add: sub_ok_def)
  next
    case False
    then have "x \<in> {a} \<union> set (concat (map baddrs (es1 @ es2)))" using that by auto
    from bspec [OF others this] show ?thesis using e'(4) by linarith
  qed
  ultimately have "sub_ok T' (Suc d) (BN a (es1 @ e' # es2) (js1 @ js2))" using e'(1) t by (simp add: sub_ok_def)
  moreover have "inord (BN a (es1 @ e' # es2) (js1 @ js2)) = insort k (inord (BN a (es1 @ e # es2) (js1 @ js2)))"
    using insort_child [of "map inord es1" js1 "inord e" js2 "map inord es2" k] s len len2 sep e'(3) by (simp add: inter_split)
  moreover have "heap_frame (set (baddrs (BN a (es1 @ e # es2) (js1 @ js2))) \<union> {bt_next T..<bt_next T'}) T T'" using fr by (auto simp: heap_frame_def)
  ultimately show ?thesis using e' len(2) by (auto simp: ins_ok_def)
qed

lemma inter_append: "length as = length ks + 1 \<Longrightarrow> inter (as @ bs) (ks @ m # js) = inter as ks @ m # inter bs js"
proof (induction ks arbitrary: as)
  case Nil
  then show ?case by (cases as) auto
next
  case (Cons k ks)
  then show ?case by (cases as) auto
qed

lemma split_sub_ok:
  assumes ok: "sub_ok T (Suc d) (BN a (cs1 @ c # cs2) (ks1 @ ks2))" and len: "length cs1 = length ks1" "length (ks1 @ ks2) < 2 * bt_t T - 1"
    and full: "length (bkeys c) = 2 * bt_t T - 1"
  shows "\<exists>T1 cl cr m. btree_split_child a (length cs1) T = Some T1 \<and> sub_ok T1 (Suc d) (BN a (cs1 @ cl # cr # cs2) (ks1 @ m # ks2))
    \<and> inord c = inord cl @ m # inord cr \<and> length (bkeys cl) = bt_t T - 1 \<and> length (bkeys cr) = bt_t T - 1
    \<and> heap_frame (set (baddrs (BN a (cs1 @ c # cs2) (ks1 @ ks2))) \<union> {bt_next T}) T T1 \<and> bt_next T1 = bt_next T + 1
    \<and> set (baddrs (BN a (cs1 @ cl # cr # cs2) (ks1 @ m # ks2))) \<subseteq> set (baddrs (BN a (cs1 @ c # cs2) (ks1 @ ks2))) \<union> {bt_next T}"
proof -
  let ?t = "bt_t T" and ?z = "bt_next T"
  obtain y ycs yks where c: "c = BN y ycs yks" by (cases c)
  have t: "2 \<le> ?t" "0 < ?z" "\<forall>a. bt_calloc T a" using ok by (auto simp: sub_ok_def)
  have d: "distinct (baddrs (BN a (cs1 @ c # cs2) (ks1 @ ks2)))" "\<forall>c \<in> set (baddrs (BN a (cs1 @ c # cs2) (ks1 @ ks2))). c < ?z" using ok by (auto simp: sub_ok_def)
  obtain xn yn where xn: "bt_heap T a = Some xn" "node_ok ?t xn (ks1 @ ks2) (map baddr cs1 @ y # map baddr cs2)" "a \<noteq> 0"
    and yn: "bt_heap T y = Some yn" "node_ok ?t yn yks (map baddr ycs)" "y \<noteq> 0" using ok c by (auto simp: sub_ok_def)
  have wc: "bwf ?t d c" using ok by (auto simp: sub_ok_def)
  have yl: "length yks = 2 * ?t - 1" "ycs = [] \<or> length ycs = 2 * ?t" using full c wc t by (cases d; auto)+
  have ne: "a \<noteq> y" "?z \<noteq> a" "?z \<noteq> y" using d c by auto
  obtain T1 xn' yn' zn' where T1: "btree_split_child a (length (map baddr cs1)) T = Some T1" "heap_frame {a, y, ?z} T T1" "bt_next T1 = ?z + 1"
    "bt_heap T1 a = Some xn'" "node_ok ?t xn' (ks1 @ yks ! (?t - 1) # ks2) (map baddr cs1 @ y # ?z # map baddr cs2)"
    "bt_heap T1 y = Some yn'" "node_ok ?t yn' (take (?t - 1) yks) (take ?t (map baddr ycs))"
    "bt_heap T1 ?z = Some zn'" "node_ok ?t zn' (drop ?t yks) (drop ?t (map baddr ycs))"
    using split_child_ok [OF xn(1,2) _ _ yn(1,2) yl(1) _ _ refl refl _ xn(3) yn(3)] ne len yl(2) t by auto
  define cl where "cl = BN y (take ?t ycs) (take (?t - 1) yks)"
  define cr where "cr = BN ?z (drop ?t ycs) (drop ?t yks)"
  define m where "m = yks ! (?t - 1)"
  have t1: "bt_t T1 = ?t" "bt_calloc T1 = bt_calloc T" using T1(2) by (auto simp: heap_frame_def)
  have same: "bt_heap T1 x = bt_heap T x" if "x \<notin> {a, y, ?z}" for x using T1(2) that by (auto simp: heap_frame_def)
  have keep: "brep (bt_heap T1) ?t e" if "e \<in> set cs1 \<union> set cs2 \<union> set ycs" for e
  proof -
    have "brep (bt_heap T) ?t e" using that ok c by (auto simp: sub_ok_def)
    moreover have "a \<notin> set (baddrs e)" "y \<notin> set (baddrs e)" "?z \<notin> set (baddrs e)" using that d c by auto
    ultimately show ?thesis using brep_cong [of e "bt_heap T1" "bt_heap T" ?t] same by (metis empty_iff insert_iff)
  qed
  have sub: "set (take ?t ycs) \<subseteq> set ycs" "set (drop ?t ycs) \<subseteq> set ycs" by (auto dest: in_set_takeD in_set_dropD)
  have "brep (bt_heap T1) ?t cl" "brep (bt_heap T1) ?t cr"
    using T1(6-9) yn(3) t(2) keep sub by (auto simp: cl_def cr_def take_map drop_map)
  then have rep: "brep (bt_heap T1) ?t (BN a (cs1 @ cl # cr # cs2) (ks1 @ m # ks2))"
    using T1(4,5) xn(3) keep by (auto simp: cl_def cr_def m_def)
  have lens: "length (bkeys cl) = ?t - 1" "length (bkeys cr) = ?t - 1" using yl t(1) by (auto simp: cl_def cr_def)
  have "bwf ?t d cl \<and> bwf ?t d cr"
  proof (cases d)
    case 0
    then show ?thesis using wc c by (simp add: cl_def cr_def)
  next
    case (Suc d')
    then have "\<forall>e \<in> set ycs. bwf ?t d' e \<and> ?t - 1 \<le> length (bkeys e) \<and> length (bkeys e) \<le> 2 * ?t - 1" "length ycs = 2 * ?t" using wc c yl by auto
    then show ?thesis using Suc sub yl(1) t(1) by (auto simp: cl_def cr_def)
  qed
  then have wf: "bwf ?t (Suc d) (BN a (cs1 @ cl # cr # cs2) (ks1 @ m # ks2))" using ok lens t(1) by (auto simp: sub_ok_def)
  have "ycs = take ?t ycs @ drop ?t ycs" by simp
  then have ba: "concat (map baddrs ycs) = concat (map baddrs (take ?t ycs)) @ concat (map baddrs (drop ?t ycs))" by (metis concat_append map_append)
  then have "mset (baddrs (BN a (cs1 @ cl # cr # cs2) (ks1 @ m # ks2))) = add_mset ?z (mset (baddrs (BN a (cs1 @ c # cs2) (ks1 @ ks2))))"
    by (simp add: c cl_def cr_def)
  moreover have "?z \<notin> set (baddrs (BN a (cs1 @ c # cs2) (ks1 @ ks2)))" using d(2) by auto
  ultimately have dist: "distinct (baddrs (BN a (cs1 @ cl # cr # cs2) (ks1 @ m # ks2)))"
    and st: "set (baddrs (BN a (cs1 @ cl # cr # cs2) (ks1 @ m # ks2))) = insert ?z (set (baddrs (BN a (cs1 @ c # cs2) (ks1 @ ks2))))"
    using d(1) by (metis distinct.simps(2) mset.simps(2) mset_eq_imp_distinct_iff, metis list.simps(15) mset.simps(2) mset_eq_setD)
  have "sub_ok T1 (Suc d) (BN a (cs1 @ cl # cr # cs2) (ks1 @ m # ks2))"
  proof -
    have "\<forall>x \<in> insert ?z (set (baddrs (BN a (cs1 @ c # cs2) (ks1 @ ks2)))). x < ?z + 1" using d(2) by (metis insert_iff less_SucI lessI Suc_eq_plus1)
    then show ?thesis unfolding sub_ok_def t1 T1(3) st using rep wf dist t by simp
  qed
  moreover have yk: "yks = take (?t - 1) yks @ m # drop ?t yks" using yl(1) t(1) id_take_nth_drop [of "?t - 1" yks] by (simp add: m_def)
  have "inord c = inord cl @ m # inord cr"
  proof (cases "ycs = []")
    case True
    then show ?thesis using yk c by (simp add: cl_def cr_def)
  next
    case False
    then have "length ycs = 2 * ?t" using yl by simp
    have "inord c = inter (map inord (take ?t ycs) @ map inord (drop ?t ycs)) (take (?t - 1) yks @ m # drop ?t yks)"
      using yk c by (metis inord.simps append_take_drop_id map_append)
    then show ?thesis using inter_append [of "map inord (take ?t ycs)" "take (?t - 1) yks"] \<open>length ycs = _\<close> yl(1) t(1) by (simp add: cl_def cr_def)
  qed
  moreover have "heap_frame (set (baddrs (BN a (cs1 @ c # cs2) (ks1 @ ks2))) \<union> {?z}) T T1" using T1(2) c by (auto simp: heap_frame_def)
  moreover have "btree_split_child a (length cs1) T = Some T1" using T1(1) by simp
  moreover have "set (baddrs (BN a (cs1 @ cl # cr # cs2) (ks1 @ m # ks2))) \<subseteq> set (baddrs (BN a (cs1 @ c # cs2) (ks1 @ ks2))) \<union> {?z}"
    unfolding st by blast
  ultimately show ?thesis using T1(3) lens by blast
qed

section \<open>Insertion below a node that is not full\<close>

lemma node_of:
  assumes "sub_ok T d (BN a cs ks)"
  obtains nd where "node_at T a = Some nd" "node_ok (bt_t T) nd ks (map baddr cs)"
  using assms by (auto simp: sub_ok_def node_at_def)

lemma heap_frame_mono: "heap_frame A T T' \<Longrightarrow> A \<subseteq> B \<Longrightarrow> heap_frame B T T'"
  by (auto simp: heap_frame_def)

text \<open>The result after splitting a child is a result for the tree before.\<close>

lemma ins_ok_after_split:
  assumes "ins_ok T1 d b1 k T' b'" "heap_frame (set (baddrs b) \<union> {bt_next T}) T T1" "bt_next T1 = bt_next T + 1"
    "set (baddrs b1) \<subseteq> set (baddrs b) \<union> {bt_next T}" "inord b1 = inord b" "baddr b1 = baddr b" "length (bkeys b) \<le> length (bkeys b1)"
  shows "ins_ok T d b k T' b'"
proof -
  have t: "bt_t T1 = bt_t T" using assms(2) by (simp add: heap_frame_def)
  have i: "sub_ok T' d b'" "baddr b' = baddr b1" "inord b' = insort k (inord b1)" "bt_next T1 \<le> bt_next T'" "length (bkeys b1) \<le> length (bkeys b')"
    "length (bkeys b') \<le> 2 * bt_t T1 - 1" "heap_frame (set (baddrs b1) \<union> {bt_next T1..<bt_next T'}) T1 T'"
    "set (baddrs b') \<subseteq> set (baddrs b1) \<union> {bt_next T1..<bt_next T'}" using assms(1) by (auto simp: ins_ok_def)
  have sub: "set (baddrs b1) \<union> {bt_next T1..<bt_next T'} \<subseteq> set (baddrs b) \<union> {bt_next T..<bt_next T'}"
    using assms(3,4) i(4) by auto
  have "heap_frame (set (baddrs b) \<union> {bt_next T} \<union> (set (baddrs b1) \<union> {bt_next T1..<bt_next T'})) T T'"
    by (rule heap_frame_trans [OF assms(2) i(7)])
  then have "heap_frame (set (baddrs b) \<union> {bt_next T..<bt_next T'}) T T'"
    by (rule heap_frame_mono) (use sub assms(3) i(4) in auto)
  moreover have "set (baddrs b') \<subseteq> set (baddrs b) \<union> {bt_next T..<bt_next T'}"
    using sub i(8) by blast
  ultimately show ?thesis using i assms(3,5-7) t by (simp add: ins_ok_def)
qed

lemma insert_nonfull_ok:
  assumes "sub_ok T d b" "length (bkeys b) < 2 * bt_t T - 1" "sorted (inord b)"
  shows "\<exists>T' b'. btree_insert_nonfull (baddr b) k T = Some T' \<and> ins_ok T d b k T' b'"
  using assms
proof (induction d arbitrary: T b)
  case 0
  then show ?case by (rule leaf_ins_ok)
next
  case (Suc d)
  let ?t = "bt_t T"
  obtain a cs ks where b: "b = BN a cs ks" by (cases b)
  have len: "length cs = length ks + 1" using Suc.prems(1) b by (simp add: sub_ok_def)
  have full: "length ks < 2 * ?t - 1" using Suc.prems(2) b by simp
  obtain nd where nd: "node_at T a = Some nd" "node_ok ?t nd ks (map baddr cs)" using node_of Suc.prems(1) b by blast
  have n: "bn_num nd = length ks" "take (length ks) (bn_keys nd) = ks" "\<not> bn_leaf nd" "length ks \<le> length (bn_keys nd)" using nd(2) len full by (auto simp: node_ok_def)
  obtain p where p: "find_place k (length ks) (bn_keys nd) = Some p" "p \<le> length ks" "\<forall>j. p \<le> j \<and> j < length ks \<longrightarrow> k < bn_keys nd ! j"
    "0 < p \<longrightarrow> bn_keys nd ! (p - 1) \<le> k" using find_place_ok [OF n(4), of k] by auto
  have nth: "bn_keys nd ! j = ks ! j" if "j < length ks" for j using n(2) that by (metis nth_take)
  define ks1 ks2 cs1 c cs2 where "ks1 = take p ks" and "ks2 = drop p ks" and "cs1 = take p cs" and "c = cs ! p" and "cs2 = drop (Suc p) cs"
  have split: "ks = ks1 @ ks2" "cs = cs1 @ c # cs2" "length cs1 = length ks1" "length cs1 = p" "length cs2 = length ks2"
    using p(2) len id_take_nth_drop [of p cs] by (auto simp: ks1_def ks2_def cs1_def c_def cs2_def)
  have sep: "last ks1 \<le> k" if "ks1 \<noteq> []"
    using p(2,4) nth [of "p - 1"] that by (auto simp: ks1_def last_conv_nth min_def split: if_splits)
  have sep2: "k < hd ks2" if "ks2 \<noteq> []" using p(3) nth [of p] that by (auto simp: ks2_def hd_drop_conv_nth)
  have cin: "c \<in> set cs" using split by simp
  have ok: "sub_ok T (Suc d) (BN a (cs1 @ c # cs2) (ks1 @ ks2))" using Suc.prems(1) b split by simp
  obtain cn where cn: "node_at T (baddr c) = Some cn" "bn_num cn = length (bkeys c)"
    using node_of [of T d "baddr c" "bsub c" "bkeys c"] sub_ok_child(1) [OF ok, of c] by (auto simp: node_ok_def)
  have rc: "rd (bn_childrens nd) p = Some (baddr c)" using node_children [OF nd(2), of p] p(2) len by (simp add: c_def)
  have s: "sorted (inord (BN a (cs1 @ c # cs2) (ks1 @ ks2)))" using Suc.prems(3) b split by simp
  show ?case
  proof (cases "length (bkeys c) = 2 * ?t - 1")
    case False
    then have fc: "length (bkeys c) < 2 * ?t - 1" using sub_ok_child(3) [OF ok, of c] by auto
    have "sorted (inord c)" using s split by (auto simp: inter_split sorted_append)
    then obtain T' c' where c': "btree_insert_nonfull (baddr c) k T = Some T'" "ins_ok T d c k T' c'"
      using Suc.IH [OF sub_ok_child(1) [OF ok, of c] fc] by auto
    have "ins_ok T (Suc d) (BN a (cs1 @ c # cs2) (ks1 @ ks2)) k T' (BN a (cs1 @ c' # cs2) (ks1 @ ks2))"
      by (rule descend_ok [OF ok split(3) _ c'(2) s sep]) (use full split(1) sep2 in auto)
    moreover have "btree_insert_nonfull a k T = Some T'"
      using nd(1) n p(1) rc cn c'(1) False by (subst btree_insert_nonfull.simps) simp
    ultimately show ?thesis using b split by auto
  next
    case True
    obtain T1 cl cr m where T1: "btree_split_child a (length cs1) T = Some T1" "sub_ok T1 (Suc d) (BN a (cs1 @ cl # cr # cs2) (ks1 @ m # ks2))"
      "inord c = inord cl @ m # inord cr" "length (bkeys cl) = ?t - 1" "length (bkeys cr) = ?t - 1"
      "heap_frame (set (baddrs (BN a (cs1 @ c # cs2) (ks1 @ ks2))) \<union> {bt_next T}) T T1" "bt_next T1 = bt_next T + 1"
      "set (baddrs (BN a (cs1 @ cl # cr # cs2) (ks1 @ m # ks2))) \<subseteq> set (baddrs (BN a (cs1 @ c # cs2) (ks1 @ ks2))) \<union> {bt_next T}"
      using split_sub_ok [OF ok split(3) _ True] full split(1) by blast
    let ?b1 = "BN a (cs1 @ cl # cr # cs2) (ks1 @ m # ks2)"
    have t1: "bt_t T1 = ?t" using T1(6) by (simp add: heap_frame_def)
    have t2: "2 \<le> ?t" using ok by (simp add: sub_ok_def)
    have in1: "inord ?b1 = inord (BN a (cs1 @ c # cs2) (ks1 @ ks2))" using split T1(3) by (simp add: inter_split)
    then have s1: "sorted (inord ?b1)" using s by simp
    obtain nd1 where nd1: "node_at T1 a = Some nd1" "node_ok ?t nd1 (ks1 @ m # ks2) (map baddr (cs1 @ cl # cr # cs2))" using node_of [OF T1(2)] t1 by metis
    have rm: "rd (bn_keys nd1) p = Some m" using node_keys [OF nd1(2), of p] split(3,4) by simp
    define i where "i = (if k > m then p + 1 else p)"
    define e where "e = (if k > m then cr else cl)"
    have ri: "rd (bn_childrens nd1) i = Some (baddr e)"
      using node_children [OF nd1(2), of i] split(3,4) by (auto simp: i_def e_def nth_append)
    have ein: "e \<in> set (cs1 @ cl # cr # cs2)" by (simp add: e_def)
    have "length (bkeys e) < 2 * bt_t T1 - 1" using T1(4,5) t1 t2 by (simp add: e_def)
    moreover have "sorted (inord e)" using s1 split T1(3) in1 by (auto simp: e_def inter_split sorted_append)
    ultimately obtain T' e' where e': "btree_insert_nonfull (baddr e) k T1 = Some T'" "ins_ok T1 d e k T' e'"
      using Suc.IH [OF sub_ok_child(1) [OF T1(2) ein]] by auto
    have lb: "length (ks1 @ m # ks2) \<le> 2 * bt_t T1 - 1" using full split(1) t1 by simp
    have "\<exists>b'. ins_ok T1 (Suc d) ?b1 k T' b'"
    proof (cases "k > m")
      case True
      have "ins_ok T1 (Suc d) (BN a ((cs1 @ [cl]) @ cr # cs2) ((ks1 @ [m]) @ ks2)) k T' (BN a ((cs1 @ [cl]) @ e' # cs2) ((ks1 @ [m]) @ ks2))"
        by (rule descend_ok) (use T1(2) split(3) lb e'(2) s1 True sep2 in \<open>auto simp: e_def\<close>)
      then show ?thesis by auto
    next
      case False
      have "ins_ok T1 (Suc d) (BN a (cs1 @ cl # cr # cs2) (ks1 @ m # ks2)) k T' (BN a (cs1 @ e' # cr # cs2) (ks1 @ m # ks2))"
        by (rule descend_ok) (use T1(2) split(3) lb e'(2) s1 False sep in \<open>auto simp: e_def\<close>)
      then show ?thesis by auto
    qed
    then obtain b' where "ins_ok T1 (Suc d) ?b1 k T' b'" by blast
    then have "ins_ok T (Suc d) (BN a (cs1 @ c # cs2) (ks1 @ ks2)) k T' b'"
      by (rule ins_ok_after_split [OF _ T1(6-8) in1]) simp_all
    moreover have "btree_insert_nonfull a k T = Some T'"
      using nd(1) n p(1) rc cn True T1(1) nd1(1) rm ri e'(1) split(4) by (subst btree_insert_nonfull.simps) (simp add: i_def)
    ultimately show ?thesis using b split by auto
  qed
qed

end
