(* ===== verification/BTreeDelete.thy ===== *)
theory BTreeDelete
  imports BTree
begin

text \<open>
  Search in a node, merging and deletion in the B-tree of \<open>btree.c\<close>. Line 330 of the source assigns to
  the member \<open>key\<close>, which does not exist; it is read as \<open>keys\<close>.
\<close>

section \<open>Binary search in a node\<close>

function bin_loop :: "int list \<Rightarrow> int \<Rightarrow> int \<Rightarrow> int \<Rightarrow> int option" where
  "bin_loop ks key low high =
     (if low \<le> high
      then do { let mid = (low + high) div 2;
                v \<leftarrow> rd ks (nat mid);
                if key > v then bin_loop ks key (mid + 1) high else bin_loop ks key low (mid - 1) }
      else Some low)"
  by pat_completeness auto
termination by (relation "measure (\<lambda>(ks, key, low, high). nat (high - low + 1))") auto

declare bin_loop.simps [simp del]

definition btree_bin_search :: "btree_node \<Rightarrow> int \<Rightarrow> int \<Rightarrow> int \<Rightarrow> int option" where
  "btree_bin_search node low high key =
     (if low > high \<or> low < 0 \<or> high < 0 then Some (-1) else bin_loop (bn_keys node) key low high)"

section \<open>Merging\<close>

definition btree_merge :: "addr \<Rightarrow> nat \<Rightarrow> btree \<Rightarrow> btree option" where
  "btree_merge node idx T =
     do { let t = bt_t T;
          nn \<leftarrow> node_at T node;
          left \<leftarrow> rd (bn_childrens nn) idx;
          right \<leftarrow> rd (bn_childrens nn) (idx + 1);
          ln \<leftarrow> node_at T left;
          rn \<leftarrow> node_at T right;
          v \<leftarrow> rd (bn_keys nn) idx;
          lk \<leftarrow> wr (bn_keys ln) (t - 1) v;
          lk \<leftarrow> copy_cells 0 (bn_keys rn) t [0..<t - 1] lk;
          lc \<leftarrow> (if \<not> bn_leaf ln then copy_cells 0 (bn_childrens rn) t [0..<t] (bn_childrens ln) else Some (bn_childrens ln));
          T \<leftarrow> put_node left (ln\<lparr>bn_keys := lk, bn_childrens := lc, bn_num := bn_num ln + t\<rparr>) T;
          T \<leftarrow> btree_destroy_node right T;
          nk \<leftarrow> shift_down [idx..<bn_num nn - 1] (bn_keys nn);
          nc \<leftarrow> shift_down [idx + 1..<bn_num nn] (bn_childrens nn);
          nc \<leftarrow> wr nc (max (idx + 1) (bn_num nn) + 1) 0;
          T \<leftarrow> put_node node (nn\<lparr>bn_keys := nk, bn_childrens := nc, bn_num := bn_num nn - 1\<rparr>) T;
          if bn_num nn = 1
          then btree_destroy_node node (T\<lparr>bt_root := left\<rparr>)
          else Some T }"

section \<open>Deletion\<close>

fun find_idx :: "int \<Rightarrow> int list \<Rightarrow> nat \<Rightarrow> nat \<Rightarrow> nat option" where
  "find_idx key ks idx 0 = Some idx"
| "find_idx key ks idx (Suc n) = do { v \<leftarrow> rd ks idx; if key > v then find_idx key ks (idx + 1) n else Some idx }"

text \<open>A child with few keys takes one from the next or from the previous sibling.\<close>

definition borrow_next :: "addr \<Rightarrow> nat \<Rightarrow> addr \<Rightarrow> addr \<Rightarrow> btree \<Rightarrow> btree option" where
  "borrow_next node idx child right T =
     do { nn \<leftarrow> node_at T node;
          cn \<leftarrow> node_at T child;
          rn \<leftarrow> node_at T right;
          v \<leftarrow> rd (bn_keys nn) idx;
          ck \<leftarrow> wr (bn_keys cn) (bn_num cn) v;
          c \<leftarrow> rd (bn_childrens rn) 0;
          cc \<leftarrow> wr (bn_childrens cn) (bn_num cn + 1) c;
          T \<leftarrow> put_node child (cn\<lparr>bn_keys := ck, bn_childrens := cc, bn_num := bn_num cn + 1\<rparr>) T;
          v \<leftarrow> rd (bn_keys rn) 0;
          nk \<leftarrow> wr (bn_keys nn) idx v;
          T \<leftarrow> put_node node (nn\<lparr>bn_keys := nk\<rparr>) T;
          rk \<leftarrow> shift_down [0..<bn_num rn - 1] (bn_keys rn);
          rc \<leftarrow> shift_down [0..<bn_num rn - 1] (bn_childrens rn);
          rk \<leftarrow> wr rk (bn_num rn - 1) 0;
          c \<leftarrow> rd rc (bn_num rn);
          rc \<leftarrow> wr rc (bn_num rn - 1) c;
          rc \<leftarrow> wr rc (bn_num rn) 0;
          put_node right (rn\<lparr>bn_keys := rk, bn_childrens := rc, bn_num := bn_num rn - 1\<rparr>) T }"

definition borrow_prev :: "addr \<Rightarrow> nat \<Rightarrow> addr \<Rightarrow> addr \<Rightarrow> btree \<Rightarrow> btree option" where
  "borrow_prev node idx child left T =
     do { nn \<leftarrow> node_at T node;
          cn \<leftarrow> node_at T child;
          ck \<leftarrow> shift_up (rev [0..<bn_num cn]) (bn_keys cn);
          cc \<leftarrow> shift_up (rev [1..<bn_num cn + 1]) (bn_childrens cn);
          c \<leftarrow> rd cc 0;
          cc \<leftarrow> wr cc 1 c;
          ln \<leftarrow> node_at T left;
          c \<leftarrow> rd (bn_childrens ln) (bn_num ln);
          cc \<leftarrow> wr cc 0 c;
          v \<leftarrow> rd (bn_keys nn) (idx - 1);
          ck \<leftarrow> wr ck 0 v;
          T \<leftarrow> put_node child (cn\<lparr>bn_keys := ck, bn_childrens := cc, bn_num := bn_num cn + 1\<rparr>) T;
          v \<leftarrow> rd (bn_keys ln) (bn_num ln - 1);
          nk \<leftarrow> wr (bn_keys nn) (idx - 1) v;
          T \<leftarrow> put_node node (nn\<lparr>bn_keys := nk\<rparr>) T;
          lk \<leftarrow> wr (bn_keys ln) (bn_num ln - 1) 0;
          lc \<leftarrow> wr (bn_childrens ln) (bn_num ln) 0;
          put_node left (ln\<lparr>bn_keys := lk, bn_childrens := lc, bn_num := bn_num ln - 1\<rparr>) T }"

text \<open>
  The number of keys of a sibling, \<^const>\<open>None\<close> when there is no sibling (the outer option is the failed
  access).
\<close>

definition sibling_num :: "btree \<Rightarrow> addr \<Rightarrow> nat option option" where
  "sibling_num T a = (if a = 0 then Some None else do { nd \<leftarrow> node_at T a; Some (Some (bn_num nd)) })"

abbreviation "has_key_to_spare t num \<equiv> (case num of None \<Rightarrow> False | Some n \<Rightarrow> n \<ge> t)"

text \<open>The child is filled up before the descent; the result is the child to go on with.\<close>

definition fill_child :: "addr \<Rightarrow> btree_node \<Rightarrow> nat \<Rightarrow> addr \<Rightarrow> btree \<Rightarrow> (addr \<times> btree) option" where
  "fill_child node nn idx child T =
     do { let t = bt_t T;
          left \<leftarrow> (if idx \<ge> 1 then rd (bn_childrens nn) (idx - 1) else Some 0);
          right \<leftarrow> (if idx + 1 \<le> bn_num nn then rd (bn_childrens nn) (idx + 1) else Some 0);
          ln \<leftarrow> sibling_num T left;
          rn \<leftarrow> sibling_num T right;
          if has_key_to_spare t ln \<or> has_key_to_spare t rn
          then do { let richR = (case (ln, rn) of (Some l, Some r) \<Rightarrow> r > l | (_, Some r) \<Rightarrow> True | _ \<Rightarrow> False);
                    T \<leftarrow> (if has_key_to_spare t rn \<and> richR then borrow_next node idx child right T
                           else borrow_prev node idx child left T);
                    Some (child, T) }
          else if (ln = None \<or> ln = Some (t - 1)) \<and> (rn = None \<or> rn = Some (t - 1))
          then if ln = Some (t - 1) then do { T \<leftarrow> btree_merge node (idx - 1) T; Some (left, T) }
               else if rn = Some (t - 1) then do { T \<leftarrow> btree_merge node idx T; Some (child, T) }
               else Some (child, T)
          else Some (child, T) }"

partial_function (option) btree_delete_key :: "addr \<Rightarrow> int \<Rightarrow> btree \<Rightarrow> btree option" where
  "btree_delete_key node key T =
     (if node = 0 then Some T
      else do { nn \<leftarrow> node_at T node;
                idx \<leftarrow> find_idx key (bn_keys nn) 0 (bn_num nn);
                if idx < bn_num nn \<and> key = bn_keys nn ! idx
                then if bn_leaf nn
                     then do { ks \<leftarrow> shift_down [idx..<bn_num nn - 1] (bn_keys nn);
                               ks \<leftarrow> wr ks (bn_num nn - 1) 0;
                               T \<leftarrow> put_node node (nn\<lparr>bn_keys := ks, bn_num := bn_num nn - 1\<rparr>) T;
                               if bn_num nn = 1
                               then do { T \<leftarrow> btree_destroy_node node T; Some (T\<lparr>bt_root := 0\<rparr>) }
                               else Some T }
                     else do { left \<leftarrow> rd (bn_childrens nn) idx;
                               ln \<leftarrow> node_at T left;
                               if bn_num ln \<ge> bt_t T
                               then do { v \<leftarrow> rd (bn_keys ln) (bn_num ln - 1);
                                         nk \<leftarrow> wr (bn_keys nn) idx v;
                                         T \<leftarrow> put_node node (nn\<lparr>bn_keys := nk\<rparr>) T;
                                         btree_delete_key left v T }
                               else do { right \<leftarrow> rd (bn_childrens nn) (idx + 1);
                                         rn \<leftarrow> node_at T right;
                                         if bn_num rn \<ge> bt_t T
                                         then do { v \<leftarrow> rd (bn_keys rn) 0;
                                                   nk \<leftarrow> wr (bn_keys nn) idx v;
                                                   T \<leftarrow> put_node node (nn\<lparr>bn_keys := nk\<rparr>) T;
                                                   btree_delete_key right v T }
                                         else do { T \<leftarrow> btree_merge node idx T;
                                                   nn \<leftarrow> node_at T node;
                                                   c \<leftarrow> rd (bn_childrens nn) idx;
                                                   btree_delete_key c key T } } }
                else do { child \<leftarrow> rd (bn_childrens nn) idx;
                          if child = 0 then Some T
                          else do { cn \<leftarrow> node_at T child;
                                    (child, T) \<leftarrow> (if bn_num cn = bt_t T - 1 then fill_child node nn idx child T else Some (child, T));
                                    btree_delete_key child key T } } })"

declare btree_delete_key.simps [code]

definition btree_delete :: "int \<Rightarrow> btree \<Rightarrow> (int \<times> btree) option" where
  "btree_delete key T =
     (if bt_root T = 0 then Some (-1, T) else do { T \<leftarrow> btree_delete_key (bt_root T) key T; Some (0, T) })"

end
