(* ===== verification/BTreeMain.thy ===== *)
theory BTreeMain
  imports BTreeInsert BTreeDelete
begin

text \<open>
  The B-tree as a whole: insertion with the splitting of the root, the traversal, the height, the binary
  search, and the course of deletions that the program runs.
\<close>

section \<open>The tree and its root\<close>

definition btree_ok :: "btree \<Rightarrow> nat \<Rightarrow> btr \<Rightarrow> bool" where
  "btree_ok T d b \<longleftrightarrow> sub_ok T d b \<and> bt_root T = baddr b \<and> length (bkeys b) \<le> 2 * bt_t T - 1 \<and> (d > 0 \<longrightarrow> bkeys b \<noteq> []) \<and> sorted (inord b)"

text \<open>The tree stands in the heap and holds the keys \<open>ks\<close> in order.\<close>

definition btree_holds :: "btree \<Rightarrow> int list \<Rightarrow> bool" where
  "btree_holds T ks \<longleftrightarrow> (\<exists>d b. btree_ok T d b \<and> inord b = ks)"

lemma ins_ok_root:
  assumes "ins_ok T d b k T' b'" "bt_root T = baddr b" "sorted (inord b)" "d > 0 \<longrightarrow> bkeys b \<noteq> []"
  shows "btree_ok T' d b'"
proof -
  have "sub_ok T' d b'" "baddr b' = baddr b" "length (bkeys b') \<le> 2 * bt_t T - 1" "heap_frame (set (baddrs b) \<union> {bt_next T..<bt_next T'}) T T'"
    "length (bkeys b) \<le> length (bkeys b')" "sorted (inord b')" using assms(1,3) by (auto simp: ins_ok_def sorted_insort)
  then show ?thesis using assms(2,4) by (auto simp: btree_ok_def heap_frame_def)
qed

text \<open>A full root becomes the only child of a new node, which is then split.\<close>

definition grown :: "btree \<Rightarrow> btree" where
  "grown T = T\<lparr>bt_next := bt_next T + 1, bt_root := bt_next T,
     bt_heap := (bt_heap T)(bt_next T \<mapsto> \<lparr>bn_keys = replicate (2 * bt_t T - 1) 0, bn_childrens = (replicate (2 * bt_t T) 0)[0 := bt_root T],
                                         bn_num = 0, bn_leaf = False\<rparr>)\<rparr>"

lemma grown_ok:
  assumes "btree_ok T d b" "length (bkeys b) = 2 * bt_t T - 1"
  shows "sub_ok (grown T) (Suc d) (BN (bt_next T) [b] [])"
proof -
  have ok: "sub_ok T d b" "bt_root T = baddr b" using assms by (auto simp: btree_ok_def)
  have new: "bt_next T \<notin> set (baddrs b)" "2 \<le> bt_t T" using ok by (auto simp: sub_ok_def)
  then have "brep (bt_heap (grown T)) (bt_t T) b = brep (bt_heap T) (bt_t T) b" by (intro brep_cong) (auto simp: grown_def)
  moreover have "replicate (2 * bt_t T) 0 = (0::nat) # replicate (2 * bt_t T - 1) 0" using new(2) by (simp add: replicate_Suc [symmetric] del: replicate_Suc)
  ultimately show ?thesis using ok new assms(2) by (auto simp: sub_ok_def grown_def node_ok_def less_Suc_eq)
qed

lemma btree_insert_ok:
  assumes "btree_ok T d b"
  shows "\<exists>T' d' b'. btree_insert k T = Some T' \<and> btree_ok T' d' b' \<and> inord b' = insort k (inord b) \<and> bt_t T' = bt_t T"
proof -
  let ?t = "bt_t T"
  have ok: "sub_ok T d b" and root: "bt_root T = baddr b" and s: "sorted (inord b)" using assms by (auto simp: btree_ok_def)
  obtain a cs ks where b: "b = BN a cs ks" by (cases b)
  obtain nd where nd: "node_at T a = Some nd" "node_ok ?t nd ks (map baddr cs)" using node_of ok b by blast
  have num: "bn_num nd = length ks" using nd(2) by (simp add: node_ok_def)
  have t: "2 \<le> ?t" "bt_calloc T (bt_next T)" "0 < bt_next T" using ok by (auto simp: sub_ok_def)
  show ?thesis
  proof (cases "length ks = 2 * ?t - 1")
    case False
    then have "length (bkeys b) < 2 * ?t - 1" using assms b by (auto simp: btree_ok_def)
    from insert_nonfull_ok [OF ok this s] obtain T' b' where T': "btree_insert_nonfull (baddr b) k T = Some T'" "ins_ok T d b k T' b'" by blast
    have "btree_insert k T = Some T'" using T'(1) False nd(1) num root b by (simp add: btree_insert_def)
    moreover have "btree_ok T' d b'" by (rule ins_ok_root [OF T'(2) root s]) (use assms in \<open>simp add: btree_ok_def\<close>)
    ultimately show ?thesis using T'(2) by (auto simp: ins_ok_def heap_frame_def)
  next
    case True
    let ?T = "grown T" and ?z = "bt_next T"
    have ok2: "sub_ok ?T (Suc d) (BN ?z ([] @ b # []) ([] @ []))" using grown_ok [OF assms] True b by simp
    have tg: "bt_t ?T = ?t" by (simp add: grown_def)
    have "\<exists>T1 cl cr m. btree_split_child ?z (length ([] :: btr list)) ?T = Some T1 \<and> sub_ok T1 (Suc d) (BN ?z ([] @ cl # cr # []) ([] @ m # []))
      \<and> inord b = inord cl @ m # inord cr \<and> length (bkeys cl) = ?t - 1 \<and> length (bkeys cr) = ?t - 1
      \<and> heap_frame (set (baddrs (BN ?z ([] @ b # []) ([] @ []))) \<union> {bt_next ?T}) ?T T1"
      using split_sub_ok [OF ok2, unfolded tg] True b t by fastforce
    then obtain T1 cl cr m where T1: "btree_split_child ?z 0 ?T = Some T1" "sub_ok T1 (Suc d) (BN ?z [cl, cr] [m])"
      "inord b = inord cl @ m # inord cr" "length (bkeys cl) = ?t - 1" "length (bkeys cr) = ?t - 1"
      "bt_root T1 = ?z" "bt_t T1 = ?t" by (auto simp: heap_frame_def grown_def)
    obtain nd1 where nd1: "node_at T1 ?z = Some nd1" "node_ok ?t nd1 [m] (map baddr [cl, cr])" using node_of [OF T1(2)] T1(7) by metis
    have rm: "rd (bn_keys nd1) 0 = Some m" using node_keys [OF nd1(2), of 0] by simp
    define e where "e = (if m < k then cr else cl)"
    have re: "rd (bn_childrens nd1) (if m < k then 1 else 0) = Some (baddr e)"
      using node_children [OF nd1(2), of 0] node_children [OF nd1(2), of 1] by (simp add: e_def)
    have "length (bkeys e) < 2 * bt_t T1 - 1" using T1(4,5,7) t(1) by (simp add: e_def)
    moreover have "sorted (inord e)" using s T1(3) by (auto simp: e_def sorted_append)
    moreover have "sub_ok T1 d e" by (rule sub_ok_child(1) [OF T1(2)]) (simp add: e_def)
    ultimately obtain T' e' where e': "btree_insert_nonfull (baddr e) k T1 = Some T'" "ins_ok T1 d e k T' e'" using insert_nonfull_ok by blast
    have s1: "sorted (inord (BN ?z [cl, cr] [m]))" and in1: "inord (BN ?z [cl, cr] [m]) = inord b" using s T1(3) by auto
    have "\<exists>b'. ins_ok T1 (Suc d) (BN ?z [cl, cr] [m]) k T' b'"
    proof (cases "m < k")
      case True
      have "ins_ok T1 (Suc d) (BN ?z ([cl] @ cr # []) ([m] @ [])) k T' (BN ?z ([cl] @ e' # []) ([m] @ []))"
        by (rule descend_ok) (use T1 t e'(2) s1 True in \<open>auto simp: e_def\<close>)
      then show ?thesis by auto
    next
      case False
      have "ins_ok T1 (Suc d) (BN ?z ([] @ cl # [cr]) ([] @ [m])) k T' (BN ?z ([] @ e' # [cr]) ([] @ [m]))"
        by (rule descend_ok) (use T1 t e'(2) s1 False in \<open>auto simp: e_def\<close>)
      then show ?thesis by auto
    qed
    then obtain b' where b': "ins_ok T1 (Suc d) (BN ?z [cl, cr] [m]) k T' b'" by blast
    have "btree_ok T' (Suc d) b'" by (rule ins_ok_root [OF b' _ s1]) (simp_all add: T1(6))
    moreover have "btree_insert k T = Some T'"
    proof -
      have "btree_insert k T = do { T \<leftarrow> btree_split_child ?z 0 ?T; nn \<leftarrow> node_at T ?z; v \<leftarrow> rd (bn_keys nn) 0;
          c \<leftarrow> rd (bn_childrens nn) (if v < k then 1 else 0); btree_insert_nonfull c k T }"
        using nd(1) num True root b t by (simp add: btree_insert_def btree_create_node_def node_at_def put_node_def wr_def grown_def Let_def)
      then show ?thesis using T1(1) nd1(1) rm re e'(1) by simp
    qed
    ultimately show ?thesis using b' in1 T1(7) by (auto simp: ins_ok_def heap_frame_def)
  qed
qed

section \<open>Traversal\<close>

lemma trav_children_ok:
  assumes nd: "node_ok t nd ks (map baddr cs)" and ok: "\<forall>c \<in> set cs. trav (baddr c) = Some (inord c)"
  shows "i + n = length ks \<Longrightarrow> trav_children trav (bn_leaf nd) (bn_childrens nd) (bn_keys nd) i n = Some (inter (map inord (drop i cs)) (drop i ks))"
proof (induction n arbitrary: i)
  case 0
  show ?case
  proof (cases "cs = []")
    case True
    then show ?thesis using 0 nd by (simp add: node_ok_def)
  next
    case False
    then have "length cs = length ks + 1" "\<not> bn_leaf nd" using nd by (auto simp: node_ok_def)
    then have "drop i cs = [cs ! i]" "i < length cs" "drop i ks = []" using 0 by (auto simp flip: Cons_nth_drop_Suc)
    then show ?thesis using node_children [OF nd, of i] ok \<open>\<not> bn_leaf nd\<close> by simp
  qed
next
  case (Suc n)
  have k: "rd (bn_keys nd) i = Some (ks ! i)" "drop i ks = ks ! i # drop (Suc i) ks" using Suc.prems node_keys [OF nd, of i] by (auto simp: Cons_nth_drop_Suc)
  show ?case
  proof (cases "cs = []")
    case True
    then show ?thesis using k nd Suc.IH [of "Suc i"] Suc.prems by (simp add: node_ok_def)
  next
    case False
    then have "length cs = length ks + 1" "\<not> bn_leaf nd" using nd by (auto simp: node_ok_def)
    then have "drop i cs = cs ! i # drop (Suc i) cs" "i < length cs" using Suc.prems by (auto simp: Cons_nth_drop_Suc)
    then show ?thesis using node_children [OF nd, of i] ok k Suc.IH [of "Suc i"] Suc.prems \<open>\<not> bn_leaf nd\<close> by simp
  qed
qed

lemma btree_traverse_inord:
  "brep (bt_heap T) t b \<Longrightarrow> bwf t d b \<Longrightarrow> d < f \<Longrightarrow> btree_traverse f T (baddr b) = Some (inord b)"
proof (induction d arbitrary: b f)
  case 0
  obtain a ks where b: "b = BN a [] ks" using 0(2) by (cases b) auto
  obtain g where f: "f = Suc g" using 0(3) by (cases f) auto
  obtain nd where "node_at T a = Some nd" "node_ok t nd ks (map baddr [])" using 0(1) b by (auto simp: node_at_def)
  then show ?case using b f trav_children_ok [of t nd ks "[]" "btree_traverse g T" 0] by (simp add: node_ok_def)
next
  case (Suc d)
  obtain a cs ks where b: "b = BN a cs ks" by (cases b)
  obtain g where f: "f = Suc g" "d < g" using Suc.prems(3) by (cases f) auto
  obtain nd where nd: "node_at T a = Some nd" "node_ok t nd ks (map baddr cs)" using Suc.prems(1) b by (auto simp: node_at_def)
  have "\<forall>c \<in> set cs. btree_traverse g T (baddr c) = Some (inord c)" using Suc.IH [OF _ _ f(2)] Suc.prems b by auto
  from trav_children_ok [OF nd(2) this, of 0] show ?case using b f(1) nd by (simp add: node_ok_def)
qed

section \<open>Height\<close>

lemma inter_length: "length cs = length ks + 1 \<Longrightarrow> length (inter cs ks) = length ks + sum_list (map length cs)"
  by (induction cs ks rule: inter.induct) (auto simp: length_Suc_conv)

lemma sum_list_bound: "\<forall>x \<in> set xs. (b :: nat) \<le> x \<Longrightarrow> length xs * b \<le> sum_list xs"
  by (induction xs) auto

text \<open>A tree below the root has at least \<open>t ^ (d + 1) - 1\<close> keys.\<close>

lemma sub_height: "bwf t d b \<Longrightarrow> t - 1 \<le> length (bkeys b) \<Longrightarrow> 1 \<le> t \<Longrightarrow> t ^ Suc d \<le> length (inord b) + 1"
proof (induction d arbitrary: b)
  case 0
  then show ?case by (cases b) auto
next
  case (Suc d)
  obtain a cs ks where b: "b = BN a cs ks" by (cases b)
  have "\<forall>x \<in> set (map (length \<circ> inord) cs). t ^ Suc d - 1 \<le> x" using Suc.IH Suc.prems b by fastforce
  then have "length cs * (t ^ Suc d - 1) \<le> sum_list (map (length \<circ> inord) cs)" using sum_list_bound by fastforce
  moreover have "length (inord b) = length ks + sum_list (map (length \<circ> inord) cs)" using inter_length [of "map inord cs" ks] Suc.prems b by simp
  moreover have "length cs = length ks + 1" "t \<le> length cs" using Suc.prems b by auto
  moreover have "t * t ^ Suc d \<le> length cs * t ^ Suc d" using \<open>t \<le> length cs\<close> by simp
  moreover have "length cs * t ^ Suc d \<le> length cs * (t ^ Suc d - 1) + length cs"
  proof -
    have "t ^ Suc d = (t ^ Suc d - 1) + 1" using Suc.prems(3) by simp
    then show ?thesis by (metis add_mult_distrib2 mult.right_neutral order_refl)
  qed
  ultimately show ?case by simp
qed

lemma root_height:
  assumes "btree_ok T d b" "0 < d"
  shows "2 * bt_t T ^ d \<le> length (inord b) + 1"
proof -
  let ?t = "bt_t T"
  obtain d' where d: "d = Suc d'" using assms(2) by (cases d) auto
  obtain a cs ks where b: "b = BN a cs ks" by (cases b)
  have w: "bwf ?t (Suc d') (BN a cs ks)" "ks \<noteq> []" "2 \<le> ?t" using assms d b by (auto simp: btree_ok_def sub_ok_def)
  have "\<forall>x \<in> set (map (length \<circ> inord) cs). ?t ^ d - 1 \<le> x" using sub_height [of ?t d'] w d by fastforce
  then have "length cs * (?t ^ d - 1) \<le> sum_list (map (length \<circ> inord) cs)" using sum_list_bound by fastforce
  moreover have "length (inord b) = length ks + sum_list (map (length \<circ> inord) cs)" using inter_length [of "map inord cs" ks] w b by simp
  moreover have "length cs = length ks + 1" using w by simp
  moreover have "2 * ?t ^ d \<le> length cs * ?t ^ d" using w by (cases ks) auto
  moreover have "length cs * ?t ^ d \<le> length cs * (?t ^ d - 1) + length cs"
  proof -
    have "?t ^ d = (?t ^ d - 1) + 1" using w(3) by simp
    then show ?thesis by (metis add_mult_distrib2 mult.right_neutral order_refl)
  qed
  ultimately show ?thesis by linarith
qed

lemma depth_le_keys:
  assumes "btree_ok T d b"
  shows "d \<le> length (inord b)"
proof (cases "d = 0")
  case False
  have "2 \<le> bt_t T" using assms by (simp add: btree_ok_def sub_ok_def)
  then have "2 ^ d \<le> bt_t T ^ d" by (simp add: power_mono)
  moreover have "d < 2 ^ d" by (rule less_exp)
  ultimately show ?thesis using root_height [OF assms] False by linarith
qed simp

lemma btree_holds_traverse:
  assumes "btree_holds T ks"
  shows "btree_traverse (Suc (length ks)) T (bt_root T) = Some ks"
proof -
  obtain d b where b: "btree_ok T d b" "inord b = ks" using assms by (auto simp: btree_holds_def)
  then have "brep (bt_heap T) (bt_t T) b" "bwf (bt_t T) d b" "d < Suc (length ks)" "bt_root T = baddr b"
    using depth_le_keys [OF b(1)] by (auto simp: btree_ok_def sub_ok_def)
  then show ?thesis using btree_traverse_inord b(2) by metis
qed

section \<open>Inserting keys\<close>

definition no_btree :: btree where
  "no_btree = \<lparr>bt_root = 0, bt_t = 0, bt_heap = Map.empty, bt_next = 1, bt_calloc = (\<lambda>a. True)\<rparr>"

fun put_all :: "(int \<Rightarrow> 's \<Rightarrow> 's option) \<Rightarrow> int list \<Rightarrow> 's \<Rightarrow> 's option" where
  "put_all put [] s = Some s"
| "put_all put (k # ks) s = do { s \<leftarrow> put k s; put_all put ks s }"

abbreviation btree_insert_all :: "int list \<Rightarrow> btree \<Rightarrow> btree option" where
  "btree_insert_all \<equiv> put_all btree_insert"

fun btree_delete_all :: "int list \<Rightarrow> btree \<Rightarrow> btree option" where
  "btree_delete_all [] T = Some T"
| "btree_delete_all (k # ks) T = do { (r, T) \<leftarrow> btree_delete k T; btree_delete_all ks T }"

text \<open>The program: the keys are inserted, then deleted from the last to the first.\<close>

definition btree_main :: "int list \<Rightarrow> btree option" where
  "btree_main key = do { T \<leftarrow> btree_create 3 no_btree; T \<leftarrow> btree_insert_all key T; btree_delete_all (rev key) T }"

lemma btree_create_holds:
  assumes "2 \<le> t"
  shows "\<exists>T. btree_create t no_btree = Some T \<and> btree_holds T [] \<and> bt_t T = t"
proof -
  let ?nd = "\<lparr>bn_keys = replicate (2 * t - 1) 0, bn_childrens = replicate (2 * t) 0, bn_num = 0, bn_leaf = True\<rparr>"
  let ?T = "\<lparr>bt_root = 1, bt_t = t, bt_heap = [1 \<mapsto> ?nd], bt_next = 2, bt_calloc = (\<lambda>a. True)\<rparr>"
  have "btree_create t no_btree = Some ?T" by (simp add: btree_create_def btree_create_node_def no_btree_def Let_def)
  moreover have "btree_ok ?T 0 (BN 1 [] [])" using assms by (simp add: btree_ok_def sub_ok_def node_ok_def)
  ultimately show ?thesis by (fastforce simp: btree_holds_def)
qed

lemma btree_insert_holds:
  assumes "btree_holds T ks"
  shows "\<exists>T'. btree_insert k T = Some T' \<and> btree_holds T' (insort k ks) \<and> bt_t T' = bt_t T"
  using assms btree_insert_ok unfolding btree_holds_def by metis

text \<open>A store that keeps a sorted list of keys, repetitions included.\<close>

locale sorted_bag =
  fixes put :: "int \<Rightarrow> 's \<Rightarrow> 's option"
    and holds :: "'s \<Rightarrow> int list \<Rightarrow> bool"
  assumes put_ok: "holds s ks \<Longrightarrow> \<exists>s'. put k s = Some s' \<and> holds s' (insort k ks)"
begin

lemma put_all_fold:
  "holds s ks \<Longrightarrow> \<exists>s'. put_all put new s = Some s' \<and> holds s' (fold insort new ks)"
proof (induction new arbitrary: s ks)
  case (Cons k new)
  obtain s1 where "put k s = Some s1" "holds s1 (insort k ks)" using put_ok [OF Cons.prems] by blast
  then show ?case using Cons.IH by simp
qed simp

lemma put_all_sort: "holds s [] \<Longrightarrow> \<exists>s'. put_all put new s = Some s' \<and> holds s' (sort new)"
  using put_all_fold [of s "[]" new] by (simp add: sort_conv_fold)

end

text \<open>The tree with the parameter \<open>t\<close> is such a store.\<close>

interpretation bt: sorted_bag btree_insert "\<lambda>T ks. btree_holds T ks \<and> bt_t T = t" for t
  by unfold_locales (use btree_insert_holds in blast)

section \<open>Binary search\<close>

lemma bin_loop_bound:
  assumes "sorted ks" "0 \<le> low" "low \<le> high + 1" "high < int (length ks)"
    "\<forall>j < nat low. ks ! j < key" "\<forall>j. nat (high + 1) \<le> j \<and> j < length ks \<longrightarrow> key \<le> ks ! j"
  shows "\<exists>r. bin_loop ks key low high = Some r \<and> low \<le> r \<and> r \<le> high + 1 \<and> (\<forall>j < nat r. ks ! j < key)
    \<and> (\<forall>j. nat r \<le> j \<and> j < length ks \<longrightarrow> key \<le> ks ! j)"
  using assms
proof (induction ks key low high rule: bin_loop.induct)
  case (1 ks key low high)
  show ?case
  proof (cases "low \<le> high")
    case False
    then have "nat (high + 1) = nat low" using 1(5) by simp
    with 1(8) have "\<forall>j. nat low \<le> j \<and> j < length ks \<longrightarrow> key \<le> ks ! j" by simp
    then show ?thesis using False 1(5,7) by (subst bin_loop.simps) simp
  next
    case True
    let ?m = "(low + high) div 2"
    have m: "low \<le> ?m" "?m \<le> high" "nat ?m < length ks" using True 1(4,6) by auto
    have rd: "rd ks (nat ?m) = Some (ks ! nat ?m)" using m by (simp add: rd_def)
    show ?thesis
    proof (cases "key > ks ! nat ?m")
      case key: True
      have "\<forall>j < nat (?m + 1). ks ! j < key"
      proof (intro allI impI)
        fix j assume "j < nat (?m + 1)"
        then have "ks ! j \<le> ks ! nat ?m" using m 1(3,4) by (intro sorted_nth_mono) auto
        then show "ks ! j < key" using key by simp
      qed
      from 1(1) [OF True refl rd key 1(3) _ _ 1(6) this 1(8)] obtain r where r: "bin_loop ks key (?m + 1) high = Some r" "?m + 1 \<le> r" "r \<le> high + 1"
        "\<forall>j < nat r. ks ! j < key" "\<forall>j. nat r \<le> j \<and> j < length ks \<longrightarrow> key \<le> ks ! j" using m 1(4) by auto
      have "bin_loop ks key low high = Some r" using True rd key r(1) by (subst bin_loop.simps) simp
      then show ?thesis using r m by auto
    next
      case key: False
      have "\<forall>j. nat (?m - 1 + 1) \<le> j \<and> j < length ks \<longrightarrow> key \<le> ks ! j"
      proof (intro allI impI)
        fix j assume "nat (?m - 1 + 1) \<le> j \<and> j < length ks"
        then have "ks ! nat ?m \<le> ks ! j" using 1(3) by (intro sorted_nth_mono) auto
        then show "key \<le> ks ! j" using key by simp
      qed
      from 1(2) [OF True refl rd key 1(3,4) _ _ 1(7) this] obtain r where r: "bin_loop ks key low (?m - 1) = Some r" "low \<le> r" "r \<le> ?m - 1 + 1"
        "\<forall>j < nat r. ks ! j < key" "\<forall>j. nat r \<le> j \<and> j < length ks \<longrightarrow> key \<le> ks ! j" using m 1(6) by auto
      have "bin_loop ks key low high = Some r" using True rd key r(1) by (subst bin_loop.simps) simp
      then show ?thesis using r m by auto
    qed
  qed
qed

text \<open>The linear scan of the deletion.\<close>

lemma find_idx_bound:
  "i + n \<le> length ks \<Longrightarrow> \<exists>r. find_idx key ks i n = Some r \<and> i \<le> r \<and> r \<le> i + n \<and> (\<forall>j. i \<le> j \<and> j < r \<longrightarrow> ks ! j < key) \<and> (r < i + n \<longrightarrow> key \<le> ks ! r)"
proof (induction n arbitrary: i)
  case (Suc n)
  show ?case
  proof (cases "key > ks ! i")
    case True
    obtain r where r: "find_idx key ks (Suc i) n = Some r" "Suc i \<le> r" "r \<le> Suc i + n" "\<forall>j. Suc i \<le> j \<and> j < r \<longrightarrow> ks ! j < key" "r < Suc i + n \<longrightarrow> key \<le> ks ! r"
      using Suc.IH [of "Suc i"] Suc.prems by auto
    have "ks ! j < key" if "i \<le> j" "j < r" for j using that r(4) True by (cases "j = i") auto
    then show ?thesis using r True Suc.prems by (auto simp: rd_def)
  qed (use Suc.prems in \<open>auto simp: rd_def\<close>)
qed simp

lemma bin_search_linear:
  assumes "sorted (take n (bn_keys nd))" "0 < n" "n \<le> length (bn_keys nd)"
  shows "btree_bin_search nd 0 (int n - 1) key = map_option int (find_idx key (bn_keys nd) 0 n)"
proof -
  let ?ks = "bn_keys nd" and ?ps = "take n (bn_keys nd)"
  obtain r where r: "find_idx key ?ks 0 n = Some r" "r \<le> n" "\<forall>j. j < r \<longrightarrow> ?ks ! j < key" "r < n \<longrightarrow> key \<le> ?ks ! r"
    using find_idx_bound [of 0 n ?ks key] assms(3) by auto
  have cong: "bin_loop ?ks key low high = bin_loop ?ps key low high" if "0 \<le> low" "high < int n" for low high
    using that
  proof (induction ?ks key low high rule: bin_loop.induct)
    case (1 key low high)
    then show ?case
      by (subst (1 2) bin_loop.simps) (use assms(3) in \<open>auto simp: rd_def Let_def\<close>)
  qed
  obtain q where q: "bin_loop ?ps key 0 (int n - 1) = Some q" "0 \<le> q" "q \<le> int n" "\<forall>j < nat q. ?ps ! j < key"
    "\<forall>j. nat q \<le> j \<and> j < length ?ps \<longrightarrow> key \<le> ?ps ! j" using bin_loop_bound [OF assms(1), of 0 "int n - 1" key] assms(2,3) by auto
  have "\<not> nat q < r" using r(2,3) q(5) assms(3) by (metis le_refl length_take min.absorb2 not_less nth_take less_le_trans)
  moreover have "\<not> r < nat q" using r(4) q(3,4) by (metis nat_int nat_mono not_less nth_take less_le_trans)
  ultimately have "q = int r" using q(2) by linarith
  then show ?thesis using r(1) q(1) cong assms(2) by (simp add: btree_bin_search_def)
qed

lemma btree_holds_depth:
  assumes "btree_holds T ks"
  shows "\<exists>f. btree_traverse (Suc f) T (bt_root T) = Some ks \<and> (0 < f \<longrightarrow> 2 * bt_t T ^ f \<le> length ks + 1)"
proof -
  obtain d b where b: "btree_ok T d b" "inord b = ks" using assms by (auto simp: btree_holds_def)
  then have "btree_traverse (Suc d) T (bt_root T) = Some ks"
    using btree_traverse_inord [of T "bt_t T" b d "Suc d"] by (auto simp: btree_ok_def sub_ok_def)
  then show ?thesis using root_height [OF b(1)] b(2) by auto
qed


section \<open>Properties\<close>

text \<open>
  C16. On a B-tree with the keys \<open>ks\<close> (nodes below the root with \<open>t - 1\<close> to \<open>2t - 1\<close> keys, all leaves at one
  depth, keys in order) \<open>btree_insert\<close> returns within its arrays, and the result is a B-tree with the new
  key at its place, which \<open>btree_traverse\<close> prints in order.
\<close>

theorem btree_insert_correct:
  assumes "btree_holds T ks"
  shows "\<exists>T'. btree_insert k T = Some T' \<and> btree_holds T' (insort k ks)
    \<and> btree_traverse (length ks + 2) T' (bt_root T') = Some (insort k ks)"
proof -
  obtain T' where "btree_insert k T = Some T'" "btree_holds T' (insort k ks)" using btree_insert_holds [OF assms] by blast
  then show ?thesis using btree_holds_traverse [of T' "insort k ks"] by simp
qed

theorem btree_insert_correct_witness:
  "\<exists>T. btree_create 3 no_btree = Some T \<and> btree_holds T []
    \<and> (\<exists>T'. btree_insert 65 T = Some T' \<and> btree_holds T' [65] \<and> btree_traverse 2 T' (bt_root T') = Some [65])"
proof -
  obtain T where "btree_create 3 no_btree = Some T" "btree_holds T []" using btree_create_holds [of 3] by auto
  then show ?thesis using btree_insert_correct [of T "[]" 65] by (auto simp: numeral_2_eq_2)
qed

text \<open>
  C32. Any keys, inserted one after the other into a new tree with \<open>t \<ge> 2\<close>, are printed in sorted order; the
  recursion of the traversal goes \<open>f\<close> levels below the root with \<open>2 t ^ f \<le> n + 1\<close> for \<open>n\<close> keys.
\<close>

theorem btree_insert_all_depth:
  assumes "2 \<le> t"
  shows "\<exists>T T' f. btree_create t no_btree = Some T \<and> btree_insert_all keys T = Some T'
    \<and> btree_traverse (Suc f) T' (bt_root T') = Some (sort keys) \<and> (0 < f \<longrightarrow> 2 * t ^ f \<le> length keys + 1)"
proof -
  obtain T where T: "btree_create t no_btree = Some T" "btree_holds T []" "bt_t T = t" using btree_create_holds [OF assms] by blast
  then obtain T' where T': "btree_insert_all keys T = Some T'" "btree_holds T' (sort keys)" "bt_t T' = t"
    using bt.put_all_sort [of T t keys] by auto
  obtain f where "btree_traverse (Suc f) T' (bt_root T') = Some (sort keys)" "0 < f \<longrightarrow> 2 * t ^ f \<le> length keys + 1"
    using btree_holds_depth [OF T'(2)] T'(3) by auto
  then show ?thesis using T T' by blast
qed

theorem btree_insert_all_depth_witness:
  "\<exists>T T' f. btree_create 3 no_btree = Some T \<and> btree_insert_all [5, 2, 9, 1, 7, 3] T = Some T'
    \<and> btree_traverse (Suc f) T' (bt_root T') = Some [1, 2, 3, 5, 7, 9] \<and> (0 < f \<longrightarrow> 2 * 3 ^ f \<le> (7 :: nat))"
proof -
  have "sort [5, 2, 9, 1, 7, 3 :: int] = [1, 2, 3, 5, 7, 9]" "length [5, 2, 9, 1, 7, 3 :: int] + 1 = 7" "(2 :: nat) \<le> 3" by simp_all
  then show ?thesis using btree_insert_all_depth [of 3 "[5, 2, 9, 1, 7, 3]"] by metis
qed

text \<open>
  On the keys of a node that is not empty \<open>btree_bin_search\<close> stays inside the array and gives the same
  index as the linear scan with which \<open>btree_delete_key\<close> starts.
\<close>

theorem btree_bin_search_is_scan:
  assumes "sorted (take (bn_num nd) (bn_keys nd))" "0 < bn_num nd" "bn_num nd \<le> length (bn_keys nd)"
  shows "btree_bin_search nd 0 (int (bn_num nd) - 1) key = map_option int (find_idx key (bn_keys nd) 0 (bn_num nd))
    \<and> (\<exists>r \<le> bn_num nd. find_idx key (bn_keys nd) 0 (bn_num nd) = Some r)"
  using bin_search_linear [OF assms] find_idx_bound [of 0 "bn_num nd" "bn_keys nd" key] assms(3) by auto

theorem btree_bin_search_is_scan_witness:
  "btree_bin_search \<lparr>bn_keys = [65, 70, 75, 0, 0], bn_childrens = [], bn_num = 3, bn_leaf = True\<rparr> 0 2 71 = Some 2"
proof -
  let ?nd = "\<lparr>bn_keys = [65, 70, 75, 0, 0], bn_childrens = [], bn_num = 3, bn_leaf = True\<rparr>"
  have "find_idx 71 (bn_keys ?nd) 0 (bn_num ?nd) = Some 2" by (simp add: rd_def numeral_3_eq_3)
  then show ?thesis using btree_bin_search_is_scan [of ?nd 71] by simp
qed

lemma shift_down_length: "shift_down js xs = Some ys \<Longrightarrow> length ys = length xs"
  by (induction js xs rule: shift_down.induct) (auto simp: bind_eq_Some_conv wr_def split: if_splits)

text \<open>
  \<open>btree_merge\<close> on a node that has \<open>2t - 1\<close> keys never stays inside its arrays: after the shift it clears
  the cell \<open>childrens[2t]\<close>.
\<close>

theorem btree_merge_full_node:
  assumes "node_at T node = Some nn" "length (bn_childrens nn) = 2 * bt_t T" "bn_num nn = 2 * bt_t T - 1" "idx < bn_num nn"
  shows "btree_merge node idx T = None"
proof -
  have out: "wr nc (max (idx + 1) (bn_num nn) + 1) 0 = None" if "shift_down [idx + 1..<bn_num nn] (bn_childrens nn) = Some nc" for nc
  proof -
    have "length nc = length (bn_childrens nn)" using that by (rule shift_down_length)
    then show ?thesis using assms by (simp add: wr_def)
  qed
  then show ?thesis using assms(1) by (auto simp: btree_merge_def Let_def bind_eq_None_conv)
qed

theorem btree_merge_full_node_witness:
  "btree_merge 1 0 (no_btree\<lparr>bt_t := 2, bt_heap :=
     [1 \<mapsto> \<lparr>bn_keys = [65, 66, 67], bn_childrens = [2, 3, 4, 5], bn_num = 3, bn_leaf = False\<rparr>,
      2 \<mapsto> \<lparr>bn_keys = [64, 0, 0], bn_childrens = [0, 0, 0, 0], bn_num = 1, bn_leaf = True\<rparr>,
      3 \<mapsto> \<lparr>bn_keys = [66, 0, 0], bn_childrens = [0, 0, 0, 0], bn_num = 1, bn_leaf = True\<rparr>]\<rparr>) = None"
  by (rule btree_merge_full_node [where nn = "\<lparr>bn_keys = [65, 66, 67], bn_childrens = [2, 3, 4, 5], bn_num = 3, bn_leaf = False\<rparr>"])
    (simp_all add: node_at_def)

text \<open>The tree of the program: the letters in order, with \<open>t = 3\<close>.\<close>

definition letters :: "int list" where
  "letters = [65..90]"

text \<open>
  The program's deletions are not safe: deleting the letters from the last to the first leaves the
  arrays on the way, and deleting I from the tree of the 26 letters, a key of the root, returns with the
  remaining keys out of order.
\<close>

theorem btree_deletions_go_wrong:
  "btree_main letters = None
   \<and> do { T \<leftarrow> btree_create 3 no_btree; T \<leftarrow> btree_insert_all letters T; (r, T) \<leftarrow> btree_delete 73 T; btree_traverse 4 T (bt_root T) }
     = Some ([65..72] @ [76, 74, 75] @ [77..90])"
  by code_simp

end
