(* ===== verification/RBTree.thy ===== *)
theory RBTree
  imports Prelude "HOL-Library.Tree" "HOL-Library.Monad_Syntax"
begin

text \<open>
  The red-black tree of \<open>rbtree.c\<close> (data structures): nodes in a store by address, with left, right
  and parent pointers and a sentinel \<open>nil\<close>. Loops are partial functions: not returning is
  \<^const>\<open>None\<close>.
\<close>

datatype rb_color = RED | BLACK

record rb_node =
  rn_color :: rb_color
  rn_right :: addr
  rn_left :: addr
  rn_parent :: addr
  rn_key :: int
  rn_value :: addr

record rbtree =
  rt_root :: addr
  rt_nil :: addr
  rt_node :: "addr \<Rightarrow> rb_node"

section \<open>Access\<close>

abbreviation "lf T a \<equiv> rn_left (rt_node T a)"
abbreviation "rg T a \<equiv> rn_right (rt_node T a)"
abbreviation "pa T a \<equiv> rn_parent (rt_node T a)"
abbreviation "col T a \<equiv> rn_color (rt_node T a)"
abbreviation "ky T a \<equiv> rn_key (rt_node T a)"

definition upd_node :: "addr \<Rightarrow> (rb_node \<Rightarrow> rb_node) \<Rightarrow> rbtree \<Rightarrow> rbtree" where
  "upd_node a f T = T\<lparr>rt_node := (rt_node T)(a := f (rt_node T a))\<rparr>"

abbreviation "set_left a v \<equiv> upd_node a (\<lambda>nd. nd\<lparr>rn_left := v\<rparr>)"
abbreviation "set_right a v \<equiv> upd_node a (\<lambda>nd. nd\<lparr>rn_right := v\<rparr>)"
abbreviation "set_parent a v \<equiv> upd_node a (\<lambda>nd. nd\<lparr>rn_parent := v\<rparr>)"
abbreviation "set_color a v \<equiv> upd_node a (\<lambda>nd. nd\<lparr>rn_color := v\<rparr>)"

section \<open>The operations\<close>

partial_function (option) rbtree_mini :: "rbtree \<Rightarrow> addr \<Rightarrow> addr option" where
  "rbtree_mini T x = (if lf T x \<noteq> rt_nil T then rbtree_mini T (lf T x) else Some x)"

partial_function (option) rbtree_maxi :: "rbtree \<Rightarrow> addr \<Rightarrow> addr option" where
  "rbtree_maxi T x = (if rg T x \<noteq> rt_nil T then rbtree_maxi T (rg T x) else Some x)"

partial_function (option) successor_loop :: "rbtree \<Rightarrow> addr \<Rightarrow> addr \<Rightarrow> addr option" where
  "successor_loop T x y = (if y \<noteq> rt_nil T \<and> x = rg T y then successor_loop T y (pa T y) else Some y)"

definition rbtree_successor :: "rbtree \<Rightarrow> addr \<Rightarrow> addr option" where
  "rbtree_successor T x =
     (if rg T x \<noteq> rt_nil T then rbtree_mini T (rg T x) else successor_loop T x (pa T x))"

definition rbtree_left_rotate :: "addr \<Rightarrow> rbtree \<Rightarrow> rbtree" where
  "rbtree_left_rotate x T =
     (let y = rg T x;
          T = set_right x (lf T y) T;
          T = (if lf T y \<noteq> rt_nil T then set_parent (lf T y) x T else T);
          T = set_parent y (pa T x) T;
          T = (if pa T x = rt_nil T then T\<lparr>rt_root := y\<rparr>
               else if x = lf T (pa T x) then set_left (pa T x) y T
               else set_right (pa T x) y T);
          T = set_left y x T
      in set_parent x y T)"

definition rbtree_right_rotate :: "addr \<Rightarrow> rbtree \<Rightarrow> rbtree" where
  "rbtree_right_rotate y T =
     (let x = lf T y;
          T = set_left y (rg T x) T;
          T = (if rg T x \<noteq> rt_nil T then set_parent (rg T x) y T else T);
          T = set_parent x (pa T y) T;
          T = (if pa T y = rt_nil T then T\<lparr>rt_root := x\<rparr>
               else if y = rg T (pa T y) then set_right (pa T y) x T
               else set_left (pa T y) x T);
          T = set_right x y T
      in set_parent y x T)"

partial_function (option) insert_fixup_loop :: "addr \<Rightarrow> rbtree \<Rightarrow> rbtree option" where
  "insert_fixup_loop z T =
     (if col T (pa T z) = RED
      then if pa T z = lf T (pa T (pa T z))
           then (let y = rg T (pa T (pa T z))
                 in if col T y = RED
                    then (let T' = set_color (pa T z) BLACK T;
                              T' = set_color y BLACK T';
                              T' = set_color (pa T' (pa T' z)) RED T'
                          in insert_fixup_loop (pa T' (pa T' z)) T')
                    else (let (z, T) = (if z = rg T (pa T z) then (pa T z, rbtree_left_rotate (pa T z) T) else (z, T));
                              T = set_color (pa T z) BLACK T;
                              T = set_color (pa T (pa T z)) RED T
                          in insert_fixup_loop z (rbtree_right_rotate (pa T (pa T z)) T)))
           else (let y = lf T (pa T (pa T z))
                 in if col T y = RED
                    then (let T' = set_color (pa T z) BLACK T;
                              T' = set_color y BLACK T';
                              T' = set_color (pa T' (pa T' z)) RED T'
                          in insert_fixup_loop (pa T' (pa T' z)) T')
                    else (let (z, T) = (if z = lf T (pa T z) then (pa T z, rbtree_right_rotate (pa T z) T) else (z, T));
                              T = set_color (pa T z) BLACK T;
                              T = set_color (pa T (pa T z)) RED T
                          in insert_fixup_loop z (rbtree_left_rotate (pa T (pa T z)) T)))
      else Some T)"

definition rbtree_insert_fixup :: "addr \<Rightarrow> rbtree \<Rightarrow> rbtree option" where
  "rbtree_insert_fixup z T = map_option (\<lambda>T. set_color (rt_root T) BLACK T) (insert_fixup_loop z T)"

text \<open>The descent returns the last node visited, or \<open>Inl\<close> when the key is found.\<close>

partial_function (option) insert_descend :: "rbtree \<Rightarrow> int \<Rightarrow> addr \<Rightarrow> addr \<Rightarrow> (unit + addr) option" where
  "insert_descend T k y x =
     (if x \<noteq> rt_nil T
      then if k < ky T x then insert_descend T k x (lf T x)
           else if k > ky T x then insert_descend T k x (rg T x)
           else Some (Inl ())
      else Some (Inr y))"

definition rbtree_insert :: "addr \<Rightarrow> rbtree \<Rightarrow> rbtree option" where
  "rbtree_insert z T =
     do { r \<leftarrow> insert_descend T (ky T z) (rt_nil T) (rt_root T);
          case r of
            Inl _ \<Rightarrow> Some T
          | Inr y \<Rightarrow>
              do { let T = set_parent z y T;
                   let T = (if y = rt_nil T then T\<lparr>rt_root := z\<rparr>
                            else if ky T z < ky T y then set_left y z T
                            else set_right y z T);
                   let T = set_left z (rt_nil T) T;
                   let T = set_right z (rt_nil T) T;
                   let T = set_color z RED T;
                   rbtree_insert_fixup z T } }"

partial_function (option) delete_fixup_loop :: "addr \<Rightarrow> rbtree \<Rightarrow> (addr \<times> rbtree) option" where
  "delete_fixup_loop x T =
     (if x \<noteq> rt_root T \<and> col T x = BLACK
      then if x = lf T (pa T x)
           then (let w = rg T (pa T x);
                     (w, T) = (if col T w = RED
                               then (let T = set_color w BLACK T;
                                         T = set_color (pa T x) RED T;
                                         T = rbtree_left_rotate (pa T x) T
                                     in (rg T (pa T x), T))
                               else (w, T))
                 in if col T (lf T w) = BLACK \<and> col T (rg T w) = BLACK
                    then (let T = set_color w RED T in delete_fixup_loop (pa T x) T)
                    else (let (w, T) = (if col T (rg T w) = BLACK
                                        then (let T = set_color (lf T w) BLACK T;
                                                  T = set_color w RED T;
                                                  T = rbtree_right_rotate w T
                                              in (rg T (pa T x), T))
                                        else (w, T));
                              T = set_color w (col T (pa T x)) T;
                              T = set_color (pa T x) BLACK T;
                              T = set_color (rg T w) BLACK T;
                              T = rbtree_left_rotate (pa T x) T
                          in delete_fixup_loop (rt_root T) T))
           else (let w = lf T (pa T x);
                     (w, T) = (if col T w = RED
                               then (let T = set_color w BLACK T;
                                         T = set_color (pa T x) RED T;
                                         T = rbtree_right_rotate (pa T x) T
                                     in (lf T (pa T x), T))
                               else (w, T))
                 in if col T (lf T w) = BLACK \<and> col T (rg T w) = BLACK
                    then (let T = set_color w RED T in delete_fixup_loop (pa T x) T)
                    else (let (w, T) = (if col T (lf T w) = BLACK
                                        then (let T = set_color (rg T w) BLACK T;
                                                  T = set_color w RED T;
                                                  T = rbtree_left_rotate w T
                                              in (lf T (pa T x), T))
                                        else (w, T));
                              T = set_color w (col T (pa T x)) T;
                              T = set_color (pa T x) BLACK T;
                              T = set_color (lf T w) BLACK T;
                              T = rbtree_right_rotate (pa T x) T
                          in delete_fixup_loop (rt_root T) T))
      else Some (x, T))"

definition rbtree_delete_fixup :: "addr \<Rightarrow> rbtree \<Rightarrow> rbtree option" where
  "rbtree_delete_fixup x T = map_option (\<lambda>(x, T). set_color x BLACK T) (delete_fixup_loop x T)"

text \<open>Returns the node taken out of the tree, which the caller frees, and the tree.\<close>

definition rbtree_delete :: "addr \<Rightarrow> rbtree \<Rightarrow> (addr \<times> rbtree) option" where
  "rbtree_delete z T =
     do { y \<leftarrow> (if lf T z = rt_nil T \<or> rg T z = rt_nil T then Some z else rbtree_successor T z);
          let x = (if lf T y \<noteq> rt_nil T then lf T y else if rg T y \<noteq> rt_nil T then rg T y else rt_nil T);
          let T = set_parent x (pa T y) T;
          let T = (if pa T y = rt_nil T then T\<lparr>rt_root := x\<rparr>
                   else if y = lf T (pa T y) then set_left (pa T y) x T
                   else set_right (pa T y) x T);
          let T = (if y \<noteq> z
                   then upd_node z (\<lambda>nd. nd\<lparr>rn_key := ky T y, rn_value := rn_value (rt_node T y)\<rparr>) T
                   else T);
          T \<leftarrow> (if col T y = BLACK then rbtree_delete_fixup x T else Some T);
          Some (y, T) }"

partial_function (option) search_loop :: "rbtree \<Rightarrow> int \<Rightarrow> addr \<Rightarrow> addr option" where
  "search_loop T k node =
     (if node \<noteq> rt_nil T
      then if k < ky T node then search_loop T k (lf T node)
           else if k > ky T node then search_loop T k (rg T node)
           else Some node
      else Some (rt_nil T))"

definition rbtree_search :: "rbtree \<Rightarrow> int \<Rightarrow> addr option" where
  "rbtree_search T k = search_loop T k (rt_root T)"

text \<open>The keys and colours that \<open>rbtree_traversal\<close> prints.\<close>

partial_function (option) rbtree_traversal :: "rbtree \<Rightarrow> addr \<Rightarrow> (int \<times> rb_color) list option" where
  "rbtree_traversal T node =
     (if node \<noteq> rt_nil T
      then do { l \<leftarrow> rbtree_traversal T (lf T node);
                r \<leftarrow> rbtree_traversal T (rg T node);
                Some (l @ (ky T node, col T node) # r) }
      else Some [])"

section \<open>Trees in the store\<close>

lemma upd_node_simps [simp]:
  "rt_node (upd_node a f T) = (rt_node T)(a := f (rt_node T a))" "rt_root (upd_node a f T) = rt_root T" "rt_nil (upd_node a f T) = rt_nil T"
  by (simp_all add: upd_node_def)

text \<open>\<open>rep T par t p\<close>: at \<open>p\<close> stands the tree \<open>t\<close> of addresses, with parent \<open>par\<close>.\<close>

fun rep :: "rbtree \<Rightarrow> addr \<Rightarrow> addr tree \<Rightarrow> addr \<Rightarrow> bool" where
  "rep T par Leaf p \<longleftrightarrow> p = rt_nil T"
| "rep T par (Node l a r) p \<longleftrightarrow> p = a \<and> a \<noteq> rt_nil T \<and> pa T a = par \<and> rep T a l (lf T a) \<and> rep T a r (rg T a)"

text \<open>A position in a tree: the frames from the hole to the root.\<close>

datatype frame = FL addr "addr tree" | FR "addr tree" addr

fun above :: "rbtree \<Rightarrow> frame list \<Rightarrow> addr" where
  "above T [] = rt_nil T"
| "above T (FL a r # fs) = a"
| "above T (FR l a # fs) = a"

fun repc :: "rbtree \<Rightarrow> frame list \<Rightarrow> addr \<Rightarrow> bool" where
  "repc T [] p \<longleftrightarrow> rt_root T = p"
| "repc T (FL a r # fs) p \<longleftrightarrow> a \<noteq> rt_nil T \<and> lf T a = p \<and> rep T a r (rg T a) \<and> pa T a = above T fs \<and> repc T fs a"
| "repc T (FR l a # fs) p \<longleftrightarrow> a \<noteq> rt_nil T \<and> rg T a = p \<and> rep T a l (lf T a) \<and> pa T a = above T fs \<and> repc T fs a"

fun plug :: "addr tree \<Rightarrow> frame list \<Rightarrow> addr tree" where
  "plug t [] = t"
| "plug t (FL a r # fs) = plug (Node t a r) fs"
| "plug t (FR l a # fs) = plug (Node l a t) fs"

fun clist :: "frame list \<Rightarrow> addr list" where
  "clist [] = []"
| "clist (FL a r # fs) = a # inorder r @ clist fs"
| "clist (FR l a # fs) = a # inorder l @ clist fs"

lemma rep_plug: "rep T (rt_nil T) (plug t fs) (rt_root T) \<longleftrightarrow> (\<exists>p. rep T (above T fs) t p \<and> repc T fs p)"
  by (induction t fs rule: plug.induct) auto

lemma distinct_plug: "distinct (inorder (plug t fs)) \<longleftrightarrow> distinct (inorder t @ clist fs)"
  by (induction t fs rule: plug.induct) auto

lemma set_plug: "set_tree (plug t fs) = set_tree t \<union> set (clist fs)"
  by (induction t fs rule: plug.induct) auto

lemma inorder_plug: "inorder t = inorder t' \<Longrightarrow> inorder (plug t fs) = inorder (plug t' fs)"
proof (induction fs arbitrary: t t')
  case (Cons f fs)
  then show ?case by (cases f) simp_all
qed simp

lemma rep_root: "rep T par t p \<Longrightarrow> p = rt_nil T \<or> p \<in> set_tree t"
  by (cases t) auto

lemma rep_Leaf: "rep T par t p \<Longrightarrow> p = rt_nil T \<longleftrightarrow> t = Leaf"
  by (cases t) auto

text \<open>\<open>same_links A T T'\<close>: on the nodes \<open>A\<close> the two stores have the same pointers.\<close>

definition same_links :: "addr set \<Rightarrow> rbtree \<Rightarrow> rbtree \<Rightarrow> bool" where
  "same_links A T T' \<longleftrightarrow> rt_nil T' = rt_nil T \<and> (\<forall>a \<in> A. lf T' a = lf T a \<and> rg T' a = rg T a \<and> pa T' a = pa T a)"

lemma rep_cong: "same_links (set_tree t) T T' \<Longrightarrow> rep T' par t p = rep T par t p"
  by (induction t arbitrary: par p) (auto simp: same_links_def)

lemma repc_cong: "same_links (set (clist fs)) T T' \<Longrightarrow> rt_root T' = rt_root T \<Longrightarrow> repc T' fs p = repc T fs p \<and> above T' fs = above T fs"
proof (induction fs arbitrary: p)
  case (Cons f fs)
  have ih: "repc T' fs p = repc T fs p \<and> above T' fs = above T fs" for p
    using Cons by (cases f) (auto simp: same_links_def)
  show ?case
  proof (cases f)
    case (FL a r)
    then have "rep T' a r q = rep T a r q" for q using Cons.prems by (intro rep_cong) (auto simp: same_links_def)
    then show ?thesis using FL ih Cons.prems by (auto simp: same_links_def)
  next
    case (FR l a)
    then have "rep T' a l q = rep T a l q" for q using Cons.prems by (intro rep_cong) (auto simp: same_links_def)
    then show ?thesis using FR ih Cons.prems by (auto simp: same_links_def)
  qed
qed (simp add: same_links_def)

text \<open>Moving a subtree below another node.\<close>

lemma rep_reparent:
  assumes "rep T par t p" "distinct (inorder t)" "same_links (set_tree t - {p}) T T'"
    and "t \<noteq> Leaf \<Longrightarrow> lf T' p = lf T p \<and> rg T' p = rg T p \<and> pa T' p = par'"
  shows "rep T' par' t p"
proof (cases t)
  case Leaf
  then show ?thesis using assms by (simp add: same_links_def)
next
  case (Node l a r)
  then have "same_links (set_tree l) T T'" "same_links (set_tree r) T T'"
    using assms by (auto simp: same_links_def)
  then show ?thesis using Node assms rep_cong [of l T T'] rep_cong [of r T T'] by (auto simp: same_links_def)
qed

text \<open>Putting another node below the innermost frame.\<close>

lemma repc_redirect:
  assumes "repc T fs x" "distinct (clist fs)" "rt_nil T' = rt_nil T"
    and other: "same_links (set (clist fs) - {above T fs}) T T'"
    and root: "fs = [] \<Longrightarrow> rt_root T' = y" "fs \<noteq> [] \<Longrightarrow> rt_root T' = rt_root T"
    and left: "\<And>a r gs. fs = FL a r # gs \<Longrightarrow> lf T' a = y \<and> rg T' a = rg T a \<and> pa T' a = pa T a"
    and right: "\<And>l a gs. fs = FR l a # gs \<Longrightarrow> rg T' a = y \<and> lf T' a = lf T a \<and> pa T' a = pa T a"
  shows "repc T' fs y \<and> above T' fs = above T fs"
proof (cases fs)
  case Nil
  then show ?thesis using root(1) assms(3) by simp
next
  case (Cons f gs)
  show ?thesis
  proof (cases f)
    case (FL a r)
    have "same_links (set (clist gs)) T T'" "same_links (set_tree r) T T'"
      using assms(2) other Cons FL by (auto simp: same_links_def)
    then show ?thesis
      using assms(1,3) left [of a r gs] root(2) repc_cong [of gs T T' a] rep_cong [of r T T'] Cons FL by auto
  next
    case (FR l a)
    have "same_links (set (clist gs)) T T'" "same_links (set_tree l) T T'"
      using assms(2) other Cons FR by (auto simp: same_links_def)
    then show ?thesis
      using assms(1,3) right [of l a gs] root(2) repc_cong [of gs T T' a] rep_cong [of l T T'] Cons FR by auto
  qed
qed

section \<open>Rotations\<close>

lemma left_rotate_fields:
  assumes y: "rg T x = y" and b: "lf T y = b" and q: "pa T x = q"
    and neq: "x \<noteq> y" "x \<noteq> b" "y \<noteq> b" "q \<noteq> x" "q \<noteq> y" "q \<noteq> b \<or> q = rt_nil T"
    and T': "T' = rbtree_left_rotate x T"
  shows "lf T' n = (if n = y then x else if n = q \<and> q \<noteq> rt_nil T \<and> x = lf T q then y else lf T n)"
    "rg T' n = (if n = x then b else if n = q \<and> q \<noteq> rt_nil T \<and> x \<noteq> lf T q then y else rg T n)"
    "pa T' n = (if n = x then y else if n = y then q else if n = b \<and> b \<noteq> rt_nil T then x else pa T n)"
    "rt_root T' = (if q = rt_nil T then y else rt_root T)" "rt_nil T' = rt_nil T"
    "col T' n = col T n" "ky T' n = ky T n"
proof -
  define T1 where "T1 = set_right x b T"
  define T2 where "T2 = (if b \<noteq> rt_nil T then set_parent b x T1 else T1)"
  define T3 where "T3 = set_parent y q T2"
  define T4 where "T4 = (if q = rt_nil T then T3\<lparr>rt_root := y\<rparr> else if x = lf T q then set_left q y T3 else set_right q y T3)"
  define T5 where "T5 = set_left y x T4"
  have f1: "lf T1 m = lf T m" "rg T1 m = (if m = x then b else rg T m)" "pa T1 m = pa T m" "rt_root T1 = rt_root T" "rt_nil T1 = rt_nil T"
    "col T1 m = col T m" "ky T1 m = ky T m" for m
    by (simp_all add: T1_def)
  have f2: "lf T2 m = lf T m" "rg T2 m = rg T1 m" "pa T2 m = (if m = b \<and> b \<noteq> rt_nil T then x else pa T m)" "rt_root T2 = rt_root T"
    "rt_nil T2 = rt_nil T" "col T2 m = col T m" "ky T2 m = ky T m" for m
    by (simp_all add: T2_def f1)
  have f3: "lf T3 m = lf T m" "rg T3 m = rg T1 m" "pa T3 m = (if m = y then q else pa T2 m)" "rt_root T3 = rt_root T" "rt_nil T3 = rt_nil T"
    "col T3 m = col T m" "ky T3 m = ky T m" for m
    by (simp_all add: T3_def f2)
  have f4: "lf T4 m = (if m = q \<and> q \<noteq> rt_nil T \<and> x = lf T q then y else lf T m)"
    "rg T4 m = (if m = q \<and> q \<noteq> rt_nil T \<and> x \<noteq> lf T q then y else rg T1 m)" "pa T4 m = pa T3 m"
    "rt_root T4 = (if q = rt_nil T then y else rt_root T)" "rt_nil T4 = rt_nil T" "col T4 m = col T m" "ky T4 m = ky T m" for m
    by (simp_all add: T4_def f3)
  have e2: "(if lf T1 y \<noteq> rt_nil T1 then set_parent (lf T1 y) x T1 else T1) = T2" by (simp add: T2_def f1 b)
  have "pa T2 x = q" using neq by (simp add: f2 q)
  then have e3: "set_parent y (pa T2 x) T2 = T3" by (simp add: T3_def)
  have p3: "pa T3 x = q" using neq by (simp add: f3 f2 q)
  have e4: "(if pa T3 x = rt_nil T3 then T3\<lparr>rt_root := y\<rparr> else if x = lf T3 (pa T3 x) then set_left (pa T3 x) y T3
      else set_right (pa T3 x) y T3) = T4" by (simp only: T4_def p3 f3(1,5))
  have "T' = set_parent x y T5"
    unfolding T' rbtree_left_rotate_def Let_def y b by (simp only: T1_def [symmetric] e2 e3 e4 T5_def [symmetric])
  then show "lf T' n = (if n = y then x else if n = q \<and> q \<noteq> rt_nil T \<and> x = lf T q then y else lf T n)"
    "rg T' n = (if n = x then b else if n = q \<and> q \<noteq> rt_nil T \<and> x \<noteq> lf T q then y else rg T n)"
    "pa T' n = (if n = x then y else if n = y then q else if n = b \<and> b \<noteq> rt_nil T then x else pa T n)"
    "rt_root T' = (if q = rt_nil T then y else rt_root T)" "rt_nil T' = rt_nil T"
    "col T' n = col T n" "ky T' n = ky T n"
    using neq by (simp_all add: T5_def f4 f3 f2 f1)
qed

lemma right_rotate_fields:
  assumes x: "lf T y = x" and b: "rg T x = b" and q: "pa T y = q"
    and neq: "y \<noteq> x" "y \<noteq> b" "x \<noteq> b" "q \<noteq> y" "q \<noteq> x" "q \<noteq> b \<or> q = rt_nil T"
    and T': "T' = rbtree_right_rotate y T"
  shows "rg T' n = (if n = x then y else if n = q \<and> q \<noteq> rt_nil T \<and> y = rg T q then x else rg T n)"
    "lf T' n = (if n = y then b else if n = q \<and> q \<noteq> rt_nil T \<and> y \<noteq> rg T q then x else lf T n)"
    "pa T' n = (if n = y then x else if n = x then q else if n = b \<and> b \<noteq> rt_nil T then y else pa T n)"
    "rt_root T' = (if q = rt_nil T then x else rt_root T)" "rt_nil T' = rt_nil T"
    "col T' n = col T n" "ky T' n = ky T n"
proof -
  define T1 where "T1 = set_left y b T"
  define T2 where "T2 = (if b \<noteq> rt_nil T then set_parent b y T1 else T1)"
  define T3 where "T3 = set_parent x q T2"
  define T4 where "T4 = (if q = rt_nil T then T3\<lparr>rt_root := x\<rparr> else if y = rg T q then set_right q x T3 else set_left q x T3)"
  define T5 where "T5 = set_right x y T4"
  have f1: "rg T1 m = rg T m" "lf T1 m = (if m = y then b else lf T m)" "pa T1 m = pa T m" "rt_root T1 = rt_root T" "rt_nil T1 = rt_nil T"
    "col T1 m = col T m" "ky T1 m = ky T m" for m
    by (simp_all add: T1_def)
  have f2: "rg T2 m = rg T m" "lf T2 m = lf T1 m" "pa T2 m = (if m = b \<and> b \<noteq> rt_nil T then y else pa T m)" "rt_root T2 = rt_root T"
    "rt_nil T2 = rt_nil T" "col T2 m = col T m" "ky T2 m = ky T m" for m
    by (simp_all add: T2_def f1)
  have f3: "rg T3 m = rg T m" "lf T3 m = lf T1 m" "pa T3 m = (if m = x then q else pa T2 m)" "rt_root T3 = rt_root T" "rt_nil T3 = rt_nil T"
    "col T3 m = col T m" "ky T3 m = ky T m" for m
    by (simp_all add: T3_def f2)
  have f4: "rg T4 m = (if m = q \<and> q \<noteq> rt_nil T \<and> y = rg T q then x else rg T m)"
    "lf T4 m = (if m = q \<and> q \<noteq> rt_nil T \<and> y \<noteq> rg T q then x else lf T1 m)" "pa T4 m = pa T3 m"
    "rt_root T4 = (if q = rt_nil T then x else rt_root T)" "rt_nil T4 = rt_nil T" "col T4 m = col T m" "ky T4 m = ky T m" for m
    by (simp_all add: T4_def f3)
  have e2: "(if rg T1 x \<noteq> rt_nil T1 then set_parent (rg T1 x) y T1 else T1) = T2" by (simp add: T2_def f1 b)
  have "pa T2 y = q" using neq by (simp add: f2 q)
  then have e3: "set_parent x (pa T2 y) T2 = T3" by (simp add: T3_def)
  have p3: "pa T3 y = q" using neq by (simp add: f3 f2 q)
  have e4: "(if pa T3 y = rt_nil T3 then T3\<lparr>rt_root := x\<rparr> else if y = rg T3 (pa T3 y) then set_right (pa T3 y) x T3
      else set_left (pa T3 y) x T3) = T4" by (simp only: T4_def p3 f3(1,5))
  have "T' = set_parent y x T5"
    unfolding T' rbtree_right_rotate_def Let_def x b by (simp only: T1_def [symmetric] e2 e3 e4 T5_def [symmetric])
  then show "rg T' n = (if n = x then y else if n = q \<and> q \<noteq> rt_nil T \<and> y = rg T q then x else rg T n)"
    "lf T' n = (if n = y then b else if n = q \<and> q \<noteq> rt_nil T \<and> y \<noteq> rg T q then x else lf T n)"
    "pa T' n = (if n = y then x else if n = x then q else if n = b \<and> b \<noteq> rt_nil T then y else pa T n)"
    "rt_root T' = (if q = rt_nil T then x else rt_root T)" "rt_nil T' = rt_nil T"
    "col T' n = col T n" "ky T' n = ky T n"
    using neq by (simp_all add: T5_def f4 f3 f2 f1)
qed

text \<open>The tree \<open>t\<close> stands at \<open>p\<close> at the position \<open>fs\<close> of the whole tree.\<close>

definition at_pos :: "rbtree \<Rightarrow> addr tree \<Rightarrow> frame list \<Rightarrow> addr \<Rightarrow> bool" where
  "at_pos T t fs p \<longleftrightarrow> rep T (above T fs) t p \<and> repc T fs p \<and> distinct (inorder t @ clist fs)"

lemma nil_notin: "rep T par t p \<Longrightarrow> rt_nil T \<notin> set_tree t"
  by (induction t arbitrary: par p) auto

lemma nil_notin_c: "repc T fs p \<Longrightarrow> rt_nil T \<notin> set (clist fs)"
proof (induction fs arbitrary: p)
  case (Cons f fs)
  then show ?case by (cases f) (auto dest: nil_notin)
qed simp

lemma above_in: "above T fs = rt_nil T \<or> above T fs \<in> set (clist fs)"
  by (cases "(T, fs)" rule: above.cases) auto

lemma above_nil: "repc T fs p \<Longrightarrow> above T fs = rt_nil T \<longleftrightarrow> fs = []"
  by (cases "(T, fs)" rule: above.cases) auto

text \<open>In a left frame the hole is the left child, in a right frame it is not.\<close>

lemma repc_side:
  assumes "repc T fs p" "p \<in> A" "A \<inter> set (clist fs) = {}" "p \<noteq> rt_nil T"
  shows "fs = FL a r # gs \<Longrightarrow> p = lf T a \<and> p \<noteq> rg T a" "fs = FR l a # gs \<Longrightarrow> p = rg T a \<and> p \<noteq> lf T a"
  using assms by (auto dest!: rep_root)

lemma left_rotate_at:
  assumes "at_pos T (Node a x (Node b y c)) fs p" and T': "T' = rbtree_left_rotate x T"
  shows "at_pos T' (Node (Node a x b) y c) fs y" "rt_nil T' = rt_nil T" "\<And>n. col T' n = col T n" "\<And>n. ky T' n = ky T n"
proof -
  have r: "p = x" "x \<noteq> rt_nil T" "pa T x = above T fs" "rep T x a (lf T x)" "rg T x = y" "y \<noteq> rt_nil T" "pa T y = x"
    "rep T y b (lf T y)" "rep T y c (rg T y)" "repc T fs x"
    and d: "distinct (inorder a @ x # inorder b @ y # inorder c @ clist fs)"
    using assms(1) by (auto simp: at_pos_def)
  have ab: "above T fs = rt_nil T \<or> above T fs \<in> set (clist fs)" by (rule above_in)
  have b: "lf T y = rt_nil T \<or> lf T y \<in> set_tree b" by (rule rep_root [OF r(8)])
  have nc: "rt_nil T \<notin> set (clist fs)" by (rule nil_notin_c [OF r(10)])
  have neq: "x \<noteq> y" "x \<noteq> lf T y" "y \<noteq> lf T y" "above T fs \<noteq> x" "above T fs \<noteq> y" "above T fs \<noteq> lf T y \<or> above T fs = rt_nil T"
    using d r(2,6) ab b by auto
  note f = left_rotate_fields [OF r(5) refl r(3) neq T']
  show nil: "rt_nil T' = rt_nil T" and "\<And>n. col T' n = col T n" "\<And>n. ky T' n = ky T n" by (rule f)+
  have keep: "same_links A T T'" if "x \<notin> A" "y \<notin> A" "lf T y \<notin> A" "above T fs \<notin> A" for A
  proof -
    have "n \<noteq> x \<and> n \<noteq> y \<and> n \<noteq> lf T y \<and> n \<noteq> above T fs" if "n \<in> A" for n using that \<open>x \<notin> A\<close> \<open>y \<notin> A\<close> \<open>lf T y \<notin> A\<close> \<open>above T fs \<notin> A\<close> by metis
    then show ?thesis unfolding same_links_def by (simp add: f)
  qed
  have "same_links (set_tree a) T T'" "same_links (set_tree c) T T'" "same_links (set_tree b - {lf T y}) T T'"
    using d ab b nil_notin [OF r(4)] nil_notin [OF r(9)] nil_notin [OF r(8)] by (auto intro!: keep)
  note sl = this
  have "rep T' x a (lf T x)" "rep T' y c (rg T y)" using r(4,9) rep_cong [OF sl(1)] rep_cong [OF sl(2)] by simp_all
  moreover have "rep T' x b (lf T y)"
    by (rule rep_reparent [OF r(8) _ sl(3)]) (use d neq rep_Leaf [OF r(8)] in \<open>auto simp: f\<close>)
  ultimately have sub: "rep T' (above T fs) (Node (Node a x b) y c) y"
    using r d ab by (auto simp: f)
  have side: "fs = FL g s # gs \<Longrightarrow> x = lf T g \<and> x \<noteq> rg T g" "fs = FR s g # gs \<Longrightarrow> x = rg T g \<and> x \<noteq> lf T g" for g s gs
    using repc_side [OF r(10), of "{x}"] d r(2) by auto
  have "repc T' fs y \<and> above T' fs = above T fs"
  proof (rule repc_redirect [OF r(10) _ nil])
    show "same_links (set (clist fs) - {above T fs}) T T'"
      using d b nc by (intro keep) auto
    show "fs = [] \<Longrightarrow> rt_root T' = y" "fs \<noteq> [] \<Longrightarrow> rt_root T' = rt_root T"
      using above_nil [OF r(10)] by (auto simp: f)
    show "fs = FL a r # gs \<Longrightarrow> lf T' a = y \<and> rg T' a = rg T a \<and> pa T' a = pa T a" for a r gs
      using d b side(1) [of a r gs] nc by (auto simp: f)
    show "fs = FR l a # gs \<Longrightarrow> rg T' a = y \<and> lf T' a = lf T a \<and> pa T' a = pa T a" for l a gs
      using d b side(2) [of l a gs] nc by (auto simp: f)
  qed (use d in auto)
  then show "at_pos T' (Node (Node a x b) y c) fs y" using sub d by (auto simp: at_pos_def)
qed

lemma right_rotate_at:
  assumes "at_pos T (Node (Node a x b) y c) fs p" and T': "T' = rbtree_right_rotate y T"
  shows "at_pos T' (Node a x (Node b y c)) fs x" "rt_nil T' = rt_nil T" "\<And>n. col T' n = col T n" "\<And>n. ky T' n = ky T n"
proof -
  have r: "p = y" "y \<noteq> rt_nil T" "pa T y = above T fs" "rep T y c (rg T y)" "lf T y = x" "x \<noteq> rt_nil T" "pa T x = y"
    "rep T x b (rg T x)" "rep T x a (lf T x)" "repc T fs y"
    and d: "distinct (inorder a @ x # inorder b @ y # inorder c @ clist fs)"
    using assms(1) by (auto simp: at_pos_def)
  have ab: "above T fs = rt_nil T \<or> above T fs \<in> set (clist fs)" by (rule above_in)
  have b: "rg T x = rt_nil T \<or> rg T x \<in> set_tree b" by (rule rep_root [OF r(8)])
  have nc: "rt_nil T \<notin> set (clist fs)" by (rule nil_notin_c [OF r(10)])
  have neq: "y \<noteq> x" "y \<noteq> rg T x" "x \<noteq> rg T x" "above T fs \<noteq> y" "above T fs \<noteq> x" "above T fs \<noteq> rg T x \<or> above T fs = rt_nil T"
    using d r(2,6) ab b by auto
  note f = right_rotate_fields [OF r(5) refl r(3) neq T']
  show nil: "rt_nil T' = rt_nil T" and "\<And>n. col T' n = col T n" "\<And>n. ky T' n = ky T n" by (rule f)+
  have keep: "same_links A T T'" if "x \<notin> A" "y \<notin> A" "rg T x \<notin> A" "above T fs \<notin> A" for A
  proof -
    have "n \<noteq> x \<and> n \<noteq> y \<and> n \<noteq> rg T x \<and> n \<noteq> above T fs" if "n \<in> A" for n using that \<open>x \<notin> A\<close> \<open>y \<notin> A\<close> \<open>rg T x \<notin> A\<close> \<open>above T fs \<notin> A\<close> by metis
    then show ?thesis unfolding same_links_def by (simp add: f)
  qed
  have "same_links (set_tree a) T T'" "same_links (set_tree c) T T'" "same_links (set_tree b - {rg T x}) T T'"
    using d ab b nil_notin [OF r(4)] nil_notin [OF r(9)] nil_notin [OF r(8)] by (auto intro!: keep)
  note sl = this
  have "rep T' x a (lf T x)" "rep T' y c (rg T y)" using r(4,9) rep_cong [OF sl(1)] rep_cong [OF sl(2)] by simp_all
  moreover have "rep T' y b (rg T x)"
    by (rule rep_reparent [OF r(8) _ sl(3)]) (use d neq rep_Leaf [OF r(8)] in \<open>auto simp: f\<close>)
  ultimately have sub: "rep T' (above T fs) (Node a x (Node b y c)) x"
    using r d ab by (auto simp: f)
  have side: "fs = FL g s # gs \<Longrightarrow> y = lf T g \<and> y \<noteq> rg T g" "fs = FR s g # gs \<Longrightarrow> y = rg T g \<and> y \<noteq> lf T g" for g s gs
    using repc_side [OF r(10), of "{y}"] d r(2) by auto
  have "repc T' fs x \<and> above T' fs = above T fs"
  proof (rule repc_redirect [OF r(10) _ nil])
    show "same_links (set (clist fs) - {above T fs}) T T'"
      using d b nc by (intro keep) auto
    show "fs = [] \<Longrightarrow> rt_root T' = x" "fs \<noteq> [] \<Longrightarrow> rt_root T' = rt_root T"
      using above_nil [OF r(10)] by (auto simp: f)
    show "fs = FL a r # gs \<Longrightarrow> lf T' a = x \<and> rg T' a = rg T a \<and> pa T' a = pa T a" for a r gs
      using d b side(1) [of a r gs] nc by (auto simp: f)
    show "fs = FR l a # gs \<Longrightarrow> rg T' a = x \<and> lf T' a = lf T a \<and> pa T' a = pa T a" for l a gs
      using d b side(2) [of l a gs] nc by (auto simp: f)
  qed (use d in auto)
  then show "at_pos T' (Node a x (Node b y c)) fs x" using sub d by (auto simp: at_pos_def)
qed

section \<open>Colours and heights\<close>

fun color_of :: "rbtree \<Rightarrow> addr tree \<Rightarrow> rb_color" where
  "color_of T Leaf = BLACK"
| "color_of T (Node l a r) = col T a"

fun invc :: "rbtree \<Rightarrow> addr tree \<Rightarrow> bool" where
  "invc T Leaf \<longleftrightarrow> True"
| "invc T (Node l a r) \<longleftrightarrow> (col T a = RED \<longrightarrow> color_of T l = BLACK \<and> color_of T r = BLACK) \<and> invc T l \<and> invc T r"

fun bheight :: "rbtree \<Rightarrow> addr tree \<Rightarrow> nat" where
  "bheight T Leaf = 0"
| "bheight T (Node l a r) = bheight T l + (if col T a = BLACK then 1 else 0)"

fun invh :: "rbtree \<Rightarrow> addr tree \<Rightarrow> bool" where
  "invh T Leaf \<longleftrightarrow> True"
| "invh T (Node l a r) \<longleftrightarrow> bheight T l = bheight T r \<and> invh T l \<and> invh T r"

lemma not_RED [simp]: "c \<noteq> RED \<longleftrightarrow> c = BLACK"
  by (cases c) auto

lemma color_cong: "(\<And>a. a \<in> set_tree t \<Longrightarrow> col T' a = col T a) \<Longrightarrow> color_of T' t = color_of T t"
  by (cases t) auto

lemma bheight_cong: "(\<And>a. a \<in> set_tree t \<Longrightarrow> col T' a = col T a) \<Longrightarrow> bheight T' t = bheight T t"
  by (induction t) auto

lemma colors_cong:
  assumes "\<And>a. a \<in> set_tree t \<Longrightarrow> col T' a = col T a"
  shows "color_of T' t = color_of T t \<and> invc T' t = invc T t \<and> bheight T' t = bheight T t \<and> invh T' t = invh T t"
  using assms
proof (induction t)
  case (Node l a r)
  have "color_of T' l = color_of T l" "color_of T' r = color_of T r" "bheight T' l = bheight T l" "bheight T' r = bheight T r"
    using Node.prems by (auto intro!: color_cong bheight_cong)
  then show ?case using Node by simp
qed simp

lemma color_ptr: "rep T par t p \<Longrightarrow> col T (rt_nil T) = BLACK \<Longrightarrow> col T p = color_of T t"
  by (cases t) auto

text \<open>A position whose hole takes a tree of black height \<open>k\<close>: the rest of the tree is in order.\<close>

fun side_ok :: "rbtree \<Rightarrow> nat \<Rightarrow> addr \<Rightarrow> addr tree \<Rightarrow> frame list \<Rightarrow> bool" where
  "side_ok T k a s fs \<longleftrightarrow> invc T s \<and> invh T s \<and> bheight T s = k
     \<and> (col T a = RED \<longrightarrow> color_of T s = BLACK \<and> fs \<noteq> [] \<and> col T (above T fs) = BLACK)"

fun ctx_ok :: "rbtree \<Rightarrow> nat \<Rightarrow> frame list \<Rightarrow> bool" where
  "ctx_ok T k [] \<longleftrightarrow> True"
| "ctx_ok T k (FL a s # fs) \<longleftrightarrow> side_ok T k a s fs \<and> ctx_ok T (if col T a = BLACK then k + 1 else k) fs"
| "ctx_ok T k (FR s a # fs) \<longleftrightarrow> side_ok T k a s fs \<and> ctx_ok T (if col T a = BLACK then k + 1 else k) fs"

lemma plug_inv:
  assumes "ctx_ok T k fs" "invc T t" "invh T t" "bheight T t = k" "color_of T t = BLACK \<or> fs = [] \<or> col T (above T fs) = BLACK"
  shows "invc T (plug t fs) \<and> invh T (plug t fs) \<and> (fs \<noteq> [] \<longrightarrow> color_of T (plug t fs) = BLACK)"
  using assms
proof (induction fs arbitrary: t k)
  case (Cons f fs)
  show ?case
  proof (cases f)
    case (FL a s)
    let ?t = "Node t a s"
    have "invc T ?t" "invh T ?t" "color_of T ?t = BLACK \<or> (fs \<noteq> [] \<and> col T (above T fs) = BLACK)"
      using Cons.prems FL by auto
    moreover have "bheight T ?t = (if col T a = BLACK then k + 1 else k)" using Cons.prems by simp
    ultimately have "invc T (plug ?t fs) \<and> invh T (plug ?t fs) \<and> (fs \<noteq> [] \<longrightarrow> color_of T (plug ?t fs) = BLACK)"
      using Cons.prems FL by (intro Cons.IH) auto
    then show ?thesis using FL \<open>color_of T ?t = BLACK \<or> (fs \<noteq> [] \<and> col T (above T fs) = BLACK)\<close> by (cases "fs = []") auto
  next
    case (FR s a)
    let ?t = "Node s a t"
    have "invc T ?t" "invh T ?t" "color_of T ?t = BLACK \<or> (fs \<noteq> [] \<and> col T (above T fs) = BLACK)"
      using Cons.prems FR by auto
    moreover have "bheight T ?t = (if col T a = BLACK then k + 1 else k)" using Cons.prems FR by simp
    ultimately have "invc T (plug ?t fs) \<and> invh T (plug ?t fs) \<and> (fs \<noteq> [] \<longrightarrow> color_of T (plug ?t fs) = BLACK)"
      using Cons.prems FR by (intro Cons.IH) auto
    then show ?thesis using FR \<open>color_of T ?t = BLACK \<or> (fs \<noteq> [] \<and> col T (above T fs) = BLACK)\<close> by (cases "fs = []") auto
  qed
qed simp

lemma ctx_ok_cong:
  assumes "\<And>a. a \<in> set (clist fs) \<Longrightarrow> col T' a = col T a" "rt_nil T' = rt_nil T" "col T' (rt_nil T) = col T (rt_nil T)"
  shows "ctx_ok T' k fs = ctx_ok T k fs"
  using assms(1)
proof (induction fs arbitrary: k)
  case (Cons f fs)
  have ab: "col T' (above T' fs) = col T (above T fs)" if "\<And>a. a \<in> set (clist fs) \<Longrightarrow> col T' a = col T a"
    using that assms(2,3) by (cases fs rule: clist.cases) auto
  show ?case
  proof (cases f)
    case (FL a s)
    then have "\<And>b. b \<in> set_tree s \<Longrightarrow> col T' b = col T b" "col T' a = col T a" using Cons.prems by auto
    then show ?thesis using FL Cons ab colors_cong [of s T' T] by simp
  next
    case (FR s a)
    then have "\<And>b. b \<in> set_tree s \<Longrightarrow> col T' b = col T b" "col T' a = col T a" using Cons.prems by auto
    then show ?thesis using FR Cons ab colors_cong [of s T' T] by simp
  qed
qed simp

section \<open>Restoring the invariant after an insertion\<close>

text \<open>What \<open>T'\<close> is: a red-black tree of the nodes \<open>xs\<close> in this order, with the keys of \<open>T\<close>.\<close>

definition rb_post :: "rbtree \<Rightarrow> addr list \<Rightarrow> rbtree \<Rightarrow> bool" where
  "rb_post T xs T' \<longleftrightarrow> (\<exists>t. rep T' (rt_nil T') t (rt_root T') \<and> inorder t = xs \<and> invc T' t \<and> invh T' t \<and> color_of T' t = BLACK)
     \<and> rt_nil T' = rt_nil T \<and> col T' (rt_nil T') = BLACK \<and> (\<forall>n. ky T' n = ky T n)"

lemma same_links_color [simp]: "same_links A T (set_color a c T)"
  by (simp add: same_links_def)

lemma at_pos_color: "at_pos T t fs p \<Longrightarrow> at_pos (set_color a c T) t fs p"
  using rep_cong [OF same_links_color] repc_cong [OF same_links_color] by (auto simp: at_pos_def)

lemma blacken:
  assumes "rep T (rt_nil T) t (rt_root T)" "distinct (inorder t)" "invc T t" "invh T t" "t \<noteq> Leaf" "col T (rt_nil T) = BLACK"
  shows "rb_post T (inorder t) (set_color (rt_root T) BLACK T)"
proof -
  let ?T = "set_color (rt_root T) BLACK T"
  obtain l a r where t: "t = Node l a r" using assms(5) by (cases t) auto
  have a: "rt_root T = a" using assms(1) t by simp
  have "\<And>n. n \<in> set_tree l \<union> set_tree r \<Longrightarrow> col ?T n = col T n" using assms(2) t a by auto
  then have "color_of ?T l = color_of T l \<and> color_of ?T r = color_of T r \<and> invc ?T l = invc T l \<and> invc ?T r = invc T r
    \<and> bheight ?T l = bheight T l \<and> bheight ?T r = bheight T r \<and> invh ?T l = invh T l \<and> invh ?T r = invh T r"
    using colors_cong [of l ?T T] colors_cong [of r ?T T] by auto
  moreover have "rep ?T (rt_nil T) t (rt_root T)" using assms(1) rep_cong [OF same_links_color] by simp
  ultimately show ?thesis unfolding rb_post_def
    using assms(3,4,6) t a by (intro conjI exI [of _ t]) auto
qed

lemma finish:
  assumes "at_pos T t fs p" "t \<noteq> Leaf" "ctx_ok T k fs" "invc T t" "invh T t" "bheight T t = k"
    "color_of T t = BLACK \<or> fs = [] \<or> col T (above T fs) = BLACK" "col T (rt_nil T) = BLACK"
  shows "rb_post T (inorder (plug t fs)) (set_color (rt_root T) BLACK T)"
proof (rule blacken)
  show "rep T (rt_nil T) (plug t fs) (rt_root T)" "distinct (inorder (plug t fs))"
    using assms(1) by (auto simp: at_pos_def rep_plug distinct_plug)
  show "plug t fs \<noteq> Leaf" using assms(2) by (induction t fs rule: plug.induct) auto
qed (use plug_inv [OF assms(3-7)] assms(8) in auto)

end
