(* ===== verification/RBInsert.thy ===== *)
theory RBInsert
  imports RBTree
begin

text \<open>
  Insertion into the red-black tree of \<open>rbtree.c\<close>: the repair loop ends, keeps the order of the nodes
  and restores colours and heights; search finds exactly the keys of the tree.
\<close>

section \<open>The final rotation\<close>

lemma rb_post_trans: "rb_post T xs T' \<Longrightarrow> rt_nil T = rt_nil S \<Longrightarrow> (\<And>n. ky T n = ky S n) \<Longrightarrow> rb_post S xs T'"
  by (auto simp: rb_post_def)

definition good :: "rbtree \<Rightarrow> nat \<Rightarrow> addr tree \<Rightarrow> bool" where
  "good T k t \<longleftrightarrow> color_of T t = BLACK \<and> invc T t \<and> invh T t \<and> bheight T t = k"

lemma good_cong: "(\<And>a. a \<in> set_tree t \<Longrightarrow> col T' a = col T a) \<Longrightarrow> good T' k t = good T k t"
  using colors_cong [of t T' T] by (auto simp: good_def)

lemma outer_left:
  assumes at: "at_pos T (Node (Node (Node a x b) p c) g u) hs g"
    and col: "col T x = RED" "col T (rt_nil T) = BLACK"
    and sub: "good T k a" "good T k b" "good T k c" "good T k u" and ctx: "ctx_ok T (k + 1) hs"
    and T1: "T1 = set_color (pa T x) BLACK T" and T2: "T2 = set_color (pa T1 (pa T1 x)) RED T1"
    and T3: "T3 = rbtree_right_rotate (pa T2 (pa T2 x)) T2"
  shows "insert_fixup_loop x T3 = Some T3"
    "rb_post T (inorder (plug (Node (Node (Node a x b) p c) g u) hs)) (set_color (rt_root T3) BLACK T3)"
proof -
  have r: "pa T x = p" "pa T p = g" "p \<noteq> rt_nil T" "g \<noteq> rt_nil T" "repc T hs g"
    and d: "distinct (inorder a @ x # inorder b @ p # inorder c @ g # inorder u @ clist hs)"
    using at by (auto simp: at_pos_def)
  have c2: "col T2 n = (if n = g then RED else if n = p then BLACK else col T n)" "pa T2 n = pa T n" "rt_nil T2 = rt_nil T" "ky T2 n = ky T n" for n
    using r d by (auto simp: T2 T1)
  have "at_pos T2 (Node (Node (Node a x b) p c) g u) hs g"
    unfolding T2 T1 by (intro at_pos_color at)
  note rot = right_rotate_at [OF this, of T3]
  have g3: "T3 = rbtree_right_rotate g T2" by (simp add: T3 c2 r)
  note at3 = rot(1) [OF g3] and n3 = rot(2) [OF g3] and col3 = rot(3) [OF g3] and ky3 = rot(4) [OF g3]
  have col: "col T3 x = RED" "col T3 p = BLACK" "col T3 g = RED" "col T3 (rt_nil T3) = BLACK"
    using col d r by (auto simp: col3 c2 n3)
  have p3: "pa T3 x = p" using at3 by (simp add: at_pos_def)
  show "insert_fixup_loop x T3 = Some T3" by (subst insert_fixup_loop.simps) (simp add: p3 col)
  have "good T3 k a" "good T3 k b" "good T3 k c" "good T3 k u"
    using sub d by (subst good_cong [of _ T3 T]; auto simp: col3 c2)+
  moreover have "ctx_ok T3 (k + 1) hs"
    using ctx d r nil_notin_c [OF r(5)] by (subst ctx_ok_cong [of hs T3 T]) (auto simp: col3 c2 n3)
  ultimately have "rb_post T3 (inorder (plug (Node (Node a x b) p (Node c g u)) hs)) (set_color (rt_root T3) BLACK T3)"
    using col by (intro finish [OF at3, of "k + 1"]) (auto simp: good_def)
  then show "rb_post T (inorder (plug (Node (Node (Node a x b) p c) g u) hs)) (set_color (rt_root T3) BLACK T3)"
    using inorder_plug [of "Node (Node a x b) p (Node c g u)" "Node (Node (Node a x b) p c) g u" hs]
    by (auto intro: rb_post_trans simp: n3 ky3 c2)
qed

lemma outer_right:
  assumes at: "at_pos T (Node u g (Node c p (Node b x a))) hs g"
    and col: "col T x = RED" "col T (rt_nil T) = BLACK"
    and sub: "good T k a" "good T k b" "good T k c" "good T k u" and ctx: "ctx_ok T (k + 1) hs"
    and T1: "T1 = set_color (pa T x) BLACK T" and T2: "T2 = set_color (pa T1 (pa T1 x)) RED T1"
    and T3: "T3 = rbtree_left_rotate (pa T2 (pa T2 x)) T2"
  shows "insert_fixup_loop x T3 = Some T3"
    "rb_post T (inorder (plug (Node u g (Node c p (Node b x a))) hs)) (set_color (rt_root T3) BLACK T3)"
proof -
  have r: "pa T x = p" "pa T p = g" "p \<noteq> rt_nil T" "g \<noteq> rt_nil T" "repc T hs g"
    and d: "distinct (inorder u @ g # inorder c @ p # inorder b @ x # inorder a @ clist hs)"
    using at by (auto simp: at_pos_def)
  have c2: "col T2 n = (if n = g then RED else if n = p then BLACK else col T n)" "pa T2 n = pa T n" "rt_nil T2 = rt_nil T" "ky T2 n = ky T n" for n
    using r d by (auto simp: T2 T1)
  have "at_pos T2 (Node u g (Node c p (Node b x a))) hs g"
    unfolding T2 T1 by (intro at_pos_color at)
  note rot = left_rotate_at [OF this, of T3]
  have g3: "T3 = rbtree_left_rotate g T2" by (simp add: T3 c2 r)
  note at3 = rot(1) [OF g3] and n3 = rot(2) [OF g3] and col3 = rot(3) [OF g3] and ky3 = rot(4) [OF g3]
  have col: "col T3 x = RED" "col T3 p = BLACK" "col T3 g = RED" "col T3 (rt_nil T3) = BLACK"
    using col d r by (auto simp: col3 c2 n3)
  have p3: "pa T3 x = p" using at3 by (simp add: at_pos_def)
  show "insert_fixup_loop x T3 = Some T3" by (subst insert_fixup_loop.simps) (simp add: p3 col)
  have "good T3 k a" "good T3 k b" "good T3 k c" "good T3 k u"
    using sub d by (subst good_cong [of _ T3 T]; auto simp: col3 c2)+
  moreover have "ctx_ok T3 (k + 1) hs"
    using ctx d r nil_notin_c [OF r(5)] by (subst ctx_ok_cong [of hs T3 T]) (auto simp: col3 c2 n3)
  ultimately have "rb_post T3 (inorder (plug (Node (Node u g c) p (Node b x a)) hs)) (set_color (rt_root T3) BLACK T3)"
    using col by (intro finish [OF at3, of "k + 1"]) (auto simp: good_def)
  then show "rb_post T (inorder (plug (Node u g (Node c p (Node b x a))) hs)) (set_color (rt_root T3) BLACK T3)"
    using inorder_plug [of "Node (Node u g c) p (Node b x a)" "Node u g (Node c p (Node b x a))" hs]
    by (auto intro: rb_post_trans simp: n3 ky3 c2)
qed

section \<open>One iteration of the repair loop\<close>

lemma links_color:
  "pa (set_color a c T) n = pa T n" "lf (set_color a c T) n = lf T n" "rg (set_color a c T) n = rg T n" "ky (set_color a c T) n = ky T n"
  "rt_nil (set_color a c T) = rt_nil T"
  by simp_all

lemma loop_done: "col T (pa T z) = BLACK \<Longrightarrow> insert_fixup_loop z T = Some T"
  by (subst insert_fixup_loop.simps) simp

lemma loop_red_left:
  assumes "pa T z = p" "pa T p = g" "col T p = RED" "lf T g = p" "col T (rg T g) = RED"
  shows "insert_fixup_loop z T = insert_fixup_loop g (set_color g RED (set_color (rg T g) BLACK (set_color p BLACK T)))"
  using assms by (subst insert_fixup_loop.simps) (simp add: Let_def links_color del: upd_node_simps(1))

lemma loop_red_right:
  assumes "pa T z = p" "pa T p = g" "col T p = RED" "lf T g \<noteq> p" "col T (lf T g) = RED"
  shows "insert_fixup_loop z T = insert_fixup_loop g (set_color g RED (set_color (lf T g) BLACK (set_color p BLACK T)))"
  using assms by (subst insert_fixup_loop.simps) (simp add: Let_def links_color del: upd_node_simps(1))

text \<open>The last two recolourings and the rotation at the grandparent.\<close>

definition recolor_parents :: "addr \<Rightarrow> rbtree \<Rightarrow> rbtree" where
  "recolor_parents x T =
     (let T1 = set_color (pa T x) BLACK T; T2 = set_color (pa T1 (pa T1 x)) RED T1 in T2)"

definition final_left :: "addr \<Rightarrow> rbtree \<Rightarrow> rbtree" where
  "final_left x T = (let T2 = recolor_parents x T in rbtree_right_rotate (pa T2 (pa T2 x)) T2)"

definition final_right :: "addr \<Rightarrow> rbtree \<Rightarrow> rbtree" where
  "final_right x T = (let T2 = recolor_parents x T in rbtree_left_rotate (pa T2 (pa T2 x)) T2)"

lemma loop_black_left:
  assumes "pa T z = p" "pa T p = g" "col T p = RED" "lf T g = p" "col T (rg T g) = BLACK"
  shows "z \<noteq> rg T p \<Longrightarrow> insert_fixup_loop z T = insert_fixup_loop z (final_left z T)"
    "z = rg T p \<Longrightarrow> insert_fixup_loop z T = insert_fixup_loop p (final_left p (rbtree_left_rotate p T))"
  using assms by (subst insert_fixup_loop.simps; simp add: Let_def final_left_def recolor_parents_def links_color del: upd_node_simps(1))+

lemma loop_black_right:
  assumes "pa T z = p" "pa T p = g" "col T p = RED" "lf T g \<noteq> p" "col T (lf T g) = BLACK"
  shows "z \<noteq> lf T p \<Longrightarrow> insert_fixup_loop z T = insert_fixup_loop z (final_right z T)"
    "z = lf T p \<Longrightarrow> insert_fixup_loop z T = insert_fixup_loop p (final_right p (rbtree_right_rotate p T))"
  using assms by (subst insert_fixup_loop.simps; simp add: Let_def final_right_def recolor_parents_def links_color del: upd_node_simps(1))+

lemma at_pos_up:
  "at_pos T t (FL a s # fs) p \<Longrightarrow> at_pos T (Node t a s) fs a \<and> lf T a = p \<and> rep T a s (rg T a) \<and> pa T a = above T fs"
  "at_pos T t (FR s a # fs) p \<Longrightarrow> at_pos T (Node s a t) fs a \<and> rg T a = p \<and> rep T a s (lf T a) \<and> pa T a = above T fs"
  by (auto simp: at_pos_def)

text \<open>After recolouring, the subtrees of parent and uncle are one black level higher.\<close>

lemma recolor_good:
  assumes "col T p = RED" "col T y = RED" "invc T pl" "invc T pr" "invh T (Node pl p pr)" "bheight T pl = k"
    and "invc T (Node u1 y u2)" "invh T (Node u1 y u2)" "bheight T (Node u1 y u2) = k"
    and d: "distinct (inorder pl @ p # inorder pr @ g # inorder u1 @ y # inorder u2)"
    and T': "T' = set_color g RED (set_color y BLACK (set_color p BLACK T))"
  shows "good T' (k + 1) (Node pl p pr)" "good T' (k + 1) (Node u1 y u2)" "col T' g = RED"
proof -
  have c: "col T' n = (if n = g then RED else if n = y \<or> n = p then BLACK else col T n)" for n by (simp add: T')
  have "color_of T' t = color_of T t \<and> invc T' t = invc T t \<and> bheight T' t = bheight T t \<and> invh T' t = invh T t"
    if "t \<in> {pl, pr, u1, u2}" for t
    using that d by (intro colors_cong) (auto simp: c)
  then show "good T' (k + 1) (Node pl p pr)" "good T' (k + 1) (Node u1 y u2)" "col T' g = RED"
    using assms(1-9) d by (auto simp: good_def c)
qed

definition fix_result :: "addr \<Rightarrow> rbtree \<Rightarrow> addr tree \<Rightarrow> bool" where
  "fix_result z T t \<longleftrightarrow> (\<exists>T'. insert_fixup_loop z T = Some T' \<and> rb_post T (inorder t) (set_color (rt_root T') BLACK T'))"

text \<open>The recursive call after recolouring gives the result.\<close>

lemma recolor_step:
  assumes step: "insert_fixup_loop z T = insert_fixup_loop g T'" and res: "fix_result g T' t"
    and T': "T' = set_color g RED (set_color y BLACK (set_color p BLACK T))"
  shows "fix_result z T t"
proof -
  have "rt_nil T' = rt_nil T" "\<And>n. ky T' n = ky T n" by (simp_all add: T')
  then show ?thesis using res step rb_post_trans [of T' _ _ T] by (auto simp: fix_result_def)
qed

lemma final_left_result:
  assumes "at_pos T (Node (Node (Node a x b) p c) g u) hs g" "col T x = RED" "col T (rt_nil T) = BLACK"
    "good T k a" "good T k b" "good T k c" "good T k u" "ctx_ok T (k + 1) hs" "insert_fixup_loop z S = insert_fixup_loop x (final_left x T)"
    "inorder t = inorder (plug (Node (Node (Node a x b) p c) g u) hs)" "rt_nil T = rt_nil S" "\<And>n. ky T n = ky S n"
  shows "fix_result z S t"
  using outer_left [OF assms(1-8) refl refl refl] assms(9-12)
  by (auto simp: fix_result_def final_left_def recolor_parents_def Let_def intro: rb_post_trans)

lemma final_right_result:
  assumes "at_pos T (Node u g (Node c p (Node b x a))) hs g" "col T x = RED" "col T (rt_nil T) = BLACK"
    "good T k a" "good T k b" "good T k c" "good T k u" "ctx_ok T (k + 1) hs" "insert_fixup_loop z S = insert_fixup_loop x (final_right x T)"
    "inorder t = inorder (plug (Node u g (Node c p (Node b x a))) hs)" "rt_nil T = rt_nil S" "\<And>n. ky T n = ky S n"
  shows "fix_result z S t"
  using outer_right [OF assms(1-8) refl refl refl] assms(9-12)
  by (auto simp: fix_result_def final_right_def recolor_parents_def Let_def intro: rb_post_trans)

section \<open>The loop repairs the tree\<close>

text \<open>The parent is red: it has a black parent of its own.\<close>

lemma red_parent:
  assumes "ctx_ok T k fs" "repc T fs z" "col T (above T fs) = RED" "col T (rt_nil T) = BLACK"
  obtains (ll) p s g u hs where "fs = FL p s # FL g u # hs" | (lr) p s g u hs where "fs = FR s p # FL g u # hs"
    | (rl) p s g u hs where "fs = FL p s # FR u g # hs" | (rr) p s g u hs where "fs = FR s p # FR u g # hs"
proof -
  have "fs \<noteq> []" using assms(3,4) by auto
  then obtain f gs where f: "fs = f # gs" by (cases fs) auto
  then have "gs \<noteq> []" using assms(1,3) by (cases f) auto
  then obtain f2 hs where "gs = f2 # hs" by (cases gs) auto
  then show ?thesis using f ll lr rl rr by (cases f; cases f2) auto
qed

text \<open>The uncle is red: recolour and go on at the grandparent.\<close>

definition fix_pre :: "rbtree \<Rightarrow> addr tree \<Rightarrow> addr \<Rightarrow> addr tree \<Rightarrow> nat \<Rightarrow> frame list \<Rightarrow> bool" where
  "fix_pre T l z r k fs \<longleftrightarrow> at_pos T (Node l z r) fs z \<and> col T z = RED \<and> col T (rt_nil T) = BLACK \<and> good T k l \<and> good T k r \<and> ctx_ok T k fs"

definition fixable :: "frame list \<Rightarrow> bool" where
  "fixable fs \<longleftrightarrow> (\<forall>T l z r k. fix_pre T l z r k fs \<longrightarrow> fix_result z T (plug (Node l z r) fs))"

lemma red_uncle_pre:
  assumes at: "at_pos T t hs g" and t: "t = Node (Node pl p pr) g u \<or> t = Node u g (Node pl p pr)"
    and y: "u = Node u1 y u2" "col T y = RED" and p: "col T p = RED" and nil: "col T (rt_nil T) = BLACK"
    and P: "invc T pl" "invc T pr" "invh T (Node pl p pr)" "bheight T pl = k" and u: "invc T u" "invh T u" "bheight T u = k"
    and ctx: "ctx_ok T (k + 1) hs"
    and T': "T' = set_color g RED (set_color y BLACK (set_color p BLACK T))"
  shows "\<exists>l r. t = Node l g r \<and> fix_pre T' l g r (k + 1) hs"
proof -
  have d: "distinct (inorder pl @ p # inorder pr @ g # inorder u1 @ y # inorder u2)"
    and dh: "{p, g, y} \<inter> set (clist hs) = {}" and nn: "rt_nil T \<notin> {p, g, y}" and rh: "repc T hs g"
    using at t y(1) by (auto simp: at_pos_def)
  note g = recolor_good [OF p y(2) P u[unfolded y(1)] d T']
  have at': "at_pos T' t hs g" unfolding T' by (intro at_pos_color at)
  have n': "rt_nil T' = rt_nil T" "col T' (rt_nil T') = BLACK" using nn nil by (auto simp: T')
  have "ctx_ok T' (k + 1) hs"
    using ctx dh nn by (subst ctx_ok_cong [of hs T' T]) (auto simp: T')
  then show ?thesis using t at' g n'(2) y(1) unfolding fix_pre_def by auto
qed

lemma red_uncle_result:
  assumes IH: "fixable hs"
    and at: "at_pos T t hs g" and t: "t = Node (Node pl p pr) g u \<or> t = Node u g (Node pl p pr)"
    and y: "u = Node u1 y u2" "col T y = RED" and p: "col T p = RED" and nil: "col T (rt_nil T) = BLACK"
    and P: "invc T pl" "invc T pr" "invh T (Node pl p pr)" "bheight T pl = k" and u: "invc T u" "invh T u" "bheight T u = k"
    and ctx: "ctx_ok T (k + 1) hs"
    and step: "insert_fixup_loop z T = insert_fixup_loop g (set_color g RED (set_color y BLACK (set_color p BLACK T)))"
  shows "fix_result z T (plug t hs)"
proof -
  define T' where "T' = set_color g RED (set_color y BLACK (set_color p BLACK T))"
  have "fix_result g T' (plug t hs)"
    using red_uncle_pre [OF at t y p nil P u ctx T'_def] IH unfolding fixable_def by blast
  then show ?thesis using recolor_step [OF step [folded T'_def] _ T'_def] by blast
qed

lemma fix_ll:
  assumes pre: "fix_pre T l z r k (FL p s # FL g u # hs)" and red: "col T p = RED" and IH: "fixable hs"
  shows "fix_result z T (plug (Node l z r) (FL p s # FL g u # hs))"
proof -
  have at: "at_pos T (Node l z r) (FL p s # FL g u # hs) z" and col: "col T z = RED" "col T (rt_nil T) = BLACK" and lr: "good T k l" "good T k r"
    using pre by (simp_all add: fix_pre_def)
  have zp: "pa T z = p" and d: "distinct (inorder (Node l z r) @ clist (FL p s # FL g u # hs))" and znil: "z \<noteq> rt_nil T"
    using at by (auto simp: at_pos_def)
  have tinv: "invc T (Node l z r)" "invh T (Node l z r)" "bheight T (Node l z r) = k" using lr col by (auto simp: good_def)
  have c: "col T g = BLACK" "good T k s" "invc T u" "invh T u" "bheight T u = k" "ctx_ok T (k + 1) hs"
    using pre red by (auto simp: good_def fix_pre_def)
  have at2: "at_pos T (Node (Node (Node l z r) p s) g u) hs g"
    and f: "lf T p = z" "rep T p s (rg T p)" "pa T p = g" "lf T g = p" "rep T g u (rg T g)"
    using at_pos_up(1) [OF at] at_pos_up(1) [of T "Node (Node l z r) p s" g u hs p] by auto
  show ?thesis
  proof (cases "color_of T u")
    case RED
    then obtain u1 y u2 where y: "u = Node u1 y u2" by (cases u) auto
    then have ry: "rg T g = y" "col T y = RED" using f RED by auto
    have step: "insert_fixup_loop z T = insert_fixup_loop g (set_color g RED (set_color y BLACK (set_color p BLACK T)))"
      using loop_red_left [OF zp f(3) red f(4)] ry by simp
    show ?thesis unfolding plug.simps
      by (rule red_uncle_result [OF IH at2 _ y ry(2) red col(2) tinv(1) _ _ _ c(3-6) step]) (use tinv c(2) in \<open>auto simp: good_def\<close>)
  next
    case BLACK
    then have "col T (rg T g) = BLACK" using color_ptr [OF f(5) col(2)] by simp
    moreover have "z \<noteq> rg T p" using rep_root [OF f(2)] d znil by auto
    ultimately have step: "insert_fixup_loop z T = insert_fixup_loop z (final_left z T)"
      using loop_black_left(1) [OF zp f(3) red f(4)] by blast
    show ?thesis unfolding plug.simps
      by (rule final_left_result [OF at2 col lr c(2) _ c(6) step]) (use BLACK c in \<open>auto simp: good_def\<close>)
  qed
qed

lemma fix_lr:
  assumes pre: "fix_pre T l z r k (FR s p # FL g u # hs)" and red: "col T p = RED" and IH: "fixable hs"
  shows "fix_result z T (plug (Node l z r) (FR s p # FL g u # hs))"
proof -
  have at: "at_pos T (Node l z r) (FR s p # FL g u # hs) z" and col: "col T z = RED" "col T (rt_nil T) = BLACK" and lr: "good T k l" "good T k r"
    using pre by (simp_all add: fix_pre_def)
  have zp: "pa T z = p" and d: "distinct (inorder (Node l z r) @ clist (FR s p # FL g u # hs))" and znil: "z \<noteq> rt_nil T"
    using at by (auto simp: at_pos_def)
  have tinv: "invc T (Node l z r)" "invh T (Node l z r)" "bheight T (Node l z r) = k" using lr col by (auto simp: good_def)
  have c: "col T g = BLACK" "good T k s" "invc T u" "invh T u" "bheight T u = k" "ctx_ok T (k + 1) hs"
    using pre red by (auto simp: good_def fix_pre_def)
  have at1: "at_pos T (Node s p (Node l z r)) (FL g u # hs) p" and rp: "rg T p = z"
    using at_pos_up(2) [OF at] by auto
  have at2: "at_pos T (Node (Node s p (Node l z r)) g u) hs g" and f: "pa T p = g" "lf T g = p" "rep T g u (rg T g)"
    using at_pos_up(2) [OF at] at_pos_up(1) [OF at1] by auto
  show ?thesis
  proof (cases "color_of T u")
    case RED
    then obtain u1 y u2 where y: "u = Node u1 y u2" by (cases u) auto
    then have ry: "rg T g = y" "col T y = RED" using f RED by auto
    have step: "insert_fixup_loop z T = insert_fixup_loop g (set_color g RED (set_color y BLACK (set_color p BLACK T)))"
      using loop_red_left [OF zp f(1) red f(2)] ry by simp
    show ?thesis unfolding plug.simps
      by (rule red_uncle_result [OF IH at2 _ y ry(2) red col(2) _ tinv(1) _ _ c(3-6) step]) (use tinv c(2) in \<open>auto simp: good_def\<close>)
  next
    case BLACK
    define S where "S = rbtree_left_rotate p T"
    note rot = left_rotate_at [OF at1 S_def]
    have at3: "at_pos S (Node (Node (Node s p l) z r) g u) hs g" using at_pos_up(1) [OF rot(1)] by simp
    have gu: "good T k u" using BLACK c by (simp add: good_def)
    have cong: "good S k t = good T k t" "ctx_ok S j hs = ctx_ok T j hs" for t j
      by (rule good_cong, rule rot(3)) (rule ctx_ok_cong, auto simp: rot)
    have "col T (rg T g) = BLACK" using color_ptr [OF f(3) col(2)] BLACK by simp
    then have step: "insert_fixup_loop z T = insert_fixup_loop p (final_left p S)"
      using loop_black_left(2) [OF zp f(1) red f(2)] rp by (simp add: S_def)
    show ?thesis unfolding plug.simps
      by (rule final_left_result [OF at3, where k = k])
        (use red c gu lr col step rot inorder_plug [of "Node (Node s p (Node l z r)) g u" "Node (Node (Node s p l) z r) g u" hs] in \<open>auto simp: cong\<close>)
  qed
qed

lemma fix_rr:
  assumes pre: "fix_pre T l z r k (FR s p # FR u g # hs)" and red: "col T p = RED" and IH: "fixable hs"
  shows "fix_result z T (plug (Node l z r) (FR s p # FR u g # hs))"
proof -
  have at: "at_pos T (Node l z r) (FR s p # FR u g # hs) z" and col: "col T z = RED" "col T (rt_nil T) = BLACK" and lr: "good T k l" "good T k r"
    using pre by (simp_all add: fix_pre_def)
  have zp: "pa T z = p" and d: "distinct (inorder (Node l z r) @ clist (FR s p # FR u g # hs))" and znil: "z \<noteq> rt_nil T"
    using at by (auto simp: at_pos_def)
  have tinv: "invc T (Node l z r)" "invh T (Node l z r)" "bheight T (Node l z r) = k" using lr col by (auto simp: good_def)
  have c: "col T g = BLACK" "good T k s" "invc T u" "invh T u" "bheight T u = k" "ctx_ok T (k + 1) hs"
    using pre red by (auto simp: good_def fix_pre_def)
  have at2: "at_pos T (Node u g (Node s p (Node l z r))) hs g"
    and f: "rg T p = z" "rep T p s (lf T p)" "pa T p = g" "rg T g = p" "rep T g u (lf T g)"
    using at_pos_up(2) [OF at] at_pos_up(2) [of T "Node s p (Node l z r)" u g hs p] by auto
  have pg: "lf T g \<noteq> p" using rep_root [OF f(5)] at2 by (auto simp: at_pos_def)
  show ?thesis
  proof (cases "color_of T u")
    case RED
    then obtain u1 y u2 where y: "u = Node u1 y u2" by (cases u) auto
    then have ry: "lf T g = y" "col T y = RED" using f RED by auto
    have step: "insert_fixup_loop z T = insert_fixup_loop g (set_color g RED (set_color y BLACK (set_color p BLACK T)))"
      using loop_red_right [OF zp f(3) red pg] ry by simp
    show ?thesis unfolding plug.simps
      by (rule red_uncle_result [OF IH at2 _ y ry(2) red col(2) _ tinv(1) _ _ c(3-6) step]) (use tinv c(2) in \<open>auto simp: good_def\<close>)
  next
    case BLACK
    then have "col T (lf T g) = BLACK" using color_ptr [OF f(5) col(2)] by simp
    moreover have "z \<noteq> lf T p" using rep_root [OF f(2)] d znil by auto
    ultimately have step: "insert_fixup_loop z T = insert_fixup_loop z (final_right z T)"
      using loop_black_right(1) [OF zp f(3) red pg] by blast
    show ?thesis unfolding plug.simps
      by (rule final_right_result [OF at2 col lr(2,1) c(2) _ c(6) step]) (use BLACK c in \<open>auto simp: good_def\<close>)
  qed
qed

lemma fix_rl:
  assumes pre: "fix_pre T l z r k (FL p s # FR u g # hs)" and red: "col T p = RED" and IH: "fixable hs"
  shows "fix_result z T (plug (Node l z r) (FL p s # FR u g # hs))"
proof -
  have at: "at_pos T (Node l z r) (FL p s # FR u g # hs) z" and col: "col T z = RED" "col T (rt_nil T) = BLACK" and lr: "good T k l" "good T k r"
    using pre by (simp_all add: fix_pre_def)
  have zp: "pa T z = p" and d: "distinct (inorder (Node l z r) @ clist (FL p s # FR u g # hs))" and znil: "z \<noteq> rt_nil T"
    using at by (auto simp: at_pos_def)
  have tinv: "invc T (Node l z r)" "invh T (Node l z r)" "bheight T (Node l z r) = k" using lr col by (auto simp: good_def)
  have c: "col T g = BLACK" "good T k s" "invc T u" "invh T u" "bheight T u = k" "ctx_ok T (k + 1) hs"
    using pre red by (auto simp: good_def fix_pre_def)
  have at1: "at_pos T (Node (Node l z r) p s) (FR u g # hs) p" and rp: "lf T p = z"
    using at_pos_up(1) [OF at] by auto
  have at2: "at_pos T (Node u g (Node (Node l z r) p s)) hs g" and f: "pa T p = g" "rg T g = p" "rep T g u (lf T g)"
    using at_pos_up(1) [OF at] at_pos_up(2) [OF at1] by auto
  have pg: "lf T g \<noteq> p" using rep_root [OF f(3)] at2 by (auto simp: at_pos_def)
  show ?thesis
  proof (cases "color_of T u")
    case RED
    then obtain u1 y u2 where y: "u = Node u1 y u2" by (cases u) auto
    then have ry: "lf T g = y" "col T y = RED" using f RED by auto
    have step: "insert_fixup_loop z T = insert_fixup_loop g (set_color g RED (set_color y BLACK (set_color p BLACK T)))"
      using loop_red_right [OF zp f(1) red pg] ry by simp
    show ?thesis unfolding plug.simps
      by (rule red_uncle_result [OF IH at2 _ y ry(2) red col(2) tinv(1) _ _ _ c(3-6) step]) (use tinv c(2) in \<open>auto simp: good_def\<close>)
  next
    case BLACK
    define S where "S = rbtree_right_rotate p T"
    note rot = right_rotate_at [OF at1 S_def]
    have at3: "at_pos S (Node u g (Node l z (Node r p s))) hs g" using at_pos_up(2) [OF rot(1)] by simp
    have gu: "good T k u" using BLACK c by (simp add: good_def)
    have cong: "good S k t = good T k t" "ctx_ok S j hs = ctx_ok T j hs" for t j
      by (rule good_cong, rule rot(3)) (rule ctx_ok_cong, auto simp: rot)
    have "col T (lf T g) = BLACK" using color_ptr [OF f(3) col(2)] BLACK by simp
    then have step: "insert_fixup_loop z T = insert_fixup_loop p (final_right p S)"
      using loop_black_right(2) [OF zp f(1) red pg] rp by (simp add: S_def)
    show ?thesis unfolding plug.simps
      by (rule final_right_result [OF at3, where k = k])
        (use red c gu lr col step rot inorder_plug [of "Node u g (Node (Node l z r) p s)" "Node u g (Node l z (Node r p s))" hs] in \<open>auto simp: cong\<close>)
  qed
qed

lemma insert_fixup_ok: "fixable fs"
proof (induction "length fs" arbitrary: fs rule: less_induct)
  case less
  show ?case unfolding fixable_def
  proof (intro allI impI)
    fix T l z r k assume pre: "fix_pre T l z r k fs"
    then have at: "at_pos T (Node l z r) fs z" and nil: "col T (rt_nil T) = BLACK" and ctx: "ctx_ok T k fs" by (simp_all add: fix_pre_def)
    then have par: "pa T z = above T fs" "repc T fs z" by (auto simp: at_pos_def)
    show "fix_result z T (plug (Node l z r) fs)"
    proof (cases "col T (above T fs) = RED")
      case False
      then have "rb_post T (inorder (plug (Node l z r) fs)) (set_color (rt_root T) BLACK T)"
        using pre by (intro finish [OF at, of k]) (auto simp: fix_pre_def good_def)
      then show ?thesis using loop_done [of T z] False par by (simp add: fix_result_def)
    next
      case True
      from red_parent [OF ctx par(2) True nil] show ?thesis
        by cases (use less pre True in \<open>auto intro!: fix_ll [simplified] fix_lr [simplified] fix_rr [simplified] fix_rl [simplified]\<close>)
    qed
  qed
qed

section \<open>Well-formed trees and search\<close>

text \<open>\<open>rb_ok T t\<close>: the store holds the red-black search tree \<open>t\<close>.\<close>

definition rb_ok :: "rbtree \<Rightarrow> addr tree \<Rightarrow> bool" where
  "rb_ok T t \<longleftrightarrow> rep T (rt_nil T) t (rt_root T) \<and> sorted_wrt (<) (map (ky T) (inorder t)) \<and> col T (rt_nil T) = BLACK
     \<and> invc T t \<and> invh T t \<and> color_of T t = BLACK"

lemma rb_ok_distinct: "rb_ok T t \<Longrightarrow> distinct (inorder t)"
  using distinct_map [of "ky T" "inorder t"] strict_sorted_iff [of "map (ky T) (inorder t)"] by (auto simp: rb_ok_def)

lemma sorted_node:
  "sorted_wrt (<) (map f (inorder (Node l a r))) \<longleftrightarrow> sorted_wrt (<) (map f (inorder l)) \<and> sorted_wrt (<) (map f (inorder r))
     \<and> (\<forall>x \<in> set_tree l. f x < f a) \<and> (\<forall>x \<in> set_tree r. f a < (f x :: int))"
  by (auto simp: sorted_wrt_append intro: less_trans)

lemma search_loop_ok:
  assumes "rep T par t p" "sorted_wrt (<) (map (ky T) (inorder t))"
  shows "\<exists>r. search_loop T k p = Some r \<and> (if k \<in> ky T ` set_tree t then r \<in> set_tree t \<and> ky T r = k else r = rt_nil T)"
  using assms
proof (induction t arbitrary: par p)
  case Leaf
  then show ?case by (subst search_loop.simps) simp
next
  case (Node l a r)
  have p: "p = a" "a \<noteq> rt_nil T" "rep T a l (lf T a)" "rep T a r (rg T a)" using Node.prems by auto
  have s: "sorted_wrt (<) (map (ky T) (inorder l))" "sorted_wrt (<) (map (ky T) (inorder r))"
    "\<forall>x \<in> set_tree l. ky T x < ky T a" "\<forall>x \<in> set_tree r. ky T a < ky T x"
    using Node.prems(2) by (auto simp only: sorted_node)
  consider "k < ky T a" | "k > ky T a" | "k = ky T a" by linarith
  then show ?case
  proof cases
    case 1
    then have "k \<in> ky T ` set_tree (Node l a r) \<longleftrightarrow> k \<in> ky T ` set_tree l" using s(4) by auto
    moreover have "search_loop T k p = search_loop T k (lf T a)" using 1 p by (subst search_loop.simps) simp
    ultimately show ?thesis using Node.IH(1) [OF p(3) s(1)] by (auto split: if_splits)
  next
    case 2
    then have "k \<in> ky T ` set_tree (Node l a r) \<longleftrightarrow> k \<in> ky T ` set_tree r" using s(3) by auto
    moreover have "search_loop T k p = search_loop T k (rg T a)" using 2 p by (subst search_loop.simps) simp
    ultimately show ?thesis using Node.IH(2) [OF p(4) s(2)] by (auto split: if_splits)
  next
    case 3
    then have "search_loop T k p = Some a" using p by (subst search_loop.simps) simp
    then show ?thesis using 3 by auto
  qed
qed

lemma traversal_ok: "rep T par t p \<Longrightarrow> rbtree_traversal T p = Some (map (\<lambda>a. (ky T a, col T a)) (inorder t))"
proof (induction t arbitrary: par p)
  case (Node l a r)
  then have "rbtree_traversal T (lf T a) = Some (map (\<lambda>a. (ky T a, col T a)) (inorder l))"
    "rbtree_traversal T (rg T a) = Some (map (\<lambda>a. (ky T a, col T a)) (inorder r))" by auto
  then show ?case using Node.prems by (subst rbtree_traversal.simps) simp
qed (subst rbtree_traversal.simps, simp)

section \<open>The descent\<close>

fun pre :: "frame list \<Rightarrow> addr list" where
  "pre [] = []"
| "pre (FL a r # fs) = pre fs"
| "pre (FR l a # fs) = pre fs @ inorder l @ [a]"

fun post :: "frame list \<Rightarrow> addr list" where
  "post [] = []"
| "post (FL a r # fs) = a # inorder r @ post fs"
| "post (FR l a # fs) = post fs"

lemma inorder_plug_split: "inorder (plug t fs) = pre fs @ inorder t @ post fs"
  by (induction t fs rule: plug.induct) auto

text \<open>The side of the innermost frame agrees with the key.\<close>

fun side_of :: "rbtree \<Rightarrow> int \<Rightarrow> frame list \<Rightarrow> bool" where
  "side_of T k [] \<longleftrightarrow> True"
| "side_of T k (FL a r # fs) \<longleftrightarrow> k < ky T a"
| "side_of T k (FR l a # fs) \<longleftrightarrow> ky T a < k"

lemma insert_descend_found:
  assumes "rep T par t p" "sorted_wrt (<) (map (ky T) (inorder t))" "k \<in> ky T ` set_tree t"
  shows "insert_descend T k q p = Some (Inl ())"
  using assms
proof (induction t arbitrary: par p q)
  case (Node l a r)
  have p: "p = a" "a \<noteq> rt_nil T" "rep T a l (lf T a)" "rep T a r (rg T a)" using Node.prems by auto
  have s: "sorted_wrt (<) (map (ky T) (inorder l))" "sorted_wrt (<) (map (ky T) (inorder r))"
    "\<forall>x \<in> set_tree l. ky T x < ky T a" "\<forall>x \<in> set_tree r. ky T a < ky T x"
    using Node.prems(2) by (auto simp only: sorted_node)
  have "k < ky T a \<Longrightarrow> k \<in> ky T ` set_tree l" "k > ky T a \<Longrightarrow> k \<in> ky T ` set_tree r" using Node.prems(3) s by auto
  then show ?case using Node.IH(1) [OF p(3) s(1)] Node.IH(2) [OF p(4) s(2)] p by (subst insert_descend.simps) auto
qed simp

lemma insert_descend_new:
  assumes "rep T (above T fs) t p" "repc T fs p" "sorted_wrt (<) (map (ky T) (inorder t))" "k \<notin> ky T ` set_tree t" "side_of T k fs"
  shows "\<exists>gs xs ys. insert_descend T k (above T fs) p = Some (Inr (above T gs)) \<and> plug t fs = plug Leaf gs \<and> repc T gs (rt_nil T) \<and> side_of T k gs
    \<and> inorder t = xs @ ys \<and> pre gs = pre fs @ xs \<and> post gs = ys @ post fs \<and> (\<forall>x \<in> set xs. ky T x < k) \<and> (\<forall>y \<in> set ys. k < ky T y)"
  using assms
proof (induction t arbitrary: fs p)
  case Leaf
  then show ?case by (subst insert_descend.simps) auto
next
  case (Node l a r)
  have p: "p = a" "a \<noteq> rt_nil T" "rep T a l (lf T a)" "rep T a r (rg T a)" "pa T a = above T fs" using Node.prems by auto
  have s: "sorted_wrt (<) (map (ky T) (inorder l))" "sorted_wrt (<) (map (ky T) (inorder r))"
    "\<forall>x \<in> set_tree l. ky T x < ky T a" "\<forall>x \<in> set_tree r. ky T a < ky T x"
    using Node.prems(3) by (auto simp only: sorted_node)
  have nl: "k \<notin> ky T ` set_tree l" "k \<notin> ky T ` set_tree r" and "k \<noteq> ky T a" using Node.prems(4) by auto
  then consider "k < ky T a" | "k > ky T a" by linarith
  then show ?case
  proof cases
    case 1
    obtain gs xs ys where g: "insert_descend T k a (lf T a) = Some (Inr (above T gs))" "plug l (FL a r # fs) = plug Leaf gs"
      "repc T gs (rt_nil T)" "side_of T k gs" "inorder l = xs @ ys" "pre gs = pre fs @ xs" "post gs = ys @ a # inorder r @ post fs"
      "\<forall>x \<in> set xs. ky T x < k" "\<forall>y \<in> set ys. k < ky T y"
      using Node.IH(1) [of "FL a r # fs" "lf T a"] p s(1) nl(1) Node.prems(2,5) 1 by auto
    have "insert_descend T k (above T fs) p = Some (Inr (above T gs))" using g(1) 1 p by (subst insert_descend.simps) simp
    then show ?thesis using g 1 s(4)
      by (intro exI [of _ gs] exI [of _ xs] exI [of _ "ys @ a # inorder r"]) auto
  next
    case 2
    obtain gs xs ys where g: "insert_descend T k a (rg T a) = Some (Inr (above T gs))" "plug r (FR l a # fs) = plug Leaf gs"
      "repc T gs (rt_nil T)" "side_of T k gs" "inorder r = xs @ ys" "pre gs = (pre fs @ inorder l @ [a]) @ xs" "post gs = ys @ post fs"
      "\<forall>x \<in> set xs. ky T x < k" "\<forall>y \<in> set ys. k < ky T y"
      using Node.IH(2) [of "FR l a # fs" "rg T a"] p s(2) nl(2) Node.prems(2,5) 2 by auto
    have "insert_descend T k (above T fs) p = Some (Inr (above T gs))" using g(1) 2 p by (subst insert_descend.simps) simp
    then show ?thesis using g 2 s(3)
      by (intro exI [of _ gs] exI [of _ "inorder l @ a # xs"] exI [of _ ys]) auto
  qed
qed

section \<open>Insertion\<close>

lemma plug_inv_conv:
  assumes "invc T (plug t fs)" "invh T (plug t fs)" "color_of T (plug t fs) = BLACK"
  shows "ctx_ok T (bheight T t) fs \<and> invc T t \<and> invh T t \<and> (color_of T t = BLACK \<or> (fs \<noteq> [] \<and> col T (above T fs) = BLACK))"
  using assms
proof (induction fs arbitrary: t)
  case (Cons f fs)
  show ?case
  proof (cases f)
    case (FL a s)
    then have "ctx_ok T (bheight T (Node t a s)) fs \<and> invc T (Node t a s) \<and> invh T (Node t a s)
      \<and> (color_of T (Node t a s) = BLACK \<or> (fs \<noteq> [] \<and> col T (above T fs) = BLACK))"
      using Cons.prems by (intro Cons.IH) simp_all
    then show ?thesis using FL by (cases "col T a") auto
  next
    case (FR s a)
    then have "ctx_ok T (bheight T (Node s a t)) fs \<and> invc T (Node s a t) \<and> invh T (Node s a t)
      \<and> (color_of T (Node s a t) = BLACK \<or> (fs \<noteq> [] \<and> col T (above T fs) = BLACK))"
      using Cons.prems by (intro Cons.IH) simp_all
    then show ?thesis using FR by (cases "col T a") auto
  qed
qed simp

text \<open>Linking a new red node at the end of the descent.\<close>

definition link_node :: "addr \<Rightarrow> addr \<Rightarrow> rbtree \<Rightarrow> rbtree" where
  "link_node z y T =
     (let T = set_parent z y T;
          T = (if y = rt_nil T then T\<lparr>rt_root := z\<rparr> else if ky T z < ky T y then set_left y z T else set_right y z T);
          T = set_left z (rt_nil T) T;
          T = set_right z (rt_nil T) T
      in set_color z RED T)"

lemma rbtree_insert_link:
  "insert_descend T (ky T z) (rt_nil T) (rt_root T) = Some (Inr y) \<Longrightarrow> rbtree_insert z T = rbtree_insert_fixup z (link_node z y T)"
  unfolding rbtree_insert_def link_node_def Let_def by (simp del: upd_node_simps)

lemma link_node_fields:
  assumes "z \<noteq> y" "z \<noteq> rt_nil T" and T': "T' = link_node z y T"
  shows "lf T' n = (if n = z then rt_nil T else if n = y \<and> y \<noteq> rt_nil T \<and> ky T z < ky T y then z else lf T n)"
    "rg T' n = (if n = z then rt_nil T else if n = y \<and> y \<noteq> rt_nil T \<and> \<not> ky T z < ky T y then z else rg T n)"
    "pa T' n = (if n = z then y else pa T n)" "rt_root T' = (if y = rt_nil T then z else rt_root T)" "rt_nil T' = rt_nil T"
    "col T' n = (if n = z then RED else col T n)" "ky T' n = ky T n"
  using assms(1,2) unfolding T' link_node_def Let_def
  by (cases "y = rt_nil T"; cases "ky T z < ky T y"; simp)+

lemma link_node_at:
  assumes rc: "repc T gs (rt_nil T)" and d: "distinct (clist gs)" "z \<notin> set (clist gs)" "z \<noteq> rt_nil T"
    and side: "side_of T (ky T z) gs" and T': "T' = link_node z (above T gs) T"
  shows "at_pos T' (Node Leaf z Leaf) gs z"
proof -
  have "z \<noteq> above T gs" using above_in [of T gs] d by auto
  note f = link_node_fields [OF this d(3) T']
  have ab: "above T gs = rt_nil T \<longleftrightarrow> gs = []" by (rule above_nil [OF rc])
  have "repc T' gs z \<and> above T' gs = above T gs"
  proof (rule repc_redirect [OF rc d(1) f(5)])
    show "same_links (set (clist gs) - {above T gs}) T T'" using d by (auto simp: same_links_def f)
    show "gs = [] \<Longrightarrow> rt_root T' = z" "gs \<noteq> [] \<Longrightarrow> rt_root T' = rt_root T" using ab by (auto simp: f)
    show "gs = FL a r # hs \<Longrightarrow> lf T' a = z \<and> rg T' a = rg T a \<and> pa T' a = pa T a" for a r hs
      using side d rc by (auto simp: f)
    show "gs = FR l a # hs \<Longrightarrow> rg T' a = z \<and> lf T' a = lf T a \<and> pa T' a = pa T a" for l a hs
      using side d rc by (auto simp: f)
  qed
  then show ?thesis using d by (auto simp: at_pos_def f)
qed

end
