(* ===== verification/RBSearch.thy ===== *)
theory RBSearch
  imports RBInsert
begin

text \<open>
  What the users of \<open>rbtree.c\<close> rely on: insertion keeps the red-black search tree and adds the node at
  its place, search returns the node with the key, the traversal prints the keys in order, and the
  depth is logarithmic.
\<close>

section \<open>Insertion\<close>

lemma sorted_insert_mid:
  assumes "sorted_wrt (<) (map f (xs @ ys))" "\<forall>x \<in> set xs. f x < (f z :: int)" "\<forall>y \<in> set ys. f z < f y"
  shows "sorted_wrt (<) (map f (xs @ z # ys))"
  using assms by (auto simp: sorted_wrt_append)

lemma insert_new:
  assumes ok: "rb_ok T t" and z: "z \<notin> set_tree t" "z \<noteq> rt_nil T" and new: "ky T z \<notin> ky T ` set_tree t"
  shows "\<exists>T' t' xs ys. rbtree_insert z T = Some T' \<and> rb_ok T' t' \<and> rt_nil T' = rt_nil T \<and> (\<forall>n. ky T' n = ky T n)
    \<and> inorder t = xs @ ys \<and> inorder t' = xs @ z # ys"
proof -
  have rep: "rep T (above T []) t (rt_root T)" "repc T [] (rt_root T)" and s: "sorted_wrt (<) (map (ky T) (inorder t))"
    using ok by (auto simp: rb_ok_def)
  obtain gs xs ys where g: "insert_descend T (ky T z) (rt_nil T) (rt_root T) = Some (Inr (above T gs))" "t = plug Leaf gs"
    "repc T gs (rt_nil T)" "side_of T (ky T z) gs" "inorder t = xs @ ys" "pre gs = xs" "post gs = ys"
    "\<forall>x \<in> set xs. ky T x < ky T z" "\<forall>y \<in> set ys. ky T z < ky T y"
    using insert_descend_new [OF rep s new] by auto
  define T1 where "T1 = link_node z (above T gs) T"
  have cl: "distinct (clist gs)" "z \<notin> set (clist gs)"
    using rb_ok_distinct [OF ok] z(1) by (auto simp: g(2) distinct_plug set_plug)
  have at: "at_pos T1 (Node Leaf z Leaf) gs z" by (rule link_node_at [OF g(3) cl z(2) g(4) T1_def])
  have "z \<noteq> above T gs" using above_in [of T gs] cl z by auto
  note f = link_node_fields [OF this z(2) T1_def]
  have "ctx_ok T 0 gs" using plug_inv_conv [of T Leaf gs] ok by (simp add: rb_ok_def g(2))
  moreover have "ctx_ok T1 0 gs = ctx_ok T 0 gs" by (rule ctx_ok_cong) (use cl z in \<open>auto simp: f\<close>)
  ultimately have "fix_pre T1 Leaf z Leaf 0 gs" using at ok z(2) by (auto simp: fix_pre_def good_def f rb_ok_def)
  then have "fix_result z T1 (plug (Node Leaf z Leaf) gs)" using insert_fixup_ok [of gs] unfolding fixable_def by blast
  then obtain T2 where T2: "insert_fixup_loop z T1 = Some T2" "rb_post T1 (xs @ z # ys) (set_color (rt_root T2) BLACK T2)"
    by (auto simp: fix_result_def inorder_plug_split g(6,7))
  let ?T = "set_color (rt_root T2) BLACK T2"
  have ins: "rbtree_insert z T = Some ?T"
    using T2(1) rbtree_insert_link [OF g(1)] by (simp add: rbtree_insert_fixup_def T1_def del: upd_node_simps)
  obtain t' where t': "rep ?T (rt_nil ?T) t' (rt_root ?T)" "inorder t' = xs @ z # ys" "invc ?T t'" "invh ?T t'" "color_of ?T t' = BLACK"
    "rt_nil ?T = rt_nil T1" "col ?T (rt_nil ?T) = BLACK" "\<forall>n. ky ?T n = ky T1 n" using T2(2) unfolding rb_post_def by blast
  have ky: "\<forall>n. ky ?T n = ky T n" using t'(8) f(7) by metis
  have "sorted_wrt (<) (map (ky ?T) (inorder t'))"
    using sorted_insert_mid [OF s [unfolded g(5)] g(8,9)] ky by (simp add: t'(2) del: upd_node_simps)
  then have "rb_ok ?T t'" using t' unfolding rb_ok_def by blast
  moreover have "rt_nil ?T = rt_nil T" using t'(6) f(5) by metis
  ultimately show ?thesis using ins ky t'(2) g(5) by blast
qed

lemma insert_present:
  assumes "rb_ok T t" "ky T z \<in> ky T ` set_tree t"
  shows "rbtree_insert z T = Some T"
  using insert_descend_found [of T "rt_nil T" t "rt_root T"] assms by (simp add: rbtree_insert_def rb_ok_def)

section \<open>Depth\<close>

lemma height_bheight: "invc T t \<Longrightarrow> invh T t \<Longrightarrow> height t \<le> 2 * bheight T t + (if color_of T t = RED then 1 else 0)"
proof (induction t)
  case (Node l a r)
  then show ?case by (cases "col T a") (auto split: if_splits)
qed simp

lemma size_bheight: "invh T t \<Longrightarrow> 2 ^ bheight T t \<le> size t + 1"
  by (induction t) (auto split: if_splits)

lemma rb_height:
  assumes "rb_ok T t" shows "2 ^ height t \<le> (size t + 1)\<^sup>2"
proof -
  have "height t \<le> 2 * bheight T t" using height_bheight [of T t] assms by (auto simp: rb_ok_def)
  then have "(2::nat) ^ height t \<le> 2 ^ (2 * bheight T t)" by (intro power_increasing) auto
  also have "\<dots> = (2 ^ bheight T t)\<^sup>2" by (simp add: power_mult [symmetric] mult.commute)
  also have "\<dots> \<le> (size t + 1)\<^sup>2" using size_bheight [of T t] assms by (intro power_mono) (auto simp: rb_ok_def)
  finally show ?thesis .
qed

section \<open>A small store\<close>

text \<open>Nodes 1, 2, 3 with keys 20, 10, 30 are in the tree, node 4 with key 25 is not; 0 is the sentinel.\<close>

definition demo_tree :: rbtree where
  "demo_tree = \<lparr>rt_root = 1, rt_nil = 0, rt_node = (\<lambda>a.
     if a = 1 then \<lparr>rn_color = BLACK, rn_right = 3, rn_left = 2, rn_parent = 0, rn_key = 20, rn_value = 0\<rparr>
     else if a = 2 then \<lparr>rn_color = RED, rn_right = 0, rn_left = 0, rn_parent = 1, rn_key = 10, rn_value = 0\<rparr>
     else if a = 3 then \<lparr>rn_color = RED, rn_right = 0, rn_left = 0, rn_parent = 1, rn_key = 30, rn_value = 0\<rparr>
     else \<lparr>rn_color = BLACK, rn_right = 0, rn_left = 0, rn_parent = 0, rn_key = 25, rn_value = 0\<rparr>)\<rparr>"

abbreviation "demo_shape \<equiv> Node (Node Leaf 2 Leaf) 1 (Node Leaf 3 Leaf) :: addr tree"

lemma demo_ok: "rb_ok demo_tree demo_shape"
  by (simp add: rb_ok_def demo_tree_def)

section \<open>Properties\<close>

text \<open>
  C5. \<open>rbtree_insert\<close> returns on every red-black search tree: a node whose key is already there leaves
  the tree as it was; a new node is put at its place in the order, and the result is again a red-black
  search tree (colours, black heights, parent pointers and sentinel included).
\<close>

theorem rbtree_insert_correct:
  assumes "rb_ok T t" "z \<notin> set_tree t" "z \<noteq> rt_nil T"
  shows "\<exists>T' t'. rbtree_insert z T = Some T' \<and> rb_ok T' t' \<and> rt_nil T' = rt_nil T \<and> (\<forall>n. ky T' n = ky T n)
    \<and> (if ky T z \<in> ky T ` set_tree t then T' = T \<and> t' = t else \<exists>xs ys. inorder t = xs @ ys \<and> inorder t' = xs @ z # ys)"
proof (cases "ky T z \<in> ky T ` set_tree t")
  case True
  then show ?thesis using insert_present [OF assms(1)] assms(1) by auto
next
  case False
  then show ?thesis using insert_new [OF assms] by (simp add: ex_simps [symmetric] del: ex_simps)
qed

theorem rbtree_insert_correct_witness:
  "\<exists>T' t'. rbtree_insert 4 demo_tree = Some T' \<and> rb_ok T' t' \<and> (\<exists>xs ys. [2, 1, 3] = xs @ ys \<and> inorder t' = xs @ 4 # ys)"
  using rbtree_insert_correct [OF demo_ok, of 4] by (auto simp: demo_tree_def)

text \<open>
  On a red-black search tree \<open>rbtree_search\<close> returns the node that holds the key, or the sentinel
  when no node does; \<open>rbtree_traversal\<close> prints the keys in increasing order; and the depth is at most
  twice the logarithm of the number of nodes plus one.
\<close>

theorem rbtree_search_correct:
  assumes "rb_ok T t"
  shows "(\<exists>r. rbtree_search T k = Some r \<and> (if k \<in> ky T ` set_tree t then r \<in> set_tree t \<and> ky T r = k else r = rt_nil T))
    \<and> (\<exists>out. rbtree_traversal T (rt_root T) = Some out \<and> map fst out = map (ky T) (inorder t) \<and> sorted_wrt (<) (map fst out))
    \<and> 2 ^ height t \<le> (size t + 1)\<^sup>2"
  using search_loop_ok [of T "rt_nil T" t "rt_root T" k] traversal_ok [of T "rt_nil T" t "rt_root T"] rb_height [OF assms] assms
  by (simp add: rb_ok_def rbtree_search_def comp_def)

theorem rbtree_search_correct_witness:
  "(\<exists>r. rbtree_search demo_tree 30 = Some r \<and> r \<in> {1, 2, 3} \<and> ky demo_tree r = 30)
   \<and> (\<exists>out. rbtree_traversal demo_tree 1 = Some out \<and> map fst out = [10, 20, 30])"
  using rbtree_search_correct [OF demo_ok, of 30] by (auto simp: demo_tree_def)

end
