(* ===== verification/RBDelete.thy ===== *)
theory RBDelete
  imports RBSearch
begin

text \<open>
  Deletion from the red-black tree of \<open>rbtree.c\<close>: the repair loop ends and restores colours and
  heights. The two halves of the loop body are mirror images, so the second one is reduced to the
  first on the store with left and right exchanged.
\<close>

section \<open>The loop body\<close>

text \<open>The first conditional of the body, for a node that is a left child: afterwards the sibling is black.\<close>

definition sibling_left :: "addr \<Rightarrow> rbtree \<Rightarrow> addr \<times> rbtree" where
  "sibling_left x T =
     (let w = rg T (pa T x)
      in if col T w = RED
         then (let T = set_color w BLACK T;
                   T = set_color (pa T x) RED T;
                   T = rbtree_left_rotate (pa T x) T
               in (rg T (pa T x), T))
         else (w, T))"

definition sibling_right :: "addr \<Rightarrow> rbtree \<Rightarrow> addr \<times> rbtree" where
  "sibling_right x T =
     (let w = lf T (pa T x)
      in if col T w = RED
         then (let T = set_color w BLACK T;
                   T = set_color (pa T x) RED T;
                   T = rbtree_right_rotate (pa T x) T
               in (lf T (pa T x), T))
         else (w, T))"

text \<open>The second one, when the sibling has a red child: afterwards its outer child is red.\<close>

definition outer_red_left :: "addr \<Rightarrow> addr \<Rightarrow> rbtree \<Rightarrow> addr \<times> rbtree" where
  "outer_red_left x w T =
     (if col T (rg T w) = BLACK
      then (let T = set_color (lf T w) BLACK T;
                T = set_color w RED T;
                T = rbtree_right_rotate w T
            in (rg T (pa T x), T))
      else (w, T))"

definition outer_red_right :: "addr \<Rightarrow> addr \<Rightarrow> rbtree \<Rightarrow> addr \<times> rbtree" where
  "outer_red_right x w T =
     (if col T (lf T w) = BLACK
      then (let T = set_color (rg T w) BLACK T;
                T = set_color w RED T;
                T = rbtree_left_rotate w T
            in (lf T (pa T x), T))
      else (w, T))"

text \<open>The last rotation.\<close>

definition close_left :: "addr \<Rightarrow> addr \<Rightarrow> rbtree \<Rightarrow> rbtree" where
  "close_left x w T =
     (let T = set_color w (col T (pa T x)) T;
          T = set_color (pa T x) BLACK T;
          T = set_color (rg T w) BLACK T
      in rbtree_left_rotate (pa T x) T)"

definition close_right :: "addr \<Rightarrow> addr \<Rightarrow> rbtree \<Rightarrow> rbtree" where
  "close_right x w T =
     (let T = set_color w (col T (pa T x)) T;
          T = set_color (pa T x) BLACK T;
          T = set_color (lf T w) BLACK T
      in rbtree_right_rotate (pa T x) T)"

definition step_left :: "addr \<Rightarrow> rbtree \<Rightarrow> addr \<times> rbtree" where
  "step_left x T =
     (case sibling_left x T of (w, T) \<Rightarrow>
        if col T (lf T w) = BLACK \<and> col T (rg T w) = BLACK
        then (let T = set_color w RED T in (pa T x, T))
        else (case outer_red_left x w T of (w, T) \<Rightarrow> let T = close_left x w T in (rt_root T, T)))"

definition step_right :: "addr \<Rightarrow> rbtree \<Rightarrow> addr \<times> rbtree" where
  "step_right x T =
     (case sibling_right x T of (w, T) \<Rightarrow>
        if col T (lf T w) = BLACK \<and> col T (rg T w) = BLACK
        then (let T = set_color w RED T in (pa T x, T))
        else (case outer_red_right x w T of (w, T) \<Rightarrow> let T = close_right x w T in (rt_root T, T)))"

lemma delete_loop_left:
  assumes "x \<noteq> rt_root T" "col T x = BLACK" "x = lf T (pa T x)"
  shows "delete_fixup_loop x T = (case step_left x T of (x, T) \<Rightarrow> delete_fixup_loop x T)"
  by (subst delete_fixup_loop.simps)
    (use assms in \<open>simp add: step_left_def sibling_left_def outer_red_left_def close_left_def Let_def del: upd_node_simps split: prod.split\<close>)

lemma delete_loop_right:
  assumes "x \<noteq> rt_root T" "col T x = BLACK" "x \<noteq> lf T (pa T x)"
  shows "delete_fixup_loop x T = (case step_right x T of (x, T) \<Rightarrow> delete_fixup_loop x T)"
  by (subst delete_fixup_loop.simps)
    (use assms in \<open>simp add: step_right_def sibling_right_def outer_red_right_def close_right_def Let_def del: upd_node_simps split: prod.split\<close>)

lemma delete_loop_done: "\<not> (x \<noteq> rt_root T \<and> col T x = BLACK) \<Longrightarrow> delete_fixup_loop x T = Some (x, T)"
  by (subst delete_fixup_loop.simps) (erule if_not_P)

section \<open>A subtree that lacks a black node\<close>

definition subs_ok :: "rbtree \<Rightarrow> nat \<Rightarrow> addr tree \<Rightarrow> bool" where
  "subs_ok T k t \<longleftrightarrow> (case t of Leaf \<Rightarrow> True | Node l a r \<Rightarrow> invc T l \<and> invc T r) \<and> invh T t \<and> bheight T t = k"

text \<open>
  The tree \<open>t\<close> at \<open>x\<close> has black height \<open>k\<close>, the rest of the tree expects one more. \<open>S\<close> is the store the
  keys are compared with, \<open>xs\<close> the nodes in order.
\<close>

definition deficient :: "rbtree \<Rightarrow> addr list \<Rightarrow> rbtree \<Rightarrow> addr tree \<Rightarrow> nat \<Rightarrow> frame list \<Rightarrow> addr \<Rightarrow> bool" where
  "deficient S xs T t k fs x \<longleftrightarrow> at_pos T t fs x \<and> pa T x = above T fs \<and> col T (rt_nil T) = BLACK \<and> subs_ok T k t
     \<and> ctx_ok T (k + 1) fs \<and> rt_nil T = rt_nil S \<and> (\<forall>n. ky T n = ky S n) \<and> inorder (plug t fs) = xs"

lemma subs_ok_black: "color_of T t = BLACK \<Longrightarrow> subs_ok T k t \<longleftrightarrow> good T k t"
  by (cases t) (auto simp: subs_ok_def good_def)

lemma at_FL: "at_pos T t (FL p s # gs) x \<longleftrightarrow> at_pos T (Node t p s) gs p \<and> lf T p = x"
  by (auto simp: at_pos_def)

lemma at_FR: "at_pos T t (FR s p # gs) x \<longleftrightarrow> at_pos T (Node s p t) gs p \<and> rg T p = x"
  by (auto simp: at_pos_def)

lemma rep_unique: "rep T par t p \<Longrightarrow> rep T' par' t p' \<Longrightarrow> rt_nil T' = rt_nil T \<Longrightarrow> p' = p"
  by (cases t) auto

lemma left_rotate_pa_nil:
  assumes "x \<noteq> rt_nil T" "rg T x \<noteq> rt_nil T"
  shows "pa (rbtree_left_rotate x T) (rt_nil T) = pa T (rt_nil T)"
  using assms by (simp add: rbtree_left_rotate_def Let_def)

lemma right_rotate_pa_nil:
  assumes "x \<noteq> rt_nil T" "lf T x \<noteq> rt_nil T"
  shows "pa (rbtree_right_rotate x T) (rt_nil T) = pa T (rt_nil T)"
  using assms by (simp add: rbtree_right_rotate_def Let_def)

lemma root_in_clist: "repc T fs p \<Longrightarrow> fs \<noteq> [] \<Longrightarrow> rt_root T \<in> set (clist fs)"
proof (induction fs arbitrary: p)
  case (Cons f fs)
  then show ?case by (cases f; cases "fs = []") auto
qed simp

lemma at_pos_root: "at_pos T t fs x \<Longrightarrow> x = rt_root T \<longleftrightarrow> fs = []"
  using root_in_clist [of T fs x] nil_notin_c [of T fs x] rep_root [of T "above T fs" t x]
  by (cases "fs = []") (auto simp: at_pos_def)

section \<open>The loop stops\<close>

lemma at_pos_nonroot_ctx: "at_pos T t fs p \<Longrightarrow> rep T (rt_nil T) (plug t fs) (rt_root T)"
  by (auto simp: at_pos_def rep_plug)

lemma stop_ok:
  assumes D: "deficient S xs T t k fs x" and stop: "fs = [] \<or> col T x = RED"
  shows "rb_post S xs (set_color x BLACK T)"
proof (cases t)
  case Leaf
  then have "x = rt_nil T" "fs = []" using D stop by (auto simp: deficient_def at_pos_def)
  then show ?thesis using D Leaf by (auto simp: deficient_def at_pos_def rb_post_def)
next
  case (Node l a r)
  let ?T = "set_color x BLACK T"
  have at: "at_pos T (Node l a r) fs x" and x: "x = a" and d: "distinct (inorder l @ a # inorder r @ clist fs)" and nil: "a \<noteq> rt_nil T"
    using D Node by (auto simp: deficient_def at_pos_def)
  have l: "color_of ?T l = color_of T l \<and> invc ?T l = invc T l \<and> bheight ?T l = bheight T l \<and> invh ?T l = invh T l"
    and r: "color_of ?T r = color_of T r \<and> invc ?T r = invc T r \<and> bheight ?T r = bheight T r \<and> invh ?T r = invh T r"
    using d x by (auto intro!: colors_cong)
  have t: "invc ?T t" "invh ?T t" "color_of ?T t = BLACK" "bheight ?T t = bheight T l + 1"
    using D l r Node x by (auto simp: deficient_def subs_ok_def)
  have "ctx_ok ?T j fs = ctx_ok T j fs" for j using d x nil by (intro ctx_ok_cong) auto
  then have "ctx_ok ?T (bheight T l + 1) fs"
    using D stop Node x by (cases "fs = []") (auto simp: deficient_def subs_ok_def)
  from plug_inv [OF this t(1,2,4)] t(3)
  have "invc ?T (plug t fs)" "invh ?T (plug t fs)" "color_of ?T (plug t fs) = BLACK" by (cases "fs = []"; simp)+
  moreover have "rep ?T (rt_nil ?T) (plug t fs) (rt_root ?T)"
    using at_pos_nonroot_ctx [OF at_pos_color [OF at]] Node by simp
  ultimately show ?thesis using D nil x unfolding rb_post_def deficient_def
    by (intro conjI exI [of _ "plug t fs"]) (simp_all del: upd_node_simps(1), auto)
qed

section \<open>The body for a left child\<close>

text \<open>The colours of a subtree do not depend on nodes outside of it.\<close>

lemma good_recolor: "good T k t \<Longrightarrow> (\<And>n. n \<in> set_tree t \<Longrightarrow> col T' n = col T n) \<Longrightarrow> good T' k t"
  using good_cong [of t T' T] by simp

lemma deficient_left:
  assumes "deficient S xs T t k (FL p s # gs) x" "color_of T t = BLACK"
  obtains wl w wr where "s = Node wl w wr" "rg T p = w" "pa T x = p" "at_pos T (Node t p (Node wl w wr)) gs p" "lf T p = x"
    "good T k t" "invc T s" "invh T s" "bheight T s = k + 1" "rep T w wl (lf T w)" "rep T w wr (rg T w)"
    "p \<noteq> rt_nil T" "w \<noteq> rt_nil T" "distinct (inorder t @ p # inorder wl @ w # inorder wr @ clist gs)"
    "ctx_ok T (if col T p = BLACK then k + 2 else k + 1) gs"
    "col T p = BLACK \<or> col T w = BLACK \<and> gs \<noteq> [] \<and> col T (above T gs) = BLACK"
    "col T (rt_nil T) = BLACK" "rt_nil T = rt_nil S" "\<forall>n. ky T n = ky S n" "inorder (plug (Node t p s) gs) = xs"
proof -
  have "bheight T s = k + 1" using assms by (simp add: deficient_def)
  then obtain wl w wr where s: "s = Node wl w wr" by (cases s) auto
  have at: "at_pos T (Node t p (Node wl w wr)) gs p" "lf T p = x" using assms(1) s by (auto simp: deficient_def at_FL)
  show thesis
    by (rule that [OF s])
      (use assms s at subs_ok_black [OF assms(2), of k] in \<open>auto simp: deficient_def at_pos_def\<close>)
qed

text \<open>After a rotation around it, the subtree is where it was.\<close>

lemma left_child_again:
  assumes "rep T p t x" "pa T x = p" "at_pos T' (Node t p s) hs p" "rt_nil T' = rt_nil T" "pa T' (rt_nil T) = pa T (rt_nil T)"
  shows "at_pos T' t (FL p s # hs) x \<and> pa T' x = p"
proof -
  have r: "rep T' p t (lf T' p)" using assms(3) by (simp add: at_pos_def)
  then have "lf T' p = x" using rep_unique assms(1,4) by metis
  then show ?thesis using r assms by (cases t) (auto simp: at_FL)
qed

lemma sibling_left_ok:
  assumes D: "deficient S xs T t k (FL p s # gs) x" and b: "color_of T t = BLACK" and step: "sibling_left x T = (w, T')"
  shows "\<exists>wl wr hs. deficient S xs T' t k (FL p (Node wl w wr) # hs) x \<and> color_of T' t = BLACK \<and> col T' w = BLACK \<and> (hs = gs \<or> col T' p = RED)"
proof -
  obtain wl v wr where s: "s = Node wl v wr" "rg T p = v" "pa T x = p" "at_pos T (Node t p (Node wl v wr)) gs p" "lf T p = x"
    and good: "good T k t" "invc T s" "invh T s" "bheight T s = k + 1" and nil: "p \<noteq> rt_nil T" "v \<noteq> rt_nil T"
    and d: "distinct (inorder t @ p # inorder wl @ v # inorder wr @ clist gs)"
    and ctx: "ctx_ok T (if col T p = BLACK then k + 2 else k + 1) gs"
      "col T p = BLACK \<or> col T v = BLACK \<and> gs \<noteq> [] \<and> col T (above T gs) = BLACK"
    and rest: "col T (rt_nil T) = BLACK" "rt_nil T = rt_nil S" "\<forall>n. ky T n = ky S n" "inorder (plug (Node t p s) gs) = xs"
    using deficient_left [OF D b] by metis
  show ?thesis
  proof (cases "col T v = RED")
    case False
    then have "w = v" "T' = T" using step s by (auto simp: sibling_left_def)
    then show ?thesis using D b False s by auto
  next
    case True
    define T2 where "T2 = set_color p RED (set_color v BLACK T)"
    have T': "T' = rbtree_left_rotate p T2" and w: "w = rg T' (pa T' x)"
      using step True s by (auto simp: sibling_left_def Let_def T2_def)
    have at2: "at_pos T2 (Node t p (Node wl v wr)) gs p" unfolding T2_def by (intro at_pos_color s(4))
    note rot = left_rotate_at [OF at2 T']
    have sub: "good T (k + 1) wl" "good T (k + 1) wr" using good True s(1) by (auto simp: good_def)
    have pb: "col T p = BLACK" using ctx(2) True by auto
    have n': "rt_nil T' = rt_nil T" "\<forall>n. ky T' n = ky T n" using rot(2,4) by (simp_all add: T2_def)
    have c': "col T' n = (if n = p then RED else if n = v then BLACK else col T n)" for n using rot(3) by (simp add: T2_def)
    have "pa T' (rt_nil T) = pa T (rt_nil T)" using left_rotate_pa_nil [of p T2] nil s(2) d by (simp add: T' T2_def)
    then have at': "at_pos T' t (FL p wl # FL v wr # gs) x \<and> pa T' x = p"
      using rot(1) n'(1) s by (intro left_child_again [of T]) (auto simp: at_FL at_pos_def)
    have g': "good T' k t" "good T' (k + 1) wl" "good T' (k + 1) wr"
      by (rule good_recolor [OF good(1)] good_recolor [OF sub(1)] good_recolor [OF sub(2)]; use d in \<open>auto simp: c'\<close>)+
    have "ctx_ok T' (k + 2) gs = ctx_ok T (k + 2) gs" by (rule ctx_ok_cong) (use d nil n' in \<open>auto simp: c'\<close>)
    then have "ctx_ok T' (k + 1) (FL p wl # FL v wr # gs)" using ctx(1) pb g' d by (auto simp: good_def c')
    moreover have "inorder (plug t (FL p wl # FL v wr # gs)) = xs"
      using rest(4) s(1) inorder_plug [of "Node t p (Node wl v wr)" "Node (Node t p wl) v wr" gs] by simp
    ultimately have D': "deficient S xs T' t k (FL p wl # FL v wr # gs) x"
      using at' g'(1) rest n' nil subs_ok_black [of T' t k] by (auto simp: deficient_def good_def c')
    have "color_of T' t = BLACK" using g'(1) by (simp add: good_def)
    moreover obtain a u c where wl: "wl = Node a u c" using g'(2) by (cases wl) (auto simp: good_def)
    moreover have "w = u" "col T' u = BLACK" using D' w at' g'(2) wl by (auto simp: deficient_def at_pos_def good_def)
    ultimately show ?thesis using D' c' by (intro exI [of _ a] exI [of _ c] exI [of _ "FL v wr # gs"]) auto
  qed
qed

text \<open>Both children of the sibling are black: it becomes red and the parent is next.\<close>

lemma recolor_left_ok:
  assumes D: "deficient S xs T t k (FL p (Node wl w wr) # gs) x" and b: "color_of T t = BLACK" and w: "col T w = BLACK"
    and ch: "col T (lf T w) = BLACK" "col T (rg T w) = BLACK"
  shows "\<exists>t' k'. deficient S xs (set_color w RED T) t' k' gs p \<and> col (set_color w RED T) p = col T p"
proof -
  let ?T = "set_color w RED T"
  obtain at: "at_pos T (Node t p (Node wl w wr)) gs p"
    and good: "good T k t" "invc T (Node wl w wr)" "invh T (Node wl w wr)" "bheight T (Node wl w wr) = k + 1"
    and ptr: "rep T w wl (lf T w)" "rep T w wr (rg T w)" and nil: "p \<noteq> rt_nil T" "w \<noteq> rt_nil T"
    and d: "distinct (inorder t @ p # inorder wl @ w # inorder wr @ clist gs)"
    and ctx: "ctx_ok T (if col T p = BLACK then k + 2 else k + 1) gs"
    and rest: "col T (rt_nil T) = BLACK" "rt_nil T = rt_nil S" "\<forall>n. ky T n = ky S n" "inorder (plug (Node t p (Node wl w wr)) gs) = xs"
    using deficient_left [OF D b] by (metis tree.inject)
  have sub: "good T k wl" "good T k wr"
    using good(2-4) w ch color_ptr [OF ptr(1)] color_ptr [OF ptr(2)] rest(1) by (auto simp: good_def)
  have c: "col ?T n = (if n = w then RED else col T n)" for n by simp
  have g: "good ?T k t" "good ?T k wl" "good ?T k wr"
    by (rule good_recolor [OF good(1)] good_recolor [OF sub(1)] good_recolor [OF sub(2)]; use d in auto)+
  have "ctx_ok ?T j gs = ctx_ok T j gs" for j by (rule ctx_ok_cong) (use d nil in auto)
  moreover have "at_pos ?T (Node t p (Node wl w wr)) gs p" by (rule at_pos_color [OF at])
  moreover have "subs_ok ?T (if col T p = BLACK then k + 1 else k) (Node t p (Node wl w wr))"
    using g d by (auto simp: subs_ok_def good_def)
  ultimately have "deficient S xs ?T (Node t p (Node wl w wr)) (if col T p = BLACK then k + 1 else k) gs p"
    using ctx rest nil d unfolding deficient_def by (auto simp: at_pos_def split: if_splits)
  then show ?thesis using d by auto
qed

text \<open>The inner child of the sibling is rotated outwards.\<close>

lemma outer_red_left_ok:
  assumes D: "deficient S xs T t k (FL p (Node wl w wr) # gs) x" and b: "color_of T t = BLACK" and w: "col T w = BLACK"
    and ch: "\<not> (col T (lf T w) = BLACK \<and> col T (rg T w) = BLACK)" and step: "outer_red_left x w T = (v, T')"
  shows "\<exists>vl vr. deficient S xs T' t k (FL p (Node vl v vr) # gs) x \<and> color_of T' t = BLACK \<and> col T' v = BLACK \<and> color_of T' vr = RED"
proof -
  obtain at: "at_pos T (Node t p (Node wl w wr)) gs p" "lf T p = x" "rg T p = w" "pa T x = p"
    and good: "good T k t" "invc T (Node wl w wr)" "invh T (Node wl w wr)" "bheight T (Node wl w wr) = k + 1"
    and ptr: "rep T w wl (lf T w)" "rep T w wr (rg T w)" and nil: "p \<noteq> rt_nil T" "w \<noteq> rt_nil T"
    and d: "distinct (inorder t @ p # inorder wl @ w # inorder wr @ clist gs)"
    and ctx: "ctx_ok T (if col T p = BLACK then k + 2 else k + 1) gs"
      "col T p = BLACK \<or> gs \<noteq> [] \<and> col T (above T gs) = BLACK"
    and rest: "col T (rt_nil T) = BLACK" "rt_nil T = rt_nil S" "\<forall>n. ky T n = ky S n" "inorder (plug (Node t p (Node wl w wr)) gs) = xs"
    using deficient_left [OF D b] by (metis tree.inject)
  have cl: "col T (lf T w) = color_of T wl" "col T (rg T w) = color_of T wr" using color_ptr ptr rest(1) by auto
  show ?thesis
  proof (cases "color_of T wr = RED")
    case True
    then have "v = w" "T' = T" using step cl by (auto simp: outer_red_left_def)
    then show ?thesis using D b w True by auto
  next
    case False
    then have "color_of T wl = RED" using ch cl by (cases "color_of T wl") auto
    then obtain a u c where wl: "wl = Node a u c" "col T u = RED" "lf T w = u" using ptr(1) by (cases wl) auto
    define T2 where "T2 = set_color w RED (set_color u BLACK T)"
    have T': "T' = rbtree_right_rotate w T2" and v: "v = rg T' (pa T' x)"
      using step False cl wl by (auto simp: outer_red_left_def Let_def T2_def)
    have at2: "at_pos T2 (Node (Node a u c) w wr) (FR t p # gs) w"
      unfolding T2_def by (intro at_pos_color) (use at wl(1) in \<open>auto simp: at_FR\<close>)
    note rot = right_rotate_at [OF at2 T']
    have sub: "good T k a" "good T k c" "good T k wr" using good w False wl by (auto simp: good_def)
    have n': "rt_nil T' = rt_nil T" "\<forall>n. ky T' n = ky T n" using rot(2,4) by (simp_all add: T2_def)
    have c': "col T' n = (if n = w then RED else if n = u then BLACK else col T n)" for n using rot(3) by (simp add: T2_def)
    have u: "u \<noteq> rt_nil T" using wl ptr(1) by auto
    have "pa T' (rt_nil T) = pa T (rt_nil T)"
      using right_rotate_pa_nil [of w T2] nil wl u d by (simp add: T' T2_def)
    then have at': "at_pos T' t (FL p (Node a u (Node c w wr)) # gs) x \<and> pa T' x = p"
      using rot(1) n'(1) at by (intro left_child_again [of T]) (auto simp: at_FR at_pos_def)
    have g': "good T' k t" "good T' k a" "good T' k c" "good T' k wr"
      by (rule good_recolor [OF good(1)] good_recolor [OF sub(1)] good_recolor [OF sub(2)] good_recolor [OF sub(3)];
          use d wl in \<open>auto simp: c'\<close>)+
    have pc: "col T' p = col T p" "col T' u = BLACK" "col T' w = RED" using d wl by (auto simp: c')
    have "ctx_ok T' j gs = ctx_ok T j gs" for j by (rule ctx_ok_cong) (use d nil wl u n' in \<open>auto simp: c'\<close>)
    moreover have "col T' (above T' gs) = col T (above T gs)"
      using above_in [of T gs] d wl nil u n' rot(1) by (cases gs rule: clist.cases) (auto simp: c')
    ultimately have "ctx_ok T' (k + 1) (FL p (Node a u (Node c w wr)) # gs)" using ctx g' pc by (cases "col T p") (simp_all add: good_def)
    moreover have "inorder (plug t (FL p (Node a u (Node c w wr)) # gs)) = xs"
      using rest(4) wl inorder_plug [of "Node t p (Node wl w wr)" "Node t p (Node a u (Node c w wr))" gs] by simp
    ultimately have D': "deficient S xs T' t k (FL p (Node a u (Node c w wr)) # gs) x"
      using at' g'(1) rest n' nil u subs_ok_black [of T' t k] by (auto simp: deficient_def good_def c')
    moreover have "v = u" using D' v at' by (auto simp: deficient_def at_pos_def)
    ultimately show ?thesis using g'(1) pc by (intro exI [of _ a] exI [of _ "Node c w wr"]) (auto simp: good_def)
  qed
qed

text \<open>The outer child of the sibling is red: the last rotation closes the gap.\<close>

lemma close_left_ok:
  assumes D: "deficient S xs T t k (FL p (Node wl w wr) # gs) x" and b: "color_of T t = BLACK" and w: "col T w = BLACK"
    and red: "color_of T wr = RED" and T': "T' = close_left x w T"
  shows "rb_post S xs (set_color (rt_root T') BLACK T')"
proof -
  obtain at: "at_pos T (Node t p (Node wl w wr)) gs p" "lf T p = x" "rg T p = w" "pa T x = p"
    and good: "good T k t" "invc T (Node wl w wr)" "invh T (Node wl w wr)" "bheight T (Node wl w wr) = k + 1"
    and ptr: "rep T w wr (rg T w)" and nil: "p \<noteq> rt_nil T" "w \<noteq> rt_nil T"
    and d: "distinct (inorder t @ p # inorder wl @ w # inorder wr @ clist gs)"
    and ctx: "ctx_ok T (if col T p = BLACK then k + 2 else k + 1) gs"
      "col T p = BLACK \<or> gs \<noteq> [] \<and> col T (above T gs) = BLACK"
    and rest: "col T (rt_nil T) = BLACK" "rt_nil T = rt_nil S" "\<forall>n. ky T n = ky S n" "inorder (plug (Node t p (Node wl w wr)) gs) = xs"
    using deficient_left [OF D b] by (metis tree.inject)
  obtain c v e where wr: "wr = Node c v e" "col T v = RED" "rg T w = v" using red ptr by (cases wr) auto
  define T2 where "T2 = set_color v BLACK (set_color p BLACK (set_color w (col T p) T))"
  have rT': "T' = rbtree_left_rotate p T2"
    using at wr(3) by (simp add: T' close_left_def Let_def T2_def links_color del: upd_node_simps(1))
  have at2: "at_pos T2 (Node t p (Node wl w wr)) gs p" unfolding T2_def by (intro at_pos_color at(1))
  note rot = left_rotate_at [OF at2 rT']
  have sub: "good T k c" "good T k e" using good w wr by (auto simp: good_def)
  have n': "rt_nil T' = rt_nil T" "\<forall>n. ky T' n = ky T n" using rot(2,4) by (simp_all add: T2_def)
  have c': "col T' n = (if n = v \<or> n = p then BLACK else if n = w then col T p else col T n)" for n using rot(3) by (simp add: T2_def)
  have g': "good T' k t" "good T' k c" "good T' k e"
    by (rule good_recolor [OF good(1)] good_recolor [OF sub(1)] good_recolor [OF sub(2)]; use d wr in \<open>auto simp: c'\<close>)+
  have "col T' n = col T n" if "n \<in> set_tree wl" for n using that d wr by (auto simp: c')
  then have wl': "invc T' wl" "invh T' wl" "bheight T' wl = k"
    using colors_cong [of wl T' T] good w by auto
  have pc: "col T' p = BLACK" "col T' v = BLACK" "col T' w = col T p" using d wr by (auto simp: c')
  have "v \<noteq> rt_nil T" using wr ptr by auto
  then have "ctx_ok T' j gs = ctx_ok T j gs" for j by (intro ctx_ok_cong) (use d nil wr n' in \<open>auto simp: c'\<close>)
  moreover have "col T' (above T' gs) = col T (above T gs)"
    using d wr nil n' \<open>v \<noteq> rt_nil T\<close> by (cases gs rule: clist.cases) (auto simp: c')
  ultimately have "rb_post T' (inorder (plug (Node (Node t p wl) w wr) gs)) (set_color (rt_root T') BLACK T')"
    using ctx g' wl' pc wr rest(1) n' nil \<open>v \<noteq> rt_nil T\<close>
    by (intro finish [OF rot(1), of "if col T p = BLACK then k + 2 else k + 1"]) (auto simp: good_def c')
  then show ?thesis
    using rest n' inorder_plug [of "Node t p (Node wl w wr)" "Node (Node t p wl) w wr" gs] by (auto intro: rb_post_trans)
qed

text \<open>After the body either the gap is closed, or it has moved up, or it stands at a red node.\<close>

definition outcome :: "rbtree \<Rightarrow> addr list \<Rightarrow> nat \<Rightarrow> addr \<Rightarrow> rbtree \<Rightarrow> bool" where
  "outcome S xs n x T \<longleftrightarrow> (x = rt_root T \<and> rb_post S xs (set_color x BLACK T))
     \<or> (\<exists>t k hs. deficient S xs T t k hs x \<and> (length hs \<le> n \<or> col T x = RED))"

lemma step_left_ok:
  assumes D: "deficient S xs T t k (FL p s # gs) x" and b: "color_of T t = BLACK" and step: "step_left x T = (x', T')"
  shows "outcome S xs (length gs) x' T'"
proof -
  obtain w T1 where T1: "sibling_left x T = (w, T1)" by force
  obtain wl wr hs where D1: "deficient S xs T1 t k (FL p (Node wl w wr) # hs) x" "color_of T1 t = BLACK" "col T1 w = BLACK"
    "hs = gs \<or> col T1 p = RED" using sibling_left_ok [OF D b T1] by auto
  have px: "pa T1 x = p" using D1(1) by (simp add: deficient_def)
  show ?thesis
  proof (cases "col T1 (lf T1 w) = BLACK \<and> col T1 (rg T1 w) = BLACK")
    case True
    then have "x' = p" "T' = set_color w RED T1" using step T1 px by (auto simp: step_left_def Let_def)
    then show ?thesis using recolor_left_ok [OF D1(1-3)] True D1(4) by (auto simp: outcome_def simp del: upd_node_simps(1))
  next
    case False
    obtain v T2 where T2: "outer_red_left x w T1 = (v, T2)" by force
    then have "T' = close_left x v T2" "x' = rt_root T'" using step T1 False by (auto simp: step_left_def Let_def)
    then show ?thesis using outer_red_left_ok [OF D1(1-3) False T2] close_left_ok by (auto simp: outcome_def simp del: upd_node_simps)
  qed
qed

section \<open>The mirror image\<close>

definition flip :: "rbtree \<Rightarrow> rbtree" where
  "flip T = T\<lparr>rt_node := (\<lambda>a. (rt_node T a)\<lparr>rn_right := lf T a, rn_left := rg T a\<rparr>)\<rparr>"

fun flip_frame :: "frame \<Rightarrow> frame" where
  "flip_frame (FL a r) = FR (mirror r) a"
| "flip_frame (FR l a) = FL a (mirror l)"

lemma flip_simps [simp]:
  "lf (flip T) a = rg T a" "rg (flip T) a = lf T a" "pa (flip T) a = pa T a" "col (flip T) a = col T a" "ky (flip T) a = ky T a"
  "rt_nil (flip T) = rt_nil T" "rt_root (flip T) = rt_root T"
  by (simp_all add: flip_def)

lemma flip_flip [simp]: "flip (flip T) = T"
  by (simp add: flip_def)

lemma flip_frame_frame [simp]: "flip_frame (flip_frame f) = f"
  by (cases f) simp_all

lemma rep_flip [simp]: "rep (flip T) par (mirror t) p = rep T par t p"
  by (induction t arbitrary: par p) auto

lemma above_flip [simp]: "above (flip T) (map flip_frame fs) = above T fs"
  by (cases fs rule: clist.cases) auto

lemma repc_flip [simp]: "repc (flip T) (map flip_frame fs) p = repc T fs p"
  by (induction fs arbitrary: p rule: clist.induct) auto

lemma plug_flip: "plug (mirror t) (map flip_frame fs) = mirror (plug t fs)"
  by (induction t fs rule: plug.induct) (simp_all flip: mirror.simps)

lemma at_pos_flip: "at_pos T t fs x \<Longrightarrow> at_pos (flip T) (mirror t) (map flip_frame fs) x"
  using distinct_plug [of t fs] distinct_plug [of "mirror t" "map flip_frame fs"] by (auto simp: at_pos_def plug_flip inorder_mirror)

lemma color_flip [simp]: "color_of (flip T) (mirror t) = color_of T t"
  by (cases t) auto

lemma invc_flip [simp]: "invc (flip T) (mirror t) = invc T t"
  by (induction t) auto

lemma height_flip: "invh T t \<Longrightarrow> bheight (flip T) (mirror t) = bheight T t \<and> invh (flip T) (mirror t)"
  by (induction t) auto

lemma ctx_ok_flip: "ctx_ok T k fs \<Longrightarrow> ctx_ok (flip T) k (map flip_frame fs)"
  by (induction T k fs rule: ctx_ok.induct) (auto simp: height_flip)

lemma subs_ok_flip: "subs_ok T k t \<Longrightarrow> subs_ok (flip T) k (mirror t)"
  using height_flip [of T t] by (cases t) (auto simp: subs_ok_def)

lemma deficient_flip:
  assumes "deficient S xs T t k fs x"
  shows "deficient (flip S) (rev xs) (flip T) (mirror t) k (map flip_frame fs) x"
  using assms by (auto simp: deficient_def plug_flip inorder_mirror intro!: at_pos_flip ctx_ok_flip subs_ok_flip)

lemma rb_post_flip:
  assumes "rb_post S xs T" shows "rb_post (flip S) (rev xs) (flip T)"
proof -
  obtain t where "rep T (rt_nil T) t (rt_root T)" "inorder t = xs" "invc T t" "invh T t" "color_of T t = BLACK"
    using assms by (auto simp: rb_post_def)
  then show ?thesis using assms height_flip [of T t]
    unfolding rb_post_def by (intro conjI exI [of _ "mirror t"]) (auto simp: inorder_mirror)
qed

lemma set_flip:
  "set_color a c (flip T) = flip (set_color a c T)" "set_parent a v (flip T) = flip (set_parent a v T)"
  "set_left a v (flip T) = flip (set_right a v T)" "set_right a v (flip T) = flip (set_left a v T)"
  "(flip T)\<lparr>rt_root := v\<rparr> = flip (T\<lparr>rt_root := v\<rparr>)"
  by (auto simp: flip_def upd_node_def fun_eq_iff)

lemma rotate_flip: "rbtree_left_rotate x (flip T) = flip (rbtree_right_rotate x T)"
  "rbtree_right_rotate x (flip T) = flip (rbtree_left_rotate x T)"
  unfolding rbtree_left_rotate_def rbtree_right_rotate_def Let_def
  by (simp_all only: flip_simps set_flip if_distrib [of flip, symmetric] upd_node_simps(3))

lemma step_flip: "step_left x (flip T) = (case step_right x T of (y, T) \<Rightarrow> (y, flip T))"
proof -
  have sib: "sibling_left x (flip T) = (case sibling_right x T of (y, T) \<Rightarrow> (y, flip T))" for T
    by (simp add: sibling_left_def sibling_right_def Let_def set_flip rotate_flip links_color del: upd_node_simps(1))
  have out: "outer_red_left x w (flip T) = (case outer_red_right x w T of (y, T) \<Rightarrow> (y, flip T))" for w T
    by (simp add: outer_red_left_def outer_red_right_def Let_def set_flip rotate_flip links_color del: upd_node_simps(1))
  have cl: "close_left x w (flip T) = flip (close_right x w T)" for w T
    by (simp add: close_left_def close_right_def Let_def set_flip rotate_flip links_color del: upd_node_simps(1))
  show ?thesis
    by (auto simp: step_left_def step_right_def sib out cl Let_def set_flip simp del: upd_node_simps split: prod.split)
qed

lemma outcome_flip: "outcome S xs n x T \<Longrightarrow> outcome (flip S) (rev xs) n x (flip T)"
  unfolding outcome_def using rb_post_flip [of S xs "set_color x BLACK T"] deficient_flip [of S xs T]
  by (auto simp: set_flip simp del: upd_node_simps(1)) (metis length_map)+

lemma step_right_ok:
  assumes D: "deficient S xs T t k (FR s p # gs) x" and b: "color_of T t = BLACK" and step: "step_right x T = (x', T')"
  shows "outcome S xs (length gs) x' T'"
  using step_left_ok [of "flip S" "rev xs" "flip T" "mirror t" k p "mirror s" "map flip_frame gs" x x' "flip T'"]
    deficient_flip [OF D] b step outcome_flip [of "flip S" "rev xs" _ x' "flip T'"] by (simp add: step_flip)

section \<open>The loop\<close>

lemma delete_fixup_ok:
  assumes "deficient S xs T t k fs x"
  shows "\<exists>x' T'. delete_fixup_loop x T = Some (x', T') \<and> rb_post S xs (set_color x' BLACK T')"
  using assms
proof (induction "length fs" arbitrary: T t k fs x rule: less_induct)
  case less
  have at: "at_pos T t fs x" and nil: "col T (rt_nil T) = BLACK" and px: "pa T x = above T fs" using less.prems by (auto simp: deficient_def)
  show ?case
  proof (cases "fs = [] \<or> col T x = RED")
    case True
    then show ?thesis using stop_ok [OF less.prems] delete_loop_done [of x T] at_pos_root [OF at] by auto
  next
    case False
    then have nr: "x \<noteq> rt_root T" "col T x = BLACK" using at_pos_root [OF at] by auto
    then have b: "color_of T t = BLACK" using color_ptr [OF _ nil] at by (auto simp: at_pos_def)
    have "\<exists>x1 T1. delete_fixup_loop x T = delete_fixup_loop x1 T1 \<and> outcome S xs (length fs - 1) x1 T1"
    proof (cases fs rule: clist.cases)
      case 1
      then show ?thesis using False by simp
    next
      case FL: (2 p s gs)
      obtain x1 T1 where st: "step_left x T = (x1, T1)" by force
      have "x = lf T (pa T x)" using at px FL by (auto simp: at_FL)
      then show ?thesis using delete_loop_left [OF nr] st step_left_ok [OF less.prems [unfolded FL] b st] FL by auto
    next
      case FR: (3 s p gs)
      obtain x1 T1 where st: "step_right x T = (x1, T1)" by force
      have "bheight T s \<noteq> 0" using less.prems FR by (auto simp: deficient_def)
      then have "x \<noteq> lf T (pa T x)" using at px FR rep_root [of T "above T fs" t x] by (cases s) (auto simp: at_pos_def)
      then show ?thesis using delete_loop_right [OF nr] st step_right_ok [OF less.prems [unfolded FR] b st] FR by auto
    qed
    then obtain x1 T1 where step: "delete_fixup_loop x T = delete_fixup_loop x1 T1" and out: "outcome S xs (length fs - 1) x1 T1" by blast
    show ?thesis
      using out unfolding outcome_def
    proof (elim disjE exE conjE)
      assume "x1 = rt_root T1" "rb_post S xs (set_color x1 BLACK T1)"
      then show ?thesis using step delete_loop_done [of x1 T1] by auto
    next
      fix t1 k1 hs assume D: "deficient S xs T1 t1 k1 hs x1" and "length hs \<le> length fs - 1"
      then show ?thesis using less.hyps [OF _ D] False step by (cases fs) auto
    next
      fix t1 k1 hs assume D: "deficient S xs T1 t1 k1 hs x1" and "col T1 x1 = RED"
      then show ?thesis using stop_ok [OF D] step delete_loop_done [of x1 T1] by auto
    qed
  qed
qed

end
