(* ===== verification/RBRemove.thy ===== *)
theory RBRemove
  imports RBDelete
begin

text \<open>
  \<open>rbtree_delete\<close> as a whole: the node that is taken out is found, its only child is put in its place,
  the key moves when the successor is taken, and the tree is repaired.
\<close>

section \<open>The node that is taken out\<close>

lemma find_position: "z \<in> set_tree t \<Longrightarrow> \<exists>l r fs. plug t gs = plug (Node l z r) (fs @ gs) \<and> (fs = [] \<longrightarrow> t = Node l z r)"
proof (induction t arbitrary: gs)
  case (Node l a r)
  then consider "z = a" | "z \<in> set_tree l" | "z \<in> set_tree r" by auto
  then show ?case
  proof cases
    case 1
    then show ?thesis by (intro exI [of _ l] exI [of _ r] exI [of _ "[]"]) simp
  next
    case 2
    then obtain l' r' fs where "plug l (FL a r # gs) = plug (Node l' z r') (fs @ FL a r # gs)" using Node.IH(1) [of "FL a r # gs"] by auto
    then show ?thesis by (intro exI [of _ l'] exI [of _ r'] exI [of _ "fs @ [FL a r]"]) simp
  next
    case 3
    then obtain l' r' fs where "plug r (FR l a # gs) = plug (Node l' z r') (fs @ FR l a # gs)" using Node.IH(2) [of "FR l a # gs"] by auto
    then show ?thesis by (intro exI [of _ l'] exI [of _ r'] exI [of _ "fs @ [FR l a]"]) simp
  qed
qed simp

text \<open>The least node of a subtree has no left child, and nothing stands before it.\<close>

lemma mini_ok:
  assumes "rep T par (Node l a r) a"
  shows "\<exists>y yr gs. rbtree_mini T a = Some y \<and> plug (Node l a r) fs = plug (Node Leaf y yr) gs \<and> pre gs = pre fs
    \<and> set (clist fs) \<subseteq> set (clist gs)"
  using assms
proof (induction l arbitrary: a r fs par)
  case Leaf
  then show ?case by (subst rbtree_mini.simps) auto
next
  case (Node l1 b r1)
  then have "lf T a = b" "b \<noteq> rt_nil T" "rep T a (Node l1 b r1) b" by auto
  moreover from this have "rbtree_mini T a = rbtree_mini T b" by (subst rbtree_mini.simps) simp
  moreover obtain y yr gs where "rbtree_mini T b = Some y \<and> plug (Node l1 b r1) (FL a r # fs) = plug (Node Leaf y yr) gs
    \<and> pre gs = pre (FL a r # fs) \<and> set (clist (FL a r # fs)) \<subseteq> set (clist gs)" using Node.IH(1) [OF calculation(3)] by blast
  ultimately show ?case by (intro exI [of _ y] exI [of _ yr] exI [of _ gs]) auto
qed

section \<open>Unlinking\<close>

definition splice :: "addr \<Rightarrow> addr \<Rightarrow> rbtree \<Rightarrow> rbtree" where
  "splice y x T =
     (let T = set_parent x (pa T y) T
      in if pa T y = rt_nil T then T\<lparr>rt_root := x\<rparr>
         else if y = lf T (pa T y) then set_left (pa T y) x T
         else set_right (pa T y) x T)"

lemma splice_fields:
  assumes "x \<noteq> y" "pa T y = q" and T': "T' = splice y x T"
  shows "lf T' n = (if n = q \<and> q \<noteq> rt_nil T \<and> y = lf T q then x else lf T n)"
    "rg T' n = (if n = q \<and> q \<noteq> rt_nil T \<and> y \<noteq> lf T q then x else rg T n)"
    "pa T' n = (if n = x then q else pa T n)" "rt_root T' = (if q = rt_nil T then x else rt_root T)" "rt_nil T' = rt_nil T"
    "col T' n = col T n" "ky T' n = ky T n" "rn_value (rt_node T' n) = rn_value (rt_node T n)"
proof -
  define T1 where "T1 = set_parent x q T"
  have f1: "lf T1 m = lf T m" "rg T1 m = rg T m" "pa T1 m = (if m = x then q else pa T m)" "rt_root T1 = rt_root T" "rt_nil T1 = rt_nil T"
    "col T1 m = col T m" "ky T1 m = ky T m" "rn_value (rt_node T1 m) = rn_value (rt_node T m)" for m
    by (simp_all add: T1_def)
  have "pa T1 y = q" using assms(1,2) by (simp add: f1)
  then have T': "T' = (if q = rt_nil T then T1\<lparr>rt_root := x\<rparr> else if y = lf T q then set_left q x T1 else set_right q x T1)"
    unfolding T' splice_def Let_def assms(2) T1_def [symmetric] by (simp only: f1(1,5))
  show "lf T' n = (if n = q \<and> q \<noteq> rt_nil T \<and> y = lf T q then x else lf T n)"
    "rg T' n = (if n = q \<and> q \<noteq> rt_nil T \<and> y \<noteq> lf T q then x else rg T n)"
    "pa T' n = (if n = x then q else pa T n)" "rt_root T' = (if q = rt_nil T then x else rt_root T)" "rt_nil T' = rt_nil T"
    "col T' n = col T n" "ky T' n = ky T n" "rn_value (rt_node T' n) = rn_value (rt_node T n)"
    unfolding T' by (simp_all add: f1)
qed

lemma splice_at:
  assumes at: "at_pos T (Node yl y yr) fs y" and c: "yl = Leaf \<and> c = yr \<or> yr = Leaf \<and> c = yl" and x: "rep T y c x"
    and T': "T' = splice y x T"
  shows "at_pos T' c fs x \<and> pa T' x = above T' fs"
proof -
  have r: "y \<noteq> rt_nil T" "pa T y = above T fs" "repc T fs y" and d: "distinct (inorder yl @ y # inorder yr @ clist fs)"
    using at by (auto simp: at_pos_def)
  have dc: "distinct (inorder c)" "y \<notin> set_tree c" "set_tree c \<inter> set (clist fs) = {}" using d c by auto
  have xc: "x = rt_nil T \<or> x \<in> set_tree c" by (rule rep_root [OF x])
  have nc: "rt_nil T \<notin> set (clist fs)" by (rule nil_notin_c [OF r(3)])
  have "x \<noteq> y" using xc r(1) dc(2) by auto
  note f = splice_fields [OF this r(2) T']
  have ab: "above T fs = rt_nil T \<or> above T fs \<in> set (clist fs)" by (rule above_in)
  have "rep T' (above T fs) c x"
  proof (rule rep_reparent [OF x dc(1)])
    show "same_links (set_tree c - {x}) T T'" using ab dc nil_notin [OF x] by (auto simp: same_links_def f)
    show "c \<noteq> Leaf \<Longrightarrow> lf T' x = lf T x \<and> rg T' x = rg T x \<and> pa T' x = above T fs"
      using xc ab dc rep_Leaf [OF x] by (auto simp: f)
  qed
  moreover have "repc T' fs x \<and> above T' fs = above T fs"
  proof (rule repc_redirect [OF r(3) _ f(5)])
    show "same_links (set (clist fs) - {above T fs}) T T'" using xc nc dc by (auto simp: same_links_def f)
    show "fs = [] \<Longrightarrow> rt_root T' = x" "fs \<noteq> [] \<Longrightarrow> rt_root T' = rt_root T" using above_nil [OF r(3)] by (auto simp: f)
    show "fs = FL a s # gs \<Longrightarrow> lf T' a = x \<and> rg T' a = rg T a \<and> pa T' a = pa T a" for a s gs
      using repc_side(1) [OF r(3), of "{y}" a s gs] r(1) d xc nc dc by (auto simp: f)
    show "fs = FR l a # gs \<Longrightarrow> rg T' a = x \<and> lf T' a = lf T a \<and> pa T' a = pa T a" for l a gs
      using repc_side(2) [OF r(3), of "{y}" l a gs] r(1) d xc nc dc by (auto simp: f)
  qed (use d in auto)
  ultimately show ?thesis using dc d by (auto simp: at_pos_def f)
qed

section \<open>Values\<close>

abbreviation "val T n \<equiv> rn_value (rt_node T n)"

lemma value_upd:
  "val (set_left a v T) n = val T n" "val (set_right a v T) n = val T n" "val (set_parent a v T) n = val T n"
  "val (set_color a c T) n = val T n" "val (T\<lparr>rt_root := v\<rparr>) n = val T n"
  "val (if b then T1 else T2) n = (if b then val T1 n else val T2 n)"
  by simp_all

lemma rotate_value: "val (rbtree_left_rotate x T) n = val T n" "val (rbtree_right_rotate x T) n = val T n"
  unfolding rbtree_left_rotate_def rbtree_right_rotate_def Let_def by (simp_all only: value_upd if_cancel)

lemma step_value: "val (snd (step_left x T)) n = val T n" "val (snd (step_right x T)) n = val T n"
proof -
  have "val (snd (sibling_left x T)) n = val T n" "val (snd (sibling_right x T)) n = val T n"
    "val (snd (outer_red_left x w T)) n = val T n" "val (snd (outer_red_right x w T)) n = val T n"
    "val (close_left x w T) n = val T n" "val (close_right x w T) n = val T n" for w T
    by (simp_all add: sibling_left_def sibling_right_def outer_red_left_def outer_red_right_def close_left_def close_right_def
        Let_def rotate_value value_upd del: upd_node_simps)
  note v = this
  show "val (snd (step_left x T)) n = val T n" "val (snd (step_right x T)) n = val T n"
    using v by (simp_all add: step_left_def step_right_def Let_def value_upd del: upd_node_simps split: prod.split) (metis snd_conv)+
qed

lemma delete_loop_value:
  assumes "delete_fixup_loop x T = Some r" shows "val (snd r) n = val T n"
proof (rule delete_fixup_loop.raw_induct [where P = "\<lambda>x T r. val (snd r) n = val T n" and xa = "(x, T)" and y = r, unfolded prod.case, OF _ assms], goal_cases)
  case (1 f x T r)
  have "(if x \<noteq> rt_root T \<and> col T x = BLACK
      then if x = lf T (pa T x) then (case step_left x T of (x, T) \<Rightarrow> f x T) else (case step_right x T of (x, T) \<Rightarrow> f x T)
      else Some (x, T)) = Some r"
    unfolding 1(2) [symmetric]
    by (simp add: step_left_def sibling_left_def outer_red_left_def close_left_def step_right_def sibling_right_def outer_red_right_def
        close_right_def Let_def del: upd_node_simps split: prod.split)
  then show ?case using 1(1) step_value [of x T n]
    by (auto split: if_splits prod.splits)
qed

section \<open>Unlinking and repair\<close>

text \<open>\<open>T3\<close> is the tree after unlinking, up to keys and values.\<close>

lemma unlink_ok:
  assumes ok: "rb_ok T (plug (Node yl y yr) fs)" and c: "yl = Leaf \<and> c = yr \<or> yr = Leaf \<and> c = yl" and x: "rep T y c x"
    and T3: "same_links UNIV (splice y x T) T3" "rt_root T3 = rt_root (splice y x T)" "\<And>n. col T3 n = col T n"
  shows "\<exists>T4. (if col T3 y = BLACK then rbtree_delete_fixup x T3 else Some T3) = Some T4
    \<and> rb_post T3 (inorder (plug c fs)) T4 \<and> (\<forall>n. val T4 n = val T3 n)"
proof -
  have at: "at_pos T (Node yl y yr) fs y" using ok rb_ok_distinct [OF ok] by (auto simp: rb_ok_def rep_plug distinct_plug at_pos_def)
  have inv: "ctx_ok T (bheight T (Node yl y yr)) fs" "invc T (Node yl y yr)" "invh T (Node yl y yr)"
    "col T y = BLACK \<or> fs \<noteq> [] \<and> col T (above T fs) = BLACK" and nil: "col T (rt_nil T) = BLACK"
    using ok plug_inv_conv [of T "Node yl y yr" fs] by (auto simp: rb_ok_def)
  have "x \<noteq> y" using rep_root [OF x] at c by (auto simp: at_pos_def)
  then have n3: "rt_nil T3 = rt_nil T" using T3(1) splice_fields(5) [of x y T _ "splice y x T"] by (auto simp: same_links_def)
  have sl: "same_links A (splice y x T) T3" for A using T3(1) by (auto simp: same_links_def)
  have at3: "at_pos T3 c fs x \<and> pa T3 x = above T3 fs"
    using splice_at [OF at c x refl] rep_cong [OF sl] repc_cong [OF sl T3(2)] sl [of "{x}"] by (auto simp: at_pos_def same_links_def)
  have ctx3: "ctx_ok T3 j fs = ctx_ok T j fs" for j by (rule ctx_ok_cong) (use T3(3) n3 in auto)
  have c3: "invc T3 c" "invh T3 c" "bheight T3 c = 0" "col T y = RED \<Longrightarrow> color_of T3 c = BLACK"
    using colors_cong [of c T3 T] T3(3) inv c by (auto simp: not_RED [symmetric] simp del: not_RED)
  have k: "bheight T yl = 0" using inv(3) c by auto
  have subs: "subs_ok T3 0 c" using c3 by (cases c) (auto simp: subs_ok_def)
  show ?thesis
  proof (cases "col T y = BLACK")
    case True
    then have "deficient T3 (inorder (plug c fs)) T3 c 0 fs x"
      using at3 subs ctx3 inv(1) k nil n3 T3(3) by (auto simp: deficient_def)
    then obtain x' T' where loop: "delete_fixup_loop x T3 = Some (x', T')" and "rb_post T3 (inorder (plug c fs)) (set_color x' BLACK T')"
      using delete_fixup_ok by blast
    then show ?thesis using True T3(3) delete_loop_value [OF loop] by (auto simp: rbtree_delete_fixup_def value_upd simp del: upd_node_simps(1))
  next
    case False
    then have red: "col T y = RED" by (cases "col T y") auto
    then have "ctx_ok T3 0 fs" "fs \<noteq> []" using inv k ctx3 by auto
    then have "invc T3 (plug c fs) \<and> invh T3 (plug c fs) \<and> color_of T3 (plug c fs) = BLACK"
      using plug_inv [of T3 0 fs c] c3 red by auto
    then have "rb_post T3 (inorder (plug c fs)) T3"
      using at_pos_nonroot_ctx [of T3 c fs x] at3 nil n3 T3(3) by (auto simp: rb_post_def)
    then show ?thesis using red T3(3) by auto
  qed
qed

text \<open>What the caller of \<open>rbtree_delete\<close> gets.\<close>

definition entry :: "rbtree \<Rightarrow> addr \<Rightarrow> int \<times> addr" where
  "entry T a = (ky T a, val T a)"

definition removed :: "rbtree \<Rightarrow> addr tree \<Rightarrow> addr \<Rightarrow> addr \<Rightarrow> rbtree \<Rightarrow> bool" where
  "removed T t z y T' \<longleftrightarrow> (\<exists>t' A B. rb_ok T' t' \<and> rt_nil T' = rt_nil T \<and> y \<in> set_tree t \<and> set_tree t' = set_tree t - {y}
     \<and> map (entry T) (inorder t) = A @ entry T z # B \<and> map (entry T') (inorder t') = A @ B)"

lemma removed_intro:
  assumes ok: "rb_ok T t" and post: "rb_post T3 ws T4" and v: "\<forall>n. val T4 n = val T3 n" and n3: "rt_nil T3 = rt_nil T"
    and l: "inorder t = xs @ y # ys" "ws = xs @ ys"
    and e: "map (entry T) (inorder t) = A @ entry T z # B" "map (entry T3) ws = A @ B"
  shows "removed T t z y T4"
proof -
  obtain t' where t': "rep T4 (rt_nil T4) t' (rt_root T4)" "inorder t' = ws" "invc T4 t'" "invh T4 t'" "color_of T4 t' = BLACK"
    "rt_nil T4 = rt_nil T3" "col T4 (rt_nil T4) = BLACK" "\<forall>n. ky T4 n = ky T3 n" using post unfolding rb_post_def by blast
  have en: "entry T4 = entry T3" using v t'(8) by (auto simp: entry_def fun_eq_iff)
  have m: "map (ky U) us = map fst (map (entry U) us)" for U us by (simp add: entry_def)
  have "sorted_wrt (<) (map fst (A @ entry T z # B))" using ok unfolding rb_ok_def m e(1) by blast
  then have "sorted_wrt (<) (map (ky T4) (inorder t'))" unfolding m t'(2) en e(2) by (simp add: sorted_wrt_append)
  then have "rb_ok T4 t'" using t' by (simp add: rb_ok_def)
  moreover have "set_tree t' = set_tree t - {y}" "y \<in> set_tree t"
    using rb_ok_distinct [OF ok] l t'(2) unfolding set_inorder [symmetric] by auto
  moreover have "rt_nil T4 = rt_nil T" "map (entry T4) (inorder t') = A @ B" using t'(2,6) n3 en e by simp_all
  ultimately show ?thesis unfolding removed_def using e(1) by blast
qed

section \<open>Deletion\<close>

text \<open>The pointer to the child that takes the place of \<open>y\<close>.\<close>

abbreviation "only_child T y \<equiv> (if lf T y \<noteq> rt_nil T then lf T y else if rg T y \<noteq> rt_nil T then rg T y else rt_nil T)"

lemma only_child_ok:
  assumes "rep T par (Node yl y yr) y" "yl = Leaf \<or> yr = Leaf"
  obtains c where "yl = Leaf \<and> c = yr \<or> yr = Leaf \<and> c = yl" "rep T y c (only_child T y)"
  using assms rep_Leaf [of T y yl "lf T y"] rep_Leaf [of T y yr "rg T y"] by (cases "yl = Leaf") auto

lemma inorder_unlink:
  assumes "yl = Leaf \<and> c = yr \<or> yr = Leaf \<and> c = yl"
  shows "\<exists>xs ys. inorder (plug (Node yl y yr) fs) = xs @ y # ys \<and> inorder (plug c fs) = xs @ ys \<and> (yl = Leaf \<longrightarrow> xs = pre fs)"
  using assms by (cases "yl = Leaf")
    (force simp: inorder_plug_split intro: exI [of _ "pre fs"] exI [of _ "inorder yr @ post fs"] exI [of _ "pre fs @ inorder yl"])+

lemma delete_splice:
  "rbtree_delete z T =
     do { y \<leftarrow> (if lf T z = rt_nil T \<or> rg T z = rt_nil T then Some z else rbtree_successor T z);
          let T2 = splice y (only_child T y) T;
          let T3 = (if y \<noteq> z then upd_node z (\<lambda>nd. nd\<lparr>rn_key := ky T2 y, rn_value := val T2 y\<rparr>) T2 else T2);
          T \<leftarrow> (if col T3 y = BLACK then rbtree_delete_fixup (only_child T y) T3 else Some T3);
          Some (y, T) }"
  unfolding rbtree_delete_def splice_def Let_def ..

text \<open>The node has a missing child and is taken out itself.\<close>

lemma delete_self:
  assumes ok: "rb_ok T t" and t: "t = plug (Node l z r) fs" and lr: "l = Leaf \<or> r = Leaf"
  shows "\<exists>T'. rbtree_delete z T = Some (z, T') \<and> removed T t z z T'"
proof -
  have rp: "rep T (above T fs) (Node l z r) z" using ok t by (auto simp: rb_ok_def rep_plug)
  obtain c where c: "l = Leaf \<and> c = r \<or> r = Leaf \<and> c = l" "rep T z c (only_child T z)" using only_child_ok [OF rp lr] by blast
  define T3 where "T3 = splice z (only_child T z) T"
  have "only_child T z \<noteq> z" using rep_root [OF c(2)] rp rb_ok_distinct [OF ok] c(1) by (auto simp: t distinct_plug)
  note f = splice_fields [OF this refl T3_def]
  obtain T4 where T4: "(if col T3 z = BLACK then rbtree_delete_fixup (only_child T z) T3 else Some T3) = Some T4"
    "rb_post T3 (inorder (plug c fs)) T4" "\<forall>n. val T4 n = val T3 n"
    using unlink_ok [OF ok [unfolded t] c, of T3] f(6) by (auto simp: T3_def same_links_def)
  have y: "lf T z = rt_nil T \<or> rg T z = rt_nil T" using rp lr by auto
  have "rbtree_delete z T = Some (z, T4)"
    using T4(1) y by (auto simp: delete_splice T3_def [symmetric] Let_def simp del: upd_node_simps split: if_splits)
  moreover obtain xs ys where "inorder t = xs @ z # ys" "inorder (plug c fs) = xs @ ys" using inorder_unlink [OF c(1)] t by metis
  moreover have "entry T3 = entry T" using f(7,8) by (auto simp: entry_def fun_eq_iff)
  ultimately show ?thesis using removed_intro [OF ok T4(2,3) f(5), of xs z ys "map (entry T) xs" z "map (entry T) ys"] by auto
qed

text \<open>The node has two children: its successor is taken out and its entry moves.\<close>

lemma delete_successor:
  assumes ok: "rb_ok T t" and t: "t = plug (Node l z r) fs" and lr: "l \<noteq> Leaf" "r \<noteq> Leaf"
  shows "\<exists>y T'. rbtree_delete z T = Some (y, T') \<and> removed T t z y T'"
proof -
  have rp: "rep T (above T fs) (Node l z r) z" using ok t by (auto simp: rb_ok_def rep_plug)
  obtain rl a rr where r: "r = Node rl a rr" using lr by (cases r) auto
  have ra: "rg T z = a" "rep T z (Node rl a rr) a" using rp r by auto
  obtain y yr gs where g: "rbtree_mini T a = Some y" "plug (Node rl a rr) (FR l z # fs) = plug (Node Leaf y yr) gs"
    "pre gs = pre (FR l z # fs)" "set (clist (FR l z # fs)) \<subseteq> set (clist gs)" using mini_ok [OF ra(2), of "FR l z # fs"] by blast
  have t': "t = plug (Node Leaf y yr) gs" using t r g(2) by simp
  have rpy: "rep T (above T gs) (Node Leaf y yr) y" using ok t' by (auto simp: rb_ok_def rep_plug)
  obtain c where c: "(Leaf :: addr tree) = Leaf \<and> c = yr \<or> yr = Leaf \<and> c = Leaf" "rep T y c (only_child T y)"
    using only_child_ok [OF rpy] by blast
  have d: "distinct (inorder t)" by (rule rb_ok_distinct [OF ok])
  have zy: "z \<noteq> y" using d g(4) unfolding t' distinct_plug by auto
  have "only_child T y \<noteq> y" using rep_root [OF c(2)] rpy d c(1) by (auto simp: t' distinct_plug)
  note f = splice_fields [OF this refl refl]
  define T2 where "T2 = splice y (only_child T y) T"
  define T3 where "T3 = upd_node z (\<lambda>nd. nd\<lparr>rn_key := ky T2 y, rn_value := val T2 y\<rparr>) T2"
  have "same_links UNIV T2 T3" "rt_root T3 = rt_root T2" "\<And>n. col T3 n = col T2 n" by (simp_all add: T3_def same_links_def)
  then obtain T4 where T4: "(if col T3 y = BLACK then rbtree_delete_fixup (only_child T y) T3 else Some T3) = Some T4"
    "rb_post T3 (inorder (plug c gs)) T4" "\<forall>n. val T4 n = val T3 n"
    using unlink_ok [OF ok [unfolded t'] c, of T3] f(6) unfolding T2_def by metis
  have n3: "rt_nil T3 = rt_nil T" using f(5) by (simp add: T3_def T2_def)
  have nn: "lf T z \<noteq> rt_nil T" "rg T z \<noteq> rt_nil T" using rp lr by (auto dest!: rep_Leaf)
  have succ: "rbtree_successor T z = Some y" using nn ra g(1) by (simp add: rbtree_successor_def)
  have "rbtree_delete z T = Some (y, T4)"
    using T4(1) nn succ zy
    by (auto simp: delete_splice T2_def [symmetric] T3_def [symmetric] Let_def simp del: upd_node_simps split: if_splits)
  moreover obtain ys where "inorder t = pre gs @ y # ys" "inorder (plug c gs) = pre gs @ ys" using inorder_unlink [OF c(1), of y gs] t' by auto
  then have l: "inorder t = (pre fs @ inorder l) @ z # y # ys" "inorder (plug c gs) = (pre fs @ inorder l) @ z # ys" using g(3) by auto
  have e3: "entry T3 n = (if n = z then entry T y else entry T n)" for n using f(7,8) by (simp add: entry_def T3_def T2_def)
  have "map (entry T3) (inorder (plug c gs)) = map (entry T) (pre fs @ inorder l) @ entry T y # map (entry T) ys"
    using d unfolding l by (auto simp: e3)
  ultimately show ?thesis
    using removed_intro [OF ok T4(2,3) n3, of "(pre fs @ inorder l) @ [z]" y ys "map (entry T) (pre fs @ inorder l)" z "entry T y # map (entry T) ys"] l
    by auto
qed

section \<open>Property\<close>

text \<open>
  C7. Deleting a node of a red-black search tree returns: exactly its key and value are gone, the other
  entries keep their order, the result is again a red-black search tree, and the returned node, which
  the caller frees, is a node of the old tree that no longer occurs in the new one.
\<close>

theorem rbtree_delete_correct:
  assumes "rb_ok T t" "z \<in> set_tree t"
  shows "\<exists>y T'. rbtree_delete z T = Some (y, T') \<and> removed T t z y T'"
proof -
  obtain l r fs where t: "t = plug (Node l z r) fs" using find_position [OF assms(2), of "[]"] by auto
  show ?thesis
    using delete_self [OF assms(1) t] delete_successor [OF assms(1) t] by blast
qed

theorem rbtree_delete_correct_witness:
  "\<exists>y T'. rbtree_delete 1 demo_tree = Some (y, T') \<and> removed demo_tree demo_shape 1 y T'"
  using rbtree_delete_correct [OF demo_ok, of 1] by simp

end
