(* ===== verification/RBMain.thy ===== *)
theory RBMain
  imports RBRemove
begin

text \<open>
  The program of \<open>rbtree.c\<close>: it inserts the keys of an array, prints the tree, then looks up and deletes
  every key, freeing the node it gets and printing the tree each time. The program is a client of a
  store of keys; its behaviour is proved once against that interface.
\<close>

section \<open>The program\<close>

definition keyArray :: "int list" where
  "keyArray = [24,25,13,35,23, 26,67,47,38,98, 20,19,17,49,12, 21,9,18,14,15]"

text \<open>One iteration of the first loop; \<open>node\<close> is what \<open>malloc\<close> returned.\<close>

definition insert_key :: "addr \<Rightarrow> int \<Rightarrow> rbtree \<Rightarrow> rbtree option" where
  "insert_key node k T = rbtree_insert node (upd_node node (\<lambda>nd. nd\<lparr>rn_key := k, rn_value := 0\<rparr>) T)"

text \<open>The lookup and deletion of the second loop, with the node to be freed.\<close>

definition delete_key :: "int \<Rightarrow> rbtree \<Rightarrow> (addr \<times> rbtree) option" where
  "delete_key k T = do { node \<leftarrow> rbtree_search T k; rbtree_delete node T }"

definition print_tree :: "rbtree \<Rightarrow> (int \<times> rb_color) list option" where
  "print_tree T = rbtree_traversal T (rt_root T)"

fun fill :: "('n \<Rightarrow> int \<Rightarrow> 's \<Rightarrow> 's option) \<Rightarrow> ('n \<times> int) list \<Rightarrow> 's \<Rightarrow> 's option" where
  "fill put [] s = Some s"
| "fill put ((n, k) # xs) s = do { s \<leftarrow> put n k s; fill put xs s }"

text \<open>The freed nodes, the trees printed and the final store.\<close>

fun drain :: "(int \<Rightarrow> 's \<Rightarrow> ('n \<times> 's) option) \<Rightarrow> ('s \<Rightarrow> 'o option) \<Rightarrow> int list \<Rightarrow> 's \<Rightarrow> ('n list \<times> 'o list \<times> 's) option" where
  "drain tk prn [] s = Some ([], [], s)"
| "drain tk prn (k # ks) s =
     do { (cur, s) \<leftarrow> tk k s;
          out \<leftarrow> prn s;
          (freed, outs, s) \<leftarrow> drain tk prn ks s;
          Some (cur # freed, out # outs, s) }"

text \<open>
  \<open>mem\<close> is the memory before the program runs, \<open>nl\<close> and \<open>nodes\<close> are the addresses \<open>malloc\<close> returns for
  the sentinel and the nodes, and \<open>got\<close> says whether the first \<open>malloc\<close>, the only one that is tested,
  succeeds.
\<close>

definition rb_main :: "bool \<Rightarrow> (addr \<Rightarrow> rb_node) \<Rightarrow> addr \<Rightarrow> addr list \<Rightarrow> int list
    \<Rightarrow> (int + (int \<times> rb_color) list \<times> addr list \<times> (int \<times> rb_color) list list \<times> rbtree) option" where
  "rb_main got mem nl nodes keys =
     (if \<not> got then Some (Inl (-1))
      else do { let T = \<lparr>rt_root = 0, rt_nil = nl, rt_node = mem\<rparr>;
                let T = set_color (rt_nil T) BLACK T;
                let T = T\<lparr>rt_root := rt_nil T\<rparr>;
                T \<leftarrow> fill insert_key (zip nodes keys) T;
                out \<leftarrow> print_tree T;
                (freed, outs, T) \<leftarrow> drain delete_key print_tree keys T;
                Some (Inr (out, freed, outs, T)) })"

section \<open>The interface\<close>

text \<open>\<open>holds s N K\<close>: the store \<open>s\<close> is made of the nodes \<open>N\<close> and has the keys \<open>K\<close>.\<close>

locale key_store =
  fixes put :: "'n \<Rightarrow> int \<Rightarrow> 's \<Rightarrow> 's option"
    and tk :: "int \<Rightarrow> 's \<Rightarrow> ('n \<times> 's) option"
    and prn :: "'s \<Rightarrow> (int \<times> 'c) list option"
    and nl :: 'n
    and holds :: "'s \<Rightarrow> 'n set \<Rightarrow> int set \<Rightarrow> bool"
  assumes put_ok: "holds s N K \<Longrightarrow> n \<notin> N \<Longrightarrow> n \<noteq> nl \<Longrightarrow> k \<notin> K \<Longrightarrow> \<exists>s'. put n k s = Some s' \<and> holds s' (insert n N) (insert k K)"
    and take_ok: "holds s N K \<Longrightarrow> k \<in> K \<Longrightarrow> \<exists>n s'. tk k s = Some (n, s') \<and> n \<in> N \<and> holds s' (N - {n}) (K - {k})"
    and print_ok: "holds s N K \<Longrightarrow> \<exists>out. prn s = Some out \<and> map fst out = sorted_list_of_set K"
begin

lemma fill_ok:
  assumes "holds s N K" "distinct ns" "set ns \<inter> N = {}" "nl \<notin> set ns" "distinct ks" "set ks \<inter> K = {}" "length ns = length ks"
  shows "\<exists>s'. fill put (zip ns ks) s = Some s' \<and> holds s' (N \<union> set ns) (K \<union> set ks)"
  using assms
proof (induction ns arbitrary: ks s N K)
  case (Cons n ns)
  then obtain k ks' where ks: "ks = k # ks'" by (cases ks) auto
  then obtain s1 where s1: "put n k s = Some s1" "holds s1 (insert n N) (insert k K)" using put_ok [OF Cons.prems(1), of n k] Cons.prems by auto
  then obtain s' where "fill put (zip ns ks') s1 = Some s'" "holds s' (insert n N \<union> set ns) (insert k K \<union> set ks')"
    using Cons.IH [OF s1(2), of ks'] Cons.prems ks by auto
  then show ?case using ks s1(1) by auto
qed simp

lemma drain_ok:
  assumes "holds s N K" "distinct ks" "set ks = K" "finite N" "card N = length ks"
  shows "\<exists>freed outs s'. drain tk prn ks s = Some (freed, outs, s') \<and> set freed = N \<and> distinct freed \<and> holds s' {} {}
    \<and> map (map fst) outs = map (\<lambda>i. sort (drop (Suc i) ks)) [0..<length ks]"
  using assms
proof (induction ks arbitrary: s N K)
  case (Cons k ks)
  then obtain n s1 where s1: "tk k s = Some (n, s1)" "n \<in> N" "holds s1 (N - {n}) (K - {k})" using take_ok [OF Cons.prems(1), of k] by auto
  obtain out where out: "prn s1 = Some out" "map fst out = sorted_list_of_set (K - {k})" using print_ok [OF s1(3)] by blast
  have K: "K - {k} = set ks" using Cons.prems by auto
  obtain freed outs s' where r: "drain tk prn ks s1 = Some (freed, outs, s')" "set freed = N - {n}" "distinct freed" "holds s' {} {}"
    "map (map fst) outs = map (\<lambda>i. sort (drop (Suc i) ks)) [0..<length ks]"
    using Cons.IH [OF s1(3)] Cons.prems s1(2) K by auto
  have "sorted_list_of_set (set ks) = sort ks" using Cons.prems(2) by (simp add: sorted_list_of_set_sort_remdups distinct_remdups_id)
  moreover have "map (\<lambda>i. sort (drop (Suc i) (k # ks))) [0..<length (k # ks)] = sort ks # map (\<lambda>i. sort (drop (Suc i) ks)) [0..<length ks]"
    by (simp add: upt_conv_Cons map_Suc_upt [symmetric] del: upt_Suc)
  ultimately show ?case using r s1 out K by (auto simp: insert_absorb)
qed simp

end

section \<open>The tree is such a store\<close>

definition rb_holds :: "addr \<Rightarrow> rbtree \<Rightarrow> addr set \<Rightarrow> int set \<Rightarrow> bool" where
  "rb_holds nl T N K \<longleftrightarrow> (\<exists>t. rb_ok T t \<and> rt_nil T = nl \<and> N = set_tree t \<and> K = ky T ` set_tree t)"

lemma rb_ok_cong:
  assumes "rb_ok T t" "same_links (set_tree t) T T'" "rt_root T' = rt_root T" "\<And>a. col T' a = col T a" "map (ky T') (inorder t) = map (ky T) (inorder t)"
  shows "rb_ok T' t"
  using assms rep_cong [OF assms(2)] colors_cong [of t T' T] by (simp only: rb_ok_def same_links_def)

lemma rb_ok_foreign:
  assumes "rb_ok T t" "n \<notin> set_tree t"
  shows "rb_ok (upd_node n (\<lambda>nd. nd\<lparr>rn_key := k, rn_value := v\<rparr>) T) t"
proof (rule rb_ok_cong [OF assms(1)])
  show "map (ky (upd_node n (\<lambda>nd. nd\<lparr>rn_key := k, rn_value := v\<rparr>) T)) (inorder t) = map (ky T) (inorder t)"
    using assms(2) by (intro map_cong) auto
qed (auto simp: same_links_def)

interpretation rb: key_store insert_key delete_key print_tree nl "rb_holds nl" for nl
proof
  fix T N K n k assume h: "rb_holds nl T N K" and n: "n \<notin> N" "n \<noteq> nl" and k: "k \<notin> K"
  let ?T = "upd_node n (\<lambda>nd. nd\<lparr>rn_key := k, rn_value := 0\<rparr>) T"
  obtain t where t: "rb_ok T t" "rt_nil T = nl" "N = set_tree t" "K = ky T ` set_tree t" using h by (auto simp: rb_holds_def)
  have ky: "ky ?T ` set_tree t = K" using n t by (auto simp: image_def)
  have ok: "rb_ok ?T t" by (rule rb_ok_foreign [OF t(1)]) (use n t in simp)
  obtain T' t' xs ys where r: "rbtree_insert n ?T = Some T'" "rb_ok T' t'" "rt_nil T' = rt_nil ?T" "\<forall>a. ky T' a = ky ?T a"
    "inorder t = xs @ ys" "inorder t' = xs @ n # ys"
    using insert_new [OF ok, of n] n k t ky by auto
  have "set_tree t' = insert n (set_tree t)" unfolding set_inorder [symmetric] r(5,6) by auto
  moreover have "ky T' ` insert n (set_tree t) = insert (ky ?T n) (ky ?T ` set_tree t)" using r(4) by (simp only: image_insert cong: image_cong)
  ultimately have "set_tree t' = insert n (set_tree t)" "ky T' ` set_tree t' = insert k K" using ky by simp_all
  then show "\<exists>s'. insert_key n k T = Some s' \<and> rb_holds nl s' (insert n N) (insert k K)"
    using r(1-3) t(2,3) unfolding insert_key_def rb_holds_def by (intro exI [of _ T'] conjI exI [of _ t']) simp_all
next
  fix T N K k assume h: "rb_holds nl T N K" and k: "k \<in> K"
  then obtain t where t: "rb_ok T t" "rt_nil T = nl" "N = set_tree t" "K = ky T ` set_tree t" by (auto simp: rb_holds_def)
  obtain z where z: "rbtree_search T k = Some z" "z \<in> set_tree t" "ky T z = k"
    using search_loop_ok [of T "rt_nil T" t "rt_root T" k] k t by (auto simp: rb_ok_def rbtree_search_def)
  obtain l r fs where p: "t = plug (Node l z r) fs" using find_position [OF z(2), of "[]"] by auto
  obtain y T' where d: "rbtree_delete z T = Some (y, T')" "removed T t z y T'"
    using delete_self [OF t(1) p] delete_successor [OF t(1) p] by blast
  obtain t' A B where r: "rb_ok T' t'" "rt_nil T' = rt_nil T" "y \<in> set_tree t" "set_tree t' = set_tree t - {y}"
    "map (entry T) (inorder t) = A @ entry T z # B" "map (entry T') (inorder t') = A @ B" using d(2) unfolding removed_def by blast
  have m: "ky U ` set_tree u = set (map fst (map (entry U) (inorder u)))" for U u by (simp add: entry_def image_image)
  have "distinct (map (ky T) (inorder t))" using t(1) by (simp add: rb_ok_def strict_sorted_iff)
  then have "distinct (map fst (A @ entry T z # B))" unfolding r(5) [symmetric] by (simp add: entry_def comp_def)
  then have "ky T' ` set_tree t' = K - {k}" unfolding t(4) m r(5,6) using z(3) by (auto simp: entry_def)
  then show "\<exists>n s'. delete_key k T = Some (n, s') \<and> n \<in> N \<and> rb_holds nl s' (N - {n}) (K - {k})"
    using z(1) d(1) r(1-4) t(2,3) unfolding delete_key_def rb_holds_def by (intro exI [of _ y] exI [of _ T'] conjI exI [of _ t']) simp_all
next
  fix T N K assume "rb_holds nl T N K"
  then obtain t where t: "rb_ok T t" "K = ky T ` set_tree t" by (auto simp: rb_holds_def)
  have "sorted_wrt (<) (map (ky T) (inorder t))" using t(1) by (simp add: rb_ok_def)
  moreover have "K = set (map (ky T) (inorder t))" using t(2) by simp
  ultimately have "sorted_list_of_set K = map (ky T) (inorder t)" by (metis sorted_list_of_set.idem_if_sorted_distinct strict_sorted_iff)
  then show "\<exists>out. print_tree T = Some out \<and> map fst out = sorted_list_of_set K"
    using traversal_ok [of T "rt_nil T" t "rt_root T"] t(1) by (simp add: rb_ok_def print_tree_def comp_def)
qed

section \<open>Property\<close>

text \<open>
  C23. The program on any array of distinct keys, with fresh nodes: the run ends, the first tree printed
  shows all keys in order and the tree printed after each deletion the keys that are left; every node is
  freed exactly once, and the tree is empty in the end.
\<close>

theorem rb_main_correct:
  assumes "distinct keys" "distinct nodes" "length nodes = length keys" "nl \<notin> set nodes"
  shows "\<exists>out freed outs T. rb_main True mem nl nodes keys = Some (Inr (out, freed, outs, T))
    \<and> map fst out = sort keys \<and> map (map fst) outs = map (\<lambda>i. sort (drop (Suc i) keys)) [0..<length keys]
    \<and> set freed = set nodes \<and> distinct freed \<and> rt_root T = nl"
proof -
  define T0 where "T0 = (set_color nl BLACK \<lparr>rt_root = 0, rt_nil = nl, rt_node = mem\<rparr>)\<lparr>rt_root := nl\<rparr>"
  have "rb_holds nl T0 {} {}" unfolding rb_holds_def by (intro exI [of _ Leaf]) (simp add: T0_def rb_ok_def)
  then obtain T1 where T1: "fill insert_key (zip nodes keys) T0 = Some T1" "rb_holds nl T1 (set nodes) (set keys)"
    using rb.fill_ok [of nl T0 "{}" "{}" nodes keys] assms by auto
  obtain out where out: "print_tree T1 = Some out" "map fst out = sorted_list_of_set (set keys)" using rb.print_ok [OF T1(2)] by blast
  obtain freed outs T where r: "drain delete_key print_tree keys T1 = Some (freed, outs, T)" "set freed = set nodes" "distinct freed"
    "rb_holds nl T {} {}" "map (map fst) outs = map (\<lambda>i. sort (drop (Suc i) keys)) [0..<length keys]"
    using rb.drain_ok [OF T1(2) assms(1)] assms distinct_card [OF assms(2)] by auto
  have "rt_root T = nl" using r(4) by (auto simp: rb_holds_def rb_ok_def)
  moreover have "sorted_list_of_set (set keys) = sort keys" using assms(1) by (simp add: sorted_list_of_set_sort_remdups distinct_remdups_id)
  ultimately show ?thesis using T1(1) out r by (simp add: rb_main_def T0_def [symmetric] del: upd_node_simps) (simp add: T0_def)
qed

theorem rb_main_correct_witness:
  "\<exists>out freed outs T. rb_main True (\<lambda>_. \<lparr>rn_color = RED, rn_right = 7, rn_left = 7, rn_parent = 7, rn_key = 7, rn_value = 7\<rparr>) 0 [1..<21] keyArray
      = Some (Inr (out, freed, outs, T))
    \<and> map fst out = [9,12,13,14,15,17,18,19,20,21,23,24,25,26,35,38,47,49,67,98] \<and> set freed = {1..<21} \<and> distinct freed \<and> rt_root T = 0"
proof -
  have "distinct keyArray" "length [1..<21::addr] = length keyArray"
    "sort keyArray = [9,12,13,14,15,17,18,19,20,21,23,24,25,26,35,38,47,49,67,98]" by (simp_all add: keyArray_def)
  then show ?thesis
    using rb_main_correct [of keyArray "[1..<21]" 0 "\<lambda>_. \<lparr>rn_color = RED, rn_right = 7, rn_left = 7, rn_parent = 7, rn_key = 7, rn_value = 7\<rparr>"]
    by auto
qed

end
