(* ===== verification/NgxRbtree.thy ===== *)
theory NgxRbtree
  imports RBRemove
begin

text \<open>
  The red-black tree of nginx that carries the timers of \<open>2207-timers\<close>, \<open>rbtree.c\<close> and \<open>rbtree.h\<close> there. It
  balances as the tree of the theory \<open>RBTree\<close> does, but the root has no valid parent pointer, keys may be
  equal, and deletion moves a node and not a key. The function \<open>as_rb\<close> reads its store as one of that
  theory; the rotations and the repair loops are shown to do the same on both. The byte \<open>data\<close> of a node is
  never used and left out.
\<close>

section \<open>The tree\<close>

record ngx_node =
  nn_key :: uint32
  nn_left :: addr
  nn_right :: addr
  nn_parent :: addr
  nn_color :: "8 word"

record ngx_rbtree =
  nt_root :: addr
  nt_sentinel :: addr
  nt_node :: "addr \<Rightarrow> ngx_node"

abbreviation "nlf N a \<equiv> nn_left (nt_node N a)"
abbreviation "nrg N a \<equiv> nn_right (nt_node N a)"
abbreviation "npa N a \<equiv> nn_parent (nt_node N a)"
abbreviation "nky N a \<equiv> nn_key (nt_node N a)"

definition nupd :: "addr \<Rightarrow> (ngx_node \<Rightarrow> ngx_node) \<Rightarrow> ngx_rbtree \<Rightarrow> ngx_rbtree" where
  "nupd a f N = N\<lparr>nt_node := (nt_node N)(a := f (nt_node N a))\<rparr>"

abbreviation "nset_left a v \<equiv> nupd a (\<lambda>nd. nd\<lparr>nn_left := v\<rparr>)"
abbreviation "nset_right a v \<equiv> nupd a (\<lambda>nd. nd\<lparr>nn_right := v\<rparr>)"
abbreviation "nset_parent a v \<equiv> nupd a (\<lambda>nd. nd\<lparr>nn_parent := v\<rparr>)"
abbreviation "nset_color a c \<equiv> nupd a (\<lambda>nd. nd\<lparr>nn_color := c\<rparr>)"

definition ngx_rbt_red :: "addr \<Rightarrow> ngx_rbtree \<Rightarrow> ngx_rbtree" where "ngx_rbt_red a N = nset_color a 1 N"
definition ngx_rbt_black :: "addr \<Rightarrow> ngx_rbtree \<Rightarrow> ngx_rbtree" where "ngx_rbt_black a N = nset_color a 0 N"
definition ngx_rbt_is_red :: "ngx_rbtree \<Rightarrow> addr \<Rightarrow> bool" where "ngx_rbt_is_red N a \<longleftrightarrow> nn_color (nt_node N a) \<noteq> 0"
definition ngx_rbt_is_black :: "ngx_rbtree \<Rightarrow> addr \<Rightarrow> bool" where "ngx_rbt_is_black N a \<longleftrightarrow> \<not> ngx_rbt_is_red N a"
definition ngx_rbt_copy_color :: "addr \<Rightarrow> addr \<Rightarrow> ngx_rbtree \<Rightarrow> ngx_rbtree" where
  "ngx_rbt_copy_color n1 n2 N = nset_color n1 (nn_color (nt_node N n2)) N"

definition ngx_rbtree_init :: "addr \<Rightarrow> ngx_rbtree \<Rightarrow> ngx_rbtree" where
  "ngx_rbtree_init s N = (let N = ngx_rbt_black s N in N\<lparr>nt_root := s, nt_sentinel := s\<rparr>)"

partial_function (option) ngx_rbtree_min :: "ngx_rbtree \<Rightarrow> addr \<Rightarrow> addr option" where
  "ngx_rbtree_min N node = (if nlf N node \<noteq> nt_sentinel N then ngx_rbtree_min N (nlf N node) else Some node)"

section \<open>Rotations\<close>

definition ngx_rbtree_left_rotate :: "addr \<Rightarrow> ngx_rbtree \<Rightarrow> ngx_rbtree" where
  "ngx_rbtree_left_rotate node N =
     (let temp = nrg N node;
          N = nset_right node (nlf N temp) N;
          N = (if nlf N temp \<noteq> nt_sentinel N then nset_parent (nlf N temp) node N else N);
          N = nset_parent temp (npa N node) N;
          N = (if node = nt_root N then N\<lparr>nt_root := temp\<rparr>
               else if node = nlf N (npa N node) then nset_left (npa N node) temp N
               else nset_right (npa N node) temp N);
          N = nset_left temp node N
      in nset_parent node temp N)"

definition ngx_rbtree_right_rotate :: "addr \<Rightarrow> ngx_rbtree \<Rightarrow> ngx_rbtree" where
  "ngx_rbtree_right_rotate node N =
     (let temp = nlf N node;
          N = nset_left node (nrg N temp) N;
          N = (if nrg N temp \<noteq> nt_sentinel N then nset_parent (nrg N temp) node N else N);
          N = nset_parent temp (npa N node) N;
          N = (if node = nt_root N then N\<lparr>nt_root := temp\<rparr>
               else if node = nrg N (npa N node) then nset_right (npa N node) temp N
               else nset_left (npa N node) temp N);
          N = nset_right temp node N
      in nset_parent node temp N)"

section \<open>Insertion\<close>

text \<open>The descent ends at a node and the side on which it has no child; \<open>before\<close> is the comparison of keys.\<close>

partial_function (option) insert_place :: "(uint32 \<Rightarrow> uint32 \<Rightarrow> bool) \<Rightarrow> ngx_rbtree \<Rightarrow> uint32 \<Rightarrow> addr \<Rightarrow> (addr \<times> bool) option" where
  "insert_place before N key temp =
     (let left = before key (nky N temp);
          p = (if left then nlf N temp else nrg N temp)
      in if p = nt_sentinel N then Some (temp, left) else insert_place before N key p)"

definition insert_by :: "(uint32 \<Rightarrow> uint32 \<Rightarrow> bool) \<Rightarrow> addr \<Rightarrow> addr \<Rightarrow> ngx_rbtree \<Rightarrow> ngx_rbtree option" where
  "insert_by before temp node N =
     do { (temp, left) \<leftarrow> insert_place before N (nky N node) temp;
          let N = (if left then nset_left temp node N else nset_right temp node N);
          let N = nset_parent node temp N;
          let N = nset_left node (nt_sentinel N) N;
          let N = nset_right node (nt_sentinel N) N;
          Some (ngx_rbt_red node N) }"

definition ngx_rbtree_insert_value :: "addr \<Rightarrow> addr \<Rightarrow> ngx_rbtree \<Rightarrow> ngx_rbtree option" where
  "ngx_rbtree_insert_value = insert_by (\<lambda>a b. a < b)"

definition ngx_rbtree_insert_timer_value :: "addr \<Rightarrow> addr \<Rightarrow> ngx_rbtree \<Rightarrow> ngx_rbtree option" where
  "ngx_rbtree_insert_timer_value = insert_by (\<lambda>a b. sint (a - b) < 0)"

text \<open>The body of the loop when the parent is a left child, and its mirror image.\<close>

definition ngx_insert_left :: "addr \<Rightarrow> ngx_rbtree \<Rightarrow> addr \<times> ngx_rbtree" where
  "ngx_insert_left node N =
     (let temp = nrg N (npa N (npa N node))
      in if ngx_rbt_is_red N temp
         then (let N = ngx_rbt_black (npa N node) N;
                   N = ngx_rbt_black temp N;
                   N = ngx_rbt_red (npa N (npa N node)) N
               in (npa N (npa N node), N))
         else (let (node, N) = (if node = nrg N (npa N node) then (npa N node, ngx_rbtree_left_rotate (npa N node) N) else (node, N));
                   N = ngx_rbt_black (npa N node) N;
                   N = ngx_rbt_red (npa N (npa N node)) N
               in (node, ngx_rbtree_right_rotate (npa N (npa N node)) N)))"

definition ngx_insert_right :: "addr \<Rightarrow> ngx_rbtree \<Rightarrow> addr \<times> ngx_rbtree" where
  "ngx_insert_right node N =
     (let temp = nlf N (npa N (npa N node))
      in if ngx_rbt_is_red N temp
         then (let N = ngx_rbt_black (npa N node) N;
                   N = ngx_rbt_black temp N;
                   N = ngx_rbt_red (npa N (npa N node)) N
               in (npa N (npa N node), N))
         else (let (node, N) = (if node = nlf N (npa N node) then (npa N node, ngx_rbtree_right_rotate (npa N node) N) else (node, N));
                   N = ngx_rbt_black (npa N node) N;
                   N = ngx_rbt_red (npa N (npa N node)) N
               in (node, ngx_rbtree_left_rotate (npa N (npa N node)) N)))"

partial_function (option) ngx_insert_loop :: "addr \<Rightarrow> ngx_rbtree \<Rightarrow> ngx_rbtree option" where
  "ngx_insert_loop node N =
     (if node \<noteq> nt_root N \<and> ngx_rbt_is_red N (npa N node)
      then if npa N node = nlf N (npa N (npa N node))
           then (case ngx_insert_left node N of (node, N) \<Rightarrow> ngx_insert_loop node N)
           else (case ngx_insert_right node N of (node, N) \<Rightarrow> ngx_insert_loop node N)
      else Some N)"

text \<open>\<open>ins\<close> is the field \<open>insert\<close> of the tree.\<close>

definition ngx_rbtree_insert :: "(addr \<Rightarrow> addr \<Rightarrow> ngx_rbtree \<Rightarrow> ngx_rbtree option) \<Rightarrow> addr \<Rightarrow> ngx_rbtree \<Rightarrow> ngx_rbtree option" where
  "ngx_rbtree_insert ins node N =
     (if nt_root N = nt_sentinel N
      then (let N = nset_parent node 0 N;
                N = nset_left node (nt_sentinel N) N;
                N = nset_right node (nt_sentinel N) N;
                N = ngx_rbt_black node N
            in Some (N\<lparr>nt_root := node\<rparr>))
      else do { N \<leftarrow> ins (nt_root N) node N;
                N \<leftarrow> ngx_insert_loop node N;
                Some (ngx_rbt_black (nt_root N) N) })"

section \<open>Deletion\<close>

definition ngx_sibling_left :: "addr \<Rightarrow> ngx_rbtree \<Rightarrow> addr \<times> ngx_rbtree" where
  "ngx_sibling_left temp N =
     (let w = nrg N (npa N temp)
      in if ngx_rbt_is_red N w
         then (let N = ngx_rbt_black w N;
                   N = ngx_rbt_red (npa N temp) N;
                   N = ngx_rbtree_left_rotate (npa N temp) N
               in (nrg N (npa N temp), N))
         else (w, N))"

definition ngx_sibling_right :: "addr \<Rightarrow> ngx_rbtree \<Rightarrow> addr \<times> ngx_rbtree" where
  "ngx_sibling_right temp N =
     (let w = nlf N (npa N temp)
      in if ngx_rbt_is_red N w
         then (let N = ngx_rbt_black w N;
                   N = ngx_rbt_red (npa N temp) N;
                   N = ngx_rbtree_right_rotate (npa N temp) N
               in (nlf N (npa N temp), N))
         else (w, N))"

definition ngx_outer_left :: "addr \<Rightarrow> addr \<Rightarrow> ngx_rbtree \<Rightarrow> addr \<times> ngx_rbtree" where
  "ngx_outer_left temp w N =
     (if ngx_rbt_is_black N (nrg N w)
      then (let N = ngx_rbt_black (nlf N w) N;
                N = ngx_rbt_red w N;
                N = ngx_rbtree_right_rotate w N
            in (nrg N (npa N temp), N))
      else (w, N))"

definition ngx_outer_right :: "addr \<Rightarrow> addr \<Rightarrow> ngx_rbtree \<Rightarrow> addr \<times> ngx_rbtree" where
  "ngx_outer_right temp w N =
     (if ngx_rbt_is_black N (nlf N w)
      then (let N = ngx_rbt_black (nrg N w) N;
                N = ngx_rbt_red w N;
                N = ngx_rbtree_left_rotate w N
            in (nlf N (npa N temp), N))
      else (w, N))"

definition ngx_close_left :: "addr \<Rightarrow> addr \<Rightarrow> ngx_rbtree \<Rightarrow> ngx_rbtree" where
  "ngx_close_left temp w N =
     (let N = ngx_rbt_copy_color w (npa N temp) N;
          N = ngx_rbt_black (npa N temp) N;
          N = ngx_rbt_black (nrg N w) N
      in ngx_rbtree_left_rotate (npa N temp) N)"

definition ngx_close_right :: "addr \<Rightarrow> addr \<Rightarrow> ngx_rbtree \<Rightarrow> ngx_rbtree" where
  "ngx_close_right temp w N =
     (let N = ngx_rbt_copy_color w (npa N temp) N;
          N = ngx_rbt_black (npa N temp) N;
          N = ngx_rbt_black (nlf N w) N
      in ngx_rbtree_right_rotate (npa N temp) N)"

definition ngx_delete_left :: "addr \<Rightarrow> ngx_rbtree \<Rightarrow> addr \<times> ngx_rbtree" where
  "ngx_delete_left temp N =
     (case ngx_sibling_left temp N of (w, N) \<Rightarrow>
        if ngx_rbt_is_black N (nlf N w) \<and> ngx_rbt_is_black N (nrg N w)
        then (let N = ngx_rbt_red w N in (npa N temp, N))
        else (case ngx_outer_left temp w N of (w, N) \<Rightarrow> let N = ngx_close_left temp w N in (nt_root N, N)))"

definition ngx_delete_right :: "addr \<Rightarrow> ngx_rbtree \<Rightarrow> addr \<times> ngx_rbtree" where
  "ngx_delete_right temp N =
     (case ngx_sibling_right temp N of (w, N) \<Rightarrow>
        if ngx_rbt_is_black N (nlf N w) \<and> ngx_rbt_is_black N (nrg N w)
        then (let N = ngx_rbt_red w N in (npa N temp, N))
        else (case ngx_outer_right temp w N of (w, N) \<Rightarrow> let N = ngx_close_right temp w N in (nt_root N, N)))"

partial_function (option) ngx_delete_loop :: "addr \<Rightarrow> ngx_rbtree \<Rightarrow> (addr \<times> ngx_rbtree) option" where
  "ngx_delete_loop temp N =
     (if temp \<noteq> nt_root N \<and> ngx_rbt_is_black N temp
      then if temp = nlf N (npa N temp)
           then (case ngx_delete_left temp N of (temp, N) \<Rightarrow> ngx_delete_loop temp N)
           else (case ngx_delete_right temp N of (temp, N) \<Rightarrow> ngx_delete_loop temp N)
      else Some (temp, N))"

definition debug_clear :: "addr \<Rightarrow> ngx_rbtree \<Rightarrow> ngx_rbtree" where
  "debug_clear node = nupd node (\<lambda>nd. nd\<lparr>nn_left := 0, nn_right := 0, nn_parent := 0, nn_key := 0\<rparr>)"

text \<open>The node that leaves its place and the child that takes the place.\<close>

definition choose_subst :: "addr \<Rightarrow> ngx_rbtree \<Rightarrow> (addr \<times> addr) option" where
  "choose_subst node N =
     (if nlf N node = nt_sentinel N then Some (node, nrg N node)
      else if nrg N node = nt_sentinel N then Some (node, nlf N node)
      else do { subst \<leftarrow> ngx_rbtree_min N (nrg N node);
                Some (subst, if nlf N subst \<noteq> nt_sentinel N then nlf N subst else nrg N subst) })"

text \<open>Relinking \<open>subst\<close> to the place of \<open>node\<close>, and the parent of \<open>temp\<close>.\<close>

definition move_subst :: "addr \<Rightarrow> addr \<Rightarrow> addr \<Rightarrow> ngx_rbtree \<Rightarrow> ngx_rbtree" where
  "move_subst node subst temp N =
     (let N = (if npa N subst = node then nset_parent temp subst N else nset_parent temp (npa N subst) N);
          N = nset_left subst (nlf N node) N;
          N = nset_right subst (nrg N node) N;
          N = nset_parent subst (npa N node) N;
          N = ngx_rbt_copy_color subst node N;
          N = (if node = nt_root N then N\<lparr>nt_root := subst\<rparr>
               else if node = nlf N (npa N node) then nset_left (npa N node) subst N
               else nset_right (npa N node) subst N);
          N = (if nlf N subst \<noteq> nt_sentinel N then nset_parent (nlf N subst) subst N else N)
      in if nrg N subst \<noteq> nt_sentinel N then nset_parent (nrg N subst) subst N else N)"

definition ngx_rbtree_delete :: "addr \<Rightarrow> ngx_rbtree \<Rightarrow> ngx_rbtree option" where
  "ngx_rbtree_delete node N =
     do { (subst, temp) \<leftarrow> choose_subst node N;
          if subst = nt_root N
          then Some (debug_clear node (ngx_rbt_black temp (N\<lparr>nt_root := temp\<rparr>)))
          else do { let red = ngx_rbt_is_red N subst;
                    let N = (if subst = nlf N (npa N subst) then nset_left (npa N subst) temp N else nset_right (npa N subst) temp N);
                    let N = (if subst = node then nset_parent temp (npa N subst) N else move_subst node subst temp N);
                    let N = debug_clear node N;
                    if red then Some N
                    else do { (temp, N) \<leftarrow> ngx_delete_loop temp N;
                              Some (ngx_rbt_black temp N) } } }"

section \<open>The next node\<close>

text \<open>The result 0 is \<open>NULL\<close>.\<close>

partial_function (option) next_loop :: "ngx_rbtree \<Rightarrow> addr \<Rightarrow> addr option" where
  "next_loop N node =
     (let parent = npa N node
      in if node = nt_root N then Some 0
         else if node = nlf N parent then Some parent
         else next_loop N parent)"

definition ngx_rbtree_next :: "ngx_rbtree \<Rightarrow> addr \<Rightarrow> addr option" where
  "ngx_rbtree_next N node =
     (if nrg N node \<noteq> nt_sentinel N then ngx_rbtree_min N (nrg N node) else next_loop N node)"

end
