(* ===== verification/NgxBalance.thy ===== *)
theory NgxBalance
  imports NgxRbtree
begin

text \<open>
  The rotations and repair loops of the nginx tree do what those of \<open>rbtree.c\<close> do on the store read by
  \<open>as_rb\<close>; so they end, and restore colours and heights, by the theorems about that tree.
\<close>

section \<open>Reading the store\<close>

text \<open>The parent of the root is shown as the sentinel, whatever is stored.\<close>

definition as_rb :: "ngx_rbtree \<Rightarrow> rbtree" where
  "as_rb N = \<lparr>rt_root = nt_root N, rt_nil = nt_sentinel N, rt_node = (\<lambda>a. \<lparr>rn_color = (if ngx_rbt_is_red N a then RED else BLACK),
      rn_right = nrg N a, rn_left = nlf N a, rn_parent = (if a = nt_root N then nt_sentinel N else npa N a),
      rn_key = uint (nky N a), rn_value = 0\<rparr>)\<rparr>"

lemma as_rb_simps [simp]:
  "rt_root (as_rb N) = nt_root N" "rt_nil (as_rb N) = nt_sentinel N" "lf (as_rb N) a = nlf N a" "rg (as_rb N) a = nrg N a"
  "pa (as_rb N) a = (if a = nt_root N then nt_sentinel N else npa N a)" "ky (as_rb N) a = uint (nky N a)"
  "col (as_rb N) a = (if ngx_rbt_is_red N a then RED else BLACK)" "rn_value (rt_node (as_rb N) a) = 0"
  by (simp_all add: as_rb_def)

lemma rb_eqI:
  assumes "rt_root T = rt_root T'" "rt_nil T = rt_nil T'" "\<And>n. lf T n = lf T' n" "\<And>n. rg T n = rg T' n" "\<And>n. pa T n = pa T' n"
    "\<And>n. col T n = col T' n" "\<And>n. ky T n = ky T' n" "\<And>n. rn_value (rt_node T n) = rn_value (rt_node T' n)"
  shows "T = (T' :: rbtree)"
  using assms by (intro rbtree.equality) (auto simp: fun_eq_iff intro!: rb_node.equality)

lemma nupd_simps [simp]:
  "nt_node (nupd a f N) = (nt_node N)(a := f (nt_node N a))" "nt_root (nupd a f N) = nt_root N" "nt_sentinel (nupd a f N) = nt_sentinel N"
  by (simp_all add: nupd_def)

lemma paint_simps [simp]:
  "nlf (ngx_rbt_red a N) n = nlf N n" "nrg (ngx_rbt_red a N) n = nrg N n" "npa (ngx_rbt_red a N) n = npa N n" "nt_root (ngx_rbt_red a N) = nt_root N"
  "nlf (ngx_rbt_black a N) n = nlf N n" "nrg (ngx_rbt_black a N) n = nrg N n" "npa (ngx_rbt_black a N) n = npa N n" "nt_root (ngx_rbt_black a N) = nt_root N"
  "nlf (ngx_rbt_copy_color a b N) n = nlf N n" "nrg (ngx_rbt_copy_color a b N) n = nrg N n" "npa (ngx_rbt_copy_color a b N) n = npa N n"
  "nt_root (ngx_rbt_copy_color a b N) = nt_root N" "nt_sentinel (ngx_rbt_red a N) = nt_sentinel N" "nt_sentinel (ngx_rbt_black a N) = nt_sentinel N"
  "nt_sentinel (ngx_rbt_copy_color a b N) = nt_sentinel N"
  by (simp_all add: ngx_rbt_red_def ngx_rbt_black_def ngx_rbt_copy_color_def)

lemma as_rb_paint:
  "as_rb (ngx_rbt_red a N) = set_color a RED (as_rb N)" "as_rb (ngx_rbt_black a N) = set_color a BLACK (as_rb N)"
  "as_rb (ngx_rbt_copy_color a b N) = set_color a (col (as_rb N) b) (as_rb N)"
  by (rule rb_eqI; simp add: ngx_rbt_red_def ngx_rbt_black_def ngx_rbt_copy_color_def ngx_rbt_is_red_def)+

text \<open>A node that is not the root has its parent stored.\<close>

lemma raw_pa: "at_pos (as_rb N) (Node l x r) fs x \<Longrightarrow> fs \<noteq> [] \<Longrightarrow> npa N x = above (as_rb N) fs \<and> x \<noteq> nt_root N"
  using at_pos_root [of "as_rb N" "Node l x r" fs x] by (auto simp: at_pos_def)

section \<open>The mirror image\<close>

definition nflip :: "ngx_rbtree \<Rightarrow> ngx_rbtree" where
  "nflip N = N\<lparr>nt_node := (\<lambda>a. (nt_node N a)\<lparr>nn_left := nrg N a, nn_right := nlf N a\<rparr>)\<rparr>"

lemma nflip_simps [simp]:
  "nlf (nflip N) a = nrg N a" "nrg (nflip N) a = nlf N a" "npa (nflip N) a = npa N a" "nn_color (nt_node (nflip N) a) = nn_color (nt_node N a)"
  "nky (nflip N) a = nky N a" "nt_root (nflip N) = nt_root N" "nt_sentinel (nflip N) = nt_sentinel N"
  "ngx_rbt_is_red (nflip N) a = ngx_rbt_is_red N a" "ngx_rbt_is_black (nflip N) a = ngx_rbt_is_black N a"
  by (simp_all add: nflip_def ngx_rbt_is_red_def ngx_rbt_is_black_def)

lemma nflip_nflip [simp]: "nflip (nflip N) = N"
  by (simp add: nflip_def)

lemma as_rb_flip: "as_rb (nflip N) = flip (as_rb N)"
  by (rule rb_eqI) (simp_all add: flip_def)

lemma nset_flip:
  "ngx_rbt_red a (nflip N) = nflip (ngx_rbt_red a N)" "ngx_rbt_black a (nflip N) = nflip (ngx_rbt_black a N)"
  "ngx_rbt_copy_color a b (nflip N) = nflip (ngx_rbt_copy_color a b N)" "nset_parent a v (nflip N) = nflip (nset_parent a v N)"
  "nset_left a v (nflip N) = nflip (nset_right a v N)" "nset_right a v (nflip N) = nflip (nset_left a v N)"
  "(nflip N)\<lparr>nt_root := v\<rparr> = nflip (N\<lparr>nt_root := v\<rparr>)"
  by (auto simp: nflip_def nupd_def fun_eq_iff ngx_rbt_red_def ngx_rbt_black_def ngx_rbt_copy_color_def)

lemma nrotate_flip: "ngx_rbtree_left_rotate x (nflip N) = nflip (ngx_rbtree_right_rotate x N)"
  "ngx_rbtree_right_rotate x (nflip N) = nflip (ngx_rbtree_left_rotate x N)"
  unfolding ngx_rbtree_left_rotate_def ngx_rbtree_right_rotate_def Let_def
  by (simp_all only: nflip_simps nset_flip if_distrib [of nflip, symmetric] nupd_simps(3))

section \<open>Rotations\<close>

lemma ngx_left_rotate_fields:
  assumes y: "nrg N x = y" and b: "nlf N y = b" and q: "npa N x = q"
    and neq: "x \<noteq> y" "x \<noteq> b" "y \<noteq> b" "x = nt_root N \<or> q \<noteq> x \<and> q \<noteq> y"
    and N': "N' = ngx_rbtree_left_rotate x N"
  shows "nlf N' n = (if n = y then x else if n = q \<and> x \<noteq> nt_root N \<and> x = nlf N q then y else nlf N n)"
    "nrg N' n = (if n = x then b else if n = q \<and> x \<noteq> nt_root N \<and> x \<noteq> nlf N q then y else nrg N n)"
    "npa N' n = (if n = x then y else if n = y then q else if n = b \<and> b \<noteq> nt_sentinel N then x else npa N n)"
    "nt_root N' = (if x = nt_root N then y else nt_root N)" "nt_sentinel N' = nt_sentinel N"
    "nn_color (nt_node N' n) = nn_color (nt_node N n)" "nky N' n = nky N n"
proof -
  define N1 where "N1 = nset_right x b N"
  define N2 where "N2 = (if b \<noteq> nt_sentinel N then nset_parent b x N1 else N1)"
  define N3 where "N3 = nset_parent y q N2"
  define N4 where "N4 = (if x = nt_root N then N3\<lparr>nt_root := y\<rparr> else if x = nlf N q then nset_left q y N3 else nset_right q y N3)"
  define N5 where "N5 = nset_left y x N4"
  have f1: "nlf N1 m = nlf N m" "nrg N1 m = (if m = x then b else nrg N m)" "npa N1 m = npa N m" "nt_root N1 = nt_root N" "nt_sentinel N1 = nt_sentinel N"
    "nn_color (nt_node N1 m) = nn_color (nt_node N m)" "nky N1 m = nky N m" for m
    by (simp_all add: N1_def)
  have f2: "nlf N2 m = nlf N m" "nrg N2 m = nrg N1 m" "npa N2 m = (if m = b \<and> b \<noteq> nt_sentinel N then x else npa N m)" "nt_root N2 = nt_root N"
    "nt_sentinel N2 = nt_sentinel N" "nn_color (nt_node N2 m) = nn_color (nt_node N m)" "nky N2 m = nky N m" for m
    by (simp_all add: N2_def f1)
  have f3: "nlf N3 m = nlf N m" "nrg N3 m = nrg N1 m" "npa N3 m = (if m = y then q else npa N2 m)" "nt_root N3 = nt_root N" "nt_sentinel N3 = nt_sentinel N"
    "nn_color (nt_node N3 m) = nn_color (nt_node N m)" "nky N3 m = nky N m" for m
    by (simp_all add: N3_def f2)
  have f4: "nlf N4 m = (if m = q \<and> x \<noteq> nt_root N \<and> x = nlf N q then y else nlf N m)"
    "nrg N4 m = (if m = q \<and> x \<noteq> nt_root N \<and> x \<noteq> nlf N q then y else nrg N1 m)" "npa N4 m = npa N3 m"
    "nt_root N4 = (if x = nt_root N then y else nt_root N)" "nt_sentinel N4 = nt_sentinel N"
    "nn_color (nt_node N4 m) = nn_color (nt_node N m)" "nky N4 m = nky N m" for m
    by (simp_all add: N4_def f3)
  have e2: "(if nlf N1 y \<noteq> nt_sentinel N1 then nset_parent (nlf N1 y) x N1 else N1) = N2" by (simp add: N2_def f1 b)
  have "npa N2 x = q" using neq by (simp add: f2 q)
  then have e3: "nset_parent y (npa N2 x) N2 = N3" by (simp add: N3_def)
  have p3: "npa N3 x = q" using neq by (simp add: f3 f2 q)
  have e4: "(if x = nt_root N3 then N3\<lparr>nt_root := y\<rparr> else if x = nlf N3 (npa N3 x) then nset_left (npa N3 x) y N3
      else nset_right (npa N3 x) y N3) = N4" by (simp only: N4_def p3 f3(1,4))
  have "N' = nset_parent x y N5"
    unfolding N' ngx_rbtree_left_rotate_def Let_def y b by (simp only: N1_def [symmetric] e2 e3 e4 N5_def [symmetric])
  then show "nlf N' n = (if n = y then x else if n = q \<and> x \<noteq> nt_root N \<and> x = nlf N q then y else nlf N n)"
    "nrg N' n = (if n = x then b else if n = q \<and> x \<noteq> nt_root N \<and> x \<noteq> nlf N q then y else nrg N n)"
    "npa N' n = (if n = x then y else if n = y then q else if n = b \<and> b \<noteq> nt_sentinel N then x else npa N n)"
    "nt_root N' = (if x = nt_root N then y else nt_root N)" "nt_sentinel N' = nt_sentinel N"
    "nn_color (nt_node N' n) = nn_color (nt_node N n)" "nky N' n = nky N n"
    using neq by (auto simp: N5_def f4 f3 f2 f1)
qed

lemma ngx_left_rotate_sim:
  assumes at: "at_pos (as_rb N) (Node a x (Node b y c)) fs p"
  shows "as_rb (ngx_rbtree_left_rotate x N) = rbtree_left_rotate x (as_rb N)"
proof -
  define T where "T = as_rb N"
  have r: "x \<noteq> nt_sentinel N" "pa T x = above T fs" "nrg N x = y" "y \<noteq> nt_sentinel N" "rep T y b (nlf N y)" "repc T fs x"
    and d: "distinct (inorder a @ x # inorder b @ y # inorder c @ clist fs)"
    using at by (auto simp: at_pos_def T_def)
  have ab: "above T fs = rt_nil T \<or> above T fs \<in> set (clist fs)" by (rule above_in)
  have bb: "nlf N y = nt_sentinel N \<or> nlf N y \<in> set_tree b" using rep_root [OF r(5)] by (simp add: T_def)
  have "p = x" using at by (simp add: at_pos_def)
  then have root: "x = nt_root N \<longleftrightarrow> fs = []" using at_pos_root [OF at] by simp
  have nil: "above T fs = nt_sentinel N \<longleftrightarrow> fs = []" using above_nil [OF r(6)] by (simp add: T_def)
  have yr: "y \<noteq> nt_root N" "nlf N y \<noteq> nt_root N"
  proof -
    have "nt_root N = x \<or> nt_root N \<in> set (clist fs)" using root root_in_clist [OF r(6)] by (auto simp: T_def)
    then show "y \<noteq> nt_root N" "nlf N y \<noteq> nt_root N" using d bb nil_notin_c [OF r(6)] r(1) by (auto simp: T_def)
  qed
  have neq: "x \<noteq> y" "x \<noteq> nlf N y" "y \<noteq> nlf N y" "above T fs \<noteq> x" "above T fs \<noteq> y" "above T fs \<noteq> nlf N y \<or> above T fs = nt_sentinel N"
    using d r(1,4) ab bb by (auto simp: T_def)
  have q: "x \<noteq> nt_root N \<Longrightarrow> npa N x = above T fs" using r(2) by (simp add: T_def)
  have q': "x = nt_root N \<or> npa N x \<noteq> x \<and> npa N x \<noteq> y" using q neq by auto
  note g = left_rotate_fields [of T x y "nlf N y" "above T fs", OF _ _ r(2) neq(1-5) _ refl]
  note f = ngx_left_rotate_fields [OF r(3) refl refl neq(1-3) q' refl]
  show ?thesis
  proof (rule rb_eqI)
    have G: "rg T x = y" "lf T y = nlf N y" "above T fs \<noteq> nlf N y \<or> above T fs = rt_nil T" using r(3) neq(6) by (simp_all add: T_def)
    note g = g [OF G]
    show "rt_root (as_rb (ngx_rbtree_left_rotate x N)) = rt_root (rbtree_left_rotate x (as_rb N))"
      "rt_nil (as_rb (ngx_rbtree_left_rotate x N)) = rt_nil (rbtree_left_rotate x (as_rb N))"
      using g(4,5) f(4,5) root nil by (simp_all add: T_def)
    fix n
    show "lf (as_rb (ngx_rbtree_left_rotate x N)) n = lf (rbtree_left_rotate x (as_rb N)) n"
      using g(1) [of n] f(1) [of n] root nil q by (auto simp: T_def)
    show "rg (as_rb (ngx_rbtree_left_rotate x N)) n = rg (rbtree_left_rotate x (as_rb N)) n"
      using g(2) [of n] f(2) [of n] root nil q by (auto simp: T_def)
    show "pa (as_rb (ngx_rbtree_left_rotate x N)) n = pa (rbtree_left_rotate x (as_rb N)) n"
      using g(3) [of n] f(3) [of n] f(4,5) root nil q yr neq by (auto simp: T_def)
    show "col (as_rb (ngx_rbtree_left_rotate x N)) n = col (rbtree_left_rotate x (as_rb N)) n"
      using g(6) [of n] f(6) [of n] by (simp add: T_def ngx_rbt_is_red_def)
    show "ky (as_rb (ngx_rbtree_left_rotate x N)) n = ky (rbtree_left_rotate x (as_rb N)) n"
      using g(7) [of n] f(7) [of n] by (simp add: T_def)
    show "rn_value (rt_node (as_rb (ngx_rbtree_left_rotate x N)) n) = rn_value (rt_node (rbtree_left_rotate x (as_rb N)) n)"
      by (simp add: rotate_value)
  qed
qed

lemma ngx_right_rotate_sim:
  assumes at: "at_pos (as_rb N) (Node (Node a x b) y c) fs p"
  shows "as_rb (ngx_rbtree_right_rotate y N) = rbtree_right_rotate y (as_rb N)"
proof -
  have "at_pos (as_rb (nflip N)) (Node (mirror c) y (Node (mirror b) x (mirror a))) (map flip_frame fs) p"
    using at_pos_flip [OF at] by (simp add: as_rb_flip)
  from ngx_left_rotate_sim [OF this] show ?thesis by (simp add: as_rb_flip nrotate_flip rotate_flip) (metis flip_flip)
qed

end
