(* ===== verification/NgxInsert.thy ===== *)
theory NgxInsert
  imports NgxBalance
begin

text \<open>
  Insertion into the nginx tree: the repair loop follows that of \<open>rbtree.c\<close>, the descent puts the node
  behind the nodes with keys not greater, and the tree stays a red-black search tree.
\<close>

section \<open>One iteration\<close>

text \<open>The body of the loop of \<open>rbtree.c\<close>.\<close>

definition ins_left :: "addr \<Rightarrow> rbtree \<Rightarrow> addr \<times> rbtree" where
  "ins_left z T =
     (let y = rg T (pa T (pa T z))
      in if col T y = RED
         then (let T' = set_color (pa T z) BLACK T; T' = set_color y BLACK T'; T' = set_color (pa T' (pa T' z)) RED T'
               in (pa T' (pa T' z), T'))
         else (let (z, T) = (if z = rg T (pa T z) then (pa T z, rbtree_left_rotate (pa T z) T) else (z, T));
                   T = set_color (pa T z) BLACK T;
                   T = set_color (pa T (pa T z)) RED T
               in (z, rbtree_right_rotate (pa T (pa T z)) T)))"

definition ins_right :: "addr \<Rightarrow> rbtree \<Rightarrow> addr \<times> rbtree" where
  "ins_right z T =
     (let y = lf T (pa T (pa T z))
      in if col T y = RED
         then (let T' = set_color (pa T z) BLACK T; T' = set_color y BLACK T'; T' = set_color (pa T' (pa T' z)) RED T'
               in (pa T' (pa T' z), T'))
         else (let (z, T) = (if z = lf T (pa T z) then (pa T z, rbtree_right_rotate (pa T z) T) else (z, T));
                   T = set_color (pa T z) BLACK T;
                   T = set_color (pa T (pa T z)) RED T
               in (z, rbtree_left_rotate (pa T (pa T z)) T)))"

lemma insert_loop_left: "col T (pa T z) = RED \<Longrightarrow> pa T z = lf T (pa T (pa T z)) \<Longrightarrow>
    insert_fixup_loop z T = (case ins_left z T of (z, T) \<Rightarrow> insert_fixup_loop z T)"
  by (subst insert_fixup_loop.simps) (simp add: ins_left_def Let_def del: upd_node_simps split: prod.split)

lemma insert_loop_right: "col T (pa T z) = RED \<Longrightarrow> pa T z \<noteq> lf T (pa T (pa T z)) \<Longrightarrow>
    insert_fixup_loop z T = (case ins_right z T of (z, T) \<Rightarrow> insert_fixup_loop z T)"
  by (subst insert_fixup_loop.simps) (simp add: ins_right_def Let_def del: upd_node_simps split: prod.split)

lemma ins_flip: "ins_left z (flip T) = (case ins_right z T of (z, T) \<Rightarrow> (z, flip T))"
  by (simp add: ins_left_def ins_right_def Let_def set_flip rotate_flip links_color del: upd_node_simps(1))

lemma ngx_ins_flip: "ngx_insert_left z (nflip N) = (case ngx_insert_right z N of (z, N) \<Rightarrow> (z, nflip N))"
  by (simp add: ngx_insert_left_def ngx_insert_right_def Let_def nset_flip nrotate_flip)

text \<open>Where a red node \<open>z\<close> with a red parent stands: the parent \<open>p\<close> is the left child of the grandparent \<open>g\<close>.\<close>

definition red_red :: "rbtree \<Rightarrow> addr \<Rightarrow> addr \<Rightarrow> addr \<Rightarrow> bool" where
  "red_red T z p g \<longleftrightarrow> (\<exists>l r s u hs. at_pos T (Node l z r) (FL p s # FL g u # hs) z \<or> at_pos T (Node l z r) (FR s p # FL g u # hs) z)"

lemma red_red_links:
  assumes "red_red (as_rb N) z p g"
  shows "npa N z = p" "npa N p = g" "z \<noteq> nt_root N" "p \<noteq> nt_root N" "nlf N g = p"
proof -
  obtain l r s u hs where a: "at_pos (as_rb N) (Node l z r) (FL p s # FL g u # hs) z \<or> at_pos (as_rb N) (Node l z r) (FR s p # FL g u # hs) z"
    using assms unfolding red_red_def by blast
  then show "npa N z = p" "z \<noteq> nt_root N" using raw_pa [of N l z r] by force+
  have "\<exists>pl pr. at_pos (as_rb N) (Node pl p pr) (FL g u # hs) p" using a at_FL at_FR by blast
  then show "npa N p = g" "p \<noteq> nt_root N" "nlf N g = p" using raw_pa [of N _ p _ "FL g u # hs"] by (force simp: at_FL)+
qed

lemma ngx_red_left:
  assumes "red_red (as_rb N) z p g" "ngx_rbt_is_red N (nrg N g)"
  shows "ngx_insert_left z N = (g, ngx_rbt_red g (ngx_rbt_black (nrg N g) (ngx_rbt_black p N)))"
  using red_red_links [OF assms(1)] assms(2) by (simp add: ngx_insert_left_def Let_def)

lemma ngx_outer_black:
  assumes r: "red_red (as_rb N) z p g" and b: "\<not> ngx_rbt_is_red N (nrg N g)" and z: "z \<noteq> nrg N p"
  shows "ngx_insert_left z N = (z, ngx_rbtree_right_rotate g (ngx_rbt_red g (ngx_rbt_black p N)))"
  using red_red_links [OF r] b z by (simp add: ngx_insert_left_def Let_def)

lemma ngx_inner_black:
  assumes r: "red_red (as_rb N) z p g" and b: "\<not> ngx_rbt_is_red N (nrg N g)" and z: "z = nrg N p"
    and S: "S = ngx_rbtree_left_rotate p N" and l: "npa S p = z" "npa S z = g"
  shows "ngx_insert_left z N = (p, ngx_rbtree_right_rotate g (ngx_rbt_red g (ngx_rbt_black z S)))"
  using red_red_links [OF r] b z l by (simp add: ngx_insert_left_def Let_def S [symmetric])

text \<open>The last two recolourings and the rotation do the same on both stores; then the parent of \<open>z\<close> is black.\<close>

lemma ngx_final_left:
  assumes at: "at_pos (as_rb N) (Node (Node (Node l z r) p s) g u) hs g" and N': "N' = ngx_rbtree_right_rotate g (ngx_rbt_red g (ngx_rbt_black p N))"
  shows "as_rb N' = final_left z (as_rb N)" "col (as_rb N') (pa (as_rb N') z) = BLACK"
proof -
  define T where "T = as_rb N"
  define T2 where "T2 = set_color g RED (set_color p BLACK T)"
  have l: "pa T z = p" "pa T p = g" and d: "p \<noteq> g" using at by (auto simp: at_pos_def T_def)
  have at2: "at_pos T2 (Node (Node (Node l z r) p s) g u) hs g" unfolding T2_def by (intro at_pos_color at [folded T_def])
  have e2: "as_rb (ngx_rbt_red g (ngx_rbt_black p N)) = T2" by (simp add: as_rb_paint T2_def T_def)
  have sim: "as_rb N' = rbtree_right_rotate g T2" using ngx_right_rotate_sim [OF at2 [folded e2]] by (simp add: N' e2)
  have "recolor_parents z T = T2"
    unfolding recolor_parents_def Let_def l T2_def by (simp add: links_color l del: upd_node_simps(1))
  moreover have "pa T2 (pa T2 z) = g" using l by (simp add: T2_def links_color del: upd_node_simps(1))
  ultimately show fin: "as_rb N' = final_left z (as_rb N)" using sim by (simp add: final_left_def T_def Let_def)
  note rot = right_rotate_at [OF at2 sim]
  have "pa (as_rb N') z = p" using rot(1) unfolding at_pos_def rep.simps by blast
  moreover have "col (as_rb N') p = BLACK" using rot(3) [of p] d by (simp add: T2_def)
  ultimately show "col (as_rb N') (pa (as_rb N') z) = BLACK" by simp
qed

lemma ins_left_red:
  assumes "pa T z = p" "pa T p = g" "col T (rg T g) = RED"
  shows "ins_left z T = (g, set_color g RED (set_color (rg T g) BLACK (set_color p BLACK T)))"
  using assms by (simp add: ins_left_def Let_def links_color del: upd_node_simps(1))

lemma ins_left_black:
  assumes "pa T z = p" "pa T p = g" "col T (rg T g) = BLACK"
  shows "z \<noteq> rg T p \<Longrightarrow> ins_left z T = (z, final_left z T)" "z = rg T p \<Longrightarrow> ins_left z T = (p, final_left p (rbtree_left_rotate p T))"
  using assms by (simp_all add: ins_left_def Let_def final_left_def recolor_parents_def links_color del: upd_node_simps(1))

lemma ngx_stop: "col (as_rb N) (pa (as_rb N) z) = BLACK \<Longrightarrow> ngx_insert_loop z N = Some N"
  by (subst ngx_insert_loop.simps) (auto split: if_splits)

lemma sim_red_uncle:
  assumes pre: "fix_pre (as_rb N) l z r k (f # FL g u # hs)" and f: "f = FL p s \<or> f = FR s p" and red: "ngx_rbt_is_red N p"
    and u: "ngx_rbt_is_red N (nrg N g)" and N': "N' = ngx_rbt_red g (ngx_rbt_black (nrg N g) (ngx_rbt_black p N))"
  shows "ins_left z (as_rb N) = (g, as_rb N') \<and> (\<exists>l' r'. fix_pre (as_rb N') l' g r' (k + 1) hs)"
proof -
  define T where "T = as_rb N"
  have at: "at_pos T (Node l z r) (f # FL g u # hs) z" and col: "col T z = RED" "col T (rt_nil T) = BLACK" and lr: "good T k l" "good T k r"
    using pre by (simp_all add: fix_pre_def T_def)
  have c: "good T k s" "invc T u" "invh T u" "bheight T u = k" "ctx_ok T (k + 1) hs" "col T p = RED"
    using pre red f by (auto simp: good_def fix_pre_def T_def split: if_splits)
  obtain pl pr where P: "at_pos T (Node (Node pl p pr) g u) hs g" "invc T pl" "invc T pr" "invh T (Node pl p pr)" "bheight T pl = k"
    using at f lr c(1) col by (cases "f = FL p s") (auto simp: at_FL at_FR good_def)
  have g: "rep T g u (rg T g)" "pa T z = p" "pa T p = g" "lf T g = p" using at f P(1) by (auto simp: at_pos_def)
  obtain u1 y u2 where y: "u = Node u1 y u2" using g(1) u col(2) by (cases u) (auto simp: T_def)
  then have ry: "rg T g = y" "col T y = RED" using g(1) u by (auto simp: T_def)
  have T': "as_rb N' = set_color g RED (set_color y BLACK (set_color p BLACK T))" using ry(1) by (simp add: N' as_rb_paint T_def)
  have "ins_left z T = (g, as_rb N')" using ins_left_red [OF g(2,3)] ry T' by simp
  then show ?thesis
    using red_uncle_pre [OF P(1) disjI1 [OF refl] y ry(2) c(6) col(2) P(2-5) c(2-5) T'] unfolding T_def by auto
qed

lemma sim_black_uncle:
  assumes pre: "fix_pre (as_rb N) l z r k (f # FL g u # hs)" and f: "f = FL p s \<or> f = FR s p" and red: "ngx_rbt_is_red N p"
    and u: "\<not> ngx_rbt_is_red N (nrg N g)"
  shows "\<exists>z' N'. ngx_insert_left z N = (z', N') \<and> ins_left z (as_rb N) = (z', as_rb N')
    \<and> col (as_rb N') (pa (as_rb N') z') = BLACK"
proof -
  define T where "T = as_rb N"
  have at: "at_pos T (Node l z r) (f # FL g u # hs) z" using pre by (simp add: fix_pre_def T_def)
  have rr: "red_red (as_rb N) z p g" using at f unfolding red_red_def T_def by blast
  have col: "col T p = RED" "col T (rg T g) = BLACK" using red u by (simp_all add: T_def)
  have g: "pa T z = p" "pa T p = g" "lf T g = p" using at f by (auto simp: at_pos_def)
  show ?thesis
  proof (cases "f = FL p s")
    case True
    have at2: "at_pos T (Node (Node (Node l z r) p s) g u) hs g" using at True by (simp add: at_FL)
    have z: "z \<noteq> rg T p" using at2 rep_root [of T p s "rg T p"] by (auto simp: at_pos_def)
    have "ngx_insert_left z N = (z, ngx_rbtree_right_rotate g (ngx_rbt_red g (ngx_rbt_black p N)))"
      by (rule ngx_outer_black [OF rr u]) (use z in \<open>simp add: T_def\<close>)
    moreover note ngx_final_left [OF at2 [unfolded T_def] refl] ins_left_black(1) [OF g(1,2) col(2) z, unfolded T_def]
    ultimately show ?thesis by metis
  next
    case False
    then have fr: "f = FR s p" using f by simp
    have at1: "at_pos T (Node s p (Node l z r)) (FL g u # hs) p" and rp: "rg T p = z" using at fr by (auto simp: at_FR)
    define S where "S = ngx_rbtree_left_rotate p N"
    have sim: "as_rb S = rbtree_left_rotate p T" unfolding S_def T_def by (rule ngx_left_rotate_sim [OF at1 [unfolded T_def]])
    note rot = left_rotate_at [OF at1 sim]
    have "at_pos (as_rb S) (Node s p l) (FL z r # FL g u # hs) p" using rot(1) by (auto simp: at_pos_def)
    then have l: "npa S p = z" "npa S z = g" using raw_pa [OF rot(1)] raw_pa by force+
    have at3: "at_pos (as_rb S) (Node (Node (Node s p l) z r) g u) hs g" using rot(1) by (simp add: at_FL)
    have zp: "z = nrg N p" using rp by (simp add: T_def)
    have "ins_left z (as_rb N) = (p, final_left p (as_rb S))"
      using ins_left_black(2) [OF g(1,2) col(2) rp [symmetric]] sim by (simp add: T_def)
    with ngx_inner_black [OF rr u zp S_def l] ngx_final_left [OF at3 refl] show ?thesis by metis
  qed
qed

text \<open>The outcome of an iteration: the loop goes on at a position higher up, or stops.\<close>

definition sim_result :: "addr \<times> ngx_rbtree \<Rightarrow> addr \<times> rbtree \<Rightarrow> frame list \<Rightarrow> bool" where
  "sim_result res res' hs \<longleftrightarrow> (case res of (z, N) \<Rightarrow> res' = (z, as_rb N)
     \<and> ((\<exists>l r k. fix_pre (as_rb N) l z r k hs) \<or> col (as_rb N) (pa (as_rb N) z) = BLACK))"

lemma sim_left:
  assumes pre: "fix_pre (as_rb N) l z r k (f # FL g u # hs)" and f: "f = FL p s \<or> f = FR s p" and red: "ngx_rbt_is_red N p"
  shows "sim_result (ngx_insert_left z N) (ins_left z (as_rb N)) hs"
proof -
  have rr: "red_red (as_rb N) z p g" using pre f unfolding red_red_def fix_pre_def by blast
  show ?thesis
  proof (cases "ngx_rbt_is_red N (nrg N g)")
    case True
    with sim_red_uncle [OF pre f red True refl] ngx_red_left [OF rr True] show ?thesis unfolding sim_result_def by auto
  next
    case False
    from sim_black_uncle [OF pre f red False] show ?thesis unfolding sim_result_def by auto
  qed
qed

lemma fix_pre_flip: "fix_pre T l z r k fs \<Longrightarrow> fix_pre (flip T) (mirror r) z (mirror l) k (map flip_frame fs)"
  using at_pos_flip [of T "Node l z r" fs z] ctx_ok_flip [of T k fs] height_flip [of T l] height_flip [of T r]
  by (simp add: fix_pre_def good_def)

lemma sim_flip:
  assumes "sim_result (z, N) (z, as_rb N) (map flip_frame hs)"
  shows "sim_result (z, nflip N) (z, flip (as_rb N)) hs"
proof -
  have m: "map flip_frame (map flip_frame hs) = hs" by (induction hs) simp_all
  have "fix_pre (as_rb N) l z r k (map flip_frame hs) \<Longrightarrow> fix_pre (flip (as_rb N)) (mirror r) z (mirror l) k hs" for l r k
    using fix_pre_flip [of "as_rb N" l z r k "map flip_frame hs"] unfolding m .
  then show ?thesis using assms unfolding sim_result_def by (auto simp: as_rb_flip) blast+
qed

lemma sim_right:
  assumes pre: "fix_pre (as_rb N) l z r k (f # FR u g # hs)" and f: "f = FL p s \<or> f = FR s p" and red: "ngx_rbt_is_red N p"
  shows "sim_result (ngx_insert_right z N) (ins_right z (as_rb N)) hs"
proof -
  have pre': "fix_pre (as_rb (nflip N)) (mirror r) z (mirror l) k (flip_frame f # FL g (mirror u) # map flip_frame hs)"
    using fix_pre_flip [OF pre] by (simp add: as_rb_flip)
  have f': "flip_frame f = FL p (mirror s) \<or> flip_frame f = FR (mirror s) p" using f by auto
  obtain z' M where M: "ngx_insert_right z N = (z', M)" by force
  have "ngx_insert_left z (nflip N) = (z', nflip M)" using ngx_ins_flip [of z N] M by simp
  then have "sim_result (z', nflip M) (ins_left z (as_rb (nflip N))) (map flip_frame hs)"
    using sim_left [OF pre' f'] red by simp
  moreover from this have "ins_left z (as_rb (nflip N)) = (z', as_rb (nflip M))" by (simp add: sim_result_def)
  ultimately have "sim_result (z', M) (z', as_rb M) hs"
    using sim_flip [of z' "nflip M" hs] by (simp add: as_rb_flip)
  moreover have "ins_right z (as_rb N) = (z', as_rb M)"
    using ins_flip [of z "as_rb N"] \<open>ins_left z (as_rb (nflip N)) = _\<close> by (auto simp: as_rb_flip split: prod.splits) (metis flip_flip)
  ultimately show ?thesis using M by simp
qed

section \<open>The loop\<close>

lemma ngx_loop_sim:
  assumes "fix_pre (as_rb N) l z r k fs"
  shows "\<exists>N'. ngx_insert_loop z N = Some N' \<and> insert_fixup_loop z (as_rb N) = Some (as_rb N')"
  using assms
proof (induction "length fs" arbitrary: N l z r k fs rule: less_induct)
  case less
  define T where "T = as_rb N"
  have pre: "fix_pre T l z r k fs" using less.prems by (simp add: T_def)
  then have at: "at_pos T (Node l z r) fs z" and nil: "col T (rt_nil T) = BLACK" and ctx: "ctx_ok T k fs" by (simp_all add: fix_pre_def)
  then have par: "pa T z = above T fs" "repc T fs z" by (auto simp: at_pos_def)
  show ?case
  proof (cases "col T (above T fs) = RED")
    case False
    then have "col T (pa T z) = BLACK" using par(1) by (cases "col T (pa T z)") auto
    then show ?thesis using ngx_stop loop_done unfolding T_def by blast
  next
    case True
    have tail: ?thesis if res: "sim_result (z', N') R' hs" and l: "ngx_insert_loop z N = ngx_insert_loop z' N'"
      "insert_fixup_loop z T = (case R' of (z, T) \<Rightarrow> insert_fixup_loop z T)" and len: "length hs < length fs" for z' N' R' hs
    proof -
      have l2: "insert_fixup_loop z T = insert_fixup_loop z' (as_rb N')" using res l(2) by (simp add: sim_result_def)
      from res consider (go) l' r' k' where "fix_pre (as_rb N') l' z' r' k' hs" | (halt) "col (as_rb N') (pa (as_rb N') z') = BLACK"
        unfolding sim_result_def by blast
      then show ?thesis
      proof cases
        case go
        from less.hyps [OF len go] show ?thesis using l(1) l2 by (simp add: T_def)
      next
        case halt
        then show ?thesis using ngx_stop loop_done l(1) l2 unfolding T_def by metis
      qed
    qed
    have "\<exists>p g f u hs s. (f = FL p s \<or> f = FR s p) \<and> (fs = f # FL g u # hs \<or> fs = f # FR u g # hs)"
      using red_parent [OF ctx par(2) True nil] by metis
    then obtain p g f u hs s where f: "f = FL p s \<or> f = FR s p" and fs: "fs = f # FL g u # hs \<or> fs = f # FR u g # hs" by blast
    have red: "ngx_rbt_is_red N p" using True fs f by (auto simp: T_def split: if_splits)
    have len: "length hs < length fs" using fs by auto
    have z: "npa N z = p" "z \<noteq> nt_root N" using raw_pa [OF at [unfolded T_def]] fs f by auto
    have "\<exists>pl pr gs. at_pos T (Node pl p pr) gs p \<and> (gs = FL g u # hs \<or> gs = FR u g # hs) \<and> (fs = f # gs)"
      using at f fs at_FL at_FR by metis
    then obtain pl pr gs where P: "at_pos T (Node pl p pr) gs p" "gs = FL g u # hs \<or> gs = FR u g # hs" "fs = f # gs" by blast
    have p: "npa N p = g" "p \<noteq> nt_root N" using raw_pa [OF P(1) [unfolded T_def]] P(2) by auto
    have pz: "pa T z = p" "pa T p = g" "col T p = RED" using z p red by (simp_all add: T_def)
    obtain z' N' where step: "(if nlf N g = p then ngx_insert_left z N else ngx_insert_right z N) = (z', N')" by force
    have loop: "ngx_insert_loop z N = ngx_insert_loop z' N'"
      by (subst ngx_insert_loop.simps) (use z p red step in \<open>auto split: if_splits\<close>)
    show ?thesis
    proof (cases "nlf N g = p")
      case True
      have "gs = FL g u # hs"
        using P(1,2) True rep_root [of T g u "lf T g"] by (auto simp: at_pos_def T_def)
      then have "sim_result (z', N') (ins_left z T) hs"
        using sim_left [of N l z r k f g u hs p s] pre P(3) f red step True by (simp add: T_def)
      moreover have "insert_fixup_loop z T = (case ins_left z T of (z, T) \<Rightarrow> insert_fixup_loop z T)"
        by (rule insert_loop_left) (use pz True in \<open>simp_all add: T_def\<close>)
      ultimately show ?thesis using tail loop len by blast
    next
      case False
      have "gs = FR u g # hs" using P(1,2) False by (auto simp: at_pos_def T_def)
      then have "sim_result (z', N') (ins_right z T) hs"
        using sim_right [of N l z r k f u g hs p s] pre P(3) f red step False by (simp add: T_def)
      moreover have "insert_fixup_loop z T = (case ins_right z T of (z, T) \<Rightarrow> insert_fixup_loop z T)"
        by (rule insert_loop_right) (use pz False in \<open>simp_all add: T_def\<close>)
      ultimately show ?thesis using tail loop len by blast
    qed
  qed
qed

section \<open>Well-formed trees\<close>

text \<open>
  \<open>ngx_ok org N t\<close>: the store holds the red-black search tree \<open>t\<close>, in order of the keys counted from \<open>org\<close>. Keys
  overflow, so that the order of times is the order of their distances from a point \<open>org\<close> before all of them;
  with \<open>org = 0\<close> it is the order of the unsigned keys.
\<close>

definition ngx_ok :: "uint32 \<Rightarrow> ngx_rbtree \<Rightarrow> addr tree \<Rightarrow> bool" where
  "ngx_ok org N t \<longleftrightarrow> rep (as_rb N) (nt_sentinel N) t (nt_root N) \<and> distinct (inorder t) \<and> sorted (map (\<lambda>n. nky N n - org) (inorder t))
     \<and> \<not> ngx_rbt_is_red N (nt_sentinel N) \<and> invc (as_rb N) t \<and> invh (as_rb N) t \<and> color_of (as_rb N) t = BLACK"

lemma ngx_init_ok: "ngx_ok org (ngx_rbtree_init s N) Leaf"
  by (simp add: ngx_ok_def ngx_rbtree_init_def ngx_rbt_black_def ngx_rbt_is_red_def)

text \<open>What a repair loop leaves is a well-formed tree of its nodes, when they are in order.\<close>

lemma ngx_ok_post:
  assumes "rb_post (as_rb N) xs (as_rb N')" "sorted (map (\<lambda>n. nky N n - org) xs)" "distinct xs"
  shows "\<exists>t'. ngx_ok org N' t' \<and> inorder t' = xs \<and> nt_sentinel N' = nt_sentinel N \<and> (\<forall>n. nky N' n = nky N n)"
proof -
  have "\<forall>n. nky N' n = nky N n" using assms(1) by (simp add: rb_post_def word_uint_eq_iff)
  moreover from this have "map (\<lambda>n. nky N' n - org) xs = map (\<lambda>n. nky N n - org) xs" by simp
  ultimately show ?thesis using assms unfolding rb_post_def ngx_ok_def by (auto split: if_splits)
qed

section \<open>The descent\<close>

lemma sorted_node_le:
  "sorted (map f (inorder (Node l a r))) \<longleftrightarrow> sorted (map f (inorder l)) \<and> sorted (map f (inorder r))
     \<and> (\<forall>x \<in> set_tree l. f x \<le> f a) \<and> (\<forall>x \<in> set_tree r. f a \<le> (f x :: uint32))"
  by (auto simp: sorted_append intro: order_trans)

lemma insert_place_ok:
  assumes "rep (as_rb N) (above (as_rb N) fs) t p" "repc (as_rb N) fs p" "t \<noteq> Leaf" "sorted (map (\<lambda>n. nky N n - org) (inorder t))"
    and "\<forall>a \<in> set_tree t. before k (nky N a) \<longleftrightarrow> k - org < nky N a - org"
  shows "\<exists>gs xs ys lft. insert_place before N k p = Some (above (as_rb N) gs, lft) \<and> plug t fs = plug Leaf gs
    \<and> repc (as_rb N) gs (nt_sentinel N) \<and> (if lft then \<exists>a r hs. gs = FL a r # hs else \<exists>l a hs. gs = FR l a # hs)
    \<and> inorder t = xs @ ys \<and> pre gs = pre fs @ xs \<and> post gs = ys @ post fs \<and> (\<forall>x \<in> set xs. nky N x - org \<le> k - org) \<and> (\<forall>y \<in> set ys. k - org < nky N y - org)"
  using assms
proof (induction t arbitrary: fs p)
  case (Node l a r)
  have p: "p = a" "a \<noteq> nt_sentinel N" "rep (as_rb N) a l (nlf N a)" "rep (as_rb N) a r (nrg N a)" "pa (as_rb N) a = above (as_rb N) fs"
    using Node.prems(1) by auto
  have s: "sorted (map (\<lambda>n. nky N n - org) (inorder l))" "sorted (map (\<lambda>n. nky N n - org) (inorder r))" "\<forall>x \<in> set_tree l. nky N x - org \<le> nky N a - org" "\<forall>x \<in> set_tree r. nky N a - org \<le> nky N x - org"
    using Node.prems(4) by (auto simp only: sorted_node_le)
  show ?case
  proof (cases "k - org < nky N a - org")
    case True
    then have b: "before k (nky N a)" using Node.prems(5) by simp
    have gt: "\<forall>y \<in> set (a # inorder r). k - org < nky N y - org" using True s(4) less_le_trans by fastforce
    have repl: "repc (as_rb N) (FL a r # fs) (nlf N a)" using p Node.prems(2) by simp
    show ?thesis
    proof (cases "l = Leaf")
      case True
      then have "nlf N a = nt_sentinel N" using p(3) by simp
      moreover from this have "insert_place before N k p = Some (a, True)" using b p(1) by (subst insert_place.simps) simp
      ultimately show ?thesis using True gt repl p(1)
        by (intro exI [of _ "FL a r # fs"] exI [of _ "[]"] exI [of _ "a # inorder r"] exI [of _ True]) simp
    next
      case False
      then have "nlf N a \<noteq> nt_sentinel N" using rep_Leaf [OF p(3)] by simp
      then have step: "insert_place before N k p = insert_place before N k (nlf N a)" using b p(1) by (subst insert_place.simps) simp
      obtain gs xs ys lft where "insert_place before N k (nlf N a) = Some (above (as_rb N) gs, lft)" "plug l (FL a r # fs) = plug Leaf gs"
        "repc (as_rb N) gs (nt_sentinel N)" "if lft then \<exists>a r hs. gs = FL a r # hs else \<exists>l a hs. gs = FR l a # hs" "inorder l = xs @ ys"
        "pre gs = pre fs @ xs" "post gs = ys @ a # inorder r @ post fs" "\<forall>x \<in> set xs. nky N x - org \<le> k - org" "\<forall>y \<in> set ys. k - org < nky N y - org"
        using Node.IH(1) [of "FL a r # fs" "nlf N a"] p(3) repl False s(1) Node.prems(5) by auto
      then show ?thesis using gt step
        by (intro exI [of _ gs] exI [of _ xs] exI [of _ "ys @ a # inorder r"] exI [of _ lft]) auto
    qed
  next
    case kge: False
    then have b: "\<not> before k (nky N a)" using Node.prems(5) by simp
    have le: "\<forall>x \<in> set (inorder l @ [a]). nky N x - org \<le> k - org" using kge s(3) order_trans by fastforce
    have repr: "repc (as_rb N) (FR l a # fs) (nrg N a)" using p Node.prems(2) by simp
    show ?thesis
    proof (cases "r = Leaf")
      case True
      then have "nrg N a = nt_sentinel N" using p(4) by simp
      moreover from this have "insert_place before N k p = Some (a, False)" using b p(1) by (subst insert_place.simps) simp
      ultimately show ?thesis using True le repr p(1)
        by (intro exI [of _ "FR l a # fs"] exI [of _ "inorder l @ [a]"] exI [of _ "[]"] exI [of _ False]) simp
    next
      case False
      then have "nrg N a \<noteq> nt_sentinel N" using rep_Leaf [OF p(4)] by simp
      then have step: "insert_place before N k p = insert_place before N k (nrg N a)" using b p(1) by (subst insert_place.simps) simp
      obtain gs xs ys lft where "insert_place before N k (nrg N a) = Some (above (as_rb N) gs, lft)" "plug r (FR l a # fs) = plug Leaf gs"
        "repc (as_rb N) gs (nt_sentinel N)" "if lft then \<exists>a r hs. gs = FL a r # hs else \<exists>l a hs. gs = FR l a # hs" "inorder r = xs @ ys"
        "pre gs = (pre fs @ inorder l @ [a]) @ xs" "post gs = ys @ post fs" "\<forall>x \<in> set xs. nky N x - org \<le> k - org" "\<forall>y \<in> set ys. k - org < nky N y - org"
        using Node.IH(2) [of "FR l a # fs" "nrg N a"] p(4) repr False s(2) Node.prems(5) by auto
      then show ?thesis using le step
        by (intro exI [of _ gs] exI [of _ "inorder l @ a # xs"] exI [of _ ys] exI [of _ lft]) auto
    qed
  qed
qed simp

section \<open>Linking the node\<close>

definition ngx_link :: "addr \<Rightarrow> addr \<Rightarrow> bool \<Rightarrow> ngx_rbtree \<Rightarrow> ngx_rbtree" where
  "ngx_link node temp lft N =
     (let N = (if lft then nset_left temp node N else nset_right temp node N);
          N = nset_parent node temp N;
          N = nset_left node (nt_sentinel N) N;
          N = nset_right node (nt_sentinel N) N
      in ngx_rbt_red node N)"

lemma insert_by_link: "insert_place before N (nky N node) temp = Some (y, lft) \<Longrightarrow> insert_by before temp node N = Some (ngx_link node y lft N)"
  by (simp add: insert_by_def ngx_link_def Let_def)

lemma ngx_link_fields:
  assumes "z \<noteq> y" and N': "N' = ngx_link z y lft N"
  shows "nlf N' n = (if n = z then nt_sentinel N else if n = y \<and> lft then z else nlf N n)"
    "nrg N' n = (if n = z then nt_sentinel N else if n = y \<and> \<not> lft then z else nrg N n)"
    "npa N' n = (if n = z then y else npa N n)" "nt_root N' = nt_root N" "nt_sentinel N' = nt_sentinel N"
    "ngx_rbt_is_red N' n \<longleftrightarrow> n = z \<or> ngx_rbt_is_red N n" "nky N' n = nky N n"
  using assms(1) unfolding N' ngx_link_def Let_def
  by (cases lft; simp add: ngx_rbt_red_def ngx_rbt_is_red_def)+

lemma ngx_link_at:
  assumes rc: "repc (as_rb N) gs (nt_sentinel N)" and d: "distinct (clist gs)" "z \<notin> set (clist gs)" "z \<noteq> nt_sentinel N"
    and side: "if lft then \<exists>a r hs. gs = FL a r # hs else \<exists>l a hs. gs = FR l a # hs" and N': "N' = ngx_link z (above (as_rb N) gs) lft N"
  shows "at_pos (as_rb N') (Node Leaf z Leaf) gs z"
proof -
  have ne: "gs \<noteq> []" using side by (auto split: if_splits)
  have "z \<noteq> above (as_rb N) gs" using above_in [of "as_rb N" gs] d by auto
  note f = ngx_link_fields [OF this N']
  have zr: "z \<noteq> nt_root N" using root_in_clist [OF rc ne] d(2) by auto
  have "repc (as_rb N') gs z \<and> above (as_rb N') gs = above (as_rb N) gs"
  proof (rule repc_redirect [OF rc d(1)])
    show "same_links (set (clist gs) - {above (as_rb N) gs}) (as_rb N) (as_rb N')" using d zr by (auto simp: same_links_def f)
    show "rt_nil (as_rb N') = rt_nil (as_rb N)" "gs = [] \<Longrightarrow> rt_root (as_rb N') = z" "gs \<noteq> [] \<Longrightarrow> rt_root (as_rb N') = rt_root (as_rb N)"
      using ne by (simp_all add: f)
    show "gs = FL a r # hs \<Longrightarrow> lf (as_rb N') a = z \<and> rg (as_rb N') a = rg (as_rb N) a \<and> pa (as_rb N') a = pa (as_rb N) a" for a r hs
      using side d by (auto simp: f split: if_splits)
    show "gs = FR l a # hs \<Longrightarrow> rg (as_rb N') a = z \<and> lf (as_rb N') a = lf (as_rb N) a \<and> pa (as_rb N') a = pa (as_rb N) a" for l a hs
      using side d by (auto simp: f split: if_splits)
  qed
  then show ?thesis using d zr by (auto simp: at_pos_def f)
qed

section \<open>Insertion\<close>

lemma ngx_insert_ok:
  assumes ok: "ngx_ok org N t" and z: "z \<notin> set_tree t" "z \<noteq> nt_sentinel N"
    and cmp: "\<forall>a \<in> set_tree t. before (nky N z) (nky N a) \<longleftrightarrow> nky N z - org < nky N a - org"
  shows "\<exists>N' t' xs ys. ngx_rbtree_insert (insert_by before) z N = Some N' \<and> ngx_ok org N' t' \<and> inorder t = xs @ ys \<and> inorder t' = xs @ z # ys
    \<and> (\<forall>x \<in> set xs. nky N x - org \<le> nky N z - org) \<and> (\<forall>y \<in> set ys. nky N z - org < nky N y - org) \<and> nt_sentinel N' = nt_sentinel N \<and> (\<forall>n. nky N' n = nky N n)"
proof (cases "t = Leaf")
  case True
  then have root: "nt_root N = nt_sentinel N" using ok by (simp add: ngx_ok_def)
  define N' where "N' = (ngx_rbt_black z (nset_right z (nt_sentinel N) (nset_left z (nt_sentinel N) (nset_parent z 0 N))))\<lparr>nt_root := z\<rparr>"
  have "ngx_rbtree_insert (insert_by before) z N = Some N'" using root by (simp add: ngx_rbtree_insert_def N'_def Let_def)
  moreover have "ngx_ok org N' (Node Leaf z Leaf)"
    using ok z(2) by (auto simp: N'_def ngx_ok_def ngx_rbt_is_red_def ngx_rbt_black_def)
  ultimately show ?thesis using True by (intro exI [of _ N'] exI [of _ "Node Leaf z Leaf"] exI [of _ "[]"]) (simp add: N'_def ngx_rbt_black_def)
next
  case False
  have rep: "rep (as_rb N) (above (as_rb N) []) t (nt_root N)" "repc (as_rb N) [] (nt_root N)" and s: "sorted (map (\<lambda>n. nky N n - org) (inorder t))"
    using ok by (auto simp: ngx_ok_def)
  obtain gs xs ys lft where g: "insert_place before N (nky N z) (nt_root N) = Some (above (as_rb N) gs, lft)" "t = plug Leaf gs"
    "repc (as_rb N) gs (nt_sentinel N)" "if lft then \<exists>a r hs. gs = FL a r # hs else \<exists>l a hs. gs = FR l a # hs" "inorder t = xs @ ys"
    "pre gs = xs" "post gs = ys" "\<forall>x \<in> set xs. nky N x - org \<le> nky N z - org" "\<forall>y \<in> set ys. nky N z - org < nky N y - org"
    using insert_place_ok [OF rep False s, of before "nky N z"] cmp by auto
  define N1 where "N1 = ngx_link z (above (as_rb N) gs) lft N"
  have cl: "distinct (clist gs)" "z \<notin> set (clist gs)" using ok z(1) by (auto simp: g(2) ngx_ok_def distinct_plug set_plug)
  have at: "at_pos (as_rb N1) (Node Leaf z Leaf) gs z" by (rule ngx_link_at [OF g(3) cl z(2) g(4) N1_def])
  have "z \<noteq> above (as_rb N) gs" using above_in [of "as_rb N" gs] cl z by auto
  note f = ngx_link_fields [OF this N1_def]
  have "ctx_ok (as_rb N) 0 gs" using plug_inv_conv [of "as_rb N" Leaf gs] ok by (simp add: ngx_ok_def g(2))
  moreover have "ctx_ok (as_rb N1) 0 gs = ctx_ok (as_rb N) 0 gs" by (rule ctx_ok_cong) (use cl z in \<open>auto simp: f\<close>)
  ultimately have fp: "fix_pre (as_rb N1) Leaf z Leaf 0 gs" using at ok z(2) by (auto simp: fix_pre_def good_def f ngx_ok_def)
  then have "fix_result z (as_rb N1) (plug (Node Leaf z Leaf) gs)" using insert_fixup_ok [of gs] unfolding fixable_def by blast
  moreover obtain N2 where N2: "ngx_insert_loop z N1 = Some N2" "insert_fixup_loop z (as_rb N1) = Some (as_rb N2)" using ngx_loop_sim [OF fp] by blast
  ultimately have post: "rb_post (as_rb N1) (xs @ z # ys) (as_rb (ngx_rbt_black (nt_root N2) N2))"
    by (auto simp: fix_result_def inorder_plug_split g(6,7) as_rb_paint)
  have ky: "nky N1 = nky N" by (rule ext) (rule f(7))
  have "sorted (map (\<lambda>n. nky N1 n - org) (xs @ z # ys))" "distinct (xs @ z # ys)"
    using s ok z(1) g(8,9) unfolding fun_cong [OF ky] by (auto simp: ngx_ok_def g(5) sorted_append set_inorder [symmetric] simp del: set_inorder)
  from ngx_ok_post [OF post this] obtain t' where t': "ngx_ok org (ngx_rbt_black (nt_root N2) N2) t'" "inorder t' = xs @ z # ys"
    "nt_sentinel (ngx_rbt_black (nt_root N2) N2) = nt_sentinel N1" "\<forall>n. nky (ngx_rbt_black (nt_root N2) N2) n = nky N1 n" by blast
  have "nt_root N \<noteq> nt_sentinel N" using rep_Leaf [OF rep(1)] False by simp
  then have "ngx_rbtree_insert (insert_by before) z N = Some (ngx_rbt_black (nt_root N2) N2)"
    using insert_by_link [OF g(1)] N2(1) by (simp add: ngx_rbtree_insert_def N1_def)
  then show ?thesis using t' g(5,8,9) f(5,7) by (intro exI [of _ "ngx_rbt_black (nt_root N2) N2"] exI [of _ t'] exI [of _ xs] exI [of _ ys]) simp
qed

end
