(* ===== verification/NgxDelete.thy ===== *)
theory NgxDelete
  imports NgxInsert
begin

text \<open>
  Deletion from the nginx tree: the repair loop follows that of \<open>rbtree.c\<close>; the node that is moved to the
  place of the deleted one is the renaming of a node whose key is replaced.
\<close>

section \<open>The body of the loop\<close>

lemma deficient_pa:
  assumes "deficient S xs (as_rb N) t k (f # fs) x"
  shows "npa N x = above (as_rb N) (f # fs)" "x \<noteq> nt_root N"
  using assms at_pos_root [of "as_rb N" t "f # fs" x] by (auto simp: deficient_def split: if_splits)

lemma ngx_sibling_left_sim:
  assumes D: "deficient S xs (as_rb N) t k (FL p s # gs) x" and b: "color_of (as_rb N) t = BLACK" and step: "ngx_sibling_left x N = (w, N')"
  shows "sibling_left x (as_rb N) = (w, as_rb N')"
proof -
  obtain wl v wr where s: "s = Node wl v wr" "rg (as_rb N) p = v" "pa (as_rb N) x = p" "at_pos (as_rb N) (Node t p (Node wl v wr)) gs p"
    using deficient_left [OF D b] by metis
  have x: "npa N x = p" "x \<noteq> nt_root N" using deficient_pa [OF D] by simp_all
  have v: "nrg N p = v" using s(2) by simp
  show ?thesis
  proof (cases "ngx_rbt_is_red N v")
    case True
    define M where "M = ngx_rbt_red p (ngx_rbt_black v N)"
    define T2 where "T2 = set_color p RED (set_color v BLACK (as_rb N))"
    have M: "as_rb M = T2" by (simp add: M_def as_rb_paint T2_def)
    have "at_pos T2 (Node t p (Node wl v wr)) gs p" unfolding T2_def by (intro at_pos_color s(4))
    from ngx_left_rotate_sim [OF this [folded M]] have sim: "as_rb (ngx_rbtree_left_rotate p M) = rbtree_left_rotate p T2" by (simp add: M)
    have w: "w = nrg N' (npa N' x)" and N': "N' = ngx_rbtree_left_rotate p M"
      using step x v True by (auto simp: ngx_sibling_left_def Let_def M_def)
    have st: "sibling_left x (as_rb N) = (rg (as_rb N') (pa (as_rb N') x), as_rb N')"
      using True x s(3) v unfolding sibling_left_def Let_def s(3) N' sim
      by (simp add: T2_def links_color del: upd_node_simps(1))
    obtain q hs where "deficient S xs (as_rb N') t k (FL p q # hs) x" using sibling_left_ok [OF D b st] by blast
    from deficient_pa [OF this] have "npa N' x = p" "x \<noteq> nt_root N'" by simp_all
    then show ?thesis using st w by simp
  next
    case False
    then show ?thesis using step x v s(3) by (simp add: ngx_sibling_left_def sibling_left_def Let_def)
  qed
qed

lemma ngx_outer_left_sim:
  assumes D: "deficient S xs (as_rb N) t k (FL p (Node wl w wr) # gs) x" and b: "color_of (as_rb N) t = BLACK" and w: "col (as_rb N) w = BLACK"
    and ch: "\<not> (col (as_rb N) (lf (as_rb N) w) = BLACK \<and> col (as_rb N) (rg (as_rb N) w) = BLACK)" and step: "ngx_outer_left x w N = (v, N')"
  shows "outer_red_left x w (as_rb N) = (v, as_rb N')"
proof -
  define T where "T = as_rb N"
  have s: "rg T p = w" "pa T x = p" and at: "at_pos T (Node t p (Node wl w wr)) gs p" and rp: "rep T w wl (lf T w)" and nil: "col T (rt_nil T) = BLACK"
    using deficient_left [OF D b] unfolding T_def by (metis tree.inject)+
  have x: "npa N x = p" "x \<noteq> nt_root N" using deficient_pa [OF D] by simp_all
  show ?thesis
  proof (cases "col T (rg T w) = BLACK")
    case True
    then have "col T (lf T w) = RED" using ch unfolding T_def by (metis not_RED)
    then obtain wll wlr where wl: "wl = Node wll (lf T w) wlr" using rp nil by (cases wl) auto
    define M where "M = ngx_rbt_red w (ngx_rbt_black (nlf N w) N)"
    define T2 where "T2 = set_color w RED (set_color (lf T w) BLACK T)"
    have M: "as_rb M = T2" by (simp add: M_def as_rb_paint T2_def T_def)
    have "at_pos T (Node (Node wll (lf T w) wlr) w wr) (FR t p # gs) w" using at wl s(1) by (simp add: at_FR)
    then have "at_pos T2 (Node (Node wll (lf T w) wlr) w wr) (FR t p # gs) w" unfolding T2_def by (intro at_pos_color)
    from ngx_right_rotate_sim [OF this [folded M]] have sim: "as_rb (ngx_rbtree_right_rotate w M) = rbtree_right_rotate w T2" by (simp add: M)
    have bl: "ngx_rbt_is_black N (nrg N w)" using True by (simp add: T_def ngx_rbt_is_black_def split: if_splits)
    have v: "v = nrg N' (npa N' x)" and N': "N' = ngx_rbtree_right_rotate w M"
      using step bl by (auto simp: ngx_outer_left_def Let_def M_def)
    have st: "outer_red_left x w (as_rb N) = (rg (as_rb N') (pa (as_rb N') x), as_rb N')"
      unfolding outer_red_left_def Let_def N' sim using True by (simp add: T2_def T_def)
    obtain q hs where "deficient S xs (as_rb N') t k (FL p q # hs) x" using outer_red_left_ok [OF D b w ch st] by blast
    from deficient_pa [OF this] have "npa N' x = p" "x \<noteq> nt_root N'" by simp_all
    then show ?thesis using st v by simp
  next
    case False
    then show ?thesis using step by (simp add: ngx_outer_left_def outer_red_left_def T_def ngx_rbt_is_black_def split: if_splits)
  qed
qed

lemma ngx_close_left_sim:
  assumes D: "deficient S xs (as_rb N) t k (FL p (Node wl w wr) # gs) x" and b: "color_of (as_rb N) t = BLACK"
  shows "close_left x w (as_rb N) = as_rb (ngx_close_left x w N)"
proof -
  define T where "T = as_rb N"
  have s: "pa T x = p" and at: "at_pos T (Node t p (Node wl w wr)) gs p"
    using deficient_left [OF D b] unfolding T_def by (metis tree.inject)+
  have x: "npa N x = p" using deficient_pa [OF D] by simp
  define M where "M = ngx_rbt_black (nrg N w) (ngx_rbt_black p (ngx_rbt_copy_color w p N))"
  define T2 where "T2 = set_color (rg T w) BLACK (set_color p BLACK (set_color w (col T p) T))"
  have M: "as_rb M = T2" by (simp only: M_def as_rb_paint T2_def T_def as_rb_simps(4))
  have "at_pos T2 (Node t p (Node wl w wr)) gs p" unfolding T2_def by (intro at_pos_color at)
  from ngx_left_rotate_sim [OF this [folded M]] have sim: "as_rb (ngx_rbtree_left_rotate p M) = rbtree_left_rotate p T2" by (simp add: M)
  have "ngx_close_left x w N = ngx_rbtree_left_rotate p M" using x by (simp add: ngx_close_left_def Let_def M_def)
  moreover have "close_left x w T = rbtree_left_rotate p T2"
    unfolding close_left_def Let_def T2_def by (simp add: links_color s del: upd_node_simps(1) as_rb_simps)
  ultimately show ?thesis using sim by (simp add: T_def)
qed

lemma ngx_delete_left_sim:
  assumes D: "deficient S xs (as_rb N) t k (FL p s # gs) x" and b: "color_of (as_rb N) t = BLACK" and step: "ngx_delete_left x N = (x', N')"
  shows "step_left x (as_rb N) = (x', as_rb N')"
proof -
  obtain w N1 where N1: "ngx_sibling_left x N = (w, N1)" by force
  note s1 = ngx_sibling_left_sim [OF D b N1]
  obtain wl wr hs where D1: "deficient S xs (as_rb N1) t k (FL p (Node wl w wr) # hs) x" "color_of (as_rb N1) t = BLACK" "col (as_rb N1) w = BLACK"
    using sibling_left_ok [OF D b s1] by auto
  have x: "npa N1 x = p" "x \<noteq> nt_root N1" using deficient_pa [OF D1(1)] by simp_all
  have bl: "ngx_rbt_is_black N1 a \<longleftrightarrow> col (as_rb N1) a = BLACK" for a by (simp add: ngx_rbt_is_black_def)
  show ?thesis
  proof (cases "col (as_rb N1) (lf (as_rb N1) w) = BLACK \<and> col (as_rb N1) (rg (as_rb N1) w) = BLACK")
    case True
    then have "ngx_rbt_is_black N1 (nlf N1 w) \<and> ngx_rbt_is_black N1 (nrg N1 w)" unfolding bl by simp
    then have "x' = p" "N' = ngx_rbt_red w N1" using step N1 x by (simp_all add: ngx_delete_left_def Let_def)
    moreover have "step_left x (as_rb N) = (pa (set_color w RED (as_rb N1)) x, set_color w RED (as_rb N1))"
      unfolding step_left_def s1 Let_def prod.case using True by (rule if_P)
    ultimately show ?thesis using x by (simp add: as_rb_paint links_color del: upd_node_simps(1))
  next
    case False
    then have nb: "\<not> (ngx_rbt_is_black N1 (nlf N1 w) \<and> ngx_rbt_is_black N1 (nrg N1 w))" unfolding bl by simp
    obtain v N2 where N2: "ngx_outer_left x w N1 = (v, N2)" by force
    note s2 = ngx_outer_left_sim [OF D1 False N2]
    obtain vl vr where D2: "deficient S xs (as_rb N2) t k (FL p (Node vl v vr) # hs) x" "color_of (as_rb N2) t = BLACK"
      using outer_red_left_ok [OF D1 False s2] by auto
    have "(x', N') = (nt_root (ngx_close_left x v N2), ngx_close_left x v N2)"
      using step N1 N2 nb by (auto simp: ngx_delete_left_def Let_def)
    moreover have "step_left x (as_rb N) = (rt_root (close_left x v (as_rb N2)), close_left x v (as_rb N2))"
      unfolding step_left_def s1 Let_def prod.case if_not_P [OF False] s2 ..
    ultimately show ?thesis using ngx_close_left_sim [OF D2] by simp
  qed
qed

section \<open>The mirror image\<close>

lemma ngx_step_flip: "ngx_delete_left x (nflip N) = (case ngx_delete_right x N of (y, N) \<Rightarrow> (y, nflip N))"
proof -
  have sib: "ngx_sibling_left x (nflip N) = (case ngx_sibling_right x N of (y, N) \<Rightarrow> (y, nflip N))" for N
    by (simp add: ngx_sibling_left_def ngx_sibling_right_def Let_def nset_flip nrotate_flip)
  have out: "ngx_outer_left x w (nflip N) = (case ngx_outer_right x w N of (y, N) \<Rightarrow> (y, nflip N))" for w N
    by (simp add: ngx_outer_left_def ngx_outer_right_def Let_def nset_flip nrotate_flip)
  have cl: "ngx_close_left x w (nflip N) = nflip (ngx_close_right x w N)" for w N
    by (simp add: ngx_close_left_def ngx_close_right_def Let_def nset_flip nrotate_flip)
  show ?thesis
    by (auto simp: ngx_delete_left_def ngx_delete_right_def sib out cl Let_def nset_flip split: prod.split)
qed

lemma ngx_delete_right_sim:
  assumes D: "deficient S xs (as_rb N) t k (FR s p # gs) x" and b: "color_of (as_rb N) t = BLACK" and step: "ngx_delete_right x N = (x', N')"
  shows "step_right x (as_rb N) = (x', as_rb N')"
proof -
  have "deficient (flip S) (rev xs) (as_rb (nflip N)) (mirror t) k (FL p (mirror s) # map flip_frame gs) x"
    using deficient_flip [OF D] by (simp add: as_rb_flip)
  moreover have "color_of (as_rb (nflip N)) (mirror t) = BLACK" using b by (simp add: as_rb_flip)
  moreover have "ngx_delete_left x (nflip N) = (x', nflip N')" using ngx_step_flip [of x N] step by simp
  ultimately have "step_left x (flip (as_rb N)) = (x', flip (as_rb N'))" using ngx_delete_left_sim by (metis as_rb_flip)
  then show ?thesis using step_flip [of x "as_rb N"] by (auto split: prod.splits) (metis flip_flip)
qed

section \<open>The loop\<close>

lemma ngx_delete_loop_done: "\<not> (x \<noteq> nt_root N \<and> \<not> ngx_rbt_is_red N x) \<Longrightarrow> ngx_delete_loop x N = Some (x, N)"
  by (subst ngx_delete_loop.simps) (auto simp: ngx_rbt_is_black_def)

lemma ngx_delete_loop_sim:
  assumes "deficient S xs (as_rb N) t k fs x"
  shows "\<exists>x' N'. ngx_delete_loop x N = Some (x', N') \<and> delete_fixup_loop x (as_rb N) = Some (x', as_rb N')"
  using assms
proof (induction "length fs" arbitrary: N t k fs x rule: less_induct)
  case less
  have at: "at_pos (as_rb N) t fs x" and nil: "col (as_rb N) (rt_nil (as_rb N)) = BLACK" and px: "pa (as_rb N) x = above (as_rb N) fs"
    using less.prems by (auto simp: deficient_def)
  show ?case
  proof (cases "fs = [] \<or> col (as_rb N) x = RED")
    case True
    then have "x = nt_root N \<or> ngx_rbt_is_red N x" using at_pos_root [OF at] by (auto split: if_splits)
    then show ?thesis using ngx_delete_loop_done [of x N] delete_loop_done [of x "as_rb N"] by auto
  next
    case False
    then have nr: "x \<noteq> rt_root (as_rb N)" "col (as_rb N) x = BLACK" using at_pos_root [OF at] by auto
    then have b: "color_of (as_rb N) t = BLACK" using color_ptr [OF _ nil] at by (auto simp: at_pos_def)
    have xn: "x \<noteq> nt_root N" "\<not> ngx_rbt_is_red N x" using nr by (auto split: if_splits)
    have "\<exists>x1 N1. ngx_delete_loop x N = ngx_delete_loop x1 N1 \<and> delete_fixup_loop x (as_rb N) = delete_fixup_loop x1 (as_rb N1)
      \<and> outcome S xs (length fs - 1) x1 (as_rb N1)"
    proof (cases fs rule: clist.cases)
      case 1
      then show ?thesis using False by simp
    next
      case FL: (2 p s gs)
      obtain x1 N1 where st: "ngx_delete_left x N = (x1, N1)" by force
      note st' = ngx_delete_left_sim [OF less.prems [unfolded FL] b st]
      have l: "x = lf (as_rb N) (pa (as_rb N) x)" using at px FL by (auto simp: at_FL)
      then have "ngx_delete_loop x N = ngx_delete_loop x1 N1"
        by (subst ngx_delete_loop.simps) (use xn st in \<open>simp add: ngx_rbt_is_black_def\<close>)
      then show ?thesis using delete_loop_left [OF nr l] st' step_left_ok [OF less.prems [unfolded FL] b st'] FL
        by (intro exI [of _ x1] exI [of _ N1]) simp
    next
      case FR: (3 s p gs)
      obtain x1 N1 where st: "ngx_delete_right x N = (x1, N1)" by force
      note st' = ngx_delete_right_sim [OF less.prems [unfolded FR] b st]
      have "bheight (as_rb N) s \<noteq> 0" using less.prems FR by (auto simp: deficient_def)
      then have l: "x \<noteq> lf (as_rb N) (pa (as_rb N) x)" using at px FR rep_root [of "as_rb N" "above (as_rb N) fs" t x]
        by (cases s) (auto simp: at_pos_def)
      then have "ngx_delete_loop x N = ngx_delete_loop x1 N1"
        by (subst ngx_delete_loop.simps) (use xn st in \<open>simp add: ngx_rbt_is_black_def\<close>)
      then show ?thesis using delete_loop_right [OF nr l] st' step_right_ok [OF less.prems [unfolded FR] b st'] FR
        by (intro exI [of _ x1] exI [of _ N1]) simp
    qed
    then obtain x1 N1 where step: "ngx_delete_loop x N = ngx_delete_loop x1 N1" "delete_fixup_loop x (as_rb N) = delete_fixup_loop x1 (as_rb N1)"
      and out: "outcome S xs (length fs - 1) x1 (as_rb N1)" by blast
    show ?thesis
      using out unfolding outcome_def
    proof (elim disjE exE conjE)
      assume "x1 = rt_root (as_rb N1)"
      then show ?thesis using step ngx_delete_loop_done [of x1 N1] delete_loop_done [of x1 "as_rb N1"] by auto
    next
      fix t1 k1 hs assume D: "deficient S xs (as_rb N1) t1 k1 hs x1" and "length hs \<le> length fs - 1"
      then show ?thesis using less.hyps [OF _ D] False step by (cases fs) auto
    next
      fix t1 k1 hs assume "col (as_rb N1) x1 = RED"
      then have "ngx_rbt_is_red N1 x1" by (simp split: if_splits)
      then show ?thesis using step ngx_delete_loop_done [of x1 N1] delete_loop_done [of x1 "as_rb N1"] by auto
    qed
  qed
qed

section \<open>Repair after unlinking\<close>

lemma ngx_repair:
  assumes at: "at_pos (as_rb N) c fs x" "pa (as_rb N) x = above (as_rb N) fs" and nil: "\<not> ngx_rbt_is_red N (nt_sentinel N)"
    and c: "invc (as_rb N) c" "invh (as_rb N) c" "bheight (as_rb N) c = 0"
    and ctx: "if red then ctx_ok (as_rb N) 0 fs \<and> fs \<noteq> [] \<and> color_of (as_rb N) c = BLACK else ctx_ok (as_rb N) 1 fs"
  shows "\<exists>N'. (if red then Some N else do { (temp, N) \<leftarrow> ngx_delete_loop x N; Some (ngx_rbt_black temp N) }) = Some N'
    \<and> rb_post (as_rb N) (inorder (plug c fs)) (as_rb N')"
proof (cases red)
  case True
  then have "invc (as_rb N) (plug c fs) \<and> invh (as_rb N) (plug c fs) \<and> color_of (as_rb N) (plug c fs) = BLACK"
    using plug_inv [of "as_rb N" 0 fs c] c ctx by auto
  then have "rb_post (as_rb N) (inorder (plug c fs)) (as_rb N)"
    using at_pos_nonroot_ctx [OF at(1)] nil by (auto simp: rb_post_def)
  then show ?thesis using True by simp
next
  case False
  have "subs_ok (as_rb N) 0 c" using c by (cases c) (auto simp: subs_ok_def)
  then have D: "deficient (as_rb N) (inorder (plug c fs)) (as_rb N) c 0 fs x" using at nil ctx False by (simp add: deficient_def)
  obtain x' N' where "ngx_delete_loop x N = Some (x', N')" "delete_fixup_loop x (as_rb N) = Some (x', as_rb N')" using ngx_delete_loop_sim [OF D] by blast
  moreover from this have "rb_post (as_rb N) (inorder (plug c fs)) (set_color x' BLACK (as_rb N'))" using delete_fixup_ok [OF D] by auto
  ultimately show ?thesis using False by (simp add: as_rb_paint)
qed

text \<open>The tree without the node \<open>z\<close>, whose key is cleared.\<close>

definition ngx_removed :: "uint32 \<Rightarrow> ngx_rbtree \<Rightarrow> addr tree \<Rightarrow> addr \<Rightarrow> ngx_rbtree \<Rightarrow> bool" where
  "ngx_removed org N t z N' \<longleftrightarrow> (\<exists>t' xs ys. ngx_ok org N' t' \<and> inorder t = xs @ z # ys \<and> inorder t' = xs @ ys \<and> nt_sentinel N' = nt_sentinel N
     \<and> (\<forall>n. n \<noteq> z \<longrightarrow> nky N' n = nky N n))"

lemma ngx_removed_intro:
  assumes ok: "ngx_ok org N t" and post: "rb_post (as_rb N1) (xs @ ys) (as_rb N')" and l: "inorder t = xs @ z # ys"
    and N1: "nt_sentinel N1 = nt_sentinel N" "\<And>n. n \<noteq> z \<Longrightarrow> nky N1 n = nky N n"
  shows "ngx_removed org N t z N'"
proof -
  have d: "distinct (xs @ z # ys)" "sorted (map (\<lambda>n. nky N n - org) (xs @ z # ys))" using ok l by (simp_all add: ngx_ok_def)
  have "\<forall>n \<in> set (xs @ ys). n \<noteq> z" using d(1) by auto
  then have "map (\<lambda>n. nky N1 n - org) (xs @ ys) = map (\<lambda>n. nky N n - org) (xs @ ys)" using N1(2) by (intro map_cong refl) simp
  moreover have "sorted (map (\<lambda>n. nky N n - org) (xs @ ys))" using d(2) by (auto simp: sorted_append)
  ultimately have "sorted (map (\<lambda>n. nky N1 n - org) (xs @ ys))" by argo
  from ngx_ok_post [OF post this] d(1) obtain t' where "ngx_ok org N' t'" "inorder t' = xs @ ys" "nt_sentinel N' = nt_sentinel N1"
    "\<forall>n. nky N' n = nky N1 n" by auto
  then show ?thesis unfolding ngx_removed_def using l N1 by (intro exI [of _ t'] exI [of _ xs] exI [of _ ys]) simp
qed

section \<open>The node leaves its own place\<close>

lemma debug_clear_simps [simp]:
  "nt_root (debug_clear z N) = nt_root N" "nt_sentinel (debug_clear z N) = nt_sentinel N"
  "ngx_rbt_is_red (debug_clear z N) n = ngx_rbt_is_red N n" "n \<noteq> z \<Longrightarrow> nt_node (debug_clear z N) n = nt_node N n"
  by (simp_all add: debug_clear_def ngx_rbt_is_red_def)

text \<open>Clearing a node outside of the tree.\<close>

lemma debug_clear_at:
  assumes at: "at_pos (as_rb N) c fs x" and z: "z \<notin> set_tree c" "z \<notin> set (clist fs)"
  shows "at_pos (as_rb (debug_clear z N)) c fs x" "above (as_rb (debug_clear z N)) fs = above (as_rb N) fs"
proof -
  have sl: "same_links A (as_rb N) (as_rb (debug_clear z N))" if "z \<notin> A" for A
  proof -
    have "\<forall>a \<in> A. a \<noteq> z" using that by blast
    then show ?thesis by (simp add: same_links_def)
  qed
  have "repc (as_rb (debug_clear z N)) fs x = repc (as_rb N) fs x \<and> above (as_rb (debug_clear z N)) fs = above (as_rb N) fs"
    by (rule repc_cong [OF sl [OF z(2)]]) simp
  then show "at_pos (as_rb (debug_clear z N)) c fs x" "above (as_rb (debug_clear z N)) fs = above (as_rb N) fs"
    using at rep_cong [OF sl [OF z(1)]] by (simp_all add: at_pos_def)
qed

definition ngx_unlink :: "addr \<Rightarrow> addr \<Rightarrow> ngx_rbtree \<Rightarrow> ngx_rbtree" where
  "ngx_unlink y x N = (if y = nlf N (npa N y) then nset_left (npa N y) x N else nset_right (npa N y) x N)"

lemma ngx_unlink_fields:
  assumes "N' = ngx_unlink y x N" "npa N y = q"
  shows "nlf N' n = (if n = q \<and> y = nlf N q then x else nlf N n)" "nrg N' n = (if n = q \<and> y \<noteq> nlf N q then x else nrg N n)"
    "npa N' n = npa N n" "nt_root N' = nt_root N" "nt_sentinel N' = nt_sentinel N" "ngx_rbt_is_red N' n = ngx_rbt_is_red N n" "nky N' n = nky N n"
    "nn_color (nt_node N' n) = nn_color (nt_node N n)"
  unfolding assms(1) ngx_unlink_def assms(2) by (auto simp: ngx_rbt_is_red_def)

text \<open>With the parent of \<open>x\<close> set, this is the \<open>splice\<close> of the other tree.\<close>

lemma ngx_splice:
  assumes q: "npa N y = q" "y \<noteq> nt_root N" "q \<noteq> nt_sentinel N" and x: "x \<noteq> y" "x \<noteq> nt_root N"
  shows "as_rb (nset_parent x q (ngx_unlink y x N)) = splice y x (as_rb N)"
proof -
  have p: "pa (as_rb N) y = q" using q by simp
  note f = splice_fields [OF x(1) p refl] and g = ngx_unlink_fields [OF refl q(1)]
  show ?thesis
    by (rule rb_eqI) (use f g q x in \<open>auto simp: ngx_rbt_is_red_def\<close>)
qed

lemma ngx_ok_at:
  assumes "ngx_ok org N (plug (Node l z r) fs)" shows "at_pos (as_rb N) (Node l z r) fs z"
proof -
  have "rep (as_rb N) (rt_nil (as_rb N)) (plug (Node l z r) fs) (rt_root (as_rb N))" using assms by (simp add: ngx_ok_def)
  then obtain p where "rep (as_rb N) (above (as_rb N) fs) (Node l z r) p" "repc (as_rb N) fs p" unfolding rep_plug by blast
  moreover have "distinct (inorder (Node l z r) @ clist fs)" using assms by (simp add: ngx_ok_def distinct_plug)
  ultimately show ?thesis unfolding at_pos_def by simp
qed

lemma ngx_delete_self:
  assumes ok: "ngx_ok org N t" and t: "t = plug (Node l z r) fs" and lr: "l = Leaf \<or> r = Leaf"
  shows "\<exists>N'. ngx_rbtree_delete z N = Some N' \<and> ngx_removed org N t z N'"
proof -
  define T where "T = as_rb N"
  have at: "at_pos T (Node l z r) fs z" unfolding T_def by (rule ngx_ok_at [OF ok [unfolded t]])
  have rp: "rep T z l (nlf N z)" "rep T z r (nrg N z)" "z \<noteq> nt_sentinel N" and d: "distinct (inorder l @ z # inorder r @ clist fs)"
    using at by (auto simp: at_pos_def T_def)
  have inv: "ctx_ok T (bheight T (Node l z r)) fs" "invc T (Node l z r)" "invh T (Node l z r)" "col T z = BLACK \<or> fs \<noteq> [] \<and> col T (above T fs) = BLACK"
    using plug_inv_conv [of T "Node l z r" fs] ok by (auto simp: t T_def ngx_ok_def)
  obtain c x where c: "l = Leaf \<and> c = r \<or> r = Leaf \<and> c = l" and x: "rep T z c x" and ch: "choose_subst z N = Some (z, x)"
  proof (cases "l = Leaf")
    case True
    then have "nlf N z = nt_sentinel N" using rp(1) by (simp add: T_def)
    then show ?thesis using that [of r "nrg N z"] True rp(2) by (simp add: choose_subst_def)
  next
    case False
    then have "nlf N z \<noteq> nt_sentinel N" "nrg N z = nt_sentinel N" using rp(2) rep_Leaf [OF rp(1)] lr by (simp_all add: T_def)
    then show ?thesis using that [of l "nlf N z"] False lr rp(1) by (simp add: choose_subst_def)
  qed
  have dc: "distinct (inorder c)" "z \<notin> set_tree c" "set_tree c \<inter> set (clist fs) = {}" "z \<notin> set (clist fs)" using d c by auto
  have xc: "x = nt_sentinel N \<or> x \<in> set_tree c" using rep_root [OF x] by (simp add: T_def)
  then have xz: "x \<noteq> z" using rp(3) dc(2) by auto
  have cc: "invc T c" "invh T c" "bheight T c = 0" "col T z = RED \<Longrightarrow> color_of T c = BLACK" using inv(2,3) c by auto
  obtain xs ys where ord: "inorder t = xs @ z # ys" "inorder (plug c fs) = xs @ ys" using inorder_unlink [OF c] t by metis
  show ?thesis
  proof (cases "fs = []")
    case True
    then have root: "z = nt_root N" using at by (simp add: at_pos_def T_def)
    define N1 where "N1 = debug_clear z (N\<lparr>nt_root := x\<rparr>)"
    have del: "ngx_rbtree_delete z N = Some (ngx_rbt_black x N1)"
      using ch root xz by (simp add: ngx_rbtree_delete_def N1_def debug_clear_def ngx_rbt_black_def nupd_def fun_upd_twist)
    have k: "nt_sentinel N1 = nt_sentinel N" "n \<noteq> z \<Longrightarrow> nky N1 n = nky N n" for n by (simp_all add: N1_def)
    have nil: "\<not> ngx_rbt_is_red N1 (nt_sentinel N1)" using ok rp(3) by (simp add: N1_def ngx_ok_def ngx_rbt_is_red_def debug_clear_def)
    have keep: "nt_node N1 a = nt_node N a \<and> a \<noteq> nt_root N" if "a \<in> set_tree c" for a
      using that dc(2) root by (metis N1_def debug_clear_simps(4) ngx_rbtree.ext_inject ngx_rbtree.surjective ngx_rbtree.update_convs(1))
    have "nt_root N1 = x" by (simp add: N1_def)
    then have "rep (as_rb N1) (nt_sentinel N) c x"
      using xc by (intro rep_reparent [OF x dc(1)]) (auto simp: same_links_def T_def k(1) keep rep_Leaf [OF x, symmetric])
    then have rep1: "rep (as_rb N1) (rt_nil (as_rb N1)) c (rt_root (as_rb N1))" by (simp add: N1_def)
    have col1: "col (as_rb N1) n = col T n" for n by (simp add: N1_def T_def ngx_rbt_is_red_def debug_clear_def)
    have inv1: "invc (as_rb N1) c" "invh (as_rb N1) c" using cc colors_cong [of c "as_rb N1" T] col1 by auto
    have "rb_post (as_rb N1) (inorder c) (as_rb (ngx_rbt_black x N1))"
    proof (cases "c = Leaf")
      case True
      then have "x = nt_sentinel N" "nt_root N1 = x" using x by (simp_all add: T_def N1_def)
      then show ?thesis using True k(1) nil by (simp add: rb_post_def as_rb_paint)
    next
      case False
      have "rb_post (as_rb N1) (inorder c) (set_color (rt_root (as_rb N1)) BLACK (as_rb N1))"
        by (rule blacken [OF rep1 dc(1) inv1 False]) (use nil in simp)
      then show ?thesis by (simp add: as_rb_paint N1_def)
    qed
    then show ?thesis using del ngx_removed_intro [OF ok _ ord(1) k] ord(2) True by simp
  next
    case False
    define q where "q = above T fs"
    have zq: "npa N z = q" "z \<noteq> nt_root N" using raw_pa [OF at [unfolded T_def] False] by (simp_all add: q_def T_def)
    have qf: "q \<in> set (clist fs)" "q \<noteq> nt_sentinel N" using above_nil [of T fs z] above_in [of T fs] at False by (auto simp: q_def T_def at_pos_def)
    have "nt_root N \<in> set (clist fs)" using root_in_clist [of T fs z] at False by (simp add: at_pos_def T_def)
    then have xr: "x \<noteq> nt_root N" using xc dc(3) nil_notin_c [of T fs z] at by (auto simp: at_pos_def T_def)
    define N2 where "N2 = nset_parent x q (ngx_unlink z x N)"
    define N3 where "N3 = debug_clear z N2"
    have sp: "as_rb N2 = splice z x T" unfolding N2_def T_def by (rule ngx_splice [OF zq qf(2) xz xr])
    have at2: "at_pos (as_rb N2) c fs x" "pa (as_rb N2) x = above (as_rb N2) fs" using splice_at [OF at c x sp] by simp_all
    note at3 = debug_clear_at [OF at2(1) dc(2,4), folded N3_def]
    have "pa (as_rb N3) x = above (as_rb N3) fs" using at2(2) at3(2) xz by (auto simp: N3_def split: if_splits)
    note at3 = at3(1) this
    have col3: "col (as_rb N3) n = col T n" for n
      using splice_fields(6) [OF xz _ sp, of "pa T z" n] by (simp add: N3_def)
    have k: "nt_sentinel N3 = nt_sentinel N" "n \<noteq> z \<Longrightarrow> nky N3 n = nky N n" for n
      by (simp_all add: N3_def N2_def ngx_unlink_def)
    have nil: "\<not> ngx_rbt_is_red N3 (nt_sentinel N3)" using col3 [of "nt_sentinel N"] ok k(1) by (simp add: T_def ngx_ok_def split: if_splits)
    have c3: "invc (as_rb N3) c" "invh (as_rb N3) c" "bheight (as_rb N3) c = 0" "col T z = RED \<Longrightarrow> color_of (as_rb N3) c = BLACK"
      using colors_cong [of c "as_rb N3" T] col3 cc by auto
    have ctx3: "ctx_ok (as_rb N3) j fs = ctx_ok T j fs" for j by (rule ctx_ok_cong) (use col3 k(1) in \<open>simp_all add: T_def\<close>)
    have b: "bheight T l = 0" using inv(3) c by auto
    have ctx: "if ngx_rbt_is_red N z then ctx_ok (as_rb N3) 0 fs \<and> fs \<noteq> [] \<and> color_of (as_rb N3) c = BLACK else ctx_ok (as_rb N3) 1 fs"
      using inv(1) b c3(4) False ctx3 by (cases "ngx_rbt_is_red N z") (simp_all add: T_def)
    obtain N' where N': "(if ngx_rbt_is_red N z then Some N3 else do { (temp, N) \<leftarrow> ngx_delete_loop x N3; Some (ngx_rbt_black temp N) }) = Some N'"
      "rb_post (as_rb N3) (inorder (plug c fs)) (as_rb N')" using ngx_repair [OF at3 nil c3(1-3) ctx] by blast
    have np: "npa (ngx_unlink z x N) z = q" using ngx_unlink_fields(3) [OF refl zq(1)] zq(1) by simp
    have "ngx_rbtree_delete z N = Some N'"
      using ch zq(2) N'(1) unfolding ngx_rbtree_delete_def ngx_unlink_def [symmetric] Let_def
      by (cases "ngx_rbt_is_red N z") (simp_all add: np N2_def [symmetric] N3_def [symmetric])
    then show ?thesis using ngx_removed_intro [OF ok _ ord(1) k] N'(2) ord(2) by auto
  qed
qed

end
