(* ===== verification/NgxRemove.thy ===== *)
theory NgxRemove
  imports NgxDelete
begin

text \<open>
  Deletion of a node with two children: its successor is relinked to its place. With this the deletion of the
  nginx tree is complete.
\<close>

section \<open>Positions inside a subtree\<close>

lemma plug_append: "plug t (hs @ fs) = plug (plug t hs) fs"
  by (induction t hs rule: plug.induct) simp_all

lemma clist_append: "clist (hs @ fs) = clist hs @ clist fs"
  by (induction hs rule: clist.induct) simp_all

lemma at_plugI: "at_pos T c (hs @ fs) x \<Longrightarrow> \<exists>p. at_pos T (plug c hs) fs p"
proof (induction c hs arbitrary: x rule: plug.induct)
  case (2 t a r gs)
  then have "at_pos T (Node t a r) (gs @ fs) a" by (simp add: at_FL)
  from "2.IH" [OF this] show ?case by simp
next
  case (3 t l a gs)
  then have "at_pos T (Node l a t) (gs @ fs) a" by (simp add: at_FR)
  from "3.IH" [OF this] show ?case by simp
qed auto

lemma at_plugD: "at_pos T (plug c hs) fs p \<Longrightarrow> \<exists>x. at_pos T c (hs @ fs) x"
proof (induction c hs rule: plug.induct)
  case (2 t a r gs)
  then obtain x where x: "at_pos T (Node t a r) (gs @ fs) x" by auto
  then have "x = a" by (simp add: at_pos_def)
  with x have "at_pos T t (FL a r # gs @ fs) (lf T a)" by (simp add: at_FL)
  then show ?case by auto
next
  case (3 t l a gs)
  then obtain x where x: "at_pos T (Node l a t) (gs @ fs) x" by auto
  then have "x = a" by (simp add: at_pos_def)
  with x have "at_pos T t (FR l a # gs @ fs) (rg T a)" by (simp add: at_FR)
  then show ?case by auto
qed auto

text \<open>Another node \<open>y\<close> takes the place of \<open>z\<close>.\<close>

lemma replace_at:
  assumes at: "at_pos V (Node l z r) fs z" and y: "y \<notin> set_tree l" "y \<notin> set_tree r" "y \<notin> set (clist fs)" "y \<noteq> rt_nil V"
    and nil: "rt_nil W = rt_nil V" and root: "rt_root W = (if fs = [] then y else rt_root V)"
    and ly: "lf W y = lf V z" "rg W y = rg V z" "pa W y = pa V z"
    and sub: "\<And>n. n \<in> set_tree l \<union> set_tree r \<Longrightarrow> lf W n = lf V n \<and> rg W n = rg V n \<and> pa W n = (if n = lf V z \<or> n = rg V z then y else pa V n)"
    and ctx: "\<And>n. n \<in> set (clist fs) \<Longrightarrow> lf W n = (if n = above V fs \<and> z = lf V n then y else lf V n)
      \<and> rg W n = (if n = above V fs \<and> z \<noteq> lf V n then y else rg V n) \<and> pa W n = pa V n"
  shows "at_pos W (Node l y r) fs y" "above W fs = above V fs"
proof -
  have r: "z \<noteq> rt_nil V" "pa V z = above V fs" "rep V z l (lf V z)" "rep V z r (rg V z)" "repc V fs z"
    and d: "distinct (inorder l @ z # inorder r @ clist fs)" using at by (auto simp: at_pos_def)
  have lz: "lf V z = rt_nil V \<or> lf V z \<in> set_tree l" "rg V z = rt_nil V \<or> rg V z \<in> set_tree r" using r(3,4) rep_root by blast+
  have nn: "rt_nil V \<notin> set_tree l" "rt_nil V \<notin> set_tree r" "rt_nil V \<notin> set (clist fs)"
    using nil_notin [OF r(3)] nil_notin [OF r(4)] nil_notin_c [OF r(5)] by simp_all
  have L: "rep W y l (lf V z)"
  proof (rule rep_reparent [OF r(3)])
    show "same_links (set_tree l - {lf V z}) V W" using sub nil d lz(2) nn by (fastforce simp: same_links_def)
    show "l \<noteq> Leaf \<Longrightarrow> lf W (lf V z) = lf V (lf V z) \<and> rg W (lf V z) = rg V (lf V z) \<and> pa W (lf V z) = y"
      using sub [of "lf V z"] lz(1) rep_Leaf [OF r(3)] by auto
  qed (use d in simp)
  have R: "rep W y r (rg V z)"
  proof (rule rep_reparent [OF r(4)])
    show "same_links (set_tree r - {rg V z}) V W" using sub nil d lz(1) nn by (fastforce simp: same_links_def)
    show "r \<noteq> Leaf \<Longrightarrow> lf W (rg V z) = lf V (rg V z) \<and> rg W (rg V z) = rg V (rg V z) \<and> pa W (rg V z) = y"
      using sub [of "rg V z"] lz(2) rep_Leaf [OF r(4)] by auto
  qed (use d in simp)
  have side: "fs = FL a s # gs \<Longrightarrow> z = lf V a \<and> z \<noteq> rg V a" "fs = FR s a # gs \<Longrightarrow> z = rg V a \<and> z \<noteq> lf V a" for a s gs
    using repc_side [OF r(5), of "{z}"] d r(1) by auto
  have c: "repc W fs y \<and> above W fs = above V fs"
  proof (rule repc_redirect [OF r(5) _ nil])
    show "same_links (set (clist fs) - {above V fs}) V W" using ctx nil by (auto simp: same_links_def)
    show "fs = [] \<Longrightarrow> rt_root W = y" "fs \<noteq> [] \<Longrightarrow> rt_root W = rt_root V" using root by simp_all
    show "fs = FL a r # gs \<Longrightarrow> lf W a = y \<and> rg W a = rg V a \<and> pa W a = pa V a" for a r gs using ctx [of a] side(1) [of a r gs] by auto
    show "fs = FR l a # gs \<Longrightarrow> rg W a = y \<and> lf W a = lf V a \<and> pa W a = pa V a" for l a gs using ctx [of a] side(2) [of l a gs] by auto
  qed (use d in auto)
  then show "above W fs = above V fs" by simp
  show "at_pos W (Node l y r) fs y" using c L R y nil ly r(2) d by (auto simp: at_pos_def)
qed

text \<open>The colours around a position do not change when the new node has the colour of the old one.\<close>

lemma ctx_replace:
  assumes "\<And>n. n \<in> set (clist (hs @ FR l z # fs)) - {z} \<Longrightarrow> col W n = col V n" "col W y = col V z" "rt_nil W = rt_nil V"
    "col W (rt_nil V) = col V (rt_nil V)" "z \<notin> set (clist hs) \<union> set_tree l \<union> set (clist fs)"
  shows "ctx_ok W k (hs @ FR l y # fs) = ctx_ok V k (hs @ FR l z # fs)"
  using assms(1,5)
proof (induction hs arbitrary: k)
  case Nil
  have c: "ctx_ok W j fs = ctx_ok V j fs" for j by (rule ctx_ok_cong) (use Nil assms(3,4) in auto)
  have l: "invc W l = invc V l \<and> invh W l = invh V l \<and> bheight W l = bheight V l \<and> color_of W l = color_of V l"
    using colors_cong [of l W V] Nil by auto
  have ab: "fs \<noteq> [] \<Longrightarrow> col W (above W fs) = col V (above V fs)"
    using Nil assms(3,4) by (cases fs rule: clist.cases) auto
  show ?case using c l ab assms(2) by auto
next
  case (Cons f hs)
  have ih: "ctx_ok W j (hs @ FR l y # fs) = ctx_ok V j (hs @ FR l z # fs)" for j
    using Cons by (cases f) auto
  have ab: "col W (above W (hs @ FR l y # fs)) = col V (above V (hs @ FR l z # fs))"
  proof (cases hs rule: clist.cases)
    case 1
    then show ?thesis using assms(2) by simp
  qed (use Cons.prems in \<open>cases f; auto\<close>)+
  show ?case
  proof (cases f)
    case (FL a s)
    have "invc W s = invc V s \<and> invh W s = invh V s \<and> bheight W s = bheight V s \<and> color_of W s = color_of V s"
      using colors_cong [of s W V] Cons.prems FL by auto
    moreover have "col W a = col V a" using Cons.prems FL by auto
    ultimately show ?thesis using FL ih ab by simp
  next
    case (FR s a)
    have "invc W s = invc V s \<and> invh W s = invh V s \<and> bheight W s = bheight V s \<and> color_of W s = color_of V s"
      using colors_cong [of s W V] Cons.prems FR by auto
    moreover have "col W a = col V a" using Cons.prems FR by auto
    ultimately show ?thesis using FR ih ab by simp
  qed
qed

section \<open>The least node of a subtree\<close>

lemma pre_append: "pre (hs @ fs) = pre fs @ pre hs"
  by (induction hs rule: pre.induct) simp_all

lemma ngx_min_ok:
  assumes "rep (as_rb N) par (Node l a r) a"
  shows "\<exists>y yr hs. ngx_rbtree_min N a = Some y \<and> Node l a r = plug (Node Leaf y yr) hs \<and> pre hs = []"
  using assms
proof (induction l arbitrary: a r par)
  case Leaf
  then show ?case by (subst ngx_rbtree_min.simps) (auto intro!: exI [of _ "[]"])
next
  case (Node l1 b r1)
  then have "nlf N a = b" "b \<noteq> nt_sentinel N" "rep (as_rb N) a (Node l1 b r1) b" by auto
  moreover from this have "ngx_rbtree_min N a = ngx_rbtree_min N b" by (subst ngx_rbtree_min.simps) simp
  moreover obtain y yr hs where "ngx_rbtree_min N b = Some y" "Node l1 b r1 = plug (Node Leaf y yr) hs" "pre hs = []"
    using Node.IH(1) [OF calculation(3)] by blast
  ultimately show ?case by (intro exI [of _ y] exI [of _ yr] exI [of _ "hs @ [FL a r]"]) (simp add: plug_append pre_append)
qed

section \<open>Relinking\<close>

lemma move_fields:
  assumes L: "nlf N z = L" and R: "nrg N z = R" and P: "npa N z = P" and q: "npa N y = q"
    and neq: "y \<noteq> z" "x \<noteq> y" "x \<noteq> z" "L \<noteq> y" "L \<noteq> z" "R \<noteq> y" "R \<noteq> z" "z = nt_root N \<or> P \<noteq> y \<and> P \<noteq> z"
    and N': "N' = move_subst z y x N"
  shows "nlf N' n = (if n = y then L else if n = P \<and> z \<noteq> nt_root N \<and> z = nlf N P then y else nlf N n)"
    "nrg N' n = (if n = y then R else if n = P \<and> z \<noteq> nt_root N \<and> z \<noteq> nlf N P then y else nrg N n)"
    "npa N' n = (if n \<noteq> nt_sentinel N \<and> (n = L \<or> n = R) then y else if n = y then P else if n = x then (if q = z then y else q) else npa N n)"
    "nt_root N' = (if z = nt_root N then y else nt_root N)" "nt_sentinel N' = nt_sentinel N"
    "ngx_rbt_is_red N' n = ngx_rbt_is_red N (if n = y then z else n)" "nky N' n = nky N n"
proof -
  define N1 where "N1 = nset_parent x (if q = z then y else q) N"
  define N2 where "N2 = ngx_rbt_copy_color y z (nset_parent y P (nset_right y R (nset_left y L N1)))"
  define N3 where "N3 = (if z = nt_root N then N2\<lparr>nt_root := y\<rparr> else if z = nlf N P then nset_left P y N2 else nset_right P y N2)"
  define N4 where "N4 = (if L \<noteq> nt_sentinel N then nset_parent L y N3 else N3)"
  define N5 where "N5 = (if R \<noteq> nt_sentinel N then nset_parent R y N4 else N4)"
  have f1: "nlf N1 m = nlf N m" "nrg N1 m = nrg N m" "npa N1 m = (if m = x then if q = z then y else q else npa N m)" "nt_root N1 = nt_root N"
    "nt_sentinel N1 = nt_sentinel N" "nn_color (nt_node N1 m) = nn_color (nt_node N m)" "nky N1 m = nky N m" for m by (simp_all add: N1_def)
  have f2: "nlf N2 m = (if m = y then L else nlf N m)" "nrg N2 m = (if m = y then R else nrg N m)" "npa N2 m = (if m = y then P else npa N1 m)"
    "nt_root N2 = nt_root N" "nt_sentinel N2 = nt_sentinel N" "nn_color (nt_node N2 m) = nn_color (nt_node N (if m = y then z else m))" "nky N2 m = nky N m" for m
    using neq(1) by (simp_all add: N2_def f1 ngx_rbt_copy_color_def)
  have f3: "nlf N3 m = (if m = P \<and> z \<noteq> nt_root N \<and> z = nlf N P then y else nlf N2 m)"
    "nrg N3 m = (if m = P \<and> z \<noteq> nt_root N \<and> z \<noteq> nlf N P then y else nrg N2 m)" "npa N3 m = npa N2 m"
    "nt_root N3 = (if z = nt_root N then y else nt_root N)" "nt_sentinel N3 = nt_sentinel N" "nn_color (nt_node N3 m) = nn_color (nt_node N2 m)" "nky N3 m = nky N m" for m
    by (simp_all add: N3_def f2)
  have f4: "nlf N4 m = nlf N3 m" "nrg N4 m = nrg N3 m" "npa N4 m = (if m = L \<and> L \<noteq> nt_sentinel N then y else npa N2 m)"
    "nt_root N4 = nt_root N3" "nt_sentinel N4 = nt_sentinel N" "nn_color (nt_node N4 m) = nn_color (nt_node N2 m)" "nky N4 m = nky N m" for m
    by (simp_all add: N4_def f3)
  have e2: "ngx_rbt_copy_color y z (nset_parent y (npa (nset_right y (nrg (nset_left y (nlf N1 z) N1) z) (nset_left y (nlf N1 z) N1)) z)
      (nset_right y (nrg (nset_left y (nlf N1 z) N1) z) (nset_left y (nlf N1 z) N1))) = N2"
    using neq by (simp add: N2_def f1 L R P)
  have p2: "npa N2 z = P" using neq by (simp add: f2 f1 P)
  have l2: "z \<noteq> nt_root N \<Longrightarrow> nlf N2 P = nlf N P" using neq by (auto simp: f2)
  have e3: "(if z = nt_root N2 then N2\<lparr>nt_root := y\<rparr> else if z = nlf N2 (npa N2 z) then nset_left (npa N2 z) y N2 else nset_right (npa N2 z) y N2) = N3"
    unfolding N3_def p2 f2(4) using l2 by (cases "z = nt_root N") simp_all
  have l3: "nlf N3 y = L" "nrg N4 y = R" using neq by (auto simp: f4 f3 f2)
  have "N' = N5"
    unfolding N' move_subst_def Let_def q if_distrib [of "\<lambda>v. nset_parent x v N", symmetric] N1_def [symmetric] e2 e3 l3(1)
    unfolding f3(5) N4_def [symmetric] l3(2) f4(5) N5_def [symmetric] by (simp add: N5_def)
  then have f: "nlf N' m = nlf N3 m" "nrg N' m = nrg N3 m" "npa N' m = (if m = R \<and> R \<noteq> nt_sentinel N then y else npa N4 m)"
    "nt_root N' = nt_root N3" "nt_sentinel N' = nt_sentinel N" "nn_color (nt_node N' m) = nn_color (nt_node N2 m)" "nky N' m = nky N m" for m
    by (simp_all add: N5_def f4)
  have py: "z \<noteq> nt_root N \<Longrightarrow> P \<noteq> y" using neq by blast
  show "nlf N' n = (if n = y then L else if n = P \<and> z \<noteq> nt_root N \<and> z = nlf N P then y else nlf N n)"
    unfolding f(1) f3(1) f2(1) using py by (cases "n = y"; cases "n = P"; cases "z = nt_root N") simp_all
  show "nrg N' n = (if n = y then R else if n = P \<and> z \<noteq> nt_root N \<and> z \<noteq> nlf N P then y else nrg N n)"
    unfolding f(2) f3(2) f2(2) using py by (cases "n = y"; cases "n = P"; cases "z = nt_root N") simp_all
  show "npa N' n = (if n \<noteq> nt_sentinel N \<and> (n = L \<or> n = R) then y else if n = y then P else if n = x then (if q = z then y else q) else npa N n)"
    unfolding f(3) f4(3) f2(3) f1(3) by auto
  show "nt_root N' = (if z = nt_root N then y else nt_root N)" unfolding f(4) f3(4) ..
  show "nt_sentinel N' = nt_sentinel N" "nky N' n = nky N n" by (rule f)+
  show "ngx_rbt_is_red N' n = ngx_rbt_is_red N (if n = y then z else n)" unfolding ngx_rbt_is_red_def f(6) f2(6) ..
qed

section \<open>Deletion\<close>

lemma ngx_delete_successor:
  assumes ok: "ngx_ok org N t" and t: "t = plug (Node l z r) fs" and lr: "l \<noteq> Leaf" "r \<noteq> Leaf"
  shows "\<exists>N'. ngx_rbtree_delete z N = Some N' \<and> ngx_removed org N t z N'"
proof -
  define T where "T = as_rb N"
  have atz: "at_pos T (Node l z r) fs z" unfolding T_def by (rule ngx_ok_at [OF ok [unfolded t]])
  have rp: "rep T z l (nlf N z)" "rep T z r (nrg N z)" "z \<noteq> nt_sentinel N" using atz by (auto simp: at_pos_def T_def)
  obtain rl a rr where r: "r = Node rl a rr" using lr by (cases r) auto
  have ra: "nrg N z = a" "rep (as_rb N) z (Node rl a rr) a" using rp(2) r by (auto simp: T_def)
  obtain y yr hs where y: "ngx_rbtree_min N a = Some y" "r = plug (Node Leaf y yr) hs" "pre hs = []" using ngx_min_ok [OF ra(2)] r by blast
  define gs where "gs = hs @ FR l z # fs"
  have t': "t = plug (Node Leaf y yr) gs" by (simp add: t y(2) gs_def plug_append)
  have aty: "at_pos T (Node Leaf y yr) gs y" unfolding T_def by (rule ngx_ok_at [OF ok [unfolded t']])
  have rpy: "nlf N y = nt_sentinel N" "rep T y yr (nrg N y)" "y \<noteq> nt_sentinel N" and d: "distinct (y # inorder yr @ clist gs)"
    using aty by (auto simp: at_pos_def T_def)
  define x where "x = nrg N y"
  have nn: "nlf N z \<noteq> nt_sentinel N" "nrg N z \<noteq> nt_sentinel N" using rep_Leaf [OF rp(1)] rep_Leaf [OF rp(2)] lr by (simp_all add: T_def)
  have ch: "choose_subst z N = Some (y, x)" using nn ra(1) y(1) rpy(1) by (simp add: choose_subst_def x_def)
  have d': "distinct (y # inorder yr @ clist hs @ z # inorder l @ clist fs)" using d by (simp add: gs_def clist_append)
  define q where "q = npa N y"
  have gne: "gs \<noteq> []" by (simp add: gs_def)
  have yq: "q = above T gs" "y \<noteq> nt_root N" using raw_pa [OF aty [unfolded T_def] gne] by (simp_all add: q_def T_def)
  have rcy: "repc T gs y" using aty by (simp add: at_pos_def)
  have qs: "q \<noteq> nt_sentinel N" using above_nil [OF rcy] gne by (simp add: yq T_def)
  have rootg: "nt_root N \<in> set (clist gs)" using root_in_clist [OF rcy gne] by (simp add: T_def)
  have ng: "nt_sentinel N \<notin> set (clist gs)" using nil_notin_c [OF rcy] by (simp add: T_def)
  have nyr: "nt_sentinel N \<notin> set_tree yr" using nil_notin [OF rpy(2)] by (simp add: T_def)
  have xc: "x = nt_sentinel N \<or> x \<in> set_tree yr" using rep_root [OF rpy(2)] by (simp add: T_def x_def)
  have xy: "x \<noteq> y" "x \<noteq> nt_root N" "x \<noteq> z" using xc d rootg ng rpy(3) rp(3) by (auto simp: gs_def clist_append)
  define N1 where "N1 = ngx_unlink y x N"
  note g = ngx_unlink_fields [OF N1_def q_def [symmetric]]
  define V where "V = splice y x T"
  have Vn: "V = as_rb (nset_parent x q N1)" unfolding V_def T_def N1_def by (rule ngx_splice [OF q_def [symmetric] yq(2) qs xy(1,2), symmetric])
  have Vf: "lf V n = nlf N1 n" "rg V n = nrg N1 n" "pa V n = (if n = nt_root N then nt_sentinel N else if n = x then q else npa N n)"
    "rt_nil V = nt_sentinel N" "rt_root V = nt_root N" for n by (simp_all add: Vn g)
  have atV: "at_pos V yr gs x" using splice_at [OF aty disjI1 [OF conjI [OF refl refl]] rpy(2) V_def [unfolded x_def]] by (simp add: x_def)
  define r' where "r' = plug yr hs"
  have sr': "set_tree r' = set_tree yr \<union> set (clist hs)" by (simp add: r'_def set_plug)
  have atVz: "at_pos V (Node l z r') fs z" using at_plugI [of V yr hs "FR l z # fs" x] atV by (auto simp: gs_def at_FR r'_def)
  define L R P where "L = nlf N1 z" and "R = nrg N1 z" and "P = npa N1 z"
  have rV: "rep V z l L" "rep V z r' R" "pa V z = above V fs" "repc V fs z" using atVz by (auto simp: at_pos_def L_def R_def Vf)
  have LR: "L \<in> set_tree l" "R = nt_sentinel N \<or> R \<in> set_tree r'"
    using rep_root [OF rV(1)] rep_Leaf [OF rV(1)] lr(1) rep_root [OF rV(2)] by (auto simp: Vf)
  have ns: "nt_sentinel N \<notin> set_tree l" "nt_sentinel N \<notin> set_tree r'" "nt_sentinel N \<notin> set (clist fs)"
    using nil_notin [OF rV(1)] nil_notin [OF rV(2)] nil_notin_c [OF rV(4)] by (simp_all add: Vf)
  have zroot: "z = nt_root N \<longleftrightarrow> fs = []" using at_pos_root [OF atVz] by (simp add: Vf)
  have rootfs: "fs \<noteq> [] \<Longrightarrow> nt_root N \<in> set (clist fs)" using root_in_clist [OF rV(4)] by (simp add: Vf)
  have Pa: "z \<noteq> nt_root N \<Longrightarrow> P = above V fs \<and> P \<in> set (clist fs)"
    using rV(3) xy(3) above_nil [OF rV(4)] above_in [of V fs] zroot by (auto simp: Vf P_def g)
  have dis: "z \<noteq> y" "z \<notin> set_tree l" "z \<notin> set_tree r'" "z \<notin> set (clist fs)" "y \<notin> set_tree l" "y \<notin> set_tree r'" "y \<notin> set (clist fs)"
    "set_tree l \<inter> set_tree r' = {}" "set_tree l \<inter> set (clist fs) = {}" "set_tree r' \<inter> set (clist fs) = {}" "z \<notin> set_tree yr" "z \<notin> set (clist hs)"
    "y \<notin> set_tree yr" "y \<notin> set (clist hs)" using d' by (auto simp: sr')
  have neq: "y \<noteq> z" "x \<noteq> y" "x \<noteq> z" "L \<noteq> y" "L \<noteq> z" "R \<noteq> y" "R \<noteq> z" "z = nt_root N1 \<or> P \<noteq> y \<and> P \<noteq> z"
    using dis xy LR rpy(3) rp(3) Pa by (auto simp: g)
  define N2 where "N2 = move_subst z y x N1"
  define N3 where "N3 = debug_clear z N2"
  have q1: "npa N1 y = q" by (simp add: g q_def)
  note m = move_fields [OF L_def [symmetric] R_def [symmetric] P_def [symmetric] q1 neq N2_def]
  have W: "n \<noteq> z \<Longrightarrow> nt_node N3 n = nt_node N2 n" "nt_root N3 = nt_root N2" "nt_sentinel N3 = nt_sentinel N" "ngx_rbt_is_red N3 n = ngx_rbt_is_red N2 n" for n
    by (simp_all add: N3_def m g)
  have col3: "ngx_rbt_is_red N3 n = ngx_rbt_is_red N (if n = y then z else n)" for n by (simp add: W m g)
  have qz: "q = z \<Longrightarrow> R = x"
  proof -
    assume "q = z"
    moreover have "nlf N z \<noteq> y" using rep_root [OF rp(1)] dis(5) rpy(3) by (auto simp: T_def)
    ultimately show "R = x" by (simp add: R_def g)
  qed
  have atW: "at_pos (as_rb N3) (Node l y r') fs y"
  proof (rule replace_at(1) [OF atVz])
    show "y \<notin> set_tree l" "y \<notin> set_tree r'" "y \<notin> set (clist fs)" by (fact dis)+
    show "y \<noteq> rt_nil V" "rt_nil (as_rb N3) = rt_nil V" using rpy(3) by (simp_all add: Vf W)
    show "rt_root (as_rb N3) = (if fs = [] then y else rt_root V)" using zroot by (simp add: W m g Vf)
    show "lf (as_rb N3) y = lf V z" "rg (as_rb N3) y = rg V z" using dis(1) by (simp_all add: W m Vf L_def R_def)
    have "npa N2 y = P" using neq by (simp add: m)
    then show "pa (as_rb N3) y = pa V z" using dis(1) xy yq(2) by (auto simp: W m g Vf P_def)
    fix n
    show "lf (as_rb N3) n = lf V n \<and> rg (as_rb N3) n = rg V n \<and> pa (as_rb N3) n = (if n = lf V z \<or> n = rg V z then y else pa V n)"
      if n: "n \<in> set_tree l \<union> set_tree r'"
    proof -
      have a: "n \<noteq> z" "n \<noteq> y" "n \<noteq> nt_sentinel N" "n \<notin> set (clist fs)" using n dis ns by auto
      have b: "n \<noteq> nt_root N" using a rootfs zroot by (cases "fs = []") auto
      have np: "z \<noteq> nt_root N \<Longrightarrow> n \<noteq> P" using Pa a(4) by blast
      have c: "nlf N2 n = nlf N1 n" "nrg N2 n = nrg N1 n"
        unfolding m(1,2) g(4) using a(2) np by (cases "z = nt_root N"; simp)+
      have e: "npa N2 n = (if n = L \<or> n = R then y else if n = x then q else npa N n)" using a qz by (auto simp: m g)
      have f: "nt_root N2 \<noteq> n" using a b by (simp add: m g)
      show ?thesis using a b c e f by (simp add: W Vf L_def R_def)
    qed
    show "lf (as_rb N3) n = (if n = above V fs \<and> z = lf V n then y else lf V n)
      \<and> rg (as_rb N3) n = (if n = above V fs \<and> z \<noteq> lf V n then y else rg V n) \<and> pa (as_rb N3) n = pa V n" if n: "n \<in> set (clist fs)"
    proof -
      have a: "n \<noteq> z" "n \<noteq> y" "n \<noteq> nt_sentinel N" "n \<noteq> L" "n \<noteq> R" "n \<noteq> x" using n dis ns LR xc by (auto simp: sr')
      have b: "z \<noteq> nt_root N" using zroot n by auto
      have c: "nlf N2 n = (if n = above V fs \<and> z = nlf N1 n then y else nlf N1 n)" "nrg N2 n = (if n = above V fs \<and> z \<noteq> nlf N1 n then y else nrg N1 n)"
        using a b Pa by (auto simp: m g(4))
      have e: "npa N2 n = npa N n" "nt_root N2 = nt_root N" using a b by (auto simp: m g)
      have h: "lf (as_rb N3) n = nlf N2 n" "rg (as_rb N3) n = nrg N2 n" "pa (as_rb N3) n = pa V n" using a(1,6) e by (simp_all add: W Vf)
      show ?thesis by (simp only: h c Vf(1,2) simp_thms)
    qed
  qed
  define gs' where "gs' = hs @ FR l y # fs"
  have "at_pos (as_rb N3) r' (FR l y # fs) (rg (as_rb N3) y)" using atW by (simp add: at_FR)
  then obtain x' where x': "at_pos (as_rb N3) yr gs' x'" unfolding r'_def gs'_def using at_plugD by blast
  have "x' = x"
  proof (rule rep_unique [of V])
    show "rep V (above V gs) yr x" "rep (as_rb N3) (above (as_rb N3) gs') yr x'" using atV x' by (simp_all add: at_pos_def)
  qed (simp add: W Vf)
  with x' have at3: "at_pos (as_rb N3) yr gs' x" by simp
  have pa3: "pa (as_rb N3) x = above (as_rb N3) gs'"
  proof (cases yr)
    case Leaf
    then have xs: "x = nt_sentinel N" using xc by simp
    have "npa N2 x = (if q = z then y else q)" using xs xy LR ns by (simp add: m g)
    moreover have "above (as_rb N3) gs' = (if q = z then y else q)"
    proof (cases hs rule: clist.cases)
      case 1
      then show ?thesis by (simp add: gs'_def yq(1) gs_def)
    qed (use dis(12) in \<open>auto simp: gs'_def yq(1) gs_def\<close>)
    moreover have "nt_root N2 \<noteq> x" using xy by (simp add: m g)
    ultimately show ?thesis using xy by (simp add: W)
  next
    case (Node a b c)
    then show ?thesis using at3 by (simp add: at_pos_def)
  qed
  have nil3: "\<not> ngx_rbt_is_red N3 (nt_sentinel N3)" using ok rpy(3) by (simp add: col3 W(3) ngx_ok_def)
  have inv: "ctx_ok T (bheight T (Node Leaf y yr)) gs" "invc T (Node Leaf y yr)" "invh T (Node Leaf y yr)"
    using plug_inv_conv [of T "Node Leaf y yr" gs] ok by (simp_all add: t' T_def ngx_ok_def)
  have colW: "col (as_rb N3) n = col T (if n = y then z else n)" for n by (simp add: col3 T_def)
  have "col (as_rb N3) n = col T n" if "n \<in> set_tree yr" for n
  proof -
    have "n \<noteq> y" using that dis(13) by blast
    then show ?thesis unfolding colW by simp
  qed
  then have "invc (as_rb N3) yr = invc T yr \<and> invh (as_rb N3) yr = invh T yr \<and> bheight (as_rb N3) yr = bheight T yr \<and> color_of (as_rb N3) yr = color_of T yr"
    using colors_cong [of yr "as_rb N3" T] by blast
  then have c3: "invc (as_rb N3) yr" "invh (as_rb N3) yr" "bheight (as_rb N3) yr = 0" "ngx_rbt_is_red N y \<Longrightarrow> color_of (as_rb N3) yr = BLACK"
    using inv by (auto simp: T_def)
  have ctx3: "ctx_ok (as_rb N3) k gs' = ctx_ok T k gs" for k unfolding gs_def gs'_def
    by (rule ctx_replace) (use dis rpy(3) in \<open>auto simp: colW clist_append T_def W(3) col3\<close>)
  have ctx: "if ngx_rbt_is_red N y then ctx_ok (as_rb N3) 0 gs' \<and> gs' \<noteq> [] \<and> color_of (as_rb N3) yr = BLACK else ctx_ok (as_rb N3) 1 gs'"
    using inv(1) c3(4) ctx3 by (cases "ngx_rbt_is_red N y") (simp_all add: T_def gs'_def)
  obtain N' where N': "(if ngx_rbt_is_red N y then Some N3 else do { (temp, N) \<leftarrow> ngx_delete_loop x N3; Some (ngx_rbt_black temp N) }) = Some N'"
    "rb_post (as_rb N3) (inorder (plug yr gs')) (as_rb N')" using ngx_repair [OF at3 pa3 nil3 c3(1-3) ctx] by blast
  have del: "ngx_rbtree_delete z N = Some N'"
    using ch yq(2) dis(1) N'(1) unfolding ngx_rbtree_delete_def ngx_unlink_def [symmetric] Let_def
    by (cases "ngx_rbt_is_red N y") (simp_all add: N1_def [symmetric] N2_def [symmetric] N3_def [symmetric])
  have ord: "inorder t = (pre fs @ inorder l) @ z # (y # inorder r' @ post fs)" "inorder (plug yr gs') = (pre fs @ inorder l) @ (y # inorder r' @ post fs)"
    using y(3) by (simp_all add: t y(2) r'_def gs'_def plug_append inorder_plug_split)
  have k: "nt_sentinel N3 = nt_sentinel N" "n \<noteq> z \<Longrightarrow> nky N3 n = nky N n" for n by (simp_all add: W m g)
  show ?thesis using del ngx_removed_intro [OF ok _ ord(1) k] N'(2) ord(2) by auto
qed

lemma ngx_delete_ok:
  assumes "ngx_ok org N t" "z \<in> set_tree t"
  shows "\<exists>N'. ngx_rbtree_delete z N = Some N' \<and> ngx_removed org N t z N'"
proof -
  obtain l r fs where t: "t = plug (Node l z r) fs" using find_position [OF assms(2), of "[]"] by auto
  show ?thesis using ngx_delete_self [OF assms(1) t] ngx_delete_successor [OF assms(1) t] by blast
qed

end
