(* ===== verification/TimerQueue.thy ===== *)
theory TimerQueue
  imports Prelude
begin

text \<open>
  The contract between the timer modules and the priority containers below them.
  Every timer module of the repository (min-heap, skip list, red-black tree) expires
  timers with the same loop: look at the least entry, stop when there is none or it is
  not due, else call its handler, remove it and go on. The locale states what the
  container promises of \<open>top\<close> and \<open>pop\<close>, and that \<open>expire\<close> is that
  loop; the lemmas say that the loop stops and fires exactly the due entries in order.
\<close>

locale timer_queue =
  fixes inv :: "'s \<Rightarrow> bool"
    and elems :: "'s \<Rightarrow> 'e set"
    and time :: "'s \<Rightarrow> 'e \<Rightarrow> 't::linorder"
    and top :: "'s \<Rightarrow> 'e option"
    and pop :: "'s \<Rightarrow> 's option"
    and expire :: "'t \<Rightarrow> 's \<Rightarrow> ('e list \<times> 's) option"
  assumes finite_queue: "inv s \<Longrightarrow> finite (elems s)"
    and top_empty: "inv s \<Longrightarrow> top s = None \<longleftrightarrow> elems s = {}"
    and top_least: "inv s \<Longrightarrow> top s = Some e \<Longrightarrow> e \<in> elems s \<and> (\<forall>x \<in> elems s. time s e \<le> time s x)"
    and pop_removes: "inv s \<Longrightarrow> top s = Some e \<Longrightarrow>
      \<exists>s'. pop s = Some s' \<and> inv s' \<and> elems s' = elems s - {e} \<and> (\<forall>x \<in> elems s'. time s' x = time s x)"
    and expire_loop: "inv s \<Longrightarrow> expire now s =
      (case top s of
         None \<Rightarrow> Some ([], s)
       | Some e \<Rightarrow>
           if time s e > now then Some ([], s)
           else (case pop s of
                   None \<Rightarrow> None
                 | Some s' \<Rightarrow> (case expire now s' of
                                None \<Rightarrow> None
                              | Some (fired, s'') \<Rightarrow> Some (e # fired, s''))))"
begin

text \<open>The result of expiring: the due entries, in the order of their times, and the rest.\<close>

definition expired :: "'t \<Rightarrow> 's \<Rightarrow> 'e list \<Rightarrow> 's \<Rightarrow> bool" where
  "expired now s fired s' \<longleftrightarrow>
     set fired = {x \<in> elems s. time s x \<le> now} \<and> distinct fired
     \<and> sorted (map (time s) fired)
     \<and> inv s' \<and> elems s' = {x \<in> elems s. now < time s x} \<and> (\<forall>x \<in> elems s'. time s' x = time s x)"

lemma expired_none:
  assumes "inv s" "\<And>x. x \<in> elems s \<Longrightarrow> now < time s x"
  shows "expired now s [] s"
proof -
  have "{x \<in> elems s. time s x \<le> now} = {}" "{x \<in> elems s. now < time s x} = elems s"
    using assms(2) leD by blast+
  then show ?thesis using assms(1) by (simp add: expired_def)
qed

lemma expired_step:
  assumes "inv s" "top s = Some e" "time s e \<le> now"
    and "elems s1 = elems s - {e}" "\<And>x. x \<in> elems s1 \<Longrightarrow> time s1 x = time s x"
    and "expired now s1 fired s2"
  shows "expired now s (e # fired) s2"
proof -
  have least: "e \<in> elems s" "\<And>x. x \<in> elems s \<Longrightarrow> time s e \<le> time s x"
    using top_least assms(1,2) by blast+
  note x = assms(6) [unfolded expired_def]
  have "{x \<in> elems s1. time s1 x \<le> now} = {x \<in> elems s1. time s x \<le> now}" "{x \<in> elems s1. now < time s1 x} = {x \<in> elems s1. now < time s x}"
    using assms(5) by auto
  then have due: "set fired = {x \<in> elems s1. time s x \<le> now}" and rest: "elems s2 = {x \<in> elems s1. now < time s x}" using x by simp_all
  have m: "map (time s1) fired = map (time s) fired" using due assms(5) by simp
  have f: "time s2 y = time s y" if "y \<in> elems s2" for y using that x rest assms(5) [of y] by simp
  have x': "distinct fired" "sorted (map (time s) fired)" "inv s2" using x m by simp_all
  show ?thesis
    unfolding expired_def
  proof (intro conjI ballI)
    show "set (e # fired) = {x \<in> elems s. time s x \<le> now}" using assms(3) least(1) unfolding list.set due assms(4) by blast
    show "distinct (e # fired)" using x'(1) due assms(4) by simp
    show "sorted (map (time s) (e # fired))" using x'(2) due assms(4) least(2) by simp
    show "elems s2 = {x \<in> elems s. now < time s x}" using assms(3) leD unfolding rest assms(4) by blast
    show "time s2 y = time s y" if "y \<in> elems s2" for y by (rule f [OF that])
  qed (rule x'(3))
qed

lemma expire_correct:
  assumes "inv s"
  shows "\<exists>fired s'. expire now s = Some (fired, s') \<and> expired now s fired s'"
  using assms
proof (induction "card (elems s)" arbitrary: s rule: less_induct)
  case less
  show ?case
  proof (cases "top s")
    case None
    then show ?thesis
      using less.prems expire_loop [of s now] top_empty [of s] expired_none [of s now] by auto
  next
    case (Some e)
    note least = top_least [OF less.prems Some]
    show ?thesis
    proof (cases "time s e > now")
      case True
      then have "expired now s [] s" using least less.prems by (intro expired_none) auto
      then show ?thesis using True Some less.prems expire_loop [of s now] by auto
    next
      case False
      obtain s1 where s1: "pop s = Some s1" "inv s1" "elems s1 = elems s - {e}" "\<And>x. x \<in> elems s1 \<Longrightarrow> time s1 x = time s x"
        using pop_removes [OF less.prems Some] by blast
      have "card (elems s1) < card (elems s)"
        using s1(3) least finite_queue [OF less.prems] by (metis card_Diff1_less)
      then obtain fired s2 where "expire now s1 = Some (fired, s2)" "expired now s1 fired s2"
        using less.hyps s1(2) by blast
      then show ?thesis
        using False Some s1 less.prems expire_loop [of s now] expired_step [of s e now s1 fired s2] by auto
    qed
  qed
qed

end

end
