(* ===== verification/RbtTimer.thy ===== *)
theory RbtTimer
  imports NgxRemove TimerQueue
begin

text \<open>
  The timer module over the tree of nginx, \<open>rbt-timer.h\<close> of \<open>2207-timers\<close>. The values of
  \<open>current_time()\<close> and \<open>malloc\<close> are inputs, and \<open>run\<close> says what a handler does to the timers. The node
  is the first member of an entry, so both have the same address. The tree is a timer queue, as the heap
  and the skip list are.
\<close>

section \<open>The next node\<close>

lemma next_loop_ok:
  assumes "at_pos (as_rb N) (Node l z r) fs z"
  shows "next_loop N z = Some (case post fs of [] \<Rightarrow> 0 | y # _ \<Rightarrow> y)"
  using assms
proof (induction fs arbitrary: l z r)
  case Nil
  then have "z = nt_root N" by (simp add: at_pos_def)
  then show ?case by (subst next_loop.simps) simp
next
  case (Cons f fs)
  note p = raw_pa [OF Cons.prems]
  show ?case
  proof (cases f)
    case (FL a s)
    then have "npa N z = a" "nlf N a = z" "z \<noteq> nt_root N" using p Cons.prems by (auto simp: at_FL)
    then show ?thesis using FL by (subst next_loop.simps) simp
  next
    case (FR s a)
    then have at: "at_pos (as_rb N) (Node s a (Node l z r)) fs a" using Cons.prems by (simp add: at_FR)
    have "npa N z = a" "z \<noteq> nt_root N" using p FR by auto
    moreover have "nlf N a \<noteq> z" using at rep_root [of "as_rb N" a s "nlf N a"] by (auto simp: at_pos_def)
    ultimately have "next_loop N z = next_loop N a" by (subst next_loop.simps) simp
    then show ?thesis using Cons.IH [OF at] FR by simp
  qed
qed

lemma ngx_next_ok:
  assumes "ngx_ok org N t" "inorder t = xs @ z # ys"
  shows "ngx_rbtree_next N z = Some (case ys of [] \<Rightarrow> 0 | y # _ \<Rightarrow> y)"
proof -
  have "z \<in> set_tree t" using assms(2) by (metis in_set_conv_decomp set_inorder)
  then obtain l r fs where t: "t = plug (Node l z r) fs" using find_position [of z t "[]"] by auto
  have at: "at_pos (as_rb N) (Node l z r) fs z" by (rule ngx_ok_at [OF assms(1) [unfolded t]])
  have "distinct (xs @ z # ys)" using assms by (simp add: ngx_ok_def)
  moreover have "(pre fs @ inorder l) @ z # (inorder r @ post fs) = xs @ z # ys" using assms(2) by (simp add: t inorder_plug_split)
  ultimately have "distinct (xs @ z # ys)" "(pre fs @ inorder l) @ z # (inorder r @ post fs) = xs @ z # ys" .
  then have ys: "ys = inorder r @ post fs" using append_Cons_eq_iff [of z xs ys "pre fs @ inorder l" "inorder r @ post fs"] by auto
  have rp: "rep (as_rb N) z r (nrg N z)" using at by (simp add: at_pos_def)
  show ?thesis
  proof (cases r)
    case Leaf
    then show ?thesis using next_loop_ok [OF at] rp ys by (simp add: ngx_rbtree_next_def)
  next
    case (Node rl a rr)
    then have "nrg N z = a" "a \<noteq> nt_sentinel N" "rep (as_rb N) z (Node rl a rr) a" using rp by auto
    moreover obtain y yr hs where "ngx_rbtree_min N a = Some y" "Node rl a rr = plug (Node Leaf y yr) hs" "pre hs = []"
      using ngx_min_ok [OF calculation(3)] by blast
    moreover from this have "inorder r = y # inorder yr @ post hs" using Node by (metis append_Nil inorder_plug_split inorder.simps append_Cons)
    ultimately show ?thesis using ys by (simp add: ngx_rbtree_next_def)
  qed
qed

section \<open>The module\<close>

record rbt_timer =
  rt_tree :: ngx_rbtree
  rt_handler :: "addr \<Rightarrow> nat"
  rt_live :: "addr set"

type_synonym rbt_handler = "nat \<Rightarrow> addr \<Rightarrow> rbt_timer \<Rightarrow> rbt_timer"

definition init_timer :: "addr \<Rightarrow> rbt_timer \<Rightarrow> rbt_timer" where
  "init_timer sentinel st = st\<lparr>rt_tree := ngx_rbtree_init sentinel (rt_tree st)\<rparr>"

text \<open>\<open>te\<close> is the result of \<open>malloc\<close>, which is not tested.\<close>

definition add_timer :: "uint32 \<Rightarrow> addr option \<Rightarrow> rbt_timer \<Rightarrow> uint32 \<Rightarrow> nat \<Rightarrow> (addr \<times> rbt_timer) option" where
  "add_timer clock malloc_res st msec func =
     do { te \<leftarrow> malloc_res;
          let msec = msec + clock;
          let N = nupd te (\<lambda>_. \<lparr>nn_key = msec, nn_left = 0, nn_right = 0, nn_parent = 0, nn_color = 0\<rparr>) (rt_tree st);
          N \<leftarrow> ngx_rbtree_insert ngx_rbtree_insert_timer_value te N;
          Some (te, \<lparr>rt_tree = N, rt_handler = (rt_handler st)(te := func), rt_live = insert te (rt_live st)\<rparr>) }"

definition del_timer :: "addr \<Rightarrow> rbt_timer \<Rightarrow> rbt_timer option" where
  "del_timer te st =
     do { N \<leftarrow> ngx_rbtree_delete te (rt_tree st);
          Some (st\<lparr>rt_tree := N, rt_live := rt_live st - {te}\<rparr>) }"

definition find_nearest_expire_timer :: "uint32 \<Rightarrow> rbt_timer \<Rightarrow> int option" where
  "find_nearest_expire_timer clock st =
     (let N = rt_tree st
      in if nt_root N = nt_sentinel N then Some (-1)
         else do { node \<leftarrow> ngx_rbtree_min N (nt_root N);
                   diff \<leftarrow> int_sub (sint (nky N node)) (sint clock);
                   Some (if diff > 0 then diff else 0) })"

partial_function (option) expire_loop :: "rbt_handler \<Rightarrow> uint32 \<Rightarrow> rbt_timer \<Rightarrow> (addr list \<times> rbt_timer) option" where
  "expire_loop run now st =
     (if nt_root (rt_tree st) = nt_sentinel (rt_tree st) then Some ([], st)
      else do { node \<leftarrow> ngx_rbtree_min (rt_tree st) (nt_root (rt_tree st));
                if nky (rt_tree st) node > now then Some ([], st)
                else do { st \<leftarrow> del_timer node (run (rt_handler st node) node st);
                          (fired, st) \<leftarrow> expire_loop run now st;
                          Some (node # fired, st) } })"

definition expire_timer :: "rbt_handler \<Rightarrow> uint32 \<Rightarrow> rbt_timer \<Rightarrow> (addr list \<times> rbt_timer) option" where
  "expire_timer run clock st = expire_loop run clock st"

section \<open>The tree is a timer queue\<close>

text \<open>A well-formed timer tree, its times counted from \<open>org\<close>.\<close>

definition rbt_ok :: "uint32 \<Rightarrow> rbt_timer \<Rightarrow> addr tree \<Rightarrow> bool" where
  "rbt_ok org st t \<longleftrightarrow> ngx_ok org (rt_tree st) t \<and> set_tree t \<subseteq> rt_live st"

definition rbt_nodes :: "rbt_timer \<Rightarrow> addr set" where
  "rbt_nodes st = {x. \<exists>t. rbt_ok 0 st t \<and> x \<in> set_tree t}"

definition rbt_top :: "rbt_timer \<Rightarrow> addr option" where
  "rbt_top st = (if nt_root (rt_tree st) = nt_sentinel (rt_tree st) then None else ngx_rbtree_min (rt_tree st) (nt_root (rt_tree st)))"

definition rbt_pop :: "rbt_timer \<Rightarrow> rbt_timer option" where
  "rbt_pop st = do { te \<leftarrow> rbt_top st; del_timer te st }"

lemma rep_same: "rep T par t p \<Longrightarrow> rep T par t' p \<Longrightarrow> t' = t"
proof (induction t arbitrary: par p t')
  case Leaf
  then show ?case by (cases t') auto
next
  case (Node l a r)
  then show ?case by (cases t') auto
qed

lemma rbt_nodes_eq: "rbt_ok 0 st t \<Longrightarrow> rbt_nodes st = set_tree t"
proof -
  assume t: "rbt_ok 0 st t"
  have "t' = t" if "rbt_ok 0 st t'" for t'
    using rep_same [of "as_rb (rt_tree st)" "nt_sentinel (rt_tree st)" t "nt_root (rt_tree st)" t'] t that by (simp add: rbt_ok_def ngx_ok_def)
  then have "rbt_ok 0 st t' \<and> x \<in> set_tree t' \<longleftrightarrow> t' = t \<and> x \<in> set_tree t" for t' x using t by blast
  then show ?thesis by (simp add: rbt_nodes_def)
qed

lemma rbt_top_eq:
  assumes "rbt_ok org st t"
  shows "rbt_top st = (case inorder t of [] \<Rightarrow> None | y # _ \<Rightarrow> Some y)" "nt_root (rt_tree st) = nt_sentinel (rt_tree st) \<longleftrightarrow> t = Leaf"
proof -
  define N where "N = rt_tree st"
  have rp: "rep (as_rb N) (nt_sentinel N) t (nt_root N)" using assms by (simp add: rbt_ok_def ngx_ok_def N_def)
  show root: "nt_root (rt_tree st) = nt_sentinel (rt_tree st) \<longleftrightarrow> t = Leaf" using rep_Leaf [OF rp] by (simp add: N_def)
  show "rbt_top st = (case inorder t of [] \<Rightarrow> None | y # _ \<Rightarrow> Some y)"
  proof (cases t)
    case Leaf
    then show ?thesis using root by (simp add: rbt_top_def)
  next
    case (Node l a r)
    then have "nt_root N = a" "rep (as_rb N) (nt_sentinel N) (Node l a r) a" using rp by auto
    moreover obtain y yr hs where "ngx_rbtree_min N a = Some y" "Node l a r = plug (Node Leaf y yr) hs" "pre hs = []"
      using ngx_min_ok [OF calculation(2)] by blast
    moreover from this have "inorder t = y # inorder yr @ post hs" using Node by (metis append_Nil inorder_plug_split inorder.simps append_Cons)
    moreover have "nt_root N \<noteq> nt_sentinel N" using root Node by (simp add: N_def)
    ultimately show ?thesis by (simp add: rbt_top_def N_def)
  qed
qed

lemma del_timer_ok:
  assumes "rbt_ok org st t" "te \<in> set_tree t"
  shows "\<exists>st' t' xs ys. del_timer te st = Some st' \<and> rbt_ok org st' t' \<and> inorder t = xs @ te # ys \<and> inorder t' = xs @ ys
    \<and> rt_live st' = rt_live st - {te} \<and> (\<forall>n. n \<noteq> te \<longrightarrow> nky (rt_tree st') n = nky (rt_tree st) n) \<and> rt_handler st' = rt_handler st"
proof -
  have ok: "ngx_ok org (rt_tree st) t" and live: "set_tree t \<subseteq> rt_live st" using assms(1) by (simp_all add: rbt_ok_def)
  obtain N' t' xs ys where N': "ngx_rbtree_delete te (rt_tree st) = Some N'" "ngx_ok org N' t'" "inorder t = xs @ te # ys" "inorder t' = xs @ ys"
    "\<forall>n. n \<noteq> te \<longrightarrow> nky N' n = nky (rt_tree st) n" using ngx_delete_ok [OF ok assms(2)] unfolding ngx_removed_def by blast
  have "distinct (xs @ te # ys)" using ok N'(3) by (simp add: ngx_ok_def)
  then have "set_tree t' \<subseteq> rt_live st - {te}"
    using live unfolding set_inorder [symmetric] N'(3,4) by auto
  then show ?thesis using N'
    by (intro exI [of _ "st\<lparr>rt_tree := N', rt_live := rt_live st - {te}\<rparr>"] exI [of _ t'] exI [of _ xs] exI [of _ ys]) (simp add: del_timer_def rbt_ok_def)
qed

lemma rbt_pop_ok:
  assumes "rbt_ok org st t" "rbt_top st = Some e"
  shows "\<exists>st' t' ys. rbt_pop st = Some st' \<and> rbt_ok org st' t' \<and> inorder t = e # ys \<and> inorder t' = ys \<and> rt_live st' = rt_live st - {e}
    \<and> (\<forall>n. n \<noteq> e \<longrightarrow> nky (rt_tree st') n = nky (rt_tree st) n)"
proof -
  obtain ys where ys: "inorder t = e # ys" using assms(2) rbt_top_eq(1) [OF assms(1)] by (cases "inorder t") auto
  then have "e \<in> set_tree t" by (metis list.set_intros(1) set_inorder)
  from del_timer_ok [OF assms(1) this] obtain st' t' xs zs where d: "del_timer e st = Some st'" "rbt_ok org st' t'" "inorder t = xs @ e # zs"
    "inorder t' = xs @ zs" "rt_live st' = rt_live st - {e}" "\<forall>n. n \<noteq> e \<longrightarrow> nky (rt_tree st') n = nky (rt_tree st) n" by blast
  have "distinct (e # ys)" using assms(1) ys by (simp add: rbt_ok_def ngx_ok_def)
  then have "xs = []" "zs = ys" using d(3) ys by (cases xs; auto)+
  then show ?thesis using d ys assms(2) by (intro exI [of _ st'] exI [of _ t'] exI [of _ ys]) (simp add: rbt_pop_def)
qed

interpretation rbtq: timer_queue "\<lambda>st. \<exists>t. rbt_ok 0 st t" rbt_nodes "\<lambda>st. nky (rt_tree st)" rbt_top rbt_pop "expire_loop (\<lambda>_ _ st. st)"
proof (unfold_locales, goal_cases)
  case (1 s)
  then show ?case using rbt_nodes_eq by force
next
  case (2 s)
  then obtain t where t: "rbt_ok 0 s t" by blast
  then show ?case using rbt_top_eq(1) [OF t] rbt_nodes_eq [OF t] by (auto simp: set_inorder [symmetric] simp del: set_inorder split: list.split)
next
  case (3 s e)
  then obtain t where t: "rbt_ok 0 s t" by blast
  obtain ys where ys: "inorder t = e # ys" using rbt_pop_ok [OF t 3(2)] by blast
  have "sorted (map (nky (rt_tree s)) (e # ys))" using t ys by (simp add: rbt_ok_def ngx_ok_def)
  then show ?case unfolding rbt_nodes_eq [OF t] set_inorder [symmetric] ys by auto
next
  case (4 s e)
  then obtain t where t: "rbt_ok 0 s t" by blast
  obtain s' t' ys where p: "rbt_pop s = Some s'" "rbt_ok 0 s' t'" "inorder t = e # ys" "inorder t' = ys"
    "\<forall>n. n \<noteq> e \<longrightarrow> nky (rt_tree s') n = nky (rt_tree s) n" using rbt_pop_ok [OF t 4(2)] by blast
  have "e \<notin> set ys" using t p(3) by (simp add: rbt_ok_def ngx_ok_def)
  then have "rbt_nodes s' = rbt_nodes s - {e}" "e \<notin> rbt_nodes s'"
    unfolding rbt_nodes_eq [OF t] rbt_nodes_eq [OF p(2)] set_inorder [symmetric] p(3,4) by auto
  moreover from this have "\<forall>x \<in> rbt_nodes s'. x \<noteq> e" by blast
  ultimately show ?case using p(1,2,5) by auto
next
  case (5 s now)
  then obtain t where t: "rbt_ok 0 s t" by blast
  have "nt_root (rt_tree s) = nt_sentinel (rt_tree s)" if "ngx_rbtree_min (rt_tree s) (nt_root (rt_tree s)) = None"
    using rbt_top_eq [OF t] that by (cases t) (auto simp: rbt_top_def split: list.splits if_splits)
  then show ?case by (subst expire_loop.simps) (auto simp: rbt_top_def rbt_pop_def split: option.split Option.bind_split)
qed

text \<open>Expired entries are freed.\<close>

lemma rbt_expire_live:
  assumes "rbt_ok 0 s t" "expire_loop (\<lambda>_ _ s. s) now s = Some (fired, s')"
  shows "rt_live s' = rt_live s - set fired"
  using assms
proof (induction "size t" arbitrary: s t fired rule: less_induct)
  case less
  have ex: "\<exists>t. rbt_ok 0 s t" using less.prems(1) by blast
  show ?case
  proof (cases "rbt_top s")
    case None
    then have "expire_loop (\<lambda>_ _ s. s) now s = Some ([], s)" using rbtq.expire_loop [OF ex, of now] by simp
    then show ?thesis using less.prems(2) by simp
  next
    case (Some e)
    obtain s1 t1 ys where p: "rbt_pop s = Some s1" "rbt_ok 0 s1 t1" "inorder t = e # ys" "inorder t1 = ys" "rt_live s1 = rt_live s - {e}"
      using rbt_pop_ok [OF less.prems(1) Some] by blast
    have "size t1 < size t" using p(3,4) length_inorder [of t] length_inorder [of t1] by simp
    note ih = less.hyps [OF this p(2)]
    have "expire_loop (\<lambda>_ _ s. s) now s = (if now < nky (rt_tree s) e then Some ([], s)
        else case expire_loop (\<lambda>_ _ s. s) now s1 of None \<Rightarrow> None | Some (f, s'') \<Rightarrow> Some (e # f, s''))"
      using rbtq.expire_loop [OF ex, of now] Some p(1) by simp
    then show ?thesis using less.prems(2) ih p(5) by (auto split: if_splits option.splits)
  qed
qed

section \<open>Adding\<close>

text \<open>
  Within \<open>2 ^ 31\<close> after \<open>org\<close>, comparing differences as the code does is comparing the distances from \<open>org\<close>,
  whether the times overflow or not.
\<close>

lemma timer_before:
  fixes a b org :: uint32
  assumes "unat (a - org) < 2 ^ 31" "unat (b - org) < 2 ^ 31"
  shows "sint (a - b) < 0 \<longleftrightarrow> a - org < b - org"
proof -
  define x y where "x = uint (a - org)" and "y = uint (b - org)"
  have "x = int (unat (a - org))" "y = int (unat (b - org))" by (simp_all add: x_def y_def)
  moreover have "unat (a - org) < 2147483648" "unat (b - org) < 2147483648" using assms by simp_all
  ultimately have xy: "0 \<le> x" "x < 2147483648" "0 \<le> y" "y < 2147483648" by linarith+
  have "word_of_int (x - y) = (word_of_int x - word_of_int y :: uint32)" by (rule wi_hom_sub [symmetric])
  also have "\<dots> = (a - org) - (b - org)" by (simp only: x_def y_def word_of_int_uint)
  also have "\<dots> = a - b" by (simp only: diff_diff_eq2 diff_add_cancel)
  finally have "a - b = word_of_int (x - y)" ..
  then have "sint (a - b) = signed_take_bit 31 (x - y)" by (simp only: sint_sbintrunc') simp
  then have "sint (a - b) = x - y" using xy by (simp add: signed_take_bit_int_eq_self)
  then show ?thesis by (simp add: word_less_def x_def y_def)
qed

lemma ngx_ok_upd:
  assumes "ngx_ok org N t" "z \<notin> set_tree t" "z \<noteq> nt_sentinel N"
  shows "ngx_ok org (nupd z f N) t"
proof -
  have sl: "same_links (set_tree t) (as_rb N) (as_rb (nupd z f N))" using assms(2) by (auto simp: same_links_def)
  have "\<And>a. a \<in> set_tree t \<Longrightarrow> col (as_rb (nupd z f N)) a = col (as_rb N) a" using assms(2) by (auto simp: ngx_rbt_is_red_def)
  moreover have "map (\<lambda>n. nky (nupd z f N) n - org) (inorder t) = map (\<lambda>n. nky N n - org) (inorder t)" using assms(2) by auto
  moreover have "ngx_rbt_is_red (nupd z f N) (nt_sentinel N) = ngx_rbt_is_red N (nt_sentinel N)" using assms(3) by (simp add: ngx_rbt_is_red_def)
  ultimately show ?thesis using assms rep_cong [OF sl] colors_cong [of t "as_rb (nupd z f N)" "as_rb N"]
    unfolding ngx_ok_def by (simp only: nupd_simps(2,3) simp_thms)
qed

lemma rbt_add_timer_ok:
  assumes ok: "rbt_ok org st t" and te: "te \<notin> rt_live st" "te \<noteq> nt_sentinel (rt_tree st)"
    and near: "unat (msec + clock - org) < 2 ^ 31" "\<forall>a \<in> set_tree t. unat (nky (rt_tree st) a - org) < 2 ^ 31"
  shows "\<exists>st' t' xs ys. add_timer clock (Some te) st msec func = Some (te, st') \<and> rbt_ok org st' t' \<and> inorder t = xs @ ys \<and> inorder t' = xs @ te # ys
    \<and> (\<forall>x \<in> set xs. nky (rt_tree st) x - org \<le> msec + clock - org) \<and> (\<forall>y \<in> set ys. msec + clock - org < nky (rt_tree st) y - org)
    \<and> rt_live st' = insert te (rt_live st) \<and> rt_handler st' te = func
    \<and> (\<forall>n. nky (rt_tree st') n = (if n = te then msec + clock else nky (rt_tree st) n))"
proof -
  define N where "N = nupd te (\<lambda>_. \<lparr>nn_key = msec + clock, nn_left = 0, nn_right = 0, nn_parent = 0, nn_color = 0\<rparr>) (rt_tree st)"
  have live: "set_tree t \<subseteq> rt_live st" using ok by (simp add: rbt_ok_def)
  then have tt: "te \<notin> set_tree t" using te(1) by blast
  have okN: "ngx_ok org N t" unfolding N_def by (rule ngx_ok_upd) (use ok tt te(2) in \<open>simp_all add: rbt_ok_def\<close>)
  have ky: "nky N n = (if n = te then msec + clock else nky (rt_tree st) n)" for n by (simp add: N_def)
  have "\<forall>a \<in> set_tree t. sint (nky N te - nky N a) < 0 \<longleftrightarrow> nky N te - org < nky N a - org"
  proof
    fix a assume a: "a \<in> set_tree t"
    then have "a \<noteq> te" using tt by blast
    then show "sint (nky N te - nky N a) < 0 \<longleftrightarrow> nky N te - org < nky N a - org" using near a by (intro timer_before) (simp_all only: ky if_True if_False simp_thms)
  qed
  then obtain N' t' xs ys where N': "ngx_rbtree_insert ngx_rbtree_insert_timer_value te N = Some N'" "ngx_ok org N' t'" "inorder t = xs @ ys"
    "inorder t' = xs @ te # ys" "\<forall>x \<in> set xs. nky N x - org \<le> nky N te - org" "\<forall>y \<in> set ys. nky N te - org < nky N y - org" "\<forall>n. nky N' n = nky N n"
    using ngx_insert_ok [OF okN tt, of "\<lambda>a b. sint (a - b) < 0"] te(2) by (auto simp: ngx_rbtree_insert_timer_value_def N_def)
  define st' where "st' = \<lparr>rt_tree = N', rt_handler = (rt_handler st)(te := func), rt_live = insert te (rt_live st)\<rparr>"
  have "add_timer clock (Some te) st msec func = Some (te, st')" using N'(1) by (simp add: add_timer_def N_def st'_def)
  moreover have "set_tree t' = insert te (set_tree t)" unfolding set_inorder [symmetric] N'(3,4) by auto
  then have "rbt_ok org st' t'" using N'(2) live by (auto simp: rbt_ok_def st'_def)
  moreover have "te \<notin> set xs" "te \<notin> set ys" using tt unfolding set_inorder [symmetric] N'(3) by auto
  then have "\<forall>x \<in> set xs. nky (rt_tree st) x - org \<le> msec + clock - org" "\<forall>y \<in> set ys. msec + clock - org < nky (rt_tree st) y - org"
    using N'(5,6) by (auto simp: ky split: if_splits)
  ultimately show ?thesis using N'(3,4,7) ky
    by (intro exI [of _ st'] exI [of _ t'] exI [of _ xs] exI [of _ ys]) (simp add: st'_def)
qed

text \<open>The time until the first timer, when no key is in the upper half of the range.\<close>

lemma find_nearest_ok:
  assumes "rbt_ok org st t" "unat clock < 2 ^ 31" "\<forall>a \<in> set_tree t. unat (nky (rt_tree st) a) < 2 ^ 31"
  shows "find_nearest_expire_timer clock st = Some (case inorder t of [] \<Rightarrow> - 1 | y # _ \<Rightarrow> max 0 (int (unat (nky (rt_tree st) y)) - int (unat clock)))"
proof (cases "inorder t")
  case Nil
  then show ?thesis using rbt_top_eq(2) [OF assms(1)] by (cases t) (simp_all add: find_nearest_expire_timer_def)
next
  case (Cons y ys)
  then have "nt_root (rt_tree st) \<noteq> nt_sentinel (rt_tree st)" "ngx_rbtree_min (rt_tree st) (nt_root (rt_tree st)) = Some y"
    using rbt_top_eq [OF assms(1)] by (auto simp: rbt_top_def split: if_splits)
  moreover have "unat (nky (rt_tree st) y) < 2 ^ 31" using assms(3) Cons by (metis list.set_intros(1) set_inorder)
  ultimately show ?thesis using Cons int_sub_small [OF _ assms(2), of "nky (rt_tree st) y"] by (auto simp: find_nearest_expire_timer_def Let_def max_def)
qed

section \<open>A small tree\<close>

text \<open>Nodes 2, 3 and 4 with times 10, 10 and 20; the sentinel is at 1, and the parent of the root is what was left there.\<close>

definition demo_rbt :: rbt_timer where
  "demo_rbt = \<lparr>rt_tree = \<lparr>nt_root = 3, nt_sentinel = 1, nt_node = (\<lambda>a.
     if a = 2 then \<lparr>nn_key = 10, nn_left = 1, nn_right = 1, nn_parent = 3, nn_color = 1\<rparr>
     else if a = 3 then \<lparr>nn_key = 10, nn_left = 2, nn_right = 4, nn_parent = 99, nn_color = 0\<rparr>
     else if a = 4 then \<lparr>nn_key = 20, nn_left = 1, nn_right = 1, nn_parent = 3, nn_color = 1\<rparr>
     else \<lparr>nn_key = 0, nn_left = 0, nn_right = 0, nn_parent = 0, nn_color = 0\<rparr>)\<rparr>, rt_handler = (\<lambda>_. 7), rt_live = {2, 3, 4}\<rparr>"

abbreviation "demo_rbt_shape \<equiv> Node (Node Leaf 2 Leaf) 3 (Node Leaf 4 Leaf) :: addr tree"

lemma demo_rbt_ok:
  assumes "10 - org \<le> 20 - org"
  shows "rbt_ok org demo_rbt demo_rbt_shape"
  using assms by (simp add: rbt_ok_def ngx_ok_def demo_rbt_def ngx_rbt_is_red_def)

lemma demo_rbt_simps [simp]: "rt_live demo_rbt = {2, 3, 4}" "nt_sentinel (rt_tree demo_rbt) = 1" "nky (rt_tree demo_rbt) 2 = 10" "nky (rt_tree demo_rbt) 3 = 10"
  "nky (rt_tree demo_rbt) 4 = 20"
  by (simp_all add: demo_rbt_def)

section \<open>Properties\<close>

text \<open>
  C12. \<open>add_timer\<close> ends on every well-formed tree whose times, and the new one, lie in a window of \<open>2 ^ 31\<close> ms
  after some \<open>org\<close>, with whatever shape the tree has. The window may run over the overflow of the 32-bit clock.
  The new timer stands behind the timers that are due not later and before the others, in the order of their
  distances from \<open>org\<close>, the tree is a red-black search tree again, and no other time changes.
\<close>

theorem rbt_add_timer_inserts:
  assumes "rbt_ok org st t" "te \<notin> rt_live st" "te \<noteq> nt_sentinel (rt_tree st)"
    and "unat (msec + clock - org) < 2 ^ 31" "\<forall>a \<in> set_tree t. unat (nky (rt_tree st) a - org) < 2 ^ 31"
  shows "\<exists>st' t' xs ys. add_timer clock (Some te) st msec func = Some (te, st') \<and> rbt_ok org st' t' \<and> inorder t = xs @ ys \<and> inorder t' = xs @ te # ys
    \<and> (\<forall>x \<in> set xs. nky (rt_tree st) x - org \<le> msec + clock - org) \<and> (\<forall>y \<in> set ys. msec + clock - org < nky (rt_tree st) y - org)
    \<and> rt_live st' = insert te (rt_live st) \<and> rt_handler st' te = func
    \<and> (\<forall>n. nky (rt_tree st') n = (if n = te then msec + clock else nky (rt_tree st) n))"
  by (rule rbt_add_timer_ok [OF assms])

text \<open>The times 10, 10 and 20 are after the overflow; a timer for a moment before it goes in front of them.\<close>

theorem rbt_add_timer_inserts_witness:
  "\<exists>st' t'. add_timer (- 16) (Some 9) demo_rbt 6 8 = Some (9, st') \<and> rbt_ok (- 100) st' t' \<and> inorder t' = [9, 2, 3, 4] \<and> nky (rt_tree st') 9 = - 10"
proof -
  have ok: "rbt_ok (- 100) demo_rbt demo_rbt_shape" by (rule demo_rbt_ok) simp_all
  obtain st' t' xs ys where r: "add_timer (- 16) (Some 9) demo_rbt 6 8 = Some (9, st')" "rbt_ok (- 100) st' t'" "inorder demo_rbt_shape = xs @ ys" "inorder t' = xs @ 9 # ys"
    "\<forall>x \<in> set xs. nky (rt_tree demo_rbt) x - - 100 \<le> 6 + - 16 - - 100" "nky (rt_tree st') 9 = 6 + - 16"
    using rbt_add_timer_inserts [OF ok, of 9 6 "- 16" 8] by auto
  have "[2, 3, 4] = xs @ ys" using r(3) by simp
  then have "xs = [] \<and> ys = [2, 3, 4]" using r(5) by (auto simp: Cons_eq_append_conv)
  then show ?thesis using r by auto
qed

text \<open>
  C13. \<open>del_timer\<close> takes out exactly the timer it is given, also among timers of the same time, keeps the order
  of the others and the red-black search tree, and frees the entry.
\<close>

theorem rbt_del_timer_removes:
  assumes "rbt_ok org st t" "te \<in> set_tree t"
  shows "\<exists>st' t' xs ys. del_timer te st = Some st' \<and> rbt_ok org st' t' \<and> inorder t = xs @ te # ys \<and> inorder t' = xs @ ys
    \<and> rt_live st' = rt_live st - {te} \<and> (\<forall>n. n \<noteq> te \<longrightarrow> nky (rt_tree st') n = nky (rt_tree st) n) \<and> rt_handler st' = rt_handler st"
  by (rule del_timer_ok [OF assms])

theorem rbt_del_timer_removes_witness:
  "\<exists>st' t'. del_timer 3 demo_rbt = Some st' \<and> rbt_ok 0 st' t' \<and> inorder t' = [2, 4] \<and> rt_live st' = {2, 4}"
proof -
  obtain st' t' xs ys where r: "del_timer 3 demo_rbt = Some st'" "rbt_ok 0 st' t'" "inorder demo_rbt_shape = xs @ 3 # ys" "inorder t' = xs @ ys"
    "rt_live st' = {2, 3, 4} - {3}" using rbt_del_timer_removes [OF demo_rbt_ok [of 0], of 3] by auto
  have "[2, 3, 4] = xs @ 3 # ys" using r(3) by simp
  then have "xs = [2] \<and> ys = [4]" by (auto simp: Cons_eq_append_conv)
  then show ?thesis using r by auto
qed

text \<open>
  C14. \<open>expire_timer\<close> with handlers that leave the timers alone ends: it calls the handlers of exactly the
  timers that are due, each once and in order of their times, frees exactly these, and leaves a red-black
  search tree of the others.
\<close>

theorem rbt_expire_timer_fires_due:
  assumes "rbt_ok 0 st t"
  shows "\<exists>fired st' t'. expire_timer (\<lambda>_ _ st. st) clock st = Some (fired, st') \<and> set fired = {x \<in> set_tree t. nky (rt_tree st) x \<le> clock}
    \<and> distinct fired \<and> sorted (map (nky (rt_tree st)) fired) \<and> rbt_ok 0 st' t' \<and> set_tree t' = {x \<in> set_tree t. clock < nky (rt_tree st) x}
    \<and> rt_live st' = rt_live st - set fired"
proof -
  obtain fired st' where e: "expire_loop (\<lambda>_ _ s. s) clock st = Some (fired, st')" "rbtq.expired clock st fired st'"
    using rbtq.expire_correct assms by blast
  note x = e(2) [unfolded rbtq.expired_def rbt_nodes_eq [OF assms]]
  obtain t' where t': "rbt_ok 0 st' t'" using x by (elim conjE exE)
  have "expire_timer (\<lambda>_ _ s. s) clock st = Some (fired, st')" using e(1) by (simp add: expire_timer_def)
  moreover have "rt_live st' = rt_live st - set fired" by (rule rbt_expire_live [OF assms e(1)])
  ultimately show ?thesis using x t' unfolding rbt_nodes_eq [OF t'] by (intro exI [of _ fired] exI [of _ st'] exI [of _ t']) simp
qed

theorem rbt_expire_timer_fires_due_witness:
  "\<exists>fired st' t'. expire_timer (\<lambda>_ _ st. st) 15 demo_rbt = Some (fired, st') \<and> set fired = {2, 3} \<and> distinct fired \<and> rbt_ok 0 st' t'
    \<and> set_tree t' = {4} \<and> rt_live st' = {4}"
proof -
  have due: "{x \<in> set_tree demo_rbt_shape. nky (rt_tree demo_rbt) x \<le> 15} = {2, 3}" "{x \<in> set_tree demo_rbt_shape. 15 < nky (rt_tree demo_rbt) x} = {4}"
    by auto
  have ok: "rbt_ok 0 demo_rbt demo_rbt_shape" by (rule demo_rbt_ok) simp
  have "{2, 3, 4} - {2, 3} = {4 :: addr}" by auto
  then show ?thesis using rbt_expire_timer_fires_due [OF ok, of 15] unfolding due by (metis demo_rbt_simps(1))
qed

text \<open>
  \<open>ngx_rbtree_next\<close> goes through the timers in order: from a node it gives the next one, and \<open>NULL\<close> after
  the last.
\<close>

theorem ngx_next_in_order:
  assumes "ngx_ok org N t" "inorder t = xs @ z # ys"
  shows "ngx_rbtree_next N z = Some (case ys of [] \<Rightarrow> 0 | y # _ \<Rightarrow> y)"
  by (rule ngx_next_ok [OF assms])

text \<open>
  The insertion compares the times with regard to an overflow of the clock, the expiry does not: a timer whose
  time overflows is called at once.
\<close>

theorem rbt_overflow_fires_early:
  assumes "rbt_ok 0 st Leaf" "te \<notin> rt_live st" "te \<noteq> nt_sentinel (rt_tree st)" "2 ^ 32 \<le> uint msec + uint clock"
  shows "\<exists>st' st''. add_timer clock (Some te) st msec func = Some (te, st') \<and> expire_timer (\<lambda>_ _ st. st) clock st' = Some ([te], st'')"
proof -
  obtain st' t' where a: "add_timer clock (Some te) st msec func = Some (te, st')" "rbt_ok 0 st' t'" "inorder t' = [te]" "nky (rt_tree st') te = msec + clock"
  proof -
    have any: "rbt_ok o1 st' t' = rbt_ok 0 st' t'" if "inorder t' = [te] \<or> t' = Leaf" for o1 st' t'
      using that by (auto simp: rbt_ok_def ngx_ok_def)
    have "rbt_ok (msec + clock) st Leaf" using assms(1) any by blast
    from rbt_add_timer_ok [OF this assms(2,3), of msec clock func] obtain st' t' where
      "add_timer clock (Some te) st msec func = Some (te, st')" "rbt_ok (msec + clock) st' t'" "inorder t' = [te]" "nky (rt_tree st') te = msec + clock" by auto
    then show ?thesis using any that by blast
  qed
  have b: "uint msec < 2 ^ 32" "uint clock < 2 ^ 32" using uint_lt2p [of msec] uint_lt2p [of clock] by simp_all
  then have "uint (msec + clock) = uint msec + uint clock - 2 ^ 32" using assms(4) by (simp add: uint_plus_if')
  then have due: "msec + clock \<le> clock" using b by (simp add: word_le_def)
  obtain fired s where e: "expire_loop (\<lambda>_ _ s. s) clock st' = Some (fired, s)" "rbtq.expired clock st' fired s"
    using rbtq.expire_correct a(2) by blast
  have "set_tree t' = {te}" using a(3) by (metis list.set(1,2) set_inorder)
  then have "set fired = {te}" "distinct fired" using e(2) due a(4) unfolding rbtq.expired_def rbt_nodes_eq [OF a(2)] by auto
  then have "fired = [te]" by (cases fired; cases "tl fired") auto
  then show ?thesis using a(1) e(1) by (simp add: expire_timer_def)
qed

end
