(* ===== verification/SkipList.thy ===== *)
theory SkipList
  imports Prelude "HOL-Library.Monad_Syntax"
begin

text \<open>
  The skip list under one of the timer modules, \<open>skiplist.h\<close> and \<open>skiplist.c\<close> of \<open>2207-timers\<close>. Nodes
  live in a store by address, address 0 is \<open>NULL\<close>; a node has as many forward pointers as were
  allocated, and reading or writing beyond them, through \<open>NULL\<close>, or an array cell that was never
  assigned is \<^const>\<open>None\<close>. \<open>malloc\<close> and \<open>rand\<close> are inputs.
\<close>

definition ZSKIPLIST_MAXLEVEL :: nat where
  "ZSKIPLIST_MAXLEVEL = 32"

record zskiplistNode =
  sn_score :: uint64
  sn_handler :: nat
  sn_levels :: nat
  sn_forward :: "nat \<Rightarrow> addr"

record zskiplist =
  zs_header :: addr
  zs_length :: int
  zs_level :: nat
  zs_node :: "addr \<Rightarrow> zskiplistNode"
  zs_live :: "addr set"

abbreviation "score_of s x \<equiv> sn_score (zs_node s x)"
abbreviation "hgt s x \<equiv> sn_levels (zs_node s x)"
abbreviation "fw s x \<equiv> sn_forward (zs_node s x)"

section \<open>Operations\<close>

definition forward :: "zskiplist \<Rightarrow> addr \<Rightarrow> nat \<Rightarrow> addr option" where
  "forward s x i = (if x \<noteq> 0 \<and> i < hgt s x then Some (fw s x i) else None)"

definition set_forward :: "addr \<Rightarrow> nat \<Rightarrow> addr \<Rightarrow> zskiplist \<Rightarrow> zskiplist option" where
  "set_forward x i v s =
     (if x \<noteq> 0 \<and> i < hgt s x
      then Some (s\<lparr>zs_node := (zs_node s)(x := (zs_node s x)\<lparr>sn_forward := (fw s x)(i := v)\<rparr>)\<rparr>)
      else None)"

text \<open>The function \<open>defaultHandler\<close> does nothing; handlers are numbers and it is 0.\<close>

definition zslCreateNode :: "addr \<Rightarrow> nat \<Rightarrow> uint64 \<Rightarrow> nat \<Rightarrow> zskiplist \<Rightarrow> zskiplist option" where
  "zslCreateNode zn level score func s =
     (if zn = 0 then None
      else Some (s\<lparr>zs_node := (zs_node s)(zn := \<lparr>sn_score = score, sn_handler = func, sn_levels = level, sn_forward = fw s zn\<rparr>),
                   zs_live := insert zn (zs_live s)\<rparr>))"

fun clear_forward :: "addr \<Rightarrow> nat list \<Rightarrow> zskiplist \<Rightarrow> zskiplist option" where
  "clear_forward x [] s = Some s"
| "clear_forward x (j # js) s = do { s \<leftarrow> set_forward x j 0 s; clear_forward x js s }"

text \<open>\<open>s\<close> is the memory before the call; \<open>header\<close> is what \<open>malloc\<close> gives for the header node.\<close>

definition zslCreate :: "addr \<Rightarrow> zskiplist \<Rightarrow> zskiplist option" where
  "zslCreate header s =
     do { let s = s\<lparr>zs_level := 1, zs_length := 0\<rparr>;
          s \<leftarrow> zslCreateNode header ZSKIPLIST_MAXLEVEL 0 0 s;
          let s = s\<lparr>zs_header := header\<rparr>;
          clear_forward header [0..<ZSKIPLIST_MAXLEVEL] s }"

text \<open>The addresses freed, in order.\<close>

definition sfree :: "addr \<Rightarrow> zskiplist \<Rightarrow> zskiplist option" where
  "sfree x s = (if x \<in> zs_live s then Some (s\<lparr>zs_live := zs_live s - {x}\<rparr>) else None)"

partial_function (option) free_nodes :: "addr \<Rightarrow> zskiplist \<Rightarrow> zskiplist option" where
  "free_nodes node s =
     (if node \<noteq> 0
      then do { nx \<leftarrow> forward s node 0; s \<leftarrow> sfree node s; free_nodes nx s }
      else Some s)"

definition zslFree :: "zskiplist \<Rightarrow> zskiplist option" where
  "zslFree s =
     do { node \<leftarrow> forward s (zs_header s) 0;
          s \<leftarrow> sfree (zs_header s) s;
          free_nodes node s }"

text \<open>
  The list holds the values \<open>rand\<close> returns, in order; when it ends the loop has not ended yet. The
  test compares with \<open>0.25 * 0xFFFF\<close>.
\<close>

fun random_loop :: "nat list \<Rightarrow> nat \<Rightarrow> nat option" where
  "random_loop [] level = None"
| "random_loop (r # rs) level =
     (if 4 * (r mod 65536) < 65535 then random_loop rs (level + 1)
      else Some (if level < ZSKIPLIST_MAXLEVEL then level else ZSKIPLIST_MAXLEVEL))"

definition zslRandomLevel :: "nat list \<Rightarrow> nat option" where
  "zslRandomLevel rs = random_loop rs 1"

text \<open>The inner loop of the searches, and the outer one, which fills the array \<open>update\<close>.\<close>

partial_function (option) search_level :: "zskiplist \<Rightarrow> uint64 \<Rightarrow> nat \<Rightarrow> addr \<Rightarrow> addr option" where
  "search_level s score i x =
     do { f \<leftarrow> forward s x i;
          if f \<noteq> 0 \<and> score_of s f < score then search_level s score i f else Some x }"

fun find_update :: "zskiplist \<Rightarrow> uint64 \<Rightarrow> nat \<Rightarrow> addr \<Rightarrow> (nat \<rightharpoonup> addr) \<Rightarrow> (addr \<times> (nat \<rightharpoonup> addr)) option" where
  "find_update s score 0 x update = Some (x, update)"
| "find_update s score (Suc i) x update =
     do { x \<leftarrow> search_level s score i x;
          if i < ZSKIPLIST_MAXLEVEL then find_update s score i x (update(i \<mapsto> x)) else None }"

fun link_levels :: "addr \<Rightarrow> (nat \<rightharpoonup> addr) \<Rightarrow> nat list \<Rightarrow> zskiplist \<Rightarrow> zskiplist option" where
  "link_levels x update [] s = Some s"
| "link_levels x update (i # js) s =
     do { u \<leftarrow> update i;
          f \<leftarrow> forward s u i;
          s \<leftarrow> set_forward x i f s;
          s \<leftarrow> set_forward u i x s;
          link_levels x update js s }"

definition zslInsert :: "nat list \<Rightarrow> addr \<Rightarrow> uint64 \<Rightarrow> nat \<Rightarrow> zskiplist \<Rightarrow> (addr \<times> zskiplist) option" where
  "zslInsert rs new score func s =
     do { (_, update) \<leftarrow> find_update s score (zs_level s) (zs_header s) Map.empty;
          level \<leftarrow> zslRandomLevel rs;
          let (update, s) =
            (if level > zs_level s
             then (\<lambda>i. if zs_level s \<le> i \<and> i < level then Some (zs_header s) else update i, s\<lparr>zs_level := level\<rparr>)
             else (update, s));
          s \<leftarrow> zslCreateNode new level score func s;
          s \<leftarrow> link_levels new update [0..<level] s;
          if zs_length s + 1 < 2 ^ 31 then Some (new, s\<lparr>zs_length := zs_length s + 1\<rparr>) else None }"

definition zslMin :: "zskiplist \<Rightarrow> addr option" where
  "zslMin s = forward s (zs_header s) 0"

partial_function (option) shrink :: "zskiplist \<Rightarrow> zskiplist option" where
  "shrink s =
     (if zs_level s > 1
      then do { f \<leftarrow> forward s (zs_header s) (zs_level s - 1);
                if f = 0 then shrink (s\<lparr>zs_level := zs_level s - 1\<rparr>) else Some s }
      else Some s)"

text \<open>The loop of both deletions: at each level the pointer to \<open>x\<close> skips it.\<close>

fun unlink_levels :: "addr \<Rightarrow> (nat \<rightharpoonup> addr) \<Rightarrow> nat list \<Rightarrow> zskiplist \<Rightarrow> zskiplist option" where
  "unlink_levels x update [] s = Some s"
| "unlink_levels x update (i # js) s =
     do { u \<leftarrow> update i;
          f \<leftarrow> forward s u i;
          s \<leftarrow> (if f = x then do { g \<leftarrow> forward s x i; set_forward u i g s } else Some s);
          unlink_levels x update js s }"

definition zslDeleteHead :: "zskiplist \<Rightarrow> zskiplist option" where
  "zslDeleteHead s =
     do { x \<leftarrow> zslMin s;
          if x = 0 then Some s
          else do { s \<leftarrow> unlink_levels x (\<lambda>_. Some (zs_header s)) (rev [0..<zs_level s]) s;
                    s \<leftarrow> shrink s;
                    Some (s\<lparr>zs_length := zs_length s - 1\<rparr>) } }"

definition zslDeleteNode :: "addr \<Rightarrow> (nat \<rightharpoonup> addr) \<Rightarrow> zskiplist \<Rightarrow> zskiplist option" where
  "zslDeleteNode x update s =
     do { s \<leftarrow> unlink_levels x update [0..<zs_level s] s;
          s \<leftarrow> shrink s;
          Some (s\<lparr>zs_length := zs_length s - 1\<rparr>) }"

definition zslDelete :: "addr \<Rightarrow> zskiplist \<Rightarrow> zskiplist option" where
  "zslDelete zn s =
     do { (x, update) \<leftarrow> find_update s (score_of s zn) (zs_level s) (zs_header s) Map.empty;
          x \<leftarrow> forward s x 0;
          if x \<noteq> 0 \<and> score_of s zn = score_of s x
          then do { s \<leftarrow> zslDeleteNode x update s; sfree x s }
          else Some s }"

text \<open>The scores \<open>zslPrint\<close> prints.\<close>

fun print_nodes :: "zskiplist \<Rightarrow> nat \<Rightarrow> addr \<Rightarrow> uint64 list option" where
  "print_nodes s 0 x = Some []"
| "print_nodes s (Suc n) x =
     do { f \<leftarrow> forward s x 0; out \<leftarrow> print_nodes s n f; Some (score_of s x # out) }"

definition zslPrint :: "zskiplist \<Rightarrow> uint64 list option" where
  "zslPrint s = do { x \<leftarrow> forward s (zs_header s) 0; print_nodes s (nat (zs_length s)) x }"

section \<open>Chains\<close>

text \<open>The first node of a list that reaches level \<open>i\<close>, or \<open>NULL\<close>.\<close>

fun nxt :: "(addr \<Rightarrow> nat) \<Rightarrow> nat \<Rightarrow> addr list \<Rightarrow> addr" where
  "nxt h i [] = 0"
| "nxt h i (y # ys) = (if i < h y then y else nxt h i ys)"

text \<open>At every level each of the nodes \<open>ys\<close>, which the nodes \<open>zs\<close> follow, points to the next one.\<close>

fun linked :: "(addr \<Rightarrow> nat) \<Rightarrow> (addr \<Rightarrow> nat \<Rightarrow> addr) \<Rightarrow> addr list \<Rightarrow> addr list \<Rightarrow> bool" where
  "linked h f zs [] \<longleftrightarrow> True"
| "linked h f zs (y # ys) \<longleftrightarrow> (\<forall>i < h y. f y i = nxt h i (ys @ zs)) \<and> linked h f zs ys"

lemma linked_append: "linked h f zs (as @ bs) \<longleftrightarrow> linked h f (bs @ zs) as \<and> linked h f zs bs"
  by (induction as) auto

lemma nxt_append: "nxt h i (ys @ zs) = (if \<exists>y \<in> set ys. i < h y then nxt h i ys else nxt h i zs)"
  by (induction ys) auto

lemma nxt_in: "nxt h i ys = 0 \<and> (\<forall>y \<in> set ys. \<not> i < h y) \<or> nxt h i ys \<in> set ys \<and> i < h (nxt h i ys)"
  by (induction ys) auto

lemma nxt_cong: "(\<And>y. y \<in> set ys \<Longrightarrow> h' y = h y) \<Longrightarrow> nxt h' i ys = nxt h i ys"
  by (induction ys) auto

lemma linked_cong:
  assumes "\<And>y. y \<in> set ys \<union> set zs \<Longrightarrow> h' y = h y" "\<And>y i. y \<in> set ys \<Longrightarrow> i < h y \<Longrightarrow> f' y i = f y i"
  shows "linked h' f' zs ys = linked h f zs ys"
  using assms
proof (induction ys)
  case (Cons y ys)
  have "nxt h' i (ys @ zs) = nxt h i (ys @ zs)" for i using Cons.prems(1) by (intro nxt_cong) auto
  then show ?case using Cons by simp
qed simp

lemma last_filter_suffix: "P x \<Longrightarrow> last (filter P (as @ x # bs)) = last (filter P (x # bs))"
  by simp

lemma last_filter: "\<exists>x \<in> set xs. P x \<Longrightarrow> last (filter P xs) \<in> set xs \<and> P (last (filter P xs))"
  using last_in_set [of "filter P xs"] by (auto simp: filter_empty_conv)

section \<open>Search\<close>

text \<open>The nodes before a score and the others; the last node before the score at level \<open>i\<close>.\<close>

definition parts :: "zskiplist \<Rightarrow> uint64 \<Rightarrow> addr list \<Rightarrow> addr list \<Rightarrow> bool" where
  "parts s sc lo hi \<longleftrightarrow> linked (hgt s) (fw s) hi (zs_header s # lo) \<and> zs_header s \<noteq> 0 \<and> 0 \<notin> set lo
     \<and> (\<forall>n \<in> set lo. score_of s n < sc) \<and> (\<forall>n \<in> set hi. \<not> score_of s n < sc)"

definition prd :: "zskiplist \<Rightarrow> addr list \<Rightarrow> nat \<Rightarrow> addr" where
  "prd s lo i = last (filter (\<lambda>n. i < hgt s n) (zs_header s # lo))"

lemma prd_in: "i < hgt s (zs_header s) \<Longrightarrow> prd s lo i \<in> set (zs_header s # lo) \<and> i < hgt s (prd s lo i)"
  unfolding prd_def by (rule last_filter) auto

lemma search_level_ok:
  assumes "linked (hgt s) (fw s) hi (x # bs)" "i < hgt s x" "x \<noteq> 0" "0 \<notin> set bs"
    "\<forall>n \<in> set bs. score_of s n < sc" "\<forall>n \<in> set hi. \<not> score_of s n < sc"
  shows "search_level s sc i x = Some (last (filter (\<lambda>n. i < hgt s n) (x # bs)))"
  using assms
proof (induction "length bs" arbitrary: x bs rule: less_induct)
  case less
  have f: "forward s x i = Some (nxt (hgt s) i (bs @ hi))" using less.prems by (simp add: forward_def)
  show ?case
  proof (cases "\<exists>y \<in> set bs. i < hgt s y")
    case True
    then obtain cs y ds where bs: "bs = cs @ y # ds" "i < hgt s y" "\<forall>c \<in> set cs. \<not> i < hgt s c"
      using split_list_first_prop [of bs "\<lambda>y. i < hgt s y"] by blast
    then have "nxt (hgt s) i (bs @ hi) = y" by (simp add: nxt_append)
    moreover have "search_level s sc i y = Some (last (filter (\<lambda>n. i < hgt s n) (y # ds)))"
      by (rule less.hyps) (use bs less.prems in \<open>auto simp: linked_append\<close>)
    moreover have "filter (\<lambda>n. i < hgt s n) cs = []" using bs(3) by simp
    ultimately show ?thesis using f bs less.prems by (subst search_level.simps) auto
  next
    case False
    then have "nxt (hgt s) i (bs @ hi) = nxt (hgt s) i hi" "filter (\<lambda>n. i < hgt s n) bs = []" by (auto simp: nxt_append filter_empty_conv)
    then show ?thesis using f less.prems nxt_in [of "hgt s" i hi] by (subst search_level.simps) auto
  qed
qed

lemma find_update_ok:
  assumes p: "parts s sc lo hi" and x: "x \<in> set (zs_header s # lo)" "n \<le> hgt s x" "n \<le> ZSKIPLIST_MAXLEVEL" "n \<le> hgt s (zs_header s)"
  shows "find_update s sc n x upd = Some (if n = 0 then x else prd s lo 0, \<lambda>i. if i < n then Some (prd s lo i) else upd i)"
  using x
proof (induction n arbitrary: x upd)
  case (Suc i)
  obtain as bs where split: "zs_header s # lo = as @ x # bs" using Suc.prems(1) by (meson split_list)
  have "linked (hgt s) (fw s) hi (x # bs)" using p unfolding parts_def split linked_append by simp
  moreover have sub: "set bs \<subseteq> set lo" using split by (cases as) auto
  moreover have "x \<noteq> 0" using Suc.prems(1) p unfolding parts_def by (metis set_ConsD)
  ultimately have "search_level s sc i x = Some (last (filter (\<lambda>n. i < hgt s n) (x # bs)))"
    using p Suc.prems by (intro search_level_ok) (auto simp: parts_def)
  then have sl: "search_level s sc i x = Some (prd s lo i)"
    unfolding prd_def split using last_filter_suffix [of "\<lambda>n. i < hgt s n" x as bs] Suc.prems by simp
  have pi: "prd s lo i \<in> set (zs_header s # lo)" "i < hgt s (prd s lo i)" using prd_in [of i s lo] Suc.prems by auto
  have "(\<lambda>a. if a < i then Some (prd s lo a) else (upd(i \<mapsto> prd s lo i)) a) = (\<lambda>a. if a < Suc i then Some (prd s lo a) else upd a)"
    by (auto simp: fun_eq_iff less_Suc_eq)
  moreover have "find_update s sc (Suc i) x upd = find_update s sc i (prd s lo i) (upd(i \<mapsto> prd s lo i))" using sl Suc.prems by simp
  moreover have "(if i = 0 then prd s lo i else prd s lo 0) = prd s lo 0" by simp
  ultimately show ?case using Suc.IH [OF pi(1), of "upd(i \<mapsto> prd s lo i)"] Suc.prems pi by (simp del: fun_upd_apply)
qed simp

section \<open>Changing the pointers\<close>

text \<open>Everything but the pointers is the same.\<close>

definition same_but_links :: "zskiplist \<Rightarrow> zskiplist \<Rightarrow> bool" where
  "same_but_links s s' \<longleftrightarrow> zs_header s' = zs_header s \<and> zs_length s' = zs_length s \<and> zs_level s' = zs_level s \<and> zs_live s' = zs_live s
     \<and> (\<forall>x. score_of s' x = score_of s x \<and> sn_handler (zs_node s' x) = sn_handler (zs_node s x) \<and> hgt s' x = hgt s x)"

lemma same_but_links_trans: "same_but_links s s' \<Longrightarrow> same_but_links s' s'' \<Longrightarrow> same_but_links s s''"
  by (auto simp: same_but_links_def)

lemma set_forward_ok:
  assumes "x \<noteq> 0" "i < hgt s x"
  obtains s' where "set_forward x i v s = Some s'" "same_but_links s s'" "\<And>y j. fw s' y j = (if y = x \<and> j = i then v else fw s y j)"
  using assms by (auto simp: set_forward_def same_but_links_def)

lemma clear_forward_ok:
  assumes "x \<noteq> 0" "\<forall>j \<in> set js. j < hgt s x"
  shows "\<exists>s'. clear_forward x js s = Some s' \<and> same_but_links s s' \<and> (\<forall>y j. fw s' y j = (if y = x \<and> j \<in> set js then 0 else fw s y j))"
  using assms
proof (induction js arbitrary: s)
  case (Cons j js)
  obtain s1 where s1: "set_forward x j 0 s = Some s1" "same_but_links s s1" "\<And>y i. fw s1 y i = (if y = x \<and> i = j then 0 else fw s y i)"
    using set_forward_ok [of x j s 0] Cons.prems by auto
  have "\<forall>j \<in> set js. j < hgt s1 x" using Cons.prems s1(2) by (simp add: same_but_links_def)
  then obtain s' where s': "clear_forward x js s1 = Some s'" "same_but_links s1 s'" "\<forall>y j. fw s' y j = (if y = x \<and> j \<in> set js then 0 else fw s1 y j)"
    using Cons.IH [OF Cons.prems(1)] by blast
  then show ?case using s1 same_but_links_trans [OF s1(2) s'(2)] by auto
qed (simp add: same_but_links_def)

lemma link_levels_ok:
  assumes "distinct js" "x \<noteq> 0" "\<And>i. i \<in> set js \<Longrightarrow> upd i = Some (u i) \<and> u i \<noteq> 0 \<and> u i \<noteq> x \<and> i < hgt s (u i) \<and> i < hgt s x"
  shows "\<exists>s'. link_levels x upd js s = Some s' \<and> same_but_links s s'
    \<and> (\<forall>y i. fw s' y i = (if i \<in> set js \<and> y = x then fw s (u i) i else if i \<in> set js \<and> y = u i then x else fw s y i))"
  using assms(1,3)
proof (induction js arbitrary: s)
  case (Cons j js)
  have j: "upd j = Some (u j)" "u j \<noteq> 0" "u j \<noteq> x" "j < hgt s (u j)" "j < hgt s x" using Cons.prems(2) [of j] by auto
  obtain s1 where s1: "set_forward x j (fw s (u j) j) s = Some s1" "same_but_links s s1"
    "\<And>y i. fw s1 y i = (if y = x \<and> i = j then fw s (u j) j else fw s y i)"
    using set_forward_ok [OF assms(2) j(5)] by blast
  have "j < hgt s1 (u j)" using j(4) s1(2) by (simp add: same_but_links_def)
  then obtain s2 where s2: "set_forward (u j) j x s1 = Some s2" "same_but_links s1 s2"
    "\<And>y i. fw s2 y i = (if y = u j \<and> i = j then x else fw s1 y i)"
    using set_forward_ok [OF j(2)] by blast
  have t: "same_but_links s s2" by (rule same_but_links_trans [OF s1(2) s2(2)])
  have h: "hgt s2 y = hgt s y" for y using t by (simp add: same_but_links_def)
  obtain s' where s': "link_levels x upd js s2 = Some s'" "same_but_links s2 s'"
    "\<forall>y i. fw s' y i = (if i \<in> set js \<and> y = x then fw s2 (u i) i else if i \<in> set js \<and> y = u i then x else fw s2 y i)"
    using Cons.IH [of s2] Cons.prems by (auto simp: h)
  have "fw s' y i = (if i \<in> set (j # js) \<and> y = x then fw s (u i) i else if i \<in> set (j # js) \<and> y = u i then x else fw s y i)" for y i
    using s'(3) s2(3) s1(3) Cons.prems(1) j(3) by auto
  then show ?case using j s1(1) s2(1) s'(1) same_but_links_trans [OF t s'(2)] by (auto simp: forward_def)
qed (simp add: same_but_links_def)

lemma unlink_levels_ok:
  assumes "distinct js" "x \<noteq> 0" "\<And>i. i \<in> set js \<Longrightarrow> upd i = Some (u i) \<and> u i \<noteq> 0 \<and> u i \<noteq> x \<and> i < hgt s (u i) \<and> (fw s (u i) i = x \<longrightarrow> i < hgt s x)"
  shows "\<exists>s'. unlink_levels x upd js s = Some s' \<and> same_but_links s s'
    \<and> (\<forall>y i. fw s' y i = (if i \<in> set js \<and> y = u i \<and> fw s y i = x then fw s x i else fw s y i))"
  using assms(1,3)
proof (induction js arbitrary: s)
  case (Cons j js)
  have j: "upd j = Some (u j)" "u j \<noteq> 0" "u j \<noteq> x" "j < hgt s (u j)" "fw s (u j) j = x \<longrightarrow> j < hgt s x" using Cons.prems(2) [of j] by auto
  have "\<exists>s1. (if fw s (u j) j = x then do { g \<leftarrow> forward s x j; set_forward (u j) j g s } else Some s) = Some s1 \<and> same_but_links s s1
    \<and> (\<forall>y i. fw s1 y i = (if i = j \<and> y = u j \<and> fw s y i = x then fw s x i else fw s y i))"
  proof (cases "fw s (u j) j = x")
    case True
    then obtain s1 where "set_forward (u j) j (fw s x j) s = Some s1" "same_but_links s s1"
      "\<And>y i. fw s1 y i = (if y = u j \<and> i = j then fw s x j else fw s y i)" using set_forward_ok [OF j(2,4)] by blast
    then show ?thesis using True j assms(2) by (auto simp: forward_def)
  qed (auto simp: same_but_links_def)
  then obtain s1 where s1: "(if fw s (u j) j = x then do { g \<leftarrow> forward s x j; set_forward (u j) j g s } else Some s) = Some s1"
    "same_but_links s s1" "\<forall>y i. fw s1 y i = (if i = j \<and> y = u j \<and> fw s y i = x then fw s x i else fw s y i)" by blast
  have h: "hgt s1 y = hgt s y" for y using s1(2) by (simp add: same_but_links_def)
  have "fw s1 (u i) i = fw s (u i) i" if "i \<in> set js" for i using s1(3) Cons.prems(1) that by auto
  then obtain s' where s': "unlink_levels x upd js s1 = Some s'" "same_but_links s1 s'"
    "\<forall>y i. fw s' y i = (if i \<in> set js \<and> y = u i \<and> fw s1 y i = x then fw s1 x i else fw s1 y i)"
    using Cons.IH [of s1] Cons.prems by (auto simp: h)
  have "fw s' y i = (if i \<in> set (j # js) \<and> y = u i \<and> fw s y i = x then fw s x i else fw s y i)" for y i
    using s'(3) s1(3) Cons.prems(1) j(3) by (cases "i = j") auto
  then show ?case using j s1(1) s'(1) same_but_links_trans [OF s1(2) s'(2)] by (auto simp: forward_def)
qed (simp add: same_but_links_def)

section \<open>Inserting into and removing from a chain\<close>

lemma filter_Cons_last: "\<exists>y \<in> set ys. P y \<Longrightarrow> last (filter P (x # ys)) = last (filter P ys)"
  by (auto simp: filter_empty_conv)

lemma linked_prd:
  assumes "linked h f zs ys" "\<exists>y \<in> set ys. i < h y"
  shows "f (last (filter (\<lambda>n. i < h n) ys)) i = nxt h i zs"
  using assms
proof (induction ys)
  case (Cons y ys)
  show ?case
  proof (cases "\<exists>y \<in> set ys. i < h y")
    case True
    then show ?thesis unfolding filter_Cons_last [OF True] using Cons by simp
  next
    case False
    then have "filter (\<lambda>n. i < h n) ys = []" by (simp add: filter_empty_conv)
    then show ?thesis using Cons.prems False by (auto simp: nxt_append)
  qed
qed simp

lemma linked_insert:
  assumes "linked h f zs ys" "distinct ys" "\<And>y. y \<in> set ys \<union> set zs \<Longrightarrow> h' y = h y" "h' new = lv"
    "\<And>y i. y \<in> set ys \<Longrightarrow> i < h y \<Longrightarrow> f' y i = (if i < lv \<and> y = last (filter (\<lambda>n. i < h n) ys) then new else f y i)"
  shows "linked h' f' (new # zs) ys"
  using assms
proof (induction ys)
  case (Cons y ys)
  have nc: "nxt h' i us = nxt h i us" if "set us \<subseteq> set ys \<union> set zs" for us i using Cons.prems(3) that by (intro nxt_cong) auto
  have "f' y i = nxt h' i (ys @ new # zs)" if i: "i < h y" for i
  proof (cases "\<exists>z \<in> set ys. i < h z")
    case True
    then have "last (filter (\<lambda>n. i < h n) (y # ys)) \<noteq> y" using last_filter [of ys "\<lambda>n. i < h n"] Cons.prems(2) by (auto simp: filter_empty_conv)
    then show ?thesis using Cons.prems(1,3) Cons.prems(5) [of y i] i True nc [of ys i] by (simp add: nxt_append)
  next
    case False
    then have "filter (\<lambda>n. i < h n) ys = []" by (simp add: filter_empty_conv)
    then show ?thesis using Cons.prems(1,3,4) Cons.prems(5) [of y i] i False nc [of zs i] by (auto simp: nxt_append)
  qed
  moreover have "linked h' f' (new # zs) ys"
  proof (rule Cons.IH)
    show "f' z i = (if i < lv \<and> z = last (filter (\<lambda>n. i < h n) ys) then new else f z i)" if "z \<in> set ys" "i < h z" for z i
    proof -
      have "last (filter (\<lambda>n. i < h n) (y # ys)) = last (filter (\<lambda>n. i < h n) ys)" by (rule filter_Cons_last) (use that in auto)
      then show ?thesis using Cons.prems(5) [of z i] that by (simp only: list.set insert_iff simp_thms)
    qed
  qed (use Cons.prems in auto)
  ultimately show ?case using Cons.prems(3) by simp
qed simp

lemma linked_remove:
  assumes "linked h f (x # zs) ys" "distinct ys" "x \<notin> set ys" "x \<notin> set zs" "x \<noteq> 0" "\<And>i. i < h x \<Longrightarrow> f x i = nxt h i zs"
    "\<And>y i. y \<in> set ys \<Longrightarrow> i < h y \<Longrightarrow> f' y i = (if y = last (filter (\<lambda>n. i < h n) ys) \<and> f y i = x then f x i else f y i)"
  shows "linked h f' zs ys"
  using assms
proof (induction ys)
  case (Cons y ys)
  have "f' y i = nxt h i (ys @ zs)" if i: "i < h y" for i
  proof (cases "\<exists>z \<in> set ys. i < h z")
    case True
    then have "last (filter (\<lambda>n. i < h n) (y # ys)) \<noteq> y" using last_filter [of ys "\<lambda>n. i < h n"] Cons.prems(2) by (auto simp: filter_empty_conv)
    then show ?thesis using Cons.prems(1) Cons.prems(7) [of y i] i True by (simp add: nxt_append)
  next
    case False
    then have "filter (\<lambda>n. i < h n) ys = []" by (simp add: filter_empty_conv)
    moreover have "nxt h i zs \<noteq> x" using nxt_in [of h i zs] Cons.prems(4,5) by auto
    ultimately show ?thesis using Cons.prems(1) Cons.prems(7) [of y i] i False Cons.prems(6) [of i] by (auto simp: nxt_append)
  qed
  moreover have "linked h f' zs ys"
  proof (rule Cons.IH)
    show "f' z i = (if z = last (filter (\<lambda>n. i < h n) ys) \<and> f z i = x then f x i else f z i)" if "z \<in> set ys" "i < h z" for z i
    proof -
      have "last (filter (\<lambda>n. i < h n) (y # ys)) = last (filter (\<lambda>n. i < h n) ys)" by (rule filter_Cons_last) (use that in auto)
      then show ?thesis using Cons.prems(7) [of z i] that by (simp only: list.set insert_iff simp_thms)
    qed
  qed (use Cons.prems in auto)
  ultimately show ?case by simp
qed simp

section \<open>Well-formed skip lists\<close>

definition chain_ok :: "zskiplist \<Rightarrow> addr list \<Rightarrow> bool" where
  "chain_ok s xs \<longleftrightarrow> zs_header s \<noteq> 0 \<and> hgt s (zs_header s) = ZSKIPLIST_MAXLEVEL \<and> 1 \<le> zs_level s \<and> zs_level s \<le> ZSKIPLIST_MAXLEVEL
     \<and> 0 \<notin> set xs \<and> distinct (zs_header s # xs) \<and> sorted (map (score_of s) xs)
     \<and> (\<forall>x \<in> set xs. 1 \<le> hgt s x \<and> hgt s x \<le> zs_level s) \<and> linked (hgt s) (fw s) [] (zs_header s # xs)"

text \<open>The number of levels is the greatest height, and the length is counted.\<close>

definition zsl_ok :: "zskiplist \<Rightarrow> addr list \<Rightarrow> bool" where
  "zsl_ok s xs \<longleftrightarrow> chain_ok s xs \<and> (zs_level s > 1 \<longrightarrow> (\<exists>x \<in> set xs. hgt s x = zs_level s)) \<and> zs_length s = int (length xs)
     \<and> set (zs_header s # xs) \<subseteq> zs_live s"

abbreviation "below s sc xs \<equiv> takeWhile (\<lambda>n. score_of s n < sc) xs"
abbreviation "rest s sc xs \<equiv> dropWhile (\<lambda>n. score_of s n < sc) xs"

lemma sorted_dropWhile: "sorted (map f xs) \<Longrightarrow> n \<in> set (dropWhile (\<lambda>n. f n < (c :: 'a :: linorder)) xs) \<Longrightarrow> \<not> f n < c"
  by (induction xs) (auto split: if_splits)

lemma ok_parts:
  assumes "chain_ok s xs"
  shows "parts s sc (below s sc xs) (rest s sc xs)"
proof -
  have "linked (hgt s) (fw s) [] ((zs_header s # below s sc xs) @ rest s sc xs)" using assms by (simp add: chain_ok_def)
  then have "linked (hgt s) (fw s) (rest s sc xs) (zs_header s # below s sc xs)" unfolding linked_append by simp
  moreover have "\<not> score_of s n < sc" if "n \<in> set (rest s sc xs)" for n using sorted_dropWhile [OF _ that] assms by (simp add: chain_ok_def)
  moreover have "score_of s n < sc \<and> n \<noteq> 0" if "n \<in> set (below s sc xs)" for n
    using set_takeWhileD [OF that] assms unfolding chain_ok_def by metis
  ultimately show ?thesis using assms unfolding parts_def chain_ok_def by blast
qed

lemma ok_find_update:
  assumes "chain_ok s xs"
  shows "find_update s sc (zs_level s) (zs_header s) Map.empty
    = Some (last (zs_header s # below s sc xs), \<lambda>i. if i < zs_level s then Some (prd s (below s sc xs) i) else None)"
proof -
  have "prd s (below s sc xs) 0 = last (zs_header s # below s sc xs)"
    using assms unfolding prd_def by (intro arg_cong [of _ _ last]) (auto simp: chain_ok_def filter_id_conv ZSKIPLIST_MAXLEVEL_def Suc_le_eq dest!: set_takeWhileD)
  then show ?thesis using find_update_ok [OF ok_parts [OF assms, of sc], where x = "zs_header s" and n = "zs_level s" and upd = Map.empty] assms by (auto simp: chain_ok_def)
qed

lemma random_level: "zslRandomLevel rs = Some level \<Longrightarrow> 1 \<le> level \<and> level \<le> ZSKIPLIST_MAXLEVEL"
proof -
  have "random_loop rs l = Some level \<Longrightarrow> 1 \<le> l \<Longrightarrow> 1 \<le> level \<and> level \<le> ZSKIPLIST_MAXLEVEL" for l
    by (induction rs l rule: random_loop.induct) (auto simp: ZSKIPLIST_MAXLEVEL_def split: if_splits)
  then show "zslRandomLevel rs = Some level \<Longrightarrow> 1 \<le> level \<and> level \<le> ZSKIPLIST_MAXLEVEL" by (simp add: zslRandomLevel_def)
qed

end
