(* ===== verification/SkipListOps.thy ===== *)
theory SkipListOps
  imports SkipList
begin

text \<open>
  The operations of the skip list keep it well formed and change the sequence of nodes as they should.
\<close>

section \<open>Insertion\<close>

lemma chain_parts:
  assumes "chain_ok s xs"
  obtains "xs = below s sc xs @ rest s sc xs" "linked (hgt s) (fw s) (rest s sc xs) (zs_header s # below s sc xs)"
    "linked (hgt s) (fw s) [] (rest s sc xs)" "\<forall>n \<in> set (below s sc xs). score_of s n < sc" "\<forall>n \<in> set (rest s sc xs). sc \<le> score_of s n"
    "distinct (zs_header s # below s sc xs @ rest s sc xs)"
proof -
  have "linked (hgt s) (fw s) [] ((zs_header s # below s sc xs) @ rest s sc xs)" using assms by (simp add: chain_ok_def)
  then have l: "linked (hgt s) (fw s) (rest s sc xs) (zs_header s # below s sc xs)" "linked (hgt s) (fw s) [] (rest s sc xs)"
    unfolding linked_append by simp_all
  have d: "distinct (zs_header s # below s sc xs @ rest s sc xs)" using assms unfolding chain_ok_def takeWhile_dropWhile_id by blast
  show thesis
    by (rule that [OF _ l _ _ d]) (use ok_parts [OF assms, of sc] in \<open>auto simp: parts_def not_less\<close>)
qed

lemma prd_high: "chain_ok s xs \<Longrightarrow> set lo \<subseteq> set xs \<Longrightarrow> zs_level s \<le> i \<Longrightarrow> i < ZSKIPLIST_MAXLEVEL \<Longrightarrow> prd s lo i = zs_header s"
  unfolding prd_def chain_ok_def by (auto simp: filter_empty_conv not_less) fastforce

lemma prd_props:
  assumes "chain_ok s xs" "set lo \<subseteq> set xs" "i < ZSKIPLIST_MAXLEVEL"
  shows "prd s lo i \<in> set (zs_header s # lo)" "i < hgt s (prd s lo i)" "prd s lo i \<noteq> 0"
  using prd_in [of i s lo] assms unfolding chain_ok_def by (simp, simp, metis set_ConsD subsetD)

lemma height_bound: "chain_ok s xs \<Longrightarrow> y \<in> set xs \<Longrightarrow> i < hgt s y \<Longrightarrow> i < ZSKIPLIST_MAXLEVEL"
  unfolding chain_ok_def by (meson less_le_trans)

lemma insert_chain:
  assumes ok: "chain_ok s xs" and new: "new \<noteq> 0" "new \<notin> set (zs_header s # xs)" and lv: "1 \<le> lv" "lv \<le> ZSKIPLIST_MAXLEVEL"
    and lo: "lo = below s sc xs" and hi: "hi = rest s sc xs"
    and t: "zs_header t = zs_header s" "zs_level t = max lv (zs_level s)" "\<And>x. x \<noteq> new \<Longrightarrow> hgt t x = hgt s x \<and> score_of t x = score_of s x"
      "hgt t new = lv" "score_of t new = sc"
    and f: "\<And>y i. fw t y i = (if i < lv \<and> y = new then fw s (prd s lo i) i else if i < lv \<and> y = prd s lo i then new else fw s y i)"
  shows "chain_ok t (lo @ new # hi)"
proof -
  obtain xs: "xs = lo @ hi" and l: "linked (hgt s) (fw s) hi (zs_header s # lo)" "linked (hgt s) (fw s) [] hi"
    and sc: "\<forall>n \<in> set lo. score_of s n < sc" "\<forall>n \<in> set hi. sc \<le> score_of s n" and d: "distinct (zs_header s # lo @ hi)"
    unfolding lo hi by (rule chain_parts [OF ok, of sc])
  have hH: "hgt s (zs_header s) = ZSKIPLIST_MAXLEVEL" using ok by (simp add: chain_ok_def)
  have nn: "new \<notin> set lo" "new \<notin> set hi" "new \<noteq> zs_header s" using new xs by auto
  have th: "hgt t y = hgt s y" and ts: "score_of t y = score_of s y" if "y \<in> set (zs_header s # lo) \<union> set hi" for y
  proof -
    have "y \<noteq> new" using that nn by auto
    then show "hgt t y = hgt s y" "score_of t y = score_of s y" using t(3) by simp_all
  qed
  have 1: "linked (hgt t) (fw t) (new # hi) (zs_header s # lo)"
  proof (rule linked_insert [OF l(1) _ th t(4)])
    fix y i assume "y \<in> set (zs_header s # lo)" "i < hgt s y"
    moreover from this have "y \<noteq> new" using nn by auto
    ultimately show "fw t y i = (if i < lv \<and> y = last (filter (\<lambda>n. i < hgt s n) (zs_header s # lo)) then new else fw s y i)"
      unfolding prd_def [symmetric] using f by simp
  qed (use d in auto)
  have "fw t new i = nxt (hgt t) i hi" if "i < lv" for i
  proof -
    have "fw t new i = fw s (prd s lo i) i" using f that by simp
    also have "\<dots> = nxt (hgt s) i hi" unfolding prd_def by (rule linked_prd [OF l(1)]) (use hH that lv in auto)
    finally show ?thesis using nxt_cong [of hi "hgt t" "hgt s" i] th by simp
  qed
  moreover have "linked (hgt t) (fw t) [] hi = linked (hgt s) (fw s) [] hi"
  proof (rule linked_cong)
    fix y i assume y: "y \<in> set hi" "i < hgt s y"
    have "i < ZSKIPLIST_MAXLEVEL" using height_bound [OF ok _ y(2)] y(1) xs by simp
    then have "prd s lo i \<noteq> y" using prd_props(1) [OF ok, of lo i] y d xs by auto
    then show "fw t y i = fw s y i" using y nn f by auto
  qed (use th in auto)
  ultimately have "linked (hgt t) (fw t) [] (zs_header s # lo @ new # hi)"
    using 1 l(2) t(4) linked_append [of "hgt t" "fw t" "[]" "zs_header s # lo" "new # hi"] by simp
  moreover have m: "map (score_of t) (lo @ new # hi) = map (score_of s) lo @ sc # map (score_of s) hi" using ts t(5) by simp
  have "sorted (map (score_of t) (lo @ new # hi))"
    unfolding m using ok sc xs by (auto simp: chain_ok_def sorted_append less_imp_le)
  moreover have "\<forall>x \<in> set (lo @ new # hi). 1 \<le> hgt t x \<and> hgt t x \<le> zs_level t"
  proof
    fix x assume x: "x \<in> set (lo @ new # hi)"
    show "1 \<le> hgt t x \<and> hgt t x \<le> zs_level t"
    proof (cases "x = new")
      case False
      then have "x \<in> set xs" using x xs by auto
      then have "1 \<le> hgt s x \<and> hgt s x \<le> zs_level s" using ok unfolding chain_ok_def by blast
      then show ?thesis using t(2) t(3) [OF False] by (simp add: le_max_iff_disj)
    qed (use t lv in simp)
  qed
  moreover have "0 \<notin> set (lo @ new # hi)" "distinct (zs_header s # lo @ new # hi)" "hgt t (zs_header t) = ZSKIPLIST_MAXLEVEL"
    "1 \<le> zs_level t" "zs_level t \<le> ZSKIPLIST_MAXLEVEL" "zs_header t \<noteq> 0"
    using ok new nn xs lv t(1,2) th [of "zs_header s"] by (auto simp: chain_ok_def)
  ultimately show ?thesis unfolding chain_ok_def t(1) by blast
qed

text \<open>What insertion promises.\<close>

definition inserted :: "zskiplist \<Rightarrow> addr list \<Rightarrow> addr \<Rightarrow> uint64 \<Rightarrow> nat \<Rightarrow> zskiplist \<Rightarrow> bool" where
  "inserted s xs new sc func s' \<longleftrightarrow> zsl_ok s' (below s sc xs @ new # rest s sc xs) \<and> zs_header s' = zs_header s
     \<and> score_of s' new = sc \<and> sn_handler (zs_node s' new) = func \<and> zs_live s' = insert new (zs_live s)
     \<and> (\<forall>x. x \<noteq> new \<longrightarrow> score_of s' x = score_of s x \<and> sn_handler (zs_node s' x) = sn_handler (zs_node s x))"

lemma zslInsert_ok:
  assumes ok: "zsl_ok s xs" and new: "new \<noteq> 0" "new \<notin> set (zs_header s # xs)" and lv: "zslRandomLevel rs = Some lv" and len: "length xs + 1 < 2 ^ 31"
  shows "\<exists>s'. zslInsert rs new sc func s = Some (new, s') \<and> inserted s xs new sc func s'"
proof -
  have ch: "chain_ok s xs" using ok by (simp add: zsl_ok_def)
  define lo where "lo = below s sc xs"
  have sub: "set lo \<subseteq> set xs" using set_takeWhileD by (fastforce simp: lo_def)
  define upd where "upd = (\<lambda>i. if i < zs_level s then Some (prd s lo i) else None)"
  define upd' where "upd' = (if lv > zs_level s then \<lambda>i. if zs_level s \<le> i \<and> i < lv then Some (zs_header s) else upd i else upd)"
  have l: "1 \<le> lv" "lv \<le> ZSKIPLIST_MAXLEVEL" using random_level [OF lv] by auto
  have u: "upd' i = Some (prd s lo i)" if "i < lv" for i
    using that l prd_high [OF ch sub, of i] by (auto simp: upd'_def upd_def)
  define s1 where "s1 = s\<lparr>zs_level := max lv (zs_level s)\<rparr>"
  define s2 where "s2 = s1\<lparr>zs_node := (zs_node s1)(new := \<lparr>sn_score = sc, sn_handler = func, sn_levels = lv, sn_forward = fw s1 new\<rparr>),
      zs_live := insert new (zs_live s1)\<rparr>"
  have p: "prd s lo i \<noteq> 0 \<and> prd s lo i \<noteq> new \<and> i < hgt s (prd s lo i)" if "i < lv" for i
    using prd_props [OF ch sub, of i] that l new sub by auto
  have "upd' i = Some (prd s lo i) \<and> prd s lo i \<noteq> 0 \<and> prd s lo i \<noteq> new \<and> i < hgt s2 (prd s lo i) \<and> i < hgt s2 new" if "i \<in> set [0..<lv]" for i
    using u [of i] p [of i] that by (simp add: s2_def s1_def)
  then obtain s3 where s3: "link_levels new upd' [0..<lv] s2 = Some s3" "same_but_links s2 s3"
    "\<forall>y i. fw s3 y i = (if i \<in> set [0..<lv] \<and> y = new then fw s2 (prd s lo i) i else if i \<in> set [0..<lv] \<and> y = prd s lo i then new else fw s2 y i)"
    using link_levels_ok [of "[0..<lv]" new upd' "prd s lo" s2] new(1) by auto
  let ?s = "s3\<lparr>zs_length := zs_length s3 + 1\<rparr>"
  have f: "fw ?s y i = (if i < lv \<and> y = new then fw s (prd s lo i) i else if i < lv \<and> y = prd s lo i then new else fw s y i)" for y i
    using s3(3) p [of i] by (auto simp: s2_def s1_def)
  have keep: "x \<noteq> new \<Longrightarrow> hgt ?s x = hgt s x \<and> score_of ?s x = score_of s x \<and> sn_handler (zs_node ?s x) = sn_handler (zs_node s x)"
    "hgt ?s new = lv" "score_of ?s new = sc" "sn_handler (zs_node ?s new) = func" "zs_header ?s = zs_header s" "zs_level ?s = max lv (zs_level s)"
    "zs_live ?s = insert new (zs_live s)" "zs_length ?s = zs_length s + 1" for x
    using s3(2) by (auto simp: same_but_links_def s2_def s1_def)
  have "chain_ok ?s (lo @ new # rest s sc xs)"
    by (rule insert_chain [OF ch new l lo_def refl keep(5,6) _ keep(2,3) f]) (use keep in auto)
  moreover have xs: "set xs = set lo \<union> set (rest s sc xs)" "length xs = length lo + length (rest s sc xs)"
    unfolding lo_def by (metis set_append takeWhile_dropWhile_id, metis length_append takeWhile_dropWhile_id)
  moreover have "\<exists>x \<in> set (lo @ new # rest s sc xs). hgt ?s x = zs_level ?s" if top: "zs_level ?s > 1"
  proof (cases "zs_level s < lv")
    case False
    then obtain x where "x \<in> set xs" "hgt s x = zs_level s" using ok top keep(6) by (auto simp: zsl_ok_def)
    moreover have "x \<noteq> new" using \<open>x \<in> set xs\<close> new by auto
    ultimately show ?thesis using keep(1,6) False xs(1) by (intro bexI [of _ x]) auto
  qed (use keep in auto)
  ultimately have "inserted s xs new sc func ?s"
    using ok keep unfolding inserted_def zsl_ok_def lo_def [symmetric] by auto
  moreover have "zslInsert rs new sc func s = Some (new, ?s)"
  proof -
    have "(if lv > zs_level s then (\<lambda>i. if zs_level s \<le> i \<and> i < lv then Some (zs_header s) else upd i, s\<lparr>zs_level := lv\<rparr>) else (upd, s)) = (upd', s1)"
      by (auto simp: upd'_def s1_def max_def)
    moreover have "zs_length s3 + 1 < 2 ^ 31" using ok keep(8) len s3(2) by (auto simp: zsl_ok_def same_but_links_def s2_def s1_def)
    ultimately show ?thesis
      unfolding zslInsert_def ok_find_update [OF ch] lo_def [symmetric] upd_def [symmetric]
      using lv s3(1) new(1) by (simp add: zslCreateNode_def s2_def [symmetric] Let_def)
  qed
  ultimately show ?thesis by blast
qed

section \<open>Removal\<close>

text \<open>The loop that lowers the number of levels.\<close>

lemma shrink_ok:
  assumes "chain_ok s xs"
  shows "\<exists>l. shrink s = Some (s\<lparr>zs_level := l\<rparr>) \<and> chain_ok (s\<lparr>zs_level := l\<rparr>) xs \<and> (l > 1 \<longrightarrow> (\<exists>x \<in> set xs. hgt s x = l))"
  using assms
proof (induction "zs_level s" arbitrary: s rule: less_induct)
  case less
  show ?case
  proof (cases "zs_level s > 1")
    case False
    then have "shrink s = Some (s\<lparr>zs_level := zs_level s\<rparr>)" by (subst shrink.simps) simp
    then show ?thesis using less.prems False by (intro exI [of _ "zs_level s"]) simp
  next
    case True
    have f: "forward s (zs_header s) (zs_level s - 1) = Some (nxt (hgt s) (zs_level s - 1) xs)"
      using less.prems True by (auto simp: forward_def chain_ok_def)
    show ?thesis
    proof (cases "nxt (hgt s) (zs_level s - 1) xs = 0")
      case none: True
      then have "\<forall>x \<in> set xs. hgt s x \<le> zs_level s - 1"
        using nxt_in [of "hgt s" "zs_level s - 1" xs] less.prems by (auto simp: chain_ok_def not_less)
      then have "chain_ok (s\<lparr>zs_level := zs_level s - 1\<rparr>) xs" using less.prems True by (auto simp: chain_ok_def)
      then show ?thesis
        using less.hyps [of "s\<lparr>zs_level := zs_level s - 1\<rparr>"] True f none by (subst shrink.simps) simp
    next
      case False
      then have "nxt (hgt s) (zs_level s - 1) xs \<in> set xs" "zs_level s - 1 < hgt s (nxt (hgt s) (zs_level s - 1) xs)"
        using nxt_in [of "hgt s" "zs_level s - 1" xs] by auto
      then have "\<exists>x \<in> set xs. hgt s x = zs_level s" using less.prems True unfolding chain_ok_def by (metis Suc_diff_1 le_antisym less_trans Suc_leI zero_less_one)
      moreover have "shrink s = Some (s\<lparr>zs_level := zs_level s\<rparr>)" using True f False by (subst shrink.simps) simp
      ultimately show ?thesis using less.prems by (intro exI [of _ "zs_level s"]) simp
    qed
  qed
qed

text \<open>Unlinking the node after \<open>lo\<close> at every level, lowering the level and counting.\<close>

definition taken_out :: "zskiplist \<Rightarrow> addr list \<Rightarrow> addr \<Rightarrow> zskiplist \<Rightarrow> bool" where
  "taken_out s xs x s' \<longleftrightarrow> chain_ok s' (remove1 x xs) \<and> (zs_level s' > 1 \<longrightarrow> (\<exists>y \<in> set (remove1 x xs). hgt s' y = zs_level s'))
     \<and> zs_length s' = zs_length s - 1 \<and> zs_header s' = zs_header s \<and> zs_live s' = zs_live s
     \<and> (\<forall>y. score_of s' y = score_of s y \<and> sn_handler (zs_node s' y) = sn_handler (zs_node s y))"

lemma remove_chain:
  assumes ok: "chain_ok s (lo @ x # hi)" and same: "same_but_links s t"
    and f: "\<And>y i. fw t y i = (if i < zs_level s \<and> y = prd s lo i \<and> fw s y i = x then fw s x i else fw s y i)"
  shows "chain_ok t (lo @ hi)"
proof -
  have d: "distinct (zs_header s # lo @ x # hi)" and x0: "x \<noteq> 0" "x \<noteq> zs_header s" and h: "hgt t = hgt s" "score_of t = score_of s"
    "zs_header t = zs_header s" "zs_level t = zs_level s"
    using ok same by (auto simp: chain_ok_def same_but_links_def fun_eq_iff)
  have "linked (hgt s) (fw s) [] ((zs_header s # lo) @ x # hi)" using ok by (simp add: chain_ok_def)
  then have l: "linked (hgt s) (fw s) (x # hi) (zs_header s # lo)" "\<And>i. i < hgt s x \<Longrightarrow> fw s x i = nxt (hgt s) i hi" "linked (hgt s) (fw s) [] hi"
    unfolding linked_append by simp_all
  have hx: "hgt s y \<le> zs_level s" if "y \<in> set (lo @ x # hi)" for y using ok that unfolding chain_ok_def by blast
  have high: "fw s y i \<noteq> x" if "y \<in> set (zs_header s # lo)" "i < hgt s y" "\<not> i < zs_level s" for y i
  proof -
    have "y = zs_header s" using that hx [of y] by auto
    then have "fw s y i = nxt (hgt s) i (lo @ x # hi)" using ok that(2) by (simp add: chain_ok_def)
    moreover have "nxt (hgt s) i (lo @ x # hi) \<noteq> x"
      using nxt_in [of "hgt s" i "lo @ x # hi"] hx [of x] that(3) x0(1) by auto
    ultimately show ?thesis by simp
  qed
  have "linked (hgt s) (fw t) hi (zs_header s # lo)"
  proof (rule linked_remove [OF l(1) _ _ _ x0(1) l(2)])
    fix y i assume y: "y \<in> set (zs_header s # lo)" "i < hgt s y"
    show "fw t y i = (if y = last (filter (\<lambda>n. i < hgt s n) (zs_header s # lo)) \<and> fw s y i = x then fw s x i else fw s y i)"
      unfolding prd_def [symmetric] using f [of y i] high [OF y] by (cases "i < zs_level s") simp_all
  qed (use d in auto)
  moreover have "linked (hgt s) (fw t) [] hi = linked (hgt s) (fw s) [] hi"
  proof (rule linked_cong)
    fix y i assume y: "y \<in> set hi" "i < hgt s y"
    have "i < ZSKIPLIST_MAXLEVEL" using height_bound [OF ok _ y(2)] y(1) by simp
    then have "prd s lo i \<in> set (zs_header s # lo)" by (intro prd_props(1) [OF ok]) auto
    then have "prd s lo i \<noteq> y" using y d by auto
    then show "fw t y i = fw s y i" using f by simp
  qed simp
  ultimately have "linked (hgt t) (fw t) [] (zs_header t # lo @ hi)"
    using l(3) linked_append [of "hgt s" "fw t" "[]" "zs_header s # lo" hi] by (simp add: h)
  moreover have "hgt t y = hgt s y" "score_of t y = score_of s y" for y using same by (simp_all add: same_but_links_def)
  ultimately show ?thesis using ok unfolding chain_ok_def h(3,4) by (auto simp: sorted_append)
qed

lemma take_out_ok:
  assumes ok: "chain_ok s (lo @ x # hi)" and js: "set js = {0..<zs_level s}" "distinct js"
    and u: "\<And>i. i < zs_level s \<Longrightarrow> upd i = Some (prd s lo i)"
  shows "\<exists>s'. do { s \<leftarrow> unlink_levels x upd js s; s \<leftarrow> shrink s; Some (s\<lparr>zs_length := zs_length s - 1\<rparr>) } = Some s'
    \<and> taken_out s (lo @ x # hi) x s'"
proof -
  have d: "distinct (zs_header s # lo @ x # hi)" "x \<noteq> 0" using ok by (auto simp: chain_ok_def)
  have lv: "zs_level s \<le> ZSKIPLIST_MAXLEVEL" using ok by (simp add: chain_ok_def)
  have "linked (hgt s) (fw s) (x # hi) (zs_header s # lo)"
    using ok linked_append [of "hgt s" "fw s" "[]" "zs_header s # lo" "x # hi"] by (simp add: chain_ok_def)
  then have nx: "fw s (prd s lo i) i = nxt (hgt s) i (x # hi)" if "i < zs_level s" for i
    unfolding prd_def by (rule linked_prd) (use that ok lv in \<open>auto simp: chain_ok_def\<close>)
  have sub: "set lo \<subseteq> set (lo @ x # hi)" by auto
  have "prd s lo i \<noteq> 0 \<and> prd s lo i \<noteq> x \<and> i < hgt s (prd s lo i) \<and> (fw s (prd s lo i) i = x \<longrightarrow> i < hgt s x)" if "i < zs_level s" for i
    using prd_props [OF ok sub, of i] nx [OF that] that lv d nxt_in [of "hgt s" i hi] by (auto split: if_splits)
  then obtain s1 where s1: "unlink_levels x upd js s = Some s1" "same_but_links s s1"
    "\<forall>y i. fw s1 y i = (if i \<in> set js \<and> y = prd s lo i \<and> fw s y i = x then fw s x i else fw s y i)"
    using unlink_levels_ok [OF js(2) d(2), of upd "prd s lo" s] u js(1) by auto
  have "chain_ok s1 (lo @ hi)" by (rule remove_chain [OF ok s1(2)]) (use s1(3) js(1) in simp)
  then obtain l where l: "shrink s1 = Some (s1\<lparr>zs_level := l\<rparr>)" "chain_ok (s1\<lparr>zs_level := l\<rparr>) (lo @ hi)"
    "l > 1 \<longrightarrow> (\<exists>y \<in> set (lo @ hi). hgt s1 y = l)" using shrink_ok by blast
  let ?s = "s1\<lparr>zs_level := l, zs_length := zs_length s1 - 1\<rparr>"
  have "remove1 x (lo @ x # hi) = lo @ hi" using d by (simp add: remove1_append)
  moreover have "chain_ok ?s (lo @ hi)" using l(2) by (simp add: chain_ok_def)
  ultimately have "taken_out s (lo @ x # hi) x ?s" using l(3) s1(2) by (simp add: taken_out_def same_but_links_def)
  then show ?thesis using s1(1) l(1) by auto
qed

section \<open>The operations on the sequence of nodes\<close>

lemma nxt_0: "\<forall>x \<in> set xs. 1 \<le> h x \<Longrightarrow> nxt h 0 xs = (case xs of [] \<Rightarrow> 0 | x # _ \<Rightarrow> x)"
  by (cases xs) auto

lemma zslMin_ok: "chain_ok s xs \<Longrightarrow> zslMin s = Some (case xs of [] \<Rightarrow> 0 | x # _ \<Rightarrow> x)"
  using nxt_0 [of xs "hgt s"] by (auto simp: zslMin_def forward_def chain_ok_def ZSKIPLIST_MAXLEVEL_def)

lemma taken_out_ok:
  assumes "zsl_ok s xs" "x \<in> set xs" "taken_out s xs x s'"
  shows "zsl_ok s' (remove1 x xs)"
proof -
  have "int (length (remove1 x xs)) = int (length xs) - 1" using assms(2) length_pos_if_in_set [OF assms(2)] by (simp add: length_remove1 of_nat_diff Suc_le_eq)
  then have "zs_length s' = int (length (remove1 x xs))" using assms by (auto simp: taken_out_def zsl_ok_def)
  moreover have "set (zs_header s' # remove1 x xs) \<subseteq> zs_live s'" using assms set_remove1_subset [of x xs] by (auto simp: taken_out_def zsl_ok_def)
  ultimately show ?thesis using assms(3) unfolding taken_out_def zsl_ok_def by blast
qed

lemma zslDeleteHead_ok:
  assumes "zsl_ok s (x # xs)"
  shows "\<exists>s'. zslDeleteHead s = Some s' \<and> taken_out s (x # xs) x s' \<and> zsl_ok s' xs"
proof -
  have ch: "chain_ok s ([] @ x # xs)" and x: "x \<noteq> 0" using assms by (auto simp: zsl_ok_def chain_ok_def)
  have u: "Some (zs_header s) = Some (prd s [] i)" if "i < zs_level s" for i
    using that ch by (simp add: prd_def chain_ok_def)
  obtain s' where "do { t \<leftarrow> unlink_levels x (\<lambda>_. Some (zs_header s)) (rev [0..<zs_level s]) s; t \<leftarrow> shrink t; Some (t\<lparr>zs_length := zs_length t - 1\<rparr>) } = Some s'"
    "taken_out s (x # xs) x s'"
    using take_out_ok [OF ch _ _ u, of "rev [0..<zs_level s]"] by auto
  moreover from this have "zsl_ok s' xs" using taken_out_ok [OF assms, of x s'] by simp
  ultimately show ?thesis using zslMin_ok [OF ch] x by (auto simp: zslDeleteHead_def)
qed

text \<open>Deletion takes out the first node with the score of the given one.\<close>

definition first_equal :: "zskiplist \<Rightarrow> addr list \<Rightarrow> addr \<Rightarrow> addr" where
  "first_equal s xs zn = hd (filter (\<lambda>x. score_of s x = score_of s zn) xs)"

lemma rest_first_equal:
  assumes "sorted (map (score_of s) xs)" "zn \<in> set xs"
  shows "\<exists>ys. rest s (score_of s zn) xs = first_equal s xs zn # ys \<and> score_of s (first_equal s xs zn) = score_of s zn"
  using assms
proof (induction xs)
  case (Cons x xs)
  show ?case
  proof (cases "score_of s x < score_of s zn")
    case True
    then show ?thesis using Cons by (auto simp: first_equal_def)
  next
    case False
    then have "score_of s x = score_of s zn" using Cons.prems by auto
    then show ?thesis by (simp add: first_equal_def)
  qed
qed simp

lemma zslDelete_ok:
  assumes ok: "zsl_ok s xs" and zn: "zn \<in> set xs"
  shows "\<exists>s'. zslDelete zn s = Some s' \<and> zsl_ok s' (remove1 (first_equal s xs zn) xs) \<and> zs_header s' = zs_header s
    \<and> zs_live s' = zs_live s - {first_equal s xs zn} \<and> (\<forall>y. score_of s' y = score_of s y)"
proof -
  let ?sc = "score_of s zn" and ?x = "first_equal s xs zn"
  have ch: "chain_ok s xs" using ok by (simp add: zsl_ok_def)
  define lo where "lo = below s ?sc xs"
  have "sorted (map (score_of s) xs)" using ch by (simp add: chain_ok_def)
  then obtain ys where ys: "rest s ?sc xs = ?x # ys" and eq: "score_of s ?x = ?sc" using rest_first_equal zn by blast
  have xs: "xs = lo @ ?x # ys" unfolding lo_def using takeWhile_dropWhile_id [of "\<lambda>n. score_of s n < ?sc" xs] ys by simp
  have ch': "chain_ok s (lo @ ?x # ys)" using ch xs by metis
  have xin: "?x \<in> set xs" by (subst xs) simp
  have x0: "?x \<noteq> 0" using ch xin unfolding chain_ok_def by metis
  have "linked (hgt s) (fw s) [] ((zs_header s # lo) @ ?x # ys)" using ch' by (simp add: chain_ok_def)
  then have l: "linked (hgt s) (fw s) (?x # ys) (zs_header s # lo)" unfolding linked_append by simp
  have sub: "set lo \<subseteq> set (lo @ ?x # ys)" by auto
  have p0: "prd s lo 0 = last (zs_header s # lo)"
    using ch' unfolding prd_def by (intro arg_cong [of _ _ last]) (auto simp: chain_ok_def filter_id_conv ZSKIPLIST_MAXLEVEL_def Suc_le_eq)
  have "forward s (last (zs_header s # lo)) 0 = Some (fw s (prd s lo 0) 0)"
    using prd_props [OF ch' sub, of 0] p0 by (simp add: forward_def ZSKIPLIST_MAXLEVEL_def)
  moreover have "fw s (prd s lo 0) 0 = nxt (hgt s) 0 (?x # ys)"
    unfolding prd_def by (rule linked_prd [OF l]) (use ch in \<open>auto simp: chain_ok_def ZSKIPLIST_MAXLEVEL_def\<close>)
  moreover have "nxt (hgt s) 0 (?x # ys) = ?x" using ch xin by (auto simp: chain_ok_def Suc_le_eq)
  ultimately have f: "forward s (last (zs_header s # lo)) 0 = Some ?x" by simp
  define upd where "upd = (\<lambda>i. if i < zs_level s then Some (prd s lo i) else None)"
  obtain s1 where s1: "zslDeleteNode ?x upd s = Some s1" "taken_out s (lo @ ?x # ys) ?x s1"
    using take_out_ok [OF ch', of "[0..<zs_level s]" upd] by (auto simp: zslDeleteNode_def upd_def)
  have t: "taken_out s xs ?x s1" using s1(2) xs by metis
  let ?s = "s1\<lparr>zs_live := zs_live s1 - {?x}\<rparr>"
  have ok1: "zsl_ok s1 (remove1 ?x xs)" by (rule taken_out_ok [OF ok xin t])
  have d: "distinct xs" "zs_header s \<noteq> ?x" using ch xin by (auto simp: chain_ok_def)
  have "?x \<notin> set (zs_header s1 # remove1 ?x xs)" using d t by (auto simp: taken_out_def)
  then have "zsl_ok ?s (remove1 ?x xs)" using ok1 by (auto simp: zsl_ok_def chain_ok_def)
  moreover have "?x \<in> zs_live s1" using ok xin t by (auto simp: zsl_ok_def taken_out_def)
  then have "zslDelete zn s = Some ?s"
    unfolding zslDelete_def ok_find_update [OF ch] lo_def [symmetric] upd_def [symmetric] using f x0 eq s1(1) by (simp add: sfree_def)
  ultimately show ?thesis using t by (auto simp: taken_out_def)
qed

section \<open>Creation, freeing and printing\<close>

lemma zslCreate_ok:
  assumes "header \<noteq> 0"
  shows "\<exists>s'. zslCreate header s = Some s' \<and> zsl_ok s' [] \<and> zs_header s' = header \<and> zs_live s' = insert header (zs_live s)"
proof -
  define s1 where "s1 = s\<lparr>zs_level := 1, zs_length := 0,
    zs_node := (zs_node s)(header := \<lparr>sn_score = 0, sn_handler = 0, sn_levels = ZSKIPLIST_MAXLEVEL, sn_forward = fw s header\<rparr>),
    zs_live := insert header (zs_live s), zs_header := header\<rparr>"
  obtain s' where s': "clear_forward header [0..<ZSKIPLIST_MAXLEVEL] s1 = Some s'" "same_but_links s1 s'"
    "\<forall>y j. fw s' y j = (if y = header \<and> j \<in> set [0..<ZSKIPLIST_MAXLEVEL] then 0 else fw s1 y j)"
    using clear_forward_ok [OF assms, of "[0..<ZSKIPLIST_MAXLEVEL]" s1] by (auto simp: s1_def)
  have "zs_header s' = header" "zs_level s' = 1" "zs_length s' = 0" "hgt s' header = ZSKIPLIST_MAXLEVEL" "zs_live s' = insert header (zs_live s)"
    using s'(2) by (auto simp: same_but_links_def s1_def)
  then have "zsl_ok s' []" using s'(3) assms by (simp add: zsl_ok_def chain_ok_def ZSKIPLIST_MAXLEVEL_def)
  moreover have "zslCreate header s = Some s'" using s'(1) assms by (simp add: zslCreate_def zslCreateNode_def s1_def)
  ultimately show ?thesis using \<open>zs_header s' = header\<close> \<open>zs_live s' = _\<close> by blast
qed

lemma free_nodes_ok:
  assumes "linked (hgt s) (fw s) [] ys" "\<forall>y \<in> set ys. 1 \<le> hgt s y \<and> y \<noteq> 0" "distinct ys" "set ys \<subseteq> zs_live s"
  shows "free_nodes (nxt (hgt s) 0 ys) s = Some (s\<lparr>zs_live := zs_live s - set ys\<rparr>)"
  using assms
proof (induction ys arbitrary: s)
  case Nil
  then show ?case by (subst free_nodes.simps) simp
next
  case (Cons y ys)
  let ?s = "s\<lparr>zs_live := zs_live s - {y}\<rparr>"
  have "free_nodes (nxt (hgt ?s) 0 ys) ?s = Some (?s\<lparr>zs_live := zs_live ?s - set ys\<rparr>)" by (rule Cons.IH) (use Cons.prems in auto)
  moreover have "forward s y 0 = Some (nxt (hgt s) 0 ys)" "nxt (hgt s) 0 (y # ys) = y" "y \<noteq> 0" "y \<in> zs_live s"
    using Cons.prems by (auto simp: forward_def Suc_le_eq)
  moreover have "zs_live s - {y} - set ys = zs_live s - set (y # ys)" by auto
  ultimately show ?case by (subst free_nodes.simps) (simp add: sfree_def)
qed

lemma print_nodes_ok:
  assumes "linked (hgt s) (fw s) [] ys" "\<forall>y \<in> set ys. 1 \<le> hgt s y \<and> y \<noteq> 0"
  shows "print_nodes s (length ys) (nxt (hgt s) 0 ys) = Some (map (score_of s) ys)"
  using assms by (induction ys) (auto simp: forward_def Suc_le_eq)

lemma chain_links:
  assumes "chain_ok s xs"
  shows "linked (hgt s) (fw s) [] xs" "\<forall>y \<in> set xs. 1 \<le> hgt s y \<and> y \<noteq> 0" "forward s (zs_header s) 0 = Some (nxt (hgt s) 0 xs)"
proof -
  show "\<forall>y \<in> set xs. 1 \<le> hgt s y \<and> y \<noteq> 0" using assms unfolding chain_ok_def by metis
qed (use assms in \<open>auto simp: chain_ok_def forward_def ZSKIPLIST_MAXLEVEL_def\<close>)

lemma zslFree_ok:
  assumes "zsl_ok s xs"
  shows "zslFree s = Some (s\<lparr>zs_live := zs_live s - set (zs_header s # xs)\<rparr>)"
proof -
  let ?s = "s\<lparr>zs_live := zs_live s - {zs_header s}\<rparr>"
  have ch: "chain_ok s xs" using assms by (simp add: zsl_ok_def)
  have "free_nodes (nxt (hgt ?s) 0 xs) ?s = Some (?s\<lparr>zs_live := zs_live ?s - set xs\<rparr>)"
    by (rule free_nodes_ok) (use chain_links [OF ch] assms in \<open>auto simp: zsl_ok_def chain_ok_def\<close>)
  moreover have "zs_header s \<in> zs_live s" "zs_live s - {zs_header s} - set xs = zs_live s - set (zs_header s # xs)" using assms by (auto simp: zsl_ok_def)
  ultimately show ?thesis using chain_links(3) [OF ch] by (simp add: zslFree_def sfree_def)
qed

lemma zslPrint_ok: "zsl_ok s xs \<Longrightarrow> zslPrint s = Some (map (score_of s) xs)"
  using chain_links [of s xs] print_nodes_ok [of s xs] by (simp add: zsl_ok_def zslPrint_def)

text \<open>A store represents at most one sequence.\<close>

lemma linked_unique:
  assumes "linked h f [] (x # xs)" "linked h f [] (x # ys)" "1 \<le> h x" "\<forall>y \<in> set xs. 1 \<le> h y \<and> y \<noteq> 0" "\<forall>y \<in> set ys. 1 \<le> h y \<and> y \<noteq> (0 :: addr)"
  shows "xs = ys"
  using assms
proof (induction xs arbitrary: x ys)
  case Nil
  then show ?case by (cases ys) (auto simp: Suc_le_eq)
next
  case (Cons z xs)
  have "nxt h 0 (z # xs) = f x 0" "nxt h 0 ys = f x 0" using Cons.prems(1-3) by auto
  then have "nxt h 0 ys = z" "z \<noteq> 0" using Cons.prems(4) by (auto simp: Suc_le_eq)
  then obtain us where "ys = z # us" using Cons.prems(5) by (cases ys) (auto simp: Suc_le_eq)
  then show ?case using Cons.IH [of z us] Cons.prems by simp
qed

lemma zsl_ok_unique:
  assumes "zsl_ok s xs" "zsl_ok s ys"
  shows "xs = ys"
proof -
  have c: "chain_ok s xs" "chain_ok s ys" using assms by (auto simp: zsl_ok_def)
  have "linked (hgt s) (fw s) [] (zs_header s # xs)" "linked (hgt s) (fw s) [] (zs_header s # ys)" "1 \<le> hgt s (zs_header s)"
    using c unfolding chain_ok_def ZSKIPLIST_MAXLEVEL_def by auto
  then show ?thesis using chain_links(2) c by (intro linked_unique) blast+
qed

end
