(* ===== verification/SklTimer.thy ===== *)
theory SklTimer
  imports SkipListOps TimerQueue
begin

text \<open>
  The timer module over the skip list, \<open>skl-timer.c\<close> of \<open>2207-timers\<close>. The values of \<open>current_time()\<close>,
  \<open>malloc\<close> and \<open>rand\<close> are inputs, and \<open>run\<close> says what a handler does to the list. The skip list is a
  timer queue, so the expiry loop has the behaviour proved for every such queue.
\<close>

section \<open>The module\<close>

definition init_timer :: "addr \<Rightarrow> zskiplist \<Rightarrow> zskiplist option" where
  "init_timer header s = zslCreate header s"

definition add_timer :: "uint32 \<Rightarrow> nat list \<Rightarrow> addr \<Rightarrow> zskiplist \<Rightarrow> uint32 \<Rightarrow> nat \<Rightarrow> (addr \<times> zskiplist) option" where
  "add_timer clock rs new zsl msec func = (let msec = msec + clock in zslInsert rs new (ucast msec) func zsl)"

definition del_timer :: "zskiplist \<Rightarrow> addr \<Rightarrow> zskiplist option" where
  "del_timer zsl zn = zslDelete zn zsl"

partial_function (option) expire_loop :: "(nat \<Rightarrow> addr \<Rightarrow> zskiplist \<Rightarrow> zskiplist) \<Rightarrow> uint64 \<Rightarrow> zskiplist \<Rightarrow> (addr list \<times> zskiplist) option" where
  "expire_loop run now zsl =
     do { x \<leftarrow> zslMin zsl;
          if x = 0 then Some ([], zsl)
          else if score_of zsl x > now then Some ([], zsl)
          else do { zsl \<leftarrow> zslDeleteHead (run (sn_handler (zs_node zsl x)) x zsl);
                    (fired, zsl) \<leftarrow> expire_loop run now zsl;
                    Some (x # fired, zsl) } }"

definition expire_timer :: "(nat \<Rightarrow> addr \<Rightarrow> zskiplist \<Rightarrow> zskiplist) \<Rightarrow> uint32 \<Rightarrow> zskiplist \<Rightarrow> (addr list \<times> zskiplist) option" where
  "expire_timer run clock zsl = expire_loop run (ucast clock) zsl"

section \<open>The skip list is a timer queue\<close>

definition skl_nodes :: "zskiplist \<Rightarrow> addr set" where
  "skl_nodes s = {x. \<exists>xs. zsl_ok s xs \<and> x \<in> set xs}"

definition skl_top :: "zskiplist \<Rightarrow> addr option" where
  "skl_top s = do { x \<leftarrow> zslMin s; if x = 0 then None else Some x }"

lemma skl_nodes_eq: "zsl_ok s xs \<Longrightarrow> skl_nodes s = set xs"
  using zsl_ok_unique by (auto simp: skl_nodes_def)

lemma skl_top_eq:
  assumes "zsl_ok s xs"
  shows "skl_top s = (case xs of [] \<Rightarrow> None | x # _ \<Rightarrow> Some x)" "zslMin s = Some (case xs of [] \<Rightarrow> 0 | x # _ \<Rightarrow> x)"
proof -
  have ch: "chain_ok s xs" using assms by (simp add: zsl_ok_def)
  show "zslMin s = Some (case xs of [] \<Rightarrow> 0 | x # _ \<Rightarrow> x)" by (rule zslMin_ok [OF ch])
  then show "skl_top s = (case xs of [] \<Rightarrow> None | x # _ \<Rightarrow> Some x)"
    using chain_links(2) [OF ch] by (cases xs) (auto simp: skl_top_def)
qed

lemma skl_pop_ok:
  assumes "zsl_ok s (x # xs)"
  shows "\<exists>s'. zslDeleteHead s = Some s' \<and> zsl_ok s' xs \<and> zs_live s' = zs_live s \<and> (\<forall>y. score_of s' y = score_of s y)"
  using zslDeleteHead_ok [OF assms] by (auto simp: taken_out_def)

interpretation sklq: timer_queue "\<lambda>s. \<exists>xs. zsl_ok s xs" skl_nodes "\<lambda>s. score_of s" skl_top zslDeleteHead "expire_loop (\<lambda>_ _ s. s)"
proof (unfold_locales, goal_cases)
  case (1 s)
  then show ?case using skl_nodes_eq by fastforce
next
  case (2 s)
  then obtain xs where "zsl_ok s xs" by blast
  then show ?case using skl_top_eq skl_nodes_eq by (cases xs) auto
next
  case (3 s e)
  then obtain xs where xs: "zsl_ok s xs" by blast
  then obtain ys where ys: "xs = e # ys" using 3(2) skl_top_eq(1) by (cases xs) auto
  have "sorted (map (score_of s) xs)" using xs by (simp add: zsl_ok_def chain_ok_def)
  then show ?case using ys skl_nodes_eq [OF xs] by auto
next
  case (4 s e)
  then obtain xs where xs: "zsl_ok s xs" by blast
  then obtain ys where ys: "xs = e # ys" using 4(2) skl_top_eq(1) by (cases xs) auto
  have d: "e \<notin> set ys" using xs ys by (simp add: zsl_ok_def chain_ok_def)
  obtain s' where s': "zslDeleteHead s = Some s'" "zsl_ok s' ys" "\<forall>y. score_of s' y = score_of s y" using skl_pop_ok xs ys by blast
  then show ?case using skl_nodes_eq [OF xs] skl_nodes_eq [OF s'(2)] ys d by auto
next
  case (5 s now)
  then obtain xs where xs: "zsl_ok s xs" by blast
  show ?case using skl_top_eq [OF xs] chain_links(2) [of s xs] xs
    by (subst expire_loop.simps) (auto simp: zsl_ok_def split: list.split option.split Option.bind_split)
qed

text \<open>Expired nodes are unlinked and never freed.\<close>

lemma expire_live:
  assumes "zsl_ok s xs" "expire_loop (\<lambda>_ _ s. s) now s = Some (fired, s')"
  shows "zs_live s' = zs_live s"
  using assms
proof (induction xs arbitrary: s fired)
  case Nil
  then show ?case using skl_top_eq(2) [OF Nil(1)] by (subst (asm) expire_loop.simps) simp
next
  case (Cons x xs)
  obtain s1 where s1: "zslDeleteHead s = Some s1" "zsl_ok s1 xs" "zs_live s1 = zs_live s" using skl_pop_ok [OF Cons.prems(1)] by blast
  have "x \<noteq> 0" using Cons.prems(1) by (auto simp: zsl_ok_def chain_ok_def)
  then show ?case using Cons.prems(2) skl_top_eq(2) [OF Cons.prems(1)] s1 Cons.IH [OF s1(2)]
    by (subst (asm) expire_loop.simps) (auto split: if_splits bind_splits)
qed

section \<open>A small list\<close>

text \<open>Header 1, nodes 2 and 3 with the same score and node 4; node 3 reaches the second level.\<close>

definition demo_zsl :: zskiplist where
  "demo_zsl = \<lparr>zs_header = 1, zs_length = 3, zs_level = 2, zs_node = (\<lambda>a.
     if a = 1 then \<lparr>sn_score = 0, sn_handler = 0, sn_levels = 32, sn_forward = (\<lambda>i. if i = 0 then 2 else if i = 1 then 3 else 0)\<rparr>
     else if a = 2 then \<lparr>sn_score = 10, sn_handler = 7, sn_levels = 1, sn_forward = (\<lambda>i. 3)\<rparr>
     else if a = 3 then \<lparr>sn_score = 10, sn_handler = 7, sn_levels = 2, sn_forward = (\<lambda>i. if i = 0 then 4 else 0)\<rparr>
     else \<lparr>sn_score = 20, sn_handler = 7, sn_levels = 1, sn_forward = (\<lambda>i. 0)\<rparr>), zs_live = {1, 2, 3, 4}\<rparr>"

lemma demo_zsl_ok: "zsl_ok demo_zsl [2, 3, 4]"
  by (auto simp: zsl_ok_def chain_ok_def demo_zsl_def ZSKIPLIST_MAXLEVEL_def)

lemma demo_score [simp]: "score_of demo_zsl 2 = 10" "score_of demo_zsl 3 = 10" "score_of demo_zsl 4 = 20" "zs_header demo_zsl = 1"
  "zs_live demo_zsl = {1, 2, 3, 4}"
  by (simp_all add: demo_zsl_def)

section \<open>Properties\<close>

text \<open>
  C25. \<open>add_timer\<close> on a well-formed skip list, with any level the random generator gives, returns the
  new node and keeps the list well formed: every level links the nodes that reach it in order of score.
  The new node has score clock + delay modulo \<open>2 ^ 32\<close> and stands before the nodes of equal score.
\<close>

theorem skl_add_timer_inserts:
  assumes "zsl_ok s xs" "new \<noteq> 0" "new \<notin> set (zs_header s # xs)" "zslRandomLevel rs = Some lv" "length xs + 1 < 2 ^ 31"
  shows "\<exists>s'. add_timer clock rs new s msec func = Some (new, s') \<and> inserted s xs new (ucast (msec + clock)) func s'"
  using zslInsert_ok [OF assms] by (simp add: add_timer_def)

theorem skl_add_timer_inserts_witness:
  "\<exists>s'. add_timer 5 [100, 65535] 9 demo_zsl 5 7 = Some (9, s') \<and> zsl_ok s' [9, 2, 3, 4] \<and> score_of s' 9 = 10"
proof -
  have r: "zslRandomLevel [100, 65535] = Some 2" by (simp add: zslRandomLevel_def ZSKIPLIST_MAXLEVEL_def)
  have "\<exists>s'. add_timer 5 [100, 65535] 9 demo_zsl 5 7 = Some (9, s') \<and> inserted demo_zsl [2, 3, 4] 9 (ucast (5 + 5 :: uint32)) 7 s'"
    by (rule skl_add_timer_inserts [OF demo_zsl_ok _ _ r]) simp_all
  then show ?thesis by (auto simp: inserted_def)
qed

text \<open>
  \<open>del_timer\<close> of a timer in the list takes out, and frees, the first node with the same score: the
  timer itself when no other timer with this score stands before it; otherwise another timer is removed
  and freed, and the one that was to be deleted stays in the list.
\<close>

theorem skl_del_timer_first_equal:
  assumes "zsl_ok s xs" "zn \<in> set xs"
  shows "\<exists>s'. del_timer s zn = Some s' \<and> zsl_ok s' (remove1 (first_equal s xs zn) xs) \<and> zs_live s' = zs_live s - {first_equal s xs zn}
    \<and> (first_equal s xs zn = zn \<longleftrightarrow> (\<forall>ys zs. xs = ys @ zn # zs \<longrightarrow> (\<forall>y \<in> set ys. score_of s y \<noteq> score_of s zn)))
    \<and> (first_equal s xs zn \<noteq> zn \<longrightarrow> zn \<in> set (remove1 (first_equal s xs zn) xs))"
proof -
  have d: "distinct xs" using assms(1) by (simp add: zsl_ok_def chain_ok_def)
  let ?P = "\<lambda>x. score_of s x = score_of s zn"
  obtain ys zs where split: "xs = ys @ zn # zs" "zn \<notin> set ys" using assms(2) by (meson split_list_first)
  have "first_equal s xs zn = hd (filter ?P ys @ [zn])" unfolding first_equal_def split(1) by (cases "filter ?P ys") auto
  then have "first_equal s xs zn = zn \<longleftrightarrow> filter ?P ys = []"
    using split(2) by (cases "filter ?P ys") (auto dest: filter_eq_ConsD)
  moreover have "xs = us @ zn # vs \<longleftrightarrow> us = ys \<and> vs = zs" for us vs
    using split d append_Cons_eq_iff [of zn ys zs us vs] by auto
  ultimately have "first_equal s xs zn = zn \<longleftrightarrow> (\<forall>ys zs. xs = ys @ zn # zs \<longrightarrow> (\<forall>y \<in> set ys. score_of s y \<noteq> score_of s zn))"
    by (simp add: filter_empty_conv)
  then show ?thesis using zslDelete_ok [OF assms] assms(2) by (auto simp: del_timer_def)
qed

theorem skl_del_timer_first_equal_witness:
  "\<exists>s'. del_timer demo_zsl 3 = Some s' \<and> zsl_ok s' [3, 4] \<and> zs_live s' = {1, 3, 4}"
proof -
  have fe: "first_equal demo_zsl [2, 3, 4] 3 = 2" and m: "3 \<in> set [2, 3, 4 :: addr]" by (simp_all add: first_equal_def)
  obtain s' where "del_timer demo_zsl 3 = Some s'" "zsl_ok s' (remove1 2 [2, 3, 4])" "zs_live s' = zs_live demo_zsl - {2}"
    using skl_del_timer_first_equal [OF demo_zsl_ok m] unfolding fe by blast
  then show ?thesis by (auto simp: insert_Diff_if)
qed

text \<open>
  C27. \<open>expire_timer\<close> with handlers that leave the list alone ends: it calls the handlers of exactly the
  timers that are due, each once and in order of their times, and leaves a well-formed list of the
  others. No expired node is freed: the memory in use is the same as before.
\<close>

theorem skl_expire_timer_fires_due:
  assumes "zsl_ok s xs"
  shows "\<exists>fired s' ys. expire_timer (\<lambda>_ _ s. s) clock s = Some (fired, s') \<and> set fired = {x \<in> set xs. score_of s x \<le> ucast clock}
    \<and> distinct fired \<and> sorted (map (score_of s) fired) \<and> zsl_ok s' ys \<and> set ys = {x \<in> set xs. ucast clock < score_of s x}
    \<and> zs_live s' = zs_live s"
proof -
  obtain fired s' where e: "expire_loop (\<lambda>_ _ s. s) (ucast clock) s = Some (fired, s')" "sklq.expired (ucast clock) s fired s'"
    using sklq.expire_correct assms by blast
  note x = e(2) [unfolded sklq.expired_def skl_nodes_eq [OF assms]]
  obtain ys where ys: "zsl_ok s' ys" using x by (elim conjE exE)
  have "expire_timer (\<lambda>_ _ s. s) clock s = Some (fired, s')" using e(1) by (simp add: expire_timer_def)
  moreover have "zs_live s' = zs_live s" by (rule expire_live [OF assms e(1)])
  ultimately show ?thesis using x ys unfolding skl_nodes_eq [OF ys] by (intro exI [of _ fired] exI [of _ s'] exI [of _ ys]) simp
qed

theorem skl_expire_timer_fires_due_witness:
  "\<exists>fired s' ys. expire_timer (\<lambda>_ _ s. s) 15 demo_zsl = Some (fired, s') \<and> set fired = {2, 3} \<and> distinct fired \<and> zsl_ok s' ys
    \<and> set ys = {4} \<and> zs_live s' = {1, 2, 3, 4}"
proof -
  have c: "ucast (15 :: uint32) = (15 :: uint64)" by simp
  have due: "{x \<in> set [2, 3, 4]. score_of demo_zsl x \<le> 15} = {2, 3}" "{x \<in> set [2, 3, 4]. 15 < score_of demo_zsl x} = {4}"
    unfolding set_filter [symmetric] by simp_all
  show ?thesis using skl_expire_timer_fires_due [OF demo_zsl_ok, of 15] unfolding c due demo_score(5) by blast
qed

end
