(* ===== verification/MinHeap.thy ===== *)
theory MinHeap
  imports Prelude
begin

text \<open>
  The binary min-heap of timer entries, \<open>7.../2207-timers/minheap.c\<close> and
  \<open>minheap.h\<close>. The heap is an array of pointers to entries; every entry records
  its own position (\<open>min_heap_idx\<close>, \<open>-1\<close> when it is in no heap).

  Entries live in a store \<open>ents\<close> indexed by address. Indices are natural numbers
  with the unsigned 32-bit wrap-around of the code written out (\<^const>\<open>u32\<close>,
  \<^const>\<open>u32_minus\<close>). The downward loop is a \<^theory_text>\<open>partial_function\<close>, because
  with wrapped indices it may fail to stop; the invariant rules that out.
\<close>

section \<open>Data\<close>

record timer_entry =
  te_time :: uint32
  te_idx :: nat
  te_handler :: nat
  te_privdata :: nat

record min_heap =
  ents :: "addr \<Rightarrow> timer_entry"
  hp :: "addr list"
  hn :: nat
  ha :: nat

section \<open>Operations\<close>

definition min_heap_elem_greater :: "min_heap \<Rightarrow> addr \<Rightarrow> addr \<Rightarrow> bool" where
  "min_heap_elem_greater s a b \<longleftrightarrow> te_time (ents s a) > te_time (ents s b)"

definition set_idx :: "min_heap \<Rightarrow> addr \<Rightarrow> nat \<Rightarrow> min_heap" where
  "set_idx s e i = s\<lparr>ents := (ents s)(e := (ents s e)\<lparr>te_idx := i\<rparr>)\<rparr>"

text \<open>The assignment \<open>(s->p[i] = e)->min_heap_idx = i\<close>.\<close>

definition place :: "min_heap \<Rightarrow> nat \<Rightarrow> addr \<Rightarrow> min_heap" where
  "place s i e = set_idx (s\<lparr>hp := (hp s)[i := e]\<rparr>) e i"

definition min_heap_ctor :: "(addr \<Rightarrow> timer_entry) \<Rightarrow> min_heap" where
  "min_heap_ctor es = \<lparr>ents = es, hp = [], hn = 0, ha = 0\<rparr>"

definition min_heap_elem_init :: "min_heap \<Rightarrow> addr \<Rightarrow> min_heap" where
  "min_heap_elem_init s e = set_idx s e U32_MAX"

definition min_heap_empty :: "min_heap \<Rightarrow> bool" where
  "min_heap_empty s \<longleftrightarrow> 0 = hn s"

definition min_heap_size :: "min_heap \<Rightarrow> nat" where
  "min_heap_size s = hn s"

definition min_heap_top :: "min_heap \<Rightarrow> addr option" where
  "min_heap_top s = (if hn s \<noteq> 0 then Some (hp s ! 0) else None)"

definition min_heap_elt_is_top :: "min_heap \<Rightarrow> addr \<Rightarrow> bool" where
  "min_heap_elt_is_top s e \<longleftrightarrow> te_idx (ents s e) = 0"

function min_heap_shift_up :: "min_heap \<Rightarrow> nat \<Rightarrow> addr \<Rightarrow> min_heap" where
  "min_heap_shift_up s hole_index e =
     (let parent = u32_minus hole_index 1 div 2
      in if hole_index \<noteq> 0 \<and> min_heap_elem_greater s (hp s ! parent) e
         then min_heap_shift_up (place s hole_index (hp s ! parent)) parent e
         else place s hole_index e)"
  by pat_completeness auto
termination
proof (relation "measure (\<lambda>(s, hole_index, e). hole_index)", goal_cases)
  case 1
  show ?case by simp
next
  case (2 s hole_index e parent)
  then have "parent \<le> (hole_index - 1) div 2"
    using u32_minus_1_le [of hole_index] by (simp add: div_le_mono)
  with 2 show ?case by auto
qed

declare min_heap_shift_up.simps [simp del]

definition min_heap_shift_up_unconditional :: "min_heap \<Rightarrow> nat \<Rightarrow> addr \<Rightarrow> min_heap" where
  "min_heap_shift_up_unconditional s hole_index e =
     (let parent = u32_minus hole_index 1 div 2
      in min_heap_shift_up (place s hole_index (hp s ! parent)) parent e)"

partial_function (option) min_heap_shift_down :: "min_heap \<Rightarrow> nat \<Rightarrow> addr \<Rightarrow> min_heap option" where
  "min_heap_shift_down s hole_index e =
     (let min_child = u32 (2 * u32 (hole_index + 1))
      in if min_child \<le> hn s
         then (let min_child' = u32_minus min_child
                     (if min_child = hn s
                         \<or> min_heap_elem_greater s (hp s ! min_child) (hp s ! u32_minus min_child 1)
                      then 1 else 0)
               in if \<not> min_heap_elem_greater s e (hp s ! min_child')
                  then Some (place s hole_index e)
                  else min_heap_shift_down (place s hole_index (hp s ! min_child')) min_child' e)
         else Some (place s hole_index e))"

definition min_heap_reserve :: "addr option \<Rightarrow> min_heap \<Rightarrow> nat \<Rightarrow> int \<times> min_heap" where
  "min_heap_reserve env s n =
     (if ha s < n
      then (let a = (if ha s \<noteq> 0 then u32 (ha s * 2) else 8);
                a' = (if a < n then n else a)
            in case c_realloc env (hp s) a' of
                 None \<Rightarrow> (-1, s)
               | Some p \<Rightarrow> (0, s\<lparr>hp := p, ha := a'\<rparr>))
      else (0, s))"

definition min_heap_push :: "addr option \<Rightarrow> min_heap \<Rightarrow> addr \<Rightarrow> int \<times> min_heap" where
  "min_heap_push env s e =
     (case min_heap_reserve env s (u32 (hn s + 1)) of
        (r, s1) \<Rightarrow>
          if r \<noteq> 0 then (-1, s1)
          else (0, min_heap_shift_up (s1\<lparr>hn := u32 (hn s1 + 1)\<rparr>) (hn s1) e))"

definition min_heap_pop :: "min_heap \<Rightarrow> (addr option \<times> min_heap) option" where
  "min_heap_pop s =
     (if hn s \<noteq> 0
      then (let e = hp s ! 0;
                s1 = s\<lparr>hn := u32_minus (hn s) 1\<rparr>
            in case min_heap_shift_down s1 0 (hp s1 ! hn s1) of
                 None \<Rightarrow> None
               | Some s2 \<Rightarrow> Some (Some e, set_idx s2 e U32_MAX))
      else Some (None, s))"

definition min_heap_erase :: "min_heap \<Rightarrow> addr \<Rightarrow> (int \<times> min_heap) option" where
  "min_heap_erase s e =
     (if U32_MAX \<noteq> te_idx (ents s e)
      then (let idx = te_idx (ents s e);
                s1 = s\<lparr>hn := u32_minus (hn s) 1\<rparr>;
                last = hp s1 ! hn s1;
                parent = u32_minus idx 1 div 2
            in case (if idx > 0 \<and> min_heap_elem_greater s1 (hp s1 ! parent) last
                     then Some (min_heap_shift_up_unconditional s1 idx last)
                     else min_heap_shift_down s1 idx last) of
                 None \<Rightarrow> None
               | Some s2 \<Rightarrow> Some (0, set_idx s2 e U32_MAX))
      else Some (-1, s))"

definition min_heap_adjust :: "addr option \<Rightarrow> min_heap \<Rightarrow> addr \<Rightarrow> (int \<times> min_heap) option" where
  "min_heap_adjust env s e =
     (if U32_MAX = te_idx (ents s e) then Some (min_heap_push env s e)
      else (let idx = te_idx (ents s e);
                parent = u32_minus idx 1 div 2
            in case (if idx > 0 \<and> min_heap_elem_greater s (hp s ! parent) e
                     then Some (min_heap_shift_up_unconditional s idx e)
                     else min_heap_shift_down s idx e) of
                 None \<Rightarrow> None
               | Some s2 \<Rightarrow> Some (0, s2)))"


section \<open>The invariant\<close>

definition par :: "nat \<Rightarrow> nat" where
  "par i = (i - 1) div 2"

abbreviation key :: "min_heap \<Rightarrow> addr \<Rightarrow> uint32" where
  "key s e \<equiv> te_time (ents s e)"

text \<open>The pointers stored outside the hole, and the entries of the heap.\<close>

definition others :: "min_heap \<Rightarrow> nat \<Rightarrow> addr set" where
  "others s h = (!) (hp s) ` ({..<hn s} - {h})"

definition elems :: "min_heap \<Rightarrow> addr set" where
  "elems s = (!) (hp s) ` {..<hn s}"

text \<open>The array bounds, the back pointers and the order of the heap, away from a hole.\<close>

definition bounds_ok :: "min_heap \<Rightarrow> bool" where
  "bounds_ok s \<longleftrightarrow> hn s \<le> length (hp s) \<and> length (hp s) = ha s \<and> ha s < 2 ^ 32 \<and> hn s < 2 ^ 31"

definition idx_ok :: "min_heap \<Rightarrow> nat \<Rightarrow> bool" where
  "idx_ok s h \<longleftrightarrow> (\<forall>i < hn s. i \<noteq> h \<longrightarrow> te_idx (ents s (hp s ! i)) = i)"

definition order_ok :: "min_heap \<Rightarrow> nat \<Rightarrow> bool" where
  "order_ok s h \<longleftrightarrow>
     (\<forall>i < hn s. 0 < i \<longrightarrow> i \<noteq> h \<longrightarrow> par i \<noteq> h \<longrightarrow> key s (hp s ! par i) \<le> key s (hp s ! i)) \<and>
     (\<forall>i < hn s. 0 < i \<longrightarrow> par i = h \<longrightarrow> 0 < h \<longrightarrow> key s (hp s ! par h) \<le> key s (hp s ! i))"

definition mh_inv :: "min_heap \<Rightarrow> bool" where
  "mh_inv s \<longleftrightarrow> bounds_ok s
     \<and> (\<forall>i < hn s. te_idx (ents s (hp s ! i)) = i)
     \<and> (\<forall>i < hn s. 0 < i \<longrightarrow> key s (hp s ! par i) \<le> key s (hp s ! i))"

definition hole_inv :: "min_heap \<Rightarrow> nat \<Rightarrow> addr \<Rightarrow> bool" where
  "hole_inv s h e \<longleftrightarrow> bounds_ok s \<and> h < hn s \<and> e \<notin> others s h \<and> idx_ok s h \<and> order_ok s h"

text \<open>The new state differs from the old one in the array and in the indices of \<open>A\<close> only.\<close>

definition mh_frame :: "addr set \<Rightarrow> min_heap \<Rightarrow> min_heap \<Rightarrow> bool" where
  "mh_frame A s s' \<longleftrightarrow> hn s' = hn s \<and> ha s' = ha s \<and> length (hp s') = length (hp s)
     \<and> (\<forall>x. te_time (ents s' x) = te_time (ents s x) \<and> te_handler (ents s' x) = te_handler (ents s x)
            \<and> te_privdata (ents s' x) = te_privdata (ents s x))
     \<and> (\<forall>x. x \<notin> A \<longrightarrow> ents s' x = ents s x)"

section \<open>Placing an entry\<close>

lemma set_idx_simps [simp]:
  "hp (set_idx s e i) = hp s" "hn (set_idx s e i) = hn s" "ha (set_idx s e i) = ha s"
  "te_time (ents (set_idx s e i) x) = te_time (ents s x)"
  "te_handler (ents (set_idx s e i) x) = te_handler (ents s x)"
  "te_privdata (ents (set_idx s e i) x) = te_privdata (ents s x)"
  "te_idx (ents (set_idx s e i) x) = (if x = e then i else te_idx (ents s x))"
  by (auto simp: set_idx_def)

lemma set_idx_other [simp]: "x \<noteq> e \<Longrightarrow> ents (set_idx s e i) x = ents s x"
  by (simp add: set_idx_def)

lemma place_simps [simp]:
  "hp (place s h e) = (hp s)[h := e]" "hn (place s h e) = hn s" "ha (place s h e) = ha s"
  "te_time (ents (place s h e) x) = te_time (ents s x)"
  "te_handler (ents (place s h e) x) = te_handler (ents s x)"
  "te_privdata (ents (place s h e) x) = te_privdata (ents s x)"
  "te_idx (ents (place s h e) x) = (if x = e then h else te_idx (ents s x))"
  by (simp_all add: place_def)

lemma place_other [simp]: "x \<noteq> e \<Longrightarrow> ents (place s h e) x = ents s x"
  by (simp add: place_def set_idx_def)

lemma bounds_ok_place [simp]: "bounds_ok (place s h e) = bounds_ok s"
  by (simp add: bounds_ok_def)

lemma greater_place [simp]: "min_heap_elem_greater (place s h e) a b = min_heap_elem_greater s a b"
  by (simp add: min_heap_elem_greater_def)

lemma par_less: "0 < i \<Longrightarrow> par i < i"
  unfolding par_def by simp

lemma par_eq_iff: "0 < i \<Longrightarrow> par i = h \<longleftrightarrow> i = 2 * h + 1 \<or> i = 2 * h + 2"
  unfolding par_def by presburger

lemma par_0 [simp]: "par 0 = 0"
  by (simp add: par_def)

lemma mh_frame_refl [simp]: "mh_frame A s s"
  by (simp add: mh_frame_def)

lemma mh_frame_trans: "mh_frame A s t \<Longrightarrow> mh_frame A t u \<Longrightarrow> mh_frame A s u"
  by (simp add: mh_frame_def)

lemma mh_frame_place: "e \<in> A \<Longrightarrow> mh_frame A s (place s h e)"
  by (auto simp: mh_frame_def place_def set_idx_def)

lemma others_place [simp]:
  assumes "h < length (hp s)"
  shows "others (place s h e) h = others s h"
  by (auto simp: others_def image_iff)

lemma idx_injective:
  assumes "idx_ok s h" "i < hn s" "j < hn s" "i \<noteq> h" "j \<noteq> h" "hp s ! i = hp s ! j"
  shows "i = j"
  using assms by (metis idx_ok_def)

text \<open>Filling the hole with \<open>e\<close> gives the invariant when \<open>e\<close> fits between its neighbours.\<close>

lemma place_fills_hole:
  assumes H: "hole_inv s h e"
    and below: "\<And>i. i < hn s \<Longrightarrow> 0 < i \<Longrightarrow> par i = h \<Longrightarrow> key s e \<le> key s (hp s ! i)"
    and above: "0 < h \<Longrightarrow> key s (hp s ! par h) \<le> key s e"
  shows "mh_inv (place s h e)" and "elems (place s h e) = insert e (others s h)"
proof -
  from H have h: "h < hn s" "hn s \<le> length (hp s)" and e: "e \<notin> others s h"
    by (auto simp: hole_inv_def bounds_ok_def)
  have oth: "hp s ! i \<noteq> e" if "i < hn s" "i \<noteq> h" for i
    using e that by (auto simp: others_def)
  have idx: "te_idx (ents (place s h e) (hp (place s h e) ! i)) = i" if "i < hn s" for i
    using H h oth [OF that] that by (cases "i = h") (auto simp: hole_inv_def idx_ok_def)
  have ord: "key s (hp (place s h e) ! par i) \<le> key s (hp (place s h e) ! i)" if "i < hn s" "0 < i" for i
  proof -
    have "par i < length (hp s)" using par_less [of i] that h by simp
    consider "i = h" | "i \<noteq> h" "par i = h" | "i \<noteq> h" "par i \<noteq> h" by blast
    then show ?thesis
    proof cases
      case 1
      then have "par i \<noteq> h" using par_less [of i] that by simp
      then show ?thesis using 1 above that h by simp
    next
      case 2
      then show ?thesis using below that h by simp
    next
      case 3
      then show ?thesis using H that by (simp add: hole_inv_def order_ok_def)
    qed
  qed
  show "mh_inv (place s h e)"
    using H idx ord by (simp add: mh_inv_def hole_inv_def)
  show "elems (place s h e) = insert e (others s h)"
    using h by (auto simp: elems_def others_def image_iff nth_list_update)
qed

text \<open>Moving the entry at \<open>j\<close> (the parent or a child of the hole) into the hole.\<close>

lemma others_move:
  assumes "j < hn s" "h < hn s" "hn s \<le> length (hp s)" "j \<noteq> h"
  shows "others (place s h (hp s ! j)) j = others s h"
proof
  show "others (place s h (hp s ! j)) j \<subseteq> others s h"
    using assms by (auto simp: others_def nth_list_update)
  show "others s h \<subseteq> others (place s h (hp s ! j)) j"
  proof
    fix x assume "x \<in> others s h"
    then obtain i where i: "i < hn s" "i \<noteq> h" "x = hp s ! i" by (auto simp: others_def)
    have "x = hp (place s h (hp s ! j)) ! (if i = j then h else i)"
      using i assms by (auto simp: nth_list_update)
    moreover have "(if i = j then h else i) \<in> {..<hn (place s h (hp s ! j))} - {j}"
      using i assms by auto
    ultimately show "x \<in> others (place s h (hp s ! j)) j"
      unfolding others_def by (rule image_eqI)
  qed
qed

lemma idx_ok_move:
  assumes "idx_ok s h" "j < hn s" "h < hn s" "hn s \<le> length (hp s)" "j \<noteq> h"
  shows "idx_ok (place s h (hp s ! j)) j"
  unfolding idx_ok_def
proof (intro allI impI)
  fix i assume "i < hn (place s h (hp s ! j))" "i \<noteq> j"
  then have i: "i < hn s" "i \<noteq> j" by auto
  show "te_idx (ents (place s h (hp s ! j)) (hp (place s h (hp s ! j)) ! i)) = i"
  proof (cases "i = h")
    case True
    then show ?thesis using assms by simp
  next
    case False
    then have "hp s ! i \<noteq> hp s ! j" using assms i idx_injective by blast
    then show ?thesis using False assms i by (simp add: idx_ok_def)
  qed
qed


section \<open>The sift loops\<close>

lemma hole_inv_move_up:
  assumes H: "hole_inv s h e" and h: "0 < h"
  shows "hole_inv (place s h (hp s ! par h)) (par h) e"
proof -
  let ?t = "place s h (hp s ! par h)"
  have ph: "par h < h" using h by (rule par_less)
  from H have hn: "h < hn s" "hn s \<le> length (hp s)" and ord: "order_ok s h"
    by (auto simp: hole_inv_def bounds_ok_def)
  have plain: "key s (hp s ! par i) \<le> key s (hp s ! i)" if "i < hn s" "0 < i" "i \<noteq> h" "par i \<noteq> h" for i
    using ord that by (simp add: order_ok_def)
  have child: "key s (hp s ! par h) \<le> key s (hp s ! i)" if "i < hn s" "0 < i" "par i = h" for i
    using ord h that by (simp add: order_ok_def)
  have "order_ok ?t (par h)"
    unfolding order_ok_def
  proof (intro conjI allI impI)
    fix i assume i: "i < hn ?t" "0 < i" "i \<noteq> par h" "par i \<noteq> par h"
    then have "i \<noteq> h" by auto
    then show "key ?t (hp ?t ! par i) \<le> key ?t (hp ?t ! i)"
      using i plain child hn by (cases "par i = h") auto
  next
    fix i assume i: "i < hn ?t" "0 < i" "par i = par h" "0 < par h"
    have up: "key s (hp s ! par (par h)) \<le> key s (hp s ! par h)"
      using plain [of "par h"] i ph hn par_less [of "par h"] by simp
    have pp: "par (par h) \<noteq> h" using ph par_less [of "par h"] i by simp
    show "key ?t (hp ?t ! par (par h)) \<le> key ?t (hp ?t ! i)"
    proof (cases "i = h")
      case True
      then show ?thesis using up pp hn by simp
    next
      case False
      then have "key s (hp s ! par h) \<le> key s (hp s ! i)" using plain [of i] i ph by simp
      then show ?thesis using up pp False by simp
    qed
  qed
  moreover have "others ?t (par h) = others s h"
    using hn ph by (intro others_move) auto
  moreover have "idx_ok ?t (par h)"
    using H hn ph by (intro idx_ok_move) (auto simp: hole_inv_def)
  ultimately show ?thesis using H hn ph by (simp add: hole_inv_def)
qed

lemma parent_index: "0 < h \<Longrightarrow> h < 2 ^ 32 \<Longrightarrow> u32_minus h 1 div 2 = par h"
  by (simp add: u32_simps par_def)

text \<open>
  What a sift promises of its result: a heap that holds \<open>e\<close> and the entries outside the
  hole, times untouched, and only the positions of those entries rewritten.
\<close>

definition sifted :: "min_heap \<Rightarrow> nat \<Rightarrow> addr \<Rightarrow> min_heap \<Rightarrow> bool" where
  "sifted s h e s' \<longleftrightarrow> mh_inv s' \<and> elems s' = insert e (others s h)
     \<and> mh_frame (insert e (others s h)) s s'"

lemma sifted_place:
  assumes "hole_inv s h e"
    and "\<And>i. i < hn s \<Longrightarrow> 0 < i \<Longrightarrow> par i = h \<Longrightarrow> key s e \<le> key s (hp s ! i)"
    and "0 < h \<Longrightarrow> key s (hp s ! par h) \<le> key s e"
  shows "sifted s h e (place s h e)"
  unfolding sifted_def
proof (intro conjI)
  show "mh_inv (place s h e)" using assms by (rule place_fills_hole)
  show "elems (place s h e) = insert e (others s h)" using assms by (rule place_fills_hole)
  show "mh_frame (insert e (others s h)) s (place s h e)" by (rule mh_frame_place) simp
qed

lemma sifted_move:
  assumes "sifted (place s h (hp s ! j)) j e s'" "j < hn s" "h < hn s" "hn s \<le> length (hp s)" "j \<noteq> h"
  shows "sifted s h e s'"
proof -
  have o: "others (place s h (hp s ! j)) j = others s h" using assms by (intro others_move)
  have "hp s ! j \<in> others s h" using assms by (auto simp: others_def)
  then have "mh_frame (insert e (others s h)) s (place s h (hp s ! j))" by (simp add: mh_frame_place)
  moreover have "mh_frame (insert e (others s h)) (place s h (hp s ! j)) s'"
    using assms(1) o by (simp add: sifted_def)
  ultimately have "mh_frame (insert e (others s h)) s s'" by (rule mh_frame_trans)
  with assms(1) o show ?thesis by (simp add: sifted_def)
qed

lemma shift_up_correct:
  assumes "hole_inv s h e"
    and "\<And>i. i < hn s \<Longrightarrow> 0 < i \<Longrightarrow> par i = h \<Longrightarrow> key s e \<le> key s (hp s ! i)"
  shows "sifted s h e (min_heap_shift_up s h e)"
  using assms
proof (induction s h e rule: min_heap_shift_up.induct)
  case (1 s h e)
  note H = "1.prems"(1) and below = "1.prems"(2)
  from H have hn: "h < hn s" "hn s \<le> length (hp s)" "h < 2 ^ 32"
    by (auto simp: hole_inv_def bounds_ok_def)
  show ?case
  proof (cases "h \<noteq> 0 \<and> min_heap_elem_greater s (hp s ! par h) e")
    case True
    then have h: "0 < h" and less: "key s e < key s (hp s ! par h)"
      by (auto simp: min_heap_elem_greater_def)
    have ph: "par h < h" using h by (rule par_less)
    let ?t = "place s h (hp s ! par h)"
    have "sifted ?t (par h) e (min_heap_shift_up ?t (par h) e)"
    proof (rule "1.IH" [of "par h"])
      show "par h = u32_minus h 1 div 2" using h hn(3) by (rule parent_index [symmetric])
      show "h \<noteq> 0 \<and> min_heap_elem_greater s (hp s ! par h) e" using True .
      show "hole_inv ?t (par h) e" using H h by (rule hole_inv_move_up)
      fix i assume i: "i < hn ?t" "0 < i" "par i = par h"
      have "key s e \<le> key s (hp s ! i)" if "i \<noteq> h"
      proof -
        have "key s (hp s ! par h) \<le> key s (hp s ! i)"
          using H i ph that by (auto simp: hole_inv_def order_ok_def)
        then show ?thesis using less by simp
      qed
      then show "key ?t e \<le> key ?t (hp ?t ! i)" using less hn i by (cases "i = h") auto
    qed
    then have "sifted s h e (min_heap_shift_up ?t (par h) e)"
      by (rule sifted_move) (use hn ph in auto)
    moreover have "min_heap_shift_up s h e = min_heap_shift_up ?t (par h) e"
      using True by (subst min_heap_shift_up.simps) (simp only: parent_index [OF h hn(3)] Let_def if_True simp_thms)
    ultimately show ?thesis by simp
  next
    case False
    have "min_heap_shift_up s h e = place s h e"
    proof (cases "h = 0")
      case True
      then show ?thesis by (subst min_heap_shift_up.simps) (simp add: Let_def)
    next
      case ne: False
      then have "u32_minus h 1 div 2 = par h" using hn by (intro parent_index) auto
      then show ?thesis using False by (subst min_heap_shift_up.simps) (simp only: Let_def if_False)
    qed
    moreover have "sifted s h e (place s h e)"
      using H below False by (intro sifted_place) (auto simp: min_heap_elem_greater_def not_less)
    ultimately show ?thesis by simp
  qed
qed

text \<open>One step down: the smaller child moves into the hole.\<close>

lemma hole_inv_move_down:
  assumes H: "hole_inv s h e" and c: "c < hn s" "0 < c" "par c = h"
    and least: "\<And>i. i < hn s \<Longrightarrow> 0 < i \<Longrightarrow> par i = h \<Longrightarrow> key s (hp s ! c) \<le> key s (hp s ! i)"
  shows "hole_inv (place s h (hp s ! c)) c e"
proof -
  let ?t = "place s h (hp s ! c)"
  have hc: "h < c" using par_less [of c] c by simp
  from H have hn: "h < hn s" "hn s \<le> length (hp s)" and ord: "order_ok s h"
    by (auto simp: hole_inv_def bounds_ok_def)
  have "order_ok ?t c"
    unfolding order_ok_def
  proof (intro conjI allI impI)
    fix i assume i: "i < hn ?t" "0 < i" "i \<noteq> c" "par i \<noteq> c"
    consider "i = h" | "i \<noteq> h" "par i = h" | "i \<noteq> h" "par i \<noteq> h" by blast
    then show "key ?t (hp ?t ! par i) \<le> key ?t (hp ?t ! i)"
    proof cases
      case 1
      then have "key s (hp s ! par h) \<le> key s (hp s ! c)" using ord c i by (simp add: order_ok_def)
      moreover have "par h \<noteq> h" using par_less [of h] 1 i by simp
      ultimately show ?thesis using 1 hn by simp
    next
      case 2
      then show ?thesis using least i hn by simp
    next
      case 3
      then show ?thesis using ord i by (simp add: order_ok_def)
    qed
  next
    fix i assume i: "i < hn ?t" "0 < i" "par i = c" "0 < c"
    then have "c < i" using par_less [of i] by simp
    then have "key s (hp s ! c) \<le> key s (hp s ! i)" using ord i hc by (auto simp: order_ok_def)
    then show "key ?t (hp ?t ! par c) \<le> key ?t (hp ?t ! i)" using c hn hc \<open>c < i\<close> by simp
  qed
  moreover have "others ?t c = others s h"
    using hn hc c by (intro others_move) auto
  moreover have "idx_ok ?t c"
    using H hn hc c by (intro idx_ok_move) (auto simp: hole_inv_def)
  ultimately show ?thesis using H c by (simp add: hole_inv_def)
qed

lemma shift_down_correct:
  assumes "hole_inv s h e"
    and "0 < h \<Longrightarrow> key s (hp s ! par h) \<le> key s e"
  shows "\<exists>s'. min_heap_shift_down s h e = Some s' \<and> sifted s h e s'"
  using assms
proof (induction "hn s - h" arbitrary: s h rule: less_induct)
  case less
  note H = less.prems(1) and above = less.prems(2)
  from H have hn: "h < hn s" "hn s \<le> length (hp s)" "hn s < 2 ^ 31"
    by (auto simp: hole_inv_def bounds_ok_def)
  have mc: "u32 (2 * u32 (h + 1)) = 2 * h + 2"
    using hn by (simp add: u32_simps)
  show ?case
  proof (cases "2 * h + 2 \<le> hn s")
    case False
    then have "min_heap_shift_down s h e = Some (place s h e)"
      by (subst min_heap_shift_down.simps) (simp only: mc Let_def if_False)
    moreover have "sifted s h e (place s h e)"
      using H above False by (intro sifted_place) (auto simp: par_eq_iff)
    ultimately show ?thesis by simp
  next
    case True
    define right where "right \<longleftrightarrow> \<not> (2 * h + 2 = hn s
        \<or> min_heap_elem_greater s (hp s ! (2 * h + 2)) (hp s ! (2 * h + 1)))"
    define c where "c = (if right then 2 * h + 2 else 2 * h + 1)"
    have c: "c < hn s" "0 < c" "par c = h"
      using True unfolding c_def right_def by (auto simp: par_eq_iff)
    have least: "key s (hp s ! c) \<le> key s (hp s ! i)" if "i < hn s" "0 < i" "par i = h" for i
      using that unfolding c_def right_def by (auto simp: par_eq_iff min_heap_elem_greater_def)
    have mc1: "u32_minus (2 * h + 2) 1 = 2 * h + 1"
      using True hn by (subst u32_minus_small) auto
    have mc1': "u32_minus (Suc (Suc (2 * h))) (Suc 0) = Suc (2 * h)" using mc1 by simp
    have mc0: "u32_minus (Suc (Suc (2 * h))) 0 = Suc (Suc (2 * h))"
      using True hn by (subst u32_minus_small) auto
    have unf: "min_heap_shift_down s h e =
        (if \<not> min_heap_elem_greater s e (hp s ! c) then Some (place s h e)
         else min_heap_shift_down (place s h (hp s ! c)) c e)"
      using True unfolding c_def right_def
      by (subst min_heap_shift_down.simps) (simp only: mc mc1 Let_def if_True, simp add: mc0 mc1')
    show ?thesis
    proof (cases "min_heap_elem_greater s e (hp s ! c)")
      case False
      then have "sifted s h e (place s h e)"
        using H above least by (intro sifted_place) (force simp: min_heap_elem_greater_def not_less)+
      with unf False show ?thesis by simp
    next
      case gr: True
      let ?t = "place s h (hp s ! c)"
      have hc: "h < c" using par_less [of c] c by simp
      have "\<exists>s'. min_heap_shift_down ?t c e = Some s' \<and> sifted ?t c e s'"
      proof (rule less.hyps)
        show "hn ?t - c < hn s - h" using hc c by simp
        show "hole_inv ?t c e" using H c least by (rule hole_inv_move_down)
        show "0 < c \<Longrightarrow> key ?t (hp ?t ! par c) \<le> key ?t e"
          using gr c hn hc by (simp add: min_heap_elem_greater_def less_imp_le)
      qed
      then obtain s' where "min_heap_shift_down ?t c e = Some s'" "sifted s h e s'"
        using sifted_move [of s h c e] c hn hc by auto
      with unf gr show ?thesis by simp
    qed
  qed
qed


section \<open>The operations\<close>

lemma mh_inv_bounds: "mh_inv s \<Longrightarrow> bounds_ok s"
  by (simp add: mh_inv_def)

lemma mh_inv_hole:
  assumes "mh_inv s" shows "idx_ok s h" "order_ok s h"
proof -
  show "idx_ok s h" using assms by (simp add: mh_inv_def idx_ok_def)
  have up: "key s (hp s ! par i) \<le> key s (hp s ! i)" if "i < hn s" "0 < i" for i
    using assms that by (simp add: mh_inv_def)
  have "key s (hp s ! par h) \<le> key s (hp s ! i)" if "i < hn s" "0 < i" "par i = h" "0 < h" for i
    using up [of i] up [of h] par_less [of i] that by fastforce
  with up show "order_ok s h" by (simp add: order_ok_def)
qed

lemma mh_inv_distinct:
  assumes "mh_inv s" "i < hn s" "j < hn s" "hp s ! i = hp s ! j"
  shows "i = j"
  using assms by (metis mh_inv_def)

lemma elems_eq_others:
  assumes "mh_inv s" "h < hn s"
  shows "others s h = elems s - {hp s ! h}"
  using assms mh_inv_distinct [OF assms(1)] by (auto simp: others_def elems_def)

text \<open>The root is least: every entry is bounded by its chain of parents.\<close>

lemma root_least:
  assumes "mh_inv s" "i < hn s"
  shows "key s (hp s ! 0) \<le> key s (hp s ! i)"
  using assms(2)
proof (induction i rule: less_induct)
  case (less i)
  show ?case
  proof (cases "i = 0")
    case False
    then have "key s (hp s ! 0) \<le> key s (hp s ! par i)"
      using less by (simp add: par_less order.strict_trans [OF par_less])
    also have "\<dots> \<le> key s (hp s ! i)"
      using assms(1) less.prems False by (simp add: mh_inv_def)
    finally show ?thesis .
  qed simp
qed

lemma top_is_min:
  assumes "mh_inv s" "min_heap_top s = Some e"
  shows "e \<in> elems s" and "x \<in> elems s \<Longrightarrow> key s e \<le> key s x"
  using assms root_least [OF assms(1)]
  by (auto simp: min_heap_top_def elems_def split: if_splits)

lemma top_None_iff: "min_heap_top s = None \<longleftrightarrow> elems s = {}"
  by (auto simp: min_heap_top_def elems_def)

lemma finite_elems [simp]: "finite (elems s)"
  by (simp add: elems_def)

subsection \<open>Push\<close>

lemma reserve_correct:
  assumes "bounds_ok s" "hn s + 1 < 2 ^ 31" "env \<noteq> None \<or> hn s < ha s"
  shows "\<exists>q a. min_heap_reserve env s (hn s + 1) = (0, s\<lparr>hp := q, ha := a\<rparr>)
           \<and> hn s < a \<and> length q = a \<and> a < 2 ^ 32 \<and> (\<forall>i < hn s. q ! i = hp s ! i)"
proof (cases "ha s < hn s + 1")
  case False
  then show ?thesis
    using assms by (intro exI [of _ "hp s"] exI [of _ "ha s"]) (auto simp: min_heap_reserve_def bounds_ok_def)
next
  case True
  then have n: "ha s = hn s" and "env \<noteq> None" using assms by (auto simp: bounds_ok_def)
  define a where "a = (if ha s \<noteq> 0 then u32 (ha s * 2) else 8)"
  define a' where "a' = (if a < hn s + 1 then hn s + 1 else a)"
  have "a < 2 ^ 32" unfolding a_def by (simp add: u32_def)
  then have a': "hn s < a'" "a' < 2 ^ 32" using assms unfolding a'_def by auto
  obtain q where q: "c_realloc env (hp s) a' = Some q"
    using \<open>env \<noteq> None\<close> by (auto simp: c_realloc_def)
  have "min_heap_reserve env s (hn s + 1) = (0, s\<lparr>hp := q, ha := a'\<rparr>)"
    unfolding min_heap_reserve_def Let_def a_def [symmetric] a'_def [symmetric] using True q by simp
  with a' c_realloc_SomeD [OF q] assms n show ?thesis by (auto simp: bounds_ok_def)
qed

lemma push_correct:
  assumes inv: "mh_inv s" and e: "e \<notin> elems s" and small: "hn s + 1 < 2 ^ 31"
    and room: "env \<noteq> None \<or> hn s < ha s"
  shows "\<exists>s'. min_heap_push env s e = (0, s') \<and> mh_inv s' \<and> elems s' = insert e (elems s)
           \<and> hn s' = hn s + 1 \<and> (\<forall>x. key s' x = key s x \<and> te_handler (ents s' x) = te_handler (ents s x))
           \<and> (\<forall>x. x \<notin> insert e (elems s) \<longrightarrow> ents s' x = ents s x)"
proof -
  obtain q a where res: "min_heap_reserve env s (hn s + 1) = (0, s\<lparr>hp := q, ha := a\<rparr>)"
    and q: "hn s < a" "length q = a" "a < 2 ^ 32" "\<And>i. i < hn s \<Longrightarrow> q ! i = hp s ! i"
    using reserve_correct [OF mh_inv_bounds [OF inv] small room] by blast
  let ?t = "s\<lparr>hp := q, ha := a, hn := hn s + 1\<rparr>"
  have oth: "others ?t (hn s) = elems s"
    using q by (auto simp: others_def elems_def image_iff)
  have ord: "order_ok ?t (hn s)"
  proof -
    have "par i < hn s" if "0 < i" "i < hn s" for i using par_less [of i] that by simp
    moreover have "par i \<noteq> hn s" if "0 < i" "i < hn s + 1" for i using par_less [of i] that by auto
    ultimately show ?thesis using inv q by (auto simp: order_ok_def mh_inv_def less_Suc_eq)
  qed
  have "hole_inv ?t (hn s) e"
    unfolding hole_inv_def
  proof (intro conjI)
    show "bounds_ok ?t" using q small by (simp add: bounds_ok_def)
    show "idx_ok ?t (hn s)" using inv q by (auto simp: idx_ok_def mh_inv_def less_Suc_eq)
    show "e \<notin> others ?t (hn s)" using e oth by simp
  qed (use ord in simp_all)
  then have "sifted ?t (hn s) e (min_heap_shift_up ?t (hn s) e)"
  proof (rule shift_up_correct)
    fix i assume "i < hn ?t" "0 < i" "par i = hn s"
    then show "key ?t e \<le> key ?t (hp ?t ! i)" using par_less [of i] by simp
  qed
  moreover have "min_heap_push env s e = (0, min_heap_shift_up ?t (hn s) e)"
  proof -
    have u: "u32 (hn s + 1) = hn s + 1" using small by (simp add: u32_simps)
    show ?thesis unfolding min_heap_push_def u res by (simp add: u32_simps) (use u in simp)
  qed
  ultimately show ?thesis unfolding sifted_def mh_frame_def oth by auto
qed

lemma push_no_memory:
  assumes "bounds_ok s" "hn s = ha s" "hn s + 1 < 2 ^ 31"
  shows "min_heap_push None s e = (-1, s)"
  using assms by (simp add: min_heap_push_def min_heap_reserve_def c_realloc_def u32_simps Let_def)

subsection \<open>Pop, erase, adjust\<close>

lemma mh_inv_set_idx:
  assumes "mh_inv s" "e \<notin> elems s"
  shows "mh_inv (set_idx s e i)" "elems (set_idx s e i) = elems s"
proof -
  have "hp s ! j \<noteq> e" if "j < hn s" for j using assms(2) that by (auto simp: elems_def)
  then show "mh_inv (set_idx s e i)" using assms by (simp add: mh_inv_def bounds_ok_def)
  show "elems (set_idx s e i) = elems s" by (simp add: elems_def)
qed

text \<open>
  What removing the entry \<open>e\<close> promises: the heap without it, its index reset to \<open>-1\<close>,
  no time or handler touched and no entry outside the heap touched.
\<close>

definition removed :: "min_heap \<Rightarrow> addr \<Rightarrow> min_heap \<Rightarrow> bool" where
  "removed s e s' \<longleftrightarrow> mh_inv s' \<and> elems s' = elems s - {e} \<and> hn s' + 1 = hn s
     \<and> te_idx (ents s' e) = U32_MAX
     \<and> (\<forall>x. key s' x = key s x \<and> te_handler (ents s' x) = te_handler (ents s x))
     \<and> (\<forall>x. x \<notin> elems s \<longrightarrow> ents s' x = ents s x)"

text \<open>The last entry fills the hole that \<open>e\<close> leaves.\<close>

lemma hole_inv_last:
  assumes inv: "mh_inv s" and h: "h < hn s" "h \<noteq> hn s - 1"
  shows "hole_inv (s\<lparr>hn := hn s - 1\<rparr>) h (hp s ! (hn s - 1))"
    and "insert (hp s ! (hn s - 1)) (others (s\<lparr>hn := hn s - 1\<rparr>) h) = elems s - {hp s ! h}"
proof -
  let ?t = "s\<lparr>hn := hn s - 1\<rparr>"
  let ?last = "hp s ! (hn s - 1)"
  have dist: "hp s ! i \<noteq> hp s ! j" if "i < hn s" "j < hn s" "i \<noteq> j" for i j
    using mh_inv_distinct [OF inv] that by blast
  have lt: "h < hn s - 1" using h by simp
  show "hole_inv ?t h ?last"
    unfolding hole_inv_def
  proof (intro conjI)
    show "?last \<notin> others ?t h"
    proof
      assume "?last \<in> others ?t h"
      then obtain i where "i < hn s - 1" "hp s ! i = ?last"
        unfolding others_def by (elim imageE) auto
      moreover from this have "i < hn s" by simp
      ultimately show False using dist [of i "hn s - 1"] by simp
    qed
    show "bounds_ok ?t" using inv by (auto simp: mh_inv_def bounds_ok_def)
    show "idx_ok ?t h" "order_ok ?t h"
      using mh_inv_hole [OF inv, of h] by (auto simp: idx_ok_def order_ok_def)
    show "h < hn ?t" using lt by simp
  qed
  have *: "{..<hn s} = insert (hn s - 1) {..<hn s - 1}" using h by auto
  show "insert ?last (others ?t h) = elems s - {hp s ! h}"
    unfolding elems_def * using dist [of _ h] lt by (auto simp: others_def)
qed

lemma removed_by_sift:
  assumes inv: "mh_inv s" and h: "h < hn s" "h \<noteq> hn s - 1"
    and sf: "sifted (s\<lparr>hn := hn s - 1\<rparr>) h (hp s ! (hn s - 1)) s2"
  shows "removed s (hp s ! h) (set_idx s2 (hp s ! h) U32_MAX)"
proof -
  let ?t = "s\<lparr>hn := hn s - 1\<rparr>"
  note el = hole_inv_last(2) [OF inv h]
  from sf el have e2: "elems s2 = elems s - {hp s ! h}" "mh_inv s2" and
    fr: "mh_frame (elems s - {hp s ! h}) ?t s2"
    by (auto simp: sifted_def)
  have in_s: "hp s ! h \<in> elems s" using h by (simp add: elems_def)
  have out: "ents (set_idx s2 (hp s ! h) U32_MAX) x = ents s x" if "x \<notin> elems s" for x
    using fr that in_s by (cases "x = hp s ! h") (auto simp: mh_frame_def)
  have "mh_inv (set_idx s2 (hp s ! h) U32_MAX)"
    "elems (set_idx s2 (hp s ! h) U32_MAX) = elems s - {hp s ! h}"
    using mh_inv_set_idx [of s2 "hp s ! h"] e2 by auto
  then show ?thesis
    using fr out h by (auto simp: removed_def mh_frame_def)
qed

text \<open>Removing the entry in the last position leaves the rest untouched.\<close>

lemma removed_last:
  assumes inv: "mh_inv s" and h: "h < hn s" "h = hn s - 1"
  shows "min_heap_shift_down (s\<lparr>hn := h\<rparr>) h (hp s ! h) = Some (place (s\<lparr>hn := h\<rparr>) h (hp s ! h))"
    and "removed s (hp s ! h) (set_idx (place (s\<lparr>hn := h\<rparr>) h (hp s ! h)) (hp s ! h) U32_MAX)"
proof -
  let ?t = "place (s\<lparr>hn := h\<rparr>) h (hp s ! h)"
  have dist: "hp s ! i \<noteq> hp s ! h" if "i < h" for i
    using mh_inv_distinct [OF inv, of i h] that h by auto
  have n: "hn s < 2 ^ 31" using inv by (simp add: mh_inv_def bounds_ok_def)
  then have mc: "u32 (2 * u32 (h + 1)) = 2 * h + 2" using h by (simp add: u32_simps)
  then show "min_heap_shift_down (s\<lparr>hn := h\<rparr>) h (hp s ! h) = Some ?t"
    by (subst min_heap_shift_down.simps) (simp only: mc Let_def, simp)
  have "mh_inv (s\<lparr>hn := h\<rparr>)" using inv h by (auto simp: mh_inv_def bounds_ok_def)
  moreover have "mh_inv (set_idx ?t (hp s ! h) U32_MAX) \<longleftrightarrow> mh_inv (s\<lparr>hn := h\<rparr>)"
    using dist par_less by (auto simp: mh_inv_def bounds_ok_def)
  moreover have "elems ?t = elems s - {hp s ! h}"
  proof -
    have "{..<hn s} = insert h {..<h}" using h by auto
    then show ?thesis using dist by (auto simp: elems_def)
  qed
  moreover have "ents (set_idx ?t (hp s ! h) U32_MAX) x = ents s x" if "x \<notin> elems s" for x
  proof -
    have "x \<noteq> hp s ! h" using that h by (auto simp: elems_def)
    then show ?thesis by simp
  qed
  ultimately show "removed s (hp s ! h) (set_idx ?t (hp s ! h) U32_MAX)"
    using h by (auto simp: removed_def elems_def)
qed

lemma pop_correct:
  assumes inv: "mh_inv s" and ne: "hn s \<noteq> 0"
  shows "\<exists>s'. min_heap_pop s = Some (Some (hp s ! 0), s') \<and> removed s (hp s ! 0) s'"
proof -
  have n: "hn s < 2 ^ 31" using inv by (simp add: mh_inv_def bounds_ok_def)
  then have m1: "u32_minus (hn s) 1 = hn s - 1" using ne by (simp add: u32_simps)
  let ?t = "s\<lparr>hn := hn s - 1\<rparr>"
  have pop: "min_heap_pop s = (case min_heap_shift_down ?t 0 (hp s ! (hn s - 1)) of
      None \<Rightarrow> None | Some s2 \<Rightarrow> Some (Some (hp s ! 0), set_idx s2 (hp s ! 0) U32_MAX))"
    unfolding min_heap_pop_def m1 Let_def using ne by simp
  show ?thesis
  proof (cases "hn s = 1")
    case True
    then show ?thesis using removed_last [OF inv, of 0] pop by simp
  next
    case False
    then have h: "0 < hn s" "0 \<noteq> hn s - 1" using ne by auto
    obtain s2 where "min_heap_shift_down ?t 0 (hp s ! (hn s - 1)) = Some s2"
      "sifted ?t 0 (hp s ! (hn s - 1)) s2"
      using shift_down_correct [OF hole_inv_last(1) [OF inv h]] by blast
    then show ?thesis using pop removed_by_sift [OF inv h] by auto
  qed
qed

text \<open>The choice between the two sifts that \<open>erase\<close> and \<open>adjust\<close> share.\<close>

lemma resift_correct:
  assumes H: "hole_inv s h e" and idx: "h < 2 ^ 32"
  shows "\<exists>s'. (if h > 0 \<and> min_heap_elem_greater s (hp s ! (u32_minus h 1 div 2)) e
               then Some (min_heap_shift_up_unconditional s h e)
               else min_heap_shift_down s h e) = Some s' \<and> sifted s h e s'"
proof (cases "0 < h \<and> min_heap_elem_greater s (hp s ! par h) e")
  case True
  then have p: "u32_minus h 1 div 2 = par h" using idx by (intro parent_index) auto
  have "min_heap_shift_up_unconditional s h e = min_heap_shift_up s h e"
    using True p unfolding min_heap_shift_up_unconditional_def
    by (subst (2) min_heap_shift_up.simps) (simp only: Let_def, simp)
  moreover have "sifted s h e (min_heap_shift_up s h e)"
    using H
  proof (rule shift_up_correct)
    fix i assume i: "i < hn s" "0 < i" "par i = h"
    then have "key s (hp s ! par h) \<le> key s (hp s ! i)"
      using H True by (auto simp: hole_inv_def order_ok_def)
    then show "key s e \<le> key s (hp s ! i)" using True by (auto simp: min_heap_elem_greater_def)
  qed
  ultimately show ?thesis using True p by simp
next
  case False
  have "\<exists>s'. min_heap_shift_down s h e = Some s' \<and> sifted s h e s'"
    using H False by (intro shift_down_correct) (auto simp: min_heap_elem_greater_def not_less)
  moreover have "\<not> (h > 0 \<and> min_heap_elem_greater s (hp s ! (u32_minus h 1 div 2)) e)"
    using False parent_index [of h] idx by auto
  ultimately show ?thesis by auto
qed

lemma erase_correct:
  assumes inv: "mh_inv s" and e: "e \<in> elems s"
  shows "\<exists>s'. min_heap_erase s e = Some (0, s') \<and> removed s e s'"
proof -
  obtain h where h: "h < hn s" "e = hp s ! h" using e by (auto simp: elems_def)
  have n: "hn s < 2 ^ 31" using inv by (simp add: mh_inv_def bounds_ok_def)
  have idx: "te_idx (ents s e) = h" using inv h by (simp add: mh_inv_def)
  have ne: "h \<noteq> U32_MAX" using h n by (simp add: U32_MAX_def)
  have m1: "u32_minus (hn s) 1 = hn s - 1" using h n by (simp add: u32_simps)
  let ?t = "s\<lparr>hn := hn s - 1\<rparr>"
  let ?last = "hp s ! (hn s - 1)"
  let ?sift = "if h > 0 \<and> min_heap_elem_greater ?t (hp s ! (u32_minus h 1 div 2)) ?last
               then Some (min_heap_shift_up_unconditional ?t h ?last)
               else min_heap_shift_down ?t h ?last"
  have er: "min_heap_erase s e = (case ?sift of None \<Rightarrow> None | Some s2 \<Rightarrow> Some (0, set_idx s2 e U32_MAX))"
    unfolding min_heap_erase_def Let_def m1 idx using ne by simp
  show ?thesis
  proof (cases "h = hn s - 1")
    case False
    have "\<exists>s2. ?sift = Some s2 \<and> sifted ?t h ?last s2"
      using resift_correct [OF hole_inv_last(1) [OF inv h(1) False]] h n by simp
    then show ?thesis using er removed_by_sift [OF inv h(1) False] h by auto
  next
    case True
    have "\<not> min_heap_elem_greater ?t (hp s ! (u32_minus h 1 div 2)) ?last" if "h > 0"
      using inv h n True that parent_index [of h]
      by (simp add: min_heap_elem_greater_def mh_inv_def not_less)
    then have "?sift = min_heap_shift_down (s\<lparr>hn := h\<rparr>) h (hp s ! h)" using True by auto
    then show ?thesis using er removed_last [OF inv h(1) True] h by simp
  qed
qed

lemma adjust_correct:
  assumes H: "hole_inv s h e" and e: "hp s ! h = e" "te_idx (ents s e) = h"
  shows "\<exists>s'. min_heap_adjust env s e = Some (0, s') \<and> sifted s h e s'"
proof -
  have "h < 2 ^ 31" using H by (simp add: hole_inv_def bounds_ok_def)
  then have "h < 2 ^ 32" "h \<noteq> U32_MAX" by (auto simp: U32_MAX_def)
  then show ?thesis
    using resift_correct [OF H] e unfolding min_heap_adjust_def Let_def by auto
qed


section \<open>Properties\<close>

text \<open>A heap of three entries, for the witnesses.\<close>

definition demo_heap :: min_heap where
  "demo_heap = \<lparr>ents = (\<lambda>x. \<lparr>te_time = (if x = 1 then 5 else if x = 2 then 9 else 7),
       te_idx = x - 1, te_handler = 0, te_privdata = 0\<rparr>), hp = [1, 2, 3, 0], hn = 3, ha = 4\<rparr>"

lemma demo_heap_inv: "mh_inv demo_heap" "elems demo_heap = {1, 2, 3}"
proof -
  have *: "i < 3 \<longleftrightarrow> i = 0 \<or> i = 1 \<or> i = 2" for i :: nat by auto
  show "mh_inv demo_heap"
    by (auto simp: mh_inv_def bounds_ok_def demo_heap_def par_def *)
  have "{..<3::nat} = {0, 1, 2}" by auto
  then show "elems demo_heap = {1, 2, 3}"
    by (simp add: elems_def demo_heap_def)
qed

text \<open>
  Pushing an entry that is not in the heap, with memory for it, returns 0 and gives a
  heap again (array bounds, back pointers, order) that holds exactly the old entries and
  the new one; no time or handler changes and no entry outside the heap is written.
\<close>

theorem min_heap_push_keeps_heap:
  assumes "mh_inv s" "e \<notin> elems s" "hn s + 1 < 2 ^ 31" "env \<noteq> None \<or> hn s < ha s"
  shows "\<exists>s'. min_heap_push env s e = (0, s') \<and> mh_inv s' \<and> elems s' = insert e (elems s)
           \<and> hn s' = hn s + 1 \<and> (\<forall>x. key s' x = key s x \<and> te_handler (ents s' x) = te_handler (ents s x))
           \<and> (\<forall>x. x \<notin> insert e (elems s) \<longrightarrow> ents s' x = ents s x)"
  using assms by (rule push_correct)

theorem min_heap_push_keeps_heap_witness:
  "mh_inv demo_heap \<and> (\<exists>s'. min_heap_push None demo_heap 4 = (0, s') \<and> mh_inv s' \<and> elems s' = {4, 1, 2, 3})"
  using min_heap_push_keeps_heap [of demo_heap 4 None] demo_heap_inv by (auto simp: demo_heap_def)

text \<open>
  C17. Popping a non-empty heap stops and returns the entry at the root, whose time is the
  least of the heap; the rest is a heap of the other entries, and the returned entry's index
  is reset to \<open>-1\<close>.
\<close>

theorem min_heap_pop_returns_least:
  assumes "mh_inv s" "hn s \<noteq> 0"
  shows "\<exists>e s'. min_heap_pop s = Some (Some e, s') \<and> min_heap_top s = Some e \<and> e \<in> elems s
           \<and> (\<forall>x \<in> elems s. key s e \<le> key s x) \<and> removed s e s'"
proof -
  have top: "min_heap_top s = Some (hp s ! 0)" using assms(2) by (simp add: min_heap_top_def)
  with pop_correct [OF assms] top_is_min [OF assms(1) top] show ?thesis by auto
qed

theorem min_heap_pop_returns_least_witness:
  "mh_inv demo_heap \<and> (\<exists>e s'. min_heap_pop demo_heap = Some (Some e, s') \<and> min_heap_top demo_heap = Some e
     \<and> removed demo_heap e s')"
  using min_heap_pop_returns_least [of demo_heap] demo_heap_inv by (auto simp: demo_heap_def)

text \<open>
  Erasing an entry of the heap, wherever it is, stops, returns 0 and leaves a heap of the
  other entries; erasing an entry whose index is \<open>-1\<close> returns \<open>-1\<close> and changes nothing.
\<close>

theorem min_heap_erase_removes:
  assumes "mh_inv s" "e \<in> elems s \<or> te_idx (ents s e) = U32_MAX"
  shows "if te_idx (ents s e) = U32_MAX then min_heap_erase s e = Some (-1, s)
         else \<exists>s'. min_heap_erase s e = Some (0, s') \<and> removed s e s'"
proof (cases "te_idx (ents s e) = U32_MAX")
  case True
  then show ?thesis by (simp add: min_heap_erase_def)
next
  case False
  then show ?thesis using erase_correct [of s e] assms by simp
qed

theorem min_heap_erase_removes_witness:
  "mh_inv demo_heap \<and> 2 \<in> elems demo_heap
     \<and> (\<exists>s'. min_heap_erase demo_heap 2 = Some (0, s') \<and> removed demo_heap 2 s')"
proof -
  have "te_idx (ents demo_heap 2) \<noteq> U32_MAX" by (simp add: demo_heap_def U32_MAX_def)
  then show ?thesis using min_heap_erase_removes [of demo_heap 2] demo_heap_inv by auto
qed

text \<open>
  After the time of one entry of a heap has been changed, adjusting that entry restores
  the heap with the same entries, in every position and whether the time grew or shrank.
\<close>

theorem min_heap_adjust_restores:
  assumes "mh_inv s" "e \<in> elems s"
    and "s1 = s\<lparr>ents := (ents s)(e := (ents s e)\<lparr>te_time := t\<rparr>)\<rparr>"
  shows "\<exists>s'. min_heap_adjust env s1 e = Some (0, s') \<and> mh_inv s' \<and> elems s' = elems s
           \<and> key s' e = t \<and> (\<forall>x. x \<noteq> e \<longrightarrow> key s' x = key s x)"
proof -
  obtain h where h: "h < hn s" "e = hp s ! h" using assms(2) by (auto simp: elems_def)
  have oth: "others s1 h = elems s - {e}"
    using elems_eq_others [OF assms(1) h(1)] h assms(3) by (simp add: others_def)
  have ne: "hp s ! i \<noteq> e" if "i < hn s" "i \<noteq> h" for i
    using mh_inv_distinct [OF assms(1), of i h] that h by auto
  have k: "key s1 (hp s1 ! i) = key s (hp s ! i)" if "i < hn s" "i \<noteq> h" for i
    using ne [OF that] assms(3) by simp
  have pn: "par i < hn s" if "i < hn s" "0 < i" for i
    using par_less [of i] that by simp
  have "order_ok s1 h"
    unfolding order_ok_def
  proof (intro conjI allI impI)
    fix i assume "i < hn s1" "0 < i" "i \<noteq> h" "par i \<noteq> h"
    then show "key s1 (hp s1 ! par i) \<le> key s1 (hp s1 ! i)"
      using k [of i] k [of "par i"] pn [of i] assms(1,3) by (simp add: mh_inv_def)
  next
    fix i assume i: "i < hn s1" "0 < i" "par i = h" "0 < h"
    then have "par h < h" "h < i" using par_less [of h] par_less [of i] by auto
    then show "key s1 (hp s1 ! par h) \<le> key s1 (hp s1 ! i)"
      using k [of i] k [of "par h"] pn [of h] h i mh_inv_hole(2) [OF assms(1), of h] assms(3)
      by (simp add: order_ok_def)
  qed
  moreover have "bounds_ok s1" using mh_inv_bounds [OF assms(1)] assms(3) by (simp add: bounds_ok_def)
  moreover have idx: "te_idx (ents s1 x) = te_idx (ents s x)" for x using assms(3) by simp
  moreover have "idx_ok s1 h"
    using mh_inv_hole(1) [OF assms(1), of h] assms(3) idx by (simp add: idx_ok_def)
  ultimately have "hole_inv s1 h e" using h oth assms(3) by (simp add: hole_inv_def)
  moreover have "hp s1 ! h = e" "te_idx (ents s1 e) = h"
    using assms(1,3) h idx by (simp_all add: mh_inv_def)
  ultimately obtain s' where "min_heap_adjust env s1 e = Some (0, s')" "sifted s1 h e s'"
    using adjust_correct by blast
  then show ?thesis
    using oth assms by (auto simp: sifted_def mh_frame_def insert_absorb)
qed

theorem min_heap_adjust_restores_witness:
  "mh_inv demo_heap \<and> (\<exists>s'. min_heap_adjust None
      (demo_heap\<lparr>ents := (ents demo_heap)(1 := (ents demo_heap 1)\<lparr>te_time := 8\<rparr>)\<rparr>) 1 = Some (0, s')
      \<and> mh_inv s' \<and> elems s' = {1, 2, 3} \<and> key s' 1 = 8)"
  using min_heap_adjust_restores [of demo_heap 1 _ 8 None] demo_heap_inv by auto

end
