(* ===== verification/MhTimer.thy ===== *)
theory MhTimer
  imports MinHeap TimerQueue
begin

text \<open>
  The timer module over the min-heap, \<open>7.../2207-timers/mh-timer.h\<close>. Its state is
  the global \<open>min_heap\<close> and the set of entries that are allocated. The values of
  \<open>current_time()\<close>, \<open>malloc\<close> and \<open>realloc\<close> are inputs; what a
  handler does is the argument \<open>run\<close>, from the function pointer stored in the entry
  and the entry's address to a change of the state. \<open>expire_timer\<close> also returns the
  entries whose handlers it called, in order.
\<close>

section \<open>State and operations\<close>

record mh_timer =
  mh :: min_heap
  live :: "addr set"

type_synonym handler = "nat \<Rightarrow> addr \<Rightarrow> mh_timer \<Rightarrow> mh_timer"

definition init_timer :: "mh_timer \<Rightarrow> mh_timer" where
  "init_timer st = st\<lparr>mh := min_heap_ctor (ents (mh st))\<rparr>"

definition add_timer :: "uint32 \<Rightarrow> addr option \<Rightarrow> addr option \<Rightarrow> mh_timer \<Rightarrow> uint32 \<Rightarrow> nat
    \<Rightarrow> addr option \<times> mh_timer" where
  "add_timer clock malloc_res realloc_env st msec callback =
     (case malloc_res of
        None \<Rightarrow> (None, st)
      | Some te \<Rightarrow>
          let e = \<lparr>te_time = clock + msec, te_idx = 0, te_handler = callback, te_privdata = 0\<rparr>;
              h = (mh st)\<lparr>ents := (ents (mh st))(te := e)\<rparr>
          in case min_heap_push realloc_env h te of
               (r, h') \<Rightarrow>
                 if 0 \<noteq> r then (None, st\<lparr>mh := h'\<rparr>)
                 else (Some te, st\<lparr>mh := h', live := insert te (live st)\<rparr>))"

definition del_timer :: "mh_timer \<Rightarrow> addr \<Rightarrow> (bool \<times> mh_timer) option" where
  "del_timer st e =
     (case min_heap_erase (mh st) e of
        None \<Rightarrow> None
      | Some (r, h) \<Rightarrow> Some (0 = r, st\<lparr>mh := h\<rparr>))"

definition find_nearest_expire_timer :: "uint32 \<Rightarrow> mh_timer \<Rightarrow> int option" where
  "find_nearest_expire_timer clock st =
     (case min_heap_top (mh st) of
        None \<Rightarrow> Some (-1)
      | Some te \<Rightarrow>
          (case int_sub (sint (key (mh st) te)) (sint clock) of
             None \<Rightarrow> None
           | Some diff \<Rightarrow> Some (if diff > 0 then diff else 0)))"

definition pop_free :: "mh_timer \<Rightarrow> addr \<Rightarrow> mh_timer option" where
  "pop_free st te =
     map_option (\<lambda>(_, h). st\<lparr>mh := h, live := live st - {te}\<rparr>) (min_heap_pop (mh st))"

partial_function (option) expire_timer ::
    "handler \<Rightarrow> uint32 \<Rightarrow> mh_timer \<Rightarrow> (addr list \<times> mh_timer) option" where
  "expire_timer run cur st =
     (case min_heap_top (mh st) of
        None \<Rightarrow> Some ([], st)
      | Some te \<Rightarrow>
          if key (mh st) te > cur then Some ([], st)
          else Option.bind (pop_free (run (te_handler (ents (mh st) te)) te st) te)
                 (\<lambda>st'. Option.bind (expire_timer run cur st')
                    (\<lambda>(fired, st''). Some (te # fired, st''))))"

section \<open>Invariant\<close>

definition mt_inv :: "mh_timer \<Rightarrow> bool" where
  "mt_inv st \<longleftrightarrow> mh_inv (mh st) \<and> elems (mh st) \<subseteq> live st"

abbreviation mt_pop :: "mh_timer \<Rightarrow> mh_timer option" where
  "mt_pop st \<equiv> Option.bind (min_heap_top (mh st)) (pop_free st)"

lemma init_timer_inv: "mt_inv (init_timer st)" "elems (mh (init_timer st)) = {}"
  by (simp_all add: mt_inv_def init_timer_def min_heap_ctor_def mh_inv_def bounds_ok_def elems_def)

lemma mt_pop_correct:
  assumes "mt_inv st" "min_heap_top (mh st) = Some te"
  shows "\<exists>st'. mt_pop st = Some st' \<and> mt_inv st' \<and> elems (mh st') = elems (mh st) - {te}
           \<and> live st' = live st - {te} \<and> (\<forall>x. key (mh st') x = key (mh st) x)"
proof -
  from assms have n: "hn (mh st) \<noteq> 0" "te = hp (mh st) ! 0"
    by (auto simp: min_heap_top_def split: if_splits)
  then obtain h where "min_heap_pop (mh st) = Some (Some te, h)" "removed (mh st) te h"
    using pop_correct [of "mh st"] assms by (auto simp: mt_inv_def)
  then show ?thesis
    using assms by (auto simp: pop_free_def mt_inv_def removed_def)
qed

text \<open>The min-heap timer is a timer queue whose handlers leave the timers alone.\<close>

interpretation mhq: timer_queue mt_inv "\<lambda>st. elems (mh st)" "\<lambda>st. key (mh st)"
  "\<lambda>st. min_heap_top (mh st)" mt_pop "expire_timer (\<lambda>_ _ st. st)"
proof (unfold_locales, goal_cases)
  case (1 s)
  show ?case by simp
next
  case (2 s)
  show ?case by (rule top_None_iff)
next
  case (3 s e)
  then show ?case using top_is_min [of "mh s" e] by (auto simp: mt_inv_def)
next
  case (4 s e)
  then show ?case using mt_pop_correct [of s e] by auto
next
  case (5 s now)
  show ?case
    by (subst expire_timer.simps) (simp split: option.split bind_split)
qed


section \<open>Properties\<close>

definition demo_timer :: mh_timer where
  "demo_timer = \<lparr>mh = demo_heap, live = {1, 2, 3}\<rparr>"

lemma demo_timer_inv: "mt_inv demo_timer"
  using demo_heap_inv by (simp add: demo_timer_def mt_inv_def)

text \<open>
  C4. \<open>expire_timer\<close> stops and calls the handlers of exactly the entries that are due,
  each once and in the order of their times; the entries left in the heap are the ones that
  are not due, and all of them are still allocated.
\<close>

theorem expire_timer_fires_due:
  assumes "mt_inv st"
  shows "\<exists>fired st'. expire_timer (\<lambda>_ _ st. st) now st = Some (fired, st')
           \<and> set fired = {e \<in> elems (mh st). key (mh st) e \<le> now} \<and> distinct fired
           \<and> sorted (map (key (mh st)) fired)
           \<and> elems (mh st') = {e \<in> elems (mh st). now < key (mh st) e} \<and> mt_inv st'"
  using mhq.expire_correct [OF assms, of now] by (auto simp: mhq.expired_def)

theorem expire_timer_fires_due_witness:
  "mt_inv demo_timer \<and> (\<exists>fired st'. expire_timer (\<lambda>_ _ st. st) 8 demo_timer = Some (fired, st')
     \<and> set fired = {1, 3} \<and> sorted (map (key demo_heap) fired) \<and> elems (mh st') = {2})"
proof -
  have "{e \<in> elems (mh demo_timer). key (mh demo_timer) e \<le> 8} = {1, 3}"
    "{e \<in> elems (mh demo_timer). 8 < key (mh demo_timer) e} = {2}"
    using demo_heap_inv(2) by (auto simp: demo_timer_def demo_heap_def)
  then show ?thesis
    using expire_timer_fires_due [OF demo_timer_inv, of 8] demo_timer_inv by (auto simp: demo_timer_def)
qed

text \<open>
  A timer added with a fresh entry can be cancelled: \<open>add_timer\<close> returns the entry,
  whose time is the clock plus the delay modulo \<open>2 ^ 32\<close>, and \<open>del_timer\<close> on it returns
  true and restores the set of pending entries and their times.
\<close>

theorem add_then_del_timer:
  assumes "mt_inv st" "te \<notin> elems (mh st)" "hn (mh st) + 1 < 2 ^ 31"
  shows "\<exists>st1 st2. add_timer clock (Some te) (Some junk) st msec cb = (Some te, st1)
           \<and> mt_inv st1 \<and> elems (mh st1) = insert te (elems (mh st)) \<and> key (mh st1) te = clock + msec
           \<and> del_timer st1 te = Some (True, st2) \<and> mh_inv (mh st2) \<and> elems (mh st2) = elems (mh st)
           \<and> (\<forall>x \<in> elems (mh st). key (mh st2) x = key (mh st) x)"
proof -
  let ?e = "\<lparr>te_time = clock + msec, te_idx = 0, te_handler = cb, te_privdata = 0\<rparr>"
  let ?h = "(mh st)\<lparr>ents := (ents (mh st))(te := ?e)\<rparr>"
  have ne: "hp (mh st) ! i \<noteq> te" if "i < hn (mh st)" for i
    using assms(2) that by (auto simp: elems_def)
  have h: "mh_inv ?h" "elems ?h = elems (mh st)"
    using assms(1) ne par_less by (auto simp: mt_inv_def mh_inv_def bounds_ok_def elems_def
        less_trans [OF par_less])
  obtain h1 where push: "min_heap_push (Some junk) ?h te = (0, h1)" and h1: "mh_inv h1"
      "elems h1 = insert te (elems (mh st))" "\<And>x. key h1 x = key ?h x"
    using push_correct [OF h(1), of te "Some junk"] h(2) assms(2,3) by auto
  let ?st1 = "st\<lparr>mh := h1, live := insert te (live st)\<rparr>"
  have add: "add_timer clock (Some te) (Some junk) st msec cb = (Some te, ?st1)"
    using push by (simp add: add_timer_def Let_def)
  obtain h2 where er: "min_heap_erase h1 te = Some (0, h2)" "removed h1 te h2"
    using erase_correct [OF h1(1)] h1(2) by blast
  then have del: "del_timer ?st1 te = Some (True, ?st1\<lparr>mh := h2\<rparr>)" by (simp add: del_timer_def)
  have "mt_inv ?st1" using h1 assms(1) by (auto simp: mt_inv_def)
  moreover have "elems h2 = elems (mh st)" "mh_inv h2" "\<And>x. key h2 x = key ?h x"
    using er h1 assms(2) by (auto simp: removed_def)
  moreover have "\<forall>x \<in> elems (mh st). key ?h x = key (mh st) x" using assms(2) by auto
  ultimately show ?thesis using add del h1 by fastforce
qed

theorem add_then_del_timer_witness:
  "mt_inv demo_timer \<and> (\<exists>st1 st2. add_timer 100 (Some 7) (Some 0) demo_timer 50 0 = (Some 7, st1)
     \<and> key (mh st1) 7 = 150 \<and> del_timer st1 7 = Some (True, st2) \<and> elems (mh st2) = {1, 2, 3})"
  using add_then_del_timer [OF demo_timer_inv, of 7 100 0 50 0] demo_timer_inv demo_heap_inv(2)
  by (force simp: demo_timer_def demo_heap_def)

text \<open>
  While the clock and the pending times are below \<open>2 ^ 31\<close> (no signed overflow),
  \<open>find_nearest_expire_timer\<close> returns \<open>-1\<close> exactly when nothing is pending, else the
  milliseconds until the least pending time, 0 when it is already due.
\<close>

theorem find_nearest_expire_timer_delay:
  assumes "mt_inv st" "unat clock < 2 ^ 31" "\<forall>e \<in> elems (mh st). unat (key (mh st) e) < 2 ^ 31"
  shows "find_nearest_expire_timer clock st =
           (if elems (mh st) = {} then Some (-1)
            else Some (max 0 (Min ((\<lambda>e. int (unat (key (mh st) e))) ` elems (mh st)) - int (unat clock))))"
proof (cases "min_heap_top (mh st)")
  case None
  then show ?thesis using top_None_iff [of "mh st"] by (simp add: find_nearest_expire_timer_def)
next
  case (Some te)
  let ?k = "\<lambda>e. int (unat (key (mh st) e))"
  have te: "te \<in> elems (mh st)" "\<And>x. x \<in> elems (mh st) \<Longrightarrow> ?k te \<le> ?k x"
    using top_is_min [OF _ Some] assms(1) by (auto simp: mt_inv_def word_le_def)
  have Min: "Min (?k ` elems (mh st)) = ?k te" using te by (intro Min_eqI) auto
  have "int_sub (sint (key (mh st) te)) (sint clock) = Some (?k te - int (unat clock))"
    using assms(2,3) te(1) by (intro int_sub_small) auto
  then show ?thesis
    using Some te Min by (auto simp: find_nearest_expire_timer_def)
qed

theorem find_nearest_expire_timer_delay_witness:
  "mt_inv demo_timer \<and> find_nearest_expire_timer 2 demo_timer = Some 3"
proof -
  have k: "(\<lambda>e. int (unat (key (mh demo_timer) e))) ` elems (mh demo_timer) = {5, 9, 7}"
    using demo_heap_inv(2) by (simp add: demo_timer_def demo_heap_def)
  have "\<forall>e \<in> elems (mh demo_timer). unat (key (mh demo_timer) e) < 2 ^ 31"
    using demo_heap_inv(2) by (simp add: demo_timer_def demo_heap_def)
  then have "find_nearest_expire_timer 2 demo_timer =
      Some (max 0 (Min {5, 9, 7} - int (unat (2::uint32))))"
    using find_nearest_expire_timer_delay [OF demo_timer_inv, of 2] demo_heap_inv(2)
    unfolding k by (simp add: demo_timer_def)
  then show ?thesis using demo_timer_inv by simp
qed

end
