(* ===== verification/TimeWheel.thy ===== *)
theory TimeWheel
  imports Prelude
begin

unbundle bit_operations_syntax

text \<open>
  The hierarchical time wheel, \<open>7.../2207-timers/timewheel.c\<close>, \<open>timewheel.h\<close> and
  \<open>spinlock.h\<close>: 256 near slots, four levels of 64 slots, a tick counter of 32 bits.

  A slot is the list of the addresses of its nodes. The singly linked lists with a tail
  pointer that the code uses are modelled on a store of \<open>next\<close> pointers at the end of
  this theory, and shown to implement append and clear. The nodes live in the store
  \<open>nodes\<close>. What a callback does is the argument \<open>run\<close>; \<open>fired\<close> records the
  callbacks that have been called and \<open>freed\<close> the nodes given to \<open>free\<close>. An operation returns \<^const>\<open>None\<close> when it never
  returns (a spin lock that is already held, a loop that does not stop).
\<close>

section \<open>Data\<close>

definition TIME_NEAR :: uint32 where "TIME_NEAR = 256"
definition TIME_NEAR_MASK :: uint32 where "TIME_NEAR_MASK = 255"
definition TIME_LEVEL_MASK :: uint32 where "TIME_LEVEL_MASK = 63"

record timer_node =
  tn_expire :: uint32
  tn_callback :: nat
  tn_cancel :: uint8
  tn_id :: int

record s_timer =
  near :: "addr list list"
  lv :: "addr list list list"
  tw_lock :: int
  tw_time :: uint32
  tw_current :: uint64
  tw_current_point :: uint64
  nodes :: "addr \<Rightarrow> timer_node"
  fired :: "addr list"
  freed :: "addr list"

type_synonym callback = "nat \<Rightarrow> addr \<Rightarrow> s_timer \<Rightarrow> s_timer option"

section \<open>The spin lock\<close>

definition spinlock_init :: "s_timer \<Rightarrow> s_timer" where
  "spinlock_init T = T\<lparr>tw_lock := 0\<rparr>"

definition test_and_set :: "s_timer \<Rightarrow> int \<times> s_timer" where
  "test_and_set T = (tw_lock T, T\<lparr>tw_lock := 1\<rparr>)"

definition spinlock_lock :: "s_timer \<Rightarrow> s_timer option" where
  "spinlock_lock T = (case test_and_set T of (old, T') \<Rightarrow> if old \<noteq> 0 then None else Some T')"

definition spinlock_trylock :: "s_timer \<Rightarrow> bool \<times> s_timer" where
  "spinlock_trylock T = (case test_and_set T of (old, T') \<Rightarrow> (old = 0, T'))"

definition spinlock_unlock :: "s_timer \<Rightarrow> s_timer" where
  "spinlock_unlock T = T\<lparr>tw_lock := 0\<rparr>"

section \<open>Slots\<close>

definition link :: "addr list \<Rightarrow> addr \<Rightarrow> addr list" where
  "link list node = list @ [node]"

definition link_clear :: "addr list \<Rightarrow> addr list \<times> addr list" where
  "link_clear list = (list, [])"

definition link_near :: "s_timer \<Rightarrow> nat \<Rightarrow> addr \<Rightarrow> s_timer" where
  "link_near T i node = T\<lparr>near := (near T)[i := link (near T ! i) node]\<rparr>"

definition link_level :: "s_timer \<Rightarrow> nat \<Rightarrow> nat \<Rightarrow> addr \<Rightarrow> s_timer" where
  "link_level T l i node = T\<lparr>lv := (lv T)[l := (lv T ! l)[i := link (lv T ! l ! i) node]]\<rparr>"

definition add_node :: "s_timer \<Rightarrow> addr \<Rightarrow> s_timer" where
  "add_node T node =
     (let time = tn_expire (nodes T node);
          current_time = tw_time T;
          msec = time - current_time
      in if msec < TIME_NEAR then link_near T (unat (time AND TIME_NEAR_MASK)) node
         else if msec < push_bit (8 + 6) 1 then
           link_level T 0 (unat (drop_bit 8 time AND TIME_LEVEL_MASK)) node
         else if msec < push_bit (8 + 2 * 6) 1 then
           link_level T 1 (unat (drop_bit (8 + 6) time AND TIME_LEVEL_MASK)) node
         else if msec < push_bit (8 + 3 * 6) 1 then
           link_level T 2 (unat (drop_bit (8 + 2 * 6) time AND TIME_LEVEL_MASK)) node
         else link_level T 3 (unat (drop_bit (8 + 3 * 6) time AND TIME_LEVEL_MASK)) node)"

text \<open>
  \<open>malloc\<close> returns the node at address \<open>node\<close>; the fields the code does not set
  (\<open>cancel\<close>) keep what the memory held.
\<close>

definition add_timer :: "callback \<Rightarrow> addr \<Rightarrow> s_timer \<Rightarrow> int \<Rightarrow> nat \<Rightarrow> int
    \<Rightarrow> (addr option \<times> s_timer) option" where
  "add_timer run node T time func threadid =
     Option.bind (spinlock_lock T) (\<lambda>T.
       let n = (nodes T node)\<lparr>tn_expire := word_of_int time + tw_time T, tn_callback := func,
                 tn_id := threadid\<rparr>;
           T = T\<lparr>nodes := (nodes T)(node := n)\<rparr>
       in if time \<le> 0
          then Option.bind (run func node ((spinlock_unlock T)\<lparr>fired := fired T @ [node]\<rparr>))
                 (\<lambda>T. Some (None, T\<lparr>freed := freed T @ [node]\<rparr>))
          else Some (Some node, spinlock_unlock (add_node T node)))"

fun move_nodes :: "s_timer \<Rightarrow> addr list \<Rightarrow> s_timer" where
  "move_nodes T [] = T"
| "move_nodes T (current # temp) = move_nodes (add_node T current) temp"

definition move_list :: "s_timer \<Rightarrow> nat \<Rightarrow> nat \<Rightarrow> s_timer" where
  "move_list T level idx =
     (case link_clear (lv T ! level ! idx) of
        (current, list) \<Rightarrow> move_nodes (T\<lparr>lv := (lv T)[level := (lv T ! level)[idx := list]]\<rparr>) current)"

partial_function (option) timer_shift_loop ::
    "s_timer \<Rightarrow> uint32 \<Rightarrow> uint32 \<Rightarrow> uint32 \<Rightarrow> nat \<Rightarrow> s_timer option" where
  "timer_shift_loop T ct msk time i =
     (if ct AND (msk - 1) = 0
      then (let idx = unat (time AND TIME_LEVEL_MASK)
            in if idx \<noteq> 0 then Some (move_list T i idx)
               else timer_shift_loop T ct (push_bit 6 msk) (drop_bit 6 time) (i + 1))
      else Some T)"

definition timer_shift :: "s_timer \<Rightarrow> s_timer option" where
  "timer_shift T =
     (let ct = tw_time T + 1;
          T = T\<lparr>tw_time := ct\<rparr>
      in if ct = 0 then Some (move_list T 3 0)
         else timer_shift_loop T ct TIME_NEAR (drop_bit 8 ct) 0)"

fun dispatch_list :: "callback \<Rightarrow> addr list \<Rightarrow> s_timer \<Rightarrow> s_timer option" where
  "dispatch_list run [] T = Some T"
| "dispatch_list run (temp # current) T =
     Option.bind
       (if tn_cancel (nodes T temp) = 0
        then run (tn_callback (nodes T temp)) temp (T\<lparr>fired := fired T @ [temp]\<rparr>)
        else Some T)
       (\<lambda>T. dispatch_list run current (T\<lparr>freed := freed T @ [temp]\<rparr>))"

partial_function (option) timer_execute_loop :: "callback \<Rightarrow> nat \<Rightarrow> s_timer \<Rightarrow> s_timer option" where
  "timer_execute_loop run idx T =
     (if near T ! idx \<noteq> []
      then (case link_clear (near T ! idx) of
              (current, list) \<Rightarrow>
                Option.bind (dispatch_list run current (spinlock_unlock (T\<lparr>near := (near T)[idx := list]\<rparr>)))
                  (\<lambda>T. Option.bind (spinlock_lock T) (\<lambda>T. timer_execute_loop run idx T)))
      else Some T)"

definition timer_execute :: "callback \<Rightarrow> s_timer \<Rightarrow> s_timer option" where
  "timer_execute run T = timer_execute_loop run (unat (tw_time T AND TIME_NEAR_MASK)) T"

definition timer_update :: "callback \<Rightarrow> s_timer \<Rightarrow> s_timer option" where
  "timer_update run T =
     Option.bind (spinlock_lock T) (\<lambda>T.
     Option.bind (timer_execute run T) (\<lambda>T.
     Option.bind (timer_shift T) (\<lambda>T.
     Option.bind (timer_execute run T) (\<lambda>T.
     Some (spinlock_unlock T)))))"

definition del_timer :: "s_timer \<Rightarrow> addr \<Rightarrow> s_timer" where
  "del_timer T node = T\<lparr>nodes := (nodes T)(node := (nodes T node)\<lparr>tn_cancel := 1\<rparr>)\<rparr>"

definition timer_create_timer :: "(addr \<Rightarrow> timer_node) \<Rightarrow> s_timer" where
  "timer_create_timer mem =
     \<lparr>near = replicate 256 [], lv = replicate 4 (replicate 64 []), tw_lock = 0, tw_time = 0,
      tw_current = 0, tw_current_point = 0, nodes = mem, fired = [], freed = []\<rparr>"

fun update_ticks :: "callback \<Rightarrow> nat \<Rightarrow> s_timer \<Rightarrow> s_timer option" where
  "update_ticks run 0 T = Some T"
| "update_ticks run (Suc n) T = Option.bind (timer_update run T) (update_ticks run n)"


definition init_timer :: "(addr \<Rightarrow> timer_node) \<Rightarrow> uint64 \<Rightarrow> s_timer" where
  "init_timer mem cp = (timer_create_timer mem)\<lparr>tw_current_point := cp\<rparr>"

definition clear_timer :: "s_timer \<Rightarrow> s_timer" where
  "clear_timer TI =
     TI\<lparr>near := map (\<lambda>list. snd (link_clear list)) (near TI),
        lv := map (map (\<lambda>list. snd (link_clear list))) (lv TI),
        freed := freed TI @ concat (near TI) @ concat (concat (lv TI))\<rparr>"

section \<open>Arithmetic of the slots\<close>

text \<open>The shift of a level, the slot of an expiry at a level, the tick that drains it.\<close>

definition shift :: "nat \<Rightarrow> nat" where
  "shift l = 8 + 6 * l"

definition slot :: "nat \<Rightarrow> uint32 \<Rightarrow> nat" where
  "slot l e = unat (take_bit 6 (drop_bit (shift l) e))"

definition drain :: "nat \<Rightarrow> uint32 \<Rightarrow> uint32" where
  "drain l e = push_bit (shift l) (drop_bit (shift l) e)"

lemma mask_consts: "(255::uint32) = mask 8" "(63::uint32) = mask 6"
  by (simp_all add: mask_eq_exp_minus_1)

lemma and_near_mask: "w AND TIME_NEAR_MASK = take_bit 8 w"
  by (simp add: TIME_NEAR_MASK_def mask_consts(1) take_bit_eq_mask)

lemma and_level_mask: "w AND TIME_LEVEL_MASK = take_bit 6 w"
  by (simp add: TIME_LEVEL_MASK_def mask_consts(2) take_bit_eq_mask)

lemma take_bit_32 [simp]: "take_bit 32 (w::uint32) = w"
  using take_bit_length_eq [of w] by simp

lemma slot_less: "slot l e < 64"
proof -
  have "slot l e = take_bit 6 (unat (drop_bit (shift l) e))"
    by (simp add: slot_def unsigned_take_bit_eq)
  then show ?thesis using take_bit_nat_less_exp [of 6] by simp
qed

lemma near_slot_less: "unat (take_bit 8 (e::uint32)) < 256"
proof -
  have "unat (take_bit 8 e) = take_bit 8 (unat e)" by (simp add: unsigned_take_bit_eq)
  then show ?thesis using take_bit_nat_less_exp [of 8 "unat e"] by simp
qed


lemma drain_split: "e = drain l e + take_bit (shift l) e"
  by (simp add: drain_def bits_ident)

lemma take_bit_drain [simp]: "take_bit (shift l) (drain l e) = 0"
  by (simp add: drain_def take_bit_push_bit)

lemma drop_bit_drain [simp]: "drop_bit (shift l) (drain l e) = drop_bit (shift l) e"
  unfolding drain_def by (rule bit_eqI) (auto simp: bit_simps dest: bit_imp_le_length)

lemma slot_drain [simp]: "slot l (drain l e) = slot l e"
  by (simp add: slot_def)


lemma unat_take_bit_less: "unat (take_bit n (e::uint32)) < 2 ^ n"
  using take_bit_nat_less_exp [of n "unat e"] by (simp add: unsigned_take_bit_eq)

text \<open>An expiry at least a block away is drained strictly later, and not after it is due.\<close>

lemma drain_diff:
  assumes "2 ^ shift l \<le> unat (e - c)"
  shows "0 < unat (drain l e - c)" "unat (drain l e - c) \<le> unat (e - c)"
proof -
  have "drain l e - c = (e - c) - take_bit (shift l) e"
    using drain_split [of e l] by (simp add: algebra_simps)
  moreover have "take_bit (shift l) e \<le> e - c"
    using unat_take_bit_less [of "shift l" e] assms by (simp add: word_le_nat_alt)
  ultimately have "unat (drain l e - c) = unat (e - c) - unat (take_bit (shift l) e)"
    by (metis unat_sub)
  then show "0 < unat (drain l e - c)" "unat (drain l e - c) \<le> unat (e - c)"
    using unat_take_bit_less [of "shift l" e] assms by simp_all
qed



lemma slot_nat: "slot l e = (unat e div 2 ^ shift l) mod 64"
  unfolding slot_def unsigned_take_bit_eq unat_drop_bit_eq
  by (simp add: take_bit_eq_mod drop_bit_eq_div)


section \<open>The invariant\<close>

definition level :: "nat \<Rightarrow> nat" where
  "level m = (if m < 2 ^ 14 then 0 else if m < 2 ^ 20 then 1 else if m < 2 ^ 26 then 2 else 3)"

abbreviation exp_of :: "s_timer \<Rightarrow> addr \<Rightarrow> uint32" where
  "exp_of T x \<equiv> tn_expire (nodes T x)"

definition dims :: "s_timer \<Rightarrow> bool" where
  "dims T \<longleftrightarrow> length (near T) = 256 \<and> length (lv T) = 4 \<and> (\<forall>l < 4. length (lv T ! l) = 64)"

definition near_entry :: "uint32 \<Rightarrow> nat \<Rightarrow> uint32 \<Rightarrow> bool" where
  "near_entry c i e \<longleftrightarrow> unat (take_bit 8 e) = i \<and> unat (e - c) < 256"

definition level_entry :: "uint32 \<Rightarrow> nat \<Rightarrow> nat \<Rightarrow> uint32 \<Rightarrow> bool" where
  "level_entry c l j e \<longleftrightarrow> slot l e = j \<and> (j = 0 \<longrightarrow> l = 3) \<and> 0 < unat (drain l e - c)
     \<and> unat (drain l e - c) \<le> unat (e - c) \<and> unat (drain l e - c) < 2 ^ (shift l + 6)"

definition wheel_ok :: "s_timer \<Rightarrow> bool" where
  "wheel_ok T \<longleftrightarrow> dims T
     \<and> (\<forall>i < 256. \<forall>x \<in> set (near T ! i). near_entry (tw_time T) i (exp_of T x))
     \<and> (\<forall>l < 4. \<forall>j < 64. \<forall>x \<in> set (lv T ! l ! j). level_entry (tw_time T) l j (exp_of T x))"

text \<open>The nodes that are pending, with multiplicity.\<close>

definition pend :: "s_timer \<Rightarrow> addr multiset" where
  "pend T = mset (concat (near T)) + mset (concat (concat (lv T)))"

text \<open>
  An expiry that \<open>add_node\<close> files in a slot that will be drained: a near slot, a slot of the
  top level, or a slot other than slot 0 of a lower level.
\<close>

definition fits :: "uint32 \<Rightarrow> uint32 \<Rightarrow> bool" where
  "fits c e \<longleftrightarrow> unat (e - c) < 256 \<or> level (unat (e - c)) = 3 \<or> slot (level (unat (e - c))) e \<noteq> 0"

text \<open>The fields that filing a node leaves alone.\<close>

definition same_env :: "s_timer \<Rightarrow> s_timer \<Rightarrow> bool" where
  "same_env T T' \<longleftrightarrow> tw_time T' = tw_time T \<and> nodes T' = nodes T \<and> tw_lock T' = tw_lock T
     \<and> fired T' = fired T \<and> freed T' = freed T \<and> tw_current T' = tw_current T \<and> tw_current_point T' = tw_current_point T"

lemma add_node_eq:
  "add_node T x =
     (let e = exp_of T x; m = unat (e - tw_time T)
      in if m < 256 then link_near T (unat (take_bit 8 e)) x
         else link_level T (level m) (slot (level m) e) x)"
  by (simp add: add_node_def TIME_NEAR_def Let_def and_near_mask and_level_mask level_def slot_def
      shift_def word_less_nat_alt push_bit_eq_mult)

lemma level_bounds:
  assumes "256 \<le> m" "m < 2 ^ 32"
  shows "level m < 4" "2 ^ shift (level m) \<le> m" "m < 2 ^ (shift (level m) + 6)"
  using assms by (auto simp: level_def shift_def)

lemma dims_link [simp]:
  "dims T \<Longrightarrow> dims (link_near T i x)" "dims T \<Longrightarrow> dims (link_level T l j x)"
  by (auto simp: dims_def link_near_def link_level_def nth_list_update')

lemma same_env_link [simp]: "same_env T (link_near T i x)" "same_env T (link_level T l j x)"
  by (simp_all add: same_env_def link_near_def link_level_def)

lemma pend_link_near:
  assumes "dims T" "i < 256"
  shows "pend (link_near T i x) = add_mset x (pend T)"
proof -
  have "mset (concat (near (link_near T i x))) + mset (near T ! i) =
      mset (concat (near T)) + mset (near T ! i @ [x])"
    using mset_concat_update [of i "near T" "near T ! i @ [x]"] assms
    by (simp add: dims_def link_near_def link_def)
  then show ?thesis by (simp add: pend_def link_near_def)
qed

lemma mset_levels_update:
  assumes "dims T" "l < 4" "j < 64"
  shows "mset (concat (concat ((lv T)[l := (lv T ! l)[j := ys]]))) + mset (lv T ! l ! j) =
         mset (concat (concat (lv T))) + mset ys"
proof -
  let ?row = "(lv T ! l)[j := ys]"
  have row: "mset (concat ?row) + mset (lv T ! l ! j) = mset (concat (lv T ! l)) + mset ys"
    using assms by (intro mset_concat_update) (simp add: dims_def)
  have "mset (concat ((map concat (lv T))[l := concat ?row])) + mset (map concat (lv T) ! l) =
      mset (concat (map concat (lv T))) + mset (concat ?row)"
    using assms by (intro mset_concat_update) (simp add: dims_def)
  then have "mset (concat (concat ((lv T)[l := ?row]))) + mset (concat (lv T ! l)) =
      mset (concat (concat (lv T))) + mset (concat ?row)"
    using assms by (simp add: concat_concat_map map_update dims_def)
  with row show ?thesis by (smt (verit) add.assoc add.commute add_left_cancel)
qed

lemma pend_link_level:
  assumes "dims T" "l < 4" "j < 64"
  shows "pend (link_level T l j x) = add_mset x (pend T)"
  using mset_levels_update [OF assms, of "lv T ! l ! j @ [x]"]
  by (simp add: pend_def link_level_def link_def)

lemma add_node_ok:
  assumes T: "wheel_ok T" and f: "fits (tw_time T) (exp_of T x)"
  shows "wheel_ok (add_node T x)" "pend (add_node T x) = add_mset x (pend T)" "same_env T (add_node T x)"
proof -
  let ?e = "exp_of T x"
  let ?m = "unat (?e - tw_time T)"
  have d: "dims T" using T by (simp add: wheel_ok_def)
  have m32: "?m < 2 ^ 32" by (rule unat_less_32)
  show "same_env T (add_node T x)" by (simp add: add_node_eq Let_def)
  show "pend (add_node T x) = add_mset x (pend T)"
    using d level_bounds [OF _ m32] slot_less near_slot_less
    by (auto simp: add_node_eq Let_def pend_link_near pend_link_level not_less)
  show "wheel_ok (add_node T x)"
  proof (cases "?m < 256")
    case True
    then have "near_entry (tw_time T) (unat (take_bit 8 ?e)) ?e" by (simp add: near_entry_def)
    then show ?thesis
      using T True d unfolding wheel_ok_def
      by (auto simp: add_node_eq Let_def link_near_def link_def dims_def nth_list_update' split: if_splits)
  next
    case False
    let ?l = "level ?m"
    have l: "?l < 4" "2 ^ shift ?l \<le> ?m" "?m < 2 ^ (shift ?l + 6)"
      using False level_bounds [OF _ m32] by auto
    have "level_entry (tw_time T) ?l (slot ?l ?e) ?e"
      using f False drain_diff [OF l(2)] l(3) by (auto simp: level_entry_def fits_def)
    then show ?thesis
      using T False d l unfolding wheel_ok_def
      by (auto simp: add_node_eq Let_def link_level_def link_def dims_def nth_list_update' split: if_splits)
  qed
qed

lemma same_env_trans: "same_env T U \<Longrightarrow> same_env U V \<Longrightarrow> same_env T V"
  by (simp add: same_env_def)

lemma move_nodes_ok:
  assumes "wheel_ok T" "\<And>x. x \<in> set xs \<Longrightarrow> fits (tw_time T) (exp_of T x)"
  shows "wheel_ok (move_nodes T xs) \<and> pend (move_nodes T xs) = mset xs + pend T \<and> same_env T (move_nodes T xs)"
  using assms
proof (induction xs arbitrary: T)
  case Nil
  then show ?case by (simp add: same_env_def)
next
  case (Cons x xs)
  note a = add_node_ok [OF Cons.prems(1) Cons.prems(2) [of x]]
  have "wheel_ok (move_nodes (add_node T x) xs) \<and>
      pend (move_nodes (add_node T x) xs) = mset xs + pend (add_node T x) \<and>
      same_env (add_node T x) (move_nodes (add_node T x) xs)"
    using a Cons.prems by (intro Cons.IH) (auto simp: same_env_def)
  then show ?case using a same_env_trans by auto
qed


section \<open>The cascade\<close>

definition target :: "uint32 \<Rightarrow> (nat \<times> nat) option" where
  "target ct =
     (if ct = 0 then Some (3, 0)
      else if take_bit 8 ct \<noteq> 0 then None
      else if slot 0 ct \<noteq> 0 then Some (0, slot 0 ct)
      else if slot 1 ct \<noteq> 0 then Some (1, slot 1 ct)
      else if slot 2 ct \<noteq> 0 then Some (2, slot 2 ct)
      else Some (3, slot 3 ct))"

lemma take_bit_0_nat: "take_bit n c = 0 \<longleftrightarrow> unat c mod 2 ^ n = 0" for c :: uint32
  by (simp add: word_unat_eq_iff unsigned_take_bit_eq) (simp add: take_bit_eq_mod)

lemma block_split: "unat e mod 2 ^ (shift l + 6) = 2 ^ shift l * slot l e + unat e mod 2 ^ shift l"
  by (simp add: power_add mod_mult2_eq slot_nat)

lemma take_bit_level_Suc:
  "take_bit (shift (Suc l)) c = 0 \<longleftrightarrow> take_bit (shift l) c = 0 \<and> slot l c = 0" for c :: uint32
proof -
  have "shift (Suc l) = shift l + 6" by (simp add: shift_def)
  then show ?thesis using block_split [of c l] by (auto simp: take_bit_0_nat)
qed



lemma shift_loop_step:
  "timer_shift_loop T ct (2 ^ shift i) (drop_bit (shift i) ct) i =
     (if take_bit (shift i) ct \<noteq> 0 then Some T
      else if slot i ct \<noteq> 0 then Some (move_list T i (slot i ct))
      else timer_shift_loop T ct (2 ^ shift (Suc i)) (drop_bit (shift (Suc i)) ct) (Suc i))"
proof -
  have "ct AND (2 ^ shift i - 1) = take_bit (shift i) ct"
    by (simp add: take_bit_eq_mask mask_eq_exp_minus_1)
  moreover have "push_bit 6 (2 ^ shift i) = (2 ^ shift (Suc i) :: uint32)"
    unfolding push_bit_eq_mult power_add [symmetric] by (simp add: shift_def add.commute)
  moreover have "drop_bit 6 (drop_bit (shift i) ct) = drop_bit (shift (Suc i)) ct"
    by (simp add: shift_def)
  ultimately show ?thesis
    by (subst timer_shift_loop.simps) (auto simp: and_level_mask slot_def [symmetric] Let_def)
qed

lemma timer_shift_eq:
  "timer_shift T =
     (let ct = tw_time T + 1; T1 = T\<lparr>tw_time := ct\<rparr>
      in Some (case target ct of None \<Rightarrow> T1 | Some (l, j) \<Rightarrow> move_list T1 l j))"
proof -
  define ct where "ct = tw_time T + 1"
  define T1 where "T1 = T\<lparr>tw_time := ct\<rparr>"
  have 0: "TIME_NEAR = 2 ^ shift 0" "drop_bit 8 ct = drop_bit (shift 0) ct" "shift 0 = 8"
    by (simp_all add: TIME_NEAR_def shift_def)
  have top: "slot 3 ct \<noteq> 0" if "take_bit (shift 3) ct = 0" "ct \<noteq> 0"
  proof
    assume "slot 3 ct = 0"
    then have "take_bit 32 ct = 0" using that take_bit_level_Suc [of 3 ct] by (simp add: shift_def)
    then show False using that by simp
  qed
  note up = take_bit_level_Suc [of 0 ct] take_bit_level_Suc [of 1 ct] take_bit_level_Suc [of 2 ct]
  have "timer_shift T = (if ct = 0 then Some (move_list T1 3 0)
      else timer_shift_loop T1 ct (2 ^ shift 0) (drop_bit (shift 0) ct) 0)"
    unfolding timer_shift_def Let_def ct_def [symmetric] T1_def [symmetric] 0(1) 0(2) ..
  also have "\<dots> = Some (case target ct of None \<Rightarrow> T1 | Some (l, j) \<Rightarrow> move_list T1 l j)"
  proof -
    let ?s = "\<lambda>i. timer_shift_loop T1 ct (2 ^ shift i) (drop_bit (shift i) ct) i"
    have s3: "?s 3 = Some (move_list T1 3 (slot 3 ct))" if "take_bit (shift 3) ct = 0" "ct \<noteq> 0"
      using that top shift_loop_step [of T1 ct 3] by simp
    have s2: "?s 2 = (if slot 2 ct \<noteq> 0 then Some (move_list T1 2 (slot 2 ct)) else ?s 3)"
      if "take_bit (shift 2) ct = 0"
      using that shift_loop_step [of T1 ct 2] by (simp add: numeral_3_eq_3)
    have s1: "?s 1 = (if slot 1 ct \<noteq> 0 then Some (move_list T1 1 (slot 1 ct)) else ?s 2)"
      if "take_bit (shift 1) ct = 0"
      using that shift_loop_step [of T1 ct 1] by (simp add: numeral_2_eq_2)
    have s0: "?s 0 = (if take_bit 8 ct \<noteq> 0 then Some T1
        else if slot 0 ct \<noteq> 0 then Some (move_list T1 0 (slot 0 ct)) else ?s 1)"
      using shift_loop_step [of T1 ct 0] by (simp add: 0(3))
    have b: "take_bit (shift 1) ct = 0" if "take_bit 8 ct = 0" "slot 0 ct = 0"
      using that up(1) by (simp add: 0(3))
    have b2: "take_bit (shift 2) ct = 0" if "take_bit (shift 1) ct = 0" "slot 1 ct = 0"
      using that up(2) by (simp add: numeral_2_eq_2)
    have b3: "take_bit (shift 3) ct = 0" if "take_bit (shift 2) ct = 0" "slot 2 ct = 0"
      using that up(3) by (simp add: numeral_3_eq_3)
    consider "ct = 0" | "take_bit 8 ct \<noteq> 0" | "take_bit 8 ct = 0" "slot 0 ct \<noteq> 0"
      | "ct \<noteq> 0" "take_bit 8 ct = 0" "slot 0 ct = 0" by blast
    then show ?thesis
    proof cases
      case 4
      note t = b [OF 4(2,3)]
      have "?s 1 = Some (case target ct of None \<Rightarrow> T1 | Some (l, j) \<Rightarrow> move_list T1 l j)"
      proof (cases "slot 1 ct = 0")
        case True
        note t2 = b2 [OF t True]
        show ?thesis
        proof (cases "slot 2 ct = 0")
          case False
          then show ?thesis unfolding s1 [OF t] s2 [OF t2] target_def using 4 True by simp
        next
          case z: True
          then show ?thesis
            unfolding s1 [OF t] s2 [OF t2] s3 [OF b3 [OF t2 z] 4(1)] target_def using 4 True by simp
        qed
      next
        case False
        then show ?thesis unfolding s1 [OF t] target_def using 4 by simp
      qed
      then show ?thesis unfolding s0 using 4 by simp
    qed (auto simp: s0 target_def)
  qed
  finally show ?thesis unfolding Let_def ct_def T1_def .
qed

lemma target_SomeD:
  assumes "target ct = Some (l, j)"
  shows "l < 4" "j < 64" "take_bit (shift l) ct = 0" "slot l ct = j" "j = 0 \<Longrightarrow> l = 3"
proof -
  have up: "take_bit (shift (Suc i)) ct = 0" if "take_bit (shift i) ct = 0" "slot i ct = 0" for i
    using that by (simp add: take_bit_level_Suc)
  have *: "shift 0 = 8" by (simp add: shift_def)
  have "l < 4 \<and> take_bit (shift l) ct = 0 \<and> slot l ct = j \<and> (j = 0 \<longrightarrow> l = 3)"
    using assms up [of 0] up [of 1] up [of 2]
    by (auto simp: target_def * slot_def numeral_2_eq_2 numeral_3_eq_3 split: if_splits)
  then show "l < 4" "take_bit (shift l) ct = 0" "slot l ct = j" "j = 0 \<Longrightarrow> l = 3" by auto
  then show "j < 64" using slot_less by blast
qed






lemma near_in_pend: "x \<in> set (near T ! i) \<Longrightarrow> i < length (near T) \<Longrightarrow> x \<in># pend T"
  by (auto simp: pend_def in_set_conv_nth) (metis nth_mem)

lemma level_in_pend:
  "x \<in> set (lv T ! l ! j) \<Longrightarrow> l < length (lv T) \<Longrightarrow> j < length (lv T ! l) \<Longrightarrow> x \<in># pend T"
  by (auto simp: pend_def) (meson nth_mem)




section \<open>Ticks\<close>

text \<open>A callback that leaves the wheel alone.\<close>

definition quiet :: "callback \<Rightarrow> bool" where
  "quiet run \<longleftrightarrow> (\<forall>f x T. run f x T = Some T)"

abbreviation live :: "s_timer \<Rightarrow> addr \<Rightarrow> bool" where
  "live T x \<equiv> tn_cancel (nodes T x) = 0"

definition dispatched :: "addr list \<Rightarrow> s_timer \<Rightarrow> s_timer" where
  "dispatched xs T = T\<lparr>fired := fired T @ filter (live T) xs, freed := freed T @ xs\<rparr>"

lemma dispatch_list_quiet: "quiet run \<Longrightarrow> dispatch_list run xs T = Some (dispatched xs T)"
  by (induction xs arbitrary: T) (auto simp: quiet_def dispatched_def)

abbreviation cur_slot :: "s_timer \<Rightarrow> nat" where
  "cur_slot T \<equiv> unat (take_bit 8 (tw_time T))"

lemma timer_execute_quiet:
  assumes "quiet run" "dims T" "tw_lock T = 1"
  shows "timer_execute run T =
    Some (dispatched (near T ! cur_slot T) (T\<lparr>near := (near T)[cur_slot T := []]\<rparr>))"
proof -
  let ?i = "cur_slot T"
  have i: "?i < length (near T)" using assms(2) near_slot_less by (simp add: dims_def)
  have empty: "timer_execute_loop run ?i U = Some U" if "near U ! ?i = []" for U
    using that by (subst timer_execute_loop.simps) simp
  show ?thesis
  proof (cases "near T ! ?i = []")
    case True
    then have "(near T)[?i := []] = near T" by (metis list_update_id)
    then show ?thesis
      using True empty [of T] by (simp add: timer_execute_def and_near_mask dispatched_def)
  next
    case False
    have "timer_execute_loop run ?i (dispatched (near T ! ?i) (T\<lparr>near := (near T)[?i := []]\<rparr>)) =
        Some (dispatched (near T ! ?i) (T\<lparr>near := (near T)[?i := []]\<rparr>))"
      using i by (intro empty) (simp add: dispatched_def)
    moreover have lk: "T\<lparr>near := ns, fired := fs, freed := ds, tw_lock := 1\<rparr> = T\<lparr>near := ns, fired := fs, freed := ds\<rparr>"
      for ns fs ds using assms(3) by (cases T) simp
    ultimately show ?thesis
      using False assms
      by (subst timer_execute_def, subst timer_execute_loop.simps)
        (simp add: and_near_mask link_clear_def dispatch_list_quiet spinlock_unlock_def spinlock_lock_def
          test_and_set_def dispatched_def lk)
  qed
qed











lemma unlock_simps [simp]:
  "wheel_ok (spinlock_unlock T) = wheel_ok T" "pend (spinlock_unlock T) = pend T"
  by (simp_all add: spinlock_unlock_def wheel_ok_def dims_def pend_def)






section \<open>Adding, cancelling and clearing\<close>

lemma concat_replicate_Nil [simp]: "concat (replicate n []) = []"
  by (induction n) auto

lemma wheel_ok_nodes:
  assumes "wheel_ok T" "node \<notin># pend T"
  shows "wheel_ok (T\<lparr>nodes := (nodes T)(node := n)\<rparr>)"
proof -
  have d: "dims T" using assms(1) by (simp add: wheel_ok_def)
  have "node \<notin> set (near T ! i)" if "i < 256" for i
    using that assms(2) d near_in_pend [of node T i] by (auto simp: dims_def)
  moreover have "node \<notin> set (lv T ! l ! j)" if "l < 4" "j < 64" for l j
    using that assms(2) d level_in_pend [of node T l j] by (auto simp: dims_def)
  ultimately show ?thesis using assms(1) unfolding wheel_ok_def dims_def by auto
qed

lemma add_timer_ok:
  fixes time :: int
  defines "e T \<equiv> word_of_int time + tw_time T"
  assumes T: "wheel_ok T" "tw_lock T = 0" and t: "0 < time" and x: "node \<notin># pend T"
    and f: "fits (tw_time T) (e T)"
  shows "\<exists>T'. add_timer run node T time func threadid = Some (Some node, T') \<and> wheel_ok T'
    \<and> pend T' = add_mset node (pend T) \<and> tn_expire (nodes T' node) = e T
    \<and> tn_callback (nodes T' node) = func \<and> tn_id (nodes T' node) = threadid
    \<and> (\<forall>y. y \<noteq> node \<longrightarrow> nodes T' y = nodes T y)
    \<and> tw_time T' = tw_time T \<and> tw_lock T' = 0 \<and> fired T' = fired T \<and> freed T' = freed T
    \<and> tw_current_point T' = tw_current_point T"
proof -
  define n where "n = (nodes T node)\<lparr>tn_expire := e T, tn_callback := func, tn_id := threadid\<rparr>"
  define U where "U = T\<lparr>tw_lock := 1, nodes := (nodes T)(node := n)\<rparr>"
  have "wheel_ok (T\<lparr>nodes := (nodes T)(node := n)\<rparr>)" by (rule wheel_ok_nodes [OF T(1) x])
  then have "wheel_ok U" by (simp add: wheel_ok_def dims_def U_def)
  moreover have "fits (tw_time U) (exp_of U node)" using f by (simp add: U_def n_def)
  ultimately have a: "wheel_ok (add_node U node)" "pend (add_node U node) = add_mset node (pend U)"
    "same_env U (add_node U node)" by (rule add_node_ok)+
  have pU: "pend U = pend T" by (simp add: pend_def U_def)
  have r: "add_timer run node T time func threadid = Some (Some node, spinlock_unlock (add_node U node))"
    using T(2) t by (simp add: add_timer_def spinlock_lock_def test_and_set_def Let_def U_def n_def e_def)
  show ?thesis
    unfolding r using a pU
    by (auto simp: same_env_def U_def n_def spinlock_unlock_def wheel_ok_def dims_def pend_def)
qed

text \<open>
  Filing a timer. On a well-formed wheel whose lock is free, \<open>add_timer\<close> with a
  positive delay returns the node, keeps the wheel well formed, files the node exactly once with
  the expiry \<open>time + T->time\<close>, and releases the lock, provided the expiry lands in a slot that
  the cascade visits (\<open>fits\<close>).
\<close>

theorem wheel_add_timer_files:
  fixes time :: int
  assumes "wheel_ok T" "tw_lock T = 0" "0 < time" "node \<notin># pend T"
    and "fits (tw_time T) (word_of_int time + tw_time T)"
  shows "\<exists>T'. add_timer run node T time func threadid = Some (Some node, T') \<and> wheel_ok T'
    \<and> pend T' = add_mset node (pend T)
    \<and> tn_expire (nodes T' node) = word_of_int time + tw_time T
    \<and> tn_callback (nodes T' node) = func \<and> tn_id (nodes T' node) = threadid
    \<and> tw_time T' = tw_time T \<and> tw_lock T' = 0 \<and> fired T' = fired T \<and> freed T' = freed T"
  using add_timer_ok [OF assms, of run func threadid] by blast

lemma init_timer_ok:
  "wheel_ok (init_timer mem cp)" "tw_lock (init_timer mem cp) = 0" "pend (init_timer mem cp) = {#}"
  "tw_time (init_timer mem cp) = 0" "nodes (init_timer mem cp) = mem" "fired (init_timer mem cp) = []"
  "freed (init_timer mem cp) = []" "tw_current_point (init_timer mem cp) = cp"
  by (simp_all add: init_timer_def timer_create_timer_def wheel_ok_def dims_def pend_def)

definition blank_node :: timer_node where
  "blank_node = \<lparr>tn_expire = 0, tn_callback = 0, tn_cancel = 0, tn_id = 0\<rparr>"

definition demo_wheel :: s_timer where
  "demo_wheel = init_timer (\<lambda>_. blank_node) 7000"

lemma demo_wheel_simps [simp]:
  "wheel_ok demo_wheel" "tw_lock demo_wheel = 0" "pend demo_wheel = {#}" "tw_time demo_wheel = 0"
  "nodes demo_wheel = (\<lambda>_. blank_node)" "fired demo_wheel = []" "freed demo_wheel = []"
  "tw_current_point demo_wheel = 7000"
  by (simp_all add: demo_wheel_def init_timer_ok)

lemma fits_300: "fits 0 300"
  by (simp add: fits_def level_def slot_nat shift_def)

theorem wheel_add_timer_files_witness:
  "\<exists>T'. add_timer (\<lambda>_ _. Some) 1 demo_wheel 300 5 2 = Some (Some 1, T') \<and> wheel_ok T'
    \<and> pend T' = {#1#} \<and> tn_expire (nodes T' 1) = 300"
  using wheel_add_timer_files [of demo_wheel 300 1 "\<lambda>_ _. Some" 5 2] fits_300 by auto

text \<open>
  A delay that is not positive: the callback runs at once, with the lock released, the node
  is freed, nothing is filed and \<open>NULL\<close> is returned; with the lock held, \<open>add_timer\<close>
  spins forever whatever the delay.
\<close>

theorem wheel_add_timer_immediate:
  assumes "quiet run"
  shows "(time \<le> 0 \<and> tw_lock T = 0 \<longrightarrow>
     (\<exists>T'. add_timer run node T time func threadid = Some (None, T') \<and> fired T' = fired T @ [node]
        \<and> freed T' = freed T @ [node] \<and> near T' = near T \<and> lv T' = lv T \<and> tw_lock T' = 0))
   \<and> (tw_lock T \<noteq> 0 \<longrightarrow> add_timer run node T time func threadid = None)"
  using assms
  by (simp add: add_timer_def spinlock_lock_def test_and_set_def quiet_def spinlock_unlock_def Let_def)

theorem wheel_add_timer_immediate_witness:
  "(\<exists>T'. add_timer (\<lambda>_ _. Some) 9 demo_wheel (-5) 5 2 = Some (None, T') \<and> fired T' = [9])
   \<and> add_timer (\<lambda>_ _. Some) 9 (demo_wheel\<lparr>tw_lock := 1\<rparr>) 3 5 2 = None"
  using wheel_add_timer_immediate [of "\<lambda>_ _. Some" "-5" demo_wheel 9 5 2]
    wheel_add_timer_immediate [of "\<lambda>_ _. Some" 3 "demo_wheel\<lparr>tw_lock := 1\<rparr>" 9 5 2]
  by (auto simp: quiet_def)

section \<open>The main property\<close>



text \<open>A wheel with three timers, the second of them cancelled.\<close>

definition demo_nodes :: "addr \<Rightarrow> timer_node" where
  "demo_nodes = (\<lambda>_. blank_node)(1 := blank_node\<lparr>tn_expire := 3\<rparr>,
     2 := blank_node\<lparr>tn_expire := 7, tn_cancel := 1\<rparr>, 3 := blank_node\<lparr>tn_expire := 300\<rparr>)"

definition demo_wheel3 :: s_timer where
  "demo_wheel3 = add_node (add_node (add_node (demo_wheel\<lparr>nodes := demo_nodes\<rparr>) 1) 2) 3"

lemma demo_wheel3_ok:
  "wheel_ok demo_wheel3" "pend demo_wheel3 = {#1, 2, 3#}" "same_env (demo_wheel\<lparr>nodes := demo_nodes\<rparr>) demo_wheel3"
proof -
  let ?W = "demo_wheel\<lparr>nodes := demo_nodes\<rparr>"
  have w: "wheel_ok ?W" "pend ?W = {#}"
    by (simp_all add: demo_wheel_def init_timer_def timer_create_timer_def wheel_ok_def dims_def pend_def)
  have "fits 0 3" "fits 0 7" by (simp_all add: fits_def)
  then have "fits (tw_time ?W) (exp_of ?W x)" if "x \<in> set [1, 2, 3]" for x
    using that fits_300 by (auto simp: demo_nodes_def)
  from move_nodes_ok [OF w(1) this, of "[1, 2, 3]"] w(2)
  show "wheel_ok demo_wheel3" "pend demo_wheel3 = {#1, 2, 3#}" "same_env ?W demo_wheel3"
    by (simp_all add: demo_wheel3_def)
qed



section \<open>Lost timers\<close>

text \<open>What keeps the single copy of \<open>x\<close> in slot 0 of the level \<open>l\<close>.\<close>

definition stuck :: "nat \<Rightarrow> addr \<Rightarrow> s_timer \<Rightarrow> bool" where
  "stuck l x T \<longleftrightarrow> dims T \<and> x \<in> set (lv T ! l ! 0) \<and> count (pend T) x = 1 \<and> x \<notin> set (fired T)"

lemma add_node_dims: "dims T \<Longrightarrow> dims (add_node T x)"
  by (simp add: add_node_eq Let_def)

lemma add_node_pend:
  assumes "dims T"
  shows "pend (add_node T x) = add_mset x (pend T)"
  using assms level_bounds [OF _ unat_less_32, of "exp_of T x - tw_time T"] slot_less near_slot_less
  by (auto simp: add_node_eq Let_def pend_link_near pend_link_level not_less)

lemma add_node_env: "same_env T (add_node T x)"
  by (simp add: add_node_eq Let_def)

lemma move_nodes_env: "same_env T (move_nodes T xs)"
  by (induction xs arbitrary: T) (auto simp: same_env_def [of T T for T] intro: same_env_trans add_node_env)

lemma add_node_lv: "x \<in> set (lv T ! l ! j) \<Longrightarrow> x \<in> set (lv (add_node T y) ! l ! j)"
  by (auto simp: add_node_eq Let_def link_near_def link_level_def link_def nth_list_update')

lemma stuck_add_node: "stuck l x T \<Longrightarrow> y \<noteq> x \<Longrightarrow> stuck l x (add_node T y)"
  using add_node_pend [of T y] add_node_dims [of T y] add_node_lv [of x T l 0 y] add_node_env [of T y]
  by (simp add: stuck_def same_env_def)

lemma stuck_move_nodes: "stuck l x T \<Longrightarrow> x \<notin> set xs \<Longrightarrow> stuck l x (move_nodes T xs)"
  by (induction xs arbitrary: T) (auto simp: stuck_add_node)

lemma single_occurrence:
  assumes "A + mset ys = B" "count B x = 1" "x \<in># A"
  shows "count A x = 1" "x \<notin> set ys"
proof -
  have c: "count A x + count (mset ys) x = 1" using assms(1,2) by (metis count_union)
  have "count A x \<noteq> 0" using assms(3) by simp
  then show "count A x = 1" using c by linarith
  then have "count (mset ys) x = 0" using c by linarith
  then show "x \<notin> set ys" by (simp only: count_eq_zero_iff set_mset_mset not_False_eq_True)
qed

lemma stuck_move_list:
  assumes s: "stuck l x T" and ij: "i < 4" "j < 64" "(i, j) \<noteq> (l, 0)" and l: "l < 4"
  shows "stuck l x (move_list T i j)"
proof -
  define U where "U = T\<lparr>lv := (lv T)[i := (lv T ! i)[j := []]]\<rparr>"
  have d: "dims U" using s by (auto simp: stuck_def U_def dims_def nth_list_update')
  have x: "x \<in> set (lv U ! l ! 0)"
    using s ij l by (auto simp: stuck_def U_def dims_def nth_list_update')
  have e: "pend U + mset (lv T ! i ! j) = pend T"
    using mset_levels_update [of T i j "[]"] s ij by (simp add: stuck_def pend_def U_def)
  have "x \<in># pend U" using level_in_pend [OF x] d l by (metis dims_def zero_less_numeral)
  then have "count (pend U) x = 1" "x \<notin> set (lv T ! i ! j)"
    using s single_occurrence [OF e] by (simp_all add: stuck_def)
  then show ?thesis
    using stuck_move_nodes [of l x U] d x s by (simp add: move_list_def link_clear_def U_def stuck_def)
qed

lemma stuck_timer_shift:
  assumes s: "stuck l x T" and l: "l < 3"
  shows "\<exists>T'. timer_shift T = Some T' \<and> stuck l x T' \<and> tw_lock T' = tw_lock T"
proof -
  define T1 where "T1 = T\<lparr>tw_time := tw_time T + 1\<rparr>"
  have s1: "stuck l x T1" using s by (simp add: T1_def stuck_def dims_def pend_def)
  have eq: "timer_shift T =
      Some (case target (tw_time T + 1) of None \<Rightarrow> T1 | Some (l, j) \<Rightarrow> move_list T1 l j)"
    by (simp only: timer_shift_eq T1_def Let_def)
  show ?thesis
  proof (cases "target (tw_time T + 1)")
    case None
    then show ?thesis using eq s1 by (simp add: T1_def)
  next
    case (Some p)
    then obtain i j where t: "target (tw_time T + 1) = Some (i, j)" by (cases p) auto
    have "(i, j) \<noteq> (l, 0)" using target_SomeD(5) [OF t] l by auto
    then have "stuck l x (move_list T1 i j)"
      using stuck_move_list [OF s1] target_SomeD(1,2) [OF t] l by simp
    moreover have "tw_lock (move_list T1 i j) = tw_lock T"
      using move_nodes_env by (simp add: move_list_def link_clear_def T1_def same_env_def)
    ultimately show ?thesis using eq t by simp
  qed
qed

lemma stuck_timer_execute:
  assumes q: "quiet run" and s: "stuck l x T" and k: "tw_lock T = 1" and l: "l < 4"
  shows "\<exists>T'. timer_execute run T = Some T' \<and> stuck l x T' \<and> tw_lock T' = 1"
proof -
  let ?i = "cur_slot T"
  define U where "U = T\<lparr>near := (near T)[?i := []]\<rparr>"
  have d: "dims T" "dims U" using s by (auto simp: stuck_def U_def dims_def)
  have e: "pend U + mset (near T ! ?i) = pend T"
    using mset_concat_update [of ?i "near T" "[]"] d(1) near_slot_less
    by (simp add: pend_def U_def dims_def ac_simps)
  have "x \<in> set (lv U ! l ! 0)" using s by (simp add: stuck_def U_def)
  then have "x \<in># pend U" using level_in_pend [of x U l 0] d(2) l by (metis dims_def zero_less_numeral)
  then have "count (pend U) x = 1" "x \<notin> set (near T ! ?i)"
    using s single_occurrence [OF e] by (simp_all add: stuck_def)
  then have "stuck l x (dispatched (near T ! ?i) U)"
    using s d(2) by (auto simp: stuck_def dispatched_def U_def dims_def pend_def)
  then show ?thesis
    using timer_execute_quiet [OF q d(1) k] k by (simp add: U_def dispatched_def)
qed

lemma stuck_lock [simp]: "stuck l x (T\<lparr>tw_lock := v\<rparr>) = stuck l x T"
  by (simp add: stuck_def dims_def pend_def)

lemma stuck_timer_update:
  assumes q: "quiet run" and s: "stuck l x T" and k: "tw_lock T = 0" and l: "l < 3"
  shows "\<exists>T'. timer_update run T = Some T' \<and> stuck l x T' \<and> tw_lock T' = 0"
proof -
  have s1: "stuck l x (T\<lparr>tw_lock := 1\<rparr>)" using s by simp
  obtain U where U: "timer_execute run (T\<lparr>tw_lock := 1\<rparr>) = Some U" "stuck l x U" "tw_lock U = 1"
    using stuck_timer_execute [OF q s1] l by auto
  obtain V where V: "timer_shift U = Some V" "stuck l x V" "tw_lock V = 1"
    using stuck_timer_shift [OF U(2) l] U(3) by auto
  obtain W where W: "timer_execute run V = Some W" "stuck l x W"
    using stuck_timer_execute [OF q V(2,3)] l by auto
  show ?thesis
    using k U(1) V(1) W
    by (simp add: timer_update_def spinlock_lock_def test_and_set_def spinlock_unlock_def)
qed

text \<open>
  A timer filed in slot 0 of one of the three lower levels is lost: the cascade only drains
  slot \<open>idx\<close> when \<open>idx\<close> is not 0 (and slot 0 of the top level), so the node stays in
  that slot and its callback is not called, however many ticks pass, its expiry included.
\<close>

theorem wheel_slot_0_is_never_drained:
  assumes "quiet run" "dims T" "tw_lock T = 0" "l < 3" "x \<in> set (lv T ! l ! 0)"
    and "count (pend T) x = 1" "x \<notin> set (fired T)"
  shows "\<exists>T'. update_ticks run n T = Some T' \<and> x \<in> set (lv T' ! l ! 0) \<and> x \<notin> set (fired T')"
proof -
  have "stuck l x T" using assms by (simp add: stuck_def)
  then have "\<exists>T'. update_ticks run n T = Some T' \<and> stuck l x T'"
    using assms(3)
  proof (induction n arbitrary: T)
    case (Suc n)
    obtain U where "timer_update run T = Some U" "stuck l x U" "tw_lock U = 0"
      using stuck_timer_update [OF assms(1) Suc.prems assms(4)] by blast
    then show ?case using Suc.IH by simp
  qed simp
  then show ?thesis by (auto simp: stuck_def)
qed

text \<open>At time 100, a delay of 16300 ms goes to slot 0 of the first level.\<close>

theorem wheel_slot_0_is_never_drained_witness:
  "\<exists>T. add_timer (\<lambda>_ _. Some) 1 (demo_wheel\<lparr>tw_time := 100\<rparr>) 16300 5 2 = Some (Some 1, T)
     \<and> (\<forall>n. \<exists>T'. update_ticks (\<lambda>_ _. Some) n T = Some T' \<and> 1 \<in> set (lv T' ! 0 ! 0) \<and> 1 \<notin> set (fired T'))"
proof -
  let ?n = "(\<lambda>_. blank_node)(1 := blank_node\<lparr>tn_expire := 16400, tn_callback := 5, tn_id := 2\<rparr>)"
  let ?W = "demo_wheel\<lparr>tw_time := 100, nodes := ?n\<rparr>"
  let ?V = "demo_wheel\<lparr>tw_time := 100, tw_lock := 1, nodes := ?n\<rparr>"
  have lk: "demo_wheel\<lparr>tw_time := t, nodes := m, lv := L, tw_lock := 0\<rparr> = demo_wheel\<lparr>tw_time := t, nodes := m, lv := L\<rparr>"
    for t m L using demo_wheel_simps(2) by (cases demo_wheel) simp
  let ?T = "add_node ?W 1"
  have lvl: "level 16300 = 0" "slot 0 16400 = 0" by (simp_all add: level_def slot_nat shift_def)
  have W: "dims ?W" "pend ?W = {#}" "lv ?W = replicate 4 (replicate 64 [])" "tw_lock ?W = 0"
    by (simp_all add: demo_wheel_def init_timer_def timer_create_timer_def dims_def pend_def)
  have T: "lv ?T ! 0 ! 0 = [1]"
    using W(3) lvl by (simp add: add_node_eq Let_def link_level_def link_def)
  have "add_timer (\<lambda>_ _. Some) 1 (demo_wheel\<lparr>tw_time := 100\<rparr>) 16300 5 2 =
      Some (Some 1, spinlock_unlock (add_node ?V 1))"
    by (simp add: add_timer_def spinlock_lock_def test_and_set_def)
  moreover have "spinlock_unlock (add_node ?V 1) = ?T"
    using lvl lk by (simp add: add_node_eq Let_def link_level_def spinlock_unlock_def)
  moreover have "\<exists>T'. update_ticks (\<lambda>_ _. Some) n ?T = Some T' \<and> 1 \<in> set (lv T' ! 0 ! 0) \<and> 1 \<notin> set (fired T')" for n
    using T W add_node_dims [OF W(1)] add_node_pend [OF W(1), of 1] add_node_env [of ?W 1]
    by (intro wheel_slot_0_is_never_drained) (simp_all add: quiet_def same_env_def)
  ultimately show ?thesis by metis
qed


section \<open>The linked lists of the slots\<close>

text \<open>
  A \<open>link_list_t\<close> is the address of its head node and its tail pointer; the \<open>next\<close>
  fields are a store, 0 is \<open>NULL\<close>.
\<close>

record link_list =
  ll_head :: addr
  ll_tail :: addr

definition link_clear_ptr :: "link_list \<Rightarrow> (addr \<Rightarrow> addr) \<Rightarrow> addr \<times> link_list \<times> (addr \<Rightarrow> addr)" where
  "link_clear_ptr list nxt = (nxt (ll_head list), list\<lparr>ll_tail := ll_head list\<rparr>, nxt(ll_head list := 0))"

definition link_ptr :: "link_list \<Rightarrow> addr \<Rightarrow> (addr \<Rightarrow> addr) \<Rightarrow> link_list \<times> (addr \<Rightarrow> addr)" where
  "link_ptr list node nxt =
     (let nxt = nxt(ll_tail list := node);
          list = list\<lparr>ll_tail := node\<rparr>
      in (list, nxt(node := 0)))"

text \<open>The nodes met from \<open>p\<close> on are \<open>xs\<close>.\<close>

fun chain :: "(addr \<Rightarrow> addr) \<Rightarrow> addr \<Rightarrow> addr list \<Rightarrow> bool" where
  "chain nxt p [] \<longleftrightarrow> p = 0"
| "chain nxt p (x # xs) \<longleftrightarrow> p = x \<and> x \<noteq> 0 \<and> chain nxt (nxt x) xs"

definition list_is :: "link_list \<Rightarrow> (addr \<Rightarrow> addr) \<Rightarrow> addr list \<Rightarrow> bool" where
  "list_is list nxt xs \<longleftrightarrow> chain nxt (nxt (ll_head list)) xs
     \<and> ll_tail list = last (ll_head list # xs) \<and> distinct (ll_head list # xs)"

lemma chain_frame: "\<forall>x \<in> set xs. nxt' x = nxt x \<Longrightarrow> chain nxt' p xs = chain nxt p xs"
  by (induction xs arbitrary: p) auto

lemma chain_append:
  assumes "chain nxt (nxt h) xs" "distinct (h # xs)" "n \<notin> set (h # xs)" "n \<noteq> 0"
  shows "chain (nxt(last (h # xs) := n, n := 0)) ((nxt(last (h # xs) := n, n := 0)) h) (xs @ [n])"
  using assms
proof (induction xs arbitrary: h)
  case (Cons x xs)
  define N where "N = nxt(last (x # xs) := n, n := 0)"
  have "chain N (N x) (xs @ [n])" unfolding N_def using Cons.prems by (intro Cons.IH) auto
  moreover have "N h = nxt h" using Cons.prems by (auto simp: N_def split: if_splits)
  ultimately have "chain N (N h) (x # xs @ [n])" using Cons.prems by simp
  moreover have e: "nxt(last (h # x # xs) := n, n := 0) = N" by (simp add: N_def)
  ultimately show ?case unfolding e by simp
qed simp

text \<open>
  The tail-pointer lists implement the slots of the wheel: \<open>link\<close> appends the node, and
  \<open>link_clear\<close> leaves an empty list and returns a pointer from which the \<open>next\<close> fields
  still run through all the nodes, in order.
\<close>

theorem link_list_refines:
  assumes l: "list_is list nxt xs" and n: "node \<noteq> 0" "node \<notin> set (ll_head list # xs)"
  shows "(case link_ptr list node nxt of (list', nxt') \<Rightarrow> list_is list' nxt' (link xs node))
    \<and> (case link_clear_ptr list nxt of (p, list', nxt') \<Rightarrow>
         chain nxt' p (fst (link_clear xs)) \<and> list_is list' nxt' (snd (link_clear xs)))"
proof -
  let ?h = "ll_head list"
  have a: "chain nxt (nxt ?h) xs" "distinct (?h # xs)" "ll_tail list = last (?h # xs)"
    using l by (simp_all add: list_is_def)
  have "list_is (list\<lparr>ll_tail := node\<rparr>) (nxt(ll_tail list := node, node := 0)) (xs @ [node])"
    using chain_append [OF a(1,2) n(2,1)] a n by (simp add: list_is_def)
  moreover have "chain (nxt(?h := 0)) (nxt ?h) xs"
    using a chain_frame [of xs "nxt(?h := 0)" nxt] by fastforce
  ultimately show ?thesis
    unfolding link_ptr_def link_clear_ptr_def Let_def link_def link_clear_def prod.case fst_conv snd_conv
    by (simp add: list_is_def [of "_\<lparr>ll_tail := ll_head list\<rparr>"])
qed

theorem link_list_refines_witness:
  "list_is \<lparr>ll_head = 9, ll_tail = 4\<rparr> ((\<lambda>_. 0)(9 := 3, 3 := 4)) [3, 4]
   \<and> (case link_ptr \<lparr>ll_head = 9, ll_tail = 4\<rparr> 5 ((\<lambda>_. 0)(9 := 3, 3 := 4)) of
        (list', nxt') \<Rightarrow> list_is list' nxt' [3, 4, 5])"
proof -
  have 1: "list_is \<lparr>ll_head = 9, ll_tail = 4\<rparr> ((\<lambda>_. 0)(9 := 3, 3 := 4)) [3, 4]"
    by (simp add: list_is_def)
  then show ?thesis using link_list_refines [OF 1, of 5] by (simp add: link_def)
qed

section \<open>Cancelling and clearing\<close>

text \<open>
  Tearing the wheel down: \<open>clear_timer\<close> frees every pending node exactly once, calls no
  callback and leaves a wheel with nothing pending.
\<close>

theorem wheel_clear_timer_frees_all:
  "mset (freed (clear_timer T)) = mset (freed T) + pend T \<and> pend (clear_timer T) = {#}
   \<and> fired (clear_timer T) = fired T \<and> (dims T \<longrightarrow> wheel_ok (clear_timer T))"
proof -
  have "concat (map (\<lambda>xs. []) ys) = []" for ys :: "addr list list" by (induction ys) auto
  moreover have "concat (concat (map (map (\<lambda>xs. [])) ys)) = []" for ys :: "addr list list list"
    by (induction ys) (auto simp: calculation)
  ultimately show ?thesis
    by (simp add: clear_timer_def link_clear_def pend_def wheel_ok_def dims_def)
qed

theorem wheel_clear_timer_frees_all_witness:
  "mset (freed (clear_timer demo_wheel3)) = {#1, 2, 3#} \<and> wheel_ok (clear_timer demo_wheel3)"
proof -
  have "freed demo_wheel3 = []" "dims demo_wheel3"
    using demo_wheel3_ok by (simp_all add: same_env_def wheel_ok_def)
  then show ?thesis
    using wheel_clear_timer_frees_all [of demo_wheel3] demo_wheel3_ok(2) by simp
qed

end
