(* ===== verification/BoundedFifo.thy ===== *)
theory BoundedFifo
  imports Prelude
begin

text \<open>
  The contract of a bounded first-in first-out queue, and what follows from it for any sequence
  of operations. The ring buffer of the thread pool provides it.
\<close>

locale bounded_fifo =
  fixes inv :: "'s \<Rightarrow> bool"
    and elems :: "'s \<Rightarrow> 'a list"
    and cap :: "'s \<Rightarrow> nat"
    and full :: "'s \<Rightarrow> bool"
    and none :: "'s \<Rightarrow> bool"
    and push :: "'a \<Rightarrow> 's \<Rightarrow> 's"
    and pop :: "'s \<Rightarrow> 'a \<times> 's"
  assumes full_iff: "inv s \<Longrightarrow> full s \<longleftrightarrow> length (elems s) = cap s"
    and none_iff: "inv s \<Longrightarrow> none s \<longleftrightarrow> elems s = []"
    and bounded: "inv s \<Longrightarrow> length (elems s) \<le> cap s"
    and push_ok: "inv s \<Longrightarrow> \<not> full s \<Longrightarrow> inv (push x s) \<and> elems (push x s) = elems s @ [x] \<and> cap (push x s) = cap s"
    and pop_ok: "inv s \<Longrightarrow> \<not> none s \<Longrightarrow> pop s = (x, s') \<Longrightarrow> inv s' \<and> elems s = x # elems s' \<and> cap s' = cap s"
begin

text \<open>A script of operations: \<open>Some x\<close> pushes \<open>x\<close> (refused when full), \<open>None\<close> pops (skipped when empty).\<close>

fun run :: "'a option list \<Rightarrow> 's \<Rightarrow> 'a list \<times> 'a list \<times> 's" where
  "run [] s = ([], [], s)"
| "run (Some x # ops) s =
     (if full s then run ops s
      else (case run ops (push x s) of (ins, outs, s') \<Rightarrow> (x # ins, outs, s')))"
| "run (None # ops) s =
     (if none s then run ops s
      else (case pop s of (x, t) \<Rightarrow> case run ops t of (ins, outs, s') \<Rightarrow> (ins, x # outs, s')))"

lemma run_fifo:
  assumes "inv s" "run ops s = (ins, outs, s')"
  shows "inv s' \<and> elems s @ ins = outs @ elems s' \<and> cap s' = cap s"
  using assms
proof (induction ops s arbitrary: ins outs rule: run.induct)
  case (1 s)
  then show ?case by simp
next
  case (2 x ops s)
  show ?case
  proof (cases "full s")
    case True
    then show ?thesis using 2 by simp
  next
    case False
    obtain i where i: "run ops (push x s) = (i, outs, s')" "ins = x # i"
      using False 2(4) by (auto split: prod.splits)
    note p = push_ok [OF 2(3) False, of x]
    have "inv s' \<and> elems (push x s) @ i = outs @ elems s' \<and> cap s' = cap (push x s)"
      using 2(2) [OF False _ i(1)] p by blast
    then show ?thesis using p i(2) by simp
  qed
next
  case (3 ops s)
  show ?case
  proof (cases "none s")
    case True
    then show ?thesis using 3 by simp
  next
    case False
    obtain x t where xt: "pop s = (x, t)" by (cases "pop s")
    obtain o' where o: "run ops t = (ins, o', s')" "outs = x # o'"
      using False 3(4) xt by (auto split: prod.splits)
    note p = pop_ok [OF 3(3) False xt]
    have "inv s' \<and> elems t @ ins = o' @ elems s' \<and> cap s' = cap t"
      using 3(2) [OF False xt [symmetric] _ o(1)] p by blast
    then show ?thesis using p o(2) by simp
  qed
qed

end

end
