(* ===== verification/ThreadPool.thy ===== *)
theory ThreadPool
  imports BoundedFifo
begin

text \<open>
  The thread pool, \<open>6.../thrd_pool.c\<close>: a ring buffer of tasks under a mutex and a condition
  variable, the calls of its interface, and the worker threads as a step relation.

  The results of the POSIX calls (\<open>pthread_mutex_lock\<close>, \<open>pthread_cond_signal\<close>, ...)
  and of \<open>malloc\<close> are arguments of the operations that make them. A mutex that the caller
  holds already is never obtained: the call does not return, \<^const>\<open>None\<close>.
\<close>

section \<open>Data\<close>

record task =
  tk_func :: nat
  tk_arg :: nat

record task_queue =
  tq_head :: uint32
  tq_tail :: uint32
  tq_count :: uint32
  tq_queue :: "task list"

record thread_pool =
  tp_mutex :: bool
  tp_threads :: "nat list"
  task_queue :: task_queue
  closed :: int
  started :: int
  thrd_count :: int
  queue_size :: int

section \<open>The interface\<close>

text \<open>
  \<open>junk\<close> is what the fresh arrays hold, \<open>m1\<close>, \<open>m2\<close>, \<open>m3\<close> whether the three
  \<open>malloc\<close> calls succeed and \<open>rcs\<close> the results of \<open>pthread_create\<close> (thread
  \<open>i\<close> gets the identity \<open>i\<close>).
\<close>

fun create_threads :: "(nat \<Rightarrow> int) \<Rightarrow> nat \<Rightarrow> nat \<Rightarrow> thread_pool \<Rightarrow> thread_pool option" where
  "create_threads rcs i 0 pool = Some pool"
| "create_threads rcs i (Suc n) pool =
     (if rcs i \<noteq> 0 then None
      else create_threads rcs (i + 1) n
        (pool\<lparr>tp_threads := (tp_threads pool)[i := i], thrd_count := thrd_count pool + 1,
           started := started pool + 1\<rparr>))"

definition thread_pool_create ::
    "bool \<Rightarrow> bool \<Rightarrow> bool \<Rightarrow> task \<Rightarrow> (nat \<Rightarrow> int) \<Rightarrow> int \<Rightarrow> int \<Rightarrow> thread_pool option" where
  "thread_pool_create m1 m2 m3 junk rcs thrds qsize =
     (if thrds \<le> 0 \<or> qsize \<le> 0 then None
      else if \<not> m1 then None
      else if \<not> m2 then None
      else if \<not> m3 then None
      else create_threads rcs 0 (nat thrds)
        \<lparr>tp_mutex = False, tp_threads = replicate (nat thrds) 0,
         task_queue = \<lparr>tq_head = 0, tq_tail = 0, tq_count = 0, tq_queue = replicate (nat qsize) junk\<rparr>,
         closed = 0, started = 0, thrd_count = 0, queue_size = qsize\<rparr>)"

text \<open>The write at the tail and the read at the head of the ring.\<close>

definition queue_put :: "int \<Rightarrow> task \<Rightarrow> task_queue \<Rightarrow> task_queue" where
  "queue_put qsize t q =
     q\<lparr>tq_queue := (tq_queue q)[unat (tq_tail q) := t],
       tq_tail := (tq_tail q + 1) mod word_of_int qsize,
       tq_count := tq_count q + 1\<rparr>"

definition queue_take :: "int \<Rightarrow> task_queue \<Rightarrow> task \<times> task_queue" where
  "queue_take qsize q =
     (tq_queue q ! unat (tq_head q),
      q\<lparr>tq_head := (tq_head q + 1) mod word_of_int qsize, tq_count := tq_count q - 1\<rparr>)"

text \<open>
  A null pool and a null function are the arguments \<^const>\<open>None\<close>; \<open>lock_rc\<close> and
  \<open>signal_rc\<close> are the results of the two POSIX calls.
\<close>

definition thread_pool_post ::
    "int \<Rightarrow> int \<Rightarrow> thread_pool option \<Rightarrow> nat option \<Rightarrow> nat \<Rightarrow> int \<times> thread_pool option" where
  "thread_pool_post lock_rc signal_rc pool func arg =
     (case (pool, func) of
        (Some p, Some f) \<Rightarrow>
          (if lock_rc \<noteq> 0 then (-2, pool)
           else if closed p \<noteq> 0 then (-3, pool)
           else if tq_count (task_queue p) = word_of_int (queue_size p) then (-4, pool)
           else (let p = p\<lparr>task_queue := queue_put (queue_size p) \<lparr>tk_func = f, tk_arg = arg\<rparr> (task_queue p)\<rparr>
                 in if signal_rc \<noteq> 0 then (-5, Some p) else (0, Some p)))
      | _ \<Rightarrow> (-1, pool))"

text \<open>
  \<open>thread_pool_free\<close>: \<open>Some None\<close> when the pool has been freed, \<open>Some (Some p)\<close> when
  it has not, \<open>None\<close> when \<open>pthread_mutex_lock\<close> never returns because the caller holds
  the mutex. (Its callers never pass a null pool.)
\<close>

definition thread_pool_free :: "thread_pool \<Rightarrow> thread_pool option option" where
  "thread_pool_free pool =
     (if started pool > 0 then Some (Some pool)
      else if tp_threads pool \<noteq> [] then (if tp_mutex pool then None else Some None)
      else Some None)"

fun wait_all_done_loop :: "(nat \<Rightarrow> int) \<Rightarrow> nat list \<Rightarrow> int \<Rightarrow> int" where
  "wait_all_done_loop rcs [] ret = ret"
| "wait_all_done_loop rcs (i # is) ret = wait_all_done_loop rcs is (if rcs i \<noteq> 0 then 1 else ret)"

definition wait_all_done :: "(nat \<Rightarrow> int) \<Rightarrow> thread_pool \<Rightarrow> int" where
  "wait_all_done rcs pool = wait_all_done_loop rcs [0..<nat (thrd_count pool)] 0"

text \<open>
  \<open>others\<close> is what the workers do to the pool between the broadcast and the return of
  \<open>wait_all_done\<close>.
\<close>

definition thread_pool_destroy ::
    "int \<Rightarrow> int \<Rightarrow> int \<Rightarrow> (thread_pool \<Rightarrow> thread_pool) \<Rightarrow> thread_pool option
     \<Rightarrow> (int \<times> thread_pool option) option" where
  "thread_pool_destroy lock_rc broadcast_rc unlock_rc others pool =
     (case pool of
        None \<Rightarrow> Some (-1, None)
      | Some p \<Rightarrow>
          if lock_rc \<noteq> 0 then Some (-2, Some p)
          else (let p = p\<lparr>tp_mutex := True\<rparr>
                in if closed p \<noteq> 0 then map_option (Pair (-3)) (thread_pool_free p)
                   else (let p = p\<lparr>closed := 1\<rparr>
                         in if broadcast_rc \<noteq> 0 then map_option (Pair (-4)) (thread_pool_free p)
                            else if unlock_rc \<noteq> 0 then map_option (Pair (-4)) (thread_pool_free p)
                            else map_option (Pair 0) (thread_pool_free (others (p\<lparr>tp_mutex := False\<rparr>))))))"

section \<open>The worker\<close>

text \<open>
  What a worker does from the moment it holds the mutex to the moment it gives it up: it goes to
  sleep on the condition, leaves the loop (the pool is closed), or takes a task.
\<close>

datatype section_end = Sleeps | Leaves | Takes task

definition thread_worker :: "thread_pool \<Rightarrow> section_end \<times> thread_pool" where
  "thread_worker pool =
     (if tq_count (task_queue pool) = 0 \<and> closed pool = 0 then (Sleeps, pool)
      else if closed pool = 1 then (Leaves, pool\<lparr>started := started pool - 1\<rparr>)
      else (case queue_take (queue_size pool) (task_queue pool) of
              (t, q) \<Rightarrow> (Takes t, pool\<lparr>task_queue := q\<rparr>)))"


section \<open>The ring buffer is a bounded queue\<close>

definition ring_ok :: "int \<Rightarrow> task_queue \<Rightarrow> bool" where
  "ring_ok n q \<longleftrightarrow> 0 < n \<and> n < 2 ^ 31 \<and> length (tq_queue q) = nat n \<and> unat (tq_head q) < nat n
     \<and> unat (tq_count q) \<le> nat n \<and> unat (tq_tail q) = (unat (tq_head q) + unat (tq_count q)) mod nat n"

definition queued :: "int \<Rightarrow> task_queue \<Rightarrow> task list" where
  "queued n q = map (\<lambda>i. tq_queue q ! ((unat (tq_head q) + i) mod nat n)) [0..<unat (tq_count q)]"

lemma unat_word_of_int: "0 < n \<Longrightarrow> n < 2 ^ 31 \<Longrightarrow> unat (word_of_int n :: uint32) = nat n"
  by (simp add: unat_eq_nat_uint uint_word_of_int)

lemma unat_Suc_small:
  fixes w :: uint32
  assumes "n < 2 ^ 31" "unat w < nat n"
  shows "unat (w + 1) = unat w + 1"
proof -
  have "nat n < 2 ^ 31" using assms(1) by simp
  then have "unat w + 1 < 2 ^ 32" using assms(2) by simp
  then show ?thesis by (simp add: unat_word_ariths)
qed

lemma unat_Suc_mod:
  fixes w :: uint32
  assumes "0 < n" "n < 2 ^ 31" "unat w < nat n"
  shows "unat ((w + 1) mod word_of_int n) = (unat w + 1) mod nat n"
  using assms by (simp add: unat_mod unat_word_of_int unat_Suc_small)

lemma ring_slot_fresh:
  assumes "i < c" "c < (n::nat)" "h < n"
  shows "(h + i) mod n \<noteq> (h + c) mod n"
proof
  assume "(h + i) mod n = (h + c) mod n"
  then have "n dvd (h + c) - (h + i)" by (metis add_le_cancel_left assms(1) less_imp_le mod_eq_dvd_iff_nat)
  then have "n \<le> c - i" using assms by (auto dest!: dvd_imp_le)
  then show False using assms by linarith
qed

lemma queue_put_ok:
  assumes r: "ring_ok n q" and c: "unat (tq_count q) < nat n"
  shows "ring_ok n (queue_put n t q)" "queued n (queue_put n t q) = queued n q @ [t]"
proof -
  let ?h = "unat (tq_head q)" and ?c = "unat (tq_count q)"
  have n: "0 < n" "n < 2 ^ 31" "?h < nat n" "length (tq_queue q) = nat n"
    and t: "unat (tq_tail q) = (?h + ?c) mod nat n" using r by (simp_all add: ring_ok_def)
  have tl: "unat (tq_tail q) < nat n" unfolding t using n by simp
  have c1: "unat (tq_count q + 1) = ?c + 1" using unat_Suc_small [OF n(2) c] .
  have "((?h + ?c) mod nat n + 1) mod nat n = (?h + (?c + 1)) mod nat n"
    by (simp add: mod_simps)
  then show "ring_ok n (queue_put n t q)"
    using n c c1 t unat_Suc_mod [OF n(1,2) tl] by (simp add: ring_ok_def queue_put_def)
  have "map (\<lambda>i. (tq_queue q)[(?h + ?c) mod nat n := t] ! ((?h + i) mod nat n)) [0..<?c] =
      map (\<lambda>i. tq_queue q ! ((?h + i) mod nat n)) [0..<?c]"
    using ring_slot_fresh [OF _ c n(3)] by (intro map_cong refl) (metis atLeastLessThan_iff atLeastLessThan_upt nth_list_update')
  then show "queued n (queue_put n t q) = queued n q @ [t]"
    using n c1 t by (simp add: queued_def queue_put_def)
qed

lemma queue_take_ok:
  assumes r: "ring_ok n q" and c: "tq_count q \<noteq> 0" and p: "queue_take n q = (t, q')"
  shows "ring_ok n q'" "queued n q = t # queued n q'"
proof -
  let ?h = "unat (tq_head q)" and ?c = "unat (tq_count q)"
  have n: "0 < n" "n < 2 ^ 31" "?h < nat n" "length (tq_queue q) = nat n" "?c \<le> nat n"
    and t: "unat (tq_tail q) = (?h + ?c) mod nat n" using r by (simp_all add: ring_ok_def)
  have c0: "?c \<noteq> 0" using c by (simp add: unat_eq_0)
  then obtain m where m: "?c = Suc m" by (cases ?c) auto
  have c1: "unat (tq_count q - 1) = m" using c m by (simp add: unat_minus_one)
  have q': "q' = q\<lparr>tq_head := (tq_head q + 1) mod word_of_int n, tq_count := tq_count q - 1\<rparr>"
    and tt: "t = tq_queue q ! ?h" using p by (auto simp: queue_take_def)
  have h1: "unat (tq_head q') = (?h + 1) mod nat n" using unat_Suc_mod [OF n(1-3)] q' by simp
  have sh: "((?h + 1) mod nat n + i) mod nat n = (?h + Suc i) mod nat n" for i
    by (simp add: mod_simps)
  have tl: "unat (tq_tail q') = (unat (tq_head q') + m) mod nat n"
    unfolding h1 sh using t m q' by simp
  have f: "tq_queue q' = tq_queue q" "tq_count q' = tq_count q - 1" by (simp_all add: q')
  have "unat (tq_head q') < nat n" unfolding h1 using n by simp
  moreover have "length (tq_queue q') = nat n" "unat (tq_count q') = m"
    by (simp_all only: f n(4) c1)
  moreover have "m \<le> nat n" using n(5) m by linarith
  ultimately show "ring_ok n q'" using n(1,2) tl by (simp add: ring_ok_def)
  let ?f = "\<lambda>i. tq_queue q ! ((?h + i) mod nat n)"
  have "[0..<Suc m] = 0 # map Suc [0..<m]" by (metis map_Suc_upt upt_conv_Cons zero_less_Suc)
  then have "queued n q = ?f 0 # map (\<lambda>i. ?f (Suc i)) [0..<m]" unfolding queued_def m by simp
  also have "?f 0 = t" using tt n by simp
  also have "map (\<lambda>i. ?f (Suc i)) [0..<m] = queued n q'"
    unfolding queued_def h1 sh f c1 ..
  finally show "queued n q = t # queued n q'" .
qed

lemma length_queued: "length (queued n q) = unat (tq_count q)"
  by (simp add: queued_def)

interpretation ring: bounded_fifo "\<lambda>(n, q). ring_ok n q" "\<lambda>(n, q). queued n q" "\<lambda>(n, q). nat n"
  "\<lambda>(n, q). tq_count q = word_of_int n" "\<lambda>(n, q). tq_count q = 0"
  "\<lambda>t (n, q). (n, queue_put n t q)" "\<lambda>(n, q). (fst (queue_take n q), n, snd (queue_take n q))"
proof unfold_locales
  fix s :: "int \<times> task_queue" and t s'
  obtain n q where s: "s = (n, q)" by (cases s)
  assume "case s of (n, q) \<Rightarrow> ring_ok n q"
  then have r: "ring_ok n q" and n: "0 < n" "n < 2 ^ 31" using s by (auto simp: ring_ok_def)
  have full: "tq_count q = word_of_int n \<longleftrightarrow> unat (tq_count q) = nat n"
    using unat_word_of_int [OF n] by (metis word_unat_eq_iff)
  show "(case s of (n, q) \<Rightarrow> tq_count q = word_of_int n) \<longleftrightarrow>
      length (case s of (n, q) \<Rightarrow> queued n q) = (case s of (n, q) \<Rightarrow> nat n)"
    using full by (simp add: s length_queued)
  show "(case s of (n, q) \<Rightarrow> tq_count q = 0) \<longleftrightarrow> (case s of (n, q) \<Rightarrow> queued n q) = []"
    by (simp add: s queued_def unat_eq_0)
  show "length (case s of (n, q) \<Rightarrow> queued n q) \<le> (case s of (n, q) \<Rightarrow> nat n)"
    using r by (simp add: s length_queued ring_ok_def)
  show "(case case s of (n, q) \<Rightarrow> (n, queue_put n t q) of (n, q) \<Rightarrow> ring_ok n q)
      \<and> (case case s of (n, q) \<Rightarrow> (n, queue_put n t q) of (n, q) \<Rightarrow> queued n q) =
        (case s of (n, q) \<Rightarrow> queued n q) @ [t]
      \<and> (case case s of (n, q) \<Rightarrow> (n, queue_put n t q) of (n, q) \<Rightarrow> nat n) = (case s of (n, q) \<Rightarrow> nat n)"
    if "\<not> (case s of (n, q) \<Rightarrow> tq_count q = word_of_int n)"
    using that r full queue_put_ok [OF r, of t] by (simp add: s ring_ok_def)
  show "(case s' of (n, q) \<Rightarrow> ring_ok n q)
      \<and> (case s of (n, q) \<Rightarrow> queued n q) = t # (case s' of (n, q) \<Rightarrow> queued n q)
      \<and> (case s' of (n, q) \<Rightarrow> nat n) = (case s of (n, q) \<Rightarrow> nat n)"
    if "\<not> (case s of (n, q) \<Rightarrow> tq_count q = 0)"
      "(case s of (n, q) \<Rightarrow> (fst (queue_take n q), n, snd (queue_take n q))) = (t, s')"
    using that queue_take_ok [OF r, of t "snd (queue_take n q)"] by (auto simp: s)
qed


section \<open>The pool and its workers\<close>

text \<open>
  Where a worker is: about to lock the mutex, blocked on the condition, woken and about to take
  the mutex again inside \<open>pthread_cond_wait\<close>, running a task without the mutex, or gone.
  Everything between a lock and the next unlock runs under the mutex and is one step.
  \<open>posted\<close>, \<open>taken\<close> and \<open>finished\<close> record the tasks accepted, taken out of the
  queue and run, in order.
\<close>

datatype wstate = AtLock | Asleep | Woken | Running task | Exited

record sys =
  pool :: thread_pool
  workers :: "wstate list"
  posted :: "task list"
  taken :: "task list"
  finished :: "task list"

fun after_section :: "section_end \<Rightarrow> wstate" where
  "after_section Sleeps = Asleep"
| "after_section Leaves = Exited"
| "after_section (Takes t) = Running t"

fun took :: "section_end \<Rightarrow> task list" where
  "took (Takes t) = [t]"
| "took _ = []"

definition wake :: "wstate \<Rightarrow> wstate" where
  "wake w = (if w = Asleep then Woken else w)"

inductive step :: "sys \<Rightarrow> sys \<Rightarrow> bool" where
  worker: "i < length (workers S) \<Longrightarrow> workers S ! i = AtLock \<or> workers S ! i = Woken \<Longrightarrow>
    thread_worker (pool S) = (r, p) \<Longrightarrow>
    step S (S\<lparr>pool := p, workers := (workers S)[i := after_section r], taken := taken S @ took r\<rparr>)"
| run: "i < length (workers S) \<Longrightarrow> workers S ! i = Running t \<Longrightarrow>
    step S (S\<lparr>workers := (workers S)[i := AtLock], finished := finished S @ [t]\<rparr>)"
| spurious: "i < length (workers S) \<Longrightarrow> workers S ! i = Asleep \<Longrightarrow>
    step S (S\<lparr>workers := (workers S)[i := Woken]\<rparr>)"
| post_wakes: "thread_pool_post 0 0 (Some (pool S)) (Some f) arg = (0, Some p) \<Longrightarrow>
    i < length (workers S) \<Longrightarrow> workers S ! i = Asleep \<Longrightarrow>
    step S (S\<lparr>pool := p, workers := (workers S)[i := Woken],
              posted := posted S @ [\<lparr>tk_func = f, tk_arg = arg\<rparr>]\<rparr>)"
| post_quiet: "thread_pool_post 0 0 (Some (pool S)) (Some f) arg = (0, Some p) \<Longrightarrow>
    Asleep \<notin> set (workers S) \<Longrightarrow>
    step S (S\<lparr>pool := p, posted := posted S @ [\<lparr>tk_func = f, tk_arg = arg\<rparr>]\<rparr>)"
| post_refused: "thread_pool_post lrc 0 (Some (pool S)) func arg = (c, Some p) \<Longrightarrow> c \<noteq> 0 \<Longrightarrow>
    step S (S\<lparr>pool := p\<rparr>)"
| close: "closed (pool S) = 0 \<Longrightarrow>
    step S (S\<lparr>pool := (pool S)\<lparr>closed := 1\<rparr>, workers := map wake (workers S)\<rparr>)"

inductive_cases stepE: "step S S'"

definition start :: "thread_pool \<Rightarrow> sys" where
  "start p = \<lparr>pool = p, workers = replicate (nat (thrd_count p)) AtLock, posted = [], taken = [], finished = []\<rparr>"

inductive reachable :: "sys \<Rightarrow> bool" where
  init: "thread_pool_create m1 m2 m3 junk rcs thrds qsize = Some p \<Longrightarrow> qsize < 2 ^ 31 \<Longrightarrow>
    reachable (start p)"
| more: "reachable S \<Longrightarrow> step S S' \<Longrightarrow> reachable S'"

fun running :: "wstate list \<Rightarrow> task multiset" where
  "running [] = {#}"
| "running (Running t # ws) = add_mset t (running ws)"
| "running (w # ws) = running ws"

definition pending :: "sys \<Rightarrow> task list" where
  "pending S = queued (queue_size (pool S)) (task_queue (pool S))"

definition alive :: "wstate list \<Rightarrow> nat" where
  "alive ws = length (filter (\<lambda>w. w \<noteq> Exited) ws)"

definition sys_ok :: "sys \<Rightarrow> bool" where
  "sys_ok S \<longleftrightarrow> ring_ok (queue_size (pool S)) (task_queue (pool S)) \<and> posted S = taken S @ pending S
     \<and> mset (taken S) = mset (finished S) + running (workers S)
     \<and> started (pool S) = int (alive (workers S)) \<and> workers S \<noteq> []
     \<and> (closed (pool S) = 0 \<or> closed (pool S) = 1)
     \<and> (closed (pool S) = 0 \<longrightarrow> Exited \<notin> set (workers S))
     \<and> (closed (pool S) = 1 \<longrightarrow> Asleep \<notin> set (workers S))
     \<and> (closed (pool S) = 0 \<and> pending S \<noteq> [] \<longrightarrow> (\<exists>w \<in> set (workers S). w \<noteq> Asleep))"

lemma create_threads_Some:
  assumes "create_threads rcs i n p = Some p'"
  shows "task_queue p' = task_queue p \<and> closed p' = closed p \<and> queue_size p' = queue_size p
    \<and> tp_mutex p' = tp_mutex p \<and> started p' = started p + int n \<and> thrd_count p' = thrd_count p + int n
    \<and> length (tp_threads p') = length (tp_threads p)"
  using assms by (induction rcs i n p rule: create_threads.induct) (auto split: if_splits)

lemma start_ok:
  assumes "thread_pool_create m1 m2 m3 junk rcs thrds qsize = Some p" "qsize < 2 ^ 31"
  shows "sys_ok (start p)"
proof -
  have "0 < thrds" "0 < qsize" using assms by (auto simp: thread_pool_create_def split: if_splits)
  moreover have "running (replicate n AtLock) = {#}" "alive (replicate n AtLock) = n" for n
    by (induction n) (auto simp: alive_def)
  moreover from assms(1) obtain p0 where "create_threads rcs 0 (nat thrds) p0 = Some p"
      "task_queue p0 = \<lparr>tq_head = 0, tq_tail = 0, tq_count = 0, tq_queue = replicate (nat qsize) junk\<rparr>"
      "closed p0 = 0" "started p0 = 0" "thrd_count p0 = 0" "queue_size p0 = qsize"
    unfolding thread_pool_create_def by (auto split: if_splits)
  ultimately show ?thesis
    using create_threads_Some [of rcs 0 "nat thrds" p0 p] assms(2)
    by (auto simp: sys_ok_def start_def pending_def ring_ok_def queued_def)
qed


lemma running_Cons: "running (w # ws) = running [w] + running ws"
  by (cases w) auto

lemma alive_Cons: "alive (w # ws) = alive [w] + alive ws"
  by (simp add: alive_def)

lemma running_update:
  "i < length ws \<Longrightarrow> running (ws[i := w]) + running [ws ! i] = running ws + running [w]"
proof (induction ws arbitrary: i)
  case (Cons v ws)
  then show ?case
    by (cases i) (simp_all add: running_Cons [of _ ws] running_Cons [of _ "_[_ := _]"] ac_simps)
qed simp

lemma alive_update:
  "i < length ws \<Longrightarrow> alive (ws[i := w]) + alive [ws ! i] = alive ws + alive [w]"
proof (induction ws arbitrary: i)
  case (Cons v ws)
  then show ?case
    by (cases i) (simp_all add: alive_Cons [of _ ws] alive_Cons [of _ "_[_ := _]"] ac_simps)
qed simp

lemma running_wake: "running (map wake ws) = running ws"
  by (induction ws rule: running.induct) (auto simp: wake_def)

lemma alive_wake: "alive (map wake ws) = alive ws"
  by (induction ws) (auto simp: alive_def wake_def)

lemma post_okD:
  assumes "thread_pool_post lrc 0 (Some p) (Some f) arg = (0, Some p')"
  shows "closed p = 0" "tq_count (task_queue p) \<noteq> word_of_int (queue_size p)"
    "p' = p\<lparr>task_queue := queue_put (queue_size p) \<lparr>tk_func = f, tk_arg = arg\<rparr> (task_queue p)\<rparr>"
  using assms by (auto simp: thread_pool_post_def Let_def split: if_splits)

lemma post_refusedD:
  "thread_pool_post lrc 0 (Some p) func arg = (c, Some p') \<Longrightarrow> c \<noteq> 0 \<Longrightarrow> p' = p"
  by (auto simp: thread_pool_post_def Let_def split: if_splits option.splits)

lemma post_pending:
  assumes "sys_ok S" "thread_pool_post 0 0 (Some (pool S)) (Some f) arg = (0, Some p)"
  shows "ring_ok (queue_size p) (task_queue p)"
    "queued (queue_size p) (task_queue p) = pending S @ [\<lparr>tk_func = f, tk_arg = arg\<rparr>]"
    "started p = started (pool S)" "closed p = 0"
proof -
  note d = post_okD [OF assms(2)]
  have r: "ring_ok (queue_size (pool S)) (task_queue (pool S))" using assms(1) by (simp add: sys_ok_def)
  note * = ring.push_ok [of "(queue_size (pool S), task_queue (pool S))"]
  show "ring_ok (queue_size p) (task_queue p)"
    "queued (queue_size p) (task_queue p) = pending S @ [\<lparr>tk_func = f, tk_arg = arg\<rparr>]"
    "started p = started (pool S)" "closed p = 0"
    using * d r by (simp_all add: pending_def)
qed

lemma worker_step_ok:
  assumes S: "sys_ok S" and i: "i < length (workers S)"
    and w: "workers S ! i = AtLock \<or> workers S ! i = Woken" and t: "thread_worker (pool S) = (r, p)"
  shows "sys_ok (S\<lparr>pool := p, workers := (workers S)[i := after_section r], taken := taken S @ took r\<rparr>)"
proof -
  let ?ws = "(workers S)[i := after_section r]"
  have upd: "running ?ws = running (workers S) + running [after_section r]"
    "alive ?ws + 1 = alive (workers S) + alive [after_section r]"
    using running_update [OF i, of "after_section r"] alive_update [OF i, of "after_section r"] w
    by (auto simp: alive_def)
  have set_upd: "set ?ws \<subseteq> insert (after_section r) (set (workers S))" by (rule set_update_subset_insert)
  have in_upd: "after_section r \<in> set ?ws" using i by (simp add: set_update_memI)
  have ne: "?ws \<noteq> []" using i by auto
  consider (sleep) "r = Sleeps" "p = pool S" "tq_count (task_queue (pool S)) = 0" "closed (pool S) = 0"
    | (leave) "r = Leaves" "p = (pool S)\<lparr>started := started (pool S) - 1\<rparr>" "closed (pool S) = 1"
    | (take) t' q where "r = Takes t'" "queue_take (queue_size (pool S)) (task_queue (pool S)) = (t', q)"
        "p = (pool S)\<lparr>task_queue := q\<rparr>" "closed (pool S) = 0" "tq_count (task_queue (pool S)) \<noteq> 0"
    using t S by (auto simp: thread_worker_def sys_ok_def split: if_splits prod.splits)
  then show ?thesis
  proof cases
    case sleep
    then have "pending S = []" by (simp add: pending_def queued_def)
    then show ?thesis
      using S sleep upd set_upd ne by (auto simp: sys_ok_def pending_def alive_def)
  next
    case leave
    then show ?thesis
      using S upd set_upd ne by (auto simp: sys_ok_def pending_def alive_def)
  next
    case take
    have r': "ring_ok (queue_size (pool S)) (task_queue (pool S))" using S by (simp add: sys_ok_def)
    note * = queue_take_ok [OF r' take(5,2)]
    show ?thesis
      using S take upd set_upd in_upd ne * by (auto simp: sys_ok_def pending_def alive_def)
  qed
qed


lemma post_step_ok:
  assumes S: "sys_ok S" and p: "thread_pool_post 0 0 (Some (pool S)) (Some f) arg = (0, Some p)"
    and ws: "running ws = running (workers S)" "alive ws = alive (workers S)" "ws \<noteq> []"
      "Exited \<in> set ws \<longrightarrow> Exited \<in> set (workers S)" "\<exists>w \<in> set ws. w \<noteq> Asleep"
  shows "sys_ok (S\<lparr>pool := p, workers := ws, posted := posted S @ [\<lparr>tk_func = f, tk_arg = arg\<rparr>]\<rparr>)"
proof -
  have "closed (pool S) = 0" using post_okD(1) [OF p] .
  then show ?thesis
    using S post_pending [OF S p] ws by (simp add: sys_ok_def pending_def)
qed

lemma not_all_asleep: "ws \<noteq> [] \<Longrightarrow> Asleep \<notin> set ws \<Longrightarrow> \<exists>w \<in> set ws. w \<noteq> Asleep"
  by (cases ws) auto

lemma update_woken:
  assumes "i < length ws" "ws ! i = Asleep"
  shows "running (ws[i := Woken]) = running ws" "alive (ws[i := Woken]) = alive ws"
  using running_update [OF assms(1), of Woken] alive_update [OF assms(1), of Woken] assms(2)
  by (simp_all add: alive_def)

lemma close_step_ok:
  assumes S: "sys_ok S" and c: "closed (pool S) = 0"
  shows "sys_ok (S\<lparr>pool := (pool S)\<lparr>closed := 1\<rparr>, workers := map wake (workers S)\<rparr>)"
proof -
  have "Asleep \<notin> set (map wake (workers S))" by (auto simp: wake_def)
  then show ?thesis using S c by (simp add: sys_ok_def pending_def running_wake alive_wake)
qed

lemma run_step_ok:
  assumes S: "sys_ok S" and i: "i < length (workers S)" "workers S ! i = Running t"
  shows "sys_ok (S\<lparr>workers := (workers S)[i := AtLock], finished := finished S @ [t]\<rparr>)"
proof -
  let ?ws = "(workers S)[i := AtLock]"
  have "running ?ws + {#t#} = running (workers S)" "alive ?ws = alive (workers S)"
    using running_update [OF i(1), of AtLock] alive_update [OF i(1), of AtLock] i(2)
    by (simp_all add: alive_def)
  moreover have "set ?ws \<subseteq> insert AtLock (set (workers S))" by (rule set_update_subset_insert)
  moreover have "AtLock \<in> set ?ws" using i(1) by (simp add: set_update_memI)
  moreover have "?ws \<noteq> []" using i(1) by auto
  ultimately show ?thesis using S by (auto simp: sys_ok_def pending_def)
qed

lemma spurious_step_ok:
  assumes S: "sys_ok S" and i: "i < length (workers S)" "workers S ! i = Asleep"
  shows "sys_ok (S\<lparr>workers := (workers S)[i := Woken]\<rparr>)"
proof -
  let ?ws = "(workers S)[i := Woken]"
  have "set ?ws \<subseteq> insert Woken (set (workers S))" by (rule set_update_subset_insert)
  moreover have "Woken \<in> set ?ws" using i(1) by (simp add: set_update_memI)
  moreover have "?ws \<noteq> []" using i(1) by auto
  ultimately show ?thesis using S update_woken [OF i] by (auto simp: sys_ok_def pending_def)
qed

lemma step_ok: "step S S' \<Longrightarrow> sys_ok S \<Longrightarrow> sys_ok S'"
proof (induction rule: step.induct)
  case (worker i S r p)
  then show ?case by (intro worker_step_ok)
next
  case (run i S t)
  then show ?case by (intro run_step_ok)
next
  case (spurious i S)
  then show ?case by (intro spurious_step_ok)
next
  case (post_wakes S f arg p i)
  let ?ws = "(workers S)[i := Woken]"
  have "set ?ws \<subseteq> insert Woken (set (workers S))" by (rule set_update_subset_insert)
  moreover have "Woken \<in> set ?ws" using post_wakes by (simp add: set_update_memI)
  ultimately show ?case
    using post_wakes update_woken [of i "workers S"] by (intro post_step_ok) auto
next
  case (post_quiet S f arg p)
  then have "workers S \<noteq> []" by (simp add: sys_ok_def)
  then have "sys_ok (S\<lparr>pool := p, workers := workers S, posted := posted S @ [\<lparr>tk_func = f, tk_arg = arg\<rparr>]\<rparr>)"
    using post_quiet not_all_asleep by (intro post_step_ok) auto
  then show ?case by simp
next
  case (post_refused lrc S func arg c p)
  then show ?case using post_refusedD [OF post_refused(1,2)] by simp
next
  case (close S)
  then show ?case by (intro close_step_ok)
qed

lemma reachable_ok: "reachable S \<Longrightarrow> sys_ok S"
  by (induction rule: reachable.induct) (auto intro: start_ok step_ok)


section \<open>Properties\<close>

definition demo_pool :: thread_pool where
  "demo_pool = the (thread_pool_create True True True \<lparr>tk_func = 0, tk_arg = 0\<rparr> (\<lambda>_. 0) 2 4)"

lemma demo_pool_eq:
  "demo_pool = \<lparr>tp_mutex = False, tp_threads = [0, 1],
     task_queue = \<lparr>tq_head = 0, tq_tail = 0, tq_count = 0, tq_queue = replicate 4 \<lparr>tk_func = 0, tk_arg = 0\<rparr>\<rparr>,
     closed = 0, started = 2, thrd_count = 2, queue_size = 4\<rparr>"
  by (simp add: demo_pool_def thread_pool_create_def numeral_2_eq_2)

definition demo_queue1 :: task_queue where
  "demo_queue1 = queue_put 4 \<lparr>tk_func = 7, tk_arg = 70\<rparr> (task_queue demo_pool)"

text \<open>The demonstration pool after one post.\<close>

definition demo_sys :: sys where
  "demo_sys = (start demo_pool)\<lparr>pool := demo_pool\<lparr>task_queue := demo_queue1\<rparr>, posted := [\<lparr>tk_func = 7, tk_arg = 70\<rparr>]\<rparr>"

lemma demo_start: "reachable (start demo_pool)"
  by (rule reachable.init [of True True True "\<lparr>tk_func = 0, tk_arg = 0\<rparr>" "\<lambda>_. 0" 2 4])
    (simp_all add: demo_pool_def thread_pool_create_def numeral_2_eq_2)

lemma demo_reachable: "reachable demo_sys"
proof -
  have "step (start demo_pool) ((start demo_pool)\<lparr>pool := demo_pool\<lparr>task_queue := demo_queue1\<rparr>,
      posted := posted (start demo_pool) @ [\<lparr>tk_func = 7, tk_arg = 70\<rparr>]\<rparr>)"
    by (rule step.post_quiet)
      (simp_all add: start_def demo_pool_eq thread_pool_post_def demo_queue1_def Let_def)
  then have "step (start demo_pool) demo_sys" by (simp add: demo_sys_def start_def)
  then show ?thesis by (rule reachable.more [OF demo_start])
qed

lemma demo_pending: "pending demo_sys = [\<lparr>tk_func = 7, tk_arg = 70\<rparr>]" "closed (pool demo_sys) = 0"
  by (simp_all add: pending_def demo_sys_def start_def demo_queue1_def demo_pool_eq queue_put_def queued_def)

text \<open>
  C1. Tasks are neither lost nor repeated nor reordered. In every reachable state of the pool and
  its workers the tasks accepted by \<open>thread_pool_post\<close> are, in order, those the workers have
  taken followed by those still in the ring; the ring never holds more than
  \<open>queue_size\<close> tasks; each task taken has been run once or is being run by one worker; and
  \<open>started\<close> counts the workers that have not exited.
\<close>

theorem thread_pool_is_fifo:
  assumes "reachable S"
  shows "posted S = taken S @ pending S \<and> int (length (pending S)) \<le> queue_size (pool S)
    \<and> mset (taken S) = mset (finished S) + running (workers S)
    \<and> started (pool S) = int (length (filter (\<lambda>w. w \<noteq> Exited) (workers S)))"
proof -
  have s: "sys_ok S" using assms by (rule reachable_ok)
  have "length (pending S) \<le> nat (queue_size (pool S))"
    using s ring.bounded [of "(queue_size (pool S), task_queue (pool S))"] by (simp add: sys_ok_def pending_def)
  moreover have "0 < queue_size (pool S)" using s by (simp add: sys_ok_def ring_ok_def)
  ultimately show ?thesis using s by (simp add: sys_ok_def alive_def)
qed

theorem thread_pool_is_fifo_witness:
  "posted demo_sys = taken demo_sys @ [\<lparr>tk_func = 7, tk_arg = 70\<rparr>] \<and> started (pool demo_sys) = 2"
  using thread_pool_is_fifo [OF demo_reachable] unfolding demo_pending
  by (simp add: demo_sys_def start_def demo_pool_eq)

text \<open>
  C8. No wake-up is lost. In every reachable state of an open pool with a task in the ring, a
  worker can make progress without a spurious wake-up: it takes the oldest task, or it finishes the
  task it is running.
\<close>

theorem thread_pool_progress:
  assumes "reachable S" "closed (pool S) = 0" "pending S \<noteq> []"
  shows "\<exists>S'. step S S' \<and> (taken S' = taken S @ [hd (pending S)] \<or> length (finished S') = length (finished S) + 1)"
proof -
  have s: "sys_ok S" using assms(1) by (rule reachable_ok)
  then obtain w where "w \<in> set (workers S)" "w \<noteq> Asleep" using assms(2,3) by (auto simp: sys_ok_def)
  moreover have "w \<noteq> Exited" using s assms(2) calculation by (auto simp: sys_ok_def)
  ultimately obtain i where i: "i < length (workers S)" "workers S ! i \<noteq> Asleep" "workers S ! i \<noteq> Exited"
    by (metis in_set_conv_nth)
  show ?thesis
  proof (cases "\<exists>t. workers S ! i = Running t")
    case True
    then show ?thesis using step.run [OF i(1)] by fastforce
  next
    case False
    then have w: "workers S ! i = AtLock \<or> workers S ! i = Woken" using i by (cases "workers S ! i") auto
    have c: "tq_count (task_queue (pool S)) \<noteq> 0" using assms(3) by (auto simp: pending_def queued_def)
    obtain t q where q: "queue_take (queue_size (pool S)) (task_queue (pool S)) = (t, q)" by fastforce
    have r: "ring_ok (queue_size (pool S)) (task_queue (pool S))" using s by (simp add: sys_ok_def)
    have "thread_worker (pool S) = (Takes t, (pool S)\<lparr>task_queue := q\<rparr>)"
      using c q assms(2) by (simp add: thread_worker_def)
    from step.worker [OF i(1) w this] show ?thesis
      using queue_take_ok(2) [OF r c q] by (fastforce simp: pending_def)
  qed
qed

theorem thread_pool_progress_witness:
  "\<exists>S'. step demo_sys S' \<and>
     (taken S' = taken demo_sys @ [\<lparr>tk_func = 7, tk_arg = 70\<rparr>] \<or> length (finished S') = length (finished demo_sys) + 1)"
  using thread_pool_progress [OF demo_reachable] by (simp add: demo_pending)

section \<open>Shutting down\<close>

fun weight :: "wstate \<Rightarrow> nat" where
  "weight (Running _) = 2"
| "weight AtLock = 1"
| "weight Woken = 1"
| "weight _ = 0"

lemma weight_update:
  "i < length ws \<Longrightarrow> sum_list (map weight (ws[i := w])) + weight (ws ! i) = sum_list (map weight ws) + weight w"
proof (induction ws arbitrary: i)
  case (Cons v ws)
  then show ?case by (cases i) auto
qed simp

lemma closed_workers_exit:
  assumes "sys_ok S" "closed (pool S) = 1"
  shows "\<exists>S'. step\<^sup>*\<^sup>* S S' \<and> (\<forall>w \<in> set (workers S'). w = Exited) \<and> taken S' = taken S
    \<and> task_queue (pool S') = task_queue (pool S) \<and> queue_size (pool S') = queue_size (pool S) \<and> sys_ok S'"
  using assms
proof (induction "sum_list (map weight (workers S))" arbitrary: S rule: less_induct)
  case less
  show ?case
  proof (cases "\<forall>w \<in> set (workers S). w = Exited")
    case True
    then show ?thesis using less.prems by blast
  next
    case False
    then obtain i where i: "i < length (workers S)" "workers S ! i \<noteq> Exited" by (metis in_set_conv_nth)
    have na: "workers S ! i \<noteq> Asleep" using less.prems i(1) by (auto simp: sys_ok_def in_set_conv_nth)
    obtain U where U: "step S U" "sum_list (map weight (workers U)) < sum_list (map weight (workers S))"
      "taken U = taken S" "task_queue (pool U) = task_queue (pool S)"
      "queue_size (pool U) = queue_size (pool S)" "closed (pool U) = 1"
    proof (cases "\<exists>t. workers S ! i = Running t")
      case True
      then obtain t where t: "workers S ! i = Running t" by blast
      show ?thesis
        using weight_update [OF i(1), of AtLock] t less.prems(2)
        by (intro that [OF step.run [OF i(1) t]]) auto
    next
      case False
      then have w: "workers S ! i = AtLock \<or> workers S ! i = Woken" using i na by (cases "workers S ! i") auto
      have "thread_worker (pool S) = (Leaves, (pool S)\<lparr>started := started (pool S) - 1\<rparr>)"
        using less.prems(2) by (simp add: thread_worker_def)
      note st = step.worker [OF i(1) w this]
      show ?thesis
        using weight_update [OF i(1), of Exited] w less.prems(2) by (intro that [OF st]) auto
    qed
    then have "\<exists>S'. step\<^sup>*\<^sup>* U S' \<and> (\<forall>w \<in> set (workers S'). w = Exited) \<and> taken S' = taken U
        \<and> task_queue (pool S') = task_queue (pool U) \<and> queue_size (pool S') = queue_size (pool U) \<and> sys_ok S'"
      using less.hyps [OF U(2) step_ok [OF U(1) less.prems(1)]] by blast
    then show ?thesis using U by (metis converse_rtranclp_into_rtranclp)
  qed
qed

text \<open>
  C24. Shutting down. Once the pool is closed, no step of any thread takes another task from the
  ring; the workers can always run on until all of them have exited, \<open>started\<close> is then 0 and
  \<open>thread_pool_free\<close> frees the pool; the tasks still in the ring are dropped.
\<close>

theorem thread_pool_shutdown:
  assumes "reachable S" "closed (pool S) = 1"
  shows "(\<forall>S'. step S S' \<longrightarrow> taken S' = taken S \<and> closed (pool S') = 1)
    \<and> (\<exists>S'. step\<^sup>*\<^sup>* S S' \<and> (\<forall>w \<in> set (workers S'). w = Exited) \<and> started (pool S') = 0
         \<and> taken S' = taken S \<and> pending S' = pending S
         \<and> thread_pool_free ((pool S')\<lparr>tp_mutex := False\<rparr>) = Some None)"
proof
  have s: "sys_ok S" using assms(1) by (rule reachable_ok)
  have "taken S' = taken S \<and> closed (pool S') = 1" if "step S S'" for S'
    using that assms(2)
  proof cases
    case (worker i r p)
    then show ?thesis using assms(2) by (auto simp: thread_worker_def split: if_splits)
  next
    case (post_refused lrc func arg c p)
    then show ?thesis using post_refusedD [OF post_refused(2,3)] assms(2) by simp
  qed (auto dest: post_okD)
  then show "\<forall>S'. step S S' \<longrightarrow> taken S' = taken S \<and> closed (pool S') = 1" by blast
  obtain S' where S': "step\<^sup>*\<^sup>* S S'" "\<forall>w \<in> set (workers S'). w = Exited" "taken S' = taken S"
      "task_queue (pool S') = task_queue (pool S)" "queue_size (pool S') = queue_size (pool S)" "sys_ok S'"
    using closed_workers_exit [OF s assms(2)] by blast
  have "alive (workers S') = 0" using S'(2) by (simp add: alive_def filter_empty_conv)
  then have "started (pool S') = 0" using S'(6) by (simp add: sys_ok_def)
  then show "\<exists>S'. step\<^sup>*\<^sup>* S S' \<and> (\<forall>w \<in> set (workers S'). w = Exited) \<and> started (pool S') = 0
      \<and> taken S' = taken S \<and> pending S' = pending S
      \<and> thread_pool_free ((pool S')\<lparr>tp_mutex := False\<rparr>) = Some None"
    using S' by (intro exI [of _ S']) (simp add: pending_def thread_pool_free_def)
qed

lemma demo_closed: "reachable (demo_sys\<lparr>pool := (pool demo_sys)\<lparr>closed := 1\<rparr>, workers := map wake (workers demo_sys)\<rparr>)"
  by (rule reachable.more [OF demo_reachable step.close]) (rule demo_pending(2))

theorem thread_pool_shutdown_witness:
  "\<exists>S'. (\<forall>w \<in> set (workers S'). w = Exited) \<and> started (pool S') = 0 \<and> taken S' = []
     \<and> pending S' = [\<lparr>tk_func = 7, tk_arg = 70\<rparr>]"
proof -
  let ?S = "demo_sys\<lparr>pool := (pool demo_sys)\<lparr>closed := 1\<rparr>, workers := map wake (workers demo_sys)\<rparr>"
  have "pending ?S = [\<lparr>tk_func = 7, tk_arg = 70\<rparr>]" "taken ?S = []"
    using demo_pending(1) by (simp_all add: pending_def) (simp add: demo_sys_def start_def)
  then show ?thesis using thread_pool_shutdown [OF demo_closed] by auto
qed


section \<open>Results of the calls\<close>

text \<open>
  Every result of \<open>thread_pool_post\<close> on a well-formed ring: -1 for a null pool or function,
  -2 when the mutex cannot be locked, -3 when the pool is closed and -4 when the ring is full, all
  without a change; otherwise the task is appended to the ring, also when the signal fails and the
  result is -5.
\<close>

theorem thread_pool_post_results:
  assumes "ring_ok (queue_size p) (task_queue p)"
  shows "thread_pool_post lrc src None func arg = (-1, None) \<and> thread_pool_post lrc src (Some p) None arg = (-1, Some p)
    \<and> (lrc \<noteq> 0 \<longrightarrow> thread_pool_post lrc src (Some p) (Some f) arg = (-2, Some p))
    \<and> (closed p \<noteq> 0 \<longrightarrow> thread_pool_post 0 src (Some p) (Some f) arg = (-3, Some p))
    \<and> (closed p = 0 \<and> int (length (queued (queue_size p) (task_queue p))) = queue_size p \<longrightarrow>
         thread_pool_post 0 src (Some p) (Some f) arg = (-4, Some p))
    \<and> (closed p = 0 \<and> int (length (queued (queue_size p) (task_queue p))) < queue_size p \<longrightarrow>
         (\<exists>q. thread_pool_post 0 src (Some p) (Some f) arg = (if src = 0 then 0 else -5, Some (p\<lparr>task_queue := q\<rparr>))
            \<and> ring_ok (queue_size p) q
            \<and> queued (queue_size p) q = queued (queue_size p) (task_queue p) @ [\<lparr>tk_func = f, tk_arg = arg\<rparr>]))"
proof -
  let ?s = "(queue_size p, task_queue p)" and ?t = "\<lparr>tk_func = f, tk_arg = arg\<rparr>"
  have n: "0 < queue_size p" using assms by (simp add: ring_ok_def)
  have full: "tq_count (task_queue p) = word_of_int (queue_size p) \<longleftrightarrow>
      int (length (queued (queue_size p) (task_queue p))) = queue_size p"
    using ring.full_iff [of ?s] assms n by auto
  have room: "ring_ok (queue_size p) (queue_put (queue_size p) ?t (task_queue p))"
      "queued (queue_size p) (queue_put (queue_size p) ?t (task_queue p)) =
       queued (queue_size p) (task_queue p) @ [?t]"
    if "int (length (queued (queue_size p) (task_queue p))) < queue_size p"
    using that ring.push_ok [of ?s ?t] full assms by simp_all
  show ?thesis using full room by (auto simp: thread_pool_post_def Let_def split: option.splits)
qed

theorem thread_pool_post_results_witness:
  "\<exists>q. thread_pool_post 0 1 (Some demo_pool) (Some 7) 70 = (-5, Some (demo_pool\<lparr>task_queue := q\<rparr>))
     \<and> queued 4 q = [\<lparr>tk_func = 7, tk_arg = 70\<rparr>]"
proof -
  have "ring_ok (queue_size demo_pool) (task_queue demo_pool)"
    "queued (queue_size demo_pool) (task_queue demo_pool) = []" "closed demo_pool = 0" "queue_size demo_pool = 4"
    by (simp_all add: demo_pool_eq ring_ok_def queued_def)
  then show ?thesis using thread_pool_post_results [of demo_pool 0 1 "Some 7" 70 7] by auto
qed

text \<open>
  Destroying a pool. On an open pool, when the POSIX calls succeed and the workers bring
  \<open>started\<close> to 0 and keep the mutex free, the pool is freed and the result is 0. On a pool that
  is closed already the call keeps the mutex: with workers left it returns -3 with the mutex
  locked and the pool not freed; with none left and the thread array in place it never returns, for
  \<open>thread_pool_free\<close> locks the same mutex again.
\<close>

theorem thread_pool_destroy_results:
  assumes "\<And>q. started (others q) = 0 \<and> tp_mutex (others q) = tp_mutex q"
  shows "(closed p = 0 \<longrightarrow> thread_pool_destroy 0 0 0 others (Some p) = Some (0, None))
    \<and> (closed p \<noteq> 0 \<and> started p > 0 \<longrightarrow>
         thread_pool_destroy 0 brc urc others (Some p) = Some (-3, Some (p\<lparr>tp_mutex := True\<rparr>)))
    \<and> (closed p \<noteq> 0 \<and> started p \<le> 0 \<and> tp_threads p \<noteq> [] \<longrightarrow>
         thread_pool_destroy 0 brc urc others (Some p) = None)"
  using assms by (simp add: thread_pool_destroy_def thread_pool_free_def Let_def)

theorem thread_pool_destroy_results_witness:
  "thread_pool_destroy 0 0 0 (\<lambda>p. p\<lparr>started := 0\<rparr>) (Some demo_pool) = Some (0, None)
   \<and> thread_pool_destroy 0 0 0 (\<lambda>p. p\<lparr>started := 0\<rparr>) (Some (demo_pool\<lparr>closed := 1, started := 0\<rparr>)) = None"
  using thread_pool_destroy_results [of "\<lambda>p. p\<lparr>started := 0\<rparr>" demo_pool]
    thread_pool_destroy_results [of "\<lambda>p. p\<lparr>started := 0\<rparr>" "demo_pool\<lparr>closed := 1, started := 0\<rparr>" 0 0]
  by (simp add: demo_pool_eq)

end
