(* ===== verification/DeadlockGraph.thy ===== *)
theory DeadlockGraph
  imports Prelude "HOL-Library.Monad_Syntax"
begin

text \<open>
  The dead-lock detector, \<open>7.../deadlock_success.c\<close>: the wait-for graph of threads, its
  depth-first search for cycles, the list of held locks and the hooks that keep both.

  The arrays \<open>list\<close>, \<open>visited\<close> and \<open>locklist\<close> have \<open>MAX\<close> = 100 cells and
  \<open>path\<close> has 101. An access outside an array is undefined behaviour, the value
  \<^const>\<open>None\<close>. The model keeps the \<open>num\<close> used cells of \<open>list\<close> as a HOL list; the
  chain of a vertex is the list of the vertices hung behind it. The index -1 of the searches is
  \<^const>\<open>None\<close>.
\<close>

section \<open>Data\<close>

definition VMAX :: nat where "VMAX = 100"

datatype vtype = PROCESS | RESOURCE

record source_type =
  sid :: uint64
  stype :: vtype
  lock_id :: uint64
  degress :: int

record vertex =
  vs :: source_type
  vnext :: "source_type list"

record task_graph =
  tg_list :: "vertex list"
  locklist :: "source_type list"
  lockidx :: nat

abbreviation num :: "task_graph \<Rightarrow> nat" where
  "num tg \<equiv> length (tg_list tg)"

section \<open>The graph\<close>

definition create_vertex :: "source_type \<Rightarrow> vertex" where
  "create_vertex type = \<lparr>vs = type, vnext = []\<rparr>"

definition same_vertex :: "source_type \<Rightarrow> source_type \<Rightarrow> bool" where
  "same_vertex a b \<longleftrightarrow> stype a = stype b \<and> sid a = sid b"

fun search_from :: "vertex list \<Rightarrow> source_type \<Rightarrow> nat \<Rightarrow> nat option" where
  "search_from [] type i = None"
| "search_from (v # vs') type i = (if same_vertex (vs v) type then Some i else search_from vs' type (i + 1))"

definition search_vertex :: "task_graph \<Rightarrow> source_type \<Rightarrow> nat option" where
  "search_vertex tg type = search_from (tg_list tg) type 0"

definition add_vertex :: "source_type \<Rightarrow> task_graph \<Rightarrow> task_graph option" where
  "add_vertex type tg =
     (if search_vertex tg type = None
      then (if num tg < VMAX then Some (tg\<lparr>tg_list := tg_list tg @ [create_vertex type]\<rparr>) else None)
      else Some tg)"

definition add_edge :: "source_type \<Rightarrow> source_type \<Rightarrow> task_graph \<Rightarrow> task_graph option" where
  "add_edge from to tg =
     do { tg \<leftarrow> add_vertex from tg;
          tg \<leftarrow> add_vertex to tg;
          i \<leftarrow> search_vertex tg from;
          let v = tg_list tg ! i;
          Some (tg\<lparr>tg_list := (tg_list tg)[i := v\<lparr>vnext := vnext v @ [vs (create_vertex to)]\<rparr>]\<rparr>) }"

definition verify_edge :: "task_graph \<Rightarrow> source_type \<Rightarrow> source_type \<Rightarrow> bool" where
  "verify_edge tg i j =
     (if num tg = 0 then False
      else case search_vertex tg i of
             None \<Rightarrow> False
           | Some idx \<Rightarrow> (let v = tg_list tg ! idx
                          in list_ex (\<lambda>s. sid s = sid j) (vs v # vnext v)))"

fun unlink_first :: "uint64 \<Rightarrow> source_type list \<Rightarrow> source_type list" where
  "unlink_first ident [] = []"
| "unlink_first ident (s # ss) = (if sid s = ident then ss else s # unlink_first ident ss)"

definition remove_edge :: "source_type \<Rightarrow> source_type \<Rightarrow> task_graph \<Rightarrow> task_graph" where
  "remove_edge from to tg =
     (case (search_vertex tg from, search_vertex tg to) of
        (Some i, Some j) \<Rightarrow>
          (let v = tg_list tg ! i
           in tg\<lparr>tg_list := (tg_list tg)[i := v\<lparr>vnext := unlink_first (sid to) (vnext v)\<rparr>]\<rparr>)
      | _ \<Rightarrow> tg)"

section \<open>The search for a cycle\<close>

text \<open>The globals of the search; \<open>printed\<close> records what \<open>print_deadlock\<close> prints.\<close>

record search =
  path :: "int list"
  visited :: "bool list"
  sk :: nat
  deadlock :: bool
  printed :: "uint64 list list"

definition push_path :: "nat \<Rightarrow> search \<Rightarrow> search option" where
  "push_path idx d =
     (if sk d < length (path d) then Some (d\<lparr>path := (path d)[sk d := int idx], sk := sk d + 1\<rparr>) else None)"

definition print_deadlock :: "task_graph \<Rightarrow> search \<Rightarrow> search" where
  "print_deadlock tg d =
     d\<lparr>printed := printed d @ [map (\<lambda>i. sid (vs (tg_list tg ! nat (path d ! i)))) ([0..<sk d - 1] @ [sk d - 1])]\<rparr>"

text \<open>
  The recursion is by fuel; \<open>dfs_loop\<close> is the loop over the chain. With \<open>num + 1\<close> units
  the search never runs out (below).
\<close>

fun DFS :: "nat \<Rightarrow> task_graph \<Rightarrow> nat \<Rightarrow> search \<Rightarrow> search option"
and dfs_loop :: "nat \<Rightarrow> task_graph \<Rightarrow> source_type list \<Rightarrow> search \<Rightarrow> search option" where
  "DFS 0 tg idx d = None"
| "DFS (Suc n) tg idx d =
     (if visited d ! idx
      then do { d \<leftarrow> push_path idx d; Some ((print_deadlock tg d)\<lparr>deadlock := True\<rparr>) }
      else do { d \<leftarrow> push_path idx (d\<lparr>visited := (visited d)[idx := True]\<rparr>);
                dfs_loop n tg (vnext (tg_list tg ! idx)) d })"
| "dfs_loop n tg [] d = Some d"
| "dfs_loop n tg (v # ver) d =
     do { j \<leftarrow> search_vertex tg v;
          d \<leftarrow> DFS n tg j d;
          dfs_loop n tg ver (d\<lparr>sk := sk d - 1\<rparr>) }"

definition reset_search :: "task_graph \<Rightarrow> nat \<Rightarrow> search \<Rightarrow> search" where
  "reset_search tg idx d =
     d\<lparr>visited := map (\<lambda>i. if i < num tg \<and> i \<noteq> idx then False else visited d ! i) [0..<length (visited d)],
       path := map (\<lambda>i. if 1 \<le> i \<and> i \<le> VMAX then -1 else path d ! i) [0..<length (path d)],
       sk := 1\<rparr>"

fun cycle_loop :: "task_graph \<Rightarrow> nat \<Rightarrow> source_type list \<Rightarrow> search \<Rightarrow> search option" where
  "cycle_loop tg idx [] d = Some d"
| "cycle_loop tg idx (v # ver) d =
     do { j \<leftarrow> search_vertex tg v;
          d \<leftarrow> DFS (num tg + 1) tg j (reset_search tg idx d);
          cycle_loop tg idx ver d }"

definition search_for_cycle :: "task_graph \<Rightarrow> nat \<Rightarrow> search \<Rightarrow> search option" where
  "search_for_cycle tg idx d =
     do { d \<leftarrow> push_path idx (d\<lparr>visited := (visited d)[idx := True], sk := 0\<rparr>);
          cycle_loop tg idx (vnext (tg_list tg ! idx)) d }"

fun check_loop :: "task_graph \<Rightarrow> nat list \<Rightarrow> search \<Rightarrow> search option" where
  "check_loop tg [] d = Some d"
| "check_loop tg (i # is) d =
     (if deadlock d then Some d else do { d \<leftarrow> search_for_cycle tg i d; check_loop tg is d })"

definition check_dead_lock :: "task_graph \<Rightarrow> search \<Rightarrow> search option" where
  "check_dead_lock tg d = check_loop tg [0..<num tg] (d\<lparr>deadlock := False\<rparr>)"

section \<open>The held locks and the hooks\<close>

fun lock_index :: "source_type list \<Rightarrow> uint64 \<Rightarrow> nat list \<Rightarrow> nat option option" where
  "lock_index ls lock [] = Some None"
| "lock_index ls lock (i # is) =
     (if length ls \<le> i then None
      else if lock_id (ls ! i) = lock then Some (Some i)
      else lock_index ls lock is)"

text \<open>The outer \<^const>\<open>None\<close> is a read outside \<open>locklist\<close>, the inner one the result -1.\<close>

definition search_lock :: "task_graph \<Rightarrow> uint64 \<Rightarrow> nat option option" where
  "search_lock tg lock = lock_index (locklist tg) lock [0..<lockidx tg]"

definition search_empty_lock :: "task_graph \<Rightarrow> nat option" where
  "search_empty_lock tg =
     do { r \<leftarrow> lock_index (locklist tg) 0 [0..<lockidx tg];
          Some (case r of Some i \<Rightarrow> i | None \<Rightarrow> lockidx tg) }"

definition inc :: "int \<Rightarrow> int \<Rightarrow> int \<times> int" where
  "inc value add = (value, value + add)"

text \<open>A vertex for a thread; the fields the code leaves uninitialised are never read.\<close>

definition thread_vertex :: "uint64 \<Rightarrow> source_type" where
  "thread_vertex t = \<lparr>sid = t, stype = PROCESS, lock_id = 0, degress = 0\<rparr>"

definition upd_lock :: "nat \<Rightarrow> (source_type \<Rightarrow> source_type) \<Rightarrow> task_graph \<Rightarrow> task_graph option" where
  "upd_lock i f tg =
     (if i < length (locklist tg) then Some (tg\<lparr>locklist := (locklist tg)[i := f (locklist tg ! i)]\<rparr>) else None)"

fun lock_before_loop :: "uint64 \<Rightarrow> uint64 \<Rightarrow> nat list \<Rightarrow> task_graph \<Rightarrow> task_graph option" where
  "lock_before_loop t lock [] tg = Some tg"
| "lock_before_loop t lock (i # is) tg =
     (if length (locklist tg) \<le> i then None
      else if lock_id (locklist tg ! i) = lock
      then do { tg \<leftarrow> add_vertex (thread_vertex t) tg;
                let to = thread_vertex (sid (locklist tg ! i));
                tg \<leftarrow> upd_lock i (\<lambda>l. l\<lparr>degress := degress l + 1\<rparr>) tg;
                tg \<leftarrow> add_vertex to tg;
                tg \<leftarrow> (if \<not> verify_edge tg (thread_vertex t) to then add_edge (thread_vertex t) to tg else Some tg);
                lock_before_loop t lock is tg }
      else lock_before_loop t lock is tg)"

definition lock_before :: "uint64 \<Rightarrow> uint64 \<Rightarrow> task_graph \<Rightarrow> task_graph option" where
  "lock_before t lock tg = lock_before_loop t lock [0..<lockidx tg] tg"

definition lock_after :: "uint64 \<Rightarrow> uint64 \<Rightarrow> task_graph \<Rightarrow> task_graph option" where
  "lock_after t lock tg =
     do { r \<leftarrow> search_lock tg lock;
          case r of
            None \<Rightarrow>
              do { eidx \<leftarrow> search_empty_lock tg;
                   tg \<leftarrow> upd_lock eidx (\<lambda>l. l\<lparr>sid := t, lock_id := lock\<rparr>) tg;
                   Some (tg\<lparr>lockidx := nat (snd (inc (int (lockidx tg)) 1))\<rparr>) }
          | Some idx \<Rightarrow>
              do { let to = thread_vertex (sid (locklist tg ! idx));
                   tg \<leftarrow> upd_lock idx (\<lambda>l. l\<lparr>degress := degress l - 1\<rparr>) tg;
                   let tg = (if verify_edge tg (thread_vertex t) to
                             then remove_edge (thread_vertex t) to tg else tg);
                   upd_lock idx (\<lambda>l. l\<lparr>sid := t\<rparr>) tg } }"

text \<open>\<open>unlock_after\<close> uses the result of \<open>search_lock\<close> unchecked: -1 is outside the array.\<close>

definition unlock_after :: "uint64 \<Rightarrow> uint64 \<Rightarrow> task_graph \<Rightarrow> task_graph option" where
  "unlock_after t lock tg =
     do { r \<leftarrow> search_lock tg lock;
          idx \<leftarrow> r;
          if degress (locklist tg ! idx) = 0
          then upd_lock idx (\<lambda>l. l\<lparr>sid := 0, lock_id := 0\<rparr>) tg
          else Some tg }"

text \<open>The hooked calls around the real mutex operation, here without a wait in between.\<close>

definition pthread_mutex_lock :: "uint64 \<Rightarrow> uint64 \<Rightarrow> task_graph \<Rightarrow> task_graph option" where
  "pthread_mutex_lock self mutex tg = do { tg \<leftarrow> lock_before self mutex tg; lock_after self mutex tg }"

definition pthread_mutex_unlock :: "uint64 \<Rightarrow> uint64 \<Rightarrow> task_graph \<Rightarrow> task_graph option" where
  "pthread_mutex_unlock self mutex tg = unlock_after self mutex tg"

definition start_check :: "source_type list \<Rightarrow> task_graph" where
  "start_check junk = \<lparr>tg_list = [], locklist = junk, lockidx = 0\<rparr>"


section \<open>Well-formed graphs\<close>

text \<open>The vertices are distinct, there are at most \<open>MAX\<close> of them, and every edge leads to one.\<close>

definition graph_ok :: "task_graph \<Rightarrow> bool" where
  "graph_ok tg \<longleftrightarrow> num tg \<le> VMAX \<and> distinct (map (\<lambda>v. (stype (vs v), sid (vs v))) (tg_list tg))
     \<and> (\<forall>v \<in> set (tg_list tg). \<forall>s \<in> set (vnext v). search_vertex tg s \<noteq> None)"

definition edges :: "task_graph \<Rightarrow> (nat \<times> nat) set" where
  "edges tg = {(i, j). i < num tg \<and> (\<exists>s \<in> set (vnext (tg_list tg ! i)). search_vertex tg s = Some j)}"

lemma search_from_Some:
  "search_from l s n = Some i \<Longrightarrow> n \<le> i \<and> i < n + length l \<and> same_vertex (vs (l ! (i - n))) s
     \<and> (\<forall>j < i - n. \<not> same_vertex (vs (l ! j)) s)"
proof (induction l s n rule: search_from.induct)
  case (2 v l s n)
  show ?case
  proof (cases "same_vertex (vs v) s")
    case False
    then have "n + 1 \<le> i \<and> i < n + 1 + length l \<and> same_vertex (vs (l ! (i - (n + 1)))) s
        \<and> (\<forall>j < i - (n + 1). \<not> same_vertex (vs (l ! j)) s)" using 2 by simp
    then show ?thesis using False by (auto simp: nth_Cons' less_diff_conv)
  qed (use 2 in simp)
qed simp

lemma search_from_None: "search_from l s n = None \<longleftrightarrow> (\<forall>v \<in> set l. \<not> same_vertex (vs v) s)"
  by (induction l s n rule: search_from.induct) auto

lemma search_vertex_less: "search_vertex tg s = Some i \<Longrightarrow> i < num tg"
  using search_from_Some [of "tg_list tg" s 0 i] by (simp add: search_vertex_def)

lemma edges_less: "(i, j) \<in> edges tg \<Longrightarrow> i < num tg \<and> j < num tg"
  by (auto simp: edges_def search_vertex_less)

section \<open>The search ends, inside its arrays\<close>

definition marked :: "task_graph \<Rightarrow> search \<Rightarrow> nat set" where
  "marked tg d = {i. i < num tg \<and> visited d ! i}"

definition unmarked :: "task_graph \<Rightarrow> search \<Rightarrow> nat" where
  "unmarked tg d = num tg - card (marked tg d)"

definition sized :: "search \<Rightarrow> bool" where
  "sized d \<longleftrightarrow> length (path d) = VMAX + 1 \<and> length (visited d) = VMAX"

lemma marked_le: "card (marked tg d) \<le> num tg"
proof -
  have "marked tg d \<subseteq> {..<num tg}" by (auto simp: marked_def)
  then show ?thesis using card_mono [of "{..<num tg}" "marked tg d"] by simp
qed

lemma marked_insert:
  assumes "i < num tg" "num tg \<le> length (visited d)"
  shows "marked tg (d\<lparr>visited := (visited d)[i := True]\<rparr>) = insert i (marked tg d)"
  using assms by (auto simp: marked_def nth_list_update')

lemma unmarked_insert:
  assumes "i < num tg" "num tg \<le> length (visited d)" "\<not> visited d ! i"
  shows "unmarked tg d = Suc (unmarked tg (d\<lparr>visited := (visited d)[i := True]\<rparr>))"
proof -
  let ?d = "d\<lparr>visited := (visited d)[i := True]\<rparr>"
  have "finite (marked tg d)" by (simp add: marked_def)
  then have "card (marked tg ?d) = Suc (card (marked tg d))"
    unfolding marked_insert [OF assms(1,2)] using assms(3) by (simp add: marked_def)
  then show ?thesis using marked_le [of tg ?d] by (simp add: unmarked_def)
qed

lemma push_path_Some:
  assumes "sized d" "sk d \<le> VMAX"
  shows "\<exists>d'. push_path i d = Some d' \<and> sized d' \<and> sk d' = Suc (sk d) \<and> visited d' = visited d
    \<and> deadlock d' = deadlock d \<and> d' = d\<lparr>path := path d', sk := sk d'\<rparr>"
  using assms by (auto simp: push_path_def sized_def)

lemma unmarked_cong: "visited d' = visited d \<Longrightarrow> unmarked tg d' = unmarked tg d"
  by (simp add: unmarked_def marked_def)

lemma unmarked_mono: "marked tg d \<subseteq> marked tg d' \<Longrightarrow> unmarked tg d' \<le> unmarked tg d"
  by (simp add: unmarked_def card_mono diff_le_mono2 marked_def)

lemma print_deadlock_simps [simp]:
  "path (print_deadlock tg d) = path d" "visited (print_deadlock tg d) = visited d"
  "sk (print_deadlock tg d) = sk d" "deadlock (print_deadlock tg d) = deadlock d"
  by (simp_all add: print_deadlock_def)

lemma dfs_returns:
  fixes n :: nat
  assumes "graph_ok tg"
  shows "i < num tg \<Longrightarrow> sized d \<Longrightarrow> unmarked tg d < n \<Longrightarrow> sk d + unmarked tg d \<le> VMAX \<Longrightarrow>
      \<exists>d'. DFS n tg i d = Some d' \<and> sized d' \<and> sk d' = Suc (sk d) \<and> marked tg d \<subseteq> marked tg d'"
    and "\<forall>s \<in> set ver. search_vertex tg s \<noteq> None \<Longrightarrow> sized d \<Longrightarrow> unmarked tg d < n \<Longrightarrow>
      sk d + unmarked tg d \<le> VMAX \<Longrightarrow>
      \<exists>d'. dfs_loop n tg ver d = Some d' \<and> sized d' \<and> sk d' = sk d \<and> marked tg d \<subseteq> marked tg d'"
  using assms
proof (induction n tg i d and n tg ver d rule: DFS_dfs_loop.induct)
  case (1 tg idx d)
  then show ?case by simp
next
  case (2 n tg idx d)
  have len: "num tg \<le> length (visited d)" using "2.prems" by (simp add: graph_ok_def sized_def)
  show ?case
  proof (cases "visited d ! idx")
    case True
    obtain d' where "push_path idx d = Some d'" "sized d'" "sk d' = Suc (sk d)" "visited d' = visited d"
      using push_path_Some [of d idx] "2.prems" by auto
    then show ?thesis using True by (auto simp: sized_def marked_def)
  next
    case False
    let ?d = "d\<lparr>visited := (visited d)[idx := True]\<rparr>"
    have u: "unmarked tg d = Suc (unmarked tg ?d)" using unmarked_insert [OF "2.prems"(1) len False] .
    have "sized ?d" using "2.prems"(2) by (simp add: sized_def)
    then obtain d1 where d1: "push_path idx ?d = Some d1" "sized d1" "sk d1 = Suc (sk d)" "visited d1 = visited ?d"
      using push_path_Some [of ?d idx] "2.prems"(4) by auto
    have u1: "unmarked tg d1 = unmarked tg ?d" using d1(4) by (rule unmarked_cong)
    have adj: "\<forall>s \<in> set (vnext (tg_list tg ! idx)). search_vertex tg s \<noteq> None"
      using "2.prems"(1,5) unfolding graph_ok_def by (meson nth_mem)
    have "\<exists>d'. dfs_loop n tg (vnext (tg_list tg ! idx)) d1 = Some d' \<and> sized d' \<and> sk d' = sk d1 \<and> marked tg d1 \<subseteq> marked tg d'"
      using "2.IH" [OF False d1(1) adj d1(2)] "2.prems" u u1 d1 by simp
    moreover have "marked tg d \<subseteq> marked tg d1"
      using marked_insert [OF "2.prems"(1) len] d1(4) by (auto simp: marked_def)
    ultimately show ?thesis using False d1 by auto
  qed
next
  case (3 n tg d)
  then show ?case by auto
next
  case (4 n tg v ver d)
  obtain j where j: "search_vertex tg v = Some j" using "4.prems" by auto
  obtain d1 where d1: "DFS n tg j d = Some d1" "sized d1" "sk d1 = Suc (sk d)" "marked tg d \<subseteq> marked tg d1"
    using "4.IH"(1) [OF j search_vertex_less [OF j]] "4.prems" by auto
  let ?d = "d1\<lparr>sk := sk d1 - 1\<rparr>"
  have m: "marked tg ?d = marked tg d1" by (simp add: marked_def)
  then have u: "unmarked tg ?d \<le> unmarked tg d" using unmarked_mono [OF d1(4)] by (simp add: unmarked_def)
  have "sized ?d" using d1(2) by (simp add: sized_def)
  then have "\<exists>d'. dfs_loop n tg ver ?d = Some d' \<and> sized d' \<and> sk d' = sk ?d \<and> marked tg ?d \<subseteq> marked tg d'"
    using "4.IH"(2) [OF j d1(1)] "4.prems" u d1(3) by simp
  then show ?case using j d1 m by auto
qed


section \<open>A cycle is found\<close>

text \<open>When no dead lock was reported, everything newly marked has only newly marked successors.\<close>

definition closed_new :: "task_graph \<Rightarrow> nat set \<Rightarrow> nat set \<Rightarrow> bool" where
  "closed_new tg A B \<longleftrightarrow> A \<subseteq> B \<and> (\<forall>x \<in> B - A. \<forall>y. (x, y) \<in> edges tg \<longrightarrow> y \<in> B - A)"

lemma push_pathD:
  "push_path i d = Some d' \<Longrightarrow> visited d' = visited d \<and> deadlock d' = deadlock d \<and> length (path d') = length (path d)"
  by (auto simp: push_path_def split: if_splits)

lemma closed_new_trans: "closed_new tg A B \<Longrightarrow> closed_new tg B C \<Longrightarrow> closed_new tg A C"
  unfolding closed_new_def by blast

lemma closed_new_sub: "closed_new tg A B \<Longrightarrow> A \<subseteq> B"
  unfolding closed_new_def by blast

lemma closed_new_insert:
  assumes c: "closed_new tg (insert i A) B" and e: "\<And>y. (i, y) \<in> edges tg \<Longrightarrow> y \<in> B - insert i A"
  shows "closed_new tg A B"
  unfolding closed_new_def
proof (intro conjI ballI allI impI)
  show "A \<subseteq> B" using closed_new_sub [OF c] by simp
  fix x y assume xy: "x \<in> B - A" "(x, y) \<in> edges tg"
  show "y \<in> B - A"
  proof (cases "x = i")
    case False
    then have "y \<in> B - insert i A" using c xy unfolding closed_new_def by blast
    then show ?thesis by simp
  qed (use e xy in auto)
qed

lemma dfs_length:
  "DFS n tg i d = Some d' \<Longrightarrow> length (visited d') = length (visited d)"
  "dfs_loop n tg ver d = Some d' \<Longrightarrow> length (visited d') = length (visited d)"
proof (induction n tg i d and n tg ver d arbitrary: d' and d' rule: DFS_dfs_loop.induct)
  case (2 n tg idx d)
  show ?case
  proof (cases "visited d ! idx")
    case True
    then show ?thesis using "2.prems" by (auto simp: bind_eq_Some_conv dest: push_pathD)
  next
    case False
    then obtain d1 where d1: "push_path idx (d\<lparr>visited := (visited d)[idx := True]\<rparr>) = Some d1"
      "dfs_loop n tg (vnext (tg_list tg ! idx)) d1 = Some d'"
      using "2.prems" by (auto simp: bind_eq_Some_conv)
    show ?thesis using "2.IH" [OF False d1] push_pathD [OF d1(1)] by simp
  qed
next
  case (4 n tg v ver d)
  then show ?case by (fastforce simp: bind_eq_Some_conv)
qed auto

lemma dfs_quiet:
  assumes "num tg \<le> VMAX"
  shows "DFS n tg i d = Some d' \<Longrightarrow> \<not> deadlock d' \<Longrightarrow> i < num tg \<Longrightarrow> length (visited d) = VMAX \<Longrightarrow>
      \<not> deadlock d \<and> length (visited d') = VMAX \<and> i \<in> marked tg d' - marked tg d
      \<and> closed_new tg (marked tg d) (marked tg d')"
    and "dfs_loop n tg ver d = Some d' \<Longrightarrow> \<not> deadlock d' \<Longrightarrow> length (visited d) = VMAX \<Longrightarrow>
      \<not> deadlock d \<and> length (visited d') = VMAX
      \<and> (\<forall>s \<in> set ver. \<forall>j. search_vertex tg s = Some j \<longrightarrow> j \<in> marked tg d' - marked tg d)
      \<and> closed_new tg (marked tg d) (marked tg d')"
  using assms
proof (induction n tg i d and n tg ver d arbitrary: d' and d' rule: DFS_dfs_loop.induct)
  case (1 tg idx d)
  then show ?case by simp
next
  case (2 n tg idx d)
  show ?case
  proof (cases "visited d ! idx")
    case True
    then show ?thesis using "2.prems" by (auto simp: bind_eq_Some_conv)
  next
    case False
    let ?d = "d\<lparr>visited := (visited d)[idx := True]\<rparr>"
    obtain d1 where d1: "push_path idx ?d = Some d1" "dfs_loop n tg (vnext (tg_list tg ! idx)) d1 = Some d'"
      using "2.prems"(1) False by (auto simp: bind_eq_Some_conv)
    note p = push_pathD [OF d1(1)]
    have m1: "marked tg d1 = insert idx (marked tg d)"
      using marked_insert [OF "2.prems"(3), of d] p "2.prems"(4,5) by (simp add: marked_def)
    have IH: "\<not> deadlock d1" "length (visited d') = VMAX"
      "\<forall>s \<in> set (vnext (tg_list tg ! idx)). \<forall>j. search_vertex tg s = Some j \<longrightarrow> j \<in> marked tg d' - marked tg d1"
      "closed_new tg (marked tg d1) (marked tg d')"
      using "2.IH" [OF False d1] "2.prems" p by simp_all
    have new: "idx \<notin> marked tg d" using False by (simp add: marked_def)
    have "y \<in> marked tg d' - marked tg d1" if "(idx, y) \<in> edges tg" for y
      using IH(3) that by (auto simp: edges_def)
    then have "closed_new tg (marked tg d) (marked tg d')"
      using closed_new_insert [of tg idx "marked tg d" "marked tg d'"] IH(4) m1 by simp
    moreover have "idx \<in> marked tg d'" using closed_new_sub [OF IH(4)] m1 by simp
    ultimately show ?thesis using IH(1,2) p new by simp
  qed
next
  case (3 n tg d)
  then show ?case by (auto simp: closed_new_def)
next
  case (4 n tg v ver d)
  obtain j d1 where j: "search_vertex tg v = Some j" and d1: "DFS n tg j d = Some d1"
    and l: "dfs_loop n tg ver (d1\<lparr>sk := sk d1 - 1\<rparr>) = Some d'"
    using "4.prems"(1) by (auto simp: bind_eq_Some_conv)
  let ?d = "d1\<lparr>sk := sk d1 - 1\<rparr>"
  have m: "marked tg ?d = marked tg d1" by (simp add: marked_def)
  have len1: "length (visited d1) = VMAX" using dfs_length(1) [OF d1] "4.prems"(3) by simp
  have B: "\<not> deadlock d1" "length (visited d') = VMAX"
    "\<forall>s \<in> set ver. \<forall>j. search_vertex tg s = Some j \<longrightarrow> j \<in> marked tg d' - marked tg d1"
    "closed_new tg (marked tg d1) (marked tg d')"
    using "4.IH"(2) [OF j d1 l] "4.prems" len1 m by simp_all
  have A: "\<not> deadlock d" "j \<in> marked tg d1 - marked tg d" "closed_new tg (marked tg d) (marked tg d1)"
    using "4.IH"(1) [OF j d1 B(1) search_vertex_less [OF j]] "4.prems" by simp_all
  have sub: "marked tg d \<subseteq> marked tg d1" "marked tg d1 \<subseteq> marked tg d'"
    using closed_new_sub [OF A(3)] closed_new_sub [OF B(4)] .
  have "\<forall>s \<in> set (v # ver). \<forall>j. search_vertex tg s = Some j \<longrightarrow> j \<in> marked tg d' - marked tg d"
  proof (intro ballI allI impI)
    fix s i assume s: "s \<in> set (v # ver)" "search_vertex tg s = Some i"
    show "i \<in> marked tg d' - marked tg d"
    proof (cases "s = v")
      case True
      then show ?thesis using s j A(2) sub by auto
    next
      case False
      then show ?thesis using s B(3) sub by auto
    qed
  qed
  then show ?case using A(1) B(2) closed_new_trans [OF A(3) B(4)] by blast
qed


lemma reset_search_simps [simp]:
  "sk (reset_search tg idx d) = 1" "deadlock (reset_search tg idx d) = deadlock d"
  "length (visited (reset_search tg idx d)) = length (visited d)"
  "length (path (reset_search tg idx d)) = length (path d)"
  by (simp_all add: reset_search_def)

lemma marked_reset:
  assumes "num tg \<le> length (visited d)" "idx < num tg" "visited d ! idx"
  shows "marked tg (reset_search tg idx d) = {idx}"
  using assms by (auto simp: marked_def reset_search_def)

lemma reset_start:
  assumes "graph_ok tg" "sized d" "idx < num tg" "visited d ! idx"
  shows "sized (reset_search tg idx d)" "unmarked tg (reset_search tg idx d) < num tg + 1"
    "1 + unmarked tg (reset_search tg idx d) \<le> VMAX"
proof -
  have "marked tg (reset_search tg idx d) = {idx}"
    using assms by (intro marked_reset) (auto simp: graph_ok_def sized_def)
  then show "sized (reset_search tg idx d)" "unmarked tg (reset_search tg idx d) < num tg + 1"
    "1 + unmarked tg (reset_search tg idx d) \<le> VMAX"
    using assms by (auto simp: sized_def unmarked_def graph_ok_def)
qed

lemma cycle_loop_returns:
  assumes g: "graph_ok tg" and "\<forall>s \<in> set ver. search_vertex tg s \<noteq> None" "sized d" "idx < num tg" "visited d ! idx"
  shows "\<exists>d'. cycle_loop tg idx ver d = Some d' \<and> sized d'"
  using assms(2-)
proof (induction ver arbitrary: d)
  case (Cons v ver)
  obtain j where j: "search_vertex tg v = Some j" using Cons.prems by auto
  note r = reset_start [OF g Cons.prems(2-4)]
  obtain d1 where d1: "DFS (num tg + 1) tg j (reset_search tg idx d) = Some d1" "sized d1"
      "marked tg (reset_search tg idx d) \<subseteq> marked tg d1"
    using dfs_returns(1) [OF g search_vertex_less [OF j] r(1,2)] r(3) by auto
  have "marked tg (reset_search tg idx d) = {idx}"
    using g Cons.prems by (intro marked_reset) (auto simp: graph_ok_def sized_def)
  then have "visited d1 ! idx" using d1(3) by (auto simp: marked_def)
  then show ?case using Cons.IH [of d1] Cons.prems d1 j by simp
qed simp

lemma search_for_cycle_returns:
  assumes g: "graph_ok tg" and d: "sized d" and i: "idx < num tg"
  shows "\<exists>d'. search_for_cycle tg idx d = Some d' \<and> sized d'"
proof -
  let ?d = "d\<lparr>visited := (visited d)[idx := True], sk := 0\<rparr>"
  have "sized ?d" using d by (simp add: sized_def)
  then obtain d1 where d1: "push_path idx ?d = Some d1" "sized d1" "visited d1 = visited ?d"
    using push_path_Some [of ?d idx] by auto
  have "visited d1 ! idx" using d1(3) d i g by (simp add: sized_def graph_ok_def)
  moreover have "\<forall>s \<in> set (vnext (tg_list tg ! idx)). search_vertex tg s \<noteq> None"
    using g i unfolding graph_ok_def by (meson nth_mem)
  ultimately show ?thesis using cycle_loop_returns [OF g _ d1(2) i] d1(1) by (simp add: search_for_cycle_def)
qed

lemma check_loop_returns:
  assumes "graph_ok tg" "sized d" "set is \<subseteq> {..<num tg}"
  shows "\<exists>d'. check_loop tg is d = Some d' \<and> sized d'"
  using assms(2,3)
proof (induction "is" arbitrary: d)
  case (Cons i "is")
  obtain d1 where "search_for_cycle tg i d = Some d1" "sized d1"
    using search_for_cycle_returns [OF assms(1) Cons.prems(1), of i] Cons.prems(2) by auto
  then show ?case using Cons.IH [of d1] Cons.prems by auto
qed simp

section \<open>Cycles are found\<close>

lemma closed_no_path:
  assumes "closed_new tg A B" "(x, y) \<in> (edges tg)\<^sup>*" "x \<in> B - A"
  shows "y \<in> B - A"
  using assms(2,3)
proof (induction rule: rtrancl_induct)
  case (step y z)
  then show ?case using assms(1) unfolding closed_new_def by blast
qed

lemma cycle_loop_quiet:
  assumes g: "graph_ok tg" and "cycle_loop tg idx ver d = Some d'" "\<not> deadlock d'" "sized d" "idx < num tg" "visited d ! idx"
  shows "\<not> deadlock d \<and> sized d' \<and>
    (\<forall>s \<in> set ver. \<forall>j. search_vertex tg s = Some j \<longrightarrow> (j, idx) \<notin> (edges tg)\<^sup>*)"
  using assms(2-)
proof (induction ver arbitrary: d)
  case (Cons v ver)
  let ?r = "reset_search tg idx d"
  obtain j d1 where j: "search_vertex tg v = Some j" and d1: "DFS (num tg + 1) tg j ?r = Some d1"
    and l: "cycle_loop tg idx ver d1 = Some d'" using Cons.prems by (auto simp: bind_eq_Some_conv)
  note r = reset_start [OF g Cons.prems(3-5)]
  have m: "marked tg ?r = {idx}"
    using g Cons.prems by (intro marked_reset) (auto simp: graph_ok_def sized_def)
  obtain d2 where "DFS (num tg + 1) tg j ?r = Some d2" "sized d2" "marked tg ?r \<subseteq> marked tg d2"
    using dfs_returns(1) [OF g search_vertex_less [OF j] r(1,2)] r(3) by auto
  then have s1: "sized d1" "visited d1 ! idx" using d1 m by (auto simp: marked_def)
  then have IH: "\<not> deadlock d1" "sized d'" "\<forall>s \<in> set ver. \<forall>j. search_vertex tg s = Some j \<longrightarrow> (j, idx) \<notin> (edges tg)\<^sup>*"
    using Cons.IH [OF l] Cons.prems by blast+
  have vn: "num tg \<le> VMAX" "length (visited ?r) = VMAX" using g r(1) by (auto simp: graph_ok_def sized_def)
  have q: "\<not> deadlock d" "j \<in> marked tg d1 - {idx}" "closed_new tg {idx} (marked tg d1)"
    using dfs_quiet(1) [OF vn(1) d1 IH(1) search_vertex_less [OF j] vn(2)] by (simp_all add: m)
  have "(j, idx) \<notin> (edges tg)\<^sup>*" using closed_no_path [OF q(3) _ q(2)] by blast
  then show ?case using q(1) IH j by auto
qed simp

lemma search_for_cycle_quiet:
  assumes g: "graph_ok tg" and s: "search_for_cycle tg idx d = Some d'" "\<not> deadlock d'" "sized d" "idx < num tg"
  shows "\<not> deadlock d \<and> sized d' \<and> (idx, idx) \<notin> (edges tg)\<^sup>+"
proof -
  let ?d = "d\<lparr>visited := (visited d)[idx := True], sk := 0\<rparr>"
  obtain d1 where d1: "push_path idx ?d = Some d1" "cycle_loop tg idx (vnext (tg_list tg ! idx)) d1 = Some d'"
    using s(1) by (auto simp: search_for_cycle_def bind_eq_Some_conv)
  have "sized ?d" using s(3) by (simp add: sized_def)
  then have d1': "sized d1" "visited d1 ! idx" "deadlock d1 = deadlock d"
    using push_pathD [OF d1(1)] s(3,4) g by (auto simp: sized_def graph_ok_def)
  have "\<not> deadlock d \<and> sized d' \<and>
      (\<forall>s \<in> set (vnext (tg_list tg ! idx)). \<forall>j. search_vertex tg s = Some j \<longrightarrow> (j, idx) \<notin> (edges tg)\<^sup>*)"
    using cycle_loop_quiet [OF g d1(2) s(2) d1'(1) s(4) d1'(2)] d1'(3) by simp
  moreover have "(idx, idx) \<notin> (edges tg)\<^sup>+"
    using calculation by (auto simp: edges_def dest!: tranclD)
  ultimately show ?thesis by blast
qed

lemma check_loop_quiet:
  assumes "graph_ok tg" "check_loop tg is d = Some d'" "\<not> deadlock d'" "sized d" "set is \<subseteq> {..<num tg}"
  shows "\<forall>i \<in> set is. (i, i) \<notin> (edges tg)\<^sup>+"
  using assms(2-)
proof (induction "is" arbitrary: d)
  case (Cons i "is")
  have "\<not> deadlock d" using Cons.prems by (auto split: if_splits)
  then obtain d1 where d1: "search_for_cycle tg i d = Some d1" "check_loop tg is d1 = Some d'"
    using Cons.prems by (auto simp: bind_eq_Some_conv)
  obtain d2 where "search_for_cycle tg i d = Some d2" "sized d2"
    using search_for_cycle_returns [OF assms(1) Cons.prems(3), of i] Cons.prems(4) by auto
  then have "sized d1" using d1 by simp
  moreover have "\<not> deadlock d1" using d1(2) Cons.prems(2) by (cases "is") (auto split: if_splits)
  ultimately show ?case
    using Cons.IH [OF d1(2)] Cons.prems search_for_cycle_quiet [OF assms(1) d1(1)] by auto
qed simp


section \<open>Reports are true when every thread waits for at most one other\<close>

definition single_wait :: "task_graph \<Rightarrow> bool" where
  "single_wait tg \<longleftrightarrow> (\<forall>v \<in> set (tg_list tg). length (vnext v) \<le> 1)"

lemma single_waitD: "single_wait tg \<Longrightarrow> i < num tg \<Longrightarrow> vnext (tg_list tg ! i) = [] \<or> (\<exists>s. vnext (tg_list tg ! i) = [s])"
  using nth_mem [of i "tg_list tg"] by (force simp: single_wait_def le_Suc_eq length_Suc_conv)

definition cyclic :: "task_graph \<Rightarrow> bool" where
  "cyclic tg \<longleftrightarrow> (\<exists>c. (c, c) \<in> (edges tg)\<^sup>+)"

lemma dfs_report:
  assumes w: "single_wait tg" "num tg \<le> VMAX"
  shows "DFS n tg i d = Some d' \<Longrightarrow> deadlock d' \<Longrightarrow> \<not> deadlock d \<Longrightarrow> i < num tg \<Longrightarrow> length (visited d) = VMAX \<Longrightarrow>
    (\<exists>y \<in> marked tg d. (i, y) \<in> (edges tg)\<^sup>*) \<or> cyclic tg"
proof (induction n arbitrary: i d d')
  case (Suc n)
  show ?case
  proof (cases "visited d ! i")
    case True
    then show ?thesis using Suc.prems(4) by (auto simp: marked_def)
  next
    case False
    let ?d = "d\<lparr>visited := (visited d)[i := True]\<rparr>"
    obtain d1 where d1: "push_path i ?d = Some d1" "dfs_loop n tg (vnext (tg_list tg ! i)) d1 = Some d'"
      using Suc.prems(1) False by (auto simp: bind_eq_Some_conv)
    note p = push_pathD [OF d1(1)]
    have "vnext (tg_list tg ! i) \<noteq> []" using d1(2) p Suc.prems by auto
    then obtain s where s: "vnext (tg_list tg ! i) = [s]" using single_waitD [OF w(1) Suc.prems(4)] by blast
    obtain j d2 where j: "search_vertex tg s = Some j" "DFS n tg j d1 = Some d2" "d' = d2\<lparr>sk := sk d2 - 1\<rparr>"
      using d1(2) s by (auto simp: bind_eq_Some_conv)
    have e: "(i, j) \<in> edges tg" using Suc.prems(4) s j(1) by (auto simp: edges_def)
    have m: "marked tg d1 = insert i (marked tg d)"
      using marked_insert [OF Suc.prems(4), of d] p Suc.prems(5) w(2) by (simp add: marked_def)
    have "(\<exists>y \<in> marked tg d1. (j, y) \<in> (edges tg)\<^sup>*) \<or> cyclic tg"
      using Suc.IH [OF j(2) _ _ search_vertex_less [OF j(1)]] Suc.prems p j(3) by simp
    then consider "cyclic tg" | "(j, i) \<in> (edges tg)\<^sup>*" | y where "y \<in> marked tg d" "(j, y) \<in> (edges tg)\<^sup>*"
      using m by auto
    then show ?thesis
    proof cases
      case 2
      then show ?thesis using rtrancl_into_trancl2 [OF e] by (auto simp: cyclic_def)
    next
      case 3
      then show ?thesis using converse_rtrancl_into_rtrancl [OF e] by blast
    qed simp
  qed
qed simp

lemma search_for_cycle_report:
  assumes g: "graph_ok tg" "single_wait tg" and s: "search_for_cycle tg idx d = Some d'" "deadlock d'" "\<not> deadlock d"
    and d: "sized d" "idx < num tg"
  shows "cyclic tg"
proof -
  let ?d = "d\<lparr>visited := (visited d)[idx := True], sk := 0\<rparr>"
  obtain d1 where d1: "push_path idx ?d = Some d1" "cycle_loop tg idx (vnext (tg_list tg ! idx)) d1 = Some d'"
    using s(1) by (auto simp: search_for_cycle_def bind_eq_Some_conv)
  have "sized ?d" using d(1) by (simp add: sized_def)
  then have d1': "sized d1" "visited d1 ! idx" "deadlock d1 = deadlock d"
    using push_pathD [OF d1(1)] d g(1) by (auto simp: sized_def graph_ok_def)
  have "vnext (tg_list tg ! idx) \<noteq> []" using d1(2) d1'(3) s by auto
  then obtain x where x: "vnext (tg_list tg ! idx) = [x]" using single_waitD [OF g(2) d(2)] by blast
  let ?r = "reset_search tg idx d1"
  obtain j where j: "search_vertex tg x = Some j" "DFS (num tg + 1) tg j ?r = Some d'"
    using d1(2) x by (auto simp: bind_eq_Some_conv simp del: DFS.simps)
  have n: "num tg \<le> VMAX" "length (visited ?r) = VMAX" using g(1) d1'(1) by (auto simp: graph_ok_def sized_def)
  have m: "marked tg ?r = {idx}" using n d(2) d1'(2) by (intro marked_reset) simp_all
  have e: "(idx, j) \<in> edges tg" using d(2) x j(1) by (auto simp: edges_def)
  have "(j, idx) \<in> (edges tg)\<^sup>* \<or> cyclic tg"
    using dfs_report [OF g(2) n(1) j(2) s(2) _ search_vertex_less [OF j(1)] n(2)] s(3) d1'(3) m by simp
  then show ?thesis using rtrancl_into_trancl2 [OF e] by (auto simp: cyclic_def)
qed

lemma check_loop_report:
  assumes "graph_ok tg" "single_wait tg" "check_loop tg is d = Some d'" "deadlock d'" "\<not> deadlock d"
    "sized d" "set is \<subseteq> {..<num tg}"
  shows "cyclic tg"
  using assms(3-)
proof (induction "is" arbitrary: d)
  case (Cons i "is")
  then obtain d1 where d1: "search_for_cycle tg i d = Some d1" "check_loop tg is d1 = Some d'"
    by (auto simp: bind_eq_Some_conv)
  have "sized d1" using search_for_cycle_returns [OF assms(1) Cons.prems(4), of i] Cons.prems(5) d1(1) by auto
  then show ?case
    using Cons.IH [OF d1(2)] search_for_cycle_report [OF assms(1,2) d1(1)] Cons.prems by (cases "deadlock d1") auto
qed simp

text \<open>
  C3. The detector is complete and always returns: on a well-formed graph of at most 100 threads
  \<open>check_dead_lock\<close> ends, never writes outside \<open>path\<close> or \<open>visited\<close>, and if the graph
  has a cycle it sets \<open>deadlock\<close>; and when every thread waits for at most one other, it sets
  \<open>deadlock\<close> only if there is a cycle.
\<close>

theorem check_dead_lock_correct:
  assumes "graph_ok tg" "length (path d) = 101" "length (visited d) = 100"
  shows "\<exists>d'. check_dead_lock tg d = Some d' \<and> length (path d') = 101 \<and> length (visited d') = 100
    \<and> (cyclic tg \<longrightarrow> deadlock d') \<and> (single_wait tg \<longrightarrow> (deadlock d' \<longleftrightarrow> cyclic tg))"
proof -
  let ?d = "d\<lparr>deadlock := False\<rparr>"
  have s: "sized ?d" using assms by (simp add: sized_def VMAX_def)
  have sub: "set [0..<num tg] \<subseteq> {..<num tg}" by auto
  obtain d' where d': "check_loop tg [0..<num tg] ?d = Some d'" "sized d'"
    using check_loop_returns [OF assms(1) s sub] by auto
  have complete: "deadlock d'" if "cyclic tg"
  proof (rule ccontr)
    assume "\<not> deadlock d'"
    then have no: "(i, i) \<notin> (edges tg)\<^sup>+" if "i < num tg" for i
      using check_loop_quiet [OF assms(1) d'(1) _ s sub] that by auto
    obtain c where c: "(c, c) \<in> (edges tg)\<^sup>+" using \<open>cyclic tg\<close> by (auto simp: cyclic_def)
    then have "c < num tg" using edges_less by (metis tranclD)
    then show False using no c by blast
  qed
  have sound: "cyclic tg" if "single_wait tg" "deadlock d'"
    using check_loop_report [OF assms(1) that(1) d'(1) that(2) _ s sub] by auto
  show ?thesis using d' complete sound by (auto simp: check_dead_lock_def sized_def VMAX_def)
qed


text \<open>Three threads in a ring, and four without a cycle.\<close>

definition demo_graph :: "(uint64 \<times> uint64) list \<Rightarrow> task_graph option" where
  "demo_graph es =
     fold (\<lambda>(a, b) g. Option.bind g (add_edge (thread_vertex a) (thread_vertex b))) es (Some (start_check []))"

definition ring_graph :: task_graph where
  "ring_graph = the (demo_graph [(1, 2), (2, 3), (3, 1)])"

definition diamond_graph :: task_graph where
  "diamond_graph = the (demo_graph [(1, 2), (2, 3), (2, 4), (3, 4)])"

definition demo_search :: search where
  "demo_search = \<lparr>path = replicate 101 0, visited = replicate 100 False, sk = 0, deadlock = False, printed = []\<rparr>"

lemmas graph_ops = demo_graph_def add_edge_def add_vertex_def search_vertex_def same_vertex_def
  thread_vertex_def create_vertex_def start_check_def VMAX_def

lemma ring_graph_eq:
  "ring_graph = \<lparr>tg_list = [\<lparr>vs = thread_vertex 1, vnext = [thread_vertex 2]\<rparr>, \<lparr>vs = thread_vertex 2, vnext = [thread_vertex 3]\<rparr>,
     \<lparr>vs = thread_vertex 3, vnext = [thread_vertex 1]\<rparr>], locklist = [], lockidx = 0\<rparr>"
  unfolding ring_graph_def graph_ops by code_simp

lemma diamond_graph_eq:
  "diamond_graph = \<lparr>tg_list = [\<lparr>vs = thread_vertex 1, vnext = [thread_vertex 2]\<rparr>,
     \<lparr>vs = thread_vertex 2, vnext = [thread_vertex 3, thread_vertex 4]\<rparr>,
     \<lparr>vs = thread_vertex 3, vnext = [thread_vertex 4]\<rparr>, \<lparr>vs = thread_vertex 4, vnext = []\<rparr>], locklist = [], lockidx = 0\<rparr>"
  unfolding diamond_graph_def graph_ops by code_simp

theorem check_dead_lock_correct_witness:
  "graph_ok ring_graph \<and> (\<exists>d'. check_dead_lock ring_graph demo_search = Some d' \<and> deadlock d')"
proof -
  have g: "graph_ok ring_graph"
    by (simp add: graph_ok_def ring_graph_eq graph_ops)
  have "(0, 1) \<in> edges ring_graph" "(1, 2) \<in> edges ring_graph" "(2, 0) \<in> edges ring_graph"
    by (simp_all add: edges_def ring_graph_eq graph_ops)
  then have "(0, 0) \<in> (edges ring_graph)\<^sup>+" by (meson trancl.simps)
  then have "cyclic ring_graph" by (auto simp: cyclic_def)
  then show ?thesis
    using g check_dead_lock_correct [OF g, of demo_search] by (auto simp: demo_search_def)
qed

text \<open>
  A false alarm. The marks are not removed when the search backs out of a vertex, so a vertex
  reached along two paths counts as a cycle: on the graph 1 to 2, 2 to 3, 2 to 4, 3 to 4, which has
  no cycle, \<open>check_dead_lock\<close> reports a dead lock.
\<close>

theorem check_dead_lock_false_alarm:
  "graph_ok diamond_graph \<and> \<not> cyclic diamond_graph
   \<and> (\<exists>d'. check_dead_lock diamond_graph demo_search = Some d' \<and> deadlock d' \<and> printed d' = [[1, 2, 4]])"
proof -
  have "graph_ok diamond_graph" by (simp add: graph_ok_def diamond_graph_eq graph_ops)
  moreover have e: "i < j" if "(i, j) \<in> edges diamond_graph" for i j
  proof -
    have "i < 4" using that by (auto simp: edges_def diamond_graph_eq)
    then consider "i = 0" | "i = 1" | "i = 2" | "i = 3" by linarith
    then show ?thesis using that by cases (auto simp: edges_def diamond_graph_eq graph_ops)
  qed
  have "i < j" if "(i, j) \<in> (edges diamond_graph)\<^sup>+" for i j
    using that by (induction rule: trancl_induct) (auto dest: e)
  then have "\<not> cyclic diamond_graph" by (auto simp: cyclic_def)
  moreover have "\<exists>d'. check_dead_lock diamond_graph demo_search = Some d' \<and> deadlock d' \<and> printed d' = [[1, 2, 4]]"
  proof -
    have "map_option (\<lambda>d. (deadlock d, printed d)) (check_dead_lock diamond_graph demo_search) = Some (True, [[1, 2, 4]])"
      unfolding diamond_graph_eq by code_simp
    then show ?thesis by auto
  qed
  ultimately show ?thesis by blast
qed


section \<open>Edges come and go\<close>

lemma graph_ok_target:
  assumes "graph_ok tg" "v \<in> set (tg_list tg)" "s \<in> set (vnext v)"
  shows "\<exists>i. search_vertex tg s = Some i"
  using assms by (auto simp: graph_ok_def)

lemma search_from_append:
  "search_from (l @ [v]) s n =
     (case search_from l s n of Some i \<Rightarrow> Some i | None \<Rightarrow> if same_vertex (vs v) s then Some (n + length l) else None)"
  by (induction l s n rule: search_from.induct) (auto split: option.splits)

lemma search_from_cong: "map vs l = map vs l' \<Longrightarrow> search_from l s n = search_from l' s n"
proof (induction l arbitrary: l' n)
  case (Cons v l)
  then obtain v' m where "l' = v' # m" "vs v' = vs v" "map vs m = map vs l" by (cases l') auto
  then show ?case using Cons.IH [of m "n + 1"] by simp
qed simp

lemma map_vs_update: "map vs (l[i := (l ! i)\<lparr>vnext := c\<rparr>]) = map vs l"
proof (cases "i < length l")
  case True
  then show ?thesis by (simp add: map_update) (metis list_update_id nth_map)
qed (simp add: list_update_beyond)

lemma search_chain_update:
  "search_vertex (tg\<lparr>tg_list := (tg_list tg)[i := (tg_list tg ! i)\<lparr>vnext := c\<rparr>]\<rparr>) s = search_vertex tg s"
  unfolding search_vertex_def using map_vs_update by (auto intro: search_from_cong)


lemma add_vertex_ok:
  assumes g: "graph_ok tg" and room: "search_vertex tg a = None \<Longrightarrow> num tg < VMAX"
  shows "\<exists>tg'. add_vertex a tg = Some tg' \<and> graph_ok tg' \<and> edges tg' = edges tg \<and> search_vertex tg' a \<noteq> None
    \<and> (\<forall>s i. search_vertex tg s = Some i \<longrightarrow> search_vertex tg' s = Some i)
    \<and> num tg' \<le> num tg + (if search_vertex tg a = None then 1 else 0)
    \<and> locklist tg' = locklist tg \<and> lockidx tg' = lockidx tg
    \<and> (\<forall>i < num tg. tg_list tg' ! i = tg_list tg ! i)
    \<and> (\<forall>i. num tg \<le> i \<and> i < num tg' \<longrightarrow> tg_list tg' ! i = create_vertex a)"
proof (cases "search_vertex tg a")
  case (Some i)
  then show ?thesis using g by (auto simp: add_vertex_def)
next
  case None
  let ?t = "tg\<lparr>tg_list := tg_list tg @ [create_vertex a]\<rparr>"
  have keep: "search_vertex ?t s = Some i" if "search_vertex tg s = Some i" for s i
    using that by (simp add: search_vertex_def search_from_append)
  have new: "search_vertex ?t a \<noteq> None"
    by (auto simp: search_vertex_def search_from_append create_vertex_def same_vertex_def split: option.splits)
  have old: "search_vertex ?t s = search_vertex tg s" if "v \<in> set (tg_list tg)" "s \<in> set (vnext v)" for v s
  proof -
    note vs' = that
    obtain i where "search_vertex tg s = Some i" using graph_ok_target [OF g vs'] by blast
    then show ?thesis using keep by simp
  qed
  have "distinct (map (\<lambda>v. (stype (vs v), sid (vs v))) (tg_list ?t))"
    using g None
    by (auto simp: graph_ok_def search_vertex_def search_from_None same_vertex_def create_vertex_def)
  moreover have "\<forall>v \<in> set (tg_list ?t). \<forall>s \<in> set (vnext v). search_vertex ?t s \<noteq> None"
    using graph_ok_target [OF g] old by (auto simp: create_vertex_def)
  ultimately have gok: "graph_ok ?t" using room [OF None] by (simp add: graph_ok_def)
  have "(i, j) \<in> edges ?t \<longleftrightarrow> (i, j) \<in> edges tg" for i j
  proof (cases "i < num tg")
    case True
    then show ?thesis using old [OF nth_mem [OF True]] by (auto simp: edges_def nth_append)
  next
    case False
    then show ?thesis by (auto simp: edges_def nth_append create_vertex_def less_Suc_eq)
  qed
  then have "edges ?t = edges tg" by auto
  then show ?thesis
    using gok keep new room [OF None] None by (auto simp: add_vertex_def nth_append less_Suc_eq)
qed


text \<open>Changing the chain of one vertex.\<close>

definition set_chain :: "nat \<Rightarrow> source_type list \<Rightarrow> task_graph \<Rightarrow> task_graph" where
  "set_chain i c tg = tg\<lparr>tg_list := (tg_list tg)[i := (tg_list tg ! i)\<lparr>vnext := c\<rparr>]\<rparr>"

lemma set_chain_simps [simp]:
  "num (set_chain i c tg) = num tg" "search_vertex (set_chain i c tg) s = search_vertex tg s"
  "locklist (set_chain i c tg) = locklist tg" "lockidx (set_chain i c tg) = lockidx tg"
  "i < num tg \<Longrightarrow> tg_list (set_chain i c tg) ! k = (if k = i then (tg_list tg ! i)\<lparr>vnext := c\<rparr> else tg_list tg ! k)"
  by (auto simp: set_chain_def search_chain_update nth_list_update')


lemma graph_ok_set_chain:
  assumes g: "graph_ok tg" and i: "i < num tg" and c: "\<forall>s \<in> set c. search_vertex tg s \<noteq> None"
  shows "graph_ok (set_chain i c tg)"
proof -
  have tl: "tg_list (set_chain i c tg) = (tg_list tg)[i := (tg_list tg ! i)\<lparr>vnext := c\<rparr>]"
    by (simp add: set_chain_def)
  have "map (\<lambda>v. (stype (vs v), sid (vs v))) (tg_list (set_chain i c tg)) =
      map (\<lambda>s. (stype s, sid s)) (map vs (tg_list (set_chain i c tg)))" by simp
  also have "\<dots> = map (\<lambda>v. (stype (vs v), sid (vs v))) (tg_list tg)"
    by (simp only: tl map_vs_update) simp
  finally have "distinct (map (\<lambda>v. (stype (vs v), sid (vs v))) (tg_list (set_chain i c tg)))"
    using g by (simp only: graph_ok_def)
  moreover have "search_vertex tg s \<noteq> None" if "v \<in> set (tg_list (set_chain i c tg))" "s \<in> set (vnext v)" for v s
  proof -
    note v = that(1)
    obtain k where k: "k < num tg" "v = tg_list (set_chain i c tg) ! k"
      using v by (metis in_set_conv_nth set_chain_simps(1))
    show ?thesis
    proof (cases "k = i")
      case True
      then show ?thesis using c that(2) k(2) i by simp
    next
      case False
      then show ?thesis using graph_ok_target [OF g nth_mem [OF k(1)]] that(2) k(2) i by auto
    qed
  qed
  ultimately show ?thesis using g unfolding graph_ok_def set_chain_simps by blast
qed

lemma edges_set_chain:
  assumes "i < num tg"
  shows "edges (set_chain i c tg) =
    {(k, j) \<in> edges tg. k \<noteq> i} \<union> {(i, j) | j. \<exists>s \<in> set c. search_vertex tg s = Some j}"
  using assms by (fastforce simp: edges_def split: if_splits)

lemma add_edge_ok:
  assumes g: "graph_ok tg" and room: "num tg + 2 \<le> VMAX"
  shows "\<exists>tg' i j. add_edge a b tg = Some tg' \<and> graph_ok tg' \<and> search_vertex tg' a = Some i
    \<and> search_vertex tg' b = Some j \<and> edges tg' = insert (i, j) (edges tg)
    \<and> locklist tg' = locklist tg \<and> lockidx tg' = lockidx tg
    \<and> (\<forall>s k. search_vertex tg s = Some k \<longrightarrow> search_vertex tg' s = Some k)"
proof -
  obtain t1 where t1: "add_vertex a tg = Some t1" "graph_ok t1" "edges t1 = edges tg" "search_vertex t1 a \<noteq> None"
    "\<forall>s i. search_vertex tg s = Some i \<longrightarrow> search_vertex t1 s = Some i" "num t1 \<le> num tg + 1"
    "locklist t1 = locklist tg" "lockidx t1 = lockidx tg"
    using add_vertex_ok [OF g, of a] room by (fastforce split: if_splits)
  obtain t2 where t2: "add_vertex b t1 = Some t2" "graph_ok t2" "edges t2 = edges t1" "search_vertex t2 b \<noteq> None"
    "\<forall>s i. search_vertex t1 s = Some i \<longrightarrow> search_vertex t2 s = Some i"
    "locklist t2 = locklist t1" "lockidx t2 = lockidx t1"
    using add_vertex_ok [OF t1(2), of b] room t1(6) by fastforce
  obtain i where i: "search_vertex t2 a = Some i" using t1(4) t2(5) by auto
  obtain j where j: "search_vertex t2 b = Some j" using t2(4) by auto
  have il: "i < num t2" using search_vertex_less [OF i] .
  let ?c = "vnext (tg_list t2 ! i) @ [b]"
  have r: "add_edge a b tg = Some (set_chain i ?c t2)"
    using t1(1) t2(1) i by (simp add: add_edge_def set_chain_def create_vertex_def Let_def)
  have "\<forall>s \<in> set (vnext (tg_list t2 ! i)). search_vertex t2 s \<noteq> None"
    using graph_ok_target [OF t2(2) nth_mem [OF il]] by auto
  then have "graph_ok (set_chain i ?c t2)" using t2(2) il j by (intro graph_ok_set_chain) auto
  moreover have "edges (set_chain i ?c t2) = insert (i, j) (edges t2)"
    unfolding edges_set_chain [OF il] using il j by (auto simp: edges_def)
  ultimately show ?thesis using r i j t1 t2 by auto
qed











section \<open>The hooks\<close>




lemma lock_before_loop_append:
  "lock_before_loop t l (xs @ ys) tg = Option.bind (lock_before_loop t l xs tg) (lock_before_loop t l ys)"
  by (induction t l xs tg rule: lock_before_loop.induct)
    (auto simp: Let_def split: bind_splits)

lemma lock_before_loop_skip:
  "\<forall>i \<in> set is. i < length (locklist tg) \<and> lock_id (locklist tg ! i) \<noteq> l \<Longrightarrow> lock_before_loop t l is tg = Some tg"
  by (induction t l "is" tg rule: lock_before_loop.induct) auto








section \<open>Threads that take and release locks\<close>



abbreviation free_entry :: source_type where
  "free_entry \<equiv> \<lparr>sid = 0, stype = PROCESS, lock_id = 0, degress = 0\<rparr>"












section \<open>The hooks keep the invariant\<close>




































text \<open>
  A second thread that asks for the same mutex is beyond the detector. \<open>lock_after\<close> writes the new owner over the
  old one without a change to the edges of the others, so the thread 3, which asked while 1 held the mutex and takes
  it after 2, keeps its edge to 1 for good, although nobody asks for a mutex. And a thread that asks while the mutex
  is free gets no edge to the thread that takes it before.
\<close>

theorem second_waiter_leaves_stale_edge:
  "case do { tg \<leftarrow> pthread_mutex_lock 1 5 (start_check (replicate 100 free_entry)); tg \<leftarrow> lock_before 2 5 tg; tg \<leftarrow> lock_before 3 5 tg;
           tg \<leftarrow> unlock_after 1 5 tg; tg \<leftarrow> lock_after 2 5 tg; tg \<leftarrow> unlock_after 2 5 tg; tg \<leftarrow> lock_after 3 5 tg; unlock_after 3 5 tg }
   of None \<Rightarrow> False | Some tg \<Rightarrow> verify_edge tg (thread_vertex 3) (thread_vertex 1)"
  by code_simp

theorem early_asker_gets_no_edge:
  "case do { tg \<leftarrow> lock_before 2 5 (start_check (replicate 100 free_entry)); tg \<leftarrow> lock_before 3 5 tg; lock_after 2 5 tg }
   of None \<Rightarrow> False | Some tg \<Rightarrow> \<not> verify_edge tg (thread_vertex 3) (thread_vertex 2)"
  by code_simp


section \<open>The list of locks runs full\<close>

text \<open>A thread that takes and releases the same lock \<open>n\<close> times.\<close>

fun lock_rounds :: "uint64 \<Rightarrow> uint64 \<Rightarrow> nat \<Rightarrow> task_graph \<Rightarrow> task_graph option" where
  "lock_rounds t l 0 tg = Some tg"
| "lock_rounds t l (Suc n) tg =
     do { tg \<leftarrow> lock_rounds t l n tg; tg \<leftarrow> pthread_mutex_lock t l tg; pthread_mutex_unlock t l tg }"

lemma lock_index_zero:
  "l \<noteq> 0 \<Longrightarrow> \<forall>i \<in> set is. i < m \<Longrightarrow> lock_index (replicate m free_entry) l is = Some None"
  by (induction "is") auto

lemma lock_round:
  assumes l: "l \<noteq> 0" and n: "n \<le> 100"
  shows "Option.bind (pthread_mutex_lock t l ((start_check (replicate 100 free_entry))\<lparr>lockidx := n\<rparr>)) (pthread_mutex_unlock t l) =
    Some ((start_check (replicate 100 free_entry))\<lparr>lockidx := Suc n\<rparr>)"
proof -
  let ?Z = "replicate 100 free_entry"
  let ?s = "(start_check ?Z)\<lparr>lockidx := n\<rparr>"
  let ?L = "?Z[0 := free_entry\<lparr>sid := t, lock_id := l\<rparr>]"
  have 1: "lock_before t l ?s = Some ?s"
    unfolding lock_before_def using l n by (intro lock_before_loop_skip) (auto simp: start_check_def)
  have 2: "search_lock ?s l = Some None"
    unfolding search_lock_def using n by (simp add: start_check_def lock_index_zero [OF l])
  have "lock_index ?Z 0 [0..<n] = Some (if n = 0 then None else Some 0)"
    by (cases "n = 0") (simp_all add: upt_conv_Cons)
  then have 3: "search_empty_lock ?s = Some 0"
    by (cases "n = 0") (simp_all add: search_empty_lock_def start_check_def)
  have 4: "lock_after t l ?s = Some ((start_check ?Z)\<lparr>locklist := ?L, lockidx := Suc n\<rparr>)"
    using 2 3 by (simp add: lock_after_def upd_lock_def inc_def start_check_def nat_add_distrib)
  let ?u = "(start_check ?Z)\<lparr>locklist := ?L, lockidx := Suc n\<rparr>"
  have "lock_index ?L l [0..<Suc n] = Some (Some 0)" by (simp add: upt_conv_Cons del: upt_Suc)
  then have "unlock_after t l ?u = Some ((start_check ?Z)\<lparr>lockidx := Suc n\<rparr>)"
    unfolding unlock_after_def search_lock_def
    by (simp add: upd_lock_def start_check_def list_update_same_conv)
  then show ?thesis using 1 4 by (simp add: pthread_mutex_lock_def pthread_mutex_unlock_def)
qed

text \<open>
  \<open>lockidx\<close> only grows. \<open>lock_after\<close> increments it even when it reuses an empty entry and
  \<open>unlock_after\<close> never decrements it, so one thread that takes and releases one lock
  \<open>n\<close> times leaves \<open>lockidx\<close> at \<open>n\<close> although no lock is held; from the 102nd time on
  the hooks read past the end of the 100 entries of \<open>locklist\<close>.
\<close>

theorem lock_list_overruns:
  assumes "l \<noteq> 0"
  shows "lock_rounds t l n (start_check (replicate 100 free_entry)) =
    (if n \<le> 101 then Some ((start_check (replicate 100 free_entry))\<lparr>lockidx := n\<rparr>) else None)"
proof (induction n)
  case 0
  then show ?case by (simp add: start_check_def)
next
  case (Suc n)
  consider "n \<le> 100" | "n = 101" | "101 < n" by linarith
  then show ?case
  proof cases
    case 1
    then show ?thesis using Suc lock_round [OF assms 1, of t] by simp
  next
    case 2
    let ?s = "(start_check (replicate 100 free_entry))\<lparr>lockidx := n\<rparr>"
    have "[0..<101] = [0..<100] @ [100::nat]" by (simp add: upt_rec)
    then have "lock_before t l ?s = None"
      using assms 2 lock_before_loop_skip [of "[0..<100]" ?s l t]
      by (simp add: lock_before_def lock_before_loop_append start_check_def)
    then show ?thesis unfolding lock_rounds.simps using Suc 2 by (simp add: pthread_mutex_lock_def)
  next
    case 3
    then show ?thesis using Suc by simp
  qed
qed

theorem lock_list_overruns_witness:
  "lock_rounds 7 50 102 (start_check (replicate 100 free_entry)) = None"
  using lock_list_overruns [of 50 7 102] by simp

end
