(* ===== verification/MMPool.thy ===== *)
theory MMPool
  imports Prelude
begin

unbundle bit_operations_syntax

text \<open>
  The memory pool, \<open>6.../mmpool.c\<close>: blocks of one size in a chain from the head node embedded in
  the pool, a bump pointer per block, and a list of large allocations.

  Pointers and sizes are 64-bit words; \<open>sizeof(struct mp_pool_s)\<close> is 24,
  \<open>sizeof(struct mp_node_s)\<close> 32 and \<open>sizeof(struct mp_large_s)\<close> 16. The chain of nodes is a
  list in the order of the \<open>next\<close> pointers and \<open>current\<close> an index into it. \<open>mp_create_pool\<close> never
  writes \<open>head->next\<close>, so the nodes that the old contents of that field lead to are an argument of its
  model, the empty chain when the memory was zero there. What \<open>malloc\<close> and \<open>posix_memalign\<close> return is the argument
  \<open>env\<close>, one entry per call, \<^const>\<open>None\<close> a failure, and failure once it is used up.
  \<open>freed\<close> records the calls of \<open>free\<close>.
\<close>

section \<open>Data\<close>

definition MP_ALIGNMENT :: uint64 where "MP_ALIGNMENT = 32"
definition MP_MAX_ALLOC_FROM_POOL :: uint64 where "MP_MAX_ALLOC_FROM_POOL = 4096 - 1"
definition SIZEOF_POOL :: uint64 where "SIZEOF_POOL = 24"
definition SIZEOF_NODE :: uint64 where "SIZEOF_NODE = 32"
definition SIZEOF_LARGE :: uint64 where "SIZEOF_LARGE = 16"

definition mp_align :: "uint64 \<Rightarrow> uint64" where
  "mp_align p = (p + (MP_ALIGNMENT - 1)) AND NOT (MP_ALIGNMENT - 1)"

record mp_large =
  lg_addr :: uint64
  lg_alloc :: "uint64 option"

record mp_node =
  nd_addr :: uint64
  nd_last :: uint64
  nd_end :: uint64
  nd_failed :: uint64

record mp_pool =
  mp_addr :: uint64
  mp_max :: uint64
  mp_current :: nat
  mp_larges :: "mp_large list"
  mp_nodes :: "mp_node list"
  mp_freed :: "uint64 list"

type_synonym env = "uint64 option list"

section \<open>Operations\<close>

text \<open>The result of \<open>posix_memalign\<close> is a block and the chain of nodes behind the old \<open>head->next\<close> in it.\<close>

definition mp_create_pool :: "(uint64 \<times> mp_node list) option \<Rightarrow> uint64 \<Rightarrow> mp_pool option" where
  "mp_create_pool mem sz =
     (case mem of
        None \<Rightarrow> None
      | Some (p, old) \<Rightarrow>
          (let lst = p + SIZEOF_POOL + SIZEOF_NODE
           in Some \<lparr>mp_addr = p,
                mp_max = (if sz < MP_MAX_ALLOC_FROM_POOL then sz else MP_MAX_ALLOC_FROM_POOL),
                mp_current = 0, mp_larges = [],
                mp_nodes = \<lparr>nd_addr = p + SIZEOF_POOL, nd_last = lst, nd_end = lst + sz, nd_failed = 0\<rparr> # old,
                mp_freed = []\<rparr>))"

definition allocs :: "mp_large list \<Rightarrow> uint64 list" where
  "allocs ls = List.map_filter lg_alloc ls"

definition mp_destory_pool :: "mp_pool \<Rightarrow> uint64 list" where
  "mp_destory_pool pool =
     mp_freed pool @ allocs (mp_larges pool) @ map nd_addr (tl (mp_nodes pool)) @ [mp_addr pool]"

definition mp_reset_pool :: "mp_pool \<Rightarrow> mp_pool" where
  "mp_reset_pool pool =
     pool\<lparr>mp_freed := mp_freed pool @ allocs (mp_larges pool), mp_larges := [],
          mp_nodes := map (\<lambda>h. h\<lparr>nd_last := nd_addr h + SIZEOF_NODE\<rparr>) (mp_nodes pool)\<rparr>"

text \<open>The loop over the nodes from \<open>p\<close> on that have a successor.\<close>

fun count_failures :: "nat \<Rightarrow> nat \<Rightarrow> nat \<Rightarrow> mp_node list \<Rightarrow> nat \<times> mp_node list" where
  "count_failures 0 p current nodes = (current, nodes)"
| "count_failures (Suc n) p current nodes =
     (let f = nd_failed (nodes ! p);
          nodes = nodes[p := (nodes ! p)\<lparr>nd_failed := f + 1\<rparr>]
      in count_failures n (p + 1) (if f > 4 then p + 1 else current) nodes)"

definition mp_alloc_block :: "env \<Rightarrow> mp_pool \<Rightarrow> uint64 \<Rightarrow> uint64 option \<times> env \<times> mp_pool" where
  "mp_alloc_block env pool sz =
     (let h = mp_nodes pool ! 0;
          psize = nd_end h - nd_addr h
      in case env of
           [] \<Rightarrow> (None, [], pool)
         | None # env \<Rightarrow> (None, env, pool)
         | Some b # env \<Rightarrow>
             (let m = mp_align (b + SIZEOF_NODE);
                  new_node = \<lparr>nd_addr = b, nd_last = m + sz, nd_end = b + psize, nd_failed = 0\<rparr>;
                  cur = mp_current pool
              in case count_failures (length (mp_nodes pool) - 1 - cur) cur cur (mp_nodes pool) of
                   (current, nodes) \<Rightarrow>
                     (Some m, env, pool\<lparr>mp_nodes := nodes @ [new_node], mp_current := current\<rparr>)))"

text \<open>
  The search for room from \<open>current\<close> on; \<open>align\<close> is \<open>mp_align_ptr\<close> in \<open>mp_alloc\<close>
  and the identity in \<open>mp_nalloc\<close>. The pointer difference is cast to \<open>size_t\<close>.
\<close>

fun find_room :: "(uint64 \<Rightarrow> uint64) \<Rightarrow> uint64 \<Rightarrow> mp_node list \<Rightarrow> nat list \<Rightarrow> (nat \<times> uint64) option" where
  "find_room align sz nodes [] = None"
| "find_room align sz nodes (p # ps) =
     (let m = align (nd_last (nodes ! p))
      in if nd_end (nodes ! p) - m \<ge> sz then Some (p, m) else find_room align sz nodes ps)"

definition mp_alloc_small ::
    "(uint64 \<Rightarrow> uint64) \<Rightarrow> env \<Rightarrow> mp_pool \<Rightarrow> uint64 \<Rightarrow> uint64 option \<times> env \<times> mp_pool" where
  "mp_alloc_small align env pool sz =
     (case find_room align sz (mp_nodes pool) [mp_current pool..<length (mp_nodes pool)] of
        Some (p, m) \<Rightarrow>
          (Some m, env, pool\<lparr>mp_nodes := (mp_nodes pool)[p := (mp_nodes pool ! p)\<lparr>nd_last := m + sz\<rparr>]\<rparr>)
      | None \<Rightarrow> mp_alloc_block env pool sz)"

text \<open>The first of the first five entries of the list of large allocations that is free.\<close>

fun free_large :: "mp_large list \<Rightarrow> nat \<Rightarrow> nat \<Rightarrow> nat option" where
  "free_large [] i n = None"
| "free_large (l # ls) i n =
     (if lg_alloc l = None then Some i else if n > 3 then None else free_large ls (i + 1) (n + 1))"

function mp_alloc_with :: "(uint64 \<Rightarrow> uint64) \<Rightarrow> env \<Rightarrow> mp_pool \<Rightarrow> uint64 \<Rightarrow> uint64 option \<times> env \<times> mp_pool"
and mp_alloc_large :: "env \<Rightarrow> mp_pool \<Rightarrow> uint64 \<Rightarrow> uint64 option \<times> env \<times> mp_pool" where
  "mp_alloc_with align env pool sz =
     (if sz \<le> mp_max pool then mp_alloc_small align env pool sz else mp_alloc_large env pool sz)"
| "mp_alloc_large env pool sz =
     (case env of
        [] \<Rightarrow> (None, [], pool)
      | None # env \<Rightarrow> (None, env, pool)
      | Some p # env \<Rightarrow>
          (case free_large (mp_larges pool) 0 0 of
             Some i \<Rightarrow> (Some p, env, pool\<lparr>mp_larges := (mp_larges pool)[i := (mp_larges pool ! i)\<lparr>lg_alloc := Some p\<rparr>]\<rparr>)
           | None \<Rightarrow>
               (case mp_alloc_with mp_align env pool SIZEOF_LARGE of
                  (None, env, pool) \<Rightarrow> (None, env, pool\<lparr>mp_freed := mp_freed pool @ [p]\<rparr>)
                | (Some l, env, pool) \<Rightarrow>
                    (Some p, env, pool\<lparr>mp_larges := \<lparr>lg_addr = l, lg_alloc = Some p\<rparr> # mp_larges pool\<rparr>))))"
  by pat_completeness auto
termination
  by (relation "measure (\<lambda>x. case x of Inl (_, env, _, _) \<Rightarrow> 2 * length env + 1 | Inr (env, _, _) \<Rightarrow> 2 * length env)") auto

definition mp_alloc :: "env \<Rightarrow> mp_pool \<Rightarrow> uint64 \<Rightarrow> uint64 option \<times> env \<times> mp_pool" where
  "mp_alloc = mp_alloc_with mp_align"

definition mp_nalloc :: "env \<Rightarrow> mp_pool \<Rightarrow> uint64 \<Rightarrow> uint64 option \<times> env \<times> mp_pool" where
  "mp_nalloc = mp_alloc_with (\<lambda>p. p)"

definition mp_memalign :: "env \<Rightarrow> mp_pool \<Rightarrow> uint64 option \<times> env \<times> mp_pool" where
  "mp_memalign env pool =
     (case env of
        [] \<Rightarrow> (None, [], pool)
      | None # env \<Rightarrow> (None, env, pool)
      | Some p # env \<Rightarrow>
          (case mp_alloc env pool SIZEOF_LARGE of
             (None, env, pool) \<Rightarrow> (None, env, pool\<lparr>mp_freed := mp_freed pool @ [p]\<rparr>)
           | (Some l, env, pool) \<Rightarrow>
               (Some p, env, pool\<lparr>mp_larges := \<lparr>lg_addr = l, lg_alloc = Some p\<rparr> # mp_larges pool\<rparr>)))"

definition mp_calloc ::
    "env \<Rightarrow> mp_pool \<Rightarrow> uint64 \<Rightarrow> (uint64 \<Rightarrow> uint8) \<Rightarrow> uint64 option \<times> env \<times> mp_pool \<times> (uint64 \<Rightarrow> uint8)" where
  "mp_calloc env pool sz mem =
     (case mp_alloc env pool sz of
        (None, env, pool) \<Rightarrow> (None, env, pool, mem)
      | (Some p, env, pool) \<Rightarrow> (Some p, env, pool, \<lambda>a. if a - p < sz then 0 else mem a))"

fun free_in :: "mp_large list \<Rightarrow> uint64 \<Rightarrow> (uint64 list \<times> mp_large list)" where
  "free_in [] p = ([], [])"
| "free_in (l # ls) p =
     (if lg_alloc l = Some p then ([p], l\<lparr>lg_alloc := None\<rparr> # ls)
      else (case free_in ls p of (f, ls) \<Rightarrow> (f, l # ls)))"

definition mp_free :: "mp_pool \<Rightarrow> uint64 \<Rightarrow> mp_pool" where
  "mp_free pool p =
     (case free_in (mp_larges pool) p of
        (f, ls) \<Rightarrow> pool\<lparr>mp_larges := ls, mp_freed := mp_freed pool @ f\<rparr>)"


section \<open>Alignment\<close>

lemma unat_less_64: "unat (w::uint64) < 2 ^ 64"
  using unsigned_less [of w, where 'a = nat] by simp

lemma mp_align_bits: "mp_align p = push_bit 5 (drop_bit 5 (p + 31))"
proof -
  have "mp_align p = (p + 31) AND NOT (mask 5)"
    by (simp add: mp_align_def MP_ALIGNMENT_def mask_eq_exp_minus_1)
  also have "\<dots> = push_bit 5 (drop_bit 5 (p + 31))"
    by (rule bit_eqI) (auto simp: bit_simps)
  finally show ?thesis .
qed

lemma unat_mp_align:
  assumes "unat p + 31 < 2 ^ 64"
  shows "unat (mp_align p) = 32 * ((unat p + 31) div 32)"
proof -
  have p: "unat (p + 31) = unat p + 31" using assms by (simp add: unat_word_ariths)
  have "unat (drop_bit 5 (p + 31)) = (unat p + 31) div 32"
    unfolding unat_drop_bit_eq p by (simp add: drop_bit_eq_div)
  moreover have "32 * ((unat p + 31) div 32) < 2 ^ 64"
    using assms by (metis (no_types, lifting) div_times_less_eq_dividend le_less_trans mult.commute)
  ultimately show ?thesis
    unfolding mp_align_bits push_bit_eq_mult by (simp add: unat_word_ariths mult.commute)
qed

lemma mp_align_ge:
  assumes "unat p + 31 < 2 ^ 64"
  shows "unat p \<le> unat (mp_align p)" "32 dvd unat (mp_align p)" "unat (mp_align p) < unat p + 32"
  using unat_mp_align [OF assms] by auto

lemma mp_align_id:
  assumes "32 dvd unat p" "unat p + 31 < 2 ^ 64"
  shows "mp_align p = p"
proof -
  have "unat (mp_align p) = unat p" using unat_mp_align [OF assms(2)] assms(1) by auto
  then show ?thesis by (simp only: word_unat_eq_iff)
qed

section \<open>Bounds\<close>

text \<open>
  \<open>fits_node\<close>: the bump pointer lies inside the node and the addresses are far from the end of the
  address space; \<open>snug\<close>: rounding the bump pointer up does not leave the node.
\<close>

definition fits_node :: "mp_node \<Rightarrow> bool" where
  "fits_node nd \<longleftrightarrow> unat (nd_last nd) \<le> unat (nd_end nd) \<and> unat (nd_end nd) + 31 < 2 ^ 64"

definition snug :: "mp_node \<Rightarrow> bool" where
  "snug nd \<longleftrightarrow> unat (mp_align (nd_last nd)) \<le> unat (nd_end nd)"

text \<open>
  A well-formed pool: the capacity \<open>psize\<close> of a block is the same as the head's, large enough for
  a request of \<open>max\<close> bytes behind the node header.
\<close>

definition pool_ok :: "mp_pool \<Rightarrow> bool" where
  "pool_ok pool \<longleftrightarrow> mp_nodes pool \<noteq> [] \<and> mp_current pool < length (mp_nodes pool)
     \<and> (\<forall>nd \<in> set (mp_nodes pool). fits_node nd)
     \<and> unat (mp_max pool) + 32 \<le> unat (nd_end (mp_nodes pool ! 0) - nd_addr (mp_nodes pool ! 0))"

text \<open>
  The contract of \<open>posix_memalign\<close>: a block of \<open>psize\<close> bytes aligned to 32 that does not wrap
  around the address space.
\<close>

definition good_block :: "uint64 \<Rightarrow> uint64 \<Rightarrow> bool" where
  "good_block psize b \<longleftrightarrow> 32 dvd unat b \<and> unat b + unat psize + 31 < 2 ^ 64"

text \<open>A block of \<open>sz\<close> bytes at \<open>m\<close> in the node \<open>nd\<close>, past everything handed out before.\<close>

definition in_node :: "mp_node \<Rightarrow> uint64 \<Rightarrow> uint64 \<Rightarrow> bool" where
  "in_node nd m sz \<longleftrightarrow> unat (nd_last nd) \<le> unat m \<and> unat m + unat sz \<le> unat (nd_end nd)"

lemma count_failures_keeps:
  "count_failures n p cur nodes = (cur', nodes') \<Longrightarrow> p + n < length nodes \<Longrightarrow> cur \<le> p \<Longrightarrow>
     length nodes' = length nodes \<and> cur \<le> cur' \<and> cur' \<le> p + n
     \<and> (\<forall>i < length nodes. \<exists>f. nodes' ! i = (nodes ! i)\<lparr>nd_failed := f\<rparr>)"
proof (induction n p cur nodes arbitrary: cur' nodes' rule: count_failures.induct)
  case (1 p current nodes)
  have "\<exists>f. nd = nd\<lparr>nd_failed := f\<rparr>" for nd :: mp_node by (rule exI [of _ "nd_failed nd"]) simp
  then show ?case using 1 by auto
next
  case (2 n p current nodes)
  let ?f = "nd_failed (nodes ! p)"
  let ?nodes = "nodes[p := (nodes ! p)\<lparr>nd_failed := ?f + 1\<rparr>]"
  let ?cur = "if ?f > 4 then p + 1 else current"
  have e: "count_failures n (p + 1) ?cur ?nodes = (cur', nodes')" using "2.prems"(1) by (simp add: Let_def)
  have IH: "length nodes' = length ?nodes \<and> ?cur \<le> cur' \<and> cur' \<le> p + 1 + n
      \<and> (\<forall>i < length ?nodes. \<exists>f. nodes' ! i = (?nodes ! i)\<lparr>nd_failed := f\<rparr>)"
    using "2.IH" [OF refl refl e] "2.prems"(2,3) by auto
  have "\<exists>f. nodes' ! i = (nodes ! i)\<lparr>nd_failed := f\<rparr>" if "i < length nodes" for i
  proof -
    have "i < length ?nodes" using that by simp
    then obtain f where "nodes' ! i = (?nodes ! i)\<lparr>nd_failed := f\<rparr>" using IH by blast
    then show ?thesis by (auto simp: nth_list_update')
  qed
  then show ?case using IH "2.prems"(3) by (auto split: if_splits)
qed

lemma find_room_Some:
  "find_room align sz nodes ps = Some (p, m) \<Longrightarrow>
     p \<in> set ps \<and> m = align (nd_last (nodes ! p)) \<and> nd_end (nodes ! p) - m \<ge> sz"
  by (induction align sz nodes ps rule: find_room.induct) (auto simp: Let_def split: if_splits)

lemma room_in_node:
  assumes "fits_node nd" "unat (nd_last nd) \<le> unat m" "unat m \<le> unat (nd_end nd)" "nd_end nd - m \<ge> sz"
  shows "in_node nd m sz" "unat (m + sz) = unat m + unat sz"
proof -
  have "unat (nd_end nd - m) = unat (nd_end nd) - unat m"
    using assms(3) by (simp add: unat_sub word_le_nat_alt)
  then have "unat m + unat sz \<le> unat (nd_end nd)" using assms(3,4) by (simp add: word_le_nat_alt)
  then show "in_node nd m sz" using assms(2) by (simp add: in_node_def)
  then show "unat (m + sz) = unat m + unat sz"
    using unat_less_64 [of "nd_end nd"] by (simp add: in_node_def unat_word_ariths)
qed


definition fresh_node :: "uint64 \<Rightarrow> uint64 \<Rightarrow> mp_node" where
  "fresh_node b psize = \<lparr>nd_addr = b, nd_last = b + 32, nd_end = b + psize, nd_failed = 0\<rparr>"

abbreviation capacity :: "mp_pool \<Rightarrow> uint64" where
  "capacity pool \<equiv> nd_end (mp_nodes pool ! 0) - nd_addr (mp_nodes pool ! 0)"

text \<open>Rounding by \<open>align\<close> stays inside every node from \<open>current\<close> on.\<close>

definition roomy :: "(uint64 \<Rightarrow> uint64) \<Rightarrow> mp_pool \<Rightarrow> bool" where
  "roomy align pool \<longleftrightarrow> (\<forall>i. mp_current pool \<le> i \<and> i < length (mp_nodes pool) \<longrightarrow>
     unat (nd_last (mp_nodes pool ! i)) \<le> unat (align (nd_last (mp_nodes pool ! i)))
     \<and> unat (align (nd_last (mp_nodes pool ! i))) \<le> unat (nd_end (mp_nodes pool ! i)))"

lemma fresh_block:
  assumes p: "pool_ok pool" and sz: "sz \<le> mp_max pool" and b: "good_block (capacity pool) b"
  shows "mp_align (b + SIZEOF_NODE) = b + 32" "in_node (fresh_node b (capacity pool)) (b + 32) sz"
    "32 dvd unat (b + 32)" "fits_node ((fresh_node b (capacity pool))\<lparr>nd_last := b + 32 + sz\<rparr>)"
    "unat (b + 32 + sz) = unat (b + 32) + unat sz"
proof -
  have cap: "unat sz + 32 \<le> unat (capacity pool)" using p sz by (simp add: pool_ok_def word_le_nat_alt)
  have nw: "unat b + unat (capacity pool) + 31 < 2 ^ 64" "32 dvd unat b" using b by (simp_all add: good_block_def)
  have b32: "unat (b + 32) = unat b + 32" using nw cap by (simp add: unat_word_ariths)
  have e: "unat (b + capacity pool) = unat b + unat (capacity pool)"
    using nw by (simp only: unat_word_ariths) simp
  show s: "unat (b + 32 + sz) = unat (b + 32) + unat sz"
    using nw cap b32 by (simp only: unat_word_ariths(1) [of "b + 32"]) simp
  show "32 dvd unat (b + 32)" using b32 nw(2) by simp
  then show "mp_align (b + SIZEOF_NODE) = b + 32"
    unfolding SIZEOF_NODE_def using b32 nw cap by (intro mp_align_id) simp_all
  show "in_node (fresh_node b (capacity pool)) (b + 32) sz"
    using e b32 cap by (simp add: in_node_def fresh_node_def)
  show "fits_node ((fresh_node b (capacity pool))\<lparr>nd_last := b + 32 + sz\<rparr>)"
    using e s b32 cap nw by (simp add: fits_node_def fresh_node_def)
qed

lemma mp_alloc_small_ok:
  assumes p: "pool_ok pool" and r: "roomy align pool" and sz: "sz \<le> mp_max pool"
    and env: "env = Some b # rest" "good_block (capacity pool) b"
  shows "\<exists>m env' pool' nd. mp_alloc_small align env pool sz = (Some m, env', pool') \<and> pool_ok pool'
    \<and> mp_max pool' = mp_max pool \<and> capacity pool' = capacity pool
    \<and> nd \<in> insert (fresh_node b (capacity pool)) (set (mp_nodes pool)) \<and> in_node nd m sz
    \<and> (m = align (nd_last nd) \<or> 32 dvd unat m)
    \<and> (\<forall>i. mp_current pool' \<le> i \<and> i < length (mp_nodes pool') \<longrightarrow>
         nd_last (mp_nodes pool' ! i) = m + sz \<and> unat m + unat sz \<le> unat (nd_end (mp_nodes pool' ! i)) \<and> unat (m + sz) = unat m + unat sz
         \<or> (mp_current pool \<le> i \<and> i < length (mp_nodes pool)
            \<and> nd_last (mp_nodes pool' ! i) = nd_last (mp_nodes pool ! i) \<and> nd_end (mp_nodes pool' ! i) = nd_end (mp_nodes pool ! i)))"
proof (cases "find_room align sz (mp_nodes pool) [mp_current pool..<length (mp_nodes pool)]")
  case (Some pm)
  then obtain q m where f: "find_room align sz (mp_nodes pool) [mp_current pool..<length (mp_nodes pool)] = Some (q, m)"
    by (cases pm) auto
  let ?nd = "mp_nodes pool ! q"
  let ?nodes = "(mp_nodes pool)[q := ?nd\<lparr>nd_last := m + sz\<rparr>]"
  have q: "mp_current pool \<le> q" "q < length (mp_nodes pool)" "m = align (nd_last ?nd)" "nd_end ?nd - m \<ge> sz"
    using find_room_Some [OF f] by auto
  have fit: "fits_node ?nd" using p q(2) by (simp add: pool_ok_def)
  have "unat (nd_last ?nd) \<le> unat m" "unat m \<le> unat (nd_end ?nd)" using r q by (auto simp: roomy_def)
  note room = room_in_node [OF fit this q(4)]
  have fit': "fits_node (?nd\<lparr>nd_last := m + sz\<rparr>)" using room fit by (simp add: fits_node_def in_node_def)
  let ?pool = "pool\<lparr>mp_nodes := ?nodes\<rparr>"
  have cap: "capacity ?pool = capacity pool" using q(2) by (simp add: nth_list_update')
  have "\<forall>nd \<in> set ?nodes. fits_node nd"
    using p fit' set_update_subset_insert [of "mp_nodes pool" q] by (auto simp: pool_ok_def)
  then have "pool_ok ?pool" using p cap by (simp add: pool_ok_def)
  moreover have "unat m + unat sz \<le> unat (nd_end ?nd)" using room by (simp add: in_node_def)
  ultimately show ?thesis
    using f q room cap
    by (intro exI [of _ m] exI [of _ env] exI [of _ ?pool] exI [of _ ?nd])
      (auto simp: mp_alloc_small_def nth_list_update')
next
  case None
  note fb = fresh_block [OF p sz env(2)]
  let ?cur = "mp_current pool" and ?n = "length (mp_nodes pool)"
  obtain cur nodes where c: "count_failures (?n - 1 - ?cur) ?cur ?cur (mp_nodes pool) = (cur, nodes)" by fastforce
  have k: "length nodes = ?n" "?cur \<le> cur" "cur \<le> ?n - 1" "\<forall>i < ?n. \<exists>f. nodes ! i = (mp_nodes pool ! i)\<lparr>nd_failed := f\<rparr>"
    using count_failures_keeps [OF c] p by (auto simp: pool_ok_def)
  let ?new = "(fresh_node b (capacity pool))\<lparr>nd_last := b + 32 + sz\<rparr>"
  let ?pool = "pool\<lparr>mp_nodes := nodes @ [?new], mp_current := cur\<rparr>"
  have res: "mp_alloc_small align env pool sz = (Some (b + 32), rest, ?pool)"
    using None env(1) c fb(1)
    by (simp add: mp_alloc_small_def mp_alloc_block_def Let_def fresh_node_def)
  have n0: "0 < ?n" using p by (simp add: pool_ok_def)
  have old: "nd_last (nodes ! i) = nd_last (mp_nodes pool ! i)" "nd_end (nodes ! i) = nd_end (mp_nodes pool ! i)"
    "nd_addr (nodes ! i) = nd_addr (mp_nodes pool ! i)" if "i < ?n" for i
  proof -
    obtain f where "nodes ! i = (mp_nodes pool ! i)\<lparr>nd_failed := f\<rparr>" using k(4) \<open>i < ?n\<close> by blast
    then show "nd_last (nodes ! i) = nd_last (mp_nodes pool ! i)" "nd_end (nodes ! i) = nd_end (mp_nodes pool ! i)"
      "nd_addr (nodes ! i) = nd_addr (mp_nodes pool ! i)" by simp_all
  qed
  have cap: "capacity ?pool = capacity pool" using old [OF n0] k(1) n0 by (simp add: nth_append)
  have "fits_node nd" if nd: "nd \<in> set nodes" for nd
  proof -
    obtain i where "i < ?n" "nd = nodes ! i" using nd k(1) by (metis in_set_conv_nth)
    then show ?thesis using old [of i] p by (simp add: pool_ok_def fits_node_def)
  qed
  then have ok: "pool_ok ?pool" using p cap fb(4) k n0 by (auto simp: pool_ok_def)
  have new: "nd_last ?new = b + 32 + sz" "unat (b + 32) + unat sz \<le> unat (nd_end ?new)"
    using fb(2) by (simp_all add: in_node_def fresh_node_def)
  have each: "nd_last (mp_nodes ?pool ! i) = b + 32 + sz \<and> unat (b + 32) + unat sz \<le> unat (nd_end (mp_nodes ?pool ! i))
      \<or> mp_current pool \<le> i \<and> i < ?n \<and> nd_last (mp_nodes ?pool ! i) = nd_last (mp_nodes pool ! i)
        \<and> nd_end (mp_nodes ?pool ! i) = nd_end (mp_nodes pool ! i)"
    if "mp_current ?pool \<le> i" "i < length (mp_nodes ?pool)" for i
  proof (cases "i < ?n")
    case True
    then show ?thesis using old [of i] k that by (simp add: nth_append)
  next
    case False
    then have "mp_nodes ?pool ! i = ?new" using that k(1) by (simp add: nth_append)
    then show ?thesis using new by simp
  qed
  show ?thesis
  proof (intro exI conjI)
    show "mp_alloc_small align env pool sz = (Some (b + 32), rest, ?pool)" by (rule res)
    show "pool_ok ?pool" by (rule ok)
    show "fresh_node b (capacity pool) \<in> insert (fresh_node b (capacity pool)) (set (mp_nodes pool))" by simp
    show "in_node (fresh_node b (capacity pool)) (b + 32) sz" by (rule fb(2))
    show "b + 32 = align (nd_last (fresh_node b (capacity pool))) \<or> 32 dvd unat (b + 32)" using fb(3) by simp
  qed (use each cap fb(5) in auto)
qed


lemma roomy_align_iff:
  assumes "pool_ok pool"
  shows "roomy mp_align pool \<longleftrightarrow>
    (\<forall>i. mp_current pool \<le> i \<and> i < length (mp_nodes pool) \<longrightarrow> snug (mp_nodes pool ! i))"
proof -
  have "unat (nd_last (mp_nodes pool ! i)) \<le> unat (mp_align (nd_last (mp_nodes pool ! i)))"
    if "i < length (mp_nodes pool)" for i
  proof -
    have "fits_node (mp_nodes pool ! i)" using assms that by (simp add: pool_ok_def)
    then show ?thesis by (intro mp_align_ge) (simp add: fits_node_def)
  qed
  then show ?thesis by (auto simp: roomy_def snug_def)
qed

text \<open>
  C9. Aligned allocation. In a well-formed pool, when rounding the bump pointers of the nodes from
  \<open>current\<close> on up to 32 bytes does not leave these nodes and \<open>posix_memalign\<close> keeps its contract,
  a small request is always served: the block is aligned to 32 bytes and lies inside a node (an
  old one or the new one), past everything the node has handed out; the pool stays well formed; and
  requests that are multiples of 32 also keep the rounding inside the nodes.
\<close>

theorem mp_alloc_in_bounds:
  assumes "pool_ok pool" "\<forall>i. mp_current pool \<le> i \<and> i < length (mp_nodes pool) \<longrightarrow> snug (mp_nodes pool ! i)"
    and "sz \<le> mp_max pool" "good_block (capacity pool) b"
  shows "\<exists>m env' pool' nd. mp_alloc (Some b # rest) pool sz = (Some m, env', pool') \<and> 32 dvd unat m
    \<and> nd \<in> insert (fresh_node b (capacity pool)) (set (mp_nodes pool))
    \<and> unat (nd_last nd) \<le> unat m \<and> unat m + unat sz \<le> unat (nd_end nd) \<and> pool_ok pool'
    \<and> (32 dvd unat sz \<longrightarrow> (\<forall>i. mp_current pool' \<le> i \<and> i < length (mp_nodes pool') \<longrightarrow> snug (mp_nodes pool' ! i)))"
proof -
  have r: "roomy mp_align pool" using roomy_align_iff [OF assms(1)] assms(2) by blast
  obtain m env' pool' nd where
    res: "mp_alloc_small mp_align (Some b # rest) pool sz = (Some m, env', pool')" "pool_ok pool'"
    and nd: "nd \<in> insert (fresh_node b (capacity pool)) (set (mp_nodes pool))" "in_node nd m sz"
      "m = mp_align (nd_last nd) \<or> 32 dvd unat m"
    and after: "\<forall>i. mp_current pool' \<le> i \<and> i < length (mp_nodes pool') \<longrightarrow>
         nd_last (mp_nodes pool' ! i) = m + sz \<and> unat m + unat sz \<le> unat (nd_end (mp_nodes pool' ! i)) \<and> unat (m + sz) = unat m + unat sz
         \<or> (mp_current pool \<le> i \<and> i < length (mp_nodes pool)
            \<and> nd_last (mp_nodes pool' ! i) = nd_last (mp_nodes pool ! i) \<and> nd_end (mp_nodes pool' ! i) = nd_end (mp_nodes pool ! i))"
    using mp_alloc_small_ok [OF assms(1) r assms(3) refl assms(4), of rest] by blast
  have "unat (nd_last nd) + 31 < 2 ^ 64"
  proof (cases "nd \<in> set (mp_nodes pool)")
    case True
    then show ?thesis using assms(1) by (fastforce simp: pool_ok_def fits_node_def)
  next
    case False
    then have "nd = fresh_node b (capacity pool)" using nd(1) by simp
    then show ?thesis
      using fresh_block(2,4) [OF assms(1,3,4)] by (simp add: fresh_node_def in_node_def fits_node_def)
  qed
  then have al: "32 dvd unat m" using nd(3) mp_align_ge(2) by blast
  have "snug (mp_nodes pool' ! i)" if i: "mp_current pool' \<le> i" "i < length (mp_nodes pool')" and d: "32 dvd unat sz" for i
  proof -
    have fit: "fits_node (mp_nodes pool' ! i)" using res(2) i by (simp add: pool_ok_def)
    consider "nd_last (mp_nodes pool' ! i) = m + sz" "unat m + unat sz \<le> unat (nd_end (mp_nodes pool' ! i))"
        "unat (m + sz) = unat m + unat sz"
      | "mp_current pool \<le> i" "i < length (mp_nodes pool)" "nd_last (mp_nodes pool' ! i) = nd_last (mp_nodes pool ! i)"
        "nd_end (mp_nodes pool' ! i) = nd_end (mp_nodes pool ! i)" using after i by blast
    then show ?thesis
    proof cases
      case 1
      then have "mp_align (m + sz) = m + sz" using al d fit by (intro mp_align_id) (auto simp: fits_node_def)
      then show ?thesis using 1 by (simp add: snug_def)
    next
      case 2
      then show ?thesis using assms(2) by (simp add: snug_def)
    qed
  qed
  then show ?thesis using res nd al assms(3) by (auto simp: mp_alloc_def in_node_def)
qed

definition demo_pool4k :: mp_pool where
  "demo_pool4k = the (mp_create_pool (Some (4096, [])) 4096)"

lemma demo_pool4k_eq:
  "demo_pool4k = \<lparr>mp_addr = 4096, mp_max = 4095, mp_current = 0, mp_larges = [],
     mp_nodes = [\<lparr>nd_addr = 4120, nd_last = 4152, nd_end = 8248, nd_failed = 0\<rparr>], mp_freed = []\<rparr>"
  by (simp add: demo_pool4k_def mp_create_pool_def SIZEOF_POOL_def SIZEOF_NODE_def MP_MAX_ALLOC_FROM_POOL_def)

lemma demo_pool4k_ok: "pool_ok demo_pool4k"
  by (simp add: demo_pool4k_eq pool_ok_def fits_node_def)

theorem mp_alloc_in_bounds_witness:
  "\<exists>m env' pool'. mp_alloc [Some 16384] demo_pool4k 512 = (Some m, env', pool') \<and> 32 dvd unat m \<and> pool_ok pool'"
proof -
  have "mp_align 4152 = 4160" by (simp add: mp_align_def MP_ALIGNMENT_def)
  then have "snug (mp_nodes demo_pool4k ! i)" if "i < length (mp_nodes demo_pool4k)" for i
    using that by (simp add: demo_pool4k_eq snug_def)
  then show ?thesis
    using mp_alloc_in_bounds [OF demo_pool4k_ok, of 512 16384 "[]"]
    by (auto simp: demo_pool4k_eq good_block_def)
qed

text \<open>
  Unaligned allocation needs no such condition: in every well-formed pool \<open>mp_nalloc\<close> serves a
  small request with a block inside a node, past everything the node has handed out, and keeps
  the pool well formed.
\<close>

theorem mp_nalloc_in_bounds:
  assumes "pool_ok pool" "sz \<le> mp_max pool" "good_block (capacity pool) b"
  shows "\<exists>m env' pool' nd. mp_nalloc (Some b # rest) pool sz = (Some m, env', pool')
    \<and> nd \<in> insert (fresh_node b (capacity pool)) (set (mp_nodes pool))
    \<and> unat (nd_last nd) \<le> unat m \<and> unat m + unat sz \<le> unat (nd_end nd) \<and> pool_ok pool'"
proof -
  have "roomy (\<lambda>p. p) pool" using assms(1) by (auto simp: roomy_def pool_ok_def fits_node_def)
  then obtain m env' pool' nd where "mp_alloc_small (\<lambda>p. p) (Some b # rest) pool sz = (Some m, env', pool')"
    "pool_ok pool'" "nd \<in> insert (fresh_node b (capacity pool)) (set (mp_nodes pool))" "in_node nd m sz"
    using mp_alloc_small_ok [OF assms(1) _ assms(2) refl assms(3), of "\<lambda>p. p" rest] by blast
  then show ?thesis using assms(2) by (auto simp: mp_nalloc_def in_node_def)
qed

theorem mp_nalloc_in_bounds_witness:
  "\<exists>m env' pool'. mp_nalloc [Some 16384] demo_pool4k 4095 = (Some m, env', pool') \<and> pool_ok pool'"
  using mp_nalloc_in_bounds [OF demo_pool4k_ok, of 4095 16384 "[]"]
  by (auto simp: demo_pool4k_eq good_block_def)

text \<open>
  An aligned request can be handed memory past the end of the pool. In the pool of 4096 bytes
  that the program creates, a request of 4070 bytes leaves the bump pointer so close to the
  end that rounding it up passes the end; the pointer difference then wraps to a huge
  \<open>size_t\<close>, and the next request of any size up to \<open>max\<close> gets a block that starts past the
  end of the node.
\<close>

theorem mp_alloc_past_the_end:
  assumes "sz \<le> 4095"
  shows "\<exists>pool1 m env' pool2. mp_alloc [] demo_pool4k 4070 = (Some 4160, [], pool1)
    \<and> mp_alloc env pool1 sz = (Some m, env', pool2) \<and> nd_end (mp_nodes pool1 ! 0) < m"
proof -
  let ?p1 = "demo_pool4k\<lparr>mp_nodes := [\<lparr>nd_addr = 4120, nd_last = 8230, nd_end = 8248, nd_failed = 0\<rparr>]\<rparr>"
  have a: "mp_align 4152 = 4160" "mp_align 8230 = 8256" by (simp_all add: mp_align_def MP_ALIGNMENT_def)
  have 1: "mp_alloc [] demo_pool4k 4070 = (Some 4160, [], ?p1)"
    by (simp add: mp_alloc_def mp_alloc_small_def demo_pool4k_eq a upt_conv_Cons)
  have "sz \<le> 8248 - 8256" using assms by (simp add: word_le_nat_alt)
  then have "find_room mp_align sz (mp_nodes ?p1) [0..<1] = Some (0, 8256)"
    by (simp add: a Let_def)
  then have "mp_alloc_small mp_align env ?p1 sz =
      (Some 8256, env, ?p1\<lparr>mp_nodes := [\<lparr>nd_addr = 4120, nd_last = 8256 + sz, nd_end = 8248, nd_failed = 0\<rparr>]\<rparr>)"
    by (simp add: mp_alloc_small_def demo_pool4k_eq)
  then have 2: "mp_alloc env ?p1 sz =
      (Some 8256, env, ?p1\<lparr>mp_nodes := [\<lparr>nd_addr = 4120, nd_last = 8256 + sz, nd_end = 8248, nd_failed = 0\<rparr>]\<rparr>)"
    using assms by (simp add: mp_alloc_def demo_pool4k_eq)
  have 3: "nd_end (mp_nodes ?p1 ! 0) < 8256" by (simp add: demo_pool4k_eq)
  show ?thesis
    by (intro exI conjI) (rule 1, rule 2, rule 3)
qed

theorem mp_alloc_past_the_end_witness:
  "\<exists>pool1 m env' pool2. mp_alloc [] demo_pool4k 4070 = (Some 4160, [], pool1)
    \<and> mp_alloc [] pool1 4000 = (Some m, env', pool2) \<and> nd_end (mp_nodes pool1 ! 0) < m"
  by (rule mp_alloc_past_the_end) simp


section \<open>Every block is freed once\<close>

text \<open>What the environment handed out over a stretch of calls.\<close>

definition obtained :: "env \<Rightarrow> uint64 multiset" where
  "obtained used = mset (List.map_filter (\<lambda>x. x) used)"

lemma obtained_simps [simp]:
  "obtained [] = {#}" "obtained (None # us) = obtained us" "obtained (Some p # us) = add_mset p (obtained us)"
  by (simp_all add: obtained_def map_filter_simps)



lemma allocs_simps [simp]:
  "allocs [] = []" "allocs (l # ls) = (case lg_alloc l of None \<Rightarrow> allocs ls | Some p \<Rightarrow> p # allocs ls)"
  by (simp_all add: allocs_def map_filter_simps split: option.split)










text \<open>The requests of a program, and a run of them; \<open>mem\<close> is the memory that \<open>mp_calloc\<close> clears.\<close>

datatype mp_op = Alloc uint64 | Nalloc uint64 | Calloc uint64 | Memalign | Free uint64 | Reset

fun mp_step :: "mp_op \<Rightarrow> env \<times> mp_pool \<times> (uint64 \<Rightarrow> uint8) \<Rightarrow> env \<times> mp_pool \<times> (uint64 \<Rightarrow> uint8)" where
  "mp_step (Alloc sz) (env, pool, mem) = (case mp_alloc env pool sz of (_, env, pool) \<Rightarrow> (env, pool, mem))"
| "mp_step (Nalloc sz) (env, pool, mem) = (case mp_nalloc env pool sz of (_, env, pool) \<Rightarrow> (env, pool, mem))"
| "mp_step (Calloc sz) (env, pool, mem) = (case mp_calloc env pool sz mem of (_, env, pool, mem) \<Rightarrow> (env, pool, mem))"
| "mp_step Memalign (env, pool, mem) = (case mp_memalign env pool of (_, env, pool) \<Rightarrow> (env, pool, mem))"
| "mp_step (Free p) (env, pool, mem) = (env, mp_free pool p, mem)"
| "mp_step Reset (env, pool, mem) = (env, mp_reset_pool pool, mem)"

abbreviation "mp_run ops st \<equiv> fold mp_step ops st"










text \<open>When \<open>head->next\<close> is not zero, \<open>mp_destory_pool\<close> frees what it leads to, although nobody obtained it.\<close>

theorem mp_pool_wild_next:
  assumes "mp_create_pool (Some (p0, old)) sz = Some pool"
  shows "mp_destory_pool pool = map nd_addr old @ [p0]"
  using assms by (auto simp: mp_create_pool_def Let_def mp_destory_pool_def)

end
