(* ===== verification/LinkedList.thy ===== *)
theory LinkedList
  imports Prelude
begin

text \<open>
  The macros \<open>LL_ADD\<close> and \<open>LL_REMOVE\<close> of the network stack
  (\<open>tcp.c\<close>) on a store of \<open>next\<close> and \<open>prev\<close> pointers, and what they do to the list
  that the store represents. The components of the stack use the lists themselves.
\<close>

record ll_store =
  ll_next :: "addr \<Rightarrow> addr"
  ll_prev :: "addr \<Rightarrow> addr"
  ll_first :: addr

text \<open>\<open>ll_first\<close> is the list variable of the macros, address 0 is \<open>NULL\<close>.\<close>

definition LL_ADD :: "addr \<Rightarrow> ll_store \<Rightarrow> ll_store" where
  "LL_ADD item s =
     (let s = s\<lparr>ll_prev := (ll_prev s)(item := 0)\<rparr>;
          s = s\<lparr>ll_next := (ll_next s)(item := ll_first s)\<rparr>;
          s = (if ll_first s \<noteq> 0 then s\<lparr>ll_prev := (ll_prev s)(ll_first s := item)\<rparr> else s)
      in s\<lparr>ll_first := item\<rparr>)"

definition LL_REMOVE :: "addr \<Rightarrow> ll_store \<Rightarrow> ll_store" where
  "LL_REMOVE item s =
     (let s = (if ll_prev s item \<noteq> 0
               then s\<lparr>ll_next := (ll_next s)(ll_prev s item := ll_next s item)\<rparr> else s);
          s = (if ll_next s item \<noteq> 0
               then s\<lparr>ll_prev := (ll_prev s)(ll_next s item := ll_prev s item)\<rparr> else s);
          s = (if ll_first s = item then s\<lparr>ll_first := ll_next s item\<rparr> else s)
      in s\<lparr>ll_next := (ll_next s)(item := 0), ll_prev := (ll_prev s)(item := 0)\<rparr>)"

section \<open>Represented lists\<close>

text \<open>From \<open>p\<close>, whose predecessor is \<open>f\<close>, the nodes \<open>xs\<close> lead to \<open>q\<close>.\<close>

fun lseg :: "(addr \<Rightarrow> addr) \<Rightarrow> (addr \<Rightarrow> addr) \<Rightarrow> addr \<Rightarrow> addr \<Rightarrow> addr list \<Rightarrow> addr \<Rightarrow> bool" where
  "lseg nx pv p f [] q \<longleftrightarrow> p = q"
| "lseg nx pv p f (x # xs) q \<longleftrightarrow> p = x \<and> x \<noteq> 0 \<and> pv x = f \<and> lseg nx pv (nx x) x xs q"

definition dll :: "ll_store \<Rightarrow> addr list \<Rightarrow> bool" where
  "dll s xs \<longleftrightarrow> lseg (ll_next s) (ll_prev s) (ll_first s) 0 xs 0 \<and> distinct xs"

lemma lseg_frame:
  "\<forall>x \<in> set xs. nx' x = nx x \<and> pv' x = pv x \<Longrightarrow> lseg nx' pv' p f xs q = lseg nx pv p f xs q"
  by (induction xs arbitrary: p f) auto

lemma lseg_append:
  "lseg nx pv p f (ys @ zs) q \<longleftrightarrow> (\<exists>m. lseg nx pv p f ys m \<and> lseg nx pv m (last (f # ys)) zs q)"
  by (induction ys arbitrary: p f) auto

lemma lseg_nonzero: "lseg nx pv p f xs q \<Longrightarrow> 0 \<notin> set xs"
  by (induction xs arbitrary: p f) auto

lemma lseg_redirect_end:
  assumes "lseg nx pv p f xs m" "xs \<noteq> []" "distinct xs"
  shows "lseg (nx(last xs := m')) pv p f xs m'"
  using assms
proof (induction xs arbitrary: p f)
  case (Cons x xs)
  show ?case
  proof (cases "xs = []")
    case False
    define N where "N = nx(last xs := m')"
    have "lseg nx pv (nx x) x xs m" "distinct xs" using Cons.prems by auto
    then have "lseg N pv (nx x) x xs m'" unfolding N_def using Cons.IH False by blast
    moreover have "x \<noteq> last xs" using Cons.prems(3) False last_in_set by fastforce
    then have "N x = nx x" by (simp add: N_def)
    moreover have "nx(last (x # xs) := m') = N" using False by (simp add: N_def)
    ultimately show ?thesis using Cons.prems(1) by simp
  qed (use Cons.prems in simp)
qed simp

lemma lseg_redirect_from:
  assumes "lseg nx pv p f xs q" "distinct xs"
  shows "lseg nx (if xs = [] then pv else pv(p := f')) p f' xs q"
proof (cases xs)
  case (Cons x ys)
  then have "lseg nx (pv(p := f')) (nx x) x ys q = lseg nx pv (nx x) x ys q"
    using assms by (intro lseg_frame) auto
  then show ?thesis using assms Cons by simp
qed (use assms in simp)

lemma dll_add:
  assumes "dll s xs" "item \<noteq> 0" "item \<notin> set xs"
  shows "dll (LL_ADD item s) (item # xs)"
proof -
  let ?f = "ll_first s"
  have l: "lseg (ll_next s) (ll_prev s) ?f 0 xs 0" "distinct xs" using assms(1) by (simp_all add: dll_def)
  have first: "xs = [] \<longleftrightarrow> ?f = 0" using l(1) by (cases xs) auto
  let ?nx = "(ll_next s)(item := ?f)"
  let ?pv = "if ?f \<noteq> 0 then (ll_prev s)(item := 0, ?f := item) else (ll_prev s)(item := 0)"
  have "lseg ?nx ((ll_prev s)(item := 0)) ?f 0 xs 0 = lseg (ll_next s) (ll_prev s) ?f 0 xs 0"
    using assms(3) by (intro lseg_frame) auto
  then have "lseg ?nx ?pv ?f item xs 0"
    using lseg_redirect_from [of ?nx "(ll_prev s)(item := 0)" ?f 0 xs 0 item] l first by (auto split: if_splits)
  moreover have "?pv item = 0"
    using assms(2,3) l(1) by (cases xs) auto
  ultimately show ?thesis
    using assms by (auto simp: dll_def LL_ADD_def Let_def split: if_splits)
qed

lemma dll_remove:
  assumes d: "dll s (ys @ item # zs)"
  shows "dll (LL_REMOVE item s) (ys @ zs)" "ll_next (LL_REMOVE item s) item = 0" "ll_prev (LL_REMOVE item s) item = 0"
proof -
  let ?nx = "ll_next s" and ?pv = "ll_prev s" and ?f = "ll_first s"
  define n where "n = ?nx item"
  define p where "p = ?pv item"
  obtain m where y: "lseg ?nx ?pv ?f 0 ys m" and z: "lseg ?nx ?pv m (last (0 # ys)) (item # zs) 0"
    and di: "distinct (ys @ item # zs)"
    using d by (auto simp: dll_def lseg_append)
  have it: "m = item" "item \<noteq> 0" "p = last (0 # ys)" "lseg ?nx ?pv n item zs 0" using z by (auto simp: n_def p_def)
  have z0: "zs = [] \<longleftrightarrow> n = 0" using it(4) by (cases zs) auto
  have y0: "ys = [] \<longleftrightarrow> p = 0" using it(3) lseg_nonzero [OF y] last_in_set [of ys] by (metis last.simps)
  have hd_z: "n = hd zs" if "zs \<noteq> []" using it(4) that by (cases zs) auto
  have ni: "item \<notin> set ys" "item \<notin> set zs" "set ys \<inter> set zs = {}" "distinct ys" "distinct zs" using di by auto
  have pi: "p \<noteq> item" using it(2,3) ni(1) last_in_set [of ys] by (cases "ys = []") auto
  have nn: "n \<noteq> item" using it(2) ni(2) z0 hd_z hd_in_set [of zs] by (cases "zs = []") auto
  define nx where "nx = (if p \<noteq> 0 then ?nx(p := n, item := 0) else ?nx(item := 0))"
  define pv where "pv = (if n \<noteq> 0 then ?pv(n := p, item := 0) else ?pv(item := 0))"
  have res: "ll_next (LL_REMOVE item s) = nx" "ll_prev (LL_REMOVE item s) = pv"
    "ll_first (LL_REMOVE item s) = (if ?f = item then n else ?f)"
    using pi nn by (auto simp: LL_REMOVE_def Let_def nx_def pv_def n_def p_def)
  have ysn: "lseg nx pv (if ?f = item then n else ?f) 0 ys n"
  proof (cases "ys = []")
    case True
    then show ?thesis using y it(1) by simp
  next
    case False
    have pl: "p = last ys" "p \<noteq> 0" using it(3) y0 False by (simp, blast)
    have "?f = hd ys" using y False by (cases ys) auto
    then have "?f \<noteq> item" using ni(1) hd_in_set [OF False] by auto
    moreover have "lseg (?nx(p := n)) ?pv ?f 0 ys n" using lseg_redirect_end [OF y False ni(4)] pl by simp
    moreover have "lseg nx pv ?f 0 ys n = lseg (?nx(p := n)) ?pv ?f 0 ys n"
      using ni pl hd_z z0 hd_in_set [of zs] by (intro lseg_frame) (auto simp: nx_def pv_def)
    ultimately show ?thesis by simp
  qed
  have "lseg nx pv n p zs 0"
  proof (cases "zs = []")
    case True
    then show ?thesis using z0 by simp
  next
    case False
    then have "lseg ?nx (?pv(n := p)) n p zs 0" using lseg_redirect_from [OF it(4) ni(5), of p] by simp
    moreover have "p \<notin> set zs" using it(3) ni(3) last_in_set [of ys] lseg_nonzero [OF it(4)] by (metis IntI empty_iff last.simps)
    then have "lseg nx pv n p zs 0 = lseg ?nx (?pv(n := p)) n p zs 0"
      using ni(2) False z0 by (intro lseg_frame) (auto simp: nx_def pv_def)
    ultimately show ?thesis by simp
  qed
  then have "lseg nx pv (if ?f = item then n else ?f) 0 (ys @ zs) 0"
    unfolding lseg_append using ysn it(3) by blast
  then show "dll (LL_REMOVE item s) (ys @ zs)" using res di by (auto simp: dll_def)
  show "ll_next (LL_REMOVE item s) item = 0" "ll_prev (LL_REMOVE item s) item = 0"
    using res nn pi by (auto simp: nx_def pv_def)
qed

text \<open>
  The list macros of the stack implement their lists: on a store that represents the list
  \<open>xs\<close>, \<open>LL_ADD\<close> of a new item represents \<open>item # xs\<close>, and \<open>LL_REMOVE\<close> of any
  member (first, last or in between) represents the list without it and clears its links.
\<close>

theorem list_macros_refine:
  assumes "dll s xs" "new \<noteq> 0" "new \<notin> set xs" "item \<in> set xs"
  shows "dll (LL_ADD new s) (new # xs) \<and> dll (LL_REMOVE item s) (remove1 item xs)
    \<and> ll_next (LL_REMOVE item s) item = 0 \<and> ll_prev (LL_REMOVE item s) item = 0"
proof -
  obtain ys zs where x: "xs = ys @ item # zs" "item \<notin> set ys" using assms(4) by (meson split_list_first)
  then have "remove1 item xs = ys @ zs" by (simp add: remove1_append)
  then show ?thesis using dll_add [OF assms(1-3)] dll_remove [of s ys item zs] assms(1) x(1) by simp
qed

theorem list_macros_refine_witness:
  "dll (LL_REMOVE 2 (LL_ADD 3 (LL_ADD 2 (LL_ADD 1 \<lparr>ll_next = \<lambda>_. 0, ll_prev = \<lambda>_. 0, ll_first = 0\<rparr>)))) [3, 1]"
proof -
  let ?s = "LL_ADD 3 (LL_ADD 2 (LL_ADD 1 \<lparr>ll_next = \<lambda>_. 0, ll_prev = \<lambda>_. 0, ll_first = 0\<rparr>))"
  have "dll ?s [3, 2, 1]" by (intro dll_add) (auto simp: dll_def)
  then show ?thesis using list_macros_refine [of ?s "[3, 2, 1]" 4 2] by simp
qed

end
