(* ===== verification/ArpTable.thy ===== *)
theory ArpTable
  imports Prelude
begin

text \<open>
  The ARP table of the network stack (\<open>tcp.c\<close>, \<open>arp_table_instance\<close>,
  \<open>ng_get_dst_macaddr\<close>, \<open>ng_arp_entry_insert\<close>). The chain of entries is a list, newest first
  (\<open>LL_ADD\<close>); addresses are 32-bit words and hardware addresses lists of six bytes. Whether
  \<open>rte_malloc\<close> succeeds is an argument.
\<close>

type_synonym mac = "uint8 list"

record arp_entry =
  arp_ip :: uint32
  hwaddr :: mac
  arp_type :: uint8

record arp_table =
  arp_entries :: "arp_entry list"
  arp_count :: int

text \<open>The global \<open>arpt\<close> is \<^const>\<open>None\<close> before the first call.\<close>

definition arp_table_instance :: "arp_table option \<Rightarrow> arp_table" where
  "arp_table_instance arpt =
     (case arpt of None \<Rightarrow> \<lparr>arp_entries = [], arp_count = 0\<rparr> | Some table \<Rightarrow> table)"

fun find_mac :: "uint32 \<Rightarrow> int \<Rightarrow> arp_entry list \<Rightarrow> mac option" where
  "find_mac dip n [] = None"
| "find_mac dip n (iter # rest) =
     (if n = 0 then None
      else if dip = arp_ip iter then Some (hwaddr iter)
      else find_mac dip (n - 1) rest)"

definition ng_get_dst_macaddr :: "arp_table option \<Rightarrow> uint32 \<Rightarrow> mac option" where
  "ng_get_dst_macaddr arpt dip =
     (let table = arp_table_instance arpt in find_mac dip (arp_count table) (arp_entries table))"

definition ng_arp_entry_insert :: "bool \<Rightarrow> uint32 \<Rightarrow> mac \<Rightarrow> arp_table option \<Rightarrow> int \<times> arp_table option" where
  "ng_arp_entry_insert malloc_ok ip mac arpt =
     (let table = arp_table_instance arpt
      in case ng_get_dst_macaddr arpt ip of
           Some _ \<Rightarrow> (0, Some table)
         | None \<Rightarrow>
             (if malloc_ok
              then (1, Some (table\<lparr>arp_entries := \<lparr>arp_ip = ip, hwaddr = mac, arp_type = 0\<rparr> # arp_entries table,
                                  arp_count := arp_count table + 1\<rparr>))
              else (1, Some table)))"

section \<open>The table is a map\<close>

definition arp_ok :: "arp_table option \<Rightarrow> bool" where
  "arp_ok arpt \<longleftrightarrow> (let t = arp_table_instance arpt
     in arp_count t = int (length (arp_entries t)) \<and> distinct (map arp_ip (arp_entries t)))"

text \<open>The map from addresses to hardware addresses that the table stands for.\<close>

definition arp_map :: "arp_table option \<Rightarrow> uint32 \<Rightarrow> mac option" where
  "arp_map arpt = map_of (map (\<lambda>e. (arp_ip e, hwaddr e)) (arp_entries (arp_table_instance arpt)))"

lemma find_mac_map_of: "find_mac ip (int (length es)) es = map_of (map (\<lambda>e. (arp_ip e, hwaddr e)) es) ip"
  by (induction es) auto

lemma arp_lookup: "arp_ok arpt \<Longrightarrow> ng_get_dst_macaddr arpt ip = arp_map arpt ip"
  by (simp add: ng_get_dst_macaddr_def arp_ok_def arp_map_def Let_def find_mac_map_of)

lemma arp_map_None: "arp_map arpt ip = None \<longleftrightarrow> ip \<notin> set (map arp_ip (arp_entries (arp_table_instance arpt)))"
  by (auto simp: arp_map_def map_of_eq_None_iff image_iff)

lemma arp_insert_ok: "arp_ok arpt \<Longrightarrow> arp_ok (snd (ng_arp_entry_insert ok ip mac arpt))"
  using arp_lookup [of arpt ip] arp_map_None [of arpt ip]
  by (auto simp: ng_arp_entry_insert_def Let_def arp_ok_def arp_table_instance_def split: option.splits)

text \<open>
  The ARP table is a map that learns each address once. The empty table is well formed; a look-up
  in a well-formed table reads the map; \<open>ng_arp_entry_insert\<close> keeps it well formed, adds an unknown
  address with result 1 when memory is available, and leaves the table as it is otherwise: a known
  address keeps its first hardware address (result 0).
\<close>

theorem arp_table_refines_map:
  assumes "arp_ok arpt"
  shows "arp_ok None \<and> (\<forall>a. ng_get_dst_macaddr arpt a = arp_map arpt a)
    \<and> (case ng_arp_entry_insert ok ip mac arpt of (r, arpt') \<Rightarrow>
         arp_ok arpt' \<and> r = (if arp_map arpt ip = None then 1 else 0)
         \<and> arp_map arpt' = (if arp_map arpt ip = None \<and> ok then (arp_map arpt)(ip \<mapsto> mac) else arp_map arpt))"
proof -
  let ?t = "arp_table_instance arpt"
  have t: "arp_count ?t = int (length (arp_entries ?t))" "distinct (map arp_ip (arp_entries ?t))"
    using assms by (simp_all add: arp_ok_def Let_def)
  have self: "arp_table_instance (Some u) = u" for u by (simp add: arp_table_instance_def)
  have old: "arp_ok (Some ?t)" "arp_map (Some ?t) = arp_map arpt"
    using t by (simp_all add: arp_ok_def arp_map_def self Let_def)
  have new: "arp_ok (Some (?t\<lparr>arp_entries := e # arp_entries ?t, arp_count := arp_count ?t + 1\<rparr>))"
    if "arp_map arpt (arp_ip e) = None" for e
    using that t by (simp add: arp_map_None arp_ok_def self Let_def)
  have map: "arp_map (Some (?t\<lparr>arp_entries := e # arp_entries ?t, arp_count := c\<rparr>)) =
      (arp_map arpt)(arp_ip e \<mapsto> hwaddr e)" for e c
    by (simp add: arp_map_def self)
  have "arp_ok None" by (simp add: arp_ok_def arp_table_instance_def)
  then show ?thesis
    using arp_lookup [OF assms] old new map
    by (auto simp: ng_arp_entry_insert_def Let_def split: option.split)
qed

theorem arp_table_refines_map_witness:
  "arp_map (snd (ng_arp_entry_insert True 7 [1, 2, 3, 4, 5, 6] None)) 7 = Some [1, 2, 3, 4, 5, 6]"
proof -
  have n: "arp_ok None" "arp_map None = Map.empty" by (simp_all add: arp_ok_def arp_table_instance_def arp_map_def)
  show ?thesis
    using arp_table_refines_map [OF n(1), where ok = True and ip = 7 and mac = "[1, 2, 3, 4, 5, 6]"] n(2) by (auto split: prod.splits)
qed

end
