(* ===== verification/FdBitmap.thy ===== *)
theory FdBitmap
  imports Prelude
begin

unbundle bit_operations_syntax

text \<open>
  The bitmap of descriptors of the network stack (\<open>tcp.c\<close>, \<open>get_fd_frombitmap\<close> and
  \<open>set_fd_frombitmap\<close>): descriptors 3 to 1023, one bit each. Clearing a negative descriptor shifts
  by a negative amount, which is undefined: \<^const>\<open>None\<close>.
\<close>

definition DEFAULT_FD_NUM :: nat where "DEFAULT_FD_NUM = 3"
definition MAX_FD_COUNT :: nat where "MAX_FD_COUNT = 1024"

definition fd_bit :: "nat \<Rightarrow> uint8" where
  "fd_bit fd = push_bit (fd mod 8) 1"

fun get_fd_loop :: "nat list \<Rightarrow> uint8 list \<Rightarrow> int \<times> uint8 list" where
  "get_fd_loop [] fd_table = (-1, fd_table)"
| "get_fd_loop (fd # fds) fd_table =
     (if fd_table ! (fd div 8) AND fd_bit fd = 0
      then (int fd, fd_table[fd div 8 := fd_table ! (fd div 8) OR fd_bit fd])
      else get_fd_loop fds fd_table)"

definition get_fd_frombitmap :: "uint8 list \<Rightarrow> int \<times> uint8 list" where
  "get_fd_frombitmap = get_fd_loop [DEFAULT_FD_NUM..<MAX_FD_COUNT]"

definition set_fd_frombitmap :: "int \<Rightarrow> uint8 list \<Rightarrow> (int \<times> uint8 list) option" where
  "set_fd_frombitmap fd fd_table =
     (if fd \<ge> int MAX_FD_COUNT then Some (-1, fd_table)
      else if fd < 0 then None
      else Some (0, fd_table[nat fd div 8 := fd_table ! (nat fd div 8) AND NOT (fd_bit (nat fd))]))"

section \<open>The set of descriptors in use\<close>

definition fds :: "uint8 list \<Rightarrow> nat set" where
  "fds tbl = {fd. fd < MAX_FD_COUNT \<and> bit (tbl ! (fd div 8)) (fd mod 8)}"

lemma bit_fd_bit: "bit (fd_bit fd) n \<longleftrightarrow> n = fd mod 8"
  by (auto simp: fd_bit_def bit_exp_iff)

lemma and_fd_bit: "w AND fd_bit fd = 0 \<longleftrightarrow> \<not> bit w (fd mod 8)"
proof -
  have "w AND fd_bit fd = (if bit w (fd mod 8) then fd_bit fd else 0)"
    by (rule bit_eqI) (auto simp: bit_and_iff bit_fd_bit)
  moreover have "fd_bit fd \<noteq> 0" using bit_fd_bit [of fd "fd mod 8"] by auto
  ultimately show ?thesis by simp
qed

lemma same_bit: "fd div 8 = x div 8 \<Longrightarrow> x mod 8 = fd mod 8 \<Longrightarrow> x = (fd :: nat)"
  by (metis div_mult_mod_eq)

lemma fds_set:
  assumes "length tbl = 1024" "fd < MAX_FD_COUNT"
  shows "fds (tbl[fd div 8 := tbl ! (fd div 8) OR fd_bit fd]) = insert fd (fds tbl)"
    "fds (tbl[fd div 8 := tbl ! (fd div 8) AND NOT (fd_bit fd)]) = fds tbl - {fd}"
proof -
  have "fd div 8 < length tbl" using assms by (simp add: MAX_FD_COUNT_def)
  then show "fds (tbl[fd div 8 := tbl ! (fd div 8) OR fd_bit fd]) = insert fd (fds tbl)"
    "fds (tbl[fd div 8 := tbl ! (fd div 8) AND NOT (fd_bit fd)]) = fds tbl - {fd}"
    using assms(2)
    by (auto simp: fds_def nth_list_update' bit_or_iff bit_and_iff bit_not_iff bit_fd_bit
        dest: bit_imp_le_length same_bit split: if_splits)
qed

lemma get_fd_loop_spec:
  assumes "length tbl = 1024" "\<forall>fd \<in> set l. fd < MAX_FD_COUNT" "sorted l"
  shows "case get_fd_loop l tbl of (r, tbl') \<Rightarrow>
    (r = -1 \<and> set l \<subseteq> fds tbl \<and> tbl' = tbl)
    \<or> (\<exists>fd. r = int fd \<and> fd \<in> set l - fds tbl \<and> (\<forall>x \<in> set l - fds tbl. fd \<le> x)
        \<and> fds tbl' = insert fd (fds tbl) \<and> length tbl' = 1024)"
  using assms
proof (induction l)
  case (Cons fd l)
  show ?case
  proof (cases "fd \<in> fds tbl")
    case True
    then have "get_fd_loop (fd # l) tbl = get_fd_loop l tbl" by (simp add: and_fd_bit fds_def)
    then show ?thesis using Cons True by (auto split: prod.splits)
  next
    case False
    then have "get_fd_loop (fd # l) tbl = (int fd, tbl[fd div 8 := tbl ! (fd div 8) OR fd_bit fd])"
      using Cons.prems(2) by (simp add: and_fd_bit fds_def)
    then show ?thesis using False Cons.prems fds_set(1) [of tbl fd] by auto
  qed
qed simp

lemma get_fd_range:
  assumes "length tbl = 1024" "get_fd_frombitmap tbl = (r, tbl')"
  shows "-1 \<le> r \<and> r < 1024 \<and> length tbl' = 1024"
proof -
  have "\<forall>fd \<in> set [DEFAULT_FD_NUM..<MAX_FD_COUNT]. fd < MAX_FD_COUNT" by simp
  from get_fd_loop_spec [OF assms(1) this] assms show ?thesis
    by (auto simp: get_fd_frombitmap_def MAX_FD_COUNT_def)
qed

text \<open>
  Descriptors are allocated and released soundly. \<open>get_fd_frombitmap\<close> returns the least free
  descriptor from 3 on, marks it and no other, and returns -1 without a change exactly when 3 to
  1023 are all in use; \<open>set_fd_frombitmap\<close> releases the descriptor and no other, so that a
  descriptor just obtained and released leaves the set of descriptors as it was.
\<close>

theorem fd_bitmap_correct:
  assumes "length tbl = 1024"
  shows "(case get_fd_frombitmap tbl of (r, tbl') \<Rightarrow>
      (r = -1 \<and> {3..<1024} \<subseteq> fds tbl \<and> tbl' = tbl)
      \<or> (\<exists>fd. r = int fd \<and> fd \<in> {3..<1024} - fds tbl \<and> (\<forall>x \<in> {3..<1024} - fds tbl. fd \<le> x)
          \<and> fds tbl' = insert fd (fds tbl) \<and> length tbl' = 1024
          \<and> (\<exists>tbl''. set_fd_frombitmap r tbl' = Some (0, tbl'') \<and> fds tbl'' = fds tbl)))
    \<and> (\<forall>fd. fd < 1024 \<longrightarrow> (\<exists>tbl'. set_fd_frombitmap (int fd) tbl = Some (0, tbl') \<and> fds tbl' = fds tbl - {fd} \<and> length tbl' = 1024))"
proof -
  have clr: "\<exists>tbl'. set_fd_frombitmap (int fd) t = Some (0, tbl') \<and> fds tbl' = fds t - {fd} \<and> length tbl' = 1024"
    if "fd < 1024" "length t = 1024" for fd t
    using that fds_set(2) [of t fd] by (simp add: set_fd_frombitmap_def MAX_FD_COUNT_def)
  have l: "set [DEFAULT_FD_NUM..<MAX_FD_COUNT] = {3..<1024}" by (simp only: DEFAULT_FD_NUM_def MAX_FD_COUNT_def set_upt)
  have "case get_fd_frombitmap tbl of (r, tbl') \<Rightarrow>
      (r = -1 \<and> {3..<1024} \<subseteq> fds tbl \<and> tbl' = tbl)
      \<or> (\<exists>fd. r = int fd \<and> fd \<in> {3..<1024} - fds tbl \<and> (\<forall>x \<in> {3..<1024} - fds tbl. fd \<le> x)
          \<and> fds tbl' = insert fd (fds tbl) \<and> length tbl' = 1024)"
    using get_fd_loop_spec [OF assms, of "[DEFAULT_FD_NUM..<MAX_FD_COUNT]"] unfolding get_fd_frombitmap_def l
    by (simp add: MAX_FD_COUNT_def)
  moreover obtain r tbl' where g: "get_fd_frombitmap tbl = (r, tbl')" by fastforce
  ultimately consider "r = -1" "{3..<1024} \<subseteq> fds tbl" "tbl' = tbl"
    | fd where "r = int fd" "fd \<in> {3..<1024} - fds tbl" "\<forall>x \<in> {3..<1024} - fds tbl. fd \<le> x"
        "fds tbl' = insert fd (fds tbl)" "length tbl' = 1024" by auto
  then show ?thesis
  proof cases
    case 1
    then show ?thesis using g clr assms by simp
  next
    case (2 fd)
    then have "\<exists>tbl''. set_fd_frombitmap r tbl' = Some (0, tbl'') \<and> fds tbl'' = fds tbl"
      using clr [of fd tbl'] by auto
    then show ?thesis using g clr assms 2 by auto
  qed
qed

theorem fd_bitmap_correct_witness:
  "\<exists>tbl. get_fd_frombitmap (replicate 1024 0) = (3, tbl) \<and> fds tbl = {3}"
proof -
  have e: "fds (replicate 1024 0) = {}" by (auto simp: fds_def MAX_FD_COUNT_def)
  obtain r tbl where g: "get_fd_frombitmap (replicate 1024 0) = (r, tbl)" by fastforce
  have "3 \<in> {3..<1024::nat}" by simp
  then have "\<not> {3..<1024::nat} \<subseteq> {}" by blast
  then obtain fd where fd: "r = int fd" "fd \<in> {3..<1024}" "\<forall>x \<in> {3..<1024}. fd \<le> x" "fds tbl = {fd}"
    using fd_bitmap_correct [of "replicate 1024 0"] unfolding e g by auto
  then have "fd = 3" using \<open>3 \<in> {3..<1024::nat}\<close> by (metis atLeastLessThan_iff le_antisym)
  then show ?thesis using g fd by simp
qed

end
