(* ===== verification/NetPacket.thy ===== *)
theory NetPacket
  imports Prelude
begin

unbundle bit_operations_syntax

text \<open>
  The packets of the network stack (\<open>tcp.c\<close>): the functions that write ARP, UDP and TCP packets
  into a message buffer, and the header fields that the receiving side reads.

  A buffer is a list of bytes. The machine is little-endian: an integer field is stored low byte
  first, and \<open>htons\<close> and \<open>htonl\<close> swap the bytes. The layouts are those of the protocol headers
  (Ethernet 14 bytes, ARP 28, IPv4 20, UDP 8, TCP 20). The two checksum functions of DPDK are
  arguments: \<open>ipck\<close> of the IP header and \<open>l4ck\<close> of the IP header and what follows it.
\<close>

type_synonym bytes = "uint8 list"

section \<open>Integers in memory\<close>

definition bytes16 :: "uint16 \<Rightarrow> bytes" where
  "bytes16 w = [ucast w, ucast (drop_bit 8 w)]"

definition word16 :: "uint8 \<Rightarrow> uint8 \<Rightarrow> uint16" where
  "word16 a b = ucast a OR push_bit 8 (ucast b)"

definition bytes32 :: "uint32 \<Rightarrow> bytes" where
  "bytes32 w = [ucast w, ucast (drop_bit 8 w), ucast (drop_bit 16 w), ucast (drop_bit 24 w)]"

definition word32 :: "uint8 \<Rightarrow> uint8 \<Rightarrow> uint8 \<Rightarrow> uint8 \<Rightarrow> uint32" where
  "word32 a b c d = ucast a OR push_bit 8 (ucast b) OR push_bit 16 (ucast c) OR push_bit 24 (ucast d)"

definition htons :: "uint16 \<Rightarrow> uint16" where
  "htons w = word16 (ucast (drop_bit 8 w)) (ucast w)"

definition htonl :: "uint32 \<Rightarrow> uint32" where
  "htonl w = word32 (ucast (drop_bit 24 w)) (ucast (drop_bit 16 w)) (ucast (drop_bit 8 w)) (ucast w)"

abbreviation ntohs :: "uint16 \<Rightarrow> uint16" where "ntohs \<equiv> htons"
abbreviation ntohl :: "uint32 \<Rightarrow> uint32" where "ntohl \<equiv> htonl"

section \<open>Buffers\<close>

text \<open>Writing bytes at an offset; the buffer keeps its length.\<close>

definition put :: "nat \<Rightarrow> bytes \<Rightarrow> bytes \<Rightarrow> bytes" where
  "put off bs msg = map (\<lambda>i. if off \<le> i \<and> i < off + length bs then bs ! (i - off) else msg ! i) [0..<length msg]"

definition subbytes :: "nat \<Rightarrow> nat \<Rightarrow> bytes \<Rightarrow> bytes" where
  "subbytes off n msg = take n (drop off msg)"

definition get16 :: "nat \<Rightarrow> bytes \<Rightarrow> uint16" where
  "get16 off msg = word16 (msg ! off) (msg ! (off + 1))"

definition get32 :: "nat \<Rightarrow> bytes \<Rightarrow> uint32" where
  "get32 off msg = word32 (msg ! off) (msg ! (off + 1)) (msg ! (off + 2)) (msg ! (off + 3))"

section \<open>Writing packets\<close>

definition gDefaultArpMac :: bytes where
  "gDefaultArpMac = replicate 6 0xFF"

text \<open>\<open>strncmp\<close> of two hardware addresses: equal up to the first zero byte.\<close>

fun strn_eq :: "bytes \<Rightarrow> bytes \<Rightarrow> bool" where
  "strn_eq (a # as) (b # bs) = (a = b \<and> (a = 0 \<or> strn_eq as bs))"
| "strn_eq _ _ = True"

definition ng_encode_arp_pkt :: "bytes \<Rightarrow> uint16 \<Rightarrow> bytes \<Rightarrow> uint32 \<Rightarrow> uint32 \<Rightarrow> bytes \<Rightarrow> bytes" where
  "ng_encode_arp_pkt gSrcMac opcode dst_mac sip dip msg =
     (let msg = put 6 gSrcMac msg;
          msg = (if strn_eq dst_mac gDefaultArpMac then put 0 (replicate 6 0) msg else put 0 dst_mac msg);
          msg = put 12 (bytes16 (htons 0x0806)) msg;
          msg = put 14 (bytes16 (htons 1)) msg;
          msg = put 16 (bytes16 (htons 0x0800)) msg;
          msg = put 18 [6] msg;
          msg = put 19 [4] msg;
          msg = put 20 (bytes16 (htons opcode)) msg;
          msg = put 22 gSrcMac msg;
          msg = put 32 dst_mac msg;
          msg = put 28 (bytes32 sip) msg
      in put 38 (bytes32 dip) msg)"

text \<open>The Ethernet and IP headers that the UDP and the TCP encoder write in the same way.\<close>

definition put_eth_ip :: "(bytes \<Rightarrow> uint16) \<Rightarrow> uint16 \<Rightarrow> uint8 \<Rightarrow> uint32 \<Rightarrow> uint32 \<Rightarrow> bytes \<Rightarrow> bytes \<Rightarrow> bytes \<Rightarrow> bytes" where
  "put_eth_ip ipck ip_len proto sip dip srcmac dstmac msg =
     (let msg = put 6 srcmac msg;
          msg = put 0 dstmac msg;
          msg = put 12 (bytes16 (htons 0x0800)) msg;
          msg = put 14 [0x45, 0] msg;
          msg = put 16 (bytes16 (htons ip_len)) msg;
          msg = put 18 (bytes16 0) msg;
          msg = put 20 (bytes16 0) msg;
          msg = put 22 [64, proto] msg;
          msg = put 26 (bytes32 sip) msg;
          msg = put 30 (bytes32 dip) msg;
          msg = put 24 (bytes16 0) msg
      in put 24 (bytes16 (ipck (subbytes 14 20 msg))) msg)"

text \<open>
  \<open>ng_encode_udp_apppkt\<close>; \<open>memory\<close> is the memory from \<open>data\<close> on, of which it copies
  \<open>udplen\<close> bytes.
\<close>

definition ng_encode_udp_apppkt ::
    "(bytes \<Rightarrow> uint16) \<Rightarrow> (bytes \<Rightarrow> bytes \<Rightarrow> uint16) \<Rightarrow> uint32 \<Rightarrow> uint32 \<Rightarrow> uint16 \<Rightarrow> uint16 \<Rightarrow> bytes \<Rightarrow> bytes
     \<Rightarrow> bytes \<Rightarrow> uint16 \<Rightarrow> bytes \<Rightarrow> bytes" where
  "ng_encode_udp_apppkt ipck l4ck sip dip sport dport srcmac dstmac memory total_len msg =
     (let msg = put_eth_ip ipck (total_len - 14) 17 sip dip srcmac dstmac msg;
          msg = put 34 (bytes16 sport) msg;
          msg = put 36 (bytes16 dport) msg;
          udplen = total_len - 14 - 20;
          msg = put 38 (bytes16 (htons udplen)) msg;
          msg = put 42 (take (unat udplen) memory) msg;
          msg = put 40 (bytes16 0) msg
      in put 40 (bytes16 (l4ck (subbytes 14 20 msg) (drop 34 msg))) msg)"

text \<open>\<open>rte_pktmbuf_alloc\<close> returns a buffer \<open>msg\<close>; the packet is its first \<open>total_len\<close> bytes.\<close>

definition ng_udp_pkt ::
    "(bytes \<Rightarrow> uint16) \<Rightarrow> (bytes \<Rightarrow> bytes \<Rightarrow> uint16) \<Rightarrow> uint32 \<Rightarrow> uint32 \<Rightarrow> uint16 \<Rightarrow> uint16 \<Rightarrow> bytes \<Rightarrow> bytes
     \<Rightarrow> bytes \<Rightarrow> uint16 \<Rightarrow> bytes \<Rightarrow> bytes" where
  "ng_udp_pkt ipck l4ck sip dip sport dport srcmac dstmac memory len msg =
     (let total_len = unat len + 42
      in take total_len
           (ng_encode_udp_apppkt ipck l4ck sip dip sport dport srcmac dstmac memory (of_nat total_len) msg))"

definition ng_send_arp :: "bytes \<Rightarrow> uint16 \<Rightarrow> bytes \<Rightarrow> uint32 \<Rightarrow> uint32 \<Rightarrow> bytes \<Rightarrow> bytes" where
  "ng_send_arp gSrcMac opcode dst_mac sip dip msg =
     take (14 + 28) (ng_encode_arp_pkt gSrcMac opcode dst_mac sip dip msg)"

section \<open>TCP segments\<close>

text \<open>The data pointer of a fragment is \<^const>\<open>None\<close> when it is null; the options are never set.\<close>

record fragment =
  fr_sport :: uint16
  fr_dport :: uint16
  fr_seqnum :: uint32
  fr_acknum :: uint32
  fr_hdrlen_off :: uint8
  fr_tcp_flags :: uint8
  fr_windows :: uint16
  fr_tcp_urp :: uint16
  fr_optlen :: nat
  fr_data :: "bytes option"
  fr_length :: uint32

definition tcp_total_len :: "fragment \<Rightarrow> nat" where
  "tcp_total_len fr = unat (fr_length fr + 14 + 20 + 20 + of_nat (fr_optlen fr * 4))"

definition ng_encode_tcp_apppkt ::
    "(bytes \<Rightarrow> uint16) \<Rightarrow> (bytes \<Rightarrow> bytes \<Rightarrow> uint16) \<Rightarrow> uint32 \<Rightarrow> uint32 \<Rightarrow> bytes \<Rightarrow> bytes \<Rightarrow> fragment \<Rightarrow> bytes \<Rightarrow> bytes" where
  "ng_encode_tcp_apppkt ipck l4ck sip dip srcmac dstmac fr msg =
     (let total_len = tcp_total_len fr;
          msg = put_eth_ip ipck (of_nat (total_len - 14)) 6 sip dip srcmac dstmac msg;
          msg = put 34 (bytes16 (fr_sport fr)) msg;
          msg = put 36 (bytes16 (fr_dport fr)) msg;
          msg = put 38 (bytes32 (htonl (fr_seqnum fr))) msg;
          msg = put 42 (bytes32 (htonl (fr_acknum fr))) msg;
          msg = put 46 [fr_hdrlen_off fr] msg;
          msg = put 48 (bytes16 (fr_windows fr)) msg;
          msg = put 52 (bytes16 (fr_tcp_urp fr)) msg;
          msg = put 47 [fr_tcp_flags fr] msg;
          msg = (case fr_data fr of
                   None \<Rightarrow> msg
                 | Some memory \<Rightarrow> put (54 + fr_optlen fr * 4) (take (unat (fr_length fr)) memory) msg);
          msg = put 50 (bytes16 0) msg
      in put 50 (bytes16 (l4ck (subbytes 14 20 msg) (drop 34 msg))) msg)"

definition ng_tcp_pkt ::
    "(bytes \<Rightarrow> uint16) \<Rightarrow> (bytes \<Rightarrow> bytes \<Rightarrow> uint16) \<Rightarrow> uint32 \<Rightarrow> uint32 \<Rightarrow> bytes \<Rightarrow> bytes \<Rightarrow> fragment \<Rightarrow> bytes \<Rightarrow> bytes" where
  "ng_tcp_pkt ipck l4ck sip dip srcmac dstmac fr msg =
     take (tcp_total_len fr) (ng_encode_tcp_apppkt ipck l4ck sip dip srcmac dstmac fr msg)"

section \<open>Lemmas on buffers\<close>

lemma length_put [simp]: "length (put off bs msg) = length msg"
  by (simp add: put_def)

lemma nth_put:
  "i < length msg \<Longrightarrow> put off bs msg ! i = (if off \<le> i \<and> i < off + length bs then bs ! (i - off) else msg ! i)"
  by (simp add: put_def)

lemma word16_bytes16: "word16 (ucast w) (ucast (drop_bit 8 w)) = w"
  unfolding word16_def by (rule bit_word_eqI) (auto simp: bit_simps)

lemma word32_bytes32:
  "word32 (ucast w) (ucast (drop_bit 8 w)) (ucast (drop_bit 16 w)) (ucast (drop_bit 24 w)) = w"
  unfolding word32_def
proof (rule bit_word_eqI)
  fix n assume n: "n < LENGTH(32)"
  show "bit (ucast (ucast w :: uint8) OR push_bit 8 (ucast (ucast (drop_bit 8 w) :: uint8))
      OR push_bit 16 (ucast (ucast (drop_bit 16 w) :: uint8)) OR push_bit 24 (ucast (ucast (drop_bit 24 w) :: uint8)) :: uint32) n = bit w n"
  proof -
    consider "n < 8" | "8 \<le> n" "n < 16" | "16 \<le> n" "n < 24" | "24 \<le> n" by linarith
    then show ?thesis using n by cases (auto simp: bit_simps)
  qed
qed

lemma bytes16_word16: "ucast (word16 a b) = a" "ucast (drop_bit 8 (word16 a b)) = b"
  unfolding word16_def by (rule bit_word_eqI; auto simp: bit_simps dest: bit_imp_le_length)+

lemma bytes32_word32:
  "ucast (word32 a b c d) = a" "ucast (drop_bit 8 (word32 a b c d)) = b"
  "ucast (drop_bit 16 (word32 a b c d)) = c" "ucast (drop_bit 24 (word32 a b c d)) = d"
  unfolding word32_def by (rule bit_word_eqI; auto simp: bit_simps dest: bit_imp_le_length)+

lemma htons_htons [simp]: "htons (htons w) = w"
  by (simp add: htons_def bytes16_word16 word16_bytes16)

lemma htonl_htonl [simp]: "htonl (htonl w) = w"
  by (simp add: htonl_def bytes32_word32 word32_bytes32)


lemma get16_put:
  "off + 2 \<le> length msg \<Longrightarrow> get16 off (put off (bytes16 w) msg) = w"
  by (simp add: get16_def nth_put bytes16_def word16_bytes16)

lemma get32_put:
  "off + 4 \<le> length msg \<Longrightarrow> get32 off (put off (bytes32 w) msg) = w"
  by (simp add: get32_def nth_put bytes32_def word32_bytes32)

lemma get16_put_other:
  "off + 2 \<le> length msg \<Longrightarrow> off + 2 \<le> o2 \<or> o2 + length bs \<le> off \<Longrightarrow> get16 off (put o2 bs msg) = get16 off msg"
  by (auto simp: get16_def nth_put)

lemma get32_put_other:
  "off + 4 \<le> length msg \<Longrightarrow> off + 4 \<le> o2 \<or> o2 + length bs \<le> off \<Longrightarrow> get32 off (put o2 bs msg) = get32 off msg"
  by (auto simp: get32_def nth_put)

lemma slice_put_other:
  "off + n \<le> o2 \<or> o2 + length bs \<le> off \<Longrightarrow> subbytes off n (put o2 bs msg) = subbytes off n msg"
  by (rule nth_equalityI) (auto simp: subbytes_def nth_put)

lemma slice_put: "off + length bs \<le> length msg \<Longrightarrow> n = length bs \<Longrightarrow> subbytes off n (put off bs msg) = bs"
  by (rule nth_equalityI) (auto simp: subbytes_def nth_put)

lemma lengths [simp]: "length (bytes16 w) = 2" "length (bytes32 v) = 4"
  by (simp_all add: bytes16_def bytes32_def)

lemma put_put_same: "length bs = length cs \<Longrightarrow> put off bs (put off cs msg) = put off bs msg"
  by (rule nth_equalityI) (auto simp: nth_put)

lemmas buffer = get16_put get32_put get16_put_other get32_put_other slice_put slice_put_other nth_put

section \<open>Reading packets\<close>

text \<open>The fields the receiving side reads, by the offsets of the headers in the frame.\<close>

definition ether_type :: "bytes \<Rightarrow> uint16" where "ether_type m = get16 12 m"
definition ip_total_length :: "bytes \<Rightarrow> uint16" where "ip_total_length m = get16 16 m"
definition ip_proto :: "bytes \<Rightarrow> uint8" where "ip_proto m = m ! 23"
definition ip_src :: "bytes \<Rightarrow> uint32" where "ip_src m = get32 26 m"
definition ip_dst :: "bytes \<Rightarrow> uint32" where "ip_dst m = get32 30 m"
definition l4_src_port :: "bytes \<Rightarrow> uint16" where "l4_src_port m = get16 34 m"
definition l4_dst_port :: "bytes \<Rightarrow> uint16" where "l4_dst_port m = get16 36 m"
definition udp_dgram_len :: "bytes \<Rightarrow> uint16" where "udp_dgram_len m = get16 38 m"
definition tcp_sent_seq :: "bytes \<Rightarrow> uint32" where "tcp_sent_seq m = get32 38 m"
definition tcp_recv_ack :: "bytes \<Rightarrow> uint32" where "tcp_recv_ack m = get32 42 m"
definition tcp_data_off :: "bytes \<Rightarrow> uint8" where "tcp_data_off m = m ! 46"
definition tcp_flags :: "bytes \<Rightarrow> uint8" where "tcp_flags m = m ! 47"
definition tcp_rx_win :: "bytes \<Rightarrow> uint16" where "tcp_rx_win m = get16 48 m"
definition tcp_urp :: "bytes \<Rightarrow> uint16" where "tcp_urp m = get16 52 m"
definition tcp_cksum :: "bytes \<Rightarrow> uint16" where "tcp_cksum m = get16 50 m"
definition eth_src :: "bytes \<Rightarrow> bytes" where "eth_src m = subbytes 6 6 m"
definition eth_dst :: "bytes \<Rightarrow> bytes" where "eth_dst m = subbytes 0 6 m"

text \<open>The checksum test of \<open>ng_tcp_process\<close>.\<close>

definition tcp_cksum_ok :: "(bytes \<Rightarrow> bytes \<Rightarrow> uint16) \<Rightarrow> bytes \<Rightarrow> bool" where
  "tcp_cksum_ok l4ck m =
     (let m0 = put 50 (bytes16 0) m in l4ck (subbytes 14 20 m0) (drop 34 m0) = tcp_cksum m)"

lemma put_eth_ip_fields:
  assumes "54 \<le> length msg" "length srcmac = 6" "length dstmac = 6"
    and m: "m = put_eth_ip ipck l proto sip dip srcmac dstmac msg"
  shows "length m = length msg" "ether_type m = htons 0x0800" "ip_total_length m = htons l" "ip_proto m = proto"
    "ip_src m = sip" "ip_dst m = dip" "eth_src m = srcmac" "eth_dst m = dstmac"
  unfolding m put_eth_ip_def Let_def ether_type_def ip_total_length_def ip_proto_def ip_src_def ip_dst_def eth_src_def eth_dst_def
  using assms(1-3) by (simp_all add: buffer)

lemma get_take:
  "off + 2 \<le> n \<Longrightarrow> get16 off (take n m) = get16 off m" "off + 4 \<le> n \<Longrightarrow> get32 off (take n m) = get32 off m"
  by (simp_all add: get16_def get32_def)

lemma slice_take: "off + k \<le> n \<Longrightarrow> subbytes off k (take n m) = subbytes off k m"
  by (simp add: subbytes_def drop_take min_def)

lemma get16_slice: "k + 2 \<le> n \<Longrightarrow> off + n \<le> length m \<Longrightarrow> get16 k (subbytes off n m) = get16 (off + k) m"
  by (simp add: get16_def subbytes_def add.assoc)

text \<open>
  What the documentation promises of the checksum: it depends on the IP header and on as many bytes
  behind it as the header's total length says.
\<close>

definition reads_datagram :: "(bytes \<Rightarrow> bytes \<Rightarrow> uint16) \<Rightarrow> bool" where
  "reads_datagram l4ck \<longleftrightarrow> (\<forall>ip b b'. take (unat (ntohs (get16 2 ip)) - 20) b = take (unat (ntohs (get16 2 ip)) - 20) b'
     \<longrightarrow> l4ck ip b = l4ck ip b')"

text \<open>The buffer before the checksum is written.\<close>

definition tcp_body ::
    "(bytes \<Rightarrow> uint16) \<Rightarrow> uint32 \<Rightarrow> uint32 \<Rightarrow> bytes \<Rightarrow> bytes \<Rightarrow> fragment \<Rightarrow> bytes \<Rightarrow> bytes" where
  "tcp_body ipck sip dip srcmac dstmac fr msg =
     (let msg = put_eth_ip ipck (of_nat (tcp_total_len fr - 14)) 6 sip dip srcmac dstmac msg;
          msg = put 34 (bytes16 (fr_sport fr)) msg;
          msg = put 36 (bytes16 (fr_dport fr)) msg;
          msg = put 38 (bytes32 (htonl (fr_seqnum fr))) msg;
          msg = put 42 (bytes32 (htonl (fr_acknum fr))) msg;
          msg = put 46 [fr_hdrlen_off fr] msg;
          msg = put 48 (bytes16 (fr_windows fr)) msg;
          msg = put 52 (bytes16 (fr_tcp_urp fr)) msg;
          msg = put 47 [fr_tcp_flags fr] msg
      in case fr_data fr of
           None \<Rightarrow> msg
         | Some memory \<Rightarrow> put (54 + fr_optlen fr * 4) (take (unat (fr_length fr)) memory) msg)"

lemma ng_encode_tcp_body:
  "ng_encode_tcp_apppkt ipck l4ck sip dip srcmac dstmac fr msg =
     (let b = put 50 (bytes16 0) (tcp_body ipck sip dip srcmac dstmac fr msg)
      in put 50 (bytes16 (l4ck (subbytes 14 20 b) (drop 34 b))) b)"
  unfolding ng_encode_tcp_apppkt_def tcp_body_def Let_def ..

text \<open>The data of a fragment: none when there is no data pointer, else the memory from the pointer on.\<close>

definition fragment_payload :: "fragment \<Rightarrow> bytes \<Rightarrow> bool" where
  "fragment_payload fr payload \<longleftrightarrow> unat (fr_length fr) = length payload
     \<and> (case fr_data fr of None \<Rightarrow> payload = [] | Some memory \<Rightarrow> take (length payload) memory = payload)"

text \<open>Where the payload begins in the packet.\<close>

abbreviation payload_at :: "fragment \<Rightarrow> nat" where
  "payload_at fr \<equiv> 54 + fr_optlen fr * 4"

lemma put_Nil [simp]: "put off [] msg = msg"
  by (rule nth_equalityI) (auto simp: nth_put)

lemma tcp_body_fields:
  assumes len: "payload_at fr + length payload \<le> length msg" and mac: "length srcmac = 6" "length dstmac = 6"
    and fr: "fragment_payload fr payload"
    and b: "b = tcp_body ipck sip dip srcmac dstmac fr msg"
  shows "length b = length msg" "ether_type b = htons 0x0800" "ip_total_length b = htons (of_nat (tcp_total_len fr - 14))"
    "ip_proto b = 6" "ip_src b = sip" "ip_dst b = dip"
    "l4_src_port b = fr_sport fr" "l4_dst_port b = fr_dport fr" "tcp_sent_seq b = htonl (fr_seqnum fr)"
    "tcp_recv_ack b = htonl (fr_acknum fr)" "tcp_data_off b = fr_hdrlen_off fr" "tcp_flags b = fr_tcp_flags fr"
    "subbytes (payload_at fr) (length payload) b = payload" "tcp_rx_win b = fr_windows fr" "tcp_urp b = fr_tcp_urp fr" "eth_src b = srcmac" "eth_dst b = dstmac"
proof -
  define h where "h = put_eth_ip ipck (of_nat (tcp_total_len fr - 14)) 6 sip dip srcmac dstmac msg"
  have l54: "54 \<le> length msg" using len by simp
  note hf = put_eth_ip_fields [OF l54 mac h_def]
  have lh: "payload_at fr + length payload \<le> length h" using hf(1) len by simp
  have bh: "b = put (payload_at fr) payload (put 47 [fr_tcp_flags fr] (put 52 (bytes16 (fr_tcp_urp fr)) (put 48 (bytes16 (fr_windows fr))
      (put 46 [fr_hdrlen_off fr] (put 42 (bytes32 (htonl (fr_acknum fr))) (put 38 (bytes32 (htonl (fr_seqnum fr)))
      (put 36 (bytes16 (fr_dport fr)) (put 34 (bytes16 (fr_sport fr)) h))))))))"
    using fr by (cases "fr_data fr") (simp_all add: fragment_payload_def b tcp_body_def Let_def h_def)
  show "length b = length msg" unfolding bh using lh hf(1) by (simp add: buffer)
  show "ether_type b = htons 0x0800" using hf(2) lh unfolding bh ether_type_def by (simp add: buffer)
  show "ip_total_length b = htons (of_nat (tcp_total_len fr - 14))" using hf(3) lh unfolding bh ip_total_length_def by (simp add: buffer)
  show "ip_proto b = 6" using hf(4) lh unfolding bh ip_proto_def by (simp add: buffer)
  show "ip_src b = sip" using hf(5) lh unfolding bh ip_src_def by (simp add: buffer)
  show "ip_dst b = dip" using hf(6) lh unfolding bh ip_dst_def by (simp add: buffer)
  show "l4_src_port b = fr_sport fr" using lh unfolding bh l4_src_port_def by (simp add: buffer)
  show "l4_dst_port b = fr_dport fr" using lh unfolding bh l4_dst_port_def by (simp add: buffer)
  show "tcp_sent_seq b = htonl (fr_seqnum fr)" using lh unfolding bh tcp_sent_seq_def by (simp add: buffer)
  show "tcp_recv_ack b = htonl (fr_acknum fr)" using lh unfolding bh tcp_recv_ack_def by (simp add: buffer)
  show "tcp_data_off b = fr_hdrlen_off fr" using lh unfolding bh tcp_data_off_def by (simp add: buffer)
  show "tcp_flags b = fr_tcp_flags fr" using lh unfolding bh tcp_flags_def by (simp add: buffer)
  show "subbytes (payload_at fr) (length payload) b = payload" using lh unfolding bh by (simp add: buffer)
  show "tcp_rx_win b = fr_windows fr" using lh unfolding bh tcp_rx_win_def by (simp add: buffer)
  show "tcp_urp b = fr_tcp_urp fr" using lh unfolding bh tcp_urp_def by (simp add: buffer)
  show "eth_src b = srcmac" using hf(7) lh unfolding bh eth_src_def by (simp add: buffer)
  show "eth_dst b = dstmac" using hf(8) lh unfolding bh eth_dst_def by (simp add: buffer)
qed


lemma tcp_pkt_fields:
  assumes "reads_datagram l4ck" "length srcmac = 6" "length dstmac = 6"
    and "fragment_payload fr payload"
    and "fr_optlen fr * 4 + length payload \<le> 65495" "payload_at fr + length payload \<le> length msg"
    and m: "m = ng_tcp_pkt ipck l4ck sip dip srcmac dstmac fr msg"
  shows "length m = payload_at fr + length payload \<and> tcp_cksum_ok l4ck m
    \<and> eth_src m = srcmac \<and> eth_dst m = dstmac
    \<and> ether_type m = htons 0x0800 \<and> ip_proto m = 6 \<and> ip_src m = sip \<and> ip_dst m = dip
    \<and> unat (ntohs (ip_total_length m)) = 40 + fr_optlen fr * 4 + length payload
    \<and> l4_src_port m = fr_sport fr \<and> l4_dst_port m = fr_dport fr
    \<and> ntohl (tcp_sent_seq m) = fr_seqnum fr \<and> ntohl (tcp_recv_ack m) = fr_acknum fr
    \<and> tcp_data_off m = fr_hdrlen_off fr \<and> tcp_flags m = fr_tcp_flags fr
    \<and> tcp_rx_win m = fr_windows fr \<and> tcp_urp m = fr_tcp_urp fr
    \<and> subbytes (payload_at fr) (length payload) m = payload"
proof -
  define n where "n = payload_at fr + length payload"
  define b where "b = tcp_body ipck sip dip srcmac dstmac fr msg"
  define b0 where "b0 = put 50 (bytes16 0) b"
  define ck where "ck = l4ck (subbytes 14 20 b0) (drop 34 b0)"
  note bf = tcp_body_fields [OF assms(6,2-4) b_def]
  have fl: "unat (fr_length fr) = length payload" using assms(4) by (simp add: fragment_payload_def)
  have "unat (of_nat (fr_optlen fr * 4) :: uint32) = fr_optlen fr * 4" using assms(5) by (simp add: unat_of_nat del: of_nat_mult)
  moreover have "unat (fr_length fr + 14 + 20 + 20) = length payload + 54"
    using fl assms(5) by (simp add: unat_word_ariths)
  ultimately have total: "tcp_total_len fr = n"
    unfolding tcp_total_len_def n_def using assms(5) by (subst unat_word_ariths(1)) simp
  have lb: "length b = length msg" "n \<le> length b" using bf(1) assms(6) by (simp_all add: n_def)
  have mb: "m = take n (put 50 (bytes16 ck) b0)"
    unfolding m ng_tcp_pkt_def total ng_encode_tcp_body Let_def ck_def b0_def b_def ..
  have m0: "put 50 (bytes16 0) m = take n b0"
    unfolding mb b0_def using lb(2) by (intro nth_equalityI) (auto simp: nth_put n_def)
  have ipl: "unat (ntohs (ip_total_length b)) = 40 + fr_optlen fr * 4 + length payload"
  proof -
    have "n - 14 < 2 ^ 16" using assms(5) by (simp add: n_def)
    then have "unat (of_nat (n - 14) :: uint16) = n - 14" by (simp add: unat_of_nat)
    then show ?thesis unfolding bf(3) total by (simp add: n_def)
  qed
  have sl: "subbytes 14 20 (take n b0) = subbytes 14 20 b0" by (simp add: slice_take n_def)
  have "get16 2 (subbytes 14 20 b0) = ip_total_length b"
    using lb by (simp add: get16_slice n_def b0_def ip_total_length_def buffer)
  then have "take (unat (ntohs (get16 2 (subbytes 14 20 b0))) - 20) (drop 34 (take n b0)) =
      take (unat (ntohs (get16 2 (subbytes 14 20 b0))) - 20) (drop 34 b0)"
    using ipl by (simp add: drop_take n_def)
  then have "l4ck (subbytes 14 20 (take n b0)) (drop 34 (take n b0)) = ck"
    using assms(1) unfolding sl ck_def reads_datagram_def by blast
  moreover have "tcp_cksum m = ck" unfolding mb tcp_cksum_def using lb by (simp add: get_take n_def buffer b0_def)
  ultimately have ok: "tcp_cksum_ok l4ck m" by (simp add: tcp_cksum_ok_def Let_def m0)
  have fields: "ether_type m = ether_type b" "ip_total_length m = ip_total_length b" "ip_proto m = ip_proto b"
    "ip_src m = ip_src b" "ip_dst m = ip_dst b" "l4_src_port m = l4_src_port b" "l4_dst_port m = l4_dst_port b"
    "tcp_sent_seq m = tcp_sent_seq b" "tcp_recv_ack m = tcp_recv_ack b" "tcp_data_off m = tcp_data_off b" "tcp_flags m = tcp_flags b"
    "tcp_rx_win m = tcp_rx_win b" "tcp_urp m = tcp_urp b" "eth_src m = eth_src b" "eth_dst m = eth_dst b"
    unfolding mb b0_def ether_type_def ip_total_length_def ip_proto_def ip_src_def ip_dst_def l4_src_port_def l4_dst_port_def
      tcp_sent_seq_def tcp_recv_ack_def tcp_data_off_def tcp_flags_def tcp_rx_win_def tcp_urp_def eth_src_def eth_dst_def
    using lb by (simp_all add: get_take slice_take n_def buffer)
  have "subbytes (payload_at fr) (length payload) m = payload"
    unfolding mb b0_def using lb bf(13) by (simp add: slice_take n_def buffer)
  moreover have "length m = n" unfolding mb using lb by (simp add: b0_def)
  ultimately show ?thesis using ok fields bf ipl by (simp add: n_def)
qed

text \<open>A packet without options and with data.\<close>

lemma tcp_pkt_reads_back:
  assumes "reads_datagram l4ck" "length srcmac = 6" "length dstmac = 6"
    and "fr_optlen fr = 0" "fr_data fr = Some (payload @ beyond)" "unat (fr_length fr) = length payload"
    and "length payload \<le> 65495" "54 + length payload \<le> length msg"
    and m: "m = ng_tcp_pkt ipck l4ck sip dip srcmac dstmac fr msg"
  shows "length m = 54 + length payload \<and> tcp_cksum_ok l4ck m
    \<and> ether_type m = htons 0x0800 \<and> ip_proto m = 6 \<and> ip_src m = sip \<and> ip_dst m = dip
    \<and> unat (ntohs (ip_total_length m)) = 40 + length payload
    \<and> l4_src_port m = fr_sport fr \<and> l4_dst_port m = fr_dport fr
    \<and> ntohl (tcp_sent_seq m) = fr_seqnum fr \<and> ntohl (tcp_recv_ack m) = fr_acknum fr
    \<and> tcp_data_off m = fr_hdrlen_off fr \<and> tcp_flags m = fr_tcp_flags fr
    \<and> subbytes 54 (length payload) m = payload"
  using tcp_pkt_fields [OF assms(1-3) _ _ _ m, of payload] assms(4-8) by (simp add: fragment_payload_def)

text \<open>
  C29. What the stack sends, the stack accepts and reads back. A TCP packet that \<open>ng_tcp_pkt\<close>
  builds from a fragment passes the checksum test of \<open>ng_tcp_process\<close>, and its hardware and IP addresses,
  ports, sequence and acknowledgement numbers, header length, flags, window, urgent pointer, total length
  and payload, read back from the frame, are those of the fragment. The fragment may have data or, as an ACK,
  a SYN or a FIN, none, and any number of option words, which the packet has room for but whose contents
  nobody writes. Options and data have at most 65495 bytes, the buffer is large enough, and the checksum
  functions keep what DPDK documents.
\<close>

theorem tcp_packet_roundtrip:
  assumes "reads_datagram l4ck" "length srcmac = 6" "length dstmac = 6"
    and "fragment_payload fr payload"
    and "fr_optlen fr * 4 + length payload \<le> 65495" "payload_at fr + length payload \<le> length msg"
    and m: "m = ng_tcp_pkt ipck l4ck sip dip srcmac dstmac fr msg"
  shows "length m = payload_at fr + length payload \<and> tcp_cksum_ok l4ck m
    \<and> eth_src m = srcmac \<and> eth_dst m = dstmac
    \<and> ether_type m = htons 0x0800 \<and> ip_proto m = 6 \<and> ip_src m = sip \<and> ip_dst m = dip
    \<and> unat (ntohs (ip_total_length m)) = 40 + fr_optlen fr * 4 + length payload
    \<and> l4_src_port m = fr_sport fr \<and> l4_dst_port m = fr_dport fr
    \<and> ntohl (tcp_sent_seq m) = fr_seqnum fr \<and> ntohl (tcp_recv_ack m) = fr_acknum fr
    \<and> tcp_data_off m = fr_hdrlen_off fr \<and> tcp_flags m = fr_tcp_flags fr
    \<and> tcp_rx_win m = fr_windows fr \<and> tcp_urp m = fr_tcp_urp fr
    \<and> subbytes (payload_at fr) (length payload) m = payload"
  by (rule tcp_pkt_fields [OF assms])

definition demo_fragment :: fragment where
  "demo_fragment = \<lparr>fr_sport = 80, fr_dport = 90, fr_seqnum = 1000, fr_acknum = 2000, fr_hdrlen_off = 0x50, fr_tcp_flags = 0x18,
     fr_windows = 14600, fr_tcp_urp = 0, fr_optlen = 0, fr_data = Some ([104, 105] @ [0]), fr_length = 2\<rparr>"

text \<open>A checksum of the required form: the sum of the bytes of the datagram.\<close>

definition demo_ck :: "bytes \<Rightarrow> bytes \<Rightarrow> uint16" where
  "demo_ck ip b = of_nat (sum_list (map unat (take (unat (ntohs (get16 2 ip)) - 20) b)))"

theorem tcp_packet_roundtrip_witness:
  "reads_datagram demo_ck \<and>
   (\<exists>m. m = ng_tcp_pkt (\<lambda>_. 0) demo_ck 1 2 (replicate 6 7) (replicate 6 9) demo_fragment (replicate 60 0)
     \<and> tcp_cksum_ok demo_ck m \<and> ntohl (tcp_sent_seq m) = 1000 \<and> tcp_rx_win m = 14600 \<and> subbytes 54 2 m = [104, 105])
   \<and> (\<exists>m. m = ng_tcp_pkt (\<lambda>_. 0) demo_ck 1 2 (replicate 6 7) (replicate 6 9) (demo_fragment\<lparr>fr_data := None, fr_length := 0\<rparr>) (replicate 60 0)
     \<and> tcp_cksum_ok demo_ck m \<and> ntohl (tcp_recv_ack m) = 2000 \<and> length m = 54)"
proof -
  have ck: "reads_datagram demo_ck" unfolding reads_datagram_def demo_ck_def by metis
  let ?fr = "demo_fragment\<lparr>fr_data := None, fr_length := 0\<rparr>"
  let ?m = "ng_tcp_pkt (\<lambda>_. 0) demo_ck 1 2 (replicate 6 7) (replicate 6 9) demo_fragment (replicate 60 0)"
  let ?m' = "ng_tcp_pkt (\<lambda>_. 0) demo_ck 1 2 (replicate 6 7) (replicate 6 9) ?fr (replicate 60 0)"
  have fr: "fragment_payload demo_fragment [104, 105]" "fragment_payload ?fr []"
    by (simp_all add: fragment_payload_def demo_fragment_def)
  have fields: "fr_optlen demo_fragment = 0" "fr_seqnum demo_fragment = 1000" "fr_acknum demo_fragment = 2000" "fr_windows demo_fragment = 14600"
    by (simp_all add: demo_fragment_def)
  show ?thesis
    using ck tcp_packet_roundtrip [OF ck _ _ fr(1), of "replicate 6 7" "replicate 6 9" "replicate 60 0" ?m "\<lambda>_. 0" 1 2]
      tcp_packet_roundtrip [OF ck _ _ fr(2), of "replicate 6 7" "replicate 6 9" "replicate 60 0" ?m' "\<lambda>_. 0" 1 2] fields
    by (simp add: numeral_2_eq_2)
qed

end
