(* ===== verification/NetSocket.thy ===== *)
theory NetSocket
  imports BoundedFifo ArpTable FdBitmap NetPacket "HOL-Library.Monad_Syntax"
begin

text \<open>
  The sockets of the network stack (\<open>tcp.c\<close>, \<open>nsocket\<close> to \<open>nclose\<close>) and the tables of UDP
  hosts and TCP streams that they share with the packet processing.

  Hosts and streams live in stores by address and are chained in lists, newest first. The rings of
  DPDK are an argument, the record \<open>ring_ops\<close>, which the properties only use through the contract
  \<open>bounded_fifo\<close>; \<open>rte_ring_mp_enqueue\<close> on a full ring leaves it alone (the code ignores the result).
  Whether \<open>rte_malloc\<close> succeeds and what \<open>rte_ring_create\<close> returns are arguments too. A call
  that waits on its condition variable, or whose behaviour is undefined, is \<^const>\<open>None\<close>.
\<close>

section \<open>Rings\<close>

record ('r, 'a) ring_ops =
  rg_full :: "'r \<Rightarrow> bool"
  rg_none :: "'r \<Rightarrow> bool"
  rg_push :: "'a \<Rightarrow> 'r \<Rightarrow> 'r"
  rg_pop :: "'r \<Rightarrow> 'a \<times> 'r"

definition ring_enqueue :: "('r, 'a) ring_ops \<Rightarrow> 'a \<Rightarrow> 'r \<Rightarrow> 'r" where
  "ring_enqueue R x r = (if rg_full R r then r else rg_push R x r)"

definition ring_dequeue :: "('r, 'a) ring_ops \<Rightarrow> 'r \<Rightarrow> ('a \<times> 'r) option" where
  "ring_dequeue R r = (if rg_none R r then None else Some (rg_pop R r))"

section \<open>Hosts and streams\<close>

datatype tcp_status = CLOSED | LISTEN | SYN_RCVD | SYN_SENT | ESTABLISHED | FIN_WAIT_1 | FIN_WAIT_2
  | CLOSING | TIME_WAIT | CLOSE_WAIT | LAST_ACK

record 'r stream =
  st_fd :: int
  st_dip :: uint32
  st_localmac :: mac
  st_dport :: uint16
  st_protocol :: uint8
  st_sport :: uint16
  st_sip :: uint32
  st_snd_nxt :: uint32
  st_rcv_nxt :: uint32
  st_status :: tcp_status
  st_sndbuf :: "'r option"
  st_rcvbuf :: "'r option"

record offload =
  ol_sip :: uint32
  ol_dip :: uint32
  ol_sport :: uint16
  ol_dport :: uint16
  ol_protocol :: int
  ol_data :: bytes
  ol_length :: uint16

record 'q localhost =
  lh_fd :: int
  lh_localip :: uint32
  lh_localmac :: mac
  lh_localport :: uint16
  lh_protocol :: uint8
  lh_sndbuf :: 'q
  lh_rcvbuf :: 'q

text \<open>
  A host is only chained once both its rings exist; a stream made by \<open>ng_tcp_stream_create\<close> keeps
  whatever \<open>rte_ring_create\<close> returned. \<open>woken\<close> records the condition variables signalled, \<open>sent\<close> the packets put on the out ring.
\<close>

record ('r, 'q) net =
  arpt :: "arp_table option"
  fd_table :: "uint8 list"
  hosts :: "addr \<Rightarrow> 'q localhost"
  lhost :: "addr list"
  streams :: "addr \<Rightarrow> 'r stream"
  tcb_set :: "addr list"
  woken :: "addr list"
  sent :: "bytes list"

definition IPPROTO_UDP :: uint8 where "IPPROTO_UDP = 17"
definition IPPROTO_TCP :: uint8 where "IPPROTO_TCP = 6"
definition TCP_INITIAL_WINDOW :: uint16 where "TCP_INITIAL_WINDOW = 14600"
definition FIN_FLAG :: uint8 where "FIN_FLAG = 1"
definition SYN_FLAG :: uint8 where "SYN_FLAG = 2"
definition PSH_FLAG :: uint8 where "PSH_FLAG = 8"
definition ACK_FLAG :: uint8 where "ACK_FLAG = 16"

definition upd_stream :: "addr \<Rightarrow> ('r stream \<Rightarrow> 'r stream) \<Rightarrow> ('r, 'q) net \<Rightarrow> ('r, 'q) net" where
  "upd_stream a f N = N\<lparr>streams := (streams N)(a := f (streams N a))\<rparr>"

definition upd_host :: "addr \<Rightarrow> ('q localhost \<Rightarrow> 'q localhost) \<Rightarrow> ('r, 'q) net \<Rightarrow> ('r, 'q) net" where
  "upd_host a f N = N\<lparr>hosts := (hosts N)(a := f (hosts N a))\<rparr>"

section \<open>Look-ups\<close>

datatype hostinfo = Host addr | Stream addr

definition get_accept_tcb :: "('r, 'q) net \<Rightarrow> uint16 \<Rightarrow> addr option" where
  "get_accept_tcb N dport = find (\<lambda>a. dport = st_dport (streams N a) \<and> st_fd (streams N a) = -1) (tcb_set N)"

definition get_hostinfo_fromfd :: "('r, 'q) net \<Rightarrow> int \<Rightarrow> hostinfo option" where
  "get_hostinfo_fromfd N sockfd =
     (case find (\<lambda>a. sockfd = lh_fd (hosts N a)) (lhost N) of
        Some a \<Rightarrow> Some (Host a)
      | None \<Rightarrow> map_option Stream (find (\<lambda>a. sockfd = st_fd (streams N a)) (tcb_set N)))"

definition get_hostinfo_fromip_port :: "('r, 'q) net \<Rightarrow> uint32 \<Rightarrow> uint16 \<Rightarrow> uint8 \<Rightarrow> addr option" where
  "get_hostinfo_fromip_port N dip port proto =
     find (\<lambda>a. dip = lh_localip (hosts N a) \<and> port = lh_localport (hosts N a) \<and> proto = lh_protocol (hosts N a)) (lhost N)"

definition ng_tcp_stream_search :: "('r, 'q) net \<Rightarrow> uint32 \<Rightarrow> uint32 \<Rightarrow> uint16 \<Rightarrow> uint16 \<Rightarrow> addr option" where
  "ng_tcp_stream_search N sip dip sport dport =
     (case find (\<lambda>a. st_sip (streams N a) = sip \<and> st_dip (streams N a) = dip
                     \<and> st_sport (streams N a) = sport \<and> st_dport (streams N a) = dport) (tcb_set N) of
        Some a \<Rightarrow> Some a
      | None \<Rightarrow> find (\<lambda>a. st_dport (streams N a) = dport \<and> st_status (streams N a) = LISTEN) (tcb_set N))"

section \<open>Opening, binding, listening, accepting\<close>

datatype sock_type = SOCK_STREAM | SOCK_DGRAM | SOCK_OTHER

text \<open>\<open>mem\<close> is the address \<open>rte_malloc\<close> returns, the four rings what \<open>rte_ring_create\<close> returns.\<close>

definition nsocket ::
    "addr option \<Rightarrow> 'r option \<Rightarrow> 'r option \<Rightarrow> 'q option \<Rightarrow> 'q option \<Rightarrow> sock_type \<Rightarrow> ('r, 'q) net \<Rightarrow> int \<times> ('r, 'q) net" where
  "nsocket mem trcv tsnd urcv usnd type N =
     (let fd = fst (get_fd_frombitmap (fd_table N));
          N = N\<lparr>fd_table := snd (get_fd_frombitmap (fd_table N))\<rparr>
      in case type of
           SOCK_DGRAM \<Rightarrow>
             (case (mem, urcv, usnd) of
                (Some a, Some rb, Some sb) \<Rightarrow>
                  (fd, N\<lparr>hosts := (hosts N)(a := \<lparr>lh_fd = fd, lh_localip = 0, lh_localmac = replicate 6 0, lh_localport = 0,
                            lh_protocol = IPPROTO_UDP, lh_sndbuf = sb, lh_rcvbuf = rb\<rparr>),
                         lhost := a # lhost N\<rparr>)
              | _ \<Rightarrow> (-1, N))
         | SOCK_STREAM \<Rightarrow>
             (case (mem, trcv, tsnd) of
                (Some a, Some rb, Some sb) \<Rightarrow>
                  (fd, N\<lparr>streams := (streams N)(a := \<lparr>st_fd = fd, st_dip = 0, st_localmac = replicate 6 0, st_dport = 0,
                            st_protocol = IPPROTO_TCP, st_sport = 0, st_sip = 0, st_snd_nxt = 0, st_rcv_nxt = 0,
                            st_status = CLOSED, st_sndbuf = Some sb, st_rcvbuf = Some rb\<rparr>),
                         tcb_set := a # tcb_set N\<rparr>)
              | _ \<Rightarrow> (-1, N))
         | SOCK_OTHER \<Rightarrow> (fd, N))"

definition nbind :: "mac \<Rightarrow> int \<Rightarrow> uint16 \<Rightarrow> uint32 \<Rightarrow> ('r, 'q) net \<Rightarrow> int \<times> ('r, 'q) net" where
  "nbind gSrcMac sockfd sin_port s_addr N =
     (case get_hostinfo_fromfd N sockfd of
        None \<Rightarrow> (-1, N)
      | Some (Host a) \<Rightarrow>
          (0, if lh_protocol (hosts N a) = IPPROTO_UDP
              then upd_host a (\<lambda>h. h\<lparr>lh_localport := sin_port, lh_localip := s_addr, lh_localmac := gSrcMac\<rparr>) N else N)
      | Some (Stream a) \<Rightarrow>
          (0, if st_protocol (streams N a) = IPPROTO_TCP
              then upd_stream a (\<lambda>s. s\<lparr>st_dport := sin_port, st_dip := s_addr, st_localmac := gSrcMac, st_status := CLOSED\<rparr>) N
              else N))"

text \<open>\<open>struct localhost\<close> and \<open>struct ng_tcp_stream\<close> begin with the same fields up to \<open>protocol\<close>.\<close>

definition nlisten :: "int \<Rightarrow> ('r, 'q) net \<Rightarrow> int \<times> ('r, 'q) net" where
  "nlisten sockfd N =
     (case get_hostinfo_fromfd N sockfd of
        None \<Rightarrow> (-1, N)
      | Some (Host a) \<Rightarrow> (0, N)
      | Some (Stream a) \<Rightarrow>
          (0, if st_protocol (streams N a) = IPPROTO_TCP then upd_stream a (\<lambda>s. s\<lparr>st_status := LISTEN\<rparr>) N else N))"

text \<open>Returns the descriptor, the peer's port and address and the new state.\<close>

definition naccept :: "int \<Rightarrow> ('r, 'q) net \<Rightarrow> (int \<times> uint16 \<times> uint32 \<times> ('r, 'q) net) option" where
  "naccept sockfd N =
     (case get_hostinfo_fromfd N sockfd of
        None \<Rightarrow> Some (-1, 0, 0, N)
      | Some (Host a) \<Rightarrow> Some (-1, 0, 0, N)
      | Some (Stream a) \<Rightarrow>
          if st_protocol (streams N a) = IPPROTO_TCP
          then (case get_accept_tcb N (st_dport (streams N a)) of
                  None \<Rightarrow> None
                | Some apt \<Rightarrow>
                    (let fd = fst (get_fd_frombitmap (fd_table N));
                         N = N\<lparr>fd_table := snd (get_fd_frombitmap (fd_table N))\<rparr>;
                         N = upd_stream apt (\<lambda>s. s\<lparr>st_fd := fd\<rparr>) N
                     in Some (fd, st_sport (streams N apt), st_sip (streams N apt), N)))
          else Some (-1, 0, 0, N))"

section \<open>Sending and receiving\<close>

text \<open>Queueing on a null ring is undefined.\<close>

definition enq_snd :: "('r, fragment) ring_ops \<Rightarrow> fragment \<Rightarrow> 'r stream \<Rightarrow> 'r stream option" where
  "enq_snd R fr s = map_option (\<lambda>r. s\<lparr>st_sndbuf := Some (ring_enqueue R fr r)\<rparr>) (st_sndbuf s)"

definition enq_rcv :: "('r, fragment) ring_ops \<Rightarrow> fragment \<Rightarrow> 'r stream \<Rightarrow> 'r stream option" where
  "enq_rcv R fr s = map_option (\<lambda>r. s\<lparr>st_rcvbuf := Some (ring_enqueue R fr r)\<rparr>) (st_rcvbuf s)"

definition try_stream :: "addr \<Rightarrow> ('r stream \<Rightarrow> 'r stream option) \<Rightarrow> ('r, 'q) net \<Rightarrow> ('r, 'q) net option" where
  "try_stream a f N = map_option (\<lambda>s. upd_stream a (\<lambda>_. s) N) (f (streams N a))"

text \<open>A fragment cleared by \<open>memset\<close>.\<close>

definition blank_fragment :: fragment where
  "blank_fragment = \<lparr>fr_sport = 0, fr_dport = 0, fr_seqnum = 0, fr_acknum = 0, fr_hdrlen_off = 0, fr_tcp_flags = 0,
     fr_windows = 0, fr_tcp_urp = 0, fr_optlen = 0, fr_data = None, fr_length = 0\<rparr>"

definition data_fragment :: "'r stream \<Rightarrow> bytes \<Rightarrow> fragment" where
  "data_fragment s buf =
     blank_fragment\<lparr>fr_dport := st_sport s, fr_sport := st_dport s, fr_acknum := st_rcv_nxt s, fr_seqnum := st_snd_nxt s,
       fr_tcp_flags := ACK_FLAG OR PSH_FLAG, fr_windows := TCP_INITIAL_WINDOW, fr_hdrlen_off := 0x50,
       fr_data := Some (buf @ [0]), fr_length := of_nat (length buf)\<rparr>"

text \<open>\<open>buf\<close> holds the \<open>len\<close> bytes to send.\<close>

definition nsend :: "('r, fragment) ring_ops \<Rightarrow> bool \<Rightarrow> bool \<Rightarrow> int \<Rightarrow> bytes \<Rightarrow> ('r, 'q) net \<Rightarrow> (int \<times> ('r, 'q) net) option" where
  "nsend R m1 m2 sockfd buf N =
     (case get_hostinfo_fromfd N sockfd of
        None \<Rightarrow> Some (-1, N)
      | Some (Host a) \<Rightarrow> Some (0, N)
      | Some (Stream a) \<Rightarrow>
          if st_protocol (streams N a) = IPPROTO_TCP
          then (if \<not> m1 then Some (-2, N) else if \<not> m2 then Some (-1, N)
                else (let fr = data_fragment (streams N a) buf
                      in map_option (Pair (int (unat (fr_length fr)))) (try_stream a (enq_snd R fr) N)))
          else Some (0, N))"

text \<open>
  Returns the result, the bytes written to the caller's buffer of \<open>len\<close> bytes and the new state;
  \<^const>\<open>None\<close> while the receive ring is empty.
\<close>

definition nrecv :: "('r, fragment) ring_ops \<Rightarrow> int \<Rightarrow> nat \<Rightarrow> ('r, 'q) net \<Rightarrow> (int \<times> bytes \<times> ('r, 'q) net) option" where
  "nrecv R sockfd len N =
     (case get_hostinfo_fromfd N sockfd of
        None \<Rightarrow> Some (-1, [], N)
      | Some (Host a) \<Rightarrow> Some (0, [], N)
      | Some (Stream a) \<Rightarrow>
          if st_protocol (streams N a) = IPPROTO_TCP
          then do { r \<leftarrow> st_rcvbuf (streams N a);
                    (fr, r) \<leftarrow> ring_dequeue R r;
                    let N = upd_stream a (\<lambda>s. s\<lparr>st_rcvbuf := Some r\<rparr>) N;
                    let data = (case fr_data fr of None \<Rightarrow> [] | Some d \<Rightarrow> d);
                    if unat (fr_length fr) > len
                    then (let rest = fr\<lparr>fr_data := Some (drop len data), fr_length := fr_length fr - of_nat len\<rparr>
                          in map_option (\<lambda>N. (int (unat (fr_length rest)), take len data, N)) (try_stream a (enq_rcv R rest) N))
                    else if fr_length fr = 0 then Some (0, [], N)
                    else Some (int (unat (fr_length fr)), take (unat (fr_length fr)) data, N) }
          else Some (0, [], N))"

text \<open>
  \<open>beyond\<close> is the memory behind the data of the datagram; a stream descriptor is misread as a host.
  Returns the result, the bytes written, the sender's port and address and the state.
\<close>

definition nrecvfrom ::
    "('q, offload) ring_ops \<Rightarrow> bytes \<Rightarrow> int \<Rightarrow> nat \<Rightarrow> ('r, 'q) net \<Rightarrow> (int \<times> bytes \<times> uint16 \<times> uint32 \<times> ('r, 'q) net) option" where
  "nrecvfrom R beyond sockfd len N =
     (case get_hostinfo_fromfd N sockfd of
        None \<Rightarrow> Some (-1, [], 0, 0, N)
      | Some (Stream a) \<Rightarrow> None
      | Some (Host a) \<Rightarrow>
          do { (ol, r) \<leftarrow> ring_dequeue R (lh_rcvbuf (hosts N a));
               let memory = ol_data ol @ beyond;
               if len < unat (ol_length ol)
               then (let ol' = ol\<lparr>ol_data := take (unat (ol_length ol) - len) (drop len memory), ol_length := ol_length ol - of_nat len\<rparr>
                     in Some (int len, take len memory, ol_sport ol, ol_sip ol,
                          upd_host a (\<lambda>h. h\<lparr>lh_rcvbuf := ring_enqueue R ol' r\<rparr>) N))
               else Some (int (unat (ol_length ol)), take (unat (ol_length ol)) memory, ol_sport ol, ol_sip ol,
                      upd_host a (\<lambda>h. h\<lparr>lh_rcvbuf := r\<rparr>) N) })"

definition nsendto ::
    "('q, offload) ring_ops \<Rightarrow> bool \<Rightarrow> bool \<Rightarrow> int \<Rightarrow> bytes \<Rightarrow> uint32 \<Rightarrow> uint16 \<Rightarrow> int \<Rightarrow> ('r, 'q) net \<Rightarrow> (int \<times> ('r, 'q) net) option" where
  "nsendto R m1 m2 junk buf s_addr sin_port sockfd N =
     (case get_hostinfo_fromfd N sockfd of
        None \<Rightarrow> Some (-1, N)
      | Some (Stream a) \<Rightarrow> None
      | Some (Host a) \<Rightarrow>
          if \<not> m1 then Some (-1, N) else if \<not> m2 then Some (-1, N)
          else (let ol = \<lparr>ol_sip = lh_localip (hosts N a), ol_dip = s_addr, ol_sport = lh_localport (hosts N a), ol_dport = sin_port,
                          ol_protocol = junk, ol_data = buf, ol_length = of_nat (length buf)\<rparr>
                in Some (int (length buf), upd_host a (\<lambda>h. h\<lparr>lh_sndbuf := ring_enqueue R ol (lh_sndbuf h)\<rparr>) N)))"

text \<open>
  \<open>nclose\<close>; \<open>junk\<close> is what the fragment's memory holds (it is not cleared here).
\<close>

definition fin_fragment :: "fragment \<Rightarrow> 'r stream \<Rightarrow> fragment" where
  "fin_fragment junk s =
     junk\<lparr>fr_data := None, fr_length := 0, fr_sport := st_dport s, fr_dport := st_sport s, fr_seqnum := st_snd_nxt s,
       fr_acknum := st_rcv_nxt s, fr_tcp_flags := FIN_FLAG OR ACK_FLAG, fr_windows := TCP_INITIAL_WINDOW, fr_hdrlen_off := 0x50\<rparr>"

definition release_fd :: "int \<Rightarrow> ('r, 'q) net \<Rightarrow> ('r, 'q) net option" where
  "release_fd fd N = map_option (\<lambda>(r, t). N\<lparr>fd_table := t\<rparr>) (set_fd_frombitmap fd (fd_table N))"

definition nclose :: "('r, fragment) ring_ops \<Rightarrow> bool \<Rightarrow> fragment \<Rightarrow> int \<Rightarrow> ('r, 'q) net \<Rightarrow> (int \<times> ('r, 'q) net) option" where
  "nclose R malloc_ok junk fd N =
     (case get_hostinfo_fromfd N fd of
        None \<Rightarrow> Some (-1, N)
      | Some (Host a) \<Rightarrow>
          if lh_protocol (hosts N a) = IPPROTO_UDP
          then map_option (Pair 0) (release_fd fd (N\<lparr>lhost := remove1 a (lhost N)\<rparr>))
          else Some (0, N)
      | Some (Stream a) \<Rightarrow>
          if st_protocol (streams N a) = IPPROTO_TCP
          then (if st_status (streams N a) \<noteq> LISTEN
                then (if \<not> malloc_ok then Some (-1, N)
                      else do { N \<leftarrow> try_stream a (\<lambda>s. enq_snd R (fin_fragment junk s) s) N;
                                let N = upd_stream a (\<lambda>s. s\<lparr>st_status := LAST_ACK\<rparr>) N;
                                N \<leftarrow> release_fd fd N;
                                Some (0, N) })
                else Some (0, N\<lparr>tcb_set := remove1 a (tcb_set N)\<rparr>))
          else Some (0, N))"

end
