(* ===== verification/TcpStack.thy ===== *)
theory TcpStack
  imports NetSocket
begin

text \<open>
  Packet processing of the network stack (\<open>tcp.c\<close>): UDP and TCP input, the TCP state machine,
  output, the ARP sweep and the dispatch of a received frame.

  A frame \<open>m\<close> is the byte buffer of the received packet. The results of the \<open>rte_malloc\<close> calls a
  function makes are \<open>ok 0\<close>, \<open>ok 1\<close>, ... in the order of the calls. \<^const>\<open>None\<close> is a call
  of \<open>rte_exit\<close> or undefined behaviour (writing through a null pointer).
\<close>

section \<open>UDP\<close>

definition udp_process ::
    "('q, offload) ring_ops \<Rightarrow> (nat \<Rightarrow> bool) \<Rightarrow> bytes \<Rightarrow> ('r, 'q) net \<Rightarrow> int \<times> ('r, 'q) net" where
  "udp_process U ok m N =
     (case get_hostinfo_fromip_port N (ip_dst m) (l4_dst_port m) (ip_proto m) of
        None \<Rightarrow> (-3, N)
      | Some a \<Rightarrow>
          if \<not> ok 0 then (-1, N)
          else (let len = ntohs (udp_dgram_len m)
                in if \<not> ok 1 \<or> unat len < 8 then (-2, N)
                   else (let ol = \<lparr>ol_sip = ip_src m, ol_dip = ip_dst m, ol_sport = l4_src_port m, ol_dport = l4_dst_port m,
                                   ol_protocol = 17, ol_data = subbytes 42 (unat len - 8) m, ol_length = len\<rparr>;
                             N = upd_host a (\<lambda>h. h\<lparr>lh_rcvbuf := ring_enqueue U ol (lh_rcvbuf h)\<rparr>) N
                         in (0, N\<lparr>woken := woken N @ [a]\<rparr>))))"

text \<open>
  One pass of \<open>udp_out\<close> over the hosts; \<open>msg\<close> is the buffer \<open>rte_pktmbuf_alloc\<close> returns,
  \<open>beyond\<close> the memory behind a datagram's data.
\<close>

definition udp_out_host ::
    "(bytes \<Rightarrow> uint16) \<Rightarrow> (bytes \<Rightarrow> bytes \<Rightarrow> uint16) \<Rightarrow> mac \<Rightarrow> ('q, offload) ring_ops \<Rightarrow> bytes \<Rightarrow> bytes \<Rightarrow> addr
     \<Rightarrow> ('r, 'q) net \<Rightarrow> ('r, 'q) net" where
  "udp_out_host ipck l4ck gSrcMac U beyond msg a N =
     (case ring_dequeue U (lh_sndbuf (hosts N a)) of
        None \<Rightarrow> N
      | Some (ol, r) \<Rightarrow>
          (case ng_get_dst_macaddr (arpt N) (ol_dip ol) of
             None \<Rightarrow>
               (let arpbuf = ng_send_arp gSrcMac 1 gDefaultArpMac (ol_sip ol) (ol_dip ol) msg
                in upd_host a (\<lambda>h. h\<lparr>lh_sndbuf := ring_enqueue U ol r\<rparr>) (N\<lparr>sent := sent N @ [arpbuf]\<rparr>))
           | Some dstmac \<Rightarrow>
               (let udpbuf = ng_udp_pkt ipck l4ck (ol_sip ol) (ol_dip ol) (ol_sport ol) (ol_dport ol)
                               (lh_localmac (hosts N a)) dstmac (ol_data ol @ beyond) (ol_length ol) msg
                in upd_host a (\<lambda>h. h\<lparr>lh_sndbuf := r\<rparr>) (N\<lparr>sent := sent N @ [udpbuf]\<rparr>))))"

definition udp_out ::
    "(bytes \<Rightarrow> uint16) \<Rightarrow> (bytes \<Rightarrow> bytes \<Rightarrow> uint16) \<Rightarrow> mac \<Rightarrow> ('q, offload) ring_ops \<Rightarrow> bytes \<Rightarrow> bytes
     \<Rightarrow> ('r, 'q) net \<Rightarrow> ('r, 'q) net" where
  "udp_out ipck l4ck gSrcMac U beyond msg N = fold (udp_out_host ipck l4ck gSrcMac U beyond msg) (lhost N) N"

section \<open>TCP input\<close>

text \<open>
  \<open>junk\<close> is what the new stream's memory holds, \<open>isn\<close> the initial sequence number
  (\<open>rand_r\<close> of the time), \<open>rb\<close> and \<open>sb\<close> the rings created.
\<close>

definition ng_tcp_stream_create ::
    "'r stream \<Rightarrow> uint32 \<Rightarrow> mac \<Rightarrow> 'r option \<Rightarrow> 'r option \<Rightarrow> uint32 \<Rightarrow> uint32 \<Rightarrow> uint16 \<Rightarrow> uint16 \<Rightarrow> 'r stream" where
  "ng_tcp_stream_create junk isn gSrcMac sb rb sip dip sport dport =
     junk\<lparr>st_sip := sip, st_dip := dip, st_sport := sport, st_dport := dport, st_protocol := IPPROTO_TCP, st_fd := -1,
       st_status := LISTEN, st_sndbuf := sb, st_rcvbuf := rb, st_snd_nxt := isn, st_localmac := gSrcMac\<rparr>"

definition synack_fragment :: "'r stream \<Rightarrow> bytes \<Rightarrow> fragment" where
  "synack_fragment syn m =
     blank_fragment\<lparr>fr_sport := l4_dst_port m, fr_dport := l4_src_port m, fr_seqnum := st_snd_nxt syn,
       fr_acknum := ntohl (tcp_sent_seq m) + 1, fr_tcp_flags := SYN_FLAG OR ACK_FLAG,
       fr_windows := TCP_INITIAL_WINDOW, fr_hdrlen_off := 0x50\<rparr>"

text \<open>
  The fresh stream is put in the table before the fragment is allocated; \<open>mem\<close> is the address of
  the stream, \<^const>\<open>None\<close> when \<open>rte_malloc\<close> fails (\<open>LL_ADD\<close> then writes through null).
\<close>

definition ng_tcp_handle_listen ::
    "('r, fragment) ring_ops \<Rightarrow> (nat \<Rightarrow> bool) \<Rightarrow> addr option \<Rightarrow> 'r stream \<Rightarrow> uint32 \<Rightarrow> mac \<Rightarrow> 'r option \<Rightarrow> 'r option
     \<Rightarrow> addr \<Rightarrow> bytes \<Rightarrow> ('r, 'q) net \<Rightarrow> ('r, 'q) net option" where
  "ng_tcp_handle_listen R ok mem junk isn gSrcMac sb rb a m N =
     (if tcp_flags m AND SYN_FLAG \<noteq> 0 \<and> st_status (streams N a) = LISTEN
      then do { b \<leftarrow> mem;
                let syn = ng_tcp_stream_create junk isn gSrcMac sb rb (ip_src m) (ip_dst m) (l4_src_port m) (l4_dst_port m);
                let N = N\<lparr>streams := (streams N)(b := syn), tcb_set := b # tcb_set N\<rparr>;
                if \<not> ok 0 then Some N
                else do { let N = upd_stream b (\<lambda>s. s\<lparr>st_rcv_nxt := ntohl (tcp_sent_seq m) + 1\<rparr>) N;
                          N \<leftarrow> try_stream b (enq_snd R (synack_fragment syn m)) N;
                          Some (upd_stream b (\<lambda>s. s\<lparr>st_status := SYN_RCVD\<rparr>) N) } }
      else Some N)"

definition ng_tcp_handle_syn_rcvd :: "addr \<Rightarrow> bytes \<Rightarrow> ('r, 'q) net \<Rightarrow> ('r, 'q) net option" where
  "ng_tcp_handle_syn_rcvd a m N =
     (if tcp_flags m AND ACK_FLAG \<noteq> 0 \<and> st_status (streams N a) = SYN_RCVD
      then (let N = upd_stream a (\<lambda>s. s\<lparr>st_status := ESTABLISHED\<rparr>) N
            in do { listener \<leftarrow> ng_tcp_stream_search N 0 0 0 (st_dport (streams N a));
                    Some (N\<lparr>woken := woken N @ [listener]\<rparr>) })
      else Some N)"

definition header_len :: "bytes \<Rightarrow> int" where
  "header_len m = int (unat (drop_bit 4 (tcp_data_off m)))"

definition recv_fragment :: "bytes \<Rightarrow> int \<Rightarrow> fragment" where
  "recv_fragment m payloadlen =
     (let fr = blank_fragment\<lparr>fr_dport := ntohs (l4_dst_port m), fr_sport := ntohs (l4_src_port m)\<rparr>
      in if payloadlen > 0
         then fr\<lparr>fr_data := Some (subbytes (34 + nat (header_len m) * 4) (nat payloadlen) m @ [0]), fr_length := word_of_int payloadlen\<rparr>
         else fr)"

definition ng_tcp_enqueue_recvbuffer ::
    "('r, fragment) ring_ops \<Rightarrow> bool \<Rightarrow> bool \<Rightarrow> addr \<Rightarrow> bytes \<Rightarrow> int \<Rightarrow> ('r, 'q) net \<Rightarrow> ('r, 'q) net option" where
  "ng_tcp_enqueue_recvbuffer R m1 m2 a m tcplen N =
     (let payloadlen = tcplen - header_len m * 4
      in if \<not> m1 then Some N
         else if payloadlen > 0 \<and> \<not> m2 then Some N
         else do { N \<leftarrow> try_stream a (enq_rcv R (recv_fragment m payloadlen)) N;
                   Some (N\<lparr>woken := woken N @ [a]\<rparr>) })"

definition ack_fragment :: "'r stream \<Rightarrow> bytes \<Rightarrow> fragment" where
  "ack_fragment s m =
     blank_fragment\<lparr>fr_dport := l4_src_port m, fr_sport := l4_dst_port m, fr_acknum := st_rcv_nxt s, fr_seqnum := st_snd_nxt s,
       fr_tcp_flags := ACK_FLAG, fr_windows := TCP_INITIAL_WINDOW, fr_hdrlen_off := 0x50\<rparr>"

definition ng_tcp_send_ackpkt ::
    "('r, fragment) ring_ops \<Rightarrow> bool \<Rightarrow> addr \<Rightarrow> bytes \<Rightarrow> ('r, 'q) net \<Rightarrow> ('r, 'q) net option" where
  "ng_tcp_send_ackpkt R m1 a m N =
     (if \<not> m1 then Some N else try_stream a (\<lambda>s. enq_snd R (ack_fragment s m) s) N)"

text \<open>The two parts of \<open>ng_tcp_handle_established\<close> that do something: on PSH and on FIN.\<close>

definition established_psh ::
    "('r, fragment) ring_ops \<Rightarrow> (nat \<Rightarrow> bool) \<Rightarrow> addr \<Rightarrow> bytes \<Rightarrow> int \<Rightarrow> ('r, 'q) net \<Rightarrow> ('r, 'q) net option" where
  "established_psh R ok a m tcplen N =
     do { N \<leftarrow> ng_tcp_enqueue_recvbuffer R (ok 0) (ok 1) a m tcplen N;
          let payloadlen = tcplen - header_len m * 4;
          let N = upd_stream a (\<lambda>s. s\<lparr>st_rcv_nxt := st_rcv_nxt s + word_of_int payloadlen,
                                    st_snd_nxt := ntohl (tcp_recv_ack m)\<rparr>) N;
          ng_tcp_send_ackpkt R (ok 2) a m N }"

definition established_fin ::
    "('r, fragment) ring_ops \<Rightarrow> (nat \<Rightarrow> bool) \<Rightarrow> addr \<Rightarrow> bytes \<Rightarrow> ('r, 'q) net \<Rightarrow> ('r, 'q) net option" where
  "established_fin R ok a m N =
     do { let N = upd_stream a (\<lambda>s. s\<lparr>st_status := CLOSE_WAIT\<rparr>) N;
          N \<leftarrow> ng_tcp_enqueue_recvbuffer R (ok 3) (ok 4) a m (header_len m) N;
          let N = upd_stream a (\<lambda>s. s\<lparr>st_rcv_nxt := st_rcv_nxt s + 1, st_snd_nxt := ntohl (tcp_recv_ack m)\<rparr>) N;
          ng_tcp_send_ackpkt R (ok 5) a m N }"

definition ng_tcp_handle_established ::
    "('r, fragment) ring_ops \<Rightarrow> (nat \<Rightarrow> bool) \<Rightarrow> addr \<Rightarrow> bytes \<Rightarrow> int \<Rightarrow> ('r, 'q) net \<Rightarrow> ('r, 'q) net option" where
  "ng_tcp_handle_established R ok a m tcplen N =
     do { N \<leftarrow> (if tcp_flags m AND PSH_FLAG \<noteq> 0 then established_psh R ok a m tcplen N else Some N);
          if tcp_flags m AND FIN_FLAG \<noteq> 0 then established_fin R ok a m N else Some N }"

definition ng_tcp_handle_close_wait :: "addr \<Rightarrow> bytes \<Rightarrow> ('r, 'q) net \<Rightarrow> ('r, 'q) net" where
  "ng_tcp_handle_close_wait a m N = N"

definition ng_tcp_handle_last_ack :: "addr \<Rightarrow> bytes \<Rightarrow> ('r, 'q) net \<Rightarrow> ('r, 'q) net" where
  "ng_tcp_handle_last_ack a m N =
     (if tcp_flags m AND ACK_FLAG \<noteq> 0 \<and> st_status (streams N a) = LAST_ACK
      then (upd_stream a (\<lambda>s. s\<lparr>st_status := CLOSED\<rparr>) N)\<lparr>tcb_set := remove1 a (tcb_set N)\<rparr>
      else N)"

definition ng_tcp_process ::
    "(bytes \<Rightarrow> bytes \<Rightarrow> uint16) \<Rightarrow> ('r, fragment) ring_ops \<Rightarrow> (nat \<Rightarrow> bool) \<Rightarrow> addr option \<Rightarrow> 'r stream \<Rightarrow> uint32 \<Rightarrow> mac
     \<Rightarrow> 'r option \<Rightarrow> 'r option \<Rightarrow> bytes \<Rightarrow> ('r, 'q) net \<Rightarrow> (int \<times> ('r, 'q) net) option" where
  "ng_tcp_process l4ck R ok mem junk isn gSrcMac sb rb m N =
     (if \<not> tcp_cksum_ok l4ck m then Some (-1, N)
      else case ng_tcp_stream_search N (ip_src m) (ip_dst m) (l4_src_port m) (l4_dst_port m) of
        None \<Rightarrow> Some (-2, N)
      | Some a \<Rightarrow>
          map_option (Pair 0)
            (case st_status (streams N a) of
               LISTEN \<Rightarrow> ng_tcp_handle_listen R ok mem junk isn gSrcMac sb rb a m N
             | SYN_RCVD \<Rightarrow> ng_tcp_handle_syn_rcvd a m N
             | ESTABLISHED \<Rightarrow>
                 (let tcplen = int (unat (ntohs (ip_total_length m))) - 20
                  in ng_tcp_handle_established R ok a m tcplen N)
             | CLOSE_WAIT \<Rightarrow> Some (ng_tcp_handle_close_wait a m N)
             | LAST_ACK \<Rightarrow> Some (ng_tcp_handle_last_ack a m N)
             | _ \<Rightarrow> Some N))"

section \<open>TCP output\<close>

definition tcp_out_stream ::
    "(bytes \<Rightarrow> uint16) \<Rightarrow> (bytes \<Rightarrow> bytes \<Rightarrow> uint16) \<Rightarrow> mac \<Rightarrow> ('r, fragment) ring_ops \<Rightarrow> bytes \<Rightarrow> addr \<Rightarrow> ('r, 'q) net \<Rightarrow> ('r, 'q) net" where
  "tcp_out_stream ipck l4ck gSrcMac R msg a N =
     (case Option.bind (st_sndbuf (streams N a)) (ring_dequeue R) of
        None \<Rightarrow> N
      | Some (fr, r) \<Rightarrow>
          (case ng_get_dst_macaddr (arpt N) (st_sip (streams N a)) of
             None \<Rightarrow>
               (let arpbuf = ng_send_arp gSrcMac 1 gDefaultArpMac (st_dip (streams N a)) (st_sip (streams N a)) msg
                in upd_stream a (\<lambda>s. s\<lparr>st_sndbuf := Some (ring_enqueue R fr r)\<rparr>) (N\<lparr>sent := sent N @ [arpbuf]\<rparr>))
           | Some dstmac \<Rightarrow>
               (let tcpbuf = ng_tcp_pkt ipck l4ck (st_dip (streams N a)) (st_sip (streams N a)) (st_localmac (streams N a)) dstmac fr msg
                in upd_stream a (\<lambda>s. s\<lparr>st_sndbuf := Some r\<rparr>) (N\<lparr>sent := sent N @ [tcpbuf]\<rparr>))))"

definition ng_tcp_out ::
    "(bytes \<Rightarrow> uint16) \<Rightarrow> (bytes \<Rightarrow> bytes \<Rightarrow> uint16) \<Rightarrow> mac \<Rightarrow> ('r, fragment) ring_ops \<Rightarrow> bytes \<Rightarrow> ('r, 'q) net \<Rightarrow> ('r, 'q) net" where
  "ng_tcp_out ipck l4ck gSrcMac R msg N = fold (tcp_out_stream ipck l4ck gSrcMac R msg) (tcb_set N) N"

section \<open>ARP sweep and dispatch\<close>

definition sweep_addr :: "uint32 \<Rightarrow> nat \<Rightarrow> uint32" where
  "sweep_addr gLocalIp i = (gLocalIp AND 0x00FFFFFF) OR (0xFF000000 AND push_bit 24 (of_nat i))"

definition arp_request_timer_cb :: "mac \<Rightarrow> uint32 \<Rightarrow> bytes \<Rightarrow> ('r, 'q) net \<Rightarrow> ('r, 'q) net" where
  "arp_request_timer_cb gSrcMac gLocalIp msg N =
     N\<lparr>sent := sent N @ map (\<lambda>i.
         let dstip = sweep_addr gLocalIp i
         in case ng_get_dst_macaddr (arpt N) dstip of
              None \<Rightarrow> ng_send_arp gSrcMac 1 gDefaultArpMac gLocalIp dstip msg
            | Some dstmac \<Rightarrow> ng_send_arp gSrcMac 1 dstmac gLocalIp dstip msg) [1..<255]\<rparr>"

text \<open>What \<open>pkt_process\<close> does with one frame; other frames go to the kernel interface.\<close>

definition pkt_process_frame ::
    "(bytes \<Rightarrow> bytes \<Rightarrow> uint16) \<Rightarrow> ('r, fragment) ring_ops \<Rightarrow> ('q, offload) ring_ops \<Rightarrow> bool \<Rightarrow> (nat \<Rightarrow> bool) \<Rightarrow> addr option
     \<Rightarrow> 'r stream \<Rightarrow> uint32 \<Rightarrow> mac \<Rightarrow> 'r option \<Rightarrow> 'r option \<Rightarrow> bytes \<Rightarrow> ('r, 'q) net \<Rightarrow> ('r, 'q) net option" where
  "pkt_process_frame l4ck R U arp_ok' ok mem junk isn gSrcMac sb rb m N =
     (if ether_type m = htons 0x0800
      then (let N = N\<lparr>arpt := snd (ng_arp_entry_insert arp_ok' (ip_src m) (eth_src m) (arpt N))\<rparr>
            in if ip_proto m = IPPROTO_UDP then Some (snd (udp_process U ok m N))
               else if ip_proto m = IPPROTO_TCP
               then map_option snd (ng_tcp_process l4ck R ok mem junk isn gSrcMac sb rb m N)
               else Some N)
      else Some N)"

end
