(* ===== verification/TcpBehaviour.thy ===== *)
theory TcpBehaviour
  imports TcpStack
begin

text \<open>
  What the network stack of \<open>tcp.c\<close> does: the transitions of the TCP state machine, the
  three-way handshake, delivery of data from one stack to another, and an invariant of every state
  that sockets, packets and output passes can reach.
\<close>

section \<open>Rings by their contract\<close>

text \<open>What the documentation of \<open>rte_ring\<close> promises of the ring operations.\<close>

definition ring_spec :: "('r, 'a) ring_ops \<Rightarrow> ('r \<Rightarrow> bool) \<Rightarrow> ('r \<Rightarrow> 'a list) \<Rightarrow> ('r \<Rightarrow> nat) \<Rightarrow> bool" where
  "ring_spec R rinv relems rcap \<longleftrightarrow> bounded_fifo rinv relems rcap (rg_full R) (rg_none R) (rg_push R) (rg_pop R)"

lemma ring_enqueue_ok:
  assumes "ring_spec R rinv relems rcap" "rinv r"
  shows "rinv (ring_enqueue R x r)" "rcap (ring_enqueue R x r) = rcap r"
    "length (relems r) < rcap r \<Longrightarrow> relems (ring_enqueue R x r) = relems r @ [x]"
  using assms bounded_fifo.push_ok [of rinv relems rcap "rg_full R" "rg_none R" "rg_push R" "rg_pop R" r x]
    bounded_fifo.full_iff [of rinv relems rcap "rg_full R" "rg_none R" "rg_push R" "rg_pop R" r]
  by (auto simp: ring_spec_def ring_enqueue_def)

lemma ring_dequeue_Some:
  assumes "ring_spec R rinv relems rcap" "rinv r" "ring_dequeue R r = Some (x, r')"
  shows "rinv r' \<and> relems r = x # relems r' \<and> rcap r' = rcap r"
  using assms bounded_fifo.pop_ok [of rinv relems rcap "rg_full R" "rg_none R" "rg_push R" "rg_pop R" r x r']
  by (auto simp: ring_spec_def ring_dequeue_def split: if_splits)

lemma ring_dequeue_Cons:
  assumes "ring_spec R rinv relems rcap" "rinv r" "relems r = x # xs"
  shows "\<exists>r'. ring_dequeue R r = Some (x, r') \<and> rinv r' \<and> relems r' = xs \<and> rcap r' = rcap r"
proof -
  have "\<not> rg_none R r"
    using assms bounded_fifo.none_iff [of rinv relems rcap "rg_full R" "rg_none R" "rg_push R" "rg_pop R" r]
    by (simp add: ring_spec_def)
  then obtain y r' where "ring_dequeue R r = Some (y, r')"
    by (cases "rg_pop R r") (simp add: ring_dequeue_def)
  then show ?thesis using ring_dequeue_Some [OF assms(1,2)] assms(3) by fastforce
qed

section \<open>Frames of the operations\<close>

lemma upd_stream_simps [simp]:
  "streams (upd_stream a f N) = (streams N)(a := f (streams N a))"
  "tcb_set (upd_stream a f N) = tcb_set N" "hosts (upd_stream a f N) = hosts N" "lhost (upd_stream a f N) = lhost N"
  "fd_table (upd_stream a f N) = fd_table N" "arpt (upd_stream a f N) = arpt N"
  "sent (upd_stream a f N) = sent N" "woken (upd_stream a f N) = woken N"
  by (simp_all add: upd_stream_def)

lemma upd_host_simps [simp]:
  "hosts (upd_host a f N) = (hosts N)(a := f (hosts N a))"
  "tcb_set (upd_host a f N) = tcb_set N" "streams (upd_host a f N) = streams N" "lhost (upd_host a f N) = lhost N"
  "fd_table (upd_host a f N) = fd_table N" "arpt (upd_host a f N) = arpt N"
  "sent (upd_host a f N) = sent N" "woken (upd_host a f N) = woken N"
  by (simp_all add: upd_host_def)

text \<open>\<open>only_stream a N N'\<close>: of the socket state at most the stream \<open>a\<close> differs.\<close>

definition only_stream :: "addr \<Rightarrow> ('r, 'q) net \<Rightarrow> ('r, 'q) net \<Rightarrow> bool" where
  "only_stream a N N' \<longleftrightarrow> (\<forall>c. c \<noteq> a \<longrightarrow> streams N' c = streams N c) \<and> tcb_set N' = tcb_set N
     \<and> hosts N' = hosts N \<and> lhost N' = lhost N \<and> fd_table N' = fd_table N \<and> arpt N' = arpt N \<and> sent N' = sent N"

lemma only_stream_refl [simp]: "only_stream a N N"
  by (simp add: only_stream_def)

lemma only_stream_trans: "only_stream a N N' \<Longrightarrow> only_stream a N' N'' \<Longrightarrow> only_stream a N N''"
  by (simp add: only_stream_def)

lemma only_stream_upd [simp]: "only_stream a N (upd_stream a f N)"
  by (simp add: only_stream_def)

lemma only_stream_woken [simp]: "only_stream a N (N'\<lparr>woken := w\<rparr>) \<longleftrightarrow> only_stream a N N'"
  by (simp add: only_stream_def)

lemma try_stream_only: "try_stream a f N = Some N' \<Longrightarrow> only_stream a N N'"
  by (auto simp: try_stream_def)

text \<open>What queueing keeps of a stream; with no null ring it always succeeds.\<close>

lemma try_enq_status:
  "try_stream a (enq_snd R fr) N = Some N' \<Longrightarrow> st_status (streams N' a) = st_status (streams N a)"
  "try_stream a (\<lambda>s. enq_snd R (g s) s) N = Some N' \<Longrightarrow> st_status (streams N' a) = st_status (streams N a)"
  "try_stream a (enq_rcv R fr) N = Some N' \<Longrightarrow> st_status (streams N' a) = st_status (streams N a)"
  by (auto simp: try_stream_def enq_snd_def enq_rcv_def)

lemma enqueue_recvbuffer_only:
  "ng_tcp_enqueue_recvbuffer R m1 m2 a m l N = Some N' \<Longrightarrow>
     only_stream a N N' \<and> st_status (streams N' a) = st_status (streams N a)"
  by (auto simp: ng_tcp_enqueue_recvbuffer_def Let_def split: if_splits bind_splits dest: try_stream_only try_enq_status)

lemma send_ackpkt_only:
  "ng_tcp_send_ackpkt R m1 a m N = Some N' \<Longrightarrow> only_stream a N N' \<and> st_status (streams N' a) = st_status (streams N a)"
  by (auto simp: ng_tcp_send_ackpkt_def split: if_splits dest: try_stream_only try_enq_status)

lemma established_psh_only:
  assumes "established_psh R ok a m l N = Some N'"
  shows "only_stream a N N' \<and> st_status (streams N' a) = st_status (streams N a)"
proof -
  obtain N1 where "ng_tcp_enqueue_recvbuffer R (ok 0) (ok 1) a m l N = Some N1"
    and "ng_tcp_send_ackpkt R (ok 2) a m (upd_stream a (\<lambda>s. s\<lparr>st_rcv_nxt := st_rcv_nxt s + word_of_int (l - header_len m * 4),
                                    st_snd_nxt := ntohl (tcp_recv_ack m)\<rparr>) N1) = Some N'"
    using assms by (auto simp: established_psh_def Let_def split: bind_splits)
  from enqueue_recvbuffer_only [OF this(1)] send_ackpkt_only [OF this(2)] show ?thesis
    by (auto intro: only_stream_trans [OF _ only_stream_trans [OF only_stream_upd]])
qed

lemma established_fin_only:
  assumes "established_fin R ok a m N = Some N'"
  shows "only_stream a N N' \<and> st_status (streams N' a) = CLOSE_WAIT"
proof -
  let ?c = "upd_stream a (\<lambda>s. s\<lparr>st_status := CLOSE_WAIT\<rparr>) N"
  obtain N1 where "ng_tcp_enqueue_recvbuffer R (ok 3) (ok 4) a m (header_len m) ?c = Some N1"
    and "ng_tcp_send_ackpkt R (ok 5) a m (upd_stream a (\<lambda>s. s\<lparr>st_rcv_nxt := st_rcv_nxt s + 1,
                                    st_snd_nxt := ntohl (tcp_recv_ack m)\<rparr>) N1) = Some N'"
    using assms by (auto simp: established_fin_def Let_def split: bind_splits)
  from enqueue_recvbuffer_only [OF this(1)] send_ackpkt_only [OF this(2)] show ?thesis
    by (auto intro: only_stream_trans [OF only_stream_upd only_stream_trans [OF _ only_stream_trans [OF only_stream_upd]]])
qed

lemma established_only:
  assumes "ng_tcp_handle_established R ok a m l N = Some N'" "st_status (streams N a) = ESTABLISHED"
  shows "only_stream a N N' \<and> st_status (streams N' a) = (if tcp_flags m AND FIN_FLAG \<noteq> 0 then CLOSE_WAIT else ESTABLISHED)"
  using assms unfolding ng_tcp_handle_established_def
  by (auto split: bind_splits if_splits dest!: established_psh_only established_fin_only intro: only_stream_trans)

lemma handle_listen_frame:
  assumes "ng_tcp_handle_listen R ok mem junk isn gSrcMac sb rb a m N = Some N'"
    "tcp_flags m AND SYN_FLAG \<noteq> 0" "st_status (streams N a) = LISTEN"
  obtains b where "mem = Some b" "tcb_set N' = b # tcb_set N" "\<And>c. c \<noteq> b \<Longrightarrow> streams N' c = streams N c"
    "hosts N' = hosts N" "lhost N' = lhost N" "fd_table N' = fd_table N" "arpt N' = arpt N" "sent N' = sent N"
proof -
  obtain b where b: "mem = Some b"
    using assms by (auto simp: ng_tcp_handle_listen_def split: bind_splits)
  have "tcb_set N' = b # tcb_set N \<and> (\<forall>c. c \<noteq> b \<longrightarrow> streams N' c = streams N c)
    \<and> hosts N' = hosts N \<and> lhost N' = lhost N \<and> fd_table N' = fd_table N \<and> arpt N' = arpt N \<and> sent N' = sent N"
    using assms unfolding b ng_tcp_handle_listen_def Let_def
    by (auto split: bind_splits if_splits simp: try_stream_def)
  then show ?thesis using b that by simp
qed

text \<open>The transitions a segment may make a stream take.\<close>

definition tcp_edge :: "tcp_status \<Rightarrow> tcp_status \<Rightarrow> bool" where
  "tcp_edge s t \<longleftrightarrow> s = t \<or> (s, t) \<in> {(SYN_RCVD, ESTABLISHED), (ESTABLISHED, CLOSE_WAIT), (LAST_ACK, CLOSED)}"

lemma stream_search_in: "ng_tcp_stream_search N sip dip sport dport = Some a \<Longrightarrow> a \<in> set (tcb_set N)"
  by (auto simp: ng_tcp_stream_search_def find_Some_iff split: option.splits)

lemma stream_search_dport:
  "ng_tcp_stream_search N sip dip sport dport = Some a \<Longrightarrow> st_dport (streams N a) = dport"
  by (auto simp: ng_tcp_stream_search_def find_Some_iff split: option.splits)

text \<open>What a handler does to the table: nothing, one stream more in front, or one stream less.\<close>

definition listen_effect :: "addr option \<Rightarrow> ('r, 'q) net \<Rightarrow> ('r, 'q) net \<Rightarrow> bool" where
  "listen_effect mem N N' \<longleftrightarrow> (\<exists>b. mem = Some b \<and> tcb_set N' = b # tcb_set N \<and> (\<forall>c. c \<noteq> b \<longrightarrow> streams N' c = streams N c))"

lemma handle_listen_idle:
  "tcp_flags m AND SYN_FLAG = 0 \<Longrightarrow> ng_tcp_handle_listen R ok mem junk isn gSrcMac sb rb a m N = Some N"
  by (simp add: ng_tcp_handle_listen_def)

lemma tcp_process_cases:
  assumes "ng_tcp_process l4ck R ok mem junk isn gSrcMac sb rb m N = Some (r, N')"
  obtains (dropped) "r \<noteq> 0" "N' = N"
  | (handled) a where "r = 0" "ng_tcp_stream_search N (ip_src m) (ip_dst m) (l4_src_port m) (l4_dst_port m) = Some a"
      "only_stream a N N'" "tcp_edge (st_status (streams N a)) (st_status (streams N' a))"
  | (opened) a where "r = 0" "ng_tcp_stream_search N (ip_src m) (ip_dst m) (l4_src_port m) (l4_dst_port m) = Some a"
      "st_status (streams N a) = LISTEN" "tcp_flags m AND SYN_FLAG \<noteq> 0" "listen_effect mem N N'"
      "ng_tcp_handle_listen R ok mem junk isn gSrcMac sb rb a m N = Some N'"
  | (closed) a where "r = 0" "ng_tcp_stream_search N (ip_src m) (ip_dst m) (l4_src_port m) (l4_dst_port m) = Some a"
      "st_status (streams N a) = LAST_ACK" "tcp_flags m AND ACK_FLAG \<noteq> 0"
      "N' = (upd_stream a (\<lambda>s. s\<lparr>st_status := CLOSED\<rparr>) N)\<lparr>tcb_set := remove1 a (tcb_set N)\<rparr>"
proof -
  consider "r \<noteq> 0" "N' = N"
    | a where "r = 0" "ng_tcp_stream_search N (ip_src m) (ip_dst m) (l4_src_port m) (l4_dst_port m) = Some a"
      "(case st_status (streams N a) of
               LISTEN \<Rightarrow> ng_tcp_handle_listen R ok mem junk isn gSrcMac sb rb a m N
             | SYN_RCVD \<Rightarrow> ng_tcp_handle_syn_rcvd a m N
             | ESTABLISHED \<Rightarrow>
                 (let tcplen = int (unat (ntohs (ip_total_length m))) - 20
                  in ng_tcp_handle_established R ok a m tcplen N)
             | CLOSE_WAIT \<Rightarrow> Some (ng_tcp_handle_close_wait a m N)
             | LAST_ACK \<Rightarrow> Some (ng_tcp_handle_last_ack a m N)
             | _ \<Rightarrow> Some N) = Some N'"
    using assms unfolding ng_tcp_process_def by (auto split: if_splits option.splits simp del: tcp_status.case)
  then show ?thesis
  proof cases
    case 1
    then show ?thesis by (rule dropped)
  next
    case (2 a)
    consider (same) "N' = N" | (listen) "st_status (streams N a) = LISTEN" "ng_tcp_handle_listen R ok mem junk isn gSrcMac sb rb a m N = Some N'"
        "tcp_flags m AND SYN_FLAG \<noteq> 0"
      | (syn) "st_status (streams N a) = SYN_RCVD" "ng_tcp_handle_syn_rcvd a m N = Some N'"
      | (est) l where "st_status (streams N a) = ESTABLISHED" "ng_tcp_handle_established R ok a m l N = Some N'"
      | (last) "st_status (streams N a) = LAST_ACK" "ng_tcp_handle_last_ack a m N = N'"
      using 2(3)
      by (cases "st_status (streams N a)"; cases "tcp_flags m AND SYN_FLAG = 0")
        (auto simp: ng_tcp_handle_close_wait_def handle_listen_idle)
    then show ?thesis
    proof cases
      case same
      then show ?thesis using handled [OF 2(1,2)] by (simp add: tcp_edge_def)
    next
      case listen
      then have "listen_effect mem N N'" using handle_listen_frame [OF listen(2,3,1)] by (metis listen_effect_def)
      then show ?thesis using opened [OF 2(1,2)] listen by blast
    next
      case syn
      then show ?thesis using handled [OF 2(1,2)]
        by (fastforce simp: ng_tcp_handle_syn_rcvd_def tcp_edge_def Let_def split: if_splits bind_splits)
    next
      case est
      then show ?thesis using handled [OF 2(1,2)] established_only [OF est(2,1)] by (simp add: tcp_edge_def split: if_splits)
    next
      case last
      then show ?thesis using handled [OF 2(1,2)] closed [OF 2(1,2)]
        by (auto simp: ng_tcp_handle_last_ack_def tcp_edge_def split: if_splits)
    qed
  qed
qed

section \<open>The three-way handshake\<close>

text \<open>The stream a SYN opens.\<close>

definition opened_stream ::
    "('r, fragment) ring_ops \<Rightarrow> 'r stream \<Rightarrow> uint32 \<Rightarrow> mac \<Rightarrow> 'r \<Rightarrow> 'r option \<Rightarrow> bytes \<Rightarrow> 'r stream" where
  "opened_stream R junk isn gSrcMac sb rb m =
     (let syn = ng_tcp_stream_create junk isn gSrcMac (Some sb) rb (ip_src m) (ip_dst m) (l4_src_port m) (l4_dst_port m)
      in syn\<lparr>st_rcv_nxt := ntohl (tcp_sent_seq m) + 1, st_sndbuf := Some (ring_enqueue R (synack_fragment syn m) sb),
             st_status := SYN_RCVD\<rparr>)"

lemma opened_stream_fields [simp]:
  "st_status (opened_stream R junk isn mac sb rb m) = SYN_RCVD" "st_fd (opened_stream R junk isn mac sb rb m) = -1"
  "st_sip (opened_stream R junk isn mac sb rb m) = ip_src m" "st_dip (opened_stream R junk isn mac sb rb m) = ip_dst m"
  "st_sport (opened_stream R junk isn mac sb rb m) = l4_src_port m" "st_dport (opened_stream R junk isn mac sb rb m) = l4_dst_port m"
  "st_rcv_nxt (opened_stream R junk isn mac sb rb m) = ntohl (tcp_sent_seq m) + 1"
  "st_protocol (opened_stream R junk isn mac sb rb m) = IPPROTO_TCP"
  by (simp_all add: opened_stream_def ng_tcp_stream_create_def Let_def)

lemma handle_listen_opens:
  assumes "tcp_flags m AND SYN_FLAG \<noteq> 0" "st_status (streams N a) = LISTEN" "ok 0"
  shows "ng_tcp_handle_listen R ok (Some b) junk isn gSrcMac (Some sb) rb a m N =
    Some (N\<lparr>streams := (streams N)(b := opened_stream R junk isn gSrcMac sb rb m), tcb_set := b # tcb_set N\<rparr>)"
  using assms
  by (cases N) (simp add: ng_tcp_handle_listen_def Let_def try_stream_def enq_snd_def opened_stream_def
      ng_tcp_stream_create_def upd_stream_def)

lemma process_syn:
  assumes "tcp_cksum_ok l4ck m" "tcp_flags m AND SYN_FLAG \<noteq> 0" "ok 0"
    and "ng_tcp_stream_search N (ip_src m) (ip_dst m) (l4_src_port m) (l4_dst_port m) = Some l"
    and "st_status (streams N l) = LISTEN"
  shows "ng_tcp_process l4ck R ok (Some b) junk isn gSrcMac (Some sb) rb m N =
    Some (0, N\<lparr>streams := (streams N)(b := opened_stream R junk isn gSrcMac sb rb m), tcb_set := b # tcb_set N\<rparr>)"
  using assms by (simp add: ng_tcp_process_def handle_listen_opens)

lemma process_ack:
  assumes "tcp_cksum_ok l4ck m" "tcp_flags m AND ACK_FLAG \<noteq> 0"
    and "ng_tcp_stream_search N (ip_src m) (ip_dst m) (l4_src_port m) (l4_dst_port m) = Some b"
    and "st_status (streams N b) = SYN_RCVD"
    and "ng_tcp_stream_search (upd_stream b (\<lambda>s. s\<lparr>st_status := ESTABLISHED\<rparr>) N) 0 0 0 (st_dport (streams N b)) = Some l"
  shows "ng_tcp_process l4ck R ok mem junk isn gSrcMac sb rb m N =
    Some (0, (upd_stream b (\<lambda>s. s\<lparr>st_status := ESTABLISHED\<rparr>) N)\<lparr>woken := woken N @ [l]\<rparr>)"
  using assms by (simp add: ng_tcp_process_def ng_tcp_handle_syn_rcvd_def)

lemma search_listener:
  assumes "l \<in> set (tcb_set N)" "st_dport (streams N l) = port" "st_status (streams N l) = LISTEN"
    and only: "\<And>a. a \<in> set (tcb_set N) \<Longrightarrow> st_dport (streams N a) = port \<Longrightarrow>
        st_status (streams N a) = LISTEN \<or> (st_sip (streams N a) = sip \<and> st_dip (streams N a) = dip \<and> st_sport (streams N a) = sport)
        \<Longrightarrow> a = l"
  shows "ng_tcp_stream_search N sip dip sport port = Some l"
proof -
  have f: "\<exists>a. find P xs = Some a \<and> P a \<and> a \<in> set xs" if "x \<in> set xs" "P x" for P :: "addr \<Rightarrow> bool" and x xs
    using that by (induction xs) auto
  show ?thesis
  proof (cases "find (\<lambda>a. st_sip (streams N a) = sip \<and> st_dip (streams N a) = dip
                     \<and> st_sport (streams N a) = sport \<and> st_dport (streams N a) = port) (tcb_set N)")
    case (Some a)
    then have "a = l" using only [of a] by (auto simp: find_Some_iff)
    then show ?thesis using Some by (simp add: ng_tcp_stream_search_def)
  next
    case None
    obtain a where a: "find (\<lambda>a. st_dport (streams N a) = port \<and> st_status (streams N a) = LISTEN) (tcb_set N) = Some a"
        "st_dport (streams N a) = port" "st_status (streams N a) = LISTEN" "a \<in> set (tcb_set N)"
      using f [OF assms(1), of "\<lambda>a. st_dport (streams N a) = port \<and> st_status (streams N a) = LISTEN"] assms(2,3) by auto
    then have "a = l" using only by blast
    then show ?thesis using None a(1) by (simp add: ng_tcp_stream_search_def)
  qed
qed

text \<open>
  C15. The three-way handshake opens a connection and \<open>accept\<close> returns it. When a SYN that belongs
  to no stream reaches the port of the listener, \<open>ng_tcp_process\<close> makes one new stream in SYN_RCVD
  with the next expected number one past the SYN's, and queues exactly one SYN-ACK on it, with the
  stack's initial number and that acknowledgement; the ACK of the same peer then takes the stream to
  ESTABLISHED and signals the listener; the next \<open>naccept\<close> on the listener returns the least free
  descriptor, now the stream's, with the peer's port and address. No other stream changes.
\<close>

theorem tcp_handshake:
  assumes rings: "ring_spec R rinv relems rcap" "rinv sb" "relems sb = []" "0 < rcap sb"
    and fresh: "b \<notin> set (tcb_set N)"
    and listener: "l \<in> set (tcb_set N)" "st_status (streams N l) = LISTEN" "st_dport (streams N l) = l4_dst_port syn"
      "get_hostinfo_fromfd N sockfd = Some (Stream l)" "sockfd \<noteq> -1" "st_protocol (streams N l) = IPPROTO_TCP"
    and only: "\<forall>a \<in> set (tcb_set N). st_dport (streams N a) = l4_dst_port syn \<longrightarrow> a \<noteq> l \<longrightarrow>
      st_status (streams N a) \<noteq> LISTEN \<and> st_sip (streams N a) \<noteq> 0 \<and> st_sip (streams N a) \<noteq> ip_src syn"
    and syn: "tcp_cksum_ok l4ck syn" "tcp_flags syn AND SYN_FLAG \<noteq> 0" "ip_src syn \<noteq> 0" "ok 0"
    and ack: "tcp_cksum_ok l4ck ack" "tcp_flags ack AND ACK_FLAG \<noteq> 0" "ip_src ack = ip_src syn" "ip_dst ack = ip_dst syn"
      "l4_src_port ack = l4_src_port syn" "l4_dst_port ack = l4_dst_port syn"
  shows "\<exists>N1 N2 N3. ng_tcp_process l4ck R ok (Some b) junk isn mac (Some sb) rb syn N = Some (0, N1)
      \<and> st_status (streams N1 b) = SYN_RCVD \<and> st_rcv_nxt (streams N1 b) = ntohl (tcp_sent_seq syn) + 1
      \<and> (\<exists>fr. map_option relems (st_sndbuf (streams N1 b)) = Some [fr] \<and> fr_tcp_flags fr = SYN_FLAG OR ACK_FLAG
          \<and> fr_seqnum fr = isn \<and> fr_acknum fr = ntohl (tcp_sent_seq syn) + 1
          \<and> fr_sport fr = l4_dst_port syn \<and> fr_dport fr = l4_src_port syn)
    \<and> ng_tcp_process l4ck R ok' mem' junk' isn' mac sb' rb' ack N1 = Some (0, N2)
      \<and> st_status (streams N2 b) = ESTABLISHED \<and> woken N2 = woken N @ [l]
    \<and> naccept sockfd N2 = Some (fst (get_fd_frombitmap (fd_table N)), l4_src_port syn, ip_src syn, N3)
      \<and> st_fd (streams N3 b) = fst (get_fd_frombitmap (fd_table N)) \<and> st_status (streams N3 b) = ESTABLISHED
      \<and> tcb_set N3 = b # tcb_set N \<and> (\<forall>c. c \<noteq> b \<longrightarrow> streams N3 c = streams N c)"
proof -
  define O' where "O' = opened_stream R junk isn mac sb rb syn"
  define N1 where "N1 = N\<lparr>streams := (streams N)(b := O'), tcb_set := b # tcb_set N\<rparr>"
  define E where "E = upd_stream b (\<lambda>s. s\<lparr>st_status := ESTABLISHED\<rparr>) N1"
  define N2 where "N2 = E\<lparr>woken := woken N1 @ [l]\<rparr>"
  define N3 where "N3 = upd_stream b (\<lambda>s. s\<lparr>st_fd := fst (get_fd_frombitmap (fd_table N))\<rparr>)
    (N2\<lparr>fd_table := snd (get_fd_frombitmap (fd_table N))\<rparr>)"
  have bl: "b \<noteq> l" using fresh listener(1) by blast
  have neq: "a \<noteq> b" if "a \<in> set (tcb_set N)" for a using that fresh by blast
  have "ng_tcp_stream_search N (ip_src syn) (ip_dst syn) (l4_src_port syn) (l4_dst_port syn) = Some l"
    by (rule search_listener) (use listener(1-3) only in blast)+
  then have p1: "ng_tcp_process l4ck R ok (Some b) junk isn mac (Some sb) rb syn N = Some (0, N1)"
    using process_syn [of l4ck syn ok N l] syn listener(2) by (simp add: N1_def O'_def)
  have "ng_tcp_stream_search N1 (ip_src ack) (ip_dst ack) (l4_src_port ack) (l4_dst_port ack) = Some b"
    by (simp add: ng_tcp_stream_search_def N1_def O'_def ack(3-6))
  moreover have "ng_tcp_stream_search E 0 0 0 (st_dport (streams N1 b)) = Some l"
    by (rule search_listener) (use listener(1-3) only bl neq syn(3) in \<open>auto simp: E_def N1_def O'_def\<close>)
  moreover have "st_status (streams N1 b) = SYN_RCVD" by (simp add: N1_def O'_def)
  ultimately have p2: "ng_tcp_process l4ck R ok' mem' junk' isn' mac sb' rb' ack N1 = Some (0, N2)"
    using process_ack [of l4ck ack N1 b l, OF ack(1,2)] by (simp add: N2_def E_def)
  have s2: "streams N2 = (streams N)(b := O'\<lparr>st_status := ESTABLISHED\<rparr>)" "tcb_set N2 = b # tcb_set N"
    "hosts N2 = hosts N" "lhost N2 = lhost N" "fd_table N2 = fd_table N" "woken N2 = woken N @ [l]"
    by (simp_all add: N2_def E_def N1_def)
  have "find (\<lambda>a. sockfd = st_fd (streams N2 a)) (tcb_set N) = find (\<lambda>a. sockfd = st_fd (streams N a)) (tcb_set N)"
    by (rule find_cong) (use neq in \<open>auto simp: s2\<close>)
  then have "get_hostinfo_fromfd N2 sockfd = Some (Stream l)"
    using listener(4,5) by (simp add: get_hostinfo_fromfd_def s2 O'_def split: option.splits)
  moreover have "get_accept_tcb N2 (l4_dst_port syn) = Some b" by (simp add: get_accept_tcb_def s2 O'_def)
  ultimately have p3: "naccept sockfd N2 = Some (fst (get_fd_frombitmap (fd_table N)), l4_src_port syn, ip_src syn, N3)"
    using listener(3,6) bl by (simp add: naccept_def s2 O'_def Let_def N3_def)
  define fr where "fr = synack_fragment (ng_tcp_stream_create junk isn mac (Some sb) rb (ip_src syn) (ip_dst syn) (l4_src_port syn) (l4_dst_port syn)) syn"
  have "st_sndbuf (streams N1 b) = Some (ring_enqueue R fr sb)"
    by (simp add: N1_def O'_def opened_stream_def Let_def fr_def)
  then have "map_option relems (st_sndbuf (streams N1 b)) = Some [fr]"
    using ring_enqueue_ok(3) [OF rings(1,2), of fr] rings(3,4) by simp
  moreover have "fr_tcp_flags fr = SYN_FLAG OR ACK_FLAG \<and> fr_seqnum fr = isn \<and> fr_acknum fr = ntohl (tcp_sent_seq syn) + 1
      \<and> fr_sport fr = l4_dst_port syn \<and> fr_dport fr = l4_src_port syn"
    by (simp add: fr_def synack_fragment_def ng_tcp_stream_create_def)
  moreover have "st_status (streams N1 b) = SYN_RCVD \<and> st_rcv_nxt (streams N1 b) = ntohl (tcp_sent_seq syn) + 1"
    by (simp add: N1_def O'_def)
  ultimately show ?thesis
    using p1 p2 p3 s2 by (intro exI [of _ N1] exI [of _ N2] exI [of _ N3]) (auto simp: N3_def)
qed

text \<open>A bounded list as a ring, a listener on port 80 and segments from one peer, for concrete runs.\<close>

definition list_ring :: "nat \<Rightarrow> ('a list, 'a) ring_ops" where
  "list_ring n = \<lparr>rg_full = \<lambda>r. length r = n, rg_none = \<lambda>r. r = [], rg_push = \<lambda>x r. r @ [x], rg_pop = \<lambda>r. (hd r, tl r)\<rparr>"

lemma list_ring_spec: "ring_spec (list_ring n) (\<lambda>r. length r \<le> n) (\<lambda>r. r) (\<lambda>_. n)"
  unfolding ring_spec_def by unfold_locales (auto simp: list_ring_def)

definition demo_segment :: "uint8 \<Rightarrow> uint32 \<Rightarrow> uint32 \<Rightarrow> bytes \<Rightarrow> bytes" where
  "demo_segment flags seq ack payload = ng_tcp_pkt (\<lambda>_. 0) demo_ck 10 20 (replicate 6 1) (replicate 6 2)
     (blank_fragment\<lparr>fr_sport := 1000, fr_dport := 80, fr_seqnum := seq, fr_acknum := ack, fr_tcp_flags := flags,
       fr_hdrlen_off := 0x50, fr_data := Some payload, fr_length := of_nat (length payload)\<rparr>) (replicate 200 0)"

lemma demo_ck_ok: "reads_datagram demo_ck"
  unfolding reads_datagram_def demo_ck_def by metis

lemma demo_segment_fields:
  assumes "length payload \<le> 100"
  shows "tcp_cksum_ok demo_ck (demo_segment flags seq ack payload)"
    "ip_src (demo_segment flags seq ack payload) = 10" "ip_dst (demo_segment flags seq ack payload) = 20"
    "l4_src_port (demo_segment flags seq ack payload) = 1000" "l4_dst_port (demo_segment flags seq ack payload) = 80"
    "ntohl (tcp_sent_seq (demo_segment flags seq ack payload)) = seq" "ntohl (tcp_recv_ack (demo_segment flags seq ack payload)) = ack"
    "tcp_flags (demo_segment flags seq ack payload) = flags" "tcp_data_off (demo_segment flags seq ack payload) = 0x50"
    "unat (ntohs (ip_total_length (demo_segment flags seq ack payload))) = 40 + length payload"
    "subbytes 54 (length payload) (demo_segment flags seq ack payload) = payload"
    "length (demo_segment flags seq ack payload) = 54 + length payload"
    "ether_type (demo_segment flags seq ack payload) = htons 0x0800" "ip_proto (demo_segment flags seq ack payload) = 6"
proof -
  define fr where "fr = blank_fragment\<lparr>fr_sport := 1000, fr_dport := 80, fr_seqnum := seq, fr_acknum := ack, fr_tcp_flags := flags,
       fr_hdrlen_off := 0x50, fr_data := Some payload, fr_length := of_nat (length payload)\<rparr>"
  have "fr_optlen fr = 0" "fr_data fr = Some (payload @ [])" "unat (fr_length fr) = length payload"
    using assms by (simp_all add: fr_def blank_fragment_def unat_of_nat)
  from tcp_pkt_reads_back [OF demo_ck_ok _ _ this _ _ refl, of "replicate 6 1" "replicate 6 2" "replicate 200 0" "\<lambda>_. 0" 10 20]
  show "tcp_cksum_ok demo_ck (demo_segment flags seq ack payload)"
    "ip_src (demo_segment flags seq ack payload) = 10" "ip_dst (demo_segment flags seq ack payload) = 20"
    "l4_src_port (demo_segment flags seq ack payload) = 1000" "l4_dst_port (demo_segment flags seq ack payload) = 80"
    "ntohl (tcp_sent_seq (demo_segment flags seq ack payload)) = seq" "ntohl (tcp_recv_ack (demo_segment flags seq ack payload)) = ack"
    "tcp_flags (demo_segment flags seq ack payload) = flags" "tcp_data_off (demo_segment flags seq ack payload) = 0x50"
    "unat (ntohs (ip_total_length (demo_segment flags seq ack payload))) = 40 + length payload"
    "subbytes 54 (length payload) (demo_segment flags seq ack payload) = payload"
    "length (demo_segment flags seq ack payload) = 54 + length payload"
    "ether_type (demo_segment flags seq ack payload) = htons 0x0800" "ip_proto (demo_segment flags seq ack payload) = 6"
    using assms by (simp_all add: demo_segment_def fr_def [symmetric], simp_all add: fr_def)
qed

definition demo_stream :: "fragment list stream" where
  "demo_stream = \<lparr>st_fd = 3, st_dip = 0, st_localmac = replicate 6 2, st_dport = 80, st_protocol = IPPROTO_TCP, st_sport = 0,
     st_sip = 0, st_snd_nxt = 0, st_rcv_nxt = 0, st_status = LISTEN, st_sndbuf = Some [], st_rcvbuf = Some []\<rparr>"

definition demo_net :: "(fragment list, offload list) net" where
  "demo_net = \<lparr>arpt = None, fd_table = replicate 1024 0, hosts = \<lambda>_. \<lparr>lh_fd = 0, lh_localip = 0, lh_localmac = [], lh_localport = 0,
     lh_protocol = 0, lh_sndbuf = [], lh_rcvbuf = []\<rparr>, lhost = [], streams = \<lambda>_. demo_stream, tcb_set = [1], woken = [], sent = []\<rparr>"

theorem tcp_handshake_witness:
  "\<exists>N1 N2. ng_tcp_process demo_ck (list_ring 4) (\<lambda>_. True) (Some 2) demo_stream 77 [] (Some []) (Some [])
        (demo_segment 2 500 0 []) demo_net = Some (0, N1)
    \<and> st_rcv_nxt (streams N1 2) = 501
    \<and> ng_tcp_process demo_ck (list_ring 4) (\<lambda>_. True) None demo_stream 0 [] None None (demo_segment 16 501 78 []) N1 = Some (0, N2)
    \<and> st_status (streams N2 2) = ESTABLISHED \<and> woken N2 = [1]"
proof -
  have "\<exists>N1 N2 N3. ng_tcp_process demo_ck (list_ring 4) (\<lambda>_. True) (Some 2) demo_stream 77 [] (Some []) (Some []) (demo_segment 2 500 0 []) demo_net = Some (0, N1)
      \<and> st_status (streams N1 2) = SYN_RCVD \<and> st_rcv_nxt (streams N1 2) = ntohl (tcp_sent_seq (demo_segment 2 500 0 [])) + 1
      \<and> (\<exists>fr. map_option (\<lambda>r. r) (st_sndbuf (streams N1 2)) = Some [fr] \<and> fr_tcp_flags fr = SYN_FLAG OR ACK_FLAG
          \<and> fr_seqnum fr = 77 \<and> fr_acknum fr = ntohl (tcp_sent_seq (demo_segment 2 500 0 [])) + 1
          \<and> fr_sport fr = l4_dst_port (demo_segment 2 500 0 []) \<and> fr_dport fr = l4_src_port (demo_segment 2 500 0 []))
    \<and> ng_tcp_process demo_ck (list_ring 4) (\<lambda>_. True) None demo_stream 0 [] None None (demo_segment 16 501 78 []) N1 = Some (0, N2)
      \<and> st_status (streams N2 2) = ESTABLISHED \<and> woken N2 = woken demo_net @ [1]
    \<and> naccept 3 N2 = Some (fst (get_fd_frombitmap (fd_table demo_net)), l4_src_port (demo_segment 2 500 0 []), ip_src (demo_segment 2 500 0 []), N3)
      \<and> st_fd (streams N3 2) = fst (get_fd_frombitmap (fd_table demo_net)) \<and> st_status (streams N3 2) = ESTABLISHED
      \<and> tcb_set N3 = 2 # tcb_set demo_net \<and> (\<forall>c. c \<noteq> 2 \<longrightarrow> streams N3 c = streams demo_net c)"
    by (rule tcp_handshake [OF list_ring_spec [of 4], of "[]" 2 demo_net 1])
      (simp_all add: demo_segment_fields demo_net_def demo_stream_def get_hostinfo_fromfd_def SYN_FLAG_def ACK_FLAG_def)
  moreover have "ntohl (tcp_sent_seq (demo_segment 2 500 0 [])) + 1 = 501" by (simp add: demo_segment_fields)
  moreover have "woken demo_net @ [1] = [1]" by (simp add: demo_net_def)
  ultimately show ?thesis by metis
qed

section \<open>Transitions\<close>

text \<open>
  C18. The TCP state machine moves only along its edges, and a segment touches one connection only. A
  segment that fails the checksum or belongs to no stream changes nothing. Otherwise every stream of
  the table either stays in its state or moves from SYN_RCVD to ESTABLISHED, from ESTABLISHED to
  CLOSE_WAIT or from LAST_ACK to CLOSED; only the stream the segment is addressed to can change at
  all; streams enter the table only as the answer to a SYN to a listener and leave it only when the
  FIN of a stream in LAST_ACK is acknowledged; the UDP hosts, the descriptors and the ARP table are
  untouched.
\<close>

theorem tcp_process_transitions:
  assumes "ng_tcp_process l4ck R ok mem junk isn gSrcMac sb rb m N = Some (r, N')"
    and "\<forall>b. mem = Some b \<longrightarrow> b \<notin> set (tcb_set N)" "distinct (tcb_set N)"
  shows "(r \<noteq> 0 \<longrightarrow> N' = N)
    \<and> (\<forall>c \<in> set (tcb_set N). tcp_edge (st_status (streams N c)) (st_status (streams N' c))
        \<and> (Some c \<noteq> ng_tcp_stream_search N (ip_src m) (ip_dst m) (l4_src_port m) (l4_dst_port m) \<longrightarrow> streams N' c = streams N c))
    \<and> (\<forall>c \<in> set (tcb_set N') - set (tcb_set N). mem = Some c \<and> tcp_flags m AND SYN_FLAG \<noteq> 0
        \<and> (\<exists>l \<in> set (tcb_set N). st_status (streams N l) = LISTEN \<and> st_dport (streams N l) = l4_dst_port m))
    \<and> (\<forall>c \<in> set (tcb_set N) - set (tcb_set N'). tcp_flags m AND ACK_FLAG \<noteq> 0
        \<and> st_status (streams N c) = LAST_ACK \<and> st_status (streams N' c) = CLOSED)
    \<and> hosts N' = hosts N \<and> lhost N' = lhost N \<and> fd_table N' = fd_table N \<and> arpt N' = arpt N"
  using assms(1)
proof (cases rule: tcp_process_cases)
  case dropped
  then show ?thesis by (simp add: tcp_edge_def)
next
  case (handled a)
  have "tcp_edge (st_status (streams N c)) (st_status (streams N' c))" for c
    using handled(3,4) by (cases "c = a") (simp_all add: only_stream_def tcp_edge_def)
  then show ?thesis using handled by (auto simp: only_stream_def)
next
  case (opened a)
  then obtain b where b: "mem = Some b" "tcb_set N' = b # tcb_set N" "\<And>c. c \<noteq> b \<Longrightarrow> streams N' c = streams N c"
    "hosts N' = hosts N" "lhost N' = lhost N" "fd_table N' = fd_table N" "arpt N' = arpt N"
    using handle_listen_frame [OF opened(6,4,3)] by metis
  have keep: "streams N' c = streams N c" if "c \<in> set (tcb_set N)" for c
    using that b(1,3) assms(2) by metis
  show ?thesis
    using opened(1,3,4) b(1,2,4-7) stream_search_in [OF opened(2)] stream_search_dport [OF opened(2)]
    by (auto simp: keep tcp_edge_def)
next
  case (closed a)
  then show ?thesis using assms(3) by (auto simp: tcp_edge_def)
qed

theorem tcp_process_transitions_witness:
  "\<exists>N'. ng_tcp_process demo_ck (list_ring 4) (\<lambda>_. True) (Some 2) demo_stream 77 [] (Some []) (Some [])
      (demo_segment 2 500 0 []) demo_net = Some (0, N')
    \<and> tcp_edge LISTEN (st_status (streams N' 1)) \<and> fd_table N' = replicate 1024 0"
proof -
  have p: "ng_tcp_process demo_ck (list_ring 4) (\<lambda>_. True) (Some 2) demo_stream 77 [] (Some []) (Some [])
      (demo_segment 2 500 0 []) demo_net = Some (0, demo_net\<lparr>streams := (streams demo_net)(2 := opened_stream (list_ring 4) demo_stream 77 [] [] (Some [])
        (demo_segment 2 500 0 [])), tcb_set := 2 # tcb_set demo_net\<rparr>)"
    by (rule process_syn [of _ _ _ _ 1])
      (simp_all add: demo_segment_fields SYN_FLAG_def demo_net_def demo_stream_def ng_tcp_stream_search_def)
  have "1 \<in> set (tcb_set demo_net)" "st_status (streams demo_net 1) = LISTEN" "fd_table demo_net = replicate 1024 0"
    by (simp_all add: demo_net_def demo_stream_def)
  then show ?thesis using p tcp_process_transitions [OF p] by (metis distinct_singleton demo_net_def list.set_intros net.select_convs(6) numeral_eq_one_iff option.inject semiring_norm(85) set_ConsD empty_iff empty_set)
qed

section \<open>Delivery of data\<close>

text \<open>The payload of a segment of \<open>tcplen\<close> bytes.\<close>

definition payload_of :: "bytes \<Rightarrow> int \<Rightarrow> bytes" where
  "payload_of m tcplen = subbytes (34 + nat (header_len m) * 4) (nat (tcplen - header_len m * 4)) m"

lemma recvbuffer_value:
  assumes "st_rcvbuf (streams N a) = Some rb"
  shows "ng_tcp_enqueue_recvbuffer R True True a m l N =
    Some ((upd_stream a (\<lambda>s. s\<lparr>st_rcvbuf := Some (ring_enqueue R (recv_fragment m (l - header_len m * 4)) rb)\<rparr>) N)\<lparr>woken := woken N @ [a]\<rparr>)"
  using assms by (simp add: ng_tcp_enqueue_recvbuffer_def try_stream_def enq_rcv_def upd_stream_def Let_def)

lemma ackpkt_value:
  assumes "st_sndbuf (streams N a) = Some sb"
  shows "ng_tcp_send_ackpkt R True a m N =
    Some (upd_stream a (\<lambda>s. s\<lparr>st_sndbuf := Some (ring_enqueue R (ack_fragment s m) sb)\<rparr>) N)"
  using assms by (simp add: ng_tcp_send_ackpkt_def try_stream_def enq_snd_def upd_stream_def)

lemma psh_value:
  assumes rb: "st_rcvbuf (streams N a) = Some rb" and sb: "st_sndbuf (streams N a) = Some sb" and ok: "ok 0" "ok 1" "ok 2"
    and s: "s = (streams N a)\<lparr>st_rcvbuf := Some (ring_enqueue R (recv_fragment m (l - header_len m * 4)) rb),
       st_rcv_nxt := st_rcv_nxt (streams N a) + word_of_int (l - header_len m * 4), st_snd_nxt := ntohl (tcp_recv_ack m)\<rparr>"
  shows "\<exists>N'. established_psh R ok a m l N = Some N'
    \<and> streams N' a = s\<lparr>st_sndbuf := Some (ring_enqueue R (ack_fragment s m) sb)\<rparr> \<and> woken N' = woken N @ [a] \<and> only_stream a N N'"
proof -
  have ex: "\<exists>N'. established_psh R ok a m l N = Some N' \<and> streams N' a = s\<lparr>st_sndbuf := Some (ring_enqueue R (ack_fragment s m) sb)\<rparr>
      \<and> woken N' = woken N @ [a]"
    using ok by (simp add: established_psh_def recvbuffer_value [OF rb] ackpkt_value sb s Let_def)
  then show ?thesis using established_psh_only by fast
qed

lemma fin_value:
  assumes rb: "st_rcvbuf (streams N a) = Some rb" and sb: "st_sndbuf (streams N a) = Some sb" and ok: "ok 3" "ok 4" "ok 5"
    and s: "s = (streams N a)\<lparr>st_status := CLOSE_WAIT, st_rcvbuf := Some (ring_enqueue R (recv_fragment m (header_len m - header_len m * 4)) rb),
       st_rcv_nxt := st_rcv_nxt (streams N a) + 1, st_snd_nxt := ntohl (tcp_recv_ack m)\<rparr>"
  shows "\<exists>N'. established_fin R ok a m N = Some N'
    \<and> streams N' a = s\<lparr>st_sndbuf := Some (ring_enqueue R (ack_fragment s m) sb)\<rparr> \<and> woken N' = woken N @ [a] \<and> only_stream a N N'"
proof -
  have "st_rcvbuf (streams (upd_stream a (\<lambda>s. s\<lparr>st_status := CLOSE_WAIT\<rparr>) N) a) = Some rb" using rb by simp
  note rv = recvbuffer_value [OF this]
  have ex: "\<exists>N'. established_fin R ok a m N = Some N' \<and> streams N' a = s\<lparr>st_sndbuf := Some (ring_enqueue R (ack_fragment s m) sb)\<rparr>
      \<and> woken N' = woken N @ [a]"
    using ok by (simp add: established_fin_def rv ackpkt_value sb s Let_def)
  then show ?thesis using established_fin_only by fast
qed

lemma recv_fragment_data:
  assumes "length m = 34 + nat l" "header_len m * 4 < l" "l < 2 ^ 31"
  shows "fr_data (recv_fragment m (l - header_len m * 4)) = Some (payload_of m l @ [0])"
    "unat (fr_length (recv_fragment m (l - header_len m * 4))) = length (payload_of m l)"
    "int (length (payload_of m l)) = l - header_len m * 4"
proof -
  have h: "0 \<le> header_len m" by (simp add: header_len_def)
  have len: "length (payload_of m l) = nat (l - header_len m * 4)"
    using assms h by (simp add: payload_of_def subbytes_def)
  show "fr_data (recv_fragment m (l - header_len m * 4)) = Some (payload_of m l @ [0])"
    using assms(2) by (simp add: recv_fragment_def payload_of_def Let_def)
  have "fr_length (recv_fragment m (l - header_len m * 4)) = of_nat (nat (l - header_len m * 4))"
    using assms(2) by (simp add: recv_fragment_def Let_def)
  moreover have "nat (l - header_len m * 4) < 2 ^ 32" using assms(3) h by simp
  ultimately show "unat (fr_length (recv_fragment m (l - header_len m * 4))) = length (payload_of m l)"
    using len by (simp add: unat_of_nat)
  show "int (length (payload_of m l)) = l - header_len m * 4" using len assms(2) by simp
qed

lemma recv_fragment_empty:
  "l \<le> 0 \<Longrightarrow> fr_data (recv_fragment m l) = None \<and> fr_length (recv_fragment m l) = 0"
  by (simp add: recv_fragment_def blank_fragment_def Let_def)

lemma ack_fragment_fields [simp]:
  "fr_acknum (ack_fragment s m) = st_rcv_nxt s" "fr_seqnum (ack_fragment s m) = st_snd_nxt s"
  "fr_tcp_flags (ack_fragment s m) = ACK_FLAG"
  by (simp_all add: ack_fragment_def)

lemma handle_established_psh:
  assumes R: "ring_spec R rinv relems rcap" and flag: "tcp_flags m AND PSH_FLAG \<noteq> 0" and ok: "\<forall>i. ok i"
    and rb: "st_rcvbuf (streams N a) = Some rb" "rinv rb" "length (relems rb) + 2 \<le> rcap rb"
    and sb: "st_sndbuf (streams N a) = Some sb" "rinv sb" "length (relems sb) + 2 \<le> rcap sb"
    and fr: "fr = recv_fragment m (l - header_len m * 4)"
  shows "\<exists>N' rb' sb' ack. established_psh R ok a m l N = Some N' \<and> only_stream a N N'
    \<and> st_rcvbuf (streams N' a) = Some rb' \<and> rinv rb' \<and> relems rb' = relems rb @ [fr] \<and> rcap rb' = rcap rb
    \<and> st_sndbuf (streams N' a) = Some sb' \<and> rinv sb' \<and> relems sb' = relems sb @ [ack] \<and> rcap sb' = rcap sb
    \<and> st_rcv_nxt (streams N' a) = st_rcv_nxt (streams N a) + word_of_int (l - header_len m * 4)
    \<and> fr_acknum ack = st_rcv_nxt (streams N' a) \<and> fr_tcp_flags ack = ACK_FLAG
    \<and> st_snd_nxt (streams N' a) = ntohl (tcp_recv_ack m) \<and> st_status (streams N' a) = st_status (streams N a) \<and> st_fd (streams N' a) = st_fd (streams N a)
    \<and> st_protocol (streams N' a) = st_protocol (streams N a)"
proof -
  define s where "s = (streams N a)\<lparr>st_rcvbuf := Some (ring_enqueue R fr rb),
       st_rcv_nxt := st_rcv_nxt (streams N a) + word_of_int (l - header_len m * 4), st_snd_nxt := ntohl (tcp_recv_ack m)\<rparr>"
  obtain N' where N': "established_psh R ok a m l N = Some N'" "only_stream a N N'"
    "streams N' a = s\<lparr>st_sndbuf := Some (ring_enqueue R (ack_fragment s m) sb)\<rparr>"
    using psh_value [OF rb(1) sb(1), where R = R and ok = ok and s = s and m = m and l = l] ok by (auto simp: s_def fr)
  show ?thesis
    using N' ring_enqueue_ok [OF R rb(2), of fr] ring_enqueue_ok [OF R sb(2), of "ack_fragment s m"] rb(3) sb(3)
    by (intro exI [of _ N'] exI [of _ "ring_enqueue R fr rb"] exI [of _ "ring_enqueue R (ack_fragment s m) sb"]
        exI [of _ "ack_fragment s m"]) (simp add: s_def)
qed

lemma handle_established_fin:
  assumes R: "ring_spec R rinv relems rcap" and ok: "\<forall>i. ok i"
    and rb: "st_rcvbuf (streams N a) = Some rb" "rinv rb" "length (relems rb) + 1 \<le> rcap rb"
    and sb: "st_sndbuf (streams N a) = Some sb" "rinv sb" "length (relems sb) + 1 \<le> rcap sb"
  shows "\<exists>N' rb' sb' eof ack. established_fin R ok a m N = Some N' \<and> only_stream a N N'
    \<and> st_rcvbuf (streams N' a) = Some rb' \<and> relems rb' = relems rb @ [eof] \<and> fr_length eof = 0 \<and> fr_data eof = None
    \<and> st_sndbuf (streams N' a) = Some sb' \<and> relems sb' = relems sb @ [ack]
    \<and> st_rcv_nxt (streams N' a) = st_rcv_nxt (streams N a) + 1
    \<and> fr_acknum ack = st_rcv_nxt (streams N' a) \<and> fr_tcp_flags ack = ACK_FLAG
    \<and> st_snd_nxt (streams N' a) = ntohl (tcp_recv_ack m) \<and> st_status (streams N' a) = CLOSE_WAIT"
proof -
  define eof where "eof = recv_fragment m (header_len m - header_len m * 4)"
  define s where "s = (streams N a)\<lparr>st_status := CLOSE_WAIT, st_rcvbuf := Some (ring_enqueue R eof rb),
       st_rcv_nxt := st_rcv_nxt (streams N a) + 1, st_snd_nxt := ntohl (tcp_recv_ack m)\<rparr>"
  obtain N' where N': "established_fin R ok a m N = Some N'" "only_stream a N N'"
    "streams N' a = s\<lparr>st_sndbuf := Some (ring_enqueue R (ack_fragment s m) sb)\<rparr>"
    using fin_value [OF rb(1) sb(1), where R = R and ok = ok and s = s and m = m] ok by (auto simp: s_def eof_def)
  have "fr_length eof = 0 \<and> fr_data eof = None"
    using recv_fragment_empty [of "header_len m - header_len m * 4" m] by (simp add: eof_def header_len_def)
  then show ?thesis
    using N' ring_enqueue_ok [OF R rb(2), of eof] ring_enqueue_ok [OF R sb(2), of "ack_fragment s m"] rb(3) sb(3)
    by (intro exI [of _ N'] exI [of _ "ring_enqueue R eof rb"] exI [of _ "ring_enqueue R (ack_fragment s m) sb"]
        exI [of _ eof] exI [of _ "ack_fragment s m"]) (simp add: s_def)
qed

text \<open>
  Data of an established connection is delivered and acknowledged. For a segment with PSH and a
  payload, \<open>ng_tcp_process\<close> puts one fragment with exactly the payload, followed by a zero byte, at
  the end of the receive ring, advances the next expected number by the payload's length modulo
  \<open>2 ^ 32\<close>, takes the peer's acknowledgement as the next number to send and queues an ACK of the new
  number; if FIN is set as well, an empty fragment (end of file) follows the data, the number advances
  by one more, a second ACK follows the first and the connection goes to CLOSE_WAIT.
\<close>

theorem tcp_established_delivers:
  assumes R: "ring_spec R rinv relems rcap" and ok: "\<forall>i. ok i" and ck: "tcp_cksum_ok l4ck m"
    and search: "ng_tcp_stream_search N (ip_src m) (ip_dst m) (l4_src_port m) (l4_dst_port m) = Some a"
    and status: "st_status (streams N a) = ESTABLISHED"
    and rb: "st_rcvbuf (streams N a) = Some rb" "rinv rb" "length (relems rb) + 2 \<le> rcap rb"
    and sb: "st_sndbuf (streams N a) = Some sb" "rinv sb" "length (relems sb) + 2 \<le> rcap sb"
    and flag: "tcp_flags m AND PSH_FLAG \<noteq> 0"
    and l: "l = int (unat (ntohs (ip_total_length m))) - 20" "length m = 34 + nat l" "header_len m * 4 < l"
  shows "\<exists>N' fr eof ack ack2. ng_tcp_process l4ck R ok mem junk isn mac sb0 rb0 m N = Some (0, N')
    \<and> fr_data fr = Some (payload_of m l @ [0]) \<and> unat (fr_length fr) = length (payload_of m l) \<and> fr_length eof = 0
    \<and> map_option relems (st_rcvbuf (streams N' a)) = Some (relems rb @ fr # (if tcp_flags m AND FIN_FLAG \<noteq> 0 then [eof] else []))
    \<and> map_option relems (st_sndbuf (streams N' a)) = Some (relems sb @ ack # (if tcp_flags m AND FIN_FLAG \<noteq> 0 then [ack2] else []))
    \<and> fr_tcp_flags ack = ACK_FLAG \<and> fr_acknum ack = st_rcv_nxt (streams N a) + of_nat (length (payload_of m l))
    \<and> fr_tcp_flags ack2 = ACK_FLAG \<and> fr_acknum ack2 = fr_acknum ack + 1
    \<and> st_snd_nxt (streams N' a) = ntohl (tcp_recv_ack m)
    \<and> (st_status (streams N' a), st_rcv_nxt (streams N' a)) =
        (if tcp_flags m AND FIN_FLAG \<noteq> 0 then (CLOSE_WAIT, fr_acknum ack2) else (ESTABLISHED, fr_acknum ack))"
proof -
  define fr where "fr = recv_fragment m (l - header_len m * 4)"
  have "unat (ntohs (ip_total_length m)) < 65536" using unsigned_less [of "ntohs (ip_total_length m)"] by simp
  then have "l < 65536" unfolding l(1) by linarith
  then have "l < 2 ^ 31" by simp
  note frd = recv_fragment_data [OF l(2,3) this, folded fr_def]
  have w: "word_of_int (l - header_len m * 4) = (of_nat (length (payload_of m l)) :: uint32)"
    using frd(3) by (metis of_int_of_nat_eq)
  obtain N1 rb1 sb1 ack where psh: "established_psh R ok a m l N = Some N1"
    "st_rcvbuf (streams N1 a) = Some rb1" "rinv rb1" "relems rb1 = relems rb @ [fr]" "rcap rb1 = rcap rb"
    "st_sndbuf (streams N1 a) = Some sb1" "rinv sb1" "relems sb1 = relems sb @ [ack]" "rcap sb1 = rcap sb"
    "st_rcv_nxt (streams N1 a) = st_rcv_nxt (streams N a) + of_nat (length (payload_of m l))"
    "fr_acknum ack = st_rcv_nxt (streams N1 a)" "fr_tcp_flags ack = ACK_FLAG"
    "st_snd_nxt (streams N1 a) = ntohl (tcp_recv_ack m)" "st_status (streams N1 a) = ESTABLISHED"
    using handle_established_psh [OF R flag ok rb sb fr_def] unfolding w status by blast
  obtain N2 rb2 sb2 eof ack2 where fin: "established_fin R ok a m N1 = Some N2"
    "st_rcvbuf (streams N2 a) = Some rb2" "relems rb2 = relems rb1 @ [eof]" "fr_length eof = 0"
    "st_sndbuf (streams N2 a) = Some sb2" "relems sb2 = relems sb1 @ [ack2]"
    "st_rcv_nxt (streams N2 a) = st_rcv_nxt (streams N1 a) + 1" "fr_acknum ack2 = st_rcv_nxt (streams N2 a)" "fr_tcp_flags ack2 = ACK_FLAG"
    "st_snd_nxt (streams N2 a) = ntohl (tcp_recv_ack m)" "st_status (streams N2 a) = CLOSE_WAIT"
    using handle_established_fin [OF R ok psh(2,3) _ psh(6,7), of m] rb(3) sb(3) psh(4,5,8,9) by auto
  define N' where "N' = (if tcp_flags m AND FIN_FLAG \<noteq> 0 then N2 else N1)"
  have "ng_tcp_process l4ck R ok mem junk isn mac sb0 rb0 m N = Some (0, N')"
    using ck search status flag psh(1) fin(1) l(1) by (simp add: ng_tcp_process_def ng_tcp_handle_established_def N'_def)
  then show ?thesis
    using frd(1,2) psh fin
    by (intro exI [of _ N'] exI [of _ fr] exI [of _ eof] exI [of _ ack] exI [of _ ack2]) (simp add: N'_def)
qed

text \<open>An established connection with the peer of the concrete segments.\<close>

definition demo_conn :: "fragment list stream" where
  "demo_conn = demo_stream\<lparr>st_fd := 4, st_sip := 10, st_dip := 20, st_sport := 1000, st_snd_nxt := 78, st_rcv_nxt := 501, st_status := ESTABLISHED\<rparr>"

definition demo_conn_net :: "(fragment list, offload list) net" where
  "demo_conn_net = demo_net\<lparr>streams := (\<lambda>_. demo_stream)(2 := demo_conn), tcb_set := [2, 1]\<rparr>"

lemma demo_search:
  "ng_tcp_stream_search demo_conn_net 10 20 1000 80 = Some 2"
  by (simp add: ng_tcp_stream_search_def demo_conn_net_def demo_conn_def demo_stream_def)

lemma demo_conn_simps [simp]:
  "streams demo_conn_net 2 = demo_conn" "st_status demo_conn = ESTABLISHED" "st_rcvbuf demo_conn = Some []" "st_sndbuf demo_conn = Some []"
  "st_rcv_nxt demo_conn = 501" "st_fd demo_conn = 4" "st_protocol demo_conn = IPPROTO_TCP"
  by (simp_all add: demo_conn_net_def demo_conn_def demo_stream_def)

theorem tcp_established_delivers_witness:
  "\<exists>N' fr ack. ng_tcp_process demo_ck (list_ring 4) (\<lambda>_. True) None demo_stream 0 [] None None (demo_segment 24 501 78 [104, 105]) demo_conn_net = Some (0, N')
    \<and> fr_data fr = Some [104, 105, 0] \<and> st_rcvbuf (streams N' 2) = Some [fr] \<and> st_sndbuf (streams N' 2) = Some [ack] \<and> fr_acknum ack = 503"
proof -
  let ?m = "demo_segment 24 501 78 [104, 105]"
  have h: "header_len ?m = 5" by (simp add: header_len_def demo_segment_fields)
  have p: "payload_of ?m 22 = [104, 105]"
    using demo_segment_fields(11) [of "[104, 105]" 24 501 78] by (simp add: payload_of_def h numeral_2_eq_2)
  have f: "tcp_flags ?m AND PSH_FLAG \<noteq> 0" "tcp_flags ?m AND FIN_FLAG = 0"
    by (simp_all add: demo_segment_fields PSH_FLAG_def FIN_FLAG_def)
  have l: "22 = int (unat (ntohs (ip_total_length ?m))) - 20" "length ?m = 34 + nat 22"
    by (simp_all add: demo_segment_fields)
  have s: "ng_tcp_stream_search demo_conn_net (ip_src ?m) (ip_dst ?m) (l4_src_port ?m) (l4_dst_port ?m) = Some 2"
    by (simp add: demo_segment_fields demo_search)
  have "\<forall>i. (\<lambda>_ :: nat. True) i" "length ([] :: fragment list) \<le> 4" "length ([] :: fragment list) + 2 \<le> 4" "header_len ?m * 4 < 22"
    by (simp_all add: h)
  note d = tcp_established_delivers [OF list_ring_spec [of 4] this(1) demo_segment_fields(1) s _ _ this(2,3) _ this(2,3) f(1) l this(4),
      of None demo_stream 0 "[]" None None]
  show ?thesis using d unfolding p f(2) by auto
qed

section \<open>From \<open>nsend\<close> to \<open>nrecv\<close>\<close>

lemma hostinfo_cong:
  assumes "hosts N' = hosts N" "lhost N' = lhost N" "tcb_set N' = tcb_set N"
    "\<And>c. c \<in> set (tcb_set N) \<Longrightarrow> st_fd (streams N' c) = st_fd (streams N c)"
  shows "get_hostinfo_fromfd N' fd = get_hostinfo_fromfd N fd"
proof -
  have "find (\<lambda>a. fd = st_fd (streams N' a)) (tcb_set N) = find (\<lambda>a. fd = st_fd (streams N a)) (tcb_set N)"
    by (rule find_cong) (use assms(4) in auto)
  then show ?thesis using assms(1-3) by (simp add: get_hostinfo_fromfd_def split: option.split)
qed

lemma nsend_value:
  assumes "get_hostinfo_fromfd N fd = Some (Stream a)" "st_protocol (streams N a) = IPPROTO_TCP"
    "st_sndbuf (streams N a) = Some sb" "length buf < 2 ^ 32"
  shows "nsend R True True fd buf N = Some (int (length buf),
    upd_stream a (\<lambda>s. s\<lparr>st_sndbuf := Some (ring_enqueue R (data_fragment (streams N a) buf) sb)\<rparr>) N)"
proof -
  have "unat (fr_length (data_fragment (streams N a) buf)) = length buf"
    using assms(4) by (simp add: data_fragment_def unat_of_nat)
  then have "int (unat (fr_length (data_fragment (streams N a) buf))) = int (length buf)" by (rule arg_cong)
  then show ?thesis using assms(1-3) by (simp add: nsend_def try_stream_def enq_snd_def upd_stream_def Let_def)
qed

lemma tcp_out_value:
  assumes R: "ring_spec R rinv relems rcap" and sb: "st_sndbuf (streams N a) = Some sb" "rinv sb" "relems sb = fr # frs"
    and arp: "ng_get_dst_macaddr (arpt N) (st_sip (streams N a)) = Some dstmac"
  shows "\<exists>sb'. relems sb' = frs \<and> tcp_out_stream ipck l4ck mac R msg a N =
    upd_stream a (\<lambda>s. s\<lparr>st_sndbuf := Some sb'\<rparr>) (N\<lparr>sent := sent N @ [ng_tcp_pkt ipck l4ck (st_dip (streams N a)) (st_sip (streams N a))
      (st_localmac (streams N a)) dstmac fr msg]\<rparr>)"
  using ring_dequeue_Cons [OF R sb(2,3)] sb(1) arp by (auto simp: tcp_out_stream_def)

lemma nrecv_value:
  assumes R: "ring_spec R rinv relems rcap" and rb: "st_rcvbuf (streams N a) = Some rb" "rinv rb" "relems rb = fr # frs"
    and N: "get_hostinfo_fromfd N fd = Some (Stream a)" "st_protocol (streams N a) = IPPROTO_TCP"
    and fr: "fr_data fr = Some (buf @ rest)" "unat (fr_length fr) = length buf" "length buf \<le> len" "buf \<noteq> []"
  shows "\<exists>rb'. relems rb' = frs \<and> nrecv R fd len N = Some (int (length buf), buf, upd_stream a (\<lambda>s. s\<lparr>st_rcvbuf := Some rb'\<rparr>) N)"
proof -
  have "fr_length fr \<noteq> 0" using fr(2,4) by auto
  then show ?thesis
    using ring_dequeue_Cons [OF R rb(2,3)] rb(1) N fr by (auto simp: nrecv_def Let_def)
qed

lemma data_fragment_fields [simp]:
  "fr_optlen (data_fragment s buf) = 0" "fr_data (data_fragment s buf) = Some (buf @ [0])"
  "fr_hdrlen_off (data_fragment s buf) = 0x50" "fr_tcp_flags (data_fragment s buf) = ACK_FLAG OR PSH_FLAG"
  "fr_sport (data_fragment s buf) = st_dport s" "fr_dport (data_fragment s buf) = st_sport s"
  "fr_seqnum (data_fragment s buf) = st_snd_nxt s" "fr_acknum (data_fragment s buf) = st_rcv_nxt s"
  "length buf < 2 ^ 32 \<Longrightarrow> unat (fr_length (data_fragment s buf)) = length buf"
  by (simp_all add: data_fragment_def blank_fragment_def unat_of_nat)

text \<open>What a receiver makes of a packet built from data handed to \<open>nsend\<close>.\<close>

lemma data_packet:
  assumes ck: "reads_datagram l4ck" and mac: "length srcmac = 6" "length dstmac = 6"
    and buf: "buf \<noteq> []" "length buf \<le> 65495" "54 + length buf \<le> length msg"
    and m: "m = ng_tcp_pkt ipck l4ck sip dip srcmac dstmac (data_fragment s buf) msg"
  shows "tcp_cksum_ok l4ck m" "ip_src m = sip" "ip_dst m = dip" "l4_src_port m = st_dport s" "l4_dst_port m = st_sport s"
    "tcp_flags m AND PSH_FLAG \<noteq> 0" "tcp_flags m AND FIN_FLAG = 0" "header_len m = 5"
    "int (unat (ntohs (ip_total_length m))) - 20 = 20 + int (length buf)"
    "fr_data (recv_fragment m (int (length buf))) = Some (buf @ [0])"
    "unat (fr_length (recv_fragment m (int (length buf)))) = length buf"
proof -
  have n: "length buf < 2 ^ 32" using buf(2) by simp
  note f = tcp_pkt_reads_back [OF ck mac data_fragment_fields(1,2) data_fragment_fields(9) [OF this] buf(2,3) m]
  show "tcp_cksum_ok l4ck m" "ip_src m = sip" "ip_dst m = dip" "l4_src_port m = st_dport s" "l4_dst_port m = st_sport s"
    "tcp_flags m AND PSH_FLAG \<noteq> 0" "tcp_flags m AND FIN_FLAG = 0" "int (unat (ntohs (ip_total_length m))) - 20 = 20 + int (length buf)"
    using f by (simp_all add: ACK_FLAG_def PSH_FLAG_def FIN_FLAG_def)
  show h: "header_len m = 5" using f by (simp add: header_len_def)
  show "fr_data (recv_fragment m (int (length buf))) = Some (buf @ [0])"
    "unat (fr_length (recv_fragment m (int (length buf)))) = length buf"
    using f buf(1) n by (simp_all add: recv_fragment_def h Let_def unat_of_nat)
qed

text \<open>
  C6. What one stack sends the other receives. Stream \<open>a\<close> of the stack \<open>A\<close> and stream \<open>b\<close> of the
  stack \<open>B\<close> are the two ends of an established connection. Then \<open>nsend\<close> of 1 to 65495 bytes on
  \<open>A\<close> returns their number; the next output pass over \<open>a\<close> emits one packet, when the peer's hardware
  address is known; \<open>ng_tcp_process\<close> on \<open>B\<close> accepts that packet; and the next \<open>nrecv\<close> on \<open>B\<close> with
  a buffer large enough returns exactly the bytes sent, while \<open>B\<close> acknowledges all of them. This
  holds for any rings that are bounded queues and any checksum that depends on the datagram only.
\<close>

theorem tcp_transfer:
  assumes R: "ring_spec R rinv relems rcap" and ck: "reads_datagram l4ck" and ok: "\<forall>i. ok i"
    and A: "get_hostinfo_fromfd A fdA = Some (Stream a)" "st_protocol (streams A a) = IPPROTO_TCP"
      "st_sndbuf (streams A a) = Some sa" "rinv sa" "relems sa = []" "0 < rcap sa"
      "ng_get_dst_macaddr (arpt A) (st_sip (streams A a)) = Some dstmac" "length dstmac = 6" "length (st_localmac (streams A a)) = 6"
    and B: "get_hostinfo_fromfd B fdB = Some (Stream b)" "st_protocol (streams B b) = IPPROTO_TCP" "st_status (streams B b) = ESTABLISHED"
      "ng_tcp_stream_search B (st_dip (streams A a)) (st_sip (streams A a)) (st_dport (streams A a)) (st_sport (streams A a)) = Some b"
      "st_rcvbuf (streams B b) = Some rb" "rinv rb" "relems rb = []" "2 \<le> rcap rb"
      "st_sndbuf (streams B b) = Some sb" "rinv sb" "length (relems sb) + 2 \<le> rcap sb"
    and buf: "buf \<noteq> []" "length buf \<le> 65495" "54 + length buf \<le> length msg" "length buf \<le> len"
  shows "\<exists>A1 A2 m B1 B2 sb2 ack. nsend R True True fdA buf A = Some (int (length buf), A1)
    \<and> tcp_out_stream ipck l4ck mac R msg a A1 = A2 \<and> sent A2 = sent A @ [m]
    \<and> ng_tcp_process l4ck R ok mem junk isn mac' sb0 rb0 m B = Some (0, B1)
    \<and> nrecv R fdB len B1 = Some (int (length buf), buf, B2)
    \<and> st_rcv_nxt (streams B2 b) = st_rcv_nxt (streams B b) + of_nat (length buf)
    \<and> st_sndbuf (streams B2 b) = Some sb2 \<and> relems sb2 = relems sb @ [ack]
    \<and> fr_tcp_flags ack = ACK_FLAG \<and> fr_acknum ack = st_rcv_nxt (streams B2 b)"
proof -
  define fr where "fr = data_fragment (streams A a) buf"
  define A1 where "A1 = upd_stream a (\<lambda>s. s\<lparr>st_sndbuf := Some (ring_enqueue R fr sa)\<rparr>) A"
  define m where "m = ng_tcp_pkt ipck l4ck (st_dip (streams A a)) (st_sip (streams A a)) (st_localmac (streams A a)) dstmac fr msg"
  have "length buf < 2 ^ 32" using buf(2) by simp
  then have send: "nsend R True True fdA buf A = Some (int (length buf), A1)"
    using nsend_value [OF A(1-3)] by (simp add: A1_def fr_def)
  have "rinv (ring_enqueue R fr sa)" "relems (ring_enqueue R fr sa) = fr # []"
    using ring_enqueue_ok [OF R A(4), of fr] A(5,6) by simp_all
  from tcp_out_value [OF R _ this, of A1 a dstmac ipck l4ck mac msg] A(7)
  have out: "sent (tcp_out_stream ipck l4ck mac R msg a A1) = sent A @ [m]"
    by (auto simp: A1_def m_def)
  note d = data_packet [OF ck A(9,8) buf(1-3) m_def [unfolded fr_def]]
  define g where "g = recv_fragment m (int (length buf))"
  have "20 + int (length buf) - header_len m * 4 = int (length buf)" by (simp add: d(8))
  moreover have "length (relems rb) + 2 \<le> rcap rb" using B(7,8) by simp
  ultimately obtain B1 rb' sb' ack where psh: "established_psh R ok b m (20 + int (length buf)) B = Some B1" "only_stream b B B1"
    "st_rcvbuf (streams B1 b) = Some rb'" "rinv rb'" "relems rb' = relems rb @ [g]"
    "st_sndbuf (streams B1 b) = Some sb'" "relems sb' = relems sb @ [ack]"
    "st_rcv_nxt (streams B1 b) = st_rcv_nxt (streams B b) + of_nat (length buf)"
    "fr_acknum ack = st_rcv_nxt (streams B1 b)" "fr_tcp_flags ack = ACK_FLAG"
    "st_fd (streams B1 b) = st_fd (streams B b)" "st_protocol (streams B1 b) = st_protocol (streams B b)"
    using handle_established_psh [OF R d(6) ok B(5,6) _ B(9-11) refl, of "20 + int (length buf)"] by (auto simp: g_def)
  have process: "ng_tcp_process l4ck R ok mem junk isn mac' sb0 rb0 m B = Some (0, B1)"
    using d B(3,4) psh(1) by (simp add: ng_tcp_process_def ng_tcp_handle_established_def Let_def)
  have "st_fd (streams B1 c) = st_fd (streams B c)" for c
    using psh(2,11) by (cases "c = b") (simp_all add: only_stream_def)
  then have host: "get_hostinfo_fromfd B1 fdB = Some (Stream b)"
    using hostinfo_cong [of B1 B fdB] psh(2) B(1) by (simp add: only_stream_def)
  have gd: "fr_data g = Some (buf @ [0])" "unat (fr_length g) = length buf"
    using d(10,11) by (simp_all add: g_def)
  obtain rb2 where "nrecv R fdB len B1 = Some (int (length buf), buf, upd_stream b (\<lambda>s. s\<lparr>st_rcvbuf := Some rb2\<rparr>) B1)"
    using nrecv_value [OF R psh(3,4) _ host _ gd buf(4,1)] psh(5,12) B(2,7) by auto
  then show ?thesis
    using send out process psh(6-10)
    by (intro exI [of _ A1] exI [of _ "tcp_out_stream ipck l4ck mac R msg a A1"] exI [of _ m] exI [of _ B1]
        exI [of _ "upd_stream b (\<lambda>s. s\<lparr>st_rcvbuf := Some rb2\<rparr>) B1"] exI [of _ sb'] exI [of _ ack]) simp
qed

text \<open>The other end of the concrete connection, with the peer in its ARP table.\<close>

definition demo_peer_net :: "(fragment list, offload list) net" where
  "demo_peer_net = demo_net\<lparr>arpt := snd (ng_arp_entry_insert True 20 (replicate 6 2) None), tcb_set := [5],
     streams := \<lambda>_. demo_conn\<lparr>st_fd := 6, st_sip := 20, st_dip := 10, st_sport := 80, st_dport := 1000\<rparr>\<rparr>"

theorem tcp_transfer_witness:
  "\<exists>A1 A2 m B1 B2. nsend (list_ring 4) True True 6 [104, 105] demo_peer_net = Some (2, A1)
    \<and> tcp_out_stream (\<lambda>_. 0) demo_ck [] (list_ring 4) (replicate 200 0) 5 A1 = A2 \<and> sent A2 = [m]
    \<and> ng_tcp_process demo_ck (list_ring 4) (\<lambda>_. True) None demo_stream 0 [] None None m demo_conn_net = Some (0, B1)
    \<and> nrecv (list_ring 4) 4 1024 B1 = Some (2, [104, 105], B2)"
proof -
  define s where "s = demo_conn\<lparr>st_fd := 6, st_sip := 20, st_dip := 10, st_sport := 80, st_dport := 1000\<rparr>"
  have A: "get_hostinfo_fromfd demo_peer_net 6 = Some (Stream 5)" "streams demo_peer_net 5 = s" "sent demo_peer_net = []"
    "ng_get_dst_macaddr (arpt demo_peer_net) 20 = Some (replicate 6 2)"
    by (simp_all add: get_hostinfo_fromfd_def demo_peer_net_def demo_net_def s_def ng_get_dst_macaddr_def ng_arp_entry_insert_def arp_table_instance_def)
  have s: "st_protocol s = IPPROTO_TCP" "st_sndbuf s = Some []" "st_sip s = 20" "st_dip s = 10" "st_sport s = 80" "st_dport s = 1000"
    "length (st_localmac s) = 6"
    by (simp_all add: s_def demo_conn_def demo_stream_def)
  have B: "get_hostinfo_fromfd demo_conn_net 4 = Some (Stream 2)"
    by (simp add: get_hostinfo_fromfd_def demo_conn_net_def demo_net_def demo_conn_def)
  have n: "length [104, 105 :: uint8] = 2" by simp
  show ?thesis
    using tcp_transfer [OF list_ring_spec [of 4] demo_ck_ok, of "\<lambda>_. True" demo_peer_net 6 5 "[]" "replicate 6 2" demo_conn_net 4 2 "[]" "[]"
        "[104, 105]" "replicate 200 0" 1024 "\<lambda>_. 0" "[]" None demo_stream 0 "[]" None None]
    unfolding n A s B by (simp add: demo_search s) metis
qed

section \<open>Two defects of the sockets\<close>

text \<open>
  A short buffer breaks the byte stream. When the next fragment holds more bytes than the buffer
  of \<open>nrecv\<close>, the buffer is filled, but the result is the number of bytes left over instead of the
  number written, and the left-over bytes go to the end of the receive ring, behind the fragments that
  arrived after them.
\<close>

theorem nrecv_short_buffer:
  assumes R: "ring_spec R rinv relems rcap" and rb: "st_rcvbuf (streams N a) = Some rb" "rinv rb" "relems rb = fr # frs"
    and N: "get_hostinfo_fromfd N fd = Some (Stream a)" "st_protocol (streams N a) = IPPROTO_TCP"
    and fr: "fr_data fr = Some (x @ y @ rest)" "unat (fr_length fr) = length x + length y" "length x = len" "y \<noteq> []"
  shows "\<exists>N' rb' fr'. nrecv R fd len N = Some (int (length y), x, N')
    \<and> st_rcvbuf (streams N' a) = Some rb' \<and> relems rb' = frs @ [fr']
    \<and> fr_data fr' = Some (y @ rest) \<and> unat (fr_length fr') = length y"
proof -
  obtain r1 where r1: "ring_dequeue R rb = Some (fr, r1)" "rinv r1" "relems r1 = frs" "rcap r1 = rcap rb"
    using ring_dequeue_Cons [OF R rb(2,3)] by blast
  have "length (relems rb) \<le> rcap rb"
    using R rb(2) bounded_fifo.bounded [of rinv relems rcap "rg_full R" "rg_none R" "rg_push R" "rg_pop R" rb] by (simp add: ring_spec_def)
  then have room: "length (relems r1) < rcap r1" using r1(3,4) rb(3) by simp
  define fr' where "fr' = fr\<lparr>fr_data := Some (y @ rest), fr_length := fr_length fr - of_nat len\<rparr>"
  have le: "len < unat (fr_length fr)" using fr(2-4) by (cases y) simp_all
  moreover have "unat (fr_length fr) < 2 ^ 32" using unsigned_less [of "fr_length fr"] by simp
  ultimately have "unat (fr_length fr - of_nat len) = unat (fr_length fr) - len"
    by (subst unat_sub) (simp_all add: word_le_nat_alt unat_of_nat)
  then have l': "unat (fr_length fr') = length y" using fr(2,3) by (simp add: fr'_def)
  then have "int (unat (fr_length fr')) = int (length y)" by (rule arg_cong)
  then show ?thesis
    using N r1 rb(1) le fr(1,3) l' ring_enqueue_ok(3) [OF R r1(2) room, of fr']
    by (simp add: nrecv_def try_stream_def enq_rcv_def Let_def fr'_def)
qed

theorem nrecv_short_buffer_witness:
  "\<exists>N' fr'. nrecv (list_ring 4) 4 1 (upd_stream 2 (\<lambda>s. s\<lparr>st_rcvbuf := Some [blank_fragment\<lparr>fr_data := Some [1, 2, 3, 4, 0], fr_length := 4\<rparr>,
      blank_fragment\<lparr>fr_data := Some [5, 0], fr_length := 1\<rparr>]\<rparr>) demo_conn_net) = Some (3, [1], N')
    \<and> st_rcvbuf (streams N' 2) = Some [blank_fragment\<lparr>fr_data := Some [5, 0], fr_length := 1\<rparr>, fr'] \<and> fr_data fr' = Some [2, 3, 4, 0]"
proof -
  define N where "N = upd_stream 2 (\<lambda>s. s\<lparr>st_rcvbuf := Some [blank_fragment\<lparr>fr_data := Some [1, 2, 3, 4, 0], fr_length := 4\<rparr>,
      blank_fragment\<lparr>fr_data := Some [5, 0], fr_length := 1\<rparr>]\<rparr>) demo_conn_net"
  have "get_hostinfo_fromfd N 4 = Some (Stream 2)" "st_protocol (streams N 2) = IPPROTO_TCP"
    "st_rcvbuf (streams N 2) = Some [blank_fragment\<lparr>fr_data := Some [1, 2, 3, 4, 0], fr_length := 4\<rparr>,
      blank_fragment\<lparr>fr_data := Some [5, 0], fr_length := 1\<rparr>]"
    by (simp_all add: N_def get_hostinfo_fromfd_def demo_conn_net_def demo_net_def demo_conn_def demo_stream_def)
  from nrecv_short_buffer [OF list_ring_spec [of 4] this(3) _ refl this(1,2), of "[1]" "[2, 3, 4]" "[0]" 1]
  show ?thesis unfolding N_def [symmetric] by auto
qed

lemma find_up_to:
  assumes "find P (us @ v # vs) = Some v" "\<And>x. x \<in> set (us @ [v]) \<Longrightarrow> Q x = P x"
  shows "find Q (us @ v # vs) = Some v"
  using assms by (induction us) (auto simp: find_Some_iff split: if_splits)

text \<open>
  A closed descriptor can capture a new connection. \<open>nclose\<close> releases the descriptor of a stream
  but leaves it in the table, with its descriptor, until the peer acknowledges the FIN. If \<open>naccept\<close>
  then gives the same number to a pending connection that stands behind it in the table, every later
  call with that number reaches the closed stream, which is in LAST_ACK, and not the new connection.
\<close>

theorem closed_descriptor_shadows:
  assumes fd: "get_hostinfo_fromfd N d = Some (Stream b)" "st_protocol (streams N b) = IPPROTO_TCP" "st_status (streams N b) \<noteq> LISTEN"
      "st_sndbuf (streams N b) = Some sb" "set_fd_frombitmap d (fd_table N) = Some (0, t)" "fst (get_fd_frombitmap t) = d" "d \<noteq> -1"
    and table: "tcb_set N = xs @ b # ys" "a \<in> set ys" "a \<notin> set xs" "a \<noteq> b"
    and listener: "get_hostinfo_fromfd N sockfd = Some (Stream l)" "st_protocol (streams N l) = IPPROTO_TCP" "l \<noteq> b"
    and pending: "get_accept_tcb N (st_dport (streams N l)) = Some a"
  shows "\<exists>N1 N2 port ip. nclose R True junk d N = Some (0, N1) \<and> naccept sockfd N1 = Some (d, port, ip, N2)
    \<and> st_fd (streams N2 a) = d \<and> get_hostinfo_fromfd N2 d = Some (Stream b) \<and> st_status (streams N2 b) = LAST_ACK"
proof -
  define s where "s = (streams N b)\<lparr>st_sndbuf := Some (ring_enqueue R (fin_fragment junk (streams N b)) sb), st_status := LAST_ACK\<rparr>"
  define N1 where "N1 = (upd_stream b (\<lambda>_. s) N)\<lparr>fd_table := t\<rparr>"
  define N2 where "N2 = upd_stream a (\<lambda>s. s\<lparr>st_fd := d\<rparr>) (N1\<lparr>fd_table := snd (get_fd_frombitmap t)\<rparr>)"
  have close: "nclose R True junk d N = Some (0, N1)"
    using fd(1-5) by (simp add: nclose_def try_stream_def enq_snd_def release_fd_def N1_def s_def upd_stream_def)
  have fds: "st_fd (streams N1 c) = st_fd (streams N c)" "st_dport (streams N1 c) = st_dport (streams N c)" for c
    by (simp_all add: N1_def s_def)
  have "get_hostinfo_fromfd N1 sockfd = Some (Stream l)"
    using hostinfo_cong [of N1 N sockfd] listener(1) fds by (simp add: N1_def)
  moreover have "get_accept_tcb N1 (st_dport (streams N l)) = Some a"
    using pending by (simp add: get_accept_tcb_def fds) (simp add: N1_def)
  moreover have "streams N1 l = streams N l" "fd_table N1 = t" using listener(3) by (simp_all add: N1_def)
  ultimately have accept: "naccept sockfd N1 = Some (d, st_sport (streams N2 a), st_sip (streams N2 a), N2)"
    using listener(2) fd(6) by (simp add: naccept_def Let_def N2_def)
  have h: "find (\<lambda>c. d = lh_fd (hosts N c)) (lhost N) = None" and f: "find (\<lambda>c. d = st_fd (streams N c)) (xs @ b # ys) = Some b"
    using fd(1) table(1) by (auto simp: get_hostinfo_fromfd_def split: option.splits)
  have "st_fd (streams N2 c) = st_fd (streams N c)" if "c \<in> set (xs @ [b])" for c
    using that table(3,4) fds by (auto simp: N2_def)
  then have "find (\<lambda>c. d = st_fd (streams N2 c)) (xs @ b # ys) = Some b"
    by (intro find_up_to [OF f]) simp
  then have "get_hostinfo_fromfd N2 d = Some (Stream b)"
    using table(1) h by (simp add: get_hostinfo_fromfd_def N2_def N1_def)
  then show ?thesis using close accept table(4)
    by (intro exI [of _ N1] exI [of _ N2] exI) (auto simp: N2_def N1_def s_def)
qed

definition demo_shadow_net :: "(fragment list, offload list) net" where
  "demo_shadow_net = demo_net\<lparr>fd_table := 24 # replicate 1023 0, tcb_set := [3, 2, 1],
     streams := (\<lambda>_. demo_stream)(3 := demo_conn, 2 := demo_conn\<lparr>st_fd := -1, st_sport := 1001\<rparr>)\<rparr>"

theorem closed_descriptor_shadows_witness:
  "\<exists>N1 N2 port ip. nclose (list_ring 4) True blank_fragment 4 demo_shadow_net = Some (0, N1) \<and> naccept 3 N1 = Some (4, port, ip, N2)
    \<and> st_fd (streams N2 2) = 4 \<and> get_hostinfo_fromfd N2 4 = Some (Stream 3)"
proof -
  define t :: "uint8 list" where "t = 8 # replicate 1023 0"
  have "[DEFAULT_FD_NUM..<MAX_FD_COUNT] = 3 # 4 # [5..<1024]"
    unfolding DEFAULT_FD_NUM_def MAX_FD_COUNT_def by (simp only: upt_conv_Cons [of 3 1024] upt_conv_Cons [of 4 1024]) simp
  then have g: "fst (get_fd_frombitmap t) = 4"
    unfolding get_fd_frombitmap_def by (simp add: t_def fd_bit_def del: upt_rec_numeral)
  have st: "streams demo_shadow_net 3 = demo_conn" "st_protocol (streams demo_shadow_net 1) = IPPROTO_TCP"
    "set_fd_frombitmap 4 (fd_table demo_shadow_net) = Some (0, t)" "tcb_set demo_shadow_net = [] @ 3 # [2, 1]"
    "get_hostinfo_fromfd demo_shadow_net 4 = Some (Stream 3)" "get_hostinfo_fromfd demo_shadow_net 3 = Some (Stream 1)"
    "get_accept_tcb demo_shadow_net (st_dport (streams demo_shadow_net 1)) = Some 2"
    by (simp_all add: demo_shadow_net_def demo_net_def demo_stream_def demo_conn_def get_hostinfo_fromfd_def
        get_accept_tcb_def set_fd_frombitmap_def MAX_FD_COUNT_def fd_bit_def t_def)
  show ?thesis
    using closed_descriptor_shadows [of demo_shadow_net 4 3 "[]" t "[]" "[2, 1]" 2 3 1 "list_ring 4" blank_fragment] st g
    by simp metis
qed

end
