(* ===== verification/NetInvariant.thy ===== *)
theory NetInvariant
  imports TcpBehaviour
begin

text \<open>
  The network stack as a transition system: the sockets' calls, received frames and the output
  passes are its steps, in any order. Every reachable state satisfies \<open>net_ok\<close>.
\<close>

section \<open>The invariant\<close>

text \<open>The stack only plays the server: the states of an active opener or closer never occur.\<close>

definition server_states :: "tcp_status set" where
  "server_states = {CLOSED, LISTEN, SYN_RCVD, ESTABLISHED, CLOSE_WAIT, LAST_ACK}"

definition stream_ok :: "('r \<Rightarrow> bool) \<Rightarrow> 'r stream \<Rightarrow> bool" where
  "stream_ok rinv s \<longleftrightarrow> st_protocol s = IPPROTO_TCP \<and> st_status s \<in> server_states \<and> -1 \<le> st_fd s \<and> st_fd s < 1024
     \<and> pred_option rinv (st_sndbuf s) \<and> pred_option rinv (st_rcvbuf s)"

definition host_ok :: "('q \<Rightarrow> bool) \<Rightarrow> 'q localhost \<Rightarrow> bool" where
  "host_ok qinv h \<longleftrightarrow> lh_protocol h = IPPROTO_UDP \<and> -1 \<le> lh_fd h \<and> lh_fd h < 1024 \<and> qinv (lh_sndbuf h) \<and> qinv (lh_rcvbuf h)"

definition net_ok :: "('r \<Rightarrow> bool) \<Rightarrow> ('q \<Rightarrow> bool) \<Rightarrow> ('r, 'q) net \<Rightarrow> bool" where
  "net_ok rinv qinv N \<longleftrightarrow> distinct (tcb_set N) \<and> distinct (lhost N) \<and> length (fd_table N) = 1024 \<and> arp_ok (arpt N)
     \<and> (\<forall>a \<in> set (tcb_set N). stream_ok rinv (streams N a)) \<and> (\<forall>a \<in> set (lhost N). host_ok qinv (hosts N a))"

section \<open>Steps\<close>

text \<open>
  \<open>R\<close> and \<open>U\<close> are the rings of streams and of hosts, \<open>rinv\<close> and \<open>qinv\<close> what \<open>rte_ring_create\<close>
  establishes; \<open>rte_malloc\<close> returns an address that is not in use.
\<close>

inductive net_step ::
    "('r, fragment) ring_ops \<Rightarrow> ('q, offload) ring_ops \<Rightarrow> ('r \<Rightarrow> bool) \<Rightarrow> ('q \<Rightarrow> bool) \<Rightarrow> ('r, 'q) net \<Rightarrow> ('r, 'q) net \<Rightarrow> bool"
  for R :: "('r, fragment) ring_ops" and U :: "('q, offload) ring_ops" and rinv :: "'r \<Rightarrow> bool" and qinv :: "'q \<Rightarrow> bool" where
  socket: "nsocket mem trcv tsnd urcv usnd type N = (fd, N') \<Longrightarrow> \<forall>a. mem = Some a \<longrightarrow> a \<notin> set (tcb_set N) \<union> set (lhost N) \<Longrightarrow>
    pred_option rinv trcv \<Longrightarrow> pred_option rinv tsnd \<Longrightarrow> pred_option qinv urcv \<Longrightarrow> pred_option qinv usnd \<Longrightarrow> net_step R U rinv qinv N N'"
| bind: "nbind mac fd port ip N = (r, N') \<Longrightarrow> net_step R U rinv qinv N N'"
| listen: "nlisten fd N = (r, N') \<Longrightarrow> net_step R U rinv qinv N N'"
| accept: "naccept fd N = Some (r, port, ip, N') \<Longrightarrow> net_step R U rinv qinv N N'"
| send: "nsend R m1 m2 fd buf N = Some (r, N') \<Longrightarrow> net_step R U rinv qinv N N'"
| recv: "nrecv R fd len N = Some (r, buf, N') \<Longrightarrow> net_step R U rinv qinv N N'"
| recvfrom: "nrecvfrom U beyond fd len N = Some (r, buf, port, ip, N') \<Longrightarrow> net_step R U rinv qinv N N'"
| sendto: "nsendto U m1 m2 proto buf ip port fd N = Some (r, N') \<Longrightarrow> net_step R U rinv qinv N N'"
| close: "nclose R m1 memory fd N = Some (r, N') \<Longrightarrow> net_step R U rinv qinv N N'"
| frame: "pkt_process_frame l4ck R U m1 ok mem memory isn mac sb rb m N = Some N' \<Longrightarrow>
    \<forall>a. mem = Some a \<longrightarrow> a \<notin> set (tcb_set N) \<union> set (lhost N) \<Longrightarrow> pred_option rinv sb \<Longrightarrow> pred_option rinv rb \<Longrightarrow> net_step R U rinv qinv N N'"
| udp_output: "udp_out ipck l4ck mac U beyond msg N = N' \<Longrightarrow> net_step R U rinv qinv N N'"
| tcp_output: "ng_tcp_out ipck l4ck mac R msg N = N' \<Longrightarrow> net_step R U rinv qinv N N'"
| arp_sweep: "arp_request_timer_cb mac ip msg N = N' \<Longrightarrow> net_step R U rinv qinv N N'"

section \<open>Preservation\<close>

lemma net_ok_upd_stream:
  assumes "net_ok rinv qinv N" "a \<in> set (tcb_set N) \<Longrightarrow> stream_ok rinv (streams N a) \<Longrightarrow> stream_ok rinv (f (streams N a))"
  shows "net_ok rinv qinv (upd_stream a f N)"
  using assms by (auto simp: net_ok_def)

lemma net_ok_upd_host:
  assumes "net_ok rinv qinv N" "a \<in> set (lhost N) \<Longrightarrow> host_ok qinv (hosts N a) \<Longrightarrow> host_ok qinv (f (hosts N a))"
  shows "net_ok rinv qinv (upd_host a f N)"
  using assms by (auto simp: net_ok_def)

lemma net_ok_log [simp]:
  "net_ok rinv qinv (N\<lparr>woken := w\<rparr>) \<longleftrightarrow> net_ok rinv qinv N" "net_ok rinv qinv (N\<lparr>sent := out\<rparr>) \<longleftrightarrow> net_ok rinv qinv N"
  by (simp_all add: net_ok_def)

lemma net_ok_fd_table: "net_ok rinv qinv N \<Longrightarrow> length t = 1024 \<Longrightarrow> net_ok rinv qinv (N\<lparr>fd_table := t\<rparr>)"
  by (simp add: net_ok_def)

lemma net_ok_add_stream:
  "net_ok rinv qinv N \<Longrightarrow> a \<notin> set (tcb_set N) \<Longrightarrow> stream_ok rinv s \<Longrightarrow>
     net_ok rinv qinv (N\<lparr>streams := (streams N)(a := s), tcb_set := a # tcb_set N\<rparr>)"
  by (auto simp: net_ok_def)

lemma net_ok_add_host:
  "net_ok rinv qinv N \<Longrightarrow> a \<notin> set (lhost N) \<Longrightarrow> host_ok qinv h \<Longrightarrow>
     net_ok rinv qinv (N\<lparr>hosts := (hosts N)(a := h), lhost := a # lhost N\<rparr>)"
  by (auto simp: net_ok_def)

lemma net_ok_remove:
  "net_ok rinv qinv N \<Longrightarrow> net_ok rinv qinv (N\<lparr>tcb_set := remove1 a (tcb_set N)\<rparr>)"
  "net_ok rinv qinv N \<Longrightarrow> net_ok rinv qinv (N\<lparr>lhost := remove1 a (lhost N)\<rparr>)"
  by (auto simp: net_ok_def dest: notin_set_remove1)

lemma net_okD:
  "net_ok rinv qinv N \<Longrightarrow> length (fd_table N) = 1024" "net_ok rinv qinv N \<Longrightarrow> a \<in> set (tcb_set N) \<Longrightarrow> stream_ok rinv (streams N a)"
  "net_ok rinv qinv N \<Longrightarrow> a \<in> set (lhost N) \<Longrightarrow> host_ok qinv (hosts N a)"
  by (simp_all add: net_ok_def)

lemma hostinfo_stream:
  assumes "get_hostinfo_fromfd N fd = Some (Stream a)"
  shows "a \<in> set (tcb_set N)"
proof -
  have "find (\<lambda>a. fd = st_fd (streams N a)) (tcb_set N) = Some a"
    using assms by (simp add: get_hostinfo_fromfd_def split: option.splits)
  from find_SomeD [OF this] show ?thesis by (rule conjunct1)
qed

lemma hostinfo_host:
  assumes "get_hostinfo_fromfd N fd = Some (Host a)"
  shows "a \<in> set (lhost N)"
proof -
  have "find (\<lambda>a. fd = lh_fd (hosts N a)) (lhost N) = Some a"
    using assms by (simp add: get_hostinfo_fromfd_def split: option.splits)
  from find_SomeD [OF this] show ?thesis by (rule conjunct1)
qed

lemma ring_dequeue_inv: "ring_spec R rinv relems rcap \<Longrightarrow> rinv r \<Longrightarrow> ring_dequeue R r = Some (x, r') \<Longrightarrow> rinv r'"
  by (drule (2) ring_dequeue_Some) simp

lemma try_snd_ok:
  assumes "ring_spec R rinv relems rcap" "net_ok rinv qinv N" "try_stream a (\<lambda>s. enq_snd R (g s) s) N = Some N'"
  shows "net_ok rinv qinv N'"
  using assms ring_enqueue_ok(1) [OF assms(1)]
  by (auto simp: try_stream_def enq_snd_def stream_ok_def intro!: net_ok_upd_stream)

lemma try_rcv_ok:
  assumes "ring_spec R rinv relems rcap" "net_ok rinv qinv N" "try_stream a (enq_rcv R fr) N = Some N'"
  shows "net_ok rinv qinv N'"
  using assms ring_enqueue_ok(1) [OF assms(1)]
  by (auto simp: try_stream_def enq_rcv_def stream_ok_def intro!: net_ok_upd_stream)

lemma nsocket_ok:
  assumes "net_ok rinv qinv N" "nsocket mem trcv tsnd urcv usnd type N = (fd, N')" "\<forall>a. mem = Some a \<longrightarrow> a \<notin> set (tcb_set N) \<union> set (lhost N)"
    "pred_option rinv trcv" "pred_option rinv tsnd" "pred_option qinv urcv" "pred_option qinv usnd"
  shows "net_ok rinv qinv N'"
proof -
  obtain d t where d: "get_fd_frombitmap (fd_table N) = (d, t)" by fastforce
  note r = get_fd_range [OF _ d]
  have N: "net_ok rinv qinv (N\<lparr>fd_table := t\<rparr>)"
    using assms(1) r by (simp add: net_ok_fd_table net_okD)
  have d: "-1 \<le> d" "d < 1024" using assms(1) r by (simp_all add: net_okD)
  note add = net_ok_add_stream [OF N, simplified] net_ok_add_host [OF N, simplified]
  show ?thesis
    using assms(2-7) N d unfolding nsocket_def \<open>get_fd_frombitmap (fd_table N) = (d, t)\<close>
    by (auto simp: Let_def stream_ok_def host_ok_def server_states_def split: sock_type.splits option.splits intro!: add)
qed

lemma nbind_ok: "net_ok rinv qinv N \<Longrightarrow> nbind mac fd port ip N = (r, N') \<Longrightarrow> net_ok rinv qinv N'"
  by (auto simp: nbind_def stream_ok_def host_ok_def server_states_def split: option.splits hostinfo.splits
      intro!: net_ok_upd_stream net_ok_upd_host)

lemma nlisten_ok: "net_ok rinv qinv N \<Longrightarrow> nlisten fd N = (r, N') \<Longrightarrow> net_ok rinv qinv N'"
  by (auto simp: nlisten_def stream_ok_def server_states_def split: option.splits hostinfo.splits intro!: net_ok_upd_stream)

lemma naccept_ok:
  assumes "net_ok rinv qinv N" "naccept fd N = Some (r, port, ip, N')"
  shows "net_ok rinv qinv N'"
proof -
  obtain d t where d: "get_fd_frombitmap (fd_table N) = (d, t)" by fastforce
  have r: "-1 \<le> d" "d < 1024" "length t = 1024" using get_fd_range [OF net_okD(1) [OF assms(1)] d] by simp_all
  have "net_ok rinv qinv (upd_stream a (\<lambda>s. s\<lparr>st_fd := d\<rparr>) (N\<lparr>fd_table := t\<rparr>))" for a
    by (rule net_ok_upd_stream [OF net_ok_fd_table [OF assms(1) r(3)]]) (use r in \<open>simp add: stream_ok_def\<close>)
  then show ?thesis
    using assms by (auto simp: naccept_def d Let_def split: option.splits hostinfo.splits if_splits)
qed

lemma nsend_ok:
  "ring_spec R rinv relems rcap \<Longrightarrow> net_ok rinv qinv N \<Longrightarrow> nsend R m1 m2 fd buf N = Some (r, N') \<Longrightarrow> net_ok rinv qinv N'"
  by (auto simp: nsend_def Let_def split: option.splits hostinfo.splits if_splits intro: try_snd_ok)

lemma nrecv_ok:
  assumes R: "ring_spec R rinv relems rcap" and N: "net_ok rinv qinv N" and r: "nrecv R fd len N = Some (r, buf, N')"
  shows "net_ok rinv qinv N'"
proof -
  have upd: "net_ok rinv qinv (upd_stream a (\<lambda>s. s\<lparr>st_rcvbuf := Some q'\<rparr>) N)"
    if "st_rcvbuf (streams N a) = Some q" "ring_dequeue R q = Some (x, q')" for a q q' x
    by (rule net_ok_upd_stream [OF N]) (use that ring_dequeue_inv [OF R _ that(2)] in \<open>simp add: stream_ok_def\<close>)
  show ?thesis
    using r N unfolding nrecv_def
    by (auto simp: Let_def split: option.splits hostinfo.splits if_splits bind_splits dest!: upd intro: try_rcv_ok [OF R])
qed

lemma nrecvfrom_ok:
  assumes U: "ring_spec U qinv qelems qcap" and N: "net_ok rinv qinv N"
    and r: "nrecvfrom U beyond fd len N = Some (r, buf, port, ip, N')"
  shows "net_ok rinv qinv N'"
proof -
  have upd: "net_ok rinv qinv (upd_host a (\<lambda>h. h\<lparr>lh_rcvbuf := q'\<rparr>) N)"
      "net_ok rinv qinv (upd_host a (\<lambda>h. h\<lparr>lh_rcvbuf := ring_enqueue U y q'\<rparr>) N)"
    if "ring_dequeue U (lh_rcvbuf (hosts N a)) = Some (x, q')" for a q' x y
    by (rule net_ok_upd_host [OF N]; use ring_dequeue_inv [OF U _ that] ring_enqueue_ok(1) [OF U] in \<open>simp add: host_ok_def\<close>)+
  show ?thesis
    using r N unfolding nrecvfrom_def
    by (auto simp: Let_def split: option.splits hostinfo.splits if_splits bind_splits dest: upd)
qed

lemma nsendto_ok:
  assumes U: "ring_spec U qinv qelems qcap" and N: "net_ok rinv qinv N"
    and r: "nsendto U m1 m2 proto buf ip port fd N = Some (r, N')"
  shows "net_ok rinv qinv N'"
proof -
  have "net_ok rinv qinv (upd_host a (\<lambda>h. h\<lparr>lh_sndbuf := ring_enqueue U y (lh_sndbuf h)\<rparr>) N)" for a y
    by (rule net_ok_upd_host [OF N]) (use ring_enqueue_ok(1) [OF U] in \<open>simp add: host_ok_def\<close>)
  then show ?thesis
    using r N unfolding nsendto_def by (auto simp: Let_def split: option.splits hostinfo.splits if_splits)
qed

lemma release_fd_ok: "net_ok rinv qinv N \<Longrightarrow> release_fd fd N = Some N' \<Longrightarrow> net_ok rinv qinv N'"
  by (auto simp: release_fd_def set_fd_frombitmap_def net_okD split: if_splits intro!: net_ok_fd_table)

lemma nclose_ok:
  assumes R: "ring_spec R rinv relems rcap" and N: "net_ok rinv qinv N" and r: "nclose R m1 memory fd N = Some (r, N')"
  shows "net_ok rinv qinv N'"
proof -
  consider (same) "N' = N" | (udp) a where "release_fd fd (N\<lparr>lhost := remove1 a (lhost N)\<rparr>) = Some N'"
    | (listener) a where "N' = N\<lparr>tcb_set := remove1 a (tcb_set N)\<rparr>"
    | (conn) a N1 where "try_stream a (\<lambda>s. enq_snd R (fin_fragment memory s) s) N = Some N1"
        "release_fd fd (upd_stream a (\<lambda>s. s\<lparr>st_status := LAST_ACK\<rparr>) N1) = Some N'"
    using r unfolding nclose_def by (fastforce split: option.splits hostinfo.splits if_splits bind_splits)
  then show ?thesis
  proof cases
    case same
    then show ?thesis using N by simp
  next
    case udp
    from release_fd_ok [OF net_ok_remove(2) [OF N] this] show ?thesis .
  next
    case listener
    then show ?thesis using net_ok_remove(1) [OF N] by simp
  next
    case conn
    have "net_ok rinv qinv (upd_stream a (\<lambda>s. s\<lparr>st_status := LAST_ACK\<rparr>) N1)"
      by (rule net_ok_upd_stream [OF try_snd_ok [OF R N conn(1)]]) (simp add: stream_ok_def server_states_def)
    from release_fd_ok [OF this conn(2)] show ?thesis .
  qed
qed

lemma udp_process_ok:
  assumes U: "ring_spec U qinv qelems qcap" and N: "net_ok rinv qinv N"
  shows "net_ok rinv qinv (snd (udp_process U ok m N))"
proof -
  have "net_ok rinv qinv (upd_host a (\<lambda>h. h\<lparr>lh_rcvbuf := ring_enqueue U y (lh_rcvbuf h)\<rparr>) N)" for a y
    by (rule net_ok_upd_host [OF N]) (use ring_enqueue_ok(1) [OF U] in \<open>simp add: host_ok_def\<close>)
  then show ?thesis
    using N unfolding udp_process_def by (auto simp: Let_def split: option.splits)
qed

lemma handle_listen_ok:
  assumes R: "ring_spec R rinv relems rcap" and N: "net_ok rinv qinv N"
    and r: "ng_tcp_handle_listen R ok mem memory isn mac sb rb a m N = Some N'"
    and fresh: "\<forall>b. mem = Some b \<longrightarrow> b \<notin> set (tcb_set N)" and rings: "pred_option rinv sb" "pred_option rinv rb"
  shows "net_ok rinv qinv N'"
proof -
  define syn where "syn = ng_tcp_stream_create memory isn mac sb rb (ip_src m) (ip_dst m) (l4_src_port m) (l4_dst_port m)"
  consider "N' = N" | b where "mem = Some b" "N' = N\<lparr>streams := (streams N)(b := syn), tcb_set := b # tcb_set N\<rparr>"
    | b N1 where "mem = Some b" "try_stream b (enq_snd R (synack_fragment syn m)) (upd_stream b (\<lambda>s. s\<lparr>st_rcv_nxt := ntohl (tcp_sent_seq m) + 1\<rparr>)
          (N\<lparr>streams := (streams N)(b := syn), tcb_set := b # tcb_set N\<rparr>)) = Some N1"
        "N' = upd_stream b (\<lambda>s. s\<lparr>st_status := SYN_RCVD\<rparr>) N1"
    using r unfolding ng_tcp_handle_listen_def syn_def [symmetric] by (auto simp: Let_def split: if_splits bind_splits)
  moreover have "stream_ok rinv syn"
    using rings by (simp add: syn_def ng_tcp_stream_create_def stream_ok_def server_states_def)
  then have add: "net_ok rinv qinv (N\<lparr>streams := (streams N)(b := syn), tcb_set := b # tcb_set N\<rparr>)" if "mem = Some b" for b
    using fresh that by (intro net_ok_add_stream [OF N]) simp_all
  ultimately show ?thesis
  proof cases
    case (3 b N1)
    have "net_ok rinv qinv (upd_stream b (\<lambda>s. s\<lparr>st_rcv_nxt := ntohl (tcp_sent_seq m) + 1\<rparr>)
          (N\<lparr>streams := (streams N)(b := syn), tcb_set := b # tcb_set N\<rparr>))"
      by (rule net_ok_upd_stream [OF add [OF 3(1)]]) (simp add: stream_ok_def)
    note n1 = try_snd_ok [OF R this 3(2)]
    show ?thesis unfolding 3(3) by (rule net_ok_upd_stream [OF n1]) (simp add: stream_ok_def server_states_def)
  qed (use N in auto)
qed

lemma enqueue_recvbuffer_ok:
  assumes R: "ring_spec R rinv relems rcap" and N: "net_ok rinv qinv N" and r: "ng_tcp_enqueue_recvbuffer R m1 m2 a m l N = Some N'"
  shows "net_ok rinv qinv N'"
  using r N unfolding ng_tcp_enqueue_recvbuffer_def
  by (auto simp: Let_def split: if_splits bind_splits dest: try_rcv_ok [OF R N])

lemma send_ackpkt_ok:
  assumes R: "ring_spec R rinv relems rcap" and N: "net_ok rinv qinv N" and r: "ng_tcp_send_ackpkt R m1 a m N = Some N'"
  shows "net_ok rinv qinv N'"
  using r N unfolding ng_tcp_send_ackpkt_def by (auto split: if_splits dest: try_snd_ok [OF R N])

lemma established_psh_ok:
  assumes R: "ring_spec R rinv relems rcap" and N: "net_ok rinv qinv N" and r: "established_psh R ok a m l N = Some N'"
  shows "net_ok rinv qinv N'"
proof -
  obtain N1 where n1: "ng_tcp_enqueue_recvbuffer R (ok 0) (ok 1) a m l N = Some N1"
    and r': "ng_tcp_send_ackpkt R (ok 2) a m (upd_stream a (\<lambda>s. s\<lparr>st_rcv_nxt := st_rcv_nxt s + word_of_int (l - header_len m * 4),
                                    st_snd_nxt := ntohl (tcp_recv_ack m)\<rparr>) N1) = Some N'"
    using r by (auto simp: established_psh_def Let_def split: bind_splits)
  show ?thesis
    by (rule send_ackpkt_ok [OF R net_ok_upd_stream [OF enqueue_recvbuffer_ok [OF R N n1]] r']) (simp add: stream_ok_def)
qed

lemma established_fin_ok:
  assumes R: "ring_spec R rinv relems rcap" and N: "net_ok rinv qinv N" and r: "established_fin R ok a m N = Some N'"
  shows "net_ok rinv qinv N'"
proof -
  let ?c = "upd_stream a (\<lambda>s. s\<lparr>st_status := CLOSE_WAIT\<rparr>) N"
  obtain N1 where n1: "ng_tcp_enqueue_recvbuffer R (ok 3) (ok 4) a m (header_len m) ?c = Some N1"
    and r': "ng_tcp_send_ackpkt R (ok 5) a m (upd_stream a (\<lambda>s. s\<lparr>st_rcv_nxt := st_rcv_nxt s + 1,
                                    st_snd_nxt := ntohl (tcp_recv_ack m)\<rparr>) N1) = Some N'"
    using r by (auto simp: established_fin_def Let_def split: bind_splits)
  have c: "net_ok rinv qinv ?c"
    by (rule net_ok_upd_stream [OF N]) (simp add: stream_ok_def server_states_def)
  show ?thesis
    by (rule send_ackpkt_ok [OF R net_ok_upd_stream [OF enqueue_recvbuffer_ok [OF R c n1]] r']) (simp add: stream_ok_def)
qed

lemma tcp_process_ok:
  assumes R: "ring_spec R rinv relems rcap" and N: "net_ok rinv qinv N"
    and r: "ng_tcp_process l4ck R ok mem memory isn mac sb rb m N = Some (r, N')"
    and fresh: "\<forall>b. mem = Some b \<longrightarrow> b \<notin> set (tcb_set N)" and rings: "pred_option rinv sb" "pred_option rinv rb"
  shows "net_ok rinv qinv N'"
proof -
  have syn_rcvd: "net_ok rinv qinv M'" if "ng_tcp_handle_syn_rcvd a m N = Some M'" for a M'
    using that N net_ok_upd_stream [OF N, of a "\<lambda>s. s\<lparr>st_status := ESTABLISHED\<rparr>"] unfolding ng_tcp_handle_syn_rcvd_def
    by (auto simp: Let_def stream_ok_def server_states_def split: if_splits bind_splits)
  have established: "net_ok rinv qinv M'" if "ng_tcp_handle_established R ok a m l N = Some M'" for a l M'
    using that N unfolding ng_tcp_handle_established_def
    by (auto split: if_splits bind_splits dest: established_psh_ok [OF R] established_fin_ok [OF R])
  have last_ack: "net_ok rinv qinv (ng_tcp_handle_last_ack a m N)" for a
    using N net_ok_remove(1) [OF net_ok_upd_stream [OF N, of a "\<lambda>s. s\<lparr>st_status := CLOSED\<rparr>"], of a]
    by (simp add: ng_tcp_handle_last_ack_def stream_ok_def server_states_def)
  show ?thesis
    using r N unfolding ng_tcp_process_def
    by (auto simp: Let_def ng_tcp_handle_close_wait_def split: if_splits option.splits tcp_status.splits
        dest: syn_rcvd established handle_listen_ok [OF R N _ fresh rings] intro: last_ack)
qed

lemma frame_ok:
  assumes R: "ring_spec R rinv relems rcap" and U: "ring_spec U qinv qelems qcap" and N: "net_ok rinv qinv N"
    and r: "pkt_process_frame l4ck R U m1 ok mem memory isn mac sb rb m N = Some N'"
    and fresh: "\<forall>b. mem = Some b \<longrightarrow> b \<notin> set (tcb_set N)" and rings: "pred_option rinv sb" "pred_option rinv rb"
  shows "net_ok rinv qinv N'"
proof -
  define M where "M = N\<lparr>arpt := snd (ng_arp_entry_insert m1 (ip_src m) (eth_src m) (arpt N))\<rparr>"
  have M: "net_ok rinv qinv M" "\<forall>b. mem = Some b \<longrightarrow> b \<notin> set (tcb_set M)"
    using N fresh by (simp_all add: M_def net_ok_def arp_insert_ok)
  show ?thesis
    using r M(1) N unfolding pkt_process_frame_def M_def [symmetric]
    by (auto simp: Let_def split: if_splits dest: tcp_process_ok [OF R M(1) _ M(2) rings] intro: udp_process_ok [OF U M(1)])
qed

lemma fold_ok: "net_ok rinv qinv N \<Longrightarrow> (\<And>a M. net_ok rinv qinv M \<Longrightarrow> net_ok rinv qinv (f a M)) \<Longrightarrow> net_ok rinv qinv (fold f xs N)"
  by (induction xs arbitrary: N) auto

lemma udp_out_ok:
  assumes U: "ring_spec U qinv qelems qcap" and N: "net_ok rinv qinv N"
  shows "net_ok rinv qinv (udp_out ipck l4ck mac U beyond msg N)"
proof -
  have host: "net_ok rinv qinv (udp_out_host ipck l4ck mac U beyond msg a M)" if M: "net_ok rinv qinv M" for a M
  proof -
    have "net_ok rinv qinv (upd_host a (\<lambda>h. h\<lparr>lh_sndbuf := q'\<rparr>) (M\<lparr>sent := out\<rparr>))"
        "net_ok rinv qinv (upd_host a (\<lambda>h. h\<lparr>lh_sndbuf := ring_enqueue U x q'\<rparr>) (M\<lparr>sent := out\<rparr>))"
      if "ring_dequeue U (lh_sndbuf (hosts M a)) = Some (x, q')" for x q' out
      using M ring_dequeue_inv [OF U _ that] ring_enqueue_ok(1) [OF U] by (auto simp: host_ok_def intro!: net_ok_upd_host)
    then show ?thesis using M by (auto simp: udp_out_host_def Let_def split: option.splits prod.splits)
  qed
  show ?thesis unfolding udp_out_def by (rule fold_ok [OF N host])
qed

lemma tcp_out_ok:
  assumes R: "ring_spec R rinv relems rcap" and N: "net_ok rinv qinv N"
  shows "net_ok rinv qinv (ng_tcp_out ipck l4ck mac R msg N)"
proof -
  have stream: "net_ok rinv qinv (tcp_out_stream ipck l4ck mac R msg a M)" if M: "net_ok rinv qinv M" for a M
  proof -
    have "net_ok rinv qinv (upd_stream a (\<lambda>s. s\<lparr>st_sndbuf := Some q'\<rparr>) (M\<lparr>sent := out\<rparr>))"
        "net_ok rinv qinv (upd_stream a (\<lambda>s. s\<lparr>st_sndbuf := Some (ring_enqueue R x q')\<rparr>) (M\<lparr>sent := out\<rparr>))"
      if "st_sndbuf (streams M a) = Some q" "ring_dequeue R q = Some (x, q')" for q x q' out
      using M that(1) ring_dequeue_inv [OF R _ that(2)] ring_enqueue_ok(1) [OF R] by (auto simp: stream_ok_def intro!: net_ok_upd_stream)
    then show ?thesis using M by (auto simp: tcp_out_stream_def Let_def split: option.splits prod.splits bind_splits)
  qed
  show ?thesis unfolding ng_tcp_out_def by (rule fold_ok [OF N stream])
qed

lemma net_step_ok:
  assumes R: "ring_spec R rinv relems rcap" and U: "ring_spec U qinv qelems qcap"
    and "net_step R U rinv qinv N N'" "net_ok rinv qinv N"
  shows "net_ok rinv qinv N'"
  using assms(3,4)
proof (cases rule: net_step.cases)
  case frame
  then show ?thesis by (intro frame_ok [OF R U assms(4) frame(1)]) auto
next
  case arp_sweep
  then show ?thesis using assms(4) by (auto simp: arp_request_timer_cb_def)
qed (use assms(4) in \<open>auto intro: nbind_ok nlisten_ok naccept_ok nsend_ok [OF R] nrecv_ok [OF R] nrecvfrom_ok [OF U] nsendto_ok [OF U]
  nclose_ok [OF R] udp_out_ok [OF U] tcp_out_ok [OF R] nsocket_ok\<close>)

text \<open>The state before the first call.\<close>

definition net_initial :: "('r, 'q) net \<Rightarrow> bool" where
  "net_initial N \<longleftrightarrow> tcb_set N = [] \<and> lhost N = [] \<and> fd_table N = replicate 1024 0 \<and> arpt N = None"

text \<open>
  C20. Every state the stack can reach is well formed. Whatever sequence of socket calls, received
  frames, output passes and ARP sweeps runs from the initial state: no host and no stream is chained
  twice, every stream has the protocol TCP, working rings, a descriptor below 1024 and one of the states
  CLOSED, LISTEN, SYN_RCVD, ESTABLISHED, CLOSE_WAIT and LAST_ACK (the states of an active opener are
  never entered), every host has the protocol UDP and working rings, and the ARP table stays a map.
\<close>

theorem net_reachable_ok:
  assumes "ring_spec R rinv relems rcap" "ring_spec U qinv qelems qcap" "net_initial N0" "(net_step R U rinv qinv)\<^sup>*\<^sup>* N0 N"
  shows "net_ok rinv qinv N"
  using assms(4)
proof (induction rule: rtranclp_induct)
  case base
  then show ?case using assms(3) by (simp add: net_initial_def net_ok_def arp_ok_def arp_table_instance_def)
next
  case (step M M')
  then show ?case using net_step_ok [OF assms(1,2)] by blast
qed

theorem net_reachable_ok_witness:
  "net_ok (\<lambda>r. length r \<le> 4) (\<lambda>r. length r \<le> 4) (snd (nsocket (Some 1) (Some []) (Some []) None None SOCK_STREAM (demo_net\<lparr>tcb_set := []\<rparr>)))"
proof -
  define N1 where "N1 = snd (nsocket (Some 1) (Some []) (Some []) None None SOCK_STREAM (demo_net\<lparr>tcb_set := []\<rparr>))"
  have "net_step (list_ring 4) (list_ring 4) (\<lambda>r. length r \<le> 4) (\<lambda>r. length r \<le> 4) (demo_net\<lparr>tcb_set := []\<rparr>) N1"
    by (rule net_step.socket [of "Some 1" "Some []" "Some []" None None SOCK_STREAM _ "fst (nsocket (Some 1) (Some []) (Some []) None None SOCK_STREAM (demo_net\<lparr>tcb_set := []\<rparr>))"])
      (simp_all add: N1_def demo_net_def)
  moreover have "net_initial (demo_net\<lparr>tcb_set := []\<rparr>)" by (simp add: net_initial_def demo_net_def)
  ultimately show ?thesis
    using net_reachable_ok [OF list_ring_spec [of 4] list_ring_spec [of 4]] unfolding N1_def by blast
qed

end
