(* ===== verification/AppServer.thy ===== *)
theory AppServer
  imports TcpBehaviour CArray
begin

text \<open>
  The two programs on top of the network stack in \<open>tcp.c\<close>, \<open>tcp_server_entry\<close> and \<open>udp_server_entry\<close>, built
  from the modelled socket calls. A call that waits is \<^const>\<open>None\<close> while there is nothing to wait for. The
  answers of the allocator are given per round.
\<close>

text \<open>\<open>BUFFER_SIZE\<close> of \<open>tcp.c\<close>; the HTTP server has a constant of the same name.\<close>

definition TCP_APP_BUFFER_SIZE :: nat where "TCP_APP_BUFFER_SIZE = 1024"
definition UDP_APP_RECV_BUFFER_SIZE :: nat where "UDP_APP_RECV_BUFFER_SIZE = 128"

text \<open>Reading a C string, as \<open>strlen\<close> and \<open>printf\<close> do: it runs off a buffer without a null byte.\<close>

fun text_of :: "bytes \<Rightarrow> bytes option" where
  "text_of [] = None"
| "text_of (b # bs) = (if b = 0 then Some [] else map_option (Cons b) (text_of bs))"

section \<open>The TCP server\<close>

text \<open>Opening, binding to port 9999 and listening; the results of \<open>nbind\<close> and \<open>nlisten\<close> are not looked at.\<close>

definition tcp_server_open :: "addr option \<Rightarrow> 'r option \<Rightarrow> 'r option \<Rightarrow> mac \<Rightarrow> ('r, 'q) net \<Rightarrow> int \<times> ('r, 'q) net" where
  "tcp_server_open mem rcv snd' gSrcMac N =
     (let x = nsocket mem rcv snd' None None SOCK_STREAM N;
          listenfd = fst x
      in if listenfd = -1 then (-1, snd x)
         else (let N = snd (nbind gSrcMac listenfd (htons 9999) 0 (snd x));
                   N = snd (nlisten listenfd N)
               in (listenfd, N)))"

text \<open>
  One turn of the inner loop; the first result says whether the loop goes on. \<open>printf\<close> reads the buffer as a
  text, although the peer decides whether there is a null byte in it.
\<close>

definition tcp_server_turn :: "('r, fragment) ring_ops \<Rightarrow> bool \<times> bool \<times> bool \<Rightarrow> fragment \<Rightarrow> int \<Rightarrow> bytes \<Rightarrow> ('r, 'q) net \<Rightarrow> (bool \<times> bytes \<times> ('r, 'q) net) option" where
  "tcp_server_turn R ok junk connfd buff N =
     (case ok of (m1, m2, m3) \<Rightarrow>
        do { (n, data, N) \<leftarrow> nrecv R connfd TCP_APP_BUFFER_SIZE N;
             buff \<leftarrow> wr_block buff 0 data;
             if n > 0
             then (if n > int (length buff) then None
                   else do { msg \<leftarrow> text_of buff;
                             (r, N) \<leftarrow> nsend R m1 m2 connfd (take (nat n) buff) N; Some (True, buff, N) })
             else if n = 0 then do { (r, N) \<leftarrow> nclose R m3 junk connfd N; Some (False, buff, N) }
             else Some (True, buff, N) })"

partial_function (option) tcp_server_session ::
    "('r, fragment) ring_ops \<Rightarrow> (nat \<Rightarrow> bool \<times> bool \<times> bool) \<Rightarrow> fragment \<Rightarrow> int \<Rightarrow> nat \<Rightarrow> bytes \<Rightarrow> ('r, 'q) net \<Rightarrow> ('r, 'q) net option" where
  "tcp_server_session R ok junk connfd i buff N =
     do { (go, buff, N) \<leftarrow> tcp_server_turn R (ok i) junk connfd buff N;
          if go then tcp_server_session R ok junk connfd (i + 1) buff N else Some N }"

text \<open>One turn of the outer loop: a client is accepted and served until it closes.\<close>

definition tcp_server_client :: "('r, fragment) ring_ops \<Rightarrow> (nat \<Rightarrow> bool \<times> bool \<times> bool) \<Rightarrow> fragment \<Rightarrow> int \<Rightarrow> ('r, 'q) net \<Rightarrow> ('r, 'q) net option" where
  "tcp_server_client R ok junk listenfd N =
     do { (connfd, port, ip, N) \<leftarrow> naccept listenfd N;
          tcp_server_session R ok junk connfd 0 (replicate TCP_APP_BUFFER_SIZE 0) N }"

section \<open>The UDP server\<close>

text \<open>The local address is 192.168.0.119 in network byte order.\<close>

definition udp_server_open :: "addr option \<Rightarrow> 'q option \<Rightarrow> 'q option \<Rightarrow> mac \<Rightarrow> ('r, 'q) net \<Rightarrow> int \<times> ('r, 'q) net" where
  "udp_server_open mem rcv snd' gSrcMac N =
     (let x = nsocket mem None None rcv snd' SOCK_DGRAM N;
          connfd = fst x
      in if connfd = -1 then (-1, snd x) else (connfd, snd (nbind gSrcMac connfd (htons 8889) 0x7700A8C0 (snd x))))"

text \<open>
  One turn: the text in the buffer up to its first null byte goes back. The buffer has a null byte only
  when the datagram left one, so \<open>strlen\<close> may run off it.
\<close>

definition udp_server_turn ::
    "('q, offload) ring_ops \<Rightarrow> bytes \<Rightarrow> bool \<Rightarrow> bool \<Rightarrow> int \<Rightarrow> int \<Rightarrow> bytes \<Rightarrow> ('r, 'q) net \<Rightarrow> (bytes \<times> ('r, 'q) net) option" where
  "udp_server_turn R beyond m1 m2 junk connfd buffer N =
     do { (n, data, port, ip, N) \<leftarrow> nrecvfrom R beyond connfd UDP_APP_RECV_BUFFER_SIZE N;
          if n < 0 then Some (buffer, N)
          else do { buffer \<leftarrow> wr_block buffer 0 data;
                    msg \<leftarrow> text_of buffer;
                    (r, N) \<leftarrow> nsendto R m1 m2 junk msg ip port connfd N;
                    Some (buffer, N) } }"

section \<open>The TCP server echoes\<close>

text \<open>The text up to the first null byte.\<close>

lemma text_of_append: "0 \<notin> set msg \<Longrightarrow> text_of (msg @ 0 # rest) = Some msg"
  by (induction msg) auto

lemma text_of_no_null: "0 \<notin> set msg \<Longrightarrow> text_of msg = None"
  by (induction msg) auto

lemma text_of_null: "0 \<in> set msg \<Longrightarrow> \<exists>t. text_of msg = Some t"
  using text_of_append by (metis split_list_first)

lemma data_fragment_bufs [simp]:
  "data_fragment (s\<lparr>st_sndbuf := x\<rparr>) buf = data_fragment s buf" "data_fragment (s\<lparr>st_rcvbuf := x\<rparr>) buf = data_fragment s buf"
  by (simp_all add: data_fragment_def)

text \<open>A received fragment with the payload \<open>buf\<close>, which leaves the last byte of the buffer alone.\<close>

definition carries :: "fragment \<Rightarrow> bytes \<Rightarrow> bool" where
  "carries fr buf \<longleftrightarrow> (\<exists>rest. fr_data fr = Some (buf @ rest)) \<and> unat (fr_length fr) = length buf \<and> buf \<noteq> [] \<and> length buf < TCP_APP_BUFFER_SIZE"

text \<open>The buffer of a connection: its last byte is zero.\<close>

definition buffer_ok :: "bytes \<Rightarrow> bool" where
  "buffer_ok buff \<longleftrightarrow> (\<exists>bs. buff = bs @ [0]) \<and> length buff = TCP_APP_BUFFER_SIZE"

lemma buffer_ok_zeros: "buffer_ok (replicate TCP_APP_BUFFER_SIZE 0)"
  unfolding buffer_ok_def TCP_APP_BUFFER_SIZE_def
  by (metis One_nat_def Suc_pred length_replicate replicate_Suc replicate_append_same zero_less_numeral)

lemma wr_block_buffer:
  assumes "buffer_ok buff" "length buf < TCP_APP_BUFFER_SIZE"
  shows "\<exists>ys. wr_block buff 0 buf = Some (buf @ ys) \<and> buffer_ok (buf @ ys) \<and> length (buf @ ys) = TCP_APP_BUFFER_SIZE"
proof -
  obtain bs where bs: "buff = bs @ [0]" "length bs + 1 = TCP_APP_BUFFER_SIZE" using assms(1) by (auto simp: buffer_ok_def)
  then have "wr_block buff 0 buf = Some (buf @ drop (length buf) bs @ [0])" using assms(2) by (simp add: wr_block_def)
  moreover have "length (buf @ drop (length buf) bs @ [0]) = TCP_APP_BUFFER_SIZE" using bs(2) assms(2) by simp
  ultimately show ?thesis unfolding buffer_ok_def by (intro exI [of _ "drop (length buf) bs @ [0]"]) auto
qed

lemma buffer_ok_text: "buffer_ok buff \<Longrightarrow> \<exists>t. text_of buff = Some t"
  by (rule text_of_null) (auto simp: buffer_ok_def)

text \<open>The connection \<open>a\<close> under the descriptor \<open>fd\<close> with the fragments to read and the fragments to send.\<close>

definition conn_state :: "('r, fragment) ring_ops \<Rightarrow> ('r \<Rightarrow> bool) \<Rightarrow> ('r \<Rightarrow> fragment list) \<Rightarrow> ('r \<Rightarrow> nat) \<Rightarrow> int \<Rightarrow> addr
    \<Rightarrow> fragment list \<Rightarrow> fragment list \<Rightarrow> nat \<Rightarrow> ('r, 'q) net \<Rightarrow> bool" where
  "conn_state R rinv relems rcap fd a ins outs room N \<longleftrightarrow> get_hostinfo_fromfd N fd = Some (Stream a) \<and> st_protocol (streams N a) = IPPROTO_TCP
     \<and> st_status (streams N a) \<noteq> LISTEN
     \<and> (\<exists>rb. st_rcvbuf (streams N a) = Some rb \<and> rinv rb \<and> relems rb = ins)
     \<and> (\<exists>sb. st_sndbuf (streams N a) = Some sb \<and> rinv sb \<and> relems sb = outs \<and> length outs + room \<le> rcap sb)"

lemma same_fd: "(\<And>s. st_fd (f s) = st_fd s) \<Longrightarrow> get_hostinfo_fromfd (upd_stream a f N) fd = get_hostinfo_fromfd N fd"
  by (rule hostinfo_cong) (auto simp: fun_upd_apply)

lemma wr_block_fits: "length bs \<le> length xs \<Longrightarrow> \<exists>ys. wr_block xs 0 bs = Some (bs @ ys) \<and> length (bs @ ys) = length xs"
  by (simp add: wr_block_def)

lemma server_turn_echo:
  assumes R: "ring_spec R rinv relems rcap" and N: "conn_state R rinv relems rcap fd a (fr # frs) outs (Suc room) N"
    and fr: "carries fr buf" and buff: "buffer_ok buff"
  shows "\<exists>buff' N'. tcp_server_turn R (True, True, ok) junk fd buff N = Some (True, buff', N') \<and> buffer_ok buff'
    \<and> conn_state R rinv relems rcap fd a frs (outs @ [data_fragment (streams N a) buf]) room N'
    \<and> data_fragment (streams N' a) = data_fragment (streams N a) \<and> fd_table N' = fd_table N"
proof -
  obtain rb sb where rb: "st_rcvbuf (streams N a) = Some rb" "rinv rb" "relems rb = fr # frs"
    and sb: "st_sndbuf (streams N a) = Some sb" "rinv sb" "relems sb = outs" "length outs + Suc room \<le> rcap sb"
    and host: "get_hostinfo_fromfd N fd = Some (Stream a)" "st_protocol (streams N a) = IPPROTO_TCP" "st_status (streams N a) \<noteq> LISTEN"
    using N by (auto simp: conn_state_def)
  obtain rest where f: "fr_data fr = Some (buf @ rest)" "unat (fr_length fr) = length buf" "buf \<noteq> []" "length buf < TCP_APP_BUFFER_SIZE" using fr by (auto simp: carries_def)
  obtain rb' where rb': "ring_dequeue R rb = Some (fr, rb')" "rinv rb'" "relems rb' = frs" using ring_dequeue_Cons [OF R rb(2,3)] by blast
  define N1 where "N1 = upd_stream a (\<lambda>s. s\<lparr>st_rcvbuf := Some rb'\<rparr>) N"
  have "fr_length fr \<noteq> 0" using f(2,3) by auto
  then have recv: "nrecv R fd TCP_APP_BUFFER_SIZE N = Some (int (length buf), buf, N1)"
    using rb(1) rb'(1) host f by (simp add: nrecv_def N1_def Let_def)
  obtain ys where b: "wr_block buff 0 buf = Some (buf @ ys)" "buffer_ok (buf @ ys)" "length (buf @ ys) = TCP_APP_BUFFER_SIZE" using wr_block_buffer [OF buff f(4)] by blast
  obtain msg where msg: "text_of (buf @ ys) = Some msg" using buffer_ok_text [OF b(2)] by blast
  have h1: "get_hostinfo_fromfd N1 fd = Some (Stream a)" unfolding N1_def using host(1) by (subst same_fd) auto
  define sb' where "sb' = ring_enqueue R (data_fragment (streams N1 a) buf) sb"
  define N2 where "N2 = upd_stream a (\<lambda>s. s\<lparr>st_sndbuf := Some sb'\<rparr>) N1"
  have d: "data_fragment (streams N1 a) = data_fragment (streams N a)" by (rule ext) (simp add: N1_def)
  have send: "nsend R True True fd buf N1 = Some (int (length buf), N2)"
    using nsend_value [OF h1, of sb buf R] sb(1) host(2) f(4) by (simp add: N2_def sb'_def N1_def TCP_APP_BUFFER_SIZE_def)
  have sb2: "rinv sb'" "rcap sb' = rcap sb" "relems sb' = outs @ [data_fragment (streams N a) buf]"
    using ring_enqueue_ok [OF R sb(2), of "data_fragment (streams N1 a) buf"] sb(3,4) d by (simp_all add: sb'_def)
  have "tcp_server_turn R (True, True, ok) junk fd buff N = Some (True, buf @ ys, N2)"
    using recv b(1) msg send f(3) by (simp add: tcp_server_turn_def)
  moreover have "get_hostinfo_fromfd N2 fd = Some (Stream a)" unfolding N2_def using h1 by (subst same_fd) auto
  then have "conn_state R rinv relems rcap fd a frs (outs @ [data_fragment (streams N a) buf]) room N2"
    using rb' sb2 sb(4) host by (simp add: conn_state_def N2_def N1_def)
  moreover have "data_fragment (streams N2 a) = data_fragment (streams N a)" "fd_table N2 = fd_table N" using d by (auto simp: N2_def N1_def)
  ultimately show ?thesis using b(2) by blast
qed

lemma server_turn_close:
  assumes R: "ring_spec R rinv relems rcap" and N: "conn_state R rinv relems rcap fd a [eof] outs 1 N" and eof: "fr_length eof = 0"
    and tbl: "set_fd_frombitmap fd (fd_table N) = Some (r, t)" and buff: "buffer_ok buff"
  shows "\<exists>N' sb. tcp_server_turn R (ok, ok2, True) junk fd buff N = Some (False, buff, N') \<and> st_status (streams N' a) = LAST_ACK
    \<and> st_sndbuf (streams N' a) = Some sb \<and> relems sb = outs @ [fin_fragment junk (streams N a)] \<and> fd_table N' = t"
proof -
  obtain rb sb where rb: "st_rcvbuf (streams N a) = Some rb" "rinv rb" "relems rb = [eof]"
    and sb: "st_sndbuf (streams N a) = Some sb" "rinv sb" "relems sb = outs" "length outs + 1 \<le> rcap sb"
    and host: "get_hostinfo_fromfd N fd = Some (Stream a)" "st_protocol (streams N a) = IPPROTO_TCP" "st_status (streams N a) \<noteq> LISTEN"
    using N by (auto simp: conn_state_def)
  obtain rb' where rb': "ring_dequeue R rb = Some (eof, rb')" using ring_dequeue_Cons [OF R rb(2,3)] by blast
  define N1 where "N1 = upd_stream a (\<lambda>s. s\<lparr>st_rcvbuf := Some rb'\<rparr>) N"
  have recv: "nrecv R fd TCP_APP_BUFFER_SIZE N = Some (0, [], N1)" using rb(1) rb' host eof by (simp add: nrecv_def N1_def Let_def)
  have h1: "get_hostinfo_fromfd N1 fd = Some (Stream a)" unfolding N1_def using host(1) by (subst same_fd) auto
  define sb' where "sb' = ring_enqueue R (fin_fragment junk (streams N a)) sb"
  have fin: "fin_fragment junk (streams N1 a) = fin_fragment junk (streams N a)" by (simp add: N1_def fin_fragment_def)
  have sb2: "relems sb' = outs @ [fin_fragment junk (streams N a)]" using ring_enqueue_ok(3) [OF R sb(2)] sb(3,4) by (simp add: sb'_def)
  obtain N2 where N2: "nclose R True junk fd N1 = Some (0, N2)" "st_status (streams N2 a) = LAST_ACK" "st_sndbuf (streams N2 a) = Some sb'" "fd_table N2 = t"
    using h1 host sb(1) tbl fin by (auto simp: nclose_def try_stream_def enq_snd_def release_fd_def N1_def sb'_def)
  have "wr_block buff 0 [] = Some buff" by (simp add: wr_block_def)
  then have "tcp_server_turn R (ok, ok2, True) junk fd buff N = Some (False, buff, N2)" using recv N2(1) by (simp add: tcp_server_turn_def)
  then show ?thesis using N2 sb2 by auto
qed

lemma server_session_echo:
  assumes R: "ring_spec R rinv relems rcap" and N: "conn_state R rinv relems rcap fd a (frs @ [eof]) outs (Suc (length frs)) N"
    and frs: "list_all2 carries frs bufs" and eof: "fr_length eof = 0" and tbl: "set_fd_frombitmap fd (fd_table N) = Some (r, t)" and buff: "buffer_ok buff"
  shows "\<exists>N' sb fin. tcp_server_session R (\<lambda>_. (True, True, True)) junk fd i buff N = Some N' \<and> st_status (streams N' a) = LAST_ACK \<and> fd_table N' = t
    \<and> st_sndbuf (streams N' a) = Some sb \<and> relems sb = outs @ map (data_fragment (streams N a)) bufs @ [fin] \<and> fr_tcp_flags fin = FIN_FLAG OR ACK_FLAG"
  using N frs tbl buff
proof (induction frs arbitrary: bufs outs N buff i)
  case Nil
  obtain N' sb where "tcp_server_turn R (True, True, True) junk fd buff N = Some (False, buff, N')" "st_status (streams N' a) = LAST_ACK"
    "st_sndbuf (streams N' a) = Some sb" "relems sb = outs @ [fin_fragment junk (streams N a)]" "fd_table N' = t"
    using server_turn_close [OF R _ eof Nil.prems(3,4)] Nil.prems(1) by fastforce
  moreover have "fr_tcp_flags (fin_fragment junk (streams N a)) = FIN_FLAG OR ACK_FLAG" by (simp add: fin_fragment_def)
  ultimately show ?case using Nil.prems(2) by (subst tcp_server_session.simps) auto
next
  case (Cons fr frs)
  obtain buf bufs' where bufs: "bufs = buf # bufs'" "carries fr buf" "list_all2 carries frs bufs'" using Cons.prems(2) by (cases bufs) auto
  obtain buff' N1 where N1: "tcp_server_turn R (True, True, True) junk fd buff N = Some (True, buff', N1)" "buffer_ok buff'"
    "conn_state R rinv relems rcap fd a (frs @ [eof]) (outs @ [data_fragment (streams N a) buf]) (Suc (length frs)) N1"
    "data_fragment (streams N1 a) = data_fragment (streams N a)" "fd_table N1 = fd_table N"
    using server_turn_echo [OF R _ bufs(2) Cons.prems(4), where frs = "frs @ [eof]" and room = "Suc (length frs)"] Cons.prems(1) by fastforce
  have "set_fd_frombitmap fd (fd_table N1) = Some (r, t)" using Cons.prems(3) N1(5) by simp
  from Cons.IH [OF N1(3) bufs(3) this N1(2), of "i + 1"] show ?case using N1(1,4) bufs(1) by (subst tcp_server_session.simps) auto
qed

text \<open>
  C21. The TCP server echoes: a connection whose receive ring holds the fragments of a client, each with
  at most 1023 bytes, and then the end of the stream, is served to its end from the zeroed buffer it starts
  with. The payloads are queued to be sent back, unchanged and in order, then the FIN; the stream goes to
  LAST_ACK and the descriptor is free. \<open>printf\<close> finds a null byte in every turn, because the last byte of
  the buffer is never written.
\<close>

theorem tcp_server_echoes:
  assumes "ring_spec R rinv relems rcap" "conn_state R rinv relems rcap fd a (frs @ [eof]) outs (Suc (length frs)) N"
    and "list_all2 carries frs bufs" "fr_length eof = 0" "set_fd_frombitmap fd (fd_table N) = Some (r, t)"
  shows "\<exists>N' sb fin. tcp_server_session R (\<lambda>_. (True, True, True)) junk fd 0 (replicate TCP_APP_BUFFER_SIZE 0) N = Some N'
    \<and> st_status (streams N' a) = LAST_ACK \<and> fd_table N' = t
    \<and> st_sndbuf (streams N' a) = Some sb \<and> relems sb = outs @ map (data_fragment (streams N a)) bufs @ [fin] \<and> fr_tcp_flags fin = FIN_FLAG OR ACK_FLAG"
  by (rule server_session_echo [OF assms buffer_ok_zeros])

definition demo_echo_net :: "(fragment list, offload list) net" where
  "demo_echo_net = demo_conn_net\<lparr>fd_table := replicate 1024 0, streams := (\<lambda>_. demo_conn\<lparr>st_rcvbuf := Some
     [blank_fragment\<lparr>fr_data := Some [104, 105, 0], fr_length := 2\<rparr>, blank_fragment\<lparr>fr_data := Some [33, 0], fr_length := 1\<rparr>, blank_fragment]\<rparr>)\<rparr>"

theorem tcp_server_echoes_witness:
  "\<exists>N' sb. tcp_server_session (list_ring 4) (\<lambda>_. (True, True, True)) blank_fragment 4 0 (replicate 1024 0) demo_echo_net = Some N'
    \<and> st_status (streams N' 2) = LAST_ACK \<and> st_sndbuf (streams N' 2) = Some sb
    \<and> map fr_data (butlast sb) = [Some [104, 105, 0], Some [33, 0]] \<and> fr_tcp_flags (last sb) = FIN_FLAG OR ACK_FLAG"
proof -
  let ?frs = "[blank_fragment\<lparr>fr_data := Some [104, 105, 0], fr_length := 2\<rparr>, blank_fragment\<lparr>fr_data := Some [33, 0], fr_length := 1\<rparr>]"
  have host: "get_hostinfo_fromfd demo_echo_net 4 = Some (Stream 2)"
    by (simp add: get_hostinfo_fromfd_def demo_echo_net_def demo_conn_net_def demo_net_def demo_conn_def)
  have N: "conn_state (list_ring 4) (\<lambda>r. length r \<le> 4) (\<lambda>r. r) (\<lambda>_. 4) 4 2 (?frs @ [blank_fragment]) [] (Suc (length ?frs)) demo_echo_net"
    unfolding conn_state_def using host by (simp add: demo_echo_net_def demo_conn_def demo_stream_def)
  have c: "list_all2 carries ?frs [[104, 105], [33]]" by (auto simp: carries_def TCP_APP_BUFFER_SIZE_def)
  obtain r t where "set_fd_frombitmap 4 (fd_table demo_echo_net) = Some (r, t)"
    by (simp add: demo_echo_net_def set_fd_frombitmap_def MAX_FD_COUNT_def)
  from tcp_server_echoes [OF list_ring_spec N c _ this, of blank_fragment]
  show ?thesis by (auto simp: blank_fragment_def TCP_APP_BUFFER_SIZE_def)
qed

text \<open>A fragment that fills the buffer without a null byte makes \<open>printf\<close> read past it.\<close>

theorem tcp_server_full_buffer:
  assumes R: "ring_spec R rinv relems rcap" and N: "conn_state R rinv relems rcap fd a (fr # frs) outs room N"
    and fr: "fr_data fr = Some (buf @ rest)" "unat (fr_length fr) = length buf" "length buf = TCP_APP_BUFFER_SIZE" "0 \<notin> set buf"
    and buff: "length buff = TCP_APP_BUFFER_SIZE"
  shows "tcp_server_turn R ok junk fd buff N = None"
proof -
  obtain rb where rb: "st_rcvbuf (streams N a) = Some rb" "rinv rb" "relems rb = fr # frs" using N by (auto simp: conn_state_def)
  obtain rb' where rb': "ring_dequeue R rb = Some (fr, rb')" using ring_dequeue_Cons [OF R rb(2,3)] by blast
  have "fr_length fr \<noteq> 0" using fr(2,3) by (auto simp: TCP_APP_BUFFER_SIZE_def)
  then have "nrecv R fd TCP_APP_BUFFER_SIZE N = Some (int (length buf), buf, upd_stream a (\<lambda>s. s\<lparr>st_rcvbuf := Some rb'\<rparr>) N)"
    using rb(1) rb' N fr by (simp add: nrecv_def Let_def conn_state_def)
  moreover have "wr_block buff 0 buf = Some buf" using fr(3) buff by (simp add: wr_block_def)
  moreover have "length buf > 0" using fr(3) by (simp add: TCP_APP_BUFFER_SIZE_def)
  ultimately show ?thesis using text_of_no_null [OF fr(4)] by (cases ok) (simp add: tcp_server_turn_def)
qed

section \<open>The UDP server echoes texts\<close>

text \<open>
  A datagram that is a text with its null byte goes back to its sender, without that byte; a text that
  fills the buffer makes \<open>strlen\<close> run off it.
\<close>

lemma udp_recv_whole:
  assumes "ring_spec R rinv relems rcap" "get_hostinfo_fromfd N fd = Some (Host a)" "rinv (lh_rcvbuf (hosts N a))"
    "relems (lh_rcvbuf (hosts N a)) = ol # ols" "unat (ol_length ol) = length (ol_data ol)" "length (ol_data ol) \<le> UDP_APP_RECV_BUFFER_SIZE"
  obtains r where "nrecvfrom R beyond fd UDP_APP_RECV_BUFFER_SIZE N
    = Some (int (length (ol_data ol)), ol_data ol, ol_sport ol, ol_sip ol, upd_host a (\<lambda>h. h\<lparr>lh_rcvbuf := r\<rparr>) N)" "rinv r" "relems r = ols"
proof -
  obtain r where "ring_dequeue R (lh_rcvbuf (hosts N a)) = Some (ol, r)" "rinv r" "relems r = ols"
    using ring_dequeue_Cons [OF assms(1,3,4)] by blast
  then show ?thesis using that [of r] assms by (simp add: nrecvfrom_def Let_def)
qed

lemma same_host_fd:
  assumes "\<And>h. lh_fd (f h) = lh_fd h"
  shows "get_hostinfo_fromfd (upd_host a f N) fd = get_hostinfo_fromfd N fd"
proof -
  have "find (\<lambda>b. fd = lh_fd (hosts (upd_host a f N) b)) (lhost N) = find (\<lambda>b. fd = lh_fd (hosts N b)) (lhost N)"
    by (rule find_cong) (use assms in \<open>auto simp: fun_upd_apply\<close>)
  then show ?thesis by (simp add: get_hostinfo_fromfd_def split: option.split)
qed

theorem udp_server_echoes_text:
  assumes R: "ring_spec R rinv relems rcap" and host: "get_hostinfo_fromfd N fd = Some (Host a)" "rinv (lh_rcvbuf (hosts N a))"
      "relems (lh_rcvbuf (hosts N a)) = ol # ols" "unat (ol_length ol) = length (ol_data ol)"
    and ol: "ol_data ol = msg @ [0]" "0 \<notin> set msg" "length msg < UDP_APP_RECV_BUFFER_SIZE" and b: "length buffer = UDP_APP_RECV_BUFFER_SIZE"
    and snd': "rinv (lh_sndbuf (hosts N a))" "length (relems (lh_sndbuf (hosts N a))) < rcap (lh_sndbuf (hosts N a))"
  shows "\<exists>buffer' N' answer. udp_server_turn R beyond True True junk fd buffer N = Some (buffer', N') \<and> length buffer' = UDP_APP_RECV_BUFFER_SIZE
    \<and> relems (lh_rcvbuf (hosts N' a)) = ols \<and> relems (lh_sndbuf (hosts N' a)) = relems (lh_sndbuf (hosts N a)) @ [answer]
    \<and> ol_data answer = msg \<and> ol_dip answer = ol_sip ol \<and> ol_dport answer = ol_sport ol"
proof -
  obtain r where r: "nrecvfrom R beyond fd UDP_APP_RECV_BUFFER_SIZE N
    = Some (int (length (ol_data ol)), ol_data ol, ol_sport ol, ol_sip ol, upd_host a (\<lambda>h. h\<lparr>lh_rcvbuf := r\<rparr>) N)" "relems r = ols"
    using udp_recv_whole [OF R host] ol by (metis Suc_leI length_append_singleton)
  obtain ys where ys: "wr_block buffer 0 (ol_data ol) = Some (ol_data ol @ ys)" "length (ol_data ol @ ys) = length buffer"
    using wr_block_fits [of "ol_data ol" buffer] ol b by auto
  have h: "get_hostinfo_fromfd (upd_host a (\<lambda>h. h\<lparr>lh_rcvbuf := r\<rparr>) N) fd = Some (Host a)"
    using host(1) by (subst same_host_fd) auto
  have "relems (ring_enqueue R x (lh_sndbuf (hosts N a))) = relems (lh_sndbuf (hosts N a)) @ [x]" for x
    using ring_enqueue_ok(3) [OF R snd'(1)] snd'(2) by simp
  then show ?thesis using r ys h ol b text_of_append [OF ol(2), of ys] by (simp add: udp_server_turn_def nsendto_def)
qed

theorem udp_server_text_without_null:
  assumes R: "ring_spec R rinv relems rcap" and host: "get_hostinfo_fromfd N fd = Some (Host a)" "rinv (lh_rcvbuf (hosts N a))"
      "relems (lh_rcvbuf (hosts N a)) = ol # ols" "unat (ol_length ol) = length (ol_data ol)"
    and ol: "length (ol_data ol) = UDP_APP_RECV_BUFFER_SIZE" "0 \<notin> set (ol_data ol)" and b: "length buffer = UDP_APP_RECV_BUFFER_SIZE"
  shows "udp_server_turn R beyond m m' junk fd buffer N = None"
proof -
  obtain r where "nrecvfrom R beyond fd UDP_APP_RECV_BUFFER_SIZE N
    = Some (int (length (ol_data ol)), ol_data ol, ol_sport ol, ol_sip ol, upd_host a (\<lambda>h. h\<lparr>lh_rcvbuf := r\<rparr>) N)"
    using udp_recv_whole [OF R host] ol by (metis order_refl)
  moreover have "wr_block buffer 0 (ol_data ol) = Some (ol_data ol)" using ol b by (simp add: wr_block_def)
  ultimately show ?thesis using text_of_no_null [OF ol(2)] by (simp add: udp_server_turn_def)
qed

end
