(* ===== verification/DdosDetect.thy ===== *)
theory DdosDetect
  imports NetPacket
begin

text \<open>
  The flood detector of the network stack (\<open>tcp.c\<close>, \<open>count_bit\<close>, \<open>ddos_entropy\<close> and
  \<open>ddos_detect\<close>): the bits set in a packet, counted eight bytes at a time, and the entropy of the last
  256 packets. The arithmetic on \<open>double\<close> is an argument, the record \<open>dbl\<close>.
\<close>


section \<open>Counting bits\<close>

text \<open>One iteration of the loop of \<open>count_bit\<close>.\<close>

definition count_word :: "uint64 \<Rightarrow> uint64" where
  "count_word v =
     (let v = v - (drop_bit 1 v AND 0x5555555555555555);
          v = (v AND 0x3333333333333333) + (drop_bit 2 v AND 0x3333333333333333);
          v = (v + drop_bit 4 v) AND 0x0F0F0F0F0F0F0F0F
      in drop_bit 56 (v * 0x0101010101010101))"

text \<open>A little-endian load of eight bytes.\<close>

definition load64 :: "bytes \<Rightarrow> nat \<Rightarrow> uint64" where
  "load64 mem ptr = horner_sum ucast 256 (subbytes ptr 8 mem)"

text \<open>\<open>mem\<close> is the memory from \<open>msg\<close> on; the loop runs at least once.\<close>

function count_bit_loop :: "bytes \<Rightarrow> nat \<Rightarrow> nat \<Rightarrow> uint64 \<Rightarrow> uint64" where
  "count_bit_loop mem len ptr set_bits =
     (let set_bits = set_bits + count_word (load64 mem ptr)
      in if len > ptr + 8 then count_bit_loop mem len (ptr + 8) set_bits else set_bits)"
  by auto
termination by (relation "measure (\<lambda>(mem, len, ptr, set_bits). len - ptr)") auto

declare count_bit_loop.simps [simp del]

definition count_bit :: "bytes \<Rightarrow> nat \<Rightarrow> uint32" where
  "count_bit mem len = ucast (count_bit_loop mem len 0 0)"

section \<open>Numbers as rows of fields\<close>

text \<open>The number whose fields of \<open>k\<close> bits are given, lowest first.\<close>

fun pack :: "nat \<Rightarrow> nat list \<Rightarrow> nat" where
  "pack k [] = 0"
| "pack k (f # fs) = f + 2 ^ k * pack k fs"

fun pairs :: "nat list \<Rightarrow> nat list" where
  "pairs (a # b # fs) = (a + b) # pairs fs"
| "pairs fs = []"

text \<open>The mask that keeps every other field.\<close>

fun alternate :: "nat \<Rightarrow> nat list \<Rightarrow> nat" where
  "alternate k (a # b # fs) = 2 ^ k - 1 + 2 ^ (2 * k) * alternate k fs"
| "alternate k fs = 0"

lemma and_fields:
  fixes a c x y :: nat
  assumes "a < 2 ^ k" "c < 2 ^ k"
  shows "(a + 2 ^ k * x) AND (c + 2 ^ k * y) = (a AND c) + 2 ^ k * (x AND y)"
proof -
  let ?l = "(a + 2 ^ k * x) AND (c + 2 ^ k * y)"
  have "take_bit k (a + 2 ^ k * x) = a" "take_bit k (c + 2 ^ k * y) = c"
    "drop_bit k (a + 2 ^ k * x) = x" "drop_bit k (c + 2 ^ k * y) = y"
    using assms by (simp_all add: take_bit_eq_mod drop_bit_eq_div)
  then have "take_bit k ?l = (a AND c)" "drop_bit k ?l = (x AND y)" by simp_all
  moreover have "?l = take_bit k ?l + 2 ^ k * drop_bit k ?l"
    by (simp only: take_bit_eq_mod drop_bit_eq_div) (simp add: mult.commute)
  ultimately show ?thesis by simp
qed

lemma and_high:
  fixes n m :: nat
  shows "n AND (2 ^ k * m) = 2 ^ k * (drop_bit k n AND m)"
proof -
  have "n = n mod 2 ^ k + 2 ^ k * drop_bit k n" by (simp add: drop_bit_eq_div)
  then have "n AND (2 ^ k * m) = (n mod 2 ^ k + 2 ^ k * drop_bit k n) AND (0 + 2 ^ k * m)" by simp
  also have "\<dots> = 2 ^ k * (drop_bit k n AND m)" by (subst and_fields) simp_all
  finally show ?thesis .
qed

lemma and_full: "a < 2 ^ k \<Longrightarrow> a AND (2 ^ k - 1) = (a :: nat)"
  using take_bit_nat_eq_self [of a k] by (simp only: take_bit_eq_mask mask_eq_exp_minus_1)

text \<open>A pair of fields under the mask: the lower one stays.\<close>

lemma and_alternate:
  fixes a n m :: nat
  assumes "a < 2 ^ k"
  shows "(a + 2 ^ k * n) AND (2 ^ k - 1 + 2 ^ (2 * k) * m) = a + 2 ^ (2 * k) * (drop_bit k n AND m)" (is "?l = _")
proof -
  have "?l = (a + 2 ^ k * n) AND (2 ^ k - 1 + 2 ^ k * (2 ^ k * m))" by (simp add: mult_2 power_add mult.assoc)
  also have "\<dots> = a + 2 ^ k * (n AND (2 ^ k * m))" using assms by (subst and_fields) (simp_all add: and_full [simplified])
  also have "\<dots> = a + 2 ^ (2 * k) * (drop_bit k n AND m)" by (simp add: and_high mult_2 power_add mult.assoc)
  finally show ?thesis .
qed

lemma drop_pack: "f < 2 ^ k \<Longrightarrow> drop_bit k (pack k (f # fs)) = pack k fs"
  by (simp add: drop_bit_eq_div)

section \<open>The three folding steps\<close>

lemma fold_add:
  assumes "\<forall>f \<in> set fs. f < 2 ^ k" "even (length fs)"
  shows "(pack k fs AND alternate k fs) + (drop_bit k (pack k fs) AND alternate k fs) = pack (2 * k) (pairs fs)"
  using assms
proof (induction fs rule: pairs.induct)
  case (1 a b fs)
  have d: "drop_bit k (pack k (b # fs)) = pack k fs" using 1 by (intro drop_pack) simp
  have "pack k (a # b # fs) AND alternate k (a # b # fs) = a + 2 ^ (2 * k) * (pack k fs AND alternate k fs)"
    using and_alternate [of a k "pack k (b # fs)" "alternate k fs"] 1 d by simp
  moreover have "drop_bit k (pack k (a # b # fs)) AND alternate k (a # b # fs) = b + 2 ^ (2 * k) * (drop_bit k (pack k fs) AND alternate k fs)"
    using and_alternate [of b k "pack k fs" "alternate k fs"] 1 drop_pack [of a k "b # fs"] by simp
  moreover have "(pack k fs AND alternate k fs) + (drop_bit k (pack k fs) AND alternate k fs) = pack (2 * k) (pairs fs)"
    using 1 by simp
  ultimately show ?case by (simp add: add_mult_distrib2 [symmetric])
qed simp_all

text \<open>For fields of one bit, subtracting the upper of each pair leaves the sum of the two.\<close>

lemma fold_sub:
  assumes "\<forall>f \<in> set fs. f < 2" "even (length fs)"
  shows "drop_bit 1 (pack 1 fs) AND alternate 1 fs \<le> pack 1 fs"
    "pack 1 fs - (drop_bit 1 (pack 1 fs) AND alternate 1 fs) = pack 2 (pairs fs)"
proof -
  have "pack 1 fs = (drop_bit 1 (pack 1 fs) AND alternate 1 fs) + pack 2 (pairs fs)"
    using assms
  proof (induction fs rule: pairs.induct)
    case (1 a b fs)
    have "drop_bit 1 (pack 1 (a # b # fs)) AND alternate 1 (a # b # fs) = b + 4 * (drop_bit 1 (pack 1 fs) AND alternate 1 fs)"
      using and_alternate [of b 1 "pack 1 fs" "alternate 1 fs"] 1 drop_pack [of a 1 "b # fs"] by simp
    then show ?case using 1 by simp
  qed simp_all
  then show "drop_bit 1 (pack 1 fs) AND alternate 1 fs \<le> pack 1 fs"
    "pack 1 fs - (drop_bit 1 (pack 1 fs) AND alternate 1 fs) = pack 2 (pairs fs)" by linarith+
qed

text \<open>When no two neighbours overflow a field, adding first and masking afterwards gives the same.\<close>

lemma fold_mask:
  assumes "\<forall>f \<in> set fs. 2 * f < 2 ^ k" "even (length fs)"
  shows "(pack k fs + drop_bit k (pack k fs)) AND alternate k fs = pack (2 * k) (pairs fs)"
  using assms
proof (induction fs rule: pairs.induct)
  case (1 a b fs)
  have ab: "a < 2 ^ k" "b < 2 ^ k" "a + b < 2 ^ k" using 1(2) by auto
  have d: "drop_bit k (b + pack k fs + 2 ^ k * pack k fs) = pack k fs + drop_bit k (pack k fs)"
  proof (cases fs)
    case (Cons c gs)
    then have "b + c < 2 ^ k" "c < 2 ^ k" using 1(2) by auto
    moreover have "b + pack k fs + 2 ^ k * pack k fs = (b + c) + 2 ^ k * (pack k fs + pack k gs)"
      by (simp add: Cons algebra_simps)
    moreover have "((b + c) + 2 ^ k * q) div 2 ^ k = q" for q using \<open>b + c < 2 ^ k\<close> by simp
    ultimately have "drop_bit k (b + pack k fs + 2 ^ k * pack k fs) = pack k fs + pack k gs" by (simp only: drop_bit_eq_div)
    then show ?thesis using drop_pack [OF \<open>c < 2 ^ k\<close>, of gs] by (simp only: Cons)
  qed (use ab in \<open>simp add: drop_bit_eq_div\<close>)
  have "pack k (a # b # fs) + drop_bit k (pack k (a # b # fs)) = (a + b) + 2 ^ k * (b + pack k fs + 2 ^ k * pack k fs)"
    using drop_pack [of a k "b # fs"] ab by (simp add: algebra_simps)
  then have "(pack k (a # b # fs) + drop_bit k (pack k (a # b # fs))) AND alternate k (a # b # fs)
      = (a + b) + 2 ^ (2 * k) * ((pack k fs + drop_bit k (pack k fs)) AND alternate k fs)"
    using and_alternate [OF ab(3), of "b + pack k fs + 2 ^ k * pack k fs" "alternate k fs"] by (simp only: alternate.simps d)
  then show ?case using 1 by simp
qed simp_all

section \<open>The count of a word\<close>

lemma pack_bound: "\<forall>f \<in> set fs. f < 2 ^ k \<Longrightarrow> pack k fs < 2 ^ (k * length fs)"
proof (induction fs)
  case (Cons f fs)
  then have "f + 2 ^ k * pack k fs < 2 ^ k + 2 ^ k * pack k fs" "pack k fs + 1 \<le> 2 ^ (k * length fs)" by simp_all
  moreover have "2 ^ k * (pack k fs + 1) \<le> 2 ^ k * (2 ^ (k * length fs) :: nat)" using calculation(2) by (rule mult_le_mono2)
  ultimately show ?case by (simp add: power_add)
qed simp

lemma pack_double: "pack k (map (\<lambda>f. 2 * f) fs) = 2 * pack k fs"
  by (induction fs) simp_all

lemma pairs_sum: "even (length fs) \<Longrightarrow> sum_list (pairs fs) = sum_list fs"
  by (induction fs rule: pairs.induct) simp_all

lemma pairs_le: "\<forall>f \<in> set fs. f \<le> c \<Longrightarrow> \<forall>f \<in> set (pairs fs). f \<le> 2 * c"
  by (induction fs rule: pairs.induct) auto

lemma length_pairs: "length (pairs fs) = length fs div 2"
  by (induction fs rule: pairs.induct) simp_all

lemma alternate_cong: "length fs = length gs \<Longrightarrow> alternate k fs = alternate k gs"
proof (induction fs arbitrary: gs rule: pairs.induct)
  case (1 a b fs)
  then obtain c d hs where "gs = c # d # hs" by (metis length_Suc_conv)
  then show ?case using 1 by simp
qed (auto simp: Suc_length_conv)

lemma replicate_numeral: "replicate (numeral n) x = x # replicate (pred_numeral n) x"
  by (simp add: numeral_eq_Suc)

lemma closed_masks:
  "alternate 1 (replicate 64 0) = 0x5555555555555555" "alternate 2 (replicate 32 0) = 0x3333333333333333"
  "alternate 4 (replicate 16 0) = 0x0F0F0F0F0F0F0F0F"
  by (simp_all add: replicate_numeral)

lemma masks:
  "length fs = 64 \<Longrightarrow> alternate 1 fs = 0x5555555555555555"
  "length fs = 32 \<Longrightarrow> alternate 2 fs = 0x3333333333333333"
  "length fs = 16 \<Longrightarrow> alternate 4 fs = 0x0F0F0F0F0F0F0F0F"
  using alternate_cong [of fs "replicate 64 0" 1] alternate_cong [of fs "replicate 32 0" 2] alternate_cong [of fs "replicate 16 0" 4]
    closed_masks by (simp_all only: length_replicate)

lemma unat_drop: "unat (drop_bit n v) = drop_bit n (unat v)" for v :: uint64
proof -
  have "unat v < 2 ^ LENGTH(64)" by (rule unsigned_less)
  then have "take_bit 64 (unat v) = unat v" by (simp add: take_bit_nat_eq_self)
  then show ?thesis by (simp add: unsigned_drop_bit_eq)
qed

lemma unat_and_drop: "unat (drop_bit n v AND w) = (drop_bit n (unat v) AND unat w)" for v w :: uint64
  by (simp add: unsigned_and_eq unat_drop)

lemma step1:
  fixes v :: uint64
  assumes "unat v = pack 1 fs" "length fs = 64" "\<forall>f \<in> set fs. f < 2"
  shows "unat (v - (drop_bit 1 v AND 0x5555555555555555)) = pack 2 (pairs fs)"
proof -
  have m: "unat (drop_bit 1 v AND 0x5555555555555555) = (drop_bit 1 (pack 1 fs) AND alternate 1 fs)"
    unfolding unat_and_drop assms(1) masks(1) [OF assms(2)] by simp
  moreover have "drop_bit 1 v AND 0x5555555555555555 \<le> v"
    unfolding word_le_nat_alt m assms(1) using fold_sub(1) [OF assms(3)] assms(2) by simp
  ultimately show ?thesis using fold_sub(2) [OF assms(3)] assms(1,2) by (simp add: unat_sub)
qed

lemma step2:
  fixes v :: uint64
  assumes "unat v = pack 2 fs" "length fs = 32" "\<forall>f \<in> set fs. f \<le> 2"
  shows "unat ((v AND 0x3333333333333333) + (drop_bit 2 v AND 0x3333333333333333)) = pack 4 (pairs fs)"
proof -
  have f: "(pack 2 fs AND alternate 2 fs) + (drop_bit 2 (pack 2 fs) AND alternate 2 fs) = pack 4 (pairs fs)"
    using fold_add [of fs 2] assms(2,3) by force
  have "\<forall>f \<in> set (pairs fs). f < 2 ^ 4" using pairs_le [OF assms(3)] by fastforce
  then have b: "pack 4 (pairs fs) < 2 ^ 64" using pack_bound [of "pairs fs" 4] assms(2) by (simp add: length_pairs)
  have "unat (v AND 0x3333333333333333) = (pack 2 fs AND alternate 2 fs)"
    using unat_and_drop [of 0 v "0x3333333333333333"] assms(1) masks(2) [OF assms(2)] by simp
  moreover have "unat (drop_bit 2 v AND 0x3333333333333333) = (drop_bit 2 (pack 2 fs) AND alternate 2 fs)"
    unfolding unat_and_drop assms(1) masks(2) [OF assms(2)] by simp
  ultimately show ?thesis using f b by (simp add: unat_word_ariths)
qed

lemma step3:
  fixes v :: uint64
  assumes "unat v = pack 4 fs" "length fs = 16" "\<forall>f \<in> set fs. f \<le> 4"
  shows "unat ((v + drop_bit 4 v) AND 0x0F0F0F0F0F0F0F0F) = pack 8 (pairs fs)"
proof -
  have f: "(pack 4 fs + drop_bit 4 (pack 4 fs)) AND alternate 4 fs = pack 8 (pairs fs)"
    using fold_mask [of fs 4] assms(2,3) by force
  have "\<forall>f \<in> set (map (\<lambda>f. 2 * f) fs). f < 2 ^ 4" using assms(3) by fastforce
  then have "2 * pack 4 fs < 2 ^ 64" using pack_bound [of "map (\<lambda>f. 2 * f) fs" 4] assms(2) by (simp add: pack_double)
  moreover have "drop_bit 4 (pack 4 fs) \<le> pack 4 fs" by (simp add: drop_bit_eq_div)
  ultimately have "pack 4 fs + drop_bit 4 (pack 4 fs) < 2 ^ 64" by linarith
  moreover have "unat (drop_bit 4 v) = drop_bit 4 (pack 4 fs)"
    by (simp add: unat_drop assms(1))
  ultimately have "unat (v + drop_bit 4 v) = pack 4 fs + drop_bit 4 (pack 4 fs)"
    using assms(1) by (simp add: unat_word_ariths)
  then show ?thesis
    using unat_and_drop [of 0 "v + drop_bit 4 v" "0x0F0F0F0F0F0F0F0F"] f masks(3) [OF assms(2)] by simp
qed

text \<open>Multiplying by \<open>0x0101010101010101\<close> collects the sum of the eight bytes in the top byte.\<close>

lemma step4:
  fixes v :: uint64
  assumes "unat v = pack 8 gs" "length gs = 8" "\<forall>g \<in> set gs. g \<le> 8"
  shows "unat (drop_bit 56 (v * 0x0101010101010101)) = sum_list gs"
proof -
  obtain a b c d e f g h where gs: "gs = [a, b, c, d, e, f, g, h]"
    using assms(2) by (auto simp: length_Suc_conv numeral_eq_Suc)
  define l where "l = a + 256 * (a + b) + 65536 * (a + b + c) + 16777216 * (a + b + c + d) + 4294967296 * (a + b + c + d + e)
    + 1099511627776 * (a + b + c + d + e + f) + 281474976710656 * (a + b + c + d + e + f + g)"
  define hi where "hi = (b + c + d + e + f + g + h) + 256 * (c + d + e + f + g + h) + 65536 * (d + e + f + g + h) + 16777216 * (e + f + g + h)
    + 4294967296 * (f + g + h) + 1099511627776 * (g + h) + 281474976710656 * h"
  have le: "a \<le> 8" "b \<le> 8" "c \<le> 8" "d \<le> 8" "e \<le> 8" "f \<le> 8" "g \<le> 8" "h \<le> 8" using assms(3) by (simp_all add: gs)
  have prod: "pack 8 gs * 0x0101010101010101 = l + 2 ^ 56 * sum_list gs + 2 ^ 64 * hi"
    by (simp add: gs l_def hi_def)
  have l: "l < 2 ^ 56" "l + 2 ^ 56 * sum_list gs < 2 ^ 64" using le by (simp_all add: l_def gs)
  have "unat (v * 0x0101010101010101) = (pack 8 gs * 0x0101010101010101) mod 2 ^ 64"
    by (simp add: unat_word_ariths assms(1))
  also have "\<dots> = l + 2 ^ 56 * sum_list gs" unfolding prod using l(2) by simp
  finally have "unat (v * 0x0101010101010101) div 2 ^ 56 = sum_list gs" using l(1) by simp
  then show ?thesis unfolding unat_drop by (simp only: drop_bit_eq_div [of 56 "unat x" for x])
qed

lemma count_word_fields:
  assumes "unat v = pack 1 fs" "length fs = 64" "\<forall>f \<in> set fs. f < 2"
  shows "unat (count_word v) = sum_list fs"
proof -
  have "\<forall>f \<in> set fs. f \<le> 1" using assms(3) by auto
  note le1 = pairs_le [OF this] note le2 = pairs_le [OF le1] note le3 = pairs_le [OF le2]
  have len: "length (pairs fs) = 32" "length (pairs (pairs fs)) = 16" "length (pairs (pairs (pairs fs))) = 8"
    using assms(2) by (simp_all add: length_pairs)
  have "unat (count_word v) = sum_list (pairs (pairs (pairs fs)))"
    unfolding count_word_def Let_def
    by (intro step4 step3 step2 step1 assms len) (use le1 le2 le3 in simp_all)
  then show ?thesis using len assms(2) by (simp add: pairs_sum)
qed

section \<open>The count of a packet\<close>

definition byte_bits :: "uint8 \<Rightarrow> nat list" where
  "byte_bits b = map (\<lambda>i. of_bool (bit b i)) [0..<8]"

definition popcount :: "uint8 \<Rightarrow> nat" where
  "popcount b = card {i. i < 8 \<and> bit b i}"

lemma popcount_bits: "popcount b = sum_list (byte_bits b)"
proof -
  have "sum_list (byte_bits b) = (\<Sum>i\<leftarrow>[0..<8]. if bit b i then 1 else 0)"
    unfolding byte_bits_def of_bool_def ..
  also have "\<dots> = (\<Sum>i\<in>{0..<8}. if bit b i then 1 else 0)" by (simp only: interv_sum_list_conv_sum_set_nat set_upt)
  also have "\<dots> = card {i \<in> {0..<8}. bit b i}" by (simp add: sum.If_cases Int_def)
  finally show ?thesis unfolding popcount_def by (metis (lifting) Collect_cong atLeastLessThan_iff le0)
qed

lemma pack_append: "pack 1 (xs @ ys) = pack 1 xs + 2 ^ length xs * pack 1 ys"
  by (induction xs) simp_all

lemma pack_bits: "pack 1 (map (\<lambda>b. of_bool b) bs) = horner_sum of_bool 2 bs"
  by (induction bs) (simp_all add: horner_sum_simps)

lemma pack_byte_bits: "pack 1 (byte_bits b) = unat b"
proof -
  have "pack 1 (byte_bits b) = horner_sum of_bool 2 (map (bit (unat b)) [0..<8])"
    unfolding pack_bits [symmetric] byte_bits_def by (simp add: bit_unsigned_iff comp_def)
  also have "\<dots> = take_bit 8 (unat b)" by (rule horner_sum_bit_eq_take_bit)
  also have "\<dots> = unat b"
  proof -
    have "unat b < 2 ^ LENGTH(8)" by (rule unsigned_less)
    then show ?thesis by (simp add: take_bit_nat_eq_self)
  qed
  finally show ?thesis .
qed

lemma pack_bytes: "pack 8 (map unat bs) = pack 1 (concat (map byte_bits bs))"
proof (induction bs)
  case (Cons b bs)
  have "length (byte_bits b) = 8" by (simp add: byte_bits_def)
  then show ?case using Cons by (simp only: list.map concat.simps pack_append pack_byte_bits pack.simps)
qed simp

lemma load64_fields:
  assumes "ptr + 8 \<le> length mem"
  shows "unat (load64 mem ptr) = pack 1 (concat (map byte_bits (subbytes ptr 8 mem)))"
proof -
  let ?bs = "subbytes ptr 8 mem"
  have len: "length ?bs = 8" using assms by (simp add: subbytes_def)
  have "horner_sum ucast 256 bs = (of_nat (pack 8 (map unat bs)) :: uint64)" for bs :: bytes
    by (induction bs) (simp_all add: horner_sum_simps unsigned_ucast_eq)
  then have "unat (load64 mem ptr) = pack 8 (map unat ?bs) mod 2 ^ 64"
    by (simp add: load64_def unat_of_nat)
  moreover have "\<forall>f \<in> set (map unat ?bs). f < 2 ^ 8"
  proof
    fix f assume "f \<in> set (map unat ?bs)"
    then obtain b :: uint8 where "f = unat b" by auto
    moreover have "unat b < 2 ^ LENGTH(8)" by (rule unsigned_less)
    ultimately show "f < 2 ^ 8" by simp
  qed
  then have "pack 8 (map unat ?bs) < 2 ^ 64" using pack_bound [of "map unat ?bs" 8] len by simp
  ultimately show ?thesis by (simp add: pack_bytes)
qed

lemma count_word_load:
  assumes "ptr + 8 \<le> length mem"
  shows "unat (count_word (load64 mem ptr)) = sum_list (map popcount (subbytes ptr 8 mem))"
proof -
  let ?fs = "concat (map byte_bits (subbytes ptr 8 mem))"
  have "length (concat (map byte_bits bs)) = 8 * length bs" for bs by (induction bs) (simp_all add: byte_bits_def)
  then have "length ?fs = 64" using assms by (simp add: subbytes_def)
  moreover have "\<forall>f \<in> set ?fs. f < 2" by (auto simp: byte_bits_def)
  moreover have "sum_list (concat (map byte_bits bs)) = sum_list (map popcount bs)" for bs
    by (induction bs) (simp_all add: popcount_bits)
  ultimately show ?thesis using count_word_fields [OF load64_fields [OF assms]] by simp
qed

lemma count_word_of_nat:
  assumes "ptr + 8 \<le> length mem"
  shows "count_word (load64 mem ptr) = of_nat (sum_list (map popcount (subbytes ptr 8 mem)))"
  unfolding count_word_load [OF assms, symmetric] by simp

lemma count_bit_loop_sum:
  assumes "ptr + 8 * m < len \<or> m = 0" "len \<le> ptr + 8 * (m + 1)" "ptr + 8 * (m + 1) \<le> length mem"
  shows "count_bit_loop mem len ptr acc = acc + of_nat (sum_list (map popcount (subbytes ptr (8 * (m + 1)) mem)))"
  using assms
proof (induction m arbitrary: ptr acc)
  case 0
  then show ?case using count_word_of_nat [of ptr mem] by (simp add: count_bit_loop.simps)
next
  case (Suc m)
  have w: "count_word (load64 mem ptr) = of_nat (sum_list (map popcount (subbytes ptr 8 mem)))"
    using Suc.prems(3) by (intro count_word_of_nat) simp
  have "subbytes ptr (8 * (Suc m + 1)) mem = subbytes ptr 8 mem @ subbytes (ptr + 8) (8 * (m + 1)) mem"
    by (simp add: subbytes_def take_add [of 8 "8 * (m + 1)", simplified] add.commute)
  moreover have "count_bit_loop mem len (ptr + 8) (acc + count_word (load64 mem ptr)) =
      acc + count_word (load64 mem ptr) + of_nat (sum_list (map popcount (subbytes (ptr + 8) (8 * (m + 1)) mem)))"
    using Suc.prems by (intro Suc.IH) auto
  ultimately show ?case using Suc.prems w by (simp add: count_bit_loop.simps [of mem len ptr])
qed

text \<open>
  C26. The bit count is the number of bits set. For a packet buffer of at most 65535 bytes
  (\<open>buf_len\<close> has 16 bits), the branch-free count of \<open>count_bit\<close>, eight bytes at a time, equals the
  number of one bits of the bytes it reads, which are the buffer rounded up to a multiple of eight
  bytes (and eight bytes for an empty one): for a length that is a multiple of eight, the bits of the
  packet buffer.
\<close>

theorem count_bit_popcount:
  assumes "len \<le> 65535" "n = max 1 ((len + 7) div 8)" "8 * n \<le> length mem"
  shows "unat (count_bit mem len) = sum_list (map popcount (take (8 * n) mem))"
proof -
  obtain m where m: "n = m + 1" using assms(2) by (metis add.commute le_add_diff_inverse max.cobounded1)
  have "count_bit_loop mem len 0 0 = 0 + of_nat (sum_list (map popcount (subbytes 0 (8 * (m + 1)) mem)))"
    by (rule count_bit_loop_sum) (use assms m in auto)
  then have c: "count_bit mem len = ucast (of_nat (sum_list (map popcount (take (8 * n) mem))) :: uint64)"
    by (simp add: count_bit_def subbytes_def m)
  have "popcount b \<le> 8" for b
  proof -
    have "{i. i < 8 \<and> bit b i} \<subseteq> {0..<8}" by auto
    from card_mono [OF _ this] show ?thesis by (simp add: popcount_def)
  qed
  then have "sum_list (map popcount bs) \<le> 8 * length bs" for bs by (induction bs) (auto intro: add_mono)
  from this [of "take (8 * n) mem"] have "sum_list (map popcount (take (8 * n) mem)) \<le> 64 * n" by (simp add: assms(3))
  moreover have "n \<le> 8192" using assms(1,2) by simp
  ultimately have "sum_list (map popcount (take (8 * n) mem)) < 2 ^ 32" by simp
  then show ?thesis unfolding c by (simp add: unsigned_ucast_eq take_bit_nat_eq_self unat_of_nat)
qed

theorem count_bit_popcount_witness: "unat (count_bit (255 # replicate 15 1) 9) = 23"
proof -
  have "popcount 255 = 8" "popcount 1 = 1"
    by (simp_all add: popcount_bits byte_bits_def upt_rec)
  then have "sum_list (map popcount (take (8 * 2) (255 # replicate 15 1))) = 23" by (simp add: sum_list_replicate)
  then show ?thesis using count_bit_popcount [of 9 2 "255 # replicate 15 1"] by simp
qed

section \<open>The detector\<close>

text \<open>The operations on \<open>double\<close> that the code uses.\<close>

record 'd dbl =
  d_add :: "'d \<Rightarrow> 'd \<Rightarrow> 'd"
  d_sub :: "'d \<Rightarrow> 'd \<Rightarrow> 'd"
  d_mul :: "'d \<Rightarrow> 'd \<Rightarrow> 'd"
  d_neg :: "'d \<Rightarrow> 'd"
  d_log2 :: "'d \<Rightarrow> 'd"
  d_less :: "'d \<Rightarrow> 'd \<Rightarrow> bool"
  d_of :: "uint32 \<Rightarrow> 'd"

definition ddos_entropy :: "'d dbl \<Rightarrow> 'd \<Rightarrow> 'd \<Rightarrow> 'd" where
  "ddos_entropy F set_bits total_bits =
     d_add F
       (d_sub F (d_mul F (d_neg F set_bits) (d_sub F (d_log2 F set_bits) (d_log2 F total_bits)))
          (d_mul F (d_sub F total_bits set_bits) (d_sub F (d_log2 F (d_sub F total_bits set_bits)) (d_log2 F total_bits))))
       (d_log2 F total_bits)"

definition CAPTURE_WINDOWS :: nat where "CAPTURE_WINDOWS = 256"

record 'd ddos =
  p_setbits :: "uint32 list"
  p_totbits :: "uint32 list"
  p_entropy :: "'d list"
  pkt_idx :: nat
  flag :: bool

text \<open>\<^const>\<open>None\<close> is the call of \<open>rte_exit\<close>. A packet is its memory and its \<open>buf_len\<close>.\<close>

definition ddos_detect :: "'d dbl \<Rightarrow> 'd \<Rightarrow> bytes \<times> nat \<Rightarrow> 'd ddos \<Rightarrow> 'd ddos option" where
  "ddos_detect F tresh pkt S =
     (let set_bits = count_bit (fst pkt) (snd pkt);
          tot_bits = of_nat (snd pkt * 8);
          i = pkt_idx S mod CAPTURE_WINDOWS;
          S = S\<lparr>p_setbits := (p_setbits S)[i := set_bits], p_totbits := (p_totbits S)[i := tot_bits],
                p_entropy := (p_entropy S)[i := ddos_entropy F (d_of F set_bits) (d_of F tot_bits)]\<rparr>
      in if pkt_idx S \<ge> CAPTURE_WINDOWS
         then (let total_set = sum_list (p_setbits S);
                   total_bit = sum_list (p_totbits S);
                   sum_entropy = foldl (d_add F) (d_of F 0) (p_entropy S);
                   entropy = ddos_entropy F (d_of F total_set) (d_of F total_bit);
                   next_idx = (pkt_idx S + 1) mod CAPTURE_WINDOWS + CAPTURE_WINDOWS
               in if d_less F tresh (d_sub F sum_entropy entropy)
                  then (if \<not> flag S then None else Some (S\<lparr>flag := True, pkt_idx := next_idx\<rparr>))
                  else Some (S\<lparr>flag := False, pkt_idx := next_idx\<rparr>))
         else Some (S\<lparr>pkt_idx := pkt_idx S + 1\<rparr>))"

fun ddos_run :: "'d dbl \<Rightarrow> 'd \<Rightarrow> (bytes \<times> nat) list \<Rightarrow> 'd ddos \<Rightarrow> 'd ddos option" where
  "ddos_run F tresh [] S = Some S"
| "ddos_run F tresh (p # ps) S = Option.bind (ddos_detect F tresh p S) (ddos_run F tresh ps)"

definition ddos_initial :: "'d \<Rightarrow> 'd ddos" where
  "ddos_initial zero = \<lparr>p_setbits = replicate CAPTURE_WINDOWS 0, p_totbits = replicate CAPTURE_WINDOWS 0,
     p_entropy = replicate CAPTURE_WINDOWS zero, pkt_idx = 0, flag = False\<rparr>"

text \<open>After the packets \<open>ps\<close> the window holds the last 256 of them, packet \<open>j\<close> in slot \<open>j mod 256\<close>.\<close>

definition window_of :: "'d dbl \<Rightarrow> (bytes \<times> nat) list \<Rightarrow> 'd ddos \<Rightarrow> bool" where
  "window_of F ps S \<longleftrightarrow> length (p_setbits S) = 256 \<and> length (p_totbits S) = 256 \<and> length (p_entropy S) = 256
     \<and> (\<forall>j < length ps. length ps \<le> j + 256 \<longrightarrow> p_setbits S ! (j mod 256) = count_bit (fst (ps ! j)) (snd (ps ! j))
          \<and> p_totbits S ! (j mod 256) = of_nat (snd (ps ! j) * 8)
          \<and> p_entropy S ! (j mod 256) = ddos_entropy F (d_of F (count_bit (fst (ps ! j)) (snd (ps ! j)))) (d_of F (of_nat (snd (ps ! j) * 8))))"

lemma slot_neq: "j < n \<Longrightarrow> n \<le> 255 + j \<Longrightarrow> n mod 256 \<noteq> j mod (256 :: nat)"
proof
  assume a: "j < n" "n \<le> 255 + j" "n mod 256 = j mod 256"
  then have "256 dvd n - j" using mod_eq_dvd_iff_nat [of j n 256] by simp
  then show False using a(1,2) by (auto dest: dvd_imp_le)
qed

lemma ddos_detect_window:
  assumes "window_of F ps S" "\<not> flag S" "pkt_idx S < 512" "pkt_idx S mod 256 = length ps mod 256" "pkt_idx S < 256 \<longleftrightarrow> length ps < 256"
    and "ddos_detect F tresh p S = Some S'"
  shows "window_of F (ps @ [p]) S' \<and> \<not> flag S' \<and> pkt_idx S' < 512 \<and> pkt_idx S' mod 256 = length (ps @ [p]) mod 256
    \<and> (pkt_idx S' < 256 \<longleftrightarrow> length (ps @ [p]) < 256)"
proof -
  let ?i = "length ps mod 256"
  define T where "T = S\<lparr>p_setbits := (p_setbits S)[?i := count_bit (fst p) (snd p)], p_totbits := (p_totbits S)[?i := of_nat (snd p * 8)],
    p_entropy := (p_entropy S)[?i := ddos_entropy F (d_of F (count_bit (fst p) (snd p))) (d_of F (of_nat (snd p * 8)))]\<rparr>"
  have T: "window_of F (ps @ [p]) T"
    using assms(1) by (auto simp: window_of_def T_def nth_append nth_list_update less_Suc_eq dest: slot_neq)
  have idx: "pkt_idx S' = (if pkt_idx S < 256 then pkt_idx S + 1 else (pkt_idx S + 1) mod 256 + 256)" "\<not> flag S'"
    "p_setbits S' = p_setbits T" "p_totbits S' = p_totbits T" "p_entropy S' = p_entropy T"
    using assms(2,4,6) unfolding ddos_detect_def CAPTURE_WINDOWS_def T_def Let_def by (auto split: if_splits)
  have "pkt_idx S' mod 256 = (pkt_idx S + 1) mod 256" by (simp add: idx(1))
  also have "\<dots> = length (ps @ [p]) mod 256" using assms(4) by (simp add: mod_Suc)
  finally have m: "pkt_idx S' mod 256 = length (ps @ [p]) mod 256" .
  moreover have "pkt_idx S' < 512" "pkt_idx S' < 256 \<longleftrightarrow> length (ps @ [p]) < 256"
    using assms(3-5) by (auto simp: idx(1))
  ultimately show ?thesis using T idx by (simp add: window_of_def)
qed

lemma ddos_run_append: "ddos_run F tresh (ps @ qs) S = Option.bind (ddos_run F tresh ps S) (ddos_run F tresh qs)"
  by (induction ps arbitrary: S) (auto split: bind_splits)

text \<open>
  The detector looks at the last 256 packets. After any sequence of packets on which it has not
  stopped the program, slot \<open>j mod 256\<close> of its three arrays holds the bit count, the total number of
  bits and the entropy of packet \<open>j\<close>, for each of the last 256 packets; the packet index stays below
  512, so that every access is within the arrays; and the attack flag is never set (the first detected
  attack ends the program).
\<close>

theorem ddos_window:
  assumes "ddos_run F tresh ps (ddos_initial zero) = Some S"
  shows "window_of F ps S \<and> \<not> flag S \<and> pkt_idx S < 512 \<and> pkt_idx S mod 256 = length ps mod 256
    \<and> (pkt_idx S < 256 \<longleftrightarrow> length ps < 256)"
  using assms
proof (induction ps arbitrary: S rule: rev_induct)
  case Nil
  then show ?case by (auto simp: ddos_initial_def window_of_def CAPTURE_WINDOWS_def)
next
  case (snoc p ps)
  obtain T where T: "ddos_run F tresh ps (ddos_initial zero) = Some T" "ddos_detect F tresh p T = Some S"
    using snoc.prems by (auto simp: ddos_run_append split: bind_splits)
  show ?case using ddos_detect_window [OF _ _ _ _ _ T(2)] snoc.IH [OF T(1)] by blast
qed

definition demo_dbl :: "int dbl" where
  "demo_dbl = \<lparr>d_add = (+), d_sub = (-), d_mul = (*), d_neg = uminus, d_log2 = \<lambda>x. x, d_less = (<), d_of = uint\<rparr>"

theorem ddos_window_witness:
  "\<exists>S. ddos_run demo_dbl 1200 [(replicate 8 255, 8)] (ddos_initial 0) = Some S \<and> p_totbits S ! 0 = 64 \<and> pkt_idx S < 512"
proof -
  obtain S where S: "ddos_run demo_dbl 1200 [(replicate 8 255, 8)] (ddos_initial 0) = Some S"
    by (simp add: ddos_detect_def ddos_initial_def CAPTURE_WINDOWS_def Let_def)
  show ?thesis using S ddos_window [OF S] by (auto simp: window_of_def)
qed

end
