(* ===== verification/FixedBuffer.thy ===== *)
theory FixedBuffer
  imports CArray
begin

text \<open>
  The class template \<open>FixedBuffer<SIZE>\<close> of \<open>LogStream.h\<close>, on which the streams and the asynchronous
  logger are built: an array of SIZE characters and the position \<open>cur_\<close>, here the offset from its start.
  SIZE is the length of the array.
\<close>

definition kSmallBuffer :: nat where "kSmallBuffer = 4000"
definition kLargeBuffer :: nat where "kLargeBuffer = 4000 * 1000"

record fixed_buffer =
  fb_data :: string
  fb_cur :: nat

text \<open>The constructor; \<open>junk\<close> is what the array holds before it is written.\<close>

definition fb_new :: "string \<Rightarrow> fixed_buffer" where
  "fb_new junk = \<lparr>fb_data = junk, fb_cur = 0\<rparr>"

definition fb_avail :: "fixed_buffer \<Rightarrow> int" where
  "fb_avail b = int (length (fb_data b)) - int (fb_cur b)"

text \<open>\<open>avail()\<close> is compared as an unsigned number of 64 bits. \<open>buf\<close> is the memory from the pointer on.\<close>

definition fb_append :: "string \<Rightarrow> nat \<Rightarrow> fixed_buffer \<Rightarrow> fixed_buffer option" where
  "fb_append buf len b =
     (if fb_avail b mod 2 ^ 64 > int len
      then if length buf < len then None
           else do { d \<leftarrow> wr_block (fb_data b) (fb_cur b) (take len buf);
                     Some (b\<lparr>fb_data := d, fb_cur := fb_cur b + len\<rparr>) }
      else Some b)"

definition fb_add :: "nat \<Rightarrow> fixed_buffer \<Rightarrow> fixed_buffer" where
  "fb_add len b = b\<lparr>fb_cur := fb_cur b + len\<rparr>"

definition fb_reset :: "fixed_buffer \<Rightarrow> fixed_buffer" where
  "fb_reset b = b\<lparr>fb_cur := 0\<rparr>"

definition fb_bzero :: "fixed_buffer \<Rightarrow> fixed_buffer" where
  "fb_bzero b = b\<lparr>fb_data := replicate (length (fb_data b)) NUL\<rparr>"

definition fb_text :: "fixed_buffer \<Rightarrow> string" where
  "fb_text b = take (fb_cur b) (fb_data b)"

definition fb_debugString :: "fixed_buffer \<Rightarrow> (string \<times> fixed_buffer) option" where
  "fb_debugString b = do { d \<leftarrow> wr (fb_data b) (fb_cur b) NUL; Some (d, b\<lparr>fb_data := d\<rparr>) }"

section \<open>The buffer as a bounded text\<close>

text \<open>The array has its size and the position is inside it or at its end.\<close>

definition fb_ok :: "nat \<Rightarrow> fixed_buffer \<Rightarrow> bool" where
  "fb_ok n b \<longleftrightarrow> length (fb_data b) = n \<and> fb_cur b \<le> n \<and> n < 2 ^ 31"

lemma fb_ok_new [simp]: "fb_ok n (fb_new junk) \<longleftrightarrow> length junk = n \<and> n < 2 ^ 31"
  by (simp add: fb_ok_def fb_new_def)

lemma fb_ok_reset [simp]: "fb_ok n b \<Longrightarrow> fb_ok n (fb_reset b)"
  by (simp add: fb_ok_def fb_reset_def)

lemma fb_ok_bzero [simp]: "fb_ok n b \<Longrightarrow> fb_ok n (fb_bzero b)"
  by (simp add: fb_ok_def fb_bzero_def)

lemma fb_text_new [simp]: "fb_text (fb_new junk) = ''''"
  by (simp add: fb_text_def fb_new_def)

lemma fb_text_reset [simp]: "fb_text (fb_reset b) = ''''"
  by (simp add: fb_text_def fb_reset_def)

lemma fb_text_bzero [simp]: "fb_cur b = 0 \<Longrightarrow> fb_text (fb_bzero b) = ''''" "fb_cur (fb_bzero b) = fb_cur b"
  by (simp_all add: fb_text_def fb_bzero_def)

lemma fb_cur_simps [simp]: "fb_cur (fb_new junk) = 0" "fb_cur (fb_reset b) = 0"
  by (simp_all add: fb_new_def fb_reset_def)

lemma fb_text_length: "fb_ok n b \<Longrightarrow> length (fb_text b) = fb_cur b"
  by (simp add: fb_ok_def fb_text_def)

lemma fb_avail_ok: "fb_ok n b \<Longrightarrow> fb_avail b = int (n - fb_cur b)"
  by (simp add: fb_ok_def fb_avail_def of_nat_diff)

lemma fb_avail_text: "fb_ok n b \<Longrightarrow> fb_avail b = int n - int (length (fb_text b))"
  by (simp add: fb_text_length) (simp add: fb_ok_def fb_avail_def)

text \<open>What \<open>append\<close> makes of the text: all of it or nothing.\<close>

definition put_text :: "nat \<Rightarrow> string \<Rightarrow> string \<Rightarrow> string" where
  "put_text n t c = (if length c + length t < n then c @ t else c)"

lemma fb_append_text:
  assumes b: "fb_ok n b" and len: "length t = len"
  shows "\<exists>b'. fb_append (t @ rest) len b = Some b' \<and> fb_ok n b' \<and> fb_text b' = put_text n t (fb_text b)"
proof -
  have b': "length (fb_data b) = n" "fb_cur b \<le> n" "n < 2 ^ 31" using b by (simp_all add: fb_ok_def)
  have "int (n - fb_cur b) < int (2 ^ 31)" using b'(3) by (subst of_nat_less_iff) simp
  then have "fb_avail b mod 2 ^ 64 = int (n - fb_cur b)" unfolding fb_avail_ok [OF b] by (intro mod_pos_pos_trivial) simp_all
  then have c: "fb_avail b mod 2 ^ 64 > int len \<longleftrightarrow> fb_cur b + len < n" using b'(2) by auto
  show ?thesis
  proof (cases "fb_cur b + len < n")
    case True
    have "wr_block (fb_data b) (fb_cur b) t = Some (take (fb_cur b) (fb_data b) @ t @ drop (fb_cur b + len) (fb_data b))"
      using True b'(1) len by (simp add: wr_block_def)
    then show ?thesis using True c b' len fb_text_length [OF b]
      by (simp add: fb_append_def fb_ok_def fb_text_def put_text_def)
  next
    case False
    then show ?thesis using c b len fb_text_length [OF b] by (simp add: fb_append_def put_text_def)
  qed
qed

end
