(* ===== verification/LogStream.thy ===== *)
theory LogStream
  imports FixedBuffer "HOL-Library.Signed_Division"
begin

text \<open>
  \<open>LogStream.cc\<close> and \<open>LogStream.h\<close>: the conversion of integers to text and the stream operators. The
  number formats of \<open>snprintf\<close> are arguments: an operator that calls it gets the text it produces.
\<close>

section \<open>Conversion of integers\<close>

text \<open>\<open>digits\<close> with the pointer \<open>zero\<close> to its middle.\<close>

definition digit_table :: string where "digit_table = ''9876543210123456789''"
definition zero_offset :: int where "zero_offset = 9"
definition digitsHex :: string where "digitsHex = ''0123456789ABCDEF''"

text \<open>\<open>std::reverse\<close> on the characters from \<open>i\<close> to \<open>j\<close>.\<close>

definition reverse_between :: "nat \<Rightarrow> nat \<Rightarrow> string \<Rightarrow> string" where
  "reverse_between i j d = take i d @ rev (drop i (take j d)) @ drop j d"

text \<open>Termination: division by ten brings a number closer to zero.\<close>

lemma sdiv_10_less: "i sdiv 10 \<noteq> 0 \<Longrightarrow> \<bar>i sdiv 10\<bar> < \<bar>i\<bar>" for i :: int
  by (auto simp: signed_divide_int_def abs_mult sgn_if)

function convert_loop :: "string \<Rightarrow> nat \<Rightarrow> int \<Rightarrow> (string \<times> nat) option" where
  "convert_loop d p i =
     (let lsd = i smod 10; i' = i sdiv 10
      in do { c \<leftarrow> rd digit_table (nat (zero_offset + lsd));
              d \<leftarrow> wr d p c;
              if i' \<noteq> 0 then convert_loop d (p + 1) i' else Some (d, p + 1) })"
  by pat_completeness auto
termination by (relation "measure (\<lambda>(d, p, i). nat \<bar>i\<bar>)") (auto simp: sdiv_10_less)

declare convert_loop.simps [simp del]

text \<open>\<open>convert\<close> writes from the offset \<open>buf\<close> on; the value is of a signed or of an unsigned type.\<close>

definition convert :: "string \<Rightarrow> nat \<Rightarrow> int \<Rightarrow> (string \<times> nat) option" where
  "convert d buf value =
     do { (d, p) \<leftarrow> convert_loop d buf value;
          (d, p) \<leftarrow> (if value < 0 then do { d \<leftarrow> wr d p CHR ''-''; Some (d, p + 1) } else Some (d, p));
          d \<leftarrow> wr d p NUL;
          Some (reverse_between buf p d, p - buf) }"

lemma unat_div_16_less: "i div 16 \<noteq> 0 \<Longrightarrow> unat (i div 16) < unat i" for i :: uint64
proof -
  assume "i div 16 \<noteq> 0"
  then have "unat i \<noteq> 0" by (metis div_0 unat_eq_zero)
  then show ?thesis by (simp add: unat_div)
qed

function convertHex_loop :: "string \<Rightarrow> nat \<Rightarrow> uint64 \<Rightarrow> (string \<times> nat) option" where
  "convertHex_loop d p i =
     (let lsd = unat (i mod 16); i' = i div 16
      in do { c \<leftarrow> rd digitsHex lsd;
              d \<leftarrow> wr d p c;
              if i' \<noteq> 0 then convertHex_loop d (p + 1) i' else Some (d, p + 1) })"
  by pat_completeness auto
termination by (relation "measure (\<lambda>(d, p, i). unat i)") (auto simp: unat_div_16_less)

declare convertHex_loop.simps [simp del]

definition convertHex :: "string \<Rightarrow> nat \<Rightarrow> uint64 \<Rightarrow> (string \<times> nat) option" where
  "convertHex d buf value =
     do { (d, p) \<leftarrow> convertHex_loop d buf value;
          d \<leftarrow> wr d p NUL;
          Some (reverse_between buf p d, p - buf) }"

section \<open>The stream\<close>

definition kMaxNumericSize :: nat where "kMaxNumericSize = 32"

definition formatInteger :: "int \<Rightarrow> fixed_buffer \<Rightarrow> fixed_buffer option" where
  "formatInteger v b =
     (if fb_avail b \<ge> int kMaxNumericSize
      then do { (d, len) \<leftarrow> convert (fb_data b) (fb_cur b) v; Some (fb_add len (b\<lparr>fb_data := d\<rparr>)) }
      else Some b)"

definition out_bool :: "bool \<Rightarrow> fixed_buffer \<Rightarrow> fixed_buffer option" where
  "out_bool v = fb_append (if v then ''1'' else ''0'') 1"

definition out_int :: "32 word \<Rightarrow> fixed_buffer \<Rightarrow> fixed_buffer option" where "out_int v = formatInteger (sint v)"
definition out_uint :: "32 word \<Rightarrow> fixed_buffer \<Rightarrow> fixed_buffer option" where "out_uint v = formatInteger (uint v)"
definition out_short :: "16 word \<Rightarrow> fixed_buffer \<Rightarrow> fixed_buffer option" where "out_short v = out_int (scast v)"
definition out_ushort :: "16 word \<Rightarrow> fixed_buffer \<Rightarrow> fixed_buffer option" where "out_ushort v = out_uint (ucast v)"
definition out_long :: "64 word \<Rightarrow> fixed_buffer \<Rightarrow> fixed_buffer option" where "out_long v = formatInteger (sint v)"
definition out_ulong :: "64 word \<Rightarrow> fixed_buffer \<Rightarrow> fixed_buffer option" where "out_ulong v = formatInteger (uint v)"

definition out_pointer :: "uint64 \<Rightarrow> fixed_buffer \<Rightarrow> fixed_buffer option" where
  "out_pointer v b =
     (if fb_avail b \<ge> int kMaxNumericSize
      then do { d \<leftarrow> wr (fb_data b) (fb_cur b) CHR ''0'';
                d \<leftarrow> wr d (fb_cur b + 1) CHR ''x'';
                (d, len) \<leftarrow> convertHex d (fb_cur b + 2) v;
                Some (fb_add (len + 2) (b\<lparr>fb_data := d\<rparr>)) }
      else Some b)"

text \<open>\<open>snprintf\<close> with room for \<open>n\<close> characters, the terminator included, when the text is \<open>s\<close>.\<close>

definition c_snprintf :: "string \<Rightarrow> nat \<Rightarrow> nat \<Rightarrow> string \<Rightarrow> string option" where
  "c_snprintf d p n s = (if n = 0 then Some d else wr_block d p (take (n - 1) s @ [NUL]))"

definition out_double :: "string \<Rightarrow> fixed_buffer \<Rightarrow> fixed_buffer option" where
  "out_double s b =
     (if fb_avail b \<ge> int kMaxNumericSize
      then do { d \<leftarrow> c_snprintf (fb_data b) (fb_cur b) kMaxNumericSize s; Some (fb_add (length s) (b\<lparr>fb_data := d\<rparr>)) }
      else Some b)"

definition out_char :: "char \<Rightarrow> fixed_buffer \<Rightarrow> fixed_buffer option" where
  "out_char v = fb_append [v] 1"

text \<open>A string of C is the memory behind the pointer, or a null pointer.\<close>

definition out_cstr :: "string option \<Rightarrow> fixed_buffer \<Rightarrow> fixed_buffer option" where
  "out_cstr str b =
     (case str of
        Some s \<Rightarrow> do { n \<leftarrow> strlen s; fb_append s n b }
      | None \<Rightarrow> fb_append ''(null)'' 6 b)"

definition out_string :: "string \<Rightarrow> fixed_buffer \<Rightarrow> fixed_buffer option" where
  "out_string v = fb_append (v @ [NUL]) (length v)"

definition out_piece :: "string \<Rightarrow> nat \<Rightarrow> fixed_buffer \<Rightarrow> fixed_buffer option" where
  "out_piece data len = fb_append data len"

definition out_buffer :: "fixed_buffer \<Rightarrow> fixed_buffer \<Rightarrow> fixed_buffer option" where
  "out_buffer v = out_piece (fb_data v) (fb_cur v)"

text \<open>The class \<open>Fmt\<close>: a failed assertion ends the program.\<close>

definition Fmt :: "string \<Rightarrow> string \<Rightarrow> (string \<times> nat) option" where
  "Fmt junk s = do { buf \<leftarrow> c_snprintf junk 0 32 s; if length s < 32 then Some (buf, length s) else None }"

definition out_fmt :: "string \<times> nat \<Rightarrow> fixed_buffer \<Rightarrow> fixed_buffer option" where
  "out_fmt f = fb_append (fst f) (snd f)"

section \<open>Digits of a number\<close>

text \<open>The digits to a base, the last one first, and the number they stand for.\<close>

fun rdigits :: "nat \<Rightarrow> nat \<Rightarrow> nat list" where
  "rdigits b n = (if n < b \<or> b < 2 then [n] else n mod b # rdigits b (n div b))"

declare rdigits.simps [simp del]

definition digit_char :: "nat \<Rightarrow> char" where
  "digit_char n = char_of (if n < 10 then 48 + n else 55 + n)"

definition digit_val :: "char \<Rightarrow> nat" where
  "digit_val c = (if of_char c < (58::nat) then of_char c - 48 else of_char c - 55)"

definition num_text :: "nat \<Rightarrow> nat \<Rightarrow> string" where
  "num_text b n = map digit_char (rev (rdigits b n))"

definition num_val :: "nat \<Rightarrow> string \<Rightarrow> nat" where
  "num_val b s = foldl (\<lambda>n c. b * n + digit_val c) 0 s"

definition int_text :: "int \<Rightarrow> string" where
  "int_text v = (if v < 0 then ''-'' else '''') @ num_text 10 (nat \<bar>v\<bar>)"

fun int_val :: "string \<Rightarrow> int" where
  "int_val (c # s) = (if c = CHR ''-'' then - int (num_val 10 s) else int (num_val 10 (c # s)))"
| "int_val [] = 0"

lemma rdigits_less: "1 < b \<Longrightarrow> d \<in> set (rdigits b n) \<Longrightarrow> d < b"
proof (induction b n rule: rdigits.induct)
  case (1 b n)
  have "d \<in> set (if n < b \<or> b < 2 then [n] else n mod b # rdigits b (n div b))" using 1(3) rdigits.simps [of b n] by simp
  then show ?case using 1(1,2) by (auto split: if_splits)
qed

lemma rdigits_not_Nil [simp]: "rdigits b n \<noteq> []"
  by (subst rdigits.simps) simp

lemma foldr_rdigits: "1 < b \<Longrightarrow> foldr (\<lambda>d v. b * v + d) (rdigits b n) 0 = n"
proof (induction b n rule: rdigits.induct)
  case (1 b n)
  then show ?case by (subst rdigits.simps) auto
qed

lemma rdigits_length: "1 < b \<Longrightarrow> n < b ^ Suc k \<Longrightarrow> length (rdigits b n) \<le> Suc k"
proof (induction k arbitrary: n)
  case 0
  then show ?case by (subst rdigits.simps) simp
next
  case (Suc k)
  then have "n div b < b ^ Suc k" by (simp add: less_mult_imp_div_less mult.commute)
  then show ?case using Suc.IH [of "n div b"] Suc.prems(1) by (subst rdigits.simps) auto
qed

lemma digit_chars: "map digit_char [0..<16] = ''0123456789ABCDEF''"
  by code_simp

lemma digit_char_nth: "n < 16 \<Longrightarrow> digit_char n = ''0123456789ABCDEF'' ! n"
  using nth_map [of n "[0..<16]" digit_char] unfolding digit_chars by simp

lemma digit_val_char: "n < 16 \<Longrightarrow> digit_val (digit_char n) = n"
  by (auto simp: digit_val_def digit_char_def)

lemma num_val_text:
  assumes "1 < b" "b \<le> 16"
  shows "num_val b (num_text b n) = n"
proof -
  have "digit_val (digit_char d) = d" if "d \<in> set (rdigits b n)" for d
    using rdigits_less [OF assms(1) that] assms(2) by (simp add: digit_val_char)
  then have "foldr (\<lambda>c v. b * v + digit_val c) (map digit_char (rdigits b n)) 0 = foldr (\<lambda>d v. b * v + d) (rdigits b n) 0"
    unfolding foldr_map comp_def by (intro foldr_cong) simp_all
  then show ?thesis using foldr_rdigits [OF assms(1)] by (simp add: num_val_def num_text_def foldl_conv_foldr rev_map)
qed

lemma digit_char_not_minus: "n < 16 \<Longrightarrow> digit_char n \<noteq> CHR ''-''"
  by (auto simp: digit_char_def dest: arg_cong [where f = "of_char :: char \<Rightarrow> nat"])

lemma int_val_text: "int_val (int_text v) = v"
proof -
  have n: "num_val 10 (num_text 10 (nat \<bar>v\<bar>)) = nat \<bar>v\<bar>" by (rule num_val_text) simp_all
  obtain c s where t: "num_text 10 (nat \<bar>v\<bar>) = c # s" by (cases "num_text 10 (nat \<bar>v\<bar>)") (auto simp: num_text_def)
  then have "c \<in> set (num_text 10 (nat \<bar>v\<bar>))" by simp
  then obtain d where "c = digit_char d" "d < 10" by (auto simp: num_text_def dest: rdigits_less [rotated])
  then have "c \<noteq> CHR ''-''" using digit_char_not_minus by simp
  then show ?thesis using n t by (auto simp: int_text_def)
qed

lemma num_text_length: "1 < b \<Longrightarrow> n < b ^ Suc k \<Longrightarrow> length (num_text b n) \<le> Suc k"
  by (simp add: num_text_def rdigits_length)

section \<open>The conversions write the digits\<close>

lemma abs_smod_10: "nat \<bar>i smod 10\<bar> = nat \<bar>i\<bar> mod 10" "nat \<bar>i sdiv 10\<bar> = nat \<bar>i\<bar> div 10" for i :: int
  by (auto simp: signed_modulo_int_def signed_divide_int_def abs_mult sgn_if nat_mod_distrib nat_div_distrib)

lemma smod_10_bound: "- 9 \<le> i smod 10" "i smod 10 \<le> 9" for i :: int
  using pos_mod_bound [of 10 "\<bar>i\<bar>"] pos_mod_sign [of 10 "\<bar>i\<bar>"] unfolding signed_modulo_int_def sgn_if by auto

lemma digit_table_digit: "rd digit_table (nat (zero_offset + i smod 10)) = Some (digit_char (nat \<bar>i\<bar> mod 10))"
proof -
  have "l \<in> {-9, -8, -7, -6, -5, -4, -3, -2, -1, 0, 1, 2, 3, 4, 5, 6, 7, 8, 9}" if "- 9 \<le> l" "l \<le> 9" for l :: int
    using that unfolding insert_iff empty_iff by presburger
  from this [OF smod_10_bound(1,2) [of i]] show ?thesis
    unfolding abs_smod_10(1) [symmetric] by (elim insertE) (simp_all add: rd_def digit_table_def zero_offset_def digit_char_nth)
qed

lemma hex_table_digit: "n < 16 \<Longrightarrow> rd digitsHex n = Some (digit_char n)"
proof -
  assume "n < 16"
  then have "n \<in> {0, 1, 2, 3, 4, 5, 6, 7, 8, 9, 10, 11, 12, 13, 14, 15}" unfolding insert_iff empty_iff by presburger
  then show ?thesis by (elim insertE) (simp_all add: rd_def digitsHex_def digit_char_nth)
qed

text \<open>Writing a list of characters one after the other.\<close>

lemma wr_then_block:
  assumes "p + length (c # cs) \<le> length d"
  shows "wr d p c = Some (d[p := c])" "p + 1 + length cs \<le> length (d[p := c])"
    "take (p + 1) (d[p := c]) @ cs @ drop (p + 1 + length cs) (d[p := c]) = take p d @ (c # cs) @ drop (p + length (c # cs)) d"
  using assms by (simp_all add: wr_def take_Suc_conv_app_nth)

lemma convert_loop_digits:
  "p + length (rdigits 10 (nat \<bar>i\<bar>)) \<le> length d \<Longrightarrow>
   convert_loop d p i = Some (take p d @ map digit_char (rdigits 10 (nat \<bar>i\<bar>)) @ drop (p + length (rdigits 10 (nat \<bar>i\<bar>))) d,
     p + length (rdigits 10 (nat \<bar>i\<bar>)))"
proof (induction d p i rule: convert_loop.induct)
  case (1 d p i)
  define c where "c = digit_char (nat \<bar>i\<bar> mod 10)"
  have r: "rd digit_table (nat (zero_offset + i smod 10)) = Some c" by (simp add: digit_table_digit c_def)
  show ?case
  proof (cases "i sdiv 10 = 0")
    case True
    then have ds: "nat \<bar>i\<bar> < 10" using abs_smod_10(2) [of i] by simp
    then have rd: "rdigits 10 (nat \<bar>i\<bar>) = [nat \<bar>i\<bar>]" by (subst rdigits.simps) simp
    then show ?thesis using 1(2) True r ds wr_then_block [of p c "[]" d]
      by (subst convert_loop.simps) (simp add: Let_def c_def take_Suc_conv_app_nth upd_conv_take_nth_drop)
  next
    case False
    then have "\<not> nat \<bar>i\<bar> < 10" using abs_smod_10(2) [of i] by auto
    then have ds: "rdigits 10 (nat \<bar>i\<bar>) = nat \<bar>i\<bar> mod 10 # rdigits 10 (nat \<bar>i sdiv 10\<bar>)"
      unfolding abs_smod_10 by (subst rdigits.simps) simp
    define ds' where "ds' = rdigits 10 (nat \<bar>i sdiv 10\<bar>)"
    have w: "p + length (c # map digit_char ds') \<le> length d" using 1(2) ds by (simp add: ds'_def)
    show ?thesis
      using 1(1) [OF refl refl r wr_then_block(1) [OF w] False] wr_then_block(2,3) [OF w] r wr_then_block(1) [OF w] False
      by (subst convert_loop.simps) (simp add: Let_def ds ds'_def [symmetric] c_def)
  qed
qed

lemma convertHex_loop_digits:
  "p + length (rdigits 16 (unat i)) \<le> length d \<Longrightarrow>
   convertHex_loop d p i = Some (take p d @ map digit_char (rdigits 16 (unat i)) @ drop (p + length (rdigits 16 (unat i))) d,
     p + length (rdigits 16 (unat i)))"
proof (induction d p i rule: convertHex_loop.induct)
  case (1 d p i)
  define c where "c = digit_char (unat i mod 16)"
  have r: "rd digitsHex (unat (i mod 16)) = Some c" by (simp add: unat_mod c_def hex_table_digit)
  show ?case
  proof (cases "i div 16 = 0")
    case True
    then have "unat i div 16 = 0" using unat_div [of i 16] by simp
    then have ds: "unat i < 16" by simp
    then have rd: "rdigits 16 (unat i) = [unat i]" by (subst rdigits.simps) simp
    then show ?thesis using 1(2) True r ds wr_then_block [of p c "[]" d]
      by (subst convertHex_loop.simps) (simp add: Let_def c_def take_Suc_conv_app_nth upd_conv_take_nth_drop)
  next
    case False
    have e: "unat (i div 16) = unat i div 16" by (simp add: unat_div)
    then have "\<not> unat i < 16" using False by (auto simp flip: unat_eq_zero)
    then have ds: "rdigits 16 (unat i) = unat i mod 16 # rdigits 16 (unat (i div 16))"
      unfolding e by (subst rdigits.simps) simp
    define ds' where "ds' = rdigits 16 (unat (i div 16))"
    have w: "p + length (c # map digit_char ds') \<le> length d" using 1(2) ds by (simp add: ds'_def)
    show ?thesis
      using 1(1) [OF refl refl r wr_then_block(1) [OF w] False] wr_then_block(2,3) [OF w] r wr_then_block(1) [OF w] False
      by (subst convertHex_loop.simps) (simp add: Let_def ds ds'_def [symmetric] c_def)
  qed
qed

text \<open>The terminator and the reversal.\<close>

lemma reverse_written:
  assumes "length u = buf"
  shows "reverse_between buf (buf + length t) (u @ t @ w) = u @ rev t @ w"
  using assms by (simp add: reverse_between_def)

lemma convert_text:
  assumes "buf + length (int_text v) < length d"
  shows "convert d buf v = Some (take buf d @ int_text v @ NUL # drop (buf + length (int_text v) + 1) d, length (int_text v))"
proof -
  let ?ds = "map digit_char (rdigits 10 (nat \<bar>v\<bar>))"
  define t where "t = ?ds @ (if v < 0 then ''-'' else '''')"
  have rt: "rev t = int_text v" by (simp add: t_def int_text_def num_text_def rev_map)
  then have len: "length t = length (int_text v)" by (metis length_rev)
  have ds: "buf + length ?ds \<le> length d" using assms len by (simp add: t_def)
  have "convert_loop d buf v = Some (take buf d @ ?ds @ drop (buf + length ?ds) d, buf + length ?ds)"
    using convert_loop_digits [of buf v d] ds by simp
  moreover have "wr (take buf d @ ?ds @ drop (buf + length ?ds) d) (buf + length ?ds) CHR ''-'' = Some (take buf d @ t @ drop (buf + length t) d)" if "v < 0"
    using that assms [folded len] by (simp add: wr_def t_def list_update_append) (simp add: Cons_nth_drop_Suc [symmetric])
  ultimately have "convert d buf v = do { d' \<leftarrow> wr (take buf d @ t @ drop (buf + length t) d) (buf + length t) NUL;
      Some (reverse_between buf (buf + length t) d', length t) }"
    by (simp add: convert_def t_def)
  moreover have "wr (take buf d @ t @ drop (buf + length t) d) (buf + length t) NUL = Some (take buf d @ t @ NUL # drop (buf + length t + 1) d)"
    using assms [folded len] by (simp add: wr_def list_update_append) (simp add: Cons_nth_drop_Suc [symmetric])
  ultimately show ?thesis using reverse_written [of "take buf d" buf t] assms rt len by simp
qed

lemma convertHex_text:
  assumes "buf + length (num_text 16 (unat v)) < length d"
  shows "convertHex d buf v = Some (take buf d @ num_text 16 (unat v) @ NUL # drop (buf + length (num_text 16 (unat v)) + 1) d,
    length (num_text 16 (unat v)))"
proof -
  define t where "t = map digit_char (rdigits 16 (unat v))"
  have rt: "rev t = num_text 16 (unat v)" by (simp add: t_def num_text_def rev_map)
  then have len: "length t = length (num_text 16 (unat v))" by (metis length_rev)
  have "convertHex_loop d buf v = Some (take buf d @ t @ drop (buf + length t) d, buf + length t)"
    using convertHex_loop_digits [of buf v d] assms [folded len] by (simp add: t_def)
  moreover have "wr (take buf d @ t @ drop (buf + length t) d) (buf + length t) NUL = Some (take buf d @ t @ NUL # drop (buf + length t + 1) d)"
    using assms [folded len] by (simp add: wr_def list_update_append) (simp add: Cons_nth_drop_Suc [symmetric])
  ultimately show ?thesis using reverse_written [of "take buf d" buf t] assms rt len by (simp add: convertHex_def)
qed

lemma int_text_length:
  assumes "\<bar>v\<bar> < 10 ^ 20"
  shows "length (int_text v) \<le> 21"
proof -
  have "nat \<bar>v\<bar> < nat (10 ^ 20)" using assms by (subst nat_less_eq_zless) simp_all
  then have "nat \<bar>v\<bar> < 10 ^ Suc 19" by (simp add: nat_power_eq)
  then show ?thesis using num_text_length [of 10 "nat \<bar>v\<bar>" 19] by (auto simp: int_text_def abs_if split: if_splits)
qed

lemma word_int_text_length:
  "length (int_text (sint (v :: 64 word))) \<le> 21" "length (int_text (uint (v :: 64 word))) \<le> 21"
  "length (int_text (sint (w :: 32 word))) \<le> 21" "length (int_text (uint (w :: 32 word))) \<le> 21"
  using sint_range_size [of v] sint_range_size [of w] uint_range_size [of v] uint_range_size [of w]
  by (auto simp: word_size intro!: int_text_length)

lemma hex_text_length: "length (num_text 16 (unat (v :: uint64))) \<le> 16"
proof -
  have "unat v < 16 ^ Suc 15" using unsigned_less [of v, where 'a = nat] by simp
  then show ?thesis using num_text_length [of 16 "unat v" 15] by simp
qed

lemma text_no_nul: "NUL \<notin> set (int_text v)"
proof -
  have "digit_char d \<noteq> NUL" if "d < 10" for d using that by (auto simp: digit_char_def dest: arg_cong [where f = "of_char :: char \<Rightarrow> nat"])
  then show ?thesis by (fastforce simp: int_text_def num_text_def dest!: rdigits_less [rotated])
qed

text \<open>
  Integers are printed as they are: \<open>convert\<close> on any value of a signed or unsigned type of 64 bits, the
  least negative one included, writes at most 21 characters and the terminator after them, changes nothing
  else in the array, and reading the text as a decimal number gives the value back.
\<close>

theorem convert_roundtrip:
  assumes "- (2 ^ 63) \<le> v" "v < 2 ^ 64" "buf + 22 \<le> length d"
  shows "\<exists>d' len. convert d buf v = Some (d', len) \<and> len \<le> 21 \<and> length d' = length d
    \<and> map_option int_val (c_text (drop buf d')) = Some v \<and> take buf d' = take buf d \<and> drop (buf + len + 1) d' = drop (buf + len + 1) d"
proof -
  have len: "length (int_text v) \<le> 21" using assms(1,2) by (intro int_text_length) auto
  then have "convert d buf v = Some (take buf d @ int_text v @ NUL # drop (buf + length (int_text v) + 1) d, length (int_text v))"
    using assms(3) by (intro convert_text) simp
  then show ?thesis using len assms(3) c_text_append [OF text_no_nul, of v] by (simp add: int_val_text)
qed

theorem convert_roundtrip_witness:
  "\<exists>d' len. convert (replicate 30 CHR ''?'') 3 (- (2 ^ 63)) = Some (d', len) \<and> take 3 d' = ''???'' \<and> map_option int_val (c_text (drop 3 d')) = Some (- (2 ^ 63))"
  using convert_roundtrip [of "- (2 ^ 63)" 3 "replicate 30 CHR ''?''"] by (auto simp: numeral_3_eq_3)

section \<open>The operators\<close>

text \<open>The overloads of the operator; \<open>float\<close> and \<open>double\<close> are the text that \<open>snprintf\<close> makes.\<close>

datatype operand =
    OBool bool | OShort "16 word" | OUShort "16 word" | OInt "32 word" | OUInt "32 word"
  | OLong "64 word" | OULong "64 word" | OPointer uint64 | ODouble string | OChar char
  | OCStr "string option" | OString string | OPiece string nat | OBuffer fixed_buffer | OFmt "string \<times> nat"

fun stream_out :: "operand \<Rightarrow> fixed_buffer \<Rightarrow> fixed_buffer option" where
  "stream_out (OBool v) b = out_bool v b"
| "stream_out (OShort v) b = out_short v b"
| "stream_out (OUShort v) b = out_ushort v b"
| "stream_out (OInt v) b = out_int v b"
| "stream_out (OUInt v) b = out_uint v b"
| "stream_out (OLong v) b = out_long v b"
| "stream_out (OULong v) b = out_ulong v b"
| "stream_out (OPointer v) b = out_pointer v b"
| "stream_out (ODouble s) b = out_double s b"
| "stream_out (OChar c) b = out_char c b"
| "stream_out (OCStr s) b = out_cstr s b"
| "stream_out (OString s) b = out_string s b"
| "stream_out (OPiece s n) b = out_piece s n b"
| "stream_out (OBuffer v) b = out_buffer v b"
| "stream_out (OFmt f) b = out_fmt f b"

fun stream_outs :: "operand list \<Rightarrow> fixed_buffer \<Rightarrow> fixed_buffer option" where
  "stream_outs [] b = Some b"
| "stream_outs (x # xs) b = do { b \<leftarrow> stream_out x b; stream_outs xs b }"

text \<open>The specification: the text of an operand, the ones that need 32 characters of room, and what is asked of the arguments.\<close>

fun operand_text :: "operand \<Rightarrow> string" where
  "operand_text (OBool v) = (if v then ''1'' else ''0'')"
| "operand_text (OShort v) = int_text (sint v)"
| "operand_text (OUShort v) = int_text (uint v)"
| "operand_text (OInt v) = int_text (sint v)"
| "operand_text (OUInt v) = int_text (uint v)"
| "operand_text (OLong v) = int_text (sint v)"
| "operand_text (OULong v) = int_text (uint v)"
| "operand_text (OPointer v) = ''0x'' @ num_text 16 (unat v)"
| "operand_text (ODouble s) = s"
| "operand_text (OChar c) = [c]"
| "operand_text (OCStr s) = (case s of None \<Rightarrow> ''(null)'' | Some s \<Rightarrow> takeWhile (\<lambda>c. c \<noteq> NUL) s)"
| "operand_text (OString s) = s"
| "operand_text (OPiece s n) = take n s"
| "operand_text (OBuffer v) = fb_text v"
| "operand_text (OFmt f) = take (snd f) (fst f)"

fun operand_numeric :: "operand \<Rightarrow> bool" where
  "operand_numeric (OBool v) = False"
| "operand_numeric (OChar c) = False"
| "operand_numeric (OCStr s) = False"
| "operand_numeric (OString s) = False"
| "operand_numeric (OPiece s n) = False"
| "operand_numeric (OBuffer v) = False"
| "operand_numeric (OFmt f) = False"
| "operand_numeric _ = True"

fun operand_ok :: "operand \<Rightarrow> bool" where
  "operand_ok (ODouble s) = (length s < 32)"
| "operand_ok (OCStr s) = (case s of None \<Rightarrow> True | Some s \<Rightarrow> NUL \<in> set s)"
| "operand_ok (OPiece s n) = (n \<le> length s)"
| "operand_ok (OBuffer v) = (fb_cur v \<le> length (fb_data v))"
| "operand_ok (OFmt f) = (snd f \<le> length (fst f))"
| "operand_ok _ = True"

definition put_operand :: "nat \<Rightarrow> operand \<Rightarrow> string \<Rightarrow> string" where
  "put_operand n x c =
     (if operand_numeric x then if length c + kMaxNumericSize \<le> n then c @ operand_text x else c
      else put_text n (operand_text x) c)"

text \<open>The numeric operators write the text, a terminator and then move the position over the text.\<close>

lemma numeric_put:
  assumes b: "fb_ok n b" and t: "length t < kMaxNumericSize"
    and w: "fb_cur b + kMaxNumericSize \<le> n \<Longrightarrow> f b = Some (fb_add (length t) (b\<lparr>fb_data := take (fb_cur b) (fb_data b) @ t @ NUL # drop (fb_cur b + length t + 1) (fb_data b)\<rparr>))"
    and s: "\<not> fb_cur b + kMaxNumericSize \<le> n \<Longrightarrow> f b = Some b"
  shows "\<exists>b'. f b = Some b' \<and> fb_ok n b' \<and> fb_text b' = (if length (fb_text b) + kMaxNumericSize \<le> n then fb_text b @ t else fb_text b)"
proof (cases "fb_cur b + kMaxNumericSize \<le> n")
  case True
  have "length (fb_data b) = n" "fb_cur b \<le> n" "n < 2 ^ 31" using b by (simp_all add: fb_ok_def)
  then show ?thesis using w [OF True] True t fb_text_length [OF b] by (simp add: fb_ok_def fb_add_def fb_text_def)
next
  case False
  then show ?thesis using s [OF False] b fb_text_length [OF b] by simp
qed

lemma avail_32: "fb_ok n b \<Longrightarrow> fb_avail b \<ge> int kMaxNumericSize \<longleftrightarrow> fb_cur b + kMaxNumericSize \<le> n"
  by (auto simp: fb_avail_def fb_ok_def)

lemma formatInteger_put:
  assumes b: "fb_ok n b" and t: "length (int_text v) \<le> 21"
  shows "\<exists>b'. formatInteger v b = Some b' \<and> fb_ok n b' \<and> fb_text b' = (if length (fb_text b) + kMaxNumericSize \<le> n then fb_text b @ int_text v else fb_text b)"
proof (rule numeric_put [OF b])
  show "length (int_text v) < kMaxNumericSize" using t by (simp add: kMaxNumericSize_def)
  show "formatInteger v b = Some b" if "\<not> fb_cur b + kMaxNumericSize \<le> n" using that avail_32 [OF b] by (simp add: formatInteger_def)
  show "formatInteger v b = Some (fb_add (length (int_text v)) (b\<lparr>fb_data := take (fb_cur b) (fb_data b) @ int_text v @ NUL # drop (fb_cur b + length (int_text v) + 1) (fb_data b)\<rparr>))"
    if "fb_cur b + kMaxNumericSize \<le> n"
  proof -
    have "fb_cur b + length (int_text v) < length (fb_data b)" using that t b by (simp add: fb_ok_def kMaxNumericSize_def)
    from convert_text [OF this] show ?thesis using that avail_32 [OF b] by (simp add: formatInteger_def)
  qed
qed

lemma out_pointer_put:
  assumes b: "fb_ok n b"
  shows "\<exists>b'. out_pointer v b = Some b' \<and> fb_ok n b' \<and> fb_text b' = (if length (fb_text b) + kMaxNumericSize \<le> n then fb_text b @ ''0x'' @ num_text 16 (unat v) else fb_text b)"
proof (rule numeric_put [OF b])
  let ?t = "num_text 16 (unat v)"
  show "length (''0x'' @ ?t) < kMaxNumericSize" using hex_text_length [of v] by (simp add: kMaxNumericSize_def)
  show "out_pointer v b = Some b" if "\<not> fb_cur b + kMaxNumericSize \<le> n" using that avail_32 [OF b] by (simp add: out_pointer_def)
  show "out_pointer v b = Some (fb_add (length (''0x'' @ ?t)) (b\<lparr>fb_data := take (fb_cur b) (fb_data b) @ (''0x'' @ ?t) @ NUL # drop (fb_cur b + length (''0x'' @ ?t) + 1) (fb_data b)\<rparr>))"
    if r: "fb_cur b + kMaxNumericSize \<le> n"
  proof -
    define u where "u = take (fb_cur b) (fb_data b)"
    have len: "length (fb_data b) = n" "fb_cur b + 32 \<le> n" using r b by (simp_all add: fb_ok_def kMaxNumericSize_def)
    have d: "((fb_data b)[fb_cur b := CHR ''0''])[fb_cur b + 1 := CHR ''x''] = (u @ ''0x'') @ drop (fb_cur b + 2) (fb_data b)" (is "?d = _")
      unfolding u_def using len wr_then_block(3) [of "fb_cur b" "CHR ''0''" "''x''" "fb_data b"]
      by (simp add: upd_conv_take_nth_drop take_Suc_conv_app_nth)
    have u: "length u = fb_cur b" using len by (simp add: u_def)
    have "fb_cur b + 2 + length ?t < length ?d" using len hex_text_length [of v] by simp
    from convertHex_text [OF this]
    have "convertHex ?d (fb_cur b + 2) v = Some ((u @ ''0x'') @ ?t @ NUL # drop (fb_cur b + 2 + length ?t + 1) (fb_data b), length ?t)"
      using u unfolding d by (simp add: numeral_3_eq_3 add.commute)
    then show ?thesis using avail_32 [OF b] r len by (simp add: out_pointer_def wr_def u_def add.commute)
  qed
qed

lemma out_double_put:
  assumes b: "fb_ok n b" and s: "length s < 32"
  shows "\<exists>b'. out_double s b = Some b' \<and> fb_ok n b' \<and> fb_text b' = (if length (fb_text b) + kMaxNumericSize \<le> n then fb_text b @ s else fb_text b)"
proof (rule numeric_put [OF b])
  show "length s < kMaxNumericSize" using s by (simp add: kMaxNumericSize_def)
  show "out_double s b = Some b" if "\<not> fb_cur b + kMaxNumericSize \<le> n" using that avail_32 [OF b] by (simp add: out_double_def)
  show "out_double s b = Some (fb_add (length s) (b\<lparr>fb_data := take (fb_cur b) (fb_data b) @ s @ NUL # drop (fb_cur b + length s + 1) (fb_data b)\<rparr>))"
    if r: "fb_cur b + kMaxNumericSize \<le> n"
    using r s avail_32 [OF b] b by (simp add: out_double_def c_snprintf_def kMaxNumericSize_def wr_block_def fb_ok_def)
qed

lemma strlen_takeWhile: "NUL \<in> set s \<Longrightarrow> strlen s = Some (length (takeWhile (\<lambda>c. c \<noteq> NUL) s))"
  by (induction s) auto

lemma sint_scast: "sint (scast (v :: 16 word) :: 32 word) = sint v"
  by (simp add: sint_up_scast is_up)

lemma uint_ucast: "uint (ucast (v :: 16 word) :: 32 word) = uint v"
  by (simp add: uint_up_ucast is_up)

lemma stream_out_put:
  assumes b: "fb_ok n b" and x: "operand_ok x"
  shows "\<exists>b'. stream_out x b = Some b' \<and> fb_ok n b' \<and> fb_text b' = put_operand n x (fb_text b)"
proof (cases x)
  case (OBool v)
  then show ?thesis using fb_append_text [OF b, of "if v then ''1'' else ''0''" 1 "''''"] by (simp add: out_bool_def put_operand_def)
next
  case (OShort v)
  then show ?thesis using formatInteger_put [OF b word_int_text_length(3), of "scast v"] by (auto simp: out_short_def out_int_def put_operand_def sint_scast split: if_splits)
next
  case (OUShort v)
  then show ?thesis using formatInteger_put [OF b word_int_text_length(4), of "ucast v :: 32 word"] by (auto simp: out_ushort_def out_uint_def put_operand_def uint_ucast split: if_splits)
next
  case (OInt v)
  then show ?thesis using formatInteger_put [OF b word_int_text_length(3) [of v]] by (auto simp: out_int_def put_operand_def split: if_splits)
next
  case (OUInt v)
  then show ?thesis using formatInteger_put [OF b word_int_text_length(4) [of v]] by (auto simp: out_uint_def put_operand_def split: if_splits)
next
  case (OLong v)
  then show ?thesis using formatInteger_put [OF b word_int_text_length(1) [of v]] by (auto simp: out_long_def put_operand_def split: if_splits)
next
  case (OULong v)
  then show ?thesis using formatInteger_put [OF b word_int_text_length(2) [of v]] by (auto simp: out_ulong_def put_operand_def split: if_splits)
next
  case (OPointer v)
  then show ?thesis using out_pointer_put [OF b, of v] by (auto simp: put_operand_def split: if_splits)
next
  case (ODouble s)
  then show ?thesis using out_double_put [OF b, of s] x by (auto simp: put_operand_def split: if_splits)
next
  case (OChar c)
  then show ?thesis using fb_append_text [OF b, of "[c]" 1 "''''"] by (simp add: out_char_def put_operand_def)
next
  case (OCStr s)
  show ?thesis
  proof (cases s)
    case None
    then show ?thesis using OCStr fb_append_text [OF b, of "''(null)''" 6 "''''"] by (simp add: out_cstr_def put_operand_def)
  next
    case (Some t)
    then show ?thesis
      using OCStr x fb_append_text [OF b refl, of "takeWhile (\<lambda>c. c \<noteq> NUL) t" "dropWhile (\<lambda>c. c \<noteq> NUL) t"]
      by (simp add: out_cstr_def put_operand_def strlen_takeWhile)
  qed
next
  case (OString s)
  then show ?thesis using fb_append_text [OF b refl, of s "[NUL]"] by (simp add: out_string_def put_operand_def)
next
  case (OPiece s k)
  then show ?thesis using x fb_append_text [OF b, of "take k s" k "drop k s"] by (simp add: out_piece_def put_operand_def)
next
  case (OBuffer v)
  then show ?thesis using x fb_append_text [OF b, of "take (fb_cur v) (fb_data v)" "fb_cur v" "drop (fb_cur v) (fb_data v)"]
    by (simp add: out_buffer_def out_piece_def put_operand_def fb_text_def)
next
  case (OFmt f)
  then show ?thesis using x fb_append_text [OF b, of "take (snd f) (fst f)" "snd f" "drop (snd f) (fst f)"] by (simp add: out_fmt_def put_operand_def)
qed

lemma stream_outs_put:
  assumes "fb_ok n b" "\<forall>x \<in> set xs. operand_ok x"
  shows "\<exists>b'. stream_outs xs b = Some b' \<and> fb_ok n b' \<and> fb_text b' = fold (put_operand n) xs (fb_text b)"
  using assms
proof (induction xs arbitrary: b)
  case (Cons x xs)
  obtain b1 where "stream_out x b = Some b1" "fb_ok n b1" "fb_text b1 = put_operand n x (fb_text b)"
    using stream_out_put [OF Cons.prems(1), of x] Cons.prems(2) by auto
  then show ?case using Cons.IH [of b1] Cons.prems(2) by auto
qed simp

text \<open>With enough room nothing is left out.\<close>

lemma put_operands_all:
  "length c + length (concat (map operand_text xs)) + kMaxNumericSize \<le> n \<Longrightarrow> fold (put_operand n) xs c = c @ concat (map operand_text xs)"
proof (induction xs arbitrary: c)
  case (Cons x xs)
  then have "put_operand n x c = c @ operand_text x" by (simp add: put_operand_def put_text_def kMaxNumericSize_def)
  then show ?case using Cons by simp
qed simp

text \<open>
  C31. The stream implements a bounded text: whatever is put into it, in whatever order, every operator
  returns without leaving the array, and the text in the buffer is what results when each operand in
  turn is appended whole, or left out when a text has no room or a number has less than 32 characters.
\<close>

theorem log_stream_refines:
  assumes "fb_ok n b" "\<forall>x \<in> set xs. operand_ok x"
  shows "\<exists>b'. stream_outs xs b = Some b' \<and> fb_ok n b' \<and> fb_text b' = fold (put_operand n) xs (fb_text b)"
  by (rule stream_outs_put [OF assms])

theorem log_stream_refines_witness:
  "\<exists>b'. stream_outs [OString ''n = '', OInt (- 42), OCStr None, OChar CHR '';'', ODouble ''0.5''] (fb_new (replicate 40 CHR ''?'')) = Some b'
    \<and> fb_text b' = ''n = -42(null);''"
proof -
  have t: "fold (put_operand 40) [OString ''n = '', OInt (- 42), OCStr None, OChar CHR '';'', ODouble ''0.5''] '''' = ''n = -42(null);''"
    by code_simp
  show ?thesis using log_stream_refines [of 40 "fb_new (replicate 40 CHR ''?'')" "[OString ''n = '', OInt (- 42), OCStr None, OChar CHR '';'', ODouble ''0.5'']"] t
    by auto
qed

end
