(* ===== verification/CalendarDate.thy ===== *)
theory CalendarDate
  imports Prelude "HOL-Library.Monad_Syntax" "HOL-Library.Signed_Division"
begin

text \<open>
  \<open>Date.cc\<close> and \<open>Date.h\<close>: dates as Julian day numbers, with the Gregorian calendar as the reference. The
  arithmetic is that of \<open>int\<close>: a result outside 32 bits is undefined, the value \<^const>\<open>None\<close>.
\<close>

definition i32 :: "int \<Rightarrow> int option" where
  "i32 x = (if - (2 ^ 31) \<le> x \<and> x < 2 ^ 31 then Some x else None)"

section \<open>The conversions\<close>

definition getJulianDayNumber :: "int \<Rightarrow> int \<Rightarrow> int \<Rightarrow> int option" where
  "getJulianDayNumber year month day =
     do { n \<leftarrow> i32 (14 - month);
          let a = n sdiv 12;
          y \<leftarrow> i32 (year + 4800);
          y \<leftarrow> i32 (y - a);
          n \<leftarrow> i32 (12 * a);
          n \<leftarrow> i32 (month + n);
          m \<leftarrow> i32 (n - 3);
          n \<leftarrow> i32 (153 * m);
          n \<leftarrow> i32 (n + 2);
          s \<leftarrow> i32 (day + n sdiv 5);
          n \<leftarrow> i32 (y * 365);
          s \<leftarrow> i32 (s + n);
          s \<leftarrow> i32 (s + y sdiv 4);
          s \<leftarrow> i32 (s - y sdiv 100);
          s \<leftarrow> i32 (s + y sdiv 400);
          i32 (s - 32045) }"

record YearMonthDay =
  year :: int
  month :: int
  day :: int

definition getYearMonthDay :: "int \<Rightarrow> YearMonthDay option" where
  "getYearMonthDay julianDayNumber =
     do { a \<leftarrow> i32 (julianDayNumber + 32044);
          n \<leftarrow> i32 (4 * a);
          n \<leftarrow> i32 (n + 3);
          let b = n sdiv 146097;
          n \<leftarrow> i32 (b * 146097);
          c \<leftarrow> i32 (a - n sdiv 4);
          n \<leftarrow> i32 (4 * c);
          n \<leftarrow> i32 (n + 3);
          let d = n sdiv 1461;
          n \<leftarrow> i32 (1461 * d);
          e \<leftarrow> i32 (c - n sdiv 4);
          n \<leftarrow> i32 (5 * e);
          n \<leftarrow> i32 (n + 2);
          let m = n sdiv 153;
          n \<leftarrow> i32 (153 * m);
          n \<leftarrow> i32 (n + 2);
          dy \<leftarrow> i32 (e - n sdiv 5);
          dy \<leftarrow> i32 (dy + 1);
          mo \<leftarrow> i32 (m + 3);
          mo \<leftarrow> i32 (mo - 12 * (m sdiv 10));
          y \<leftarrow> i32 (b * 100);
          y \<leftarrow> i32 (y + d);
          y \<leftarrow> i32 (y - 4800);
          y \<leftarrow> i32 (y + m sdiv 10);
          Some \<lparr>year = y, month = mo, day = dy\<rparr> }"

text \<open>A \<open>Date\<close> is its day number.\<close>

definition kDaysPerWeek :: int where "kDaysPerWeek = 7"

definition kJulianDayOf1970_01_01 :: "int option" where
  "kJulianDayOf1970_01_01 = getJulianDayNumber 1970 1 1"

definition Date_valid :: "int \<Rightarrow> bool" where "Date_valid julianDayNumber = (julianDayNumber > 0)"

definition weekDay :: "int \<Rightarrow> int option" where
  "weekDay julianDayNumber = map_option (\<lambda>n. n smod kDaysPerWeek) (i32 (julianDayNumber + 1))"

section \<open>The Gregorian calendar\<close>

definition leap_year :: "int \<Rightarrow> bool" where
  "leap_year y \<longleftrightarrow> y mod 4 = 0 \<and> (y mod 100 = 0 \<longrightarrow> y mod 400 = 0)"

definition month_days :: "int \<Rightarrow> int \<Rightarrow> int" where
  "month_days y m = (if m = 2 then if leap_year y then 29 else 28 else if m \<in> {4, 6, 9, 11} then 30 else 31)"

definition valid_date :: "YearMonthDay \<Rightarrow> bool" where
  "valid_date t \<longleftrightarrow> 1 \<le> month t \<and> month t \<le> 12 \<and> 1 \<le> day t \<and> day t \<le> month_days (year t) (month t)"

definition next_day :: "YearMonthDay \<Rightarrow> YearMonthDay" where
  "next_day t =
     (if day t < month_days (year t) (month t) then t\<lparr>day := day t + 1\<rparr>
      else if month t < 12 then t\<lparr>month := month t + 1, day := 1\<rparr>
      else \<lparr>year = year t + 1, month = 1, day = 1\<rparr>)"

section \<open>The arithmetic without bounds\<close>

definition shift_year :: "YearMonthDay \<Rightarrow> int" where "shift_year t = year t + 4800 - (14 - month t) div 12"
definition shift_month :: "YearMonthDay \<Rightarrow> int" where "shift_month t = month t + 12 * ((14 - month t) div 12) - 3"

definition day_number :: "YearMonthDay \<Rightarrow> int" where
  "day_number t = day t + (153 * shift_month t + 2) div 5 + shift_year t * 365 + shift_year t div 4 - shift_year t div 100 + shift_year t div 400 - 32045"

definition date_of :: "int \<Rightarrow> YearMonthDay" where
  "date_of j =
     (let a = j + 32044; b = (4 * a + 3) div 146097; c = a - b * 146097 div 4; d = (4 * c + 3) div 1461;
          e = c - 1461 * d div 4; m = (5 * e + 2) div 153
      in \<lparr>year = b * 100 + d - 4800 + m div 10, month = m + 3 - 12 * (m div 10), day = e - (153 * m + 2) div 5 + 1\<rparr>)"

text \<open>Quotients that are known up to a remainder.\<close>

lemma div_is: "n = k * q + r \<Longrightarrow> 0 \<le> r \<Longrightarrow> r < k \<Longrightarrow> n div k = q" for k q :: int
  by (simp add: int_div_pos_eq)

text \<open>Days in the years of a century and in the centuries, counted from March: how the quotients come back.\<close>

lemma century_quotient:
  fixes b c :: int
  assumes "0 \<le> c" "c \<le> 36523 \<or> c = 36524 \<and> b mod 4 = 3"
  shows "(4 * (36524 * b + b div 4 + c) + 3) div 146097 = b" "b * 146097 div 4 = 36524 * b + b div 4"
proof -
  define q r where "q = b div 4" and "r = b mod 4"
  have b: "b = 4 * q + r" "0 \<le> r" "r < 4" by (simp_all add: q_def r_def)
  have "0 \<le> 4 * c + 3 - r" "4 * c + 3 - r < 146097" using assms b(2,3) by (auto simp: r_def)
  then show "(4 * (36524 * b + b div 4 + c) + 3) div 146097 = b"
    unfolding q_def [symmetric] using b by (intro div_is [where r = "4 * c + 3 - r"]) simp_all
  show "b * 146097 div 4 = 36524 * b + b div 4"
    unfolding q_def [symmetric] using b by (intro div_is [where r = r]) simp_all
qed

lemma year_quotient:
  fixes d e :: int
  assumes "0 \<le> e" "e \<le> 364 \<or> e = 365 \<and> d mod 4 = 3"
  shows "(4 * (365 * d + d div 4 + e) + 3) div 1461 = d" "1461 * d div 4 = 365 * d + d div 4"
proof -
  define q r where "q = d div 4" and "r = d mod 4"
  have b: "d = 4 * q + r" "0 \<le> r" "r < 4" by (simp_all add: q_def r_def)
  have "0 \<le> 4 * e + 3 - r" "4 * e + 3 - r < 1461" using assms b(2,3) by (auto simp: r_def)
  then show "(4 * (365 * d + d div 4 + e) + 3) div 1461 = d"
    unfolding q_def [symmetric] using b by (intro div_is [where r = "4 * e + 3 - r"]) simp_all
  show "1461 * d div 4 = 365 * d + d div 4"
    unfolding q_def [symmetric] using b by (intro div_is [where r = r]) simp_all
qed

text \<open>The length of a month counted from March, the last one open.\<close>

definition shifted_days :: "int \<Rightarrow> int" where
  "shifted_days m = (if m \<in> {1, 3, 6, 8} then 30 else 31)"

lemma shifted_months: "0 \<le> m \<Longrightarrow> m \<le> 11 \<Longrightarrow> m \<in> {0, 1, 2, 3, 4, 5, 6, 7, 8, 9, 10, 11}" for m :: int
  unfolding insert_iff empty_iff by presburger

lemma month_quotient:
  assumes "0 \<le> m" "m \<le> 11" "1 \<le> dy" "dy \<le> shifted_days m" "m = 11 \<longrightarrow> dy \<le> 29"
  shows "(5 * ((153 * m + 2) div 5 + dy - 1) + 2) div 153 = m" "0 \<le> (153 * m + 2) div 5" "(153 * m + 2) div 5 + dy - 1 \<le> 365"
    "(153 * m + 2) div 5 + dy - 1 = 365 \<longrightarrow> m = 11 \<and> dy = 29"
  using shifted_months [OF assms(1,2)] assms(3-5) by (elim insertE; simp add: shifted_days_def; presburger)+

lemma march_year: "1 \<le> mo \<Longrightarrow> mo \<le> 12 \<Longrightarrow> (14 - mo) div 12 = (if mo \<le> 2 then 1 else 0)" for mo :: int
  by (auto intro: div_is [where r = "2 - mo"] div_is [where r = "14 - mo"])

lemma month_div_10: "0 \<le> m \<Longrightarrow> m \<le> 11 \<Longrightarrow> m div 10 = (if m \<le> 9 then 0 else 1)" for m :: int
  by (auto intro: div_is [where r = "m - 10"])

lemma split_year:
  fixes y :: int
  shows "y = 100 * (y div 100) + y mod 100" "y div 4 = 25 * (y div 100) + y mod 100 div 4" "y div 400 = y div 100 div 4"
proof -
  show y: "y = 100 * (y div 100) + y mod 100" by simp
  define r q where "r = y mod 100 mod 4" and "q = y mod 100 div 4"
  have "y mod 100 = 4 * q + r" by (simp add: q_def r_def)
  then have "y = 4 * (25 * (y div 100) + q) + r" using y by simp
  then show "y div 4 = 25 * (y div 100) + y mod 100 div 4" unfolding q_def [symmetric] by (rule div_is) (simp_all add: r_def)
  show "y div 400 = y div 100 div 4" by (simp add: zdiv_zmult2_eq [of 4 y 100, symmetric])
qed

lemma leap_year_400: "leap_year (y + 400 * k) = leap_year y"
proof -
  have "(y + 400 * k) mod 4 = y mod 4" "(y + 400 * k) mod 100 = y mod 100"
    using mod_mult_self2 [of y 4 "100 * k"] mod_mult_self2 [of y 100 "4 * k"] by (simp_all add: mult.assoc [symmetric])
  then show ?thesis by (simp add: leap_year_def)
qed

text \<open>A valid date in the year counted from March.\<close>

lemma shifted_date:
  assumes "valid_date t"
  defines "m \<equiv> shift_month t" and "y \<equiv> shift_year t"
  shows "0 \<le> m" "m \<le> 11" "month t = m + 3 - 12 * (m div 10)" "year t = y - 4800 + m div 10"
    "1 \<le> day t" "day t \<le> shifted_days m" "m = 11 \<longrightarrow> day t \<le> 29" "m = 11 \<and> day t = 29 \<longrightarrow> leap_year (y + 1)"
proof -
  have mo: "1 \<le> month t" "month t \<le> 12" "1 \<le> day t" "day t \<le> month_days (year t) (month t)" using assms(1) by (simp_all add: valid_date_def)
  have m: "m = (if month t \<le> 2 then month t + 9 else month t - 3)" "y = (if month t \<le> 2 then year t + 4799 else year t + 4800)"
    using march_year [OF mo(1,2)] by (simp_all add: m_def y_def shift_month_def shift_year_def)
  show "0 \<le> m" "m \<le> 11" using m mo by auto
  then show "month t = m + 3 - 12 * (m div 10)" "year t = y - 4800 + m div 10" using m mo by (simp_all add: month_div_10)
  show "1 \<le> day t" by (rule mo)
  show "day t \<le> shifted_days m" using m(1) mo by (auto simp: month_days_def shifted_days_def split: if_splits)
  have eq: "m = 11 \<longleftrightarrow> month t = 2" using m(1) mo by auto
  then show "m = 11 \<longrightarrow> day t \<le> 29" using mo(4) by (auto simp: month_days_def split: if_splits)
  have "leap_year (y + 1) = leap_year (year t)" if "month t = 2"
    using that m(2) leap_year_400 [of "year t" 12] by (simp add: add.commute)
  then show "m = 11 \<and> day t = 29 \<longrightarrow> leap_year (y + 1)" using eq mo(4) by (auto simp: month_days_def split: if_splits)
qed

lemma leap_shifted:
  fixes y :: int
  shows "leap_year (y + 1) \<longleftrightarrow> y mod 100 mod 4 = 3 \<and> (y mod 100 = 99 \<longrightarrow> y div 100 mod 4 = 3)"
proof -
  define b d where "b = y div 100" and "d = y mod 100"
  have y: "y = 100 * b + d" "0 \<le> d" "d \<le> 99" by (simp_all add: b_def d_def)
  have "y + 1 = d + 1 + 4 * (25 * b)" using y(1) by simp
  then have "(y + 1) mod 4 = (d + 1) mod 4" by (simp only: mod_mult_self2)
  then have four: "(y + 1) mod 4 = 0 \<longleftrightarrow> d mod 4 = 3" by presburger
  have "(y + 1) mod 100 = (d + 1 + 100 * b) mod 100" using y(1) by (simp add: algebra_simps)
  then have hundred: "(y + 1) mod 100 = 0 \<longleftrightarrow> d = 99" using y(2,3) by (cases "d = 99") simp_all
  have "(y + 1) mod 400 = 0 \<longleftrightarrow> b mod 4 = 3" if "d = 99"
  proof -
    have "(y + 1) mod (100 * 4) = 100 * ((b + 1) mod 4)" unfolding mult_mod_right using that y(1) by (simp add: algebra_simps)
    then have "(y + 1) mod 400 = 0 \<longleftrightarrow> (b + 1) mod 4 = 0" by simp
    also have "\<dots> \<longleftrightarrow> b mod 4 = 3" by presburger
    finally show ?thesis .
  qed
  then show ?thesis using four hundred by (auto simp: leap_year_def b_def d_def)
qed

lemma date_of_day_number:
  assumes "valid_date t"
  shows "date_of (day_number t) = t"
proof -
  define m y e where "m = shift_month t" and "y = shift_year t" and "e = (153 * m + 2) div 5 + day t - 1"
  define b d where "b = y div 100" and "d = y mod 100"
  note s = shifted_date [OF assms, folded m_def y_def]
  have d: "0 \<le> d" "d \<le> 99" by (simp_all add: d_def)
  have e: "0 \<le> e" "e \<le> 365" "e = 365 \<longrightarrow> m = 11 \<and> day t = 29" "(5 * e + 2) div 153 = m"
    using month_quotient [OF s(1,2,5,6,7)] s(5) by (auto simp: e_def)
  then have leap: "e = 365 \<longrightarrow> d mod 4 = 3 \<and> (d = 99 \<longrightarrow> b mod 4 = 3)" using s(8) leap_shifted by (auto simp: b_def d_def)
  define c where "c = 365 * d + d div 4 + e"
  have d4: "d div 4 \<le> 24" using d(2) by presburger
  have "0 \<le> d div 4" using d(1) by simp
  then have "0 \<le> c" using d e by (simp add: c_def)
  moreover have "c \<le> 36523 \<or> c = 36524 \<and> d = 99 \<and> e = 365" using d d4 e(2) by (simp add: c_def) linarith
  ultimately have cb: "(4 * (36524 * b + b div 4 + c) + 3) div 146097 = b" "b * 146097 div 4 = 36524 * b + b div 4"
    using leap by (blast intro: century_quotient)+
  have "e \<le> 364 \<or> e = 365 \<and> d mod 4 = 3" using e(2) leap by auto
  note yq = year_quotient [OF e(1) this, folded c_def]
  have "day_number t + 32044 = e + y * 365 + y div 4 - y div 100 + y div 400"
    by (simp add: day_number_def e_def m_def y_def)
  also have "\<dots> = 36524 * b + b div 4 + c"
    using split_year [of y] unfolding b_def [symmetric] d_def [symmetric] by (simp add: c_def)
  finally have "day_number t + 32044 = 36524 * b + b div 4 + c" .
  moreover have "36524 * b + b div 4 + c - (36524 * b + b div 4) = c" "c - (365 * d + d div 4) = e" by (simp_all add: c_def)
  ultimately have "date_of (day_number t) = \<lparr>year = b * 100 + d - 4800 + m div 10, month = m + 3 - 12 * (m div 10), day = e - (153 * m + 2) div 5 + 1\<rparr>"
    unfolding date_of_def Let_def by (simp only: cb yq e(4))
  moreover have "b * 100 + d = y" by (simp add: b_def d_def)
  ultimately show ?thesis using s(3,4) by (simp add: e_def)
qed

section \<open>The day after\<close>

lemma mod_is: "n = k * q + r \<Longrightarrow> 0 \<le> r \<Longrightarrow> r < k \<Longrightarrow> n mod k = r" for k q :: int
  by (simp add: int_mod_pos_eq)

lemma div_succ:
  fixes y k :: int
  assumes k: "0 < k"
  shows "(y + 1) div k = y div k + (if (y + 1) mod k = 0 then 1 else 0)"
proof (cases "y mod k + 1 = k")
  case True
  then have "y + 1 = k * (y div k + 1) + 0" using mult_div_mod_eq [of k y] by (simp only: distrib_left mult_1_right)
  from div_is [OF this] mod_is [OF this] show ?thesis using k by simp
next
  case False
  have e: "y + 1 = k * (y div k) + (y mod k + 1)" by simp
  have r: "0 \<le> y mod k + 1" "y mod k + 1 < k" "y mod k + 1 \<noteq> 0" using False pos_mod_bound [OF k, of y] pos_mod_sign [OF k, of y] by linarith+
  show ?thesis using div_is [OF e r(1,2)] mod_is [OF e r(1,2)] r(3) by simp
qed

definition leap_days :: "int \<Rightarrow> int" where
  "leap_days y = y div 4 - y div 100 + y div 400"

lemma day_number_leap_days: "day_number t = day t + (153 * shift_month t + 2) div 5 + shift_year t * 365 + leap_days (shift_year t) - 32045"
  by (simp add: day_number_def leap_days_def)

lemma count_steps: "r \<longrightarrow> q \<Longrightarrow> q \<longrightarrow> p \<Longrightarrow> (a + (if p then 1 else 0)) - (b + (if q then 1 else 0)) + (c + (if r then 1 else 0)) = a - b + c + (if p \<and> (q \<longrightarrow> r) then 1 else 0)"
  for a b c :: int
  by (cases p; cases q; cases r; simp)

lemma leap_days_succ: "leap_days (y + 1) = leap_days y + (if leap_year (y + 1) then 1 else 0)"
proof -
  have "(y + 1) mod 400 = 0 \<longrightarrow> (y + 1) mod 100 = 0" "(y + 1) mod 100 = 0 \<longrightarrow> (y + 1) mod 4 = 0"
    using dvd_trans [of 100 400 "y + 1"] dvd_trans [of 4 100 "y + 1"] by (simp_all add: mod_eq_0_iff_dvd)
  from count_steps [OF this] show ?thesis unfolding leap_days_def leap_year_def by (simp only: div_succ zero_less_numeral)
qed

lemma twelve_months: "1 \<le> m \<Longrightarrow> m \<le> 12 \<Longrightarrow> m \<in> {1, 2, 3, 4, 5, 6, 7, 8, 9, 10, 11, 12}" for m :: int
  unfolding insert_iff empty_iff by presburger

lemma next_day_valid:
  assumes "valid_date t"
  shows "valid_date (next_day t)"
  using assms by (auto simp: valid_date_def next_day_def month_days_def)

lemma day_number_next_day:
  assumes "valid_date t"
  shows "day_number (next_day t) = day_number t + 1"
proof (cases "day t < month_days (year t) (month t)")
  case True
  then show ?thesis by (simp add: next_day_def day_number_def shift_month_def shift_year_def)
next
  case False
  then have d: "day t = month_days (year t) (month t)" using assms by (simp add: valid_date_def)
  have mo: "month t \<in> {1, 2, 3, 4, 5, 6, 7, 8, 9, 10, 11, 12}" using twelve_months assms by (simp only: valid_date_def)
  show ?thesis
  proof (cases "month t = 2")
    case True
    define y where "y = year t + 4799"
    have "leap_year (y + 1) = leap_year (year t)" using leap_year_400 [of "year t" 12] by (simp add: y_def add.commute)
    moreover have "shift_year t = y" "shift_month t = 11" "shift_year (next_day t) = y + 1" "shift_month (next_day t) = 0" "day (next_day t) = 1"
      using d True by (simp_all add: next_day_def shift_month_def shift_year_def y_def)
    moreover have "day t = (if leap_year (year t) then 29 else 28)" using d True by (simp add: month_days_def)
    ultimately show ?thesis using leap_days_succ [of y] unfolding day_number_leap_days by simp
  next
    case False
    then have "shift_year (next_day t) = shift_year t" "day (next_day t) = 1"
      "(153 * shift_month (next_day t) + 2) div 5 = (153 * shift_month t + 2) div 5 + day t"
      using mo d by (elim insertE; simp add: next_day_def shift_month_def shift_year_def month_days_def)+
    then show ?thesis unfolding day_number_leap_days by simp
  qed
qed

text \<open>Every day number from -32044 on is the number of a valid date.\<close>

definition first_date :: YearMonthDay where "first_date = \<lparr>year = - 4800, month = 3, day = 1\<rparr>"

lemma dates_from_first: "valid_date ((next_day ^^ n) first_date) \<and> day_number ((next_day ^^ n) first_date) = int n - 32044"
proof (induction n)
  case 0
  show ?case by (simp add: first_date_def valid_date_def month_days_def day_number_def shift_month_def shift_year_def)
next
  case (Suc n)
  then show ?case by (simp add: next_day_valid day_number_next_day)
qed

lemma date_of_valid:
  assumes "- 32044 \<le> j"
  shows "valid_date (date_of j)" "day_number (date_of j) = j" "date_of (j + 1) = next_day (date_of j)"
proof -
  define t where "t = (next_day ^^ nat (j + 32044)) first_date"
  have t: "valid_date t" "day_number t = j" using dates_from_first [of "nat (j + 32044)"] assms by (simp_all add: t_def)
  then have j: "date_of j = t" using date_of_day_number by metis
  show "valid_date (date_of j)" "day_number (date_of j) = j" using t j by simp_all
  have "date_of (j + 1) = date_of (day_number (next_day t))" using day_number_next_day [OF t(1)] t(2) by simp
  then show "date_of (j + 1) = next_day (date_of j)" using date_of_day_number [OF next_day_valid [OF t(1)]] j by simp
qed

section \<open>The code computes the calendar\<close>

lemma i32_in: "- (2 ^ 31) \<le> x \<Longrightarrow> x < 2 ^ 31 \<Longrightarrow> i32 x = Some x"
  by (simp add: i32_def)

lemma sdiv_nonneg: "0 \<le> x \<Longrightarrow> 0 < k \<Longrightarrow> x sdiv k = x div k" for x k :: int
  by (cases "x = 0") (auto simp: signed_divide_int_def)

lemma div_bounds: "0 < k \<Longrightarrow> k * (x div k) \<le> x \<and> x < k * (x div k) + k" for x k :: int
  using mult_div_mod_eq [of k x] pos_mod_bound [of k x] pos_mod_sign [of k x] by linarith

text \<open>The range in which every intermediate result fits into 32 bits.\<close>

definition date_range :: "int \<Rightarrow> bool" where
  "date_range j \<longleftrightarrow> - 32044 \<le> j \<and> j \<le> 536838867"

lemma getYearMonthDay_date_of:
  assumes "date_range j"
  shows "getYearMonthDay j = Some (date_of j)"
proof -
  define a where "a = j + 32044"
  define b where "b = (4 * a + 3) div 146097"
  define c where "c = a - b * 146097 div 4"
  define d where "d = (4 * c + 3) div 1461"
  define e where "e = c - 1461 * d div 4"
  define m where "m = (5 * e + 2) div 153"
  define s where "s = (153 * m + 2) div 5"
  have a: "0 \<le> a" "4 * a + 3 < 2 ^ 31" using assms by (simp_all add: a_def date_range_def)
  have b: "146097 * b \<le> 4 * a + 3" "4 * a + 3 < 146097 * b + 146097" "0 \<le> b" using div_bounds [of 146097 "4 * a + 3"] a by (simp_all add: b_def)
  have b4: "4 * (b * 146097 div 4) \<le> b * 146097" "b * 146097 < 4 * (b * 146097 div 4) + 4" using div_bounds [of 4 "b * 146097"] by simp_all
  then have c: "0 \<le> c" "c \<le> 36524" using b unfolding c_def by linarith+
  have d: "1461 * d \<le> 4 * c + 3" "4 * c + 3 < 1461 * d + 1461" "0 \<le> d" using div_bounds [of 1461 "4 * c + 3"] c by (simp_all add: d_def)
  have d4: "4 * (1461 * d div 4) \<le> 1461 * d" "1461 * d < 4 * (1461 * d div 4) + 4" using div_bounds [of 4 "1461 * d"] by simp_all
  then have e: "0 \<le> e" "e \<le> 365" using d unfolding e_def by linarith+
  have m: "153 * m \<le> 5 * e + 2" "5 * e + 2 < 153 * m + 153" "0 \<le> m" using div_bounds [of 153 "5 * e + 2"] e by (simp_all add: m_def)
  have s: "5 * s \<le> 153 * m + 2" "153 * m + 2 < 5 * s + 5" "0 \<le> s" using div_bounds [of 5 "153 * m + 2"] m by (simp_all add: s_def)
  have m10: "0 \<le> m div 10" "m div 10 \<le> 1" using m e div_bounds [of 10 m] by (simp, linarith)
  have bd: "b \<le> 14700" "d \<le> 100" using b(1) a(2) d(1) c(2) by simp_all
  have i: "i32 (j + 32044) = Some a" "i32 (4 * a) = Some (4 * a)" "i32 (4 * a + 3) = Some (4 * a + 3)" "i32 (b * 146097) = Some (b * 146097)"
    "i32 (a - b * 146097 div 4) = Some c" "i32 (4 * c) = Some (4 * c)" "i32 (4 * c + 3) = Some (4 * c + 3)" "i32 (1461 * d) = Some (1461 * d)"
    "i32 (c - 1461 * d div 4) = Some e" "i32 (5 * e) = Some (5 * e)" "i32 (5 * e + 2) = Some (5 * e + 2)" "i32 (153 * m) = Some (153 * m)"
    "i32 (153 * m + 2) = Some (153 * m + 2)" "i32 (e - s) = Some (e - s)" "i32 (e - s + 1) = Some (e - s + 1)" "i32 (m + 3) = Some (m + 3)"
    "i32 (m + 3 - 12 * (m div 10)) = Some (m + 3 - 12 * (m div 10))" "i32 (b * 100) = Some (b * 100)" "i32 (b * 100 + d) = Some (b * 100 + d)"
    "i32 (b * 100 + d - 4800) = Some (b * 100 + d - 4800)" "i32 (b * 100 + d - 4800 + m div 10) = Some (b * 100 + d - 4800 + m div 10)"
    using a b c d e m s bd m10 unfolding a_def [symmetric] c_def [symmetric] e_def [symmetric] by (simp_all add: i32_in flip: a_def)
  have q: "(4 * a + 3) sdiv 146097 = b" "(b * 146097) sdiv 4 = b * 146097 div 4" "(4 * c + 3) sdiv 1461 = d" "(1461 * d) sdiv 4 = 1461 * d div 4"
    "(5 * e + 2) sdiv 153 = m" "(153 * m + 2) sdiv 5 = s" "m sdiv 10 = m div 10"
    using a b(3) c(1) d(3) e(1) m(3) by (simp_all add: sdiv_nonneg b_def d_def m_def s_def)
  have "getYearMonthDay j = Some \<lparr>year = b * 100 + d - 4800 + m div 10, month = m + 3 - 12 * (m div 10), day = e - s + 1\<rparr>"
    unfolding getYearMonthDay_def by (simp only: i q Let_def bind.bind_lunit)
  then show ?thesis
    unfolding date_of_def Let_def a_def [symmetric] b_def [symmetric] c_def [symmetric] d_def [symmetric] e_def [symmetric] m_def [symmetric] s_def [symmetric] .
qed

text \<open>The dates for which the day number is computed without overflow.\<close>

definition date_years :: "YearMonthDay \<Rightarrow> bool" where
  "date_years t \<longleftrightarrow> - 4799 \<le> year t \<and> year t \<le> 1000000"

lemma getJulianDayNumber_day_number:
  assumes "valid_date t" "date_years t"
  shows "getJulianDayNumber (year t) (month t) (day t) = Some (day_number t)"
proof -
  define a where "a = (14 - month t) div 12"
  define y m where "y = shift_year t" and "m = shift_month t"
  define s where "s = (153 * m + 2) div 5"
  note sh = shifted_date [OF assms(1), folded y_def m_def]
  have mo: "1 \<le> month t" "month t \<le> 12" using assms(1) by (simp_all add: valid_date_def)
  have a: "0 \<le> a" "a \<le> 1" using march_year [OF mo] by (simp_all add: a_def)
  have y: "y = year t + 4800 - a" "m = month t + 12 * a - 3" by (simp_all add: y_def m_def shift_year_def shift_month_def a_def)
  have yr: "0 \<le> y" "y \<le> 1004800" "- 4799 \<le> year t" "year t \<le> 1000000" using y(1) a assms(2) by (simp_all add: date_years_def)
  have dy: "1 \<le> day t" "day t \<le> 31" using sh(5,6) by (auto simp: shifted_days_def split: if_splits)
  have s: "5 * s \<le> 153 * m + 2" "0 \<le> s" using div_bounds [of 5 "153 * m + 2"] sh(1) by (simp_all add: s_def)
  have s': "s \<le> 340" using s(1) sh(2) by linarith
  define y4 y100 y400 where "y4 = y div 4" and "y100 = y div 100" and "y400 = y div 400"
  have yq: "0 \<le> y4" "y4 \<le> y" "0 \<le> y100" "y100 \<le> y" "0 \<le> y400" "y400 \<le> y"
    unfolding y4_def y100_def y400_def using yr(1) zdiv_mono2 [of y 1 4] zdiv_mono2 [of y 1 100] zdiv_mono2 [of y 1 400]
    by (simp_all add: pos_imp_zdiv_nonneg_iff)
  have i: "i32 (14 - month t) = Some (14 - month t)" "i32 (year t + 4800) = Some (year t + 4800)" "i32 (year t + 4800 - a) = Some y"
    "i32 (12 * a) = Some (12 * a)" "i32 (month t + 12 * a) = Some (month t + 12 * a)" "i32 (month t + 12 * a - 3) = Some m"
    "i32 (153 * m) = Some (153 * m)" "i32 (153 * m + 2) = Some (153 * m + 2)" "i32 (day t + s) = Some (day t + s)" "i32 (y * 365) = Some (y * 365)"
    "i32 (day t + s + y * 365) = Some (day t + s + y * 365)" "i32 (day t + s + y * 365 + y4) = Some (day t + s + y * 365 + y4)"
    "i32 (day t + s + y * 365 + y4 - y100) = Some (day t + s + y * 365 + y4 - y100)"
    "i32 (day t + s + y * 365 + y4 - y100 + y400) = Some (day t + s + y * 365 + y4 - y100 + y400)"
    "i32 (day t + s + y * 365 + y4 - y100 + y400 - 32045) = Some (day t + s + y * 365 + y4 - y100 + y400 - 32045)"
    unfolding y(1) [symmetric] y(2) [symmetric] using mo a yr dy s' s(2) sh(1,2) yq by (simp_all add: i32_in)
  have q: "(14 - month t) sdiv 12 = a" "(153 * m + 2) sdiv 5 = s" "y sdiv 4 = y4" "y sdiv 100 = y100" "y sdiv 400 = y400"
    using mo sh(1) yr(1) by (simp_all add: sdiv_nonneg a_def s_def y4_def y100_def y400_def)
  have "getJulianDayNumber (year t) (month t) (day t) = Some (day t + s + y * 365 + y4 - y100 + y400 - 32045)"
    unfolding getJulianDayNumber_def by (simp only: i q Let_def bind.bind_lunit)
  then show ?thesis by (simp add: day_number_def s_def y_def m_def y4_def y100_def y400_def)
qed

lemma date_of_years:
  assumes "- 30000 \<le> j" "j \<le> 360000000"
  shows "date_years (date_of j)" "date_range j"
proof -
  define a where "a = j + 32044"
  define b where "b = (4 * a + 3) div 146097"
  define c where "c = a - b * 146097 div 4"
  define d where "d = (4 * c + 3) div 1461"
  define e where "e = c - 1461 * d div 4"
  define m where "m = (5 * e + 2) div 153"
  have a: "2044 \<le> a" "a \<le> 360032044" using assms by (simp_all add: a_def)
  have b: "146097 * b \<le> 4 * a + 3" "4 * a + 3 < 146097 * b + 146097" "0 \<le> b" using div_bounds [of 146097 "4 * a + 3"] a by (simp_all add: b_def)
  have b4: "4 * (b * 146097 div 4) \<le> b * 146097" "b * 146097 < 4 * (b * 146097 div 4) + 4" using div_bounds [of 4 "b * 146097"] by simp_all
  have c: "0 \<le> c" "c \<le> 36524" "b = 0 \<longrightarrow> c = a" using b b4 unfolding c_def by (linarith, linarith, simp)
  have d: "1461 * d \<le> 4 * c + 3" "4 * c + 3 < 1461 * d + 1461" "0 \<le> d" using div_bounds [of 1461 "4 * c + 3"] c by (simp_all add: d_def)
  have d4: "4 * (1461 * d div 4) \<le> 1461 * d" "1461 * d < 4 * (1461 * d div 4) + 4" using div_bounds [of 4 "1461 * d"] by simp_all
  have e: "0 \<le> e" "e \<le> 365" using d d4 unfolding e_def by linarith+
  have m: "153 * m \<le> 5 * e + 2" "0 \<le> m" using div_bounds [of 153 "5 * e + 2"] e by (simp_all add: m_def)
  have m10: "0 \<le> m div 10" "m div 10 \<le> 1" using m e div_bounds [of 10 m] by (simp, linarith)
  have "year (date_of j) = b * 100 + d - 4800 + m div 10"
    unfolding date_of_def Let_def a_def [symmetric] b_def [symmetric] c_def [symmetric] d_def [symmetric] e_def [symmetric] m_def [symmetric] by simp
  moreover have "1 \<le> b * 100 + d" using b(3) c(3) a(1) d(2,3) by (cases "b = 0") auto
  moreover have "b \<le> 9858" "d \<le> 100" using b(1) a(2) d(1) c(2) by linarith+
  ultimately show "date_years (date_of j)" using m10 by (simp add: date_years_def)
  show "date_range j" using assms by (simp add: date_range_def)
qed

text \<open>Counting days from the first of January 1970, in both directions.\<close>

definition prev_day :: "YearMonthDay \<Rightarrow> YearMonthDay" where
  "prev_day t =
     (if day t > 1 then t\<lparr>day := day t - 1\<rparr>
      else if month t > 1 then t\<lparr>month := month t - 1, day := month_days (year t) (month t - 1)\<rparr>
      else \<lparr>year = year t - 1, month = 12, day = 31\<rparr>)"

definition epoch_date :: YearMonthDay where "epoch_date = \<lparr>year = 1970, month = 1, day = 1\<rparr>"

definition count_days :: "int \<Rightarrow> YearMonthDay" where
  "count_days n = (if n \<ge> 0 then (next_day ^^ nat n) epoch_date else (prev_day ^^ nat (- n)) epoch_date)"

lemma prev_next_day: "valid_date t \<Longrightarrow> prev_day (next_day t) = t"
  by (auto simp: prev_day_def next_day_def valid_date_def month_days_def)

lemma epoch_day: "day_number epoch_date = 2440588" "valid_date epoch_date" "date_years epoch_date"
  by (simp_all add: epoch_date_def day_number_def shift_month_def shift_year_def valid_date_def month_days_def date_years_def)

lemma kJulianDay_value: "kJulianDayOf1970_01_01 = Some 2440588"
  using getJulianDayNumber_day_number [OF epoch_day(2,3)] epoch_day(1) by (simp add: kJulianDayOf1970_01_01_def epoch_date_def)

lemma date_of_epoch: "date_of 2440588 = epoch_date"
  using date_of_day_number [OF epoch_day(2)] epoch_day(1) by simp

lemma count_days_date_of:
  assumes "- 2472632 \<le> n"
  shows "count_days n = date_of (2440588 + n)"
proof (cases "n \<ge> 0")
  case True
  have "(next_day ^^ k) epoch_date = date_of (2440588 + int k)" for k
  proof (induction k)
    case (Suc k)
    have "date_of (2440588 + int (Suc k)) = date_of ((2440588 + int k) + 1)" by (simp add: ac_simps)
    then show ?case using Suc date_of_valid(3) [of "2440588 + int k"] by simp
  qed (simp add: date_of_epoch)
  then show ?thesis using True by (simp add: count_days_def)
next
  case False
  have "int k \<le> 2472632 \<Longrightarrow> (prev_day ^^ k) epoch_date = date_of (2440588 - int k)" for k
  proof (induction k)
    case (Suc k)
    have "2440588 - int k = (2440588 - int (Suc k)) + 1" by simp
    then have "date_of (2440588 - int k) = next_day (date_of (2440588 - int (Suc k)))" using date_of_valid(3) [of "2440588 - int (Suc k)"] Suc.prems by simp
    then show ?case using Suc prev_next_day date_of_valid(1) [of "2440588 - int (Suc k)"] by simp
  qed (simp add: date_of_epoch)
  then show ?thesis using False assms by (simp add: count_days_def)
qed

text \<open>
  The calendar arithmetic is the Gregorian calendar: from the day number of the first of January 1970
  plus n days, \<open>getYearMonthDay\<close> computes the date that counting n days forwards or backwards gives, and
  \<open>getJulianDayNumber\<close> of that date is the day number again, all without overflow for the years -4790 to
  980000.
\<close>

theorem julian_day_is_calendar:
  assumes "- 2470000 \<le> n" "n \<le> 357000000"
  shows "\<exists>j. kJulianDayOf1970_01_01 = Some j \<and> getYearMonthDay (j + n) = Some (count_days n) \<and> valid_date (count_days n)
    \<and> getJulianDayNumber (year (count_days n)) (month (count_days n)) (day (count_days n)) = Some (j + n)"
proof -
  have r: "- 30000 \<le> 2440588 + n" "2440588 + n \<le> 360000000" using assms by simp_all
  have v: "valid_date (date_of (2440588 + n))" "day_number (date_of (2440588 + n)) = 2440588 + n" using date_of_valid [of "2440588 + n"] r(1) by simp_all
  show ?thesis using getYearMonthDay_date_of [OF date_of_years(2) [OF r]] getJulianDayNumber_day_number [OF v(1) date_of_years(1) [OF r]] v count_days_date_of [of n] assms(1)
    by (simp add: kJulianDay_value)
qed

theorem julian_day_is_calendar_witness:
  "\<exists>j. kJulianDayOf1970_01_01 = Some j \<and> getYearMonthDay (j + 365) = Some (count_days 365)"
  using julian_day_is_calendar [of 365] by auto

end
