(* ===== verification/UtcTime.thy ===== *)
theory UtcTime
  imports CalendarDate
begin

text \<open>
  The part of \<open>TimeZone.cc\<close> that knows no zone: broken-down time and seconds since 1970. The two functions
  of the C library it could have used, \<open>gmtime_r\<close> and \<open>timegm\<close>, are defined as POSIX does, by
  counting days and by the formula over years, months and days.
\<close>

record tm =
  tm_sec :: int
  tm_min :: int
  tm_hour :: int
  tm_mday :: int
  tm_mon :: int
  tm_year :: int
  tm_wday :: int
  tm_yday :: int
  tm_isdst :: int
  tm_gmtoff :: int
  tm_zone :: "string option"

text \<open>\<open>memZero\<close>.\<close>

definition zero_tm :: tm where
  "zero_tm = \<lparr>tm_sec = 0, tm_min = 0, tm_hour = 0, tm_mday = 0, tm_mon = 0, tm_year = 0, tm_wday = 0, tm_yday = 0,
     tm_isdst = 0, tm_gmtoff = 0, tm_zone = None\<rparr>"

definition kSecondsPerDay :: int where "kSecondsPerDay = 24 * 60 * 60"

text \<open>The parameter is unsigned.\<close>

definition fillHMS :: "uint32 \<Rightarrow> tm \<Rightarrow> tm" where
  "fillHMS seconds utc =
     (let minutes = seconds div 60
      in utc\<lparr>tm_sec := uint (seconds mod 60), tm_min := uint (minutes mod 60), tm_hour := uint (minutes div 60)\<rparr>)"

text \<open>The casts to \<open>int\<close> keep the low 32 bits.\<close>

definition toUtcTime :: "int \<Rightarrow> bool \<Rightarrow> tm option" where
  "toUtcTime secondsSinceEpoch yday =
     do { let seconds = sint (word_of_int (secondsSinceEpoch smod kSecondsPerDay) :: 32 word);
          let days = sint (word_of_int (secondsSinceEpoch sdiv kSecondsPerDay) :: 32 word);
          let seconds' = (if seconds < 0 then seconds + kSecondsPerDay else seconds);
          days \<leftarrow> (if seconds < 0 then i32 (days - 1) else Some days);
          let utc = fillHMS (word_of_int seconds') (zero_tm\<lparr>tm_zone := Some ''GMT''\<rparr>);
          k \<leftarrow> kJulianDayOf1970_01_01;
          date \<leftarrow> i32 (days + k);
          ymd \<leftarrow> getYearMonthDay date;
          y \<leftarrow> i32 (year ymd - 1900);
          mo \<leftarrow> i32 (month ymd - 1);
          w \<leftarrow> weekDay date;
          let utc = utc\<lparr>tm_year := y, tm_mon := mo, tm_mday := day ymd, tm_wday := w\<rparr>;
          if yday then do { startOfYear \<leftarrow> getJulianDayNumber (year ymd) 1 1; n \<leftarrow> i32 (date - startOfYear); Some (utc\<lparr>tm_yday := n\<rparr>) }
          else Some utc }"

definition fromUtcTime_fields :: "int \<Rightarrow> int \<Rightarrow> int \<Rightarrow> int \<Rightarrow> int \<Rightarrow> int \<Rightarrow> int option" where
  "fromUtcTime_fields y mo d hour minute seconds =
     do { date \<leftarrow> getJulianDayNumber y mo d;
          h \<leftarrow> i32 (hour * 3600);
          mi \<leftarrow> i32 (minute * 60);
          s \<leftarrow> i32 (h + mi);
          secondsInDay \<leftarrow> i32 (s + seconds);
          k \<leftarrow> kJulianDayOf1970_01_01;
          days \<leftarrow> i32 (date - k);
          Some (days * kSecondsPerDay + secondsInDay) }"

definition fromUtcTime :: "tm \<Rightarrow> int option" where
  "fromUtcTime utc =
     do { y \<leftarrow> i32 (tm_year utc + 1900);
          mo \<leftarrow> i32 (tm_mon utc + 1);
          fromUtcTime_fields y mo (tm_mday utc) (tm_hour utc) (tm_min utc) (tm_sec utc) }"

section \<open>The functions of the C library\<close>

definition day_of_year :: "YearMonthDay \<Rightarrow> int" where
  "day_of_year t = sum_list (map (month_days (year t)) (map int [1..<nat (month t)])) + day t - 1"

text \<open>\<open>gmtime_r\<close>, for the times whose year fits into an \<open>int\<close>.\<close>

definition c_gmtime :: "int \<Rightarrow> tm" where
  "c_gmtime t =
     (let n = t div 86400; s = t mod 86400; d = count_days n
      in \<lparr>tm_sec = s mod 60, tm_min = s div 60 mod 60, tm_hour = s div 3600, tm_mday = day d, tm_mon = month d - 1, tm_year = year d - 1900,
          tm_wday = (n + 4) mod 7, tm_yday = day_of_year d, tm_isdst = 0, tm_gmtoff = 0, tm_zone = Some ''GMT''\<rparr>)"

text \<open>\<open>timegm\<close>: months outside the year are carried into it, the other fields are only added up.\<close>

definition days_before :: "int \<Rightarrow> int \<Rightarrow> int" where
  "days_before y mo = 365 * (y - 1970) + (leap_days (y - 1) - leap_days 1969) + sum_list (map (month_days y) (map int [1..<nat mo]))"

definition c_timegm :: "tm \<Rightarrow> int" where
  "c_timegm t = (days_before (tm_year t + 1900 + tm_mon t div 12) (tm_mon t mod 12 + 1) + tm_mday t - 1) * 86400
     + tm_hour t * 3600 + tm_min t * 60 + tm_sec t"

section \<open>Days of the year\<close>

lemma leap_days_400: "leap_days (y + 400 * k) = leap_days y + 97 * k"
proof -
  have e: "400 * k = 4 * (100 * k)" "400 * k = 100 * (4 * k)" by simp_all
  have q: "(y + 400 * k) div 4 = 100 * k + y div 4" unfolding e(1) by (rule div_mult_self2) simp
  have r: "(y + 400 * k) div 100 = 4 * k + y div 100" unfolding e(2) by (rule div_mult_self2) simp
  have s: "(y + 400 * k) div 400 = k + y div 400" by (rule div_mult_self2) simp
  show ?thesis unfolding leap_days_def q r s by linarith
qed

lemma months_sum: "sum_list (map (month_days y) (map int [1..<nat mo])) =
    (if mo \<le> 1 then 0 else if mo = 2 then 31 else (if leap_year y then 60 else 59) + ((153 * (mo - 3) + 2) div 5))" if "1 \<le> mo" "mo \<le> 12"
  using twelve_months [OF that]
  by (elim insertE; simp add: upt_rec numeral_eq_Suc month_days_def)

lemma day_number_days_before:
  assumes "1 \<le> month t" "month t \<le> 12"
  shows "day_number t = 2440588 + days_before (year t) (month t) + day t - 1"
proof -
  have l: "leap_days 1969 = 477" by (simp add: leap_days_def)
  have y: "leap_days (year t + 4799) = leap_days (year t - 1) + 1164" using leap_days_400 [of "year t - 1" 12] by (simp add: add.commute)
  have y': "leap_days (year t + 4800) = leap_days (year t - 1) + 1164 + (if leap_year (year t) then 1 else 0)"
    using leap_days_succ [of "year t + 4799"] y leap_year_400 [of "year t" 12] by (simp add: add.commute)
  have y0: "leap_days (4799 + year t) = leap_days (year t - 1) + 1164" using y by (simp add: add.commute)
  show ?thesis using twelve_months [OF assms] y y' y0 march_year [OF assms] l
    unfolding day_number_leap_days days_before_def months_sum [OF assms] shift_year_def shift_month_def
    by (elim insertE) (simp_all)
qed

section \<open>Seconds and days\<close>

lemma sint_small32: "- (2 ^ 31) \<le> x \<Longrightarrow> x < 2 ^ 31 \<Longrightarrow> sint (word_of_int x :: 32 word) = x"
  by (simp add: signed_of_int signed_take_bit_int_eq_self)

lemma uint_small32: "0 \<le> x \<Longrightarrow> x < 2 ^ 32 \<Longrightarrow> uint (word_of_int x :: 32 word) = x"
  by (simp add: unsigned_of_int take_bit_int_eq_self)

lemma fillHMS_fields:
  assumes "0 \<le> s" "s < 2 ^ 32"
  shows "fillHMS (word_of_int s) utc = utc\<lparr>tm_sec := s mod 60, tm_min := s div 60 mod 60, tm_hour := s div 3600\<rparr>"
proof -
  have "s div 60 div 60 = s div 3600" by (simp add: zdiv_zmult2_eq [of 60 s 60, symmetric])
  then show ?thesis by (simp add: fillHMS_def Let_def uint_mod uint_div uint_small32 [OF assms] del: word_of_int_eq_iff)
qed

text \<open>Truncating division, corrected for negative times, is division with rounding down.\<close>

lemma seconds_split:
  fixes t :: int
  defines "r \<equiv> t smod 86400" and "q \<equiv> t sdiv 86400"
  shows "(if r < 0 then r + 86400 else r) = t mod 86400" "(if r < 0 then q - 1 else q) = t div 86400" "- 86400 < r" "r < 86400"
proof -
  have t: "t = 86400 * q + r" using sdiv_mult_smod_eq [of t 86400] by (simp add: r_def q_def)
  have a: "0 \<le> \<bar>t\<bar> mod 86400" "\<bar>t\<bar> mod 86400 < 86400" by simp_all
  show b: "- 86400 < r" "r < 86400" using a unfolding r_def signed_modulo_int_def by (auto simp: sgn_if)
  show "(if r < 0 then r + 86400 else r) = t mod 86400"
  proof (cases "r < 0")
    case True
    then have "t = 86400 * (q - 1) + (r + 86400)" using t by simp
    from mod_is [OF this] show ?thesis using True b by simp
  next
    case False
    then show ?thesis using mod_is [OF t] b by simp
  qed
  show "(if r < 0 then q - 1 else q) = t div 86400"
  proof (cases "r < 0")
    case True
    then have "t = 86400 * (q - 1) + (r + 86400)" using t by simp
    from div_is [OF this] show ?thesis using True b by simp
  next
    case False
    then show ?thesis using div_is [OF t] b by simp
  qed
qed

lemma week_day: "- 2440589 \<le> n \<Longrightarrow> (2440588 + n + 1) smod 7 = (n + 4) mod 7" for n :: int
proof -
  assume n: "- 2440589 \<le> n"
  have s: "(2440588 + n + 1) smod 7 = (2440588 + n + 1) mod 7" using n by (cases "2440588 + n + 1 = 0") (auto simp: signed_modulo_int_def sgn_if)
  have "2440588 + n + 1 = n + 4 + 348655 * 7" by simp
  then show ?thesis unfolding s by (simp only: mod_mult_self1)
qed

text \<open>The times from the year -4700 to the year 900000.\<close>

definition utc_range :: "int \<Rightarrow> bool" where
  "utc_range t \<longleftrightarrow> - 2440000 \<le> t div 86400 \<and> t div 86400 \<le> 357000000"

lemma day_of_year_number:
  assumes "valid_date t"
  shows "day_number t - day_number \<lparr>year = year t, month = 1, day = 1\<rparr> = day_of_year t"
proof -
  have "1 \<le> month t" "month t \<le> 12" using assms by (simp_all add: valid_date_def)
  then show ?thesis
    using day_number_days_before [of t] day_number_days_before [of "\<lparr>year = year t, month = 1, day = 1\<rparr>"]
    by (simp add: days_before_def day_of_year_def)
qed

lemma day_of_year_bounds: "valid_date t \<Longrightarrow> 0 \<le> day_of_year t \<and> day_of_year t \<le> 365"
proof -
  assume v: "valid_date t"
  then have mo: "1 \<le> month t" "month t \<le> 12" "1 \<le> day t" "day t \<le> month_days (year t) (month t)" by (simp_all add: valid_date_def)
  show ?thesis using twelve_months [OF mo(1,2)] mo(3,4) unfolding day_of_year_def months_sum [OF mo(1,2)]
    by (elim insertE) (auto simp: month_days_def split: if_splits)
qed

lemma utc_day:
  assumes "utc_range t"
  defines "j \<equiv> 2440588 + t div 86400"
  shows "date_range j" "valid_date (count_days (t div 86400))" "date_years (count_days (t div 86400))" "day_number (count_days (t div 86400)) = j"
    "getYearMonthDay j = Some (count_days (t div 86400))" "j \<le> 360000000" "0 \<le> j"
proof -
  have r: "- 30000 \<le> j" "j \<le> 360000000" "0 \<le> j" using assms by (simp_all add: utc_range_def)
  then show "date_range j" "j \<le> 360000000" "0 \<le> j" using date_of_years(2) [of j] by simp_all
  have c: "count_days (t div 86400) = date_of j" using count_days_date_of [of "t div 86400"] assms by (simp add: utc_range_def)
  show "valid_date (count_days (t div 86400))" "date_years (count_days (t div 86400))" "day_number (count_days (t div 86400)) = j"
    "getYearMonthDay j = Some (count_days (t div 86400))"
    using c date_of_valid [of j] date_of_years(1) [of j] getYearMonthDay_date_of [OF date_of_years(2) [of j]] r by simp_all
qed

lemma toUtcTime_gmtime:
  assumes "utc_range t"
  shows "toUtcTime t b = Some (if b then c_gmtime t else (c_gmtime t)\<lparr>tm_yday := 0\<rparr>)"
proof -
  define q r where "q = t sdiv 86400" and "r = t smod 86400"
  define n s d where "n = t div 86400" and "s = t mod 86400" and "d = count_days n"
  note split = seconds_split [of t, folded q_def r_def, folded n_def s_def]
  note day = utc_day [OF assms, folded n_def, folded d_def]
  have n: "- 2440000 \<le> n" "n \<le> 357000000" using assms by (simp_all add: utc_range_def n_def)
  have q: "- 2440000 \<le> q" "q \<le> 357000001" using split(2) n by (auto split: if_splits)
  have s: "0 \<le> s" "s < 86400" by (simp_all add: s_def)
  have sw: "sint (word_of_int r :: 32 word) = r" "sint (word_of_int q :: 32 word) = q" using q split(3,4) by (simp_all add: sint_small32)
  have dn: "(if r < 0 then i32 (q - 1) else Some q) = Some n" using split(2) q by (auto simp: i32_in split: if_splits)
  have hms: "fillHMS (word_of_int s) utc = utc\<lparr>tm_sec := s mod 60, tm_min := s div 60 mod 60, tm_hour := s div 3600\<rparr>" for utc
    using fillHMS_fields [of s utc] s by simp
  have j: "i32 (n + 2440588) = Some (2440588 + n)" using n by (simp add: i32_in add.commute)
  have yr: "- 4799 \<le> year d" "year d \<le> 1000000" "1 \<le> month d" "month d \<le> 12" using day(2,3) by (simp_all add: date_years_def valid_date_def)
  have w: "weekDay (2440588 + n) = Some ((n + 4) mod 7)" using n week_day [of n] by (simp add: weekDay_def kDaysPerWeek_def i32_in add.commute)
  have sy: "getJulianDayNumber (year d) 1 1 = Some (day_number \<lparr>year = year d, month = 1, day = 1\<rparr>)"
    using getJulianDayNumber_day_number [of "\<lparr>year = year d, month = 1, day = 1\<rparr>"] yr by (simp add: valid_date_def month_days_def date_years_def)
  have yd: "2440588 + n - day_number \<lparr>year = year d, month = 1, day = 1\<rparr> = day_of_year d" using day_of_year_number [OF day(2)] day(4) by simp
  have i: "i32 (year d - 1900) = Some (year d - 1900)" "i32 (month d - 1) = Some (month d - 1)" "i32 (day_of_year d) = Some (day_of_year d)"
    using yr day_of_year_bounds [OF day(2)] by (auto simp: i32_in)
  have k: "kSecondsPerDay = 86400" by (simp add: kSecondsPerDay_def)
  have "toUtcTime t b = (if b then Some (c_gmtime t) else Some ((c_gmtime t)\<lparr>tm_yday := 0\<rparr>))"
    unfolding toUtcTime_def k Let_def q_def [symmetric] r_def [symmetric] sw split(1) dn hms
    by (simp add: kJulianDay_value j day(5) i w sy yd c_gmtime_def Let_def zero_tm_def n_def [symmetric] s_def [symmetric] d_def [symmetric])
  then show ?thesis by simp
qed

text \<open>
  C28. \<open>toUtcTime\<close> is \<open>gmtime_r\<close>: for every time from the year -4700 to the year 900000, negative ones
  included, the arithmetic of the Julian days gives the date that counting the days gives, the seconds are
  split into hours, minutes and seconds, and the days of the week and of the year are right.
\<close>

theorem toUtcTime_is_gmtime:
  assumes "utc_range t"
  shows "toUtcTime t True = Some (c_gmtime t)"
  using toUtcTime_gmtime [OF assms, of True] by simp

theorem toUtcTime_is_gmtime_witness:
  "toUtcTime (- 1) True = Some (c_gmtime (- 1))"
  by (rule toUtcTime_is_gmtime) (simp add: utc_range_def)

lemma fromUtcTime_timegm:
  assumes v: "valid_date d" "date_years d" and t: "0 \<le> tm_hour u" "tm_hour u \<le> 24" "0 \<le> tm_min u" "tm_min u \<le> 60" "0 \<le> tm_sec u" "tm_sec u \<le> 61"
    and d: "tm_year u = year d - 1900" "tm_mon u = month d - 1" "tm_mday u = day d" and n: "day_number d = 2440588 + n" "- 2440588 \<le> n" "n \<le> 360000000"
  shows "fromUtcTime u = Some (n * 86400 + tm_hour u * 3600 + tm_min u * 60 + tm_sec u)"
    "c_timegm u = n * 86400 + tm_hour u * 3600 + tm_min u * 60 + tm_sec u"
proof -
  have mo: "1 \<le> month d" "month d \<le> 12" "- 4799 \<le> year d" "year d \<le> 1000000" using v by (simp_all add: valid_date_def date_years_def)
  have i: "i32 (year d) = Some (year d)" "i32 (month d) = Some (month d)" "i32 (tm_hour u * 3600) = Some (tm_hour u * 3600)" "i32 (tm_min u * 60) = Some (tm_min u * 60)"
    "i32 (tm_hour u * 3600 + tm_min u * 60) = Some (tm_hour u * 3600 + tm_min u * 60)"
    "i32 (tm_hour u * 3600 + tm_min u * 60 + tm_sec u) = Some (tm_hour u * 3600 + tm_min u * 60 + tm_sec u)" "i32 n = Some n"
    using mo t n(2,3) by (simp_all add: i32_in)
  show "fromUtcTime u = Some (n * 86400 + tm_hour u * 3600 + tm_min u * 60 + tm_sec u)"
  proof -
    have "fromUtcTime u = Some (n * 86400 + (tm_hour u * 3600 + tm_min u * 60 + tm_sec u))"
      using getJulianDayNumber_day_number [OF v] n(1) by (simp add: fromUtcTime_def fromUtcTime_fields_def d i kJulianDay_value kSecondsPerDay_def)
    then show ?thesis by (simp only: add.assoc)
  qed
  have m: "(month d - 1) div 12 = 0" "(month d - 1) mod 12 = month d - 1" using mo by (simp_all add: div_pos_pos_trivial mod_pos_pos_trivial)
  have "days_before (year d) (month d) + day d - 1 = n" using day_number_days_before [OF mo(1,2)] n(1) by linarith
  then show "c_timegm u = n * 86400 + tm_hour u * 3600 + tm_min u * 60 + tm_sec u" by (simp add: c_timegm_def d m)
qed

lemma seconds_join: "0 \<le> s \<Longrightarrow> s div 3600 * 3600 + (s div 60 mod 60) * 60 + s mod 60 = s" for s :: int
proof -
  assume "0 \<le> s"
  have "s div 60 div 60 = s div 3600" by (simp add: zdiv_zmult2_eq [of 60 s 60, symmetric])
  then have a: "s div 60 = 60 * (s div 3600) + s div 60 mod 60" by (metis mult_div_mod_eq)
  have b: "s = 60 * (s div 60) + s mod 60" by simp
  have "w = 60 * p + q \<Longrightarrow> s = 60 * w + r \<Longrightarrow> p * 3600 + q * 60 + r = s" for w p q r by simp
  from this [OF a b] show ?thesis .
qed

lemma gmtime_back:
  assumes "utc_range t"
  shows "fromUtcTime (c_gmtime t) = Some t" "c_timegm (c_gmtime t) = t"
proof -
  define n s h mi se where "n = t div 86400" and "s = t mod 86400" and "h = s div 3600" and "mi = s div 60 mod 60" and "se = s mod 60"
  note day = utc_day [OF assms, folded n_def]
  have s: "0 \<le> s" "s < 86400" by (simp_all add: s_def)
  have h: "0 \<le> h" "h \<le> 24" using s div_bounds [of 3600 s] by (simp_all add: pos_imp_zdiv_nonneg_iff h_def)
  have m: "0 \<le> mi" "mi \<le> 60" "0 \<le> se" "se \<le> 61"
    using pos_mod_bound [of 60 "s div 60", folded mi_def] pos_mod_bound [of 60 s, folded se_def] by (simp_all add: mi_def se_def)
  have t: "n * 86400 + h * 3600 + mi * 60 + se = t"
    using seconds_join [OF s(1), folded h_def mi_def se_def] mult_div_mod_eq [of 86400 t, folded s_def n_def] by linarith
  have u: "c_gmtime t = \<lparr>tm_sec = se, tm_min = mi, tm_hour = h, tm_mday = day (count_days n), tm_mon = month (count_days n) - 1,
      tm_year = year (count_days n) - 1900, tm_wday = (n + 4) mod 7, tm_yday = day_of_year (count_days n), tm_isdst = 0, tm_gmtoff = 0, tm_zone = Some ''GMT''\<rparr>"
    by (simp add: c_gmtime_def Let_def h_def mi_def se_def n_def s_def)
  have n: "- 2440588 \<le> n" "n \<le> 360000000" using assms by (simp_all add: utc_range_def n_def)
  show "fromUtcTime (c_gmtime t) = Some t" "c_timegm (c_gmtime t) = t"
    using fromUtcTime_timegm [OF day(2,3), of "c_gmtime t" n] day(4) h m n t unfolding u by simp_all
qed

text \<open>
  Seconds and broken-down time in UTC are converted back and forth without loss, before 1970 as well.
\<close>

theorem utc_time_roundtrip:
  assumes "utc_range t"
  shows "(toUtcTime t b \<bind> fromUtcTime) = Some t"
proof -
  have "fromUtcTime (u\<lparr>tm_yday := 0\<rparr>) = fromUtcTime u" for u by (simp add: fromUtcTime_def)
  then show ?thesis using toUtcTime_gmtime [OF assms, of b] gmtime_back(1) [OF assms] by simp
qed

theorem utc_time_roundtrip_witness: "(toUtcTime (- 86401) False \<bind> fromUtcTime) = Some (- 86401)"
  by (rule utc_time_roundtrip) (simp add: utc_range_def)

end
