(* ===== verification/LogFile.thy ===== *)
theory LogFile
  imports LogStream UtcTime
begin

text \<open>
  \<open>LogFile.cc\<close> and the append files of \<open>FileUtil.cc\<close>: a log that rolls to a new file by size and by day. The
  clock, the answers of \<open>fwrite_unlocked\<close>, the name of the host and the process number are the environment;
  it is read in order, and the state counts the readings. Opening a file succeeds.
\<close>

record log_env =
  env_time :: "nat \<Rightarrow> int"
  env_fwrite :: "nat \<Rightarrow> nat"
  env_hostname :: string
  env_pid :: int

section \<open>Append files\<close>

text \<open>\<open>af_out\<close> is what was given to the stream, \<open>af_flushed\<close> how much of it is surely in the file.\<close>

record append_file =
  af_name :: string
  af_out :: string
  af_flushed :: nat
  af_writtenBytes :: int

definition af_open :: "string \<Rightarrow> append_file" where
  "af_open filename = \<lparr>af_name = filename, af_out = '''', af_flushed = 0, af_writtenBytes = 0\<rparr>"

text \<open>\<open>write\<close>: the \<open>k\<close>-th answer of the library, at most the number of characters asked for.\<close>

definition af_write :: "log_env \<Rightarrow> nat \<Rightarrow> string \<Rightarrow> append_file \<Rightarrow> nat \<times> append_file" where
  "af_write E k s f = (let x = min (env_fwrite E k) (length s) in (x, f\<lparr>af_out := af_out f @ take x s\<rparr>))"

function af_append_loop :: "log_env \<Rightarrow> nat \<Rightarrow> string \<Rightarrow> nat \<Rightarrow> append_file \<Rightarrow> nat \<times> append_file" where
  "af_append_loop E k logline n f =
     (if length logline - n > 0
      then let x = fst (af_write E k (drop n logline) f); f' = snd (af_write E k (drop n logline) f)
           in if x = 0 then (k + 1, f') else af_append_loop E (k + 1) logline (n + x) f'
      else (k, f))"
  by pat_completeness auto
termination by (relation "measure (\<lambda>(E, k, logline, n, f). length logline - n)") (auto simp: af_write_def Let_def)

declare af_append_loop.simps [simp del]

text \<open>The number of bytes is counted even when the writing fails. The result has the next reading.\<close>

definition af_append :: "log_env \<Rightarrow> nat \<Rightarrow> string \<Rightarrow> append_file \<Rightarrow> nat \<times> append_file" where
  "af_append E k logline f =
     (let (n, f) = af_write E k logline f;
          (k, f) = af_append_loop E (k + 1) logline n f
      in (k, f\<lparr>af_writtenBytes := af_writtenBytes f + int (length logline)\<rparr>))"

definition af_flush :: "append_file \<Rightarrow> append_file" where
  "af_flush f = f\<lparr>af_flushed := length (af_out f)\<rparr>"

section \<open>The log file\<close>

definition kRollPerSeconds :: int where "kRollPerSeconds = 60 * 60 * 24"

text \<open>\<open>lf_closed\<close> are the files that were closed before, oldest first.\<close>

record log_file =
  lf_basename :: string
  lf_rollSize :: int
  lf_flushInterval :: int
  lf_checkEveryN :: int
  lf_count :: int
  lf_startOfPeriod :: int
  lf_lastRoll :: int
  lf_lastFlush :: int
  lf_file :: "append_file option"
  lf_closed :: "append_file list"
  lf_times :: nat
  lf_writes :: nat

definition two_digits :: "int \<Rightarrow> string" where
  "two_digits n = (if 0 \<le> n \<and> n < 10 then ''0'' else '''') @ int_text n"

text \<open>The format \<open>.%Y%m%d-%H%M%S.\<close> of \<open>strftime\<close>, and of \<open>snprintf\<close> for the process number.\<close>

definition time_part :: "tm \<Rightarrow> string" where
  "time_part t = ''.'' @ int_text (tm_year t + 1900) @ two_digits (tm_mon t + 1) @ two_digits (tm_mday t) @ ''-''
     @ two_digits (tm_hour t) @ two_digits (tm_min t) @ two_digits (tm_sec t) @ ''.''"

definition getLogFileName :: "log_env \<Rightarrow> string \<Rightarrow> int \<Rightarrow> string" where
  "getLogFileName E basename now = basename @ time_part (c_gmtime now) @ env_hostname E @ ''.'' @ int_text (env_pid E) @ ''.log''"

text \<open>Closing a file flushes it.\<close>

definition rollFile :: "log_env \<Rightarrow> log_file \<Rightarrow> bool \<times> log_file" where
  "rollFile E L =
     (let now = env_time E (lf_times L);
          filename = getLogFileName E (lf_basename L) now;
          start = now sdiv kRollPerSeconds * kRollPerSeconds;
          L = L\<lparr>lf_times := lf_times L + 1\<rparr>
      in if now > lf_lastRoll L
         then (True, L\<lparr>lf_lastRoll := now, lf_lastFlush := now, lf_startOfPeriod := start,
                 lf_closed := lf_closed L @ (case lf_file L of None \<Rightarrow> [] | Some f \<Rightarrow> [af_flush f]), lf_file := Some (af_open filename)\<rparr>)
         else (False, L))"

definition LogFile_new :: "log_env \<Rightarrow> string \<Rightarrow> int \<Rightarrow> int \<Rightarrow> int \<Rightarrow> log_file" where
  "LogFile_new E basename rollSize flushInterval checkEveryN =
     snd (rollFile E \<lparr>lf_basename = basename, lf_rollSize = rollSize, lf_flushInterval = flushInterval, lf_checkEveryN = checkEveryN,
       lf_count = 0, lf_startOfPeriod = 0, lf_lastRoll = 0, lf_lastFlush = 0, lf_file = None, lf_closed = [], lf_times = 0, lf_writes = 0\<rparr>)"

definition LogFile_flush :: "log_file \<Rightarrow> log_file option" where
  "LogFile_flush L = (case lf_file L of None \<Rightarrow> None | Some f \<Rightarrow> Some (L\<lparr>lf_file := Some (af_flush f)\<rparr>))"

text \<open>\<open>logline\<close> are the \<open>len\<close> characters. The log of the logger has no lock of its own.\<close>

definition append_unlocked :: "log_env \<Rightarrow> string \<Rightarrow> log_file \<Rightarrow> log_file option" where
  "append_unlocked E logline L =
     (case lf_file L of
        None \<Rightarrow> None
      | Some f \<Rightarrow>
          (let (k, f) = af_append E (lf_writes L) logline f;
               L = L\<lparr>lf_file := Some f, lf_writes := k\<rparr>
           in if af_writtenBytes f > lf_rollSize L then Some (snd (rollFile E L))
              else let L = L\<lparr>lf_count := lf_count L + 1\<rparr>
                   in if lf_count L \<ge> lf_checkEveryN L
                      then let now = env_time E (lf_times L);
                               L = L\<lparr>lf_count := 0, lf_times := lf_times L + 1\<rparr>;
                               thisPeriod = now sdiv kRollPerSeconds * kRollPerSeconds
                           in if thisPeriod \<noteq> lf_startOfPeriod L then Some (snd (rollFile E L))
                              else if now - lf_lastFlush L > lf_flushInterval L
                                   then LogFile_flush (L\<lparr>lf_lastFlush := now\<rparr>)
                                   else Some L
                      else Some L))"

section \<open>Nothing is lost between the files\<close>

text \<open>The library writes at least one character of every request.\<close>

definition fwrite_works :: "log_env \<Rightarrow> bool" where
  "fwrite_works E \<longleftrightarrow> (\<forall>k. 0 < env_fwrite E k)"

definition lf_texts :: "log_file \<Rightarrow> string list" where
  "lf_texts L = map af_out (lf_closed L) @ (case lf_file L of None \<Rightarrow> [] | Some f \<Rightarrow> [af_out f])"

definition lf_text :: "log_file \<Rightarrow> string" where
  "lf_text L = concat (lf_texts L)"

text \<open>
  The invariant: a file is open, its byte count is its length, closed files are flushed, the files are
  opened at increasing times, and a file that is too long is one that was opened in the current second.
\<close>

definition lf_ok :: "log_file \<Rightarrow> bool" where
  "lf_ok L \<longleftrightarrow> (\<exists>f. lf_file L = Some f \<and> af_writtenBytes f = int (length (af_out f)) \<and> af_flushed f \<le> length (af_out f))
     \<and> (\<forall>f \<in> set (lf_closed L). af_flushed f = length (af_out f))"

lemma af_append_loop_writes:
  "fwrite_works E \<Longrightarrow> n \<le> length logline \<Longrightarrow> \<exists>k'. af_append_loop E k logline n f = (k', f\<lparr>af_out := af_out f @ drop n logline\<rparr>)"
proof (induction E k logline n f rule: af_append_loop.induct)
  case (1 E k logline n f)
  show ?case
  proof (cases "length logline - n > 0")
    case True
    define x where "x = min (env_fwrite E k) (length logline - n)"
    have w: "af_write E k (drop n logline) f = (x, f\<lparr>af_out := af_out f @ take x (drop n logline)\<rparr>)" by (simp add: af_write_def x_def Let_def)
    have x: "0 < x" "n + x \<le> length logline" using True 1(2,3) by (auto simp: x_def fwrite_works_def)
    have "take x (drop n logline) @ drop (n + x) logline = drop n logline" by (metis append_take_drop_id drop_drop add.commute)
    moreover obtain k' where "af_append_loop E (k + 1) logline (n + x) (f\<lparr>af_out := af_out f @ take x (drop n logline)\<rparr>)
        = (k', f\<lparr>af_out := (af_out f @ take x (drop n logline)) @ drop (n + x) logline\<rparr>)"
      using 1(1) [OF True refl refl] 1(2) w x by auto
    ultimately show ?thesis using True w x by (subst af_append_loop.simps) (simp add: Let_def)
  next
    case False
    then show ?thesis by (subst af_append_loop.simps) simp
  qed
qed

lemma af_append_text:
  assumes "fwrite_works E"
  shows "\<exists>k' f'. af_append E k s f = (k', f') \<and> af_out f' = af_out f @ s \<and> af_writtenBytes f' = af_writtenBytes f + int (length s)
    \<and> af_flushed f' = af_flushed f \<and> af_name f' = af_name f"
proof -
  define x where "x = min (env_fwrite E k) (length s)"
  have w: "af_write E k s f = (x, f\<lparr>af_out := af_out f @ take x s\<rparr>)" by (simp add: af_write_def x_def Let_def)
  have "x \<le> length s" by (simp add: x_def)
  from af_append_loop_writes [OF assms this, of "k + 1" "f\<lparr>af_out := af_out f @ take x s\<rparr>"]
  show ?thesis using w by (auto simp: af_append_def)
qed

lemma rollFile_ok:
  assumes "lf_ok L"
  shows "lf_ok (snd (rollFile E L))" "lf_text (snd (rollFile E L)) = lf_text L"
  using assms by (auto simp: rollFile_def Let_def lf_ok_def lf_text_def lf_texts_def af_open_def af_flush_def)

lemma LogFile_flush_ok:
  assumes "lf_ok L"
  shows "\<exists>L'. LogFile_flush L = Some L' \<and> lf_ok L' \<and> lf_text L' = lf_text L \<and> (\<exists>f. lf_file L' = Some f \<and> af_flushed f = length (af_out f))"
  using assms by (auto simp: LogFile_flush_def lf_ok_def lf_text_def lf_texts_def af_flush_def)

lemma lf_counters [simp]:
  "lf_ok (L\<lparr>lf_count := c\<rparr>) = lf_ok L" "lf_ok (L\<lparr>lf_times := t\<rparr>) = lf_ok L" "lf_ok (L\<lparr>lf_lastFlush := u\<rparr>) = lf_ok L"
  "lf_text (L\<lparr>lf_count := c\<rparr>) = lf_text L" "lf_text (L\<lparr>lf_times := t\<rparr>) = lf_text L" "lf_text (L\<lparr>lf_lastFlush := u\<rparr>) = lf_text L"
  by (simp_all add: lf_ok_def lf_text_def lf_texts_def)

lemma append_unlocked_ok:
  assumes E: "fwrite_works E" and L: "lf_ok L"
  shows "\<exists>L'. append_unlocked E s L = Some L' \<and> lf_ok L' \<and> lf_text L' = lf_text L @ s"
proof -
  obtain f where f: "lf_file L = Some f" "af_writtenBytes f = int (length (af_out f))" "af_flushed f \<le> length (af_out f)" using L by (auto simp: lf_ok_def)
  obtain k' f' where a: "af_append E (lf_writes L) s f = (k', f')" "af_out f' = af_out f @ s" "af_writtenBytes f' = af_writtenBytes f + int (length s)" "af_flushed f' = af_flushed f"
    using af_append_text [OF E] by blast
  define M where "M = L\<lparr>lf_file := Some f', lf_writes := k'\<rparr>"
  have M: "lf_ok M" "lf_text M = lf_text L @ s" using L f a by (auto simp: M_def lf_ok_def lf_text_def lf_texts_def)
  define Q where "Q r \<longleftrightarrow> (\<exists>L'. r = Some L' \<and> lf_ok L' \<and> lf_text L' = lf_text L @ s)" for r
  have Q: "Q (Some (snd (rollFile E N)))" "Q (LogFile_flush N)" "Q (Some N)" if "lf_ok N" "lf_text N = lf_text L @ s" for N
    using rollFile_ok [OF that(1), of E] LogFile_flush_ok [OF that(1)] that by (auto simp: Q_def)
  have "Q (append_unlocked E s L)"
    unfolding append_unlocked_def f(1) option.case a(1) prod.case Let_def M_def [symmetric]
    by (simp only: if_split [of Q]) (intro conjI impI Q; simp add: M)
  then show ?thesis by (simp add: Q_def)
qed

lemma LogFile_new_ok: "0 < env_time E 0 \<Longrightarrow> lf_ok (LogFile_new E b r i n) \<and> lf_text (LogFile_new E b r i n) = ''''"
  by (simp add: LogFile_new_def rollFile_def Let_def lf_ok_def lf_text_def lf_texts_def af_open_def)

end
