(* ===== verification/AsyncLogging.thy ===== *)
theory AsyncLogging
  imports LogFile
begin

text \<open>
  The asynchronous logger, \<open>AsyncLogging.cc\<close>: the threads of the program fill buffers under a mutex, and one
  thread takes the full buffers away and writes them to the log file. The regions under the mutex are
  single steps. A failed assertion or the use of a null pointer is \<^const>\<open>None\<close>. Where the buffers
  go is an argument: an operation that appends and one that flushes, see the locale \<open>log_sink\<close>.
\<close>

section \<open>The interface of the log file\<close>

locale log_sink =
  fixes app :: "string \<Rightarrow> 'f \<Rightarrow> 'f option" and fl :: "'f \<Rightarrow> 'f option" and sink :: "'f \<Rightarrow> string" and good :: "'f \<Rightarrow> bool"
  assumes app_law: "good f \<Longrightarrow> \<exists>f'. app s f = Some f' \<and> good f' \<and> sink f' = sink f @ s"
    and fl_law: "good f \<Longrightarrow> \<exists>f'. fl f = Some f' \<and> good f' \<and> sink f' = sink f"

interpretation lf: log_sink "append_unlocked E" LogFile_flush lf_text "\<lambda>L. fwrite_works E \<and> lf_ok L" for E
  using append_unlocked_ok LogFile_flush_ok by unfold_locales blast+

section \<open>The logger\<close>

text \<open>Where the writing thread stands: at the head of its loop, with the mutex, in the wait, after it, or at its end.\<close>

datatype al_pc = Check | Locked | Waiting | Writing | Finished

text \<open>A pointer to a buffer may be null. The last fields belong to the writing thread.\<close>

record 'f async =
  al_currentBuffer :: "fixed_buffer option"
  al_nextBuffer :: "fixed_buffer option"
  al_buffers :: "fixed_buffer list"
  al_running :: bool
  al_pc :: al_pc
  al_newBuffer1 :: "fixed_buffer option"
  al_newBuffer2 :: "fixed_buffer option"
  al_buffersToWrite :: "fixed_buffer list"
  al_output :: 'f

text \<open>The constructor and \<open>start\<close>; \<open>junk\<close> is the memory of a new buffer and its length the size of the buffers.\<close>

definition al_start :: "string \<Rightarrow> 'f \<Rightarrow> 'f async" where
  "al_start junk output =
     (let b = Some (fb_bzero (fb_new junk))
      in \<lparr>al_currentBuffer = b, al_nextBuffer = b, al_buffers = [], al_running = True, al_pc = Check,
          al_newBuffer1 = b, al_newBuffer2 = b, al_buffersToWrite = [], al_output = output\<rparr>)"

definition al_append :: "string \<Rightarrow> string \<Rightarrow> nat \<Rightarrow> 'f async \<Rightarrow> 'f async option" where
  "al_append junk logline len A =
     do { cur \<leftarrow> al_currentBuffer A;
          if fb_avail cur > int len
          then do { cur \<leftarrow> fb_append logline len cur; Some (A\<lparr>al_currentBuffer := Some cur\<rparr>) }
          else do { let A = A\<lparr>al_buffers := al_buffers A @ [cur]\<rparr>;
                    let cur = (case al_nextBuffer A of Some b \<Rightarrow> b | None \<Rightarrow> fb_new junk);
                    cur \<leftarrow> fb_append logline len cur;
                    Some (A\<lparr>al_currentBuffer := Some cur, al_nextBuffer := None\<rparr>) } }"

text \<open>The head of the loop: the assertions.\<close>

definition is_empty_buffer :: "fixed_buffer option \<Rightarrow> bool" where
  "is_empty_buffer p = (case p of None \<Rightarrow> False | Some b \<Rightarrow> fb_cur b = 0)"

definition al_begin :: "'f async \<Rightarrow> 'f async option" where
  "al_begin A =
     (if is_empty_buffer (al_newBuffer1 A) \<and> is_empty_buffer (al_newBuffer2 A) \<and> al_buffersToWrite A = []
      then Some (A\<lparr>al_pc := Locked\<rparr>) else None)"

text \<open>The region under the mutex, after the wait.\<close>

definition al_take :: "'f async \<Rightarrow> 'f async option" where
  "al_take A =
     do { cur \<leftarrow> al_currentBuffer A;
          let A = A\<lparr>al_buffers := al_buffers A @ [cur], al_currentBuffer := al_newBuffer1 A, al_newBuffer1 := None\<rparr>;
          let A = A\<lparr>al_buffersToWrite := al_buffers A, al_buffers := al_buffersToWrite A\<rparr>;
          let A = (if al_nextBuffer A = None then A\<lparr>al_nextBuffer := al_newBuffer2 A, al_newBuffer2 := None\<rparr> else A);
          Some (A\<lparr>al_pc := Writing\<rparr>) }"

text \<open>The message about \<open>n\<close> buffers; \<open>stamp\<close> is the time as text, and the message is cut at 255 characters.\<close>

definition dropped_message :: "string \<Rightarrow> nat \<Rightarrow> string" where
  "dropped_message stamp n =
     take 255 (''Dropped log messages at '' @ stamp @ '', '' @ int_text (int n - 2) @ '' larger buffers'' @ [CHR 0x0A])"

fun write_buffers :: "(string \<Rightarrow> 'f \<Rightarrow> 'f option) \<Rightarrow> fixed_buffer list \<Rightarrow> 'f \<Rightarrow> 'f option" where
  "write_buffers app [] f = Some f"
| "write_buffers app (b # bs) f = do { f \<leftarrow> app (fb_text b) f; write_buffers app bs f }"

text \<open>A buffer that was written is used again when one is missing.\<close>

definition reuse :: "fixed_buffer option \<Rightarrow> fixed_buffer list \<Rightarrow> (fixed_buffer option \<times> fixed_buffer list) option" where
  "reuse p bs =
     (case p of
        Some b \<Rightarrow> Some (p, bs)
      | None \<Rightarrow> if bs = [] then None else Some (Some (fb_reset (last bs)), butlast bs))"

definition al_write :: "(string \<Rightarrow> 'f \<Rightarrow> 'f option) \<Rightarrow> ('f \<Rightarrow> 'f option) \<Rightarrow> string \<Rightarrow> 'f async \<Rightarrow> 'f async option" where
  "al_write app fl stamp A =
     (if al_buffersToWrite A = [] then None
      else do { let n = length (al_buffersToWrite A);
                (f, bs) \<leftarrow> (if n > 25
                   then do { f \<leftarrow> app (dropped_message stamp n) (al_output A); Some (f, take 2 (al_buffersToWrite A)) }
                   else Some (al_output A, al_buffersToWrite A));
                f \<leftarrow> write_buffers app bs f;
                f \<leftarrow> fl f;
                let bs = (if length bs > 2 then take 2 bs else bs);
                (new1, bs) \<leftarrow> reuse (al_newBuffer1 A) bs;
                (new2, bs) \<leftarrow> reuse (al_newBuffer2 A) bs;
                Some (A\<lparr>al_output := f, al_newBuffer1 := new1, al_newBuffer2 := new2, al_buffersToWrite := [], al_pc := Check\<rparr>) })"

definition al_exit :: "('f \<Rightarrow> 'f option) \<Rightarrow> 'f async \<Rightarrow> 'f async option" where
  "al_exit fl A = do { f \<leftarrow> fl (al_output A); Some (A\<lparr>al_output := f, al_pc := Finished\<rparr>) }"

text \<open>\<open>stop\<close>, up to the \<open>join\<close>.\<close>

definition al_stop :: "'f async \<Rightarrow> 'f async" where
  "al_stop A = A\<lparr>al_running := False\<rparr>"

section \<open>Runs\<close>

text \<open>
  The states that can be reached, with the lines appended so far and whether buffers were dropped. Lines
  come at any time, also during the wait, which ends by a signal, by the time limit or without reason.
\<close>

inductive al_run :: "(string \<Rightarrow> 'f \<Rightarrow> 'f option) \<Rightarrow> ('f \<Rightarrow> 'f option) \<Rightarrow> string \<Rightarrow> 'f \<Rightarrow> string list \<Rightarrow> bool \<Rightarrow> 'f async \<Rightarrow> bool"
  for app fl junk out where
  run_start: "al_run app fl junk out [] False (al_start junk out)"
| run_append: "al_run app fl junk out ls d A \<Longrightarrow> al_append junk l (length l) A = Some A' \<Longrightarrow> al_run app fl junk out (ls @ [l]) d A'"
| run_begin: "al_run app fl junk out ls d A \<Longrightarrow> al_pc A = Check \<Longrightarrow> al_running A \<Longrightarrow> al_begin A = Some A' \<Longrightarrow> al_run app fl junk out ls d A'"
| run_wait: "al_run app fl junk out ls d A \<Longrightarrow> al_pc A = Locked \<Longrightarrow> al_buffers A = [] \<Longrightarrow> al_run app fl junk out ls d (A\<lparr>al_pc := Waiting\<rparr>)"
| run_take: "al_run app fl junk out ls d A \<Longrightarrow> al_pc A = Waiting \<or> al_pc A = Locked \<and> al_buffers A \<noteq> [] \<Longrightarrow> al_take A = Some A'
    \<Longrightarrow> al_run app fl junk out ls d A'"
| run_write: "al_run app fl junk out ls d A \<Longrightarrow> al_pc A = Writing \<Longrightarrow> al_write app fl stamp A = Some A'
    \<Longrightarrow> al_run app fl junk out ls (d \<or> length (al_buffersToWrite A) > 25) A'"
| run_stop: "al_run app fl junk out ls d A \<Longrightarrow> al_run app fl junk out ls d (al_stop A)"
| run_exit: "al_run app fl junk out ls d A \<Longrightarrow> al_pc A = Check \<Longrightarrow> \<not> al_running A \<Longrightarrow> al_exit fl A = Some A' \<Longrightarrow> al_run app fl junk out ls d A'"

text \<open>The steps of the writing thread alone, from one state to the next.\<close>

inductive al_writer :: "(string \<Rightarrow> 'f \<Rightarrow> 'f option) \<Rightarrow> ('f \<Rightarrow> 'f option) \<Rightarrow> 'f async \<Rightarrow> 'f async \<Rightarrow> bool" for app fl where
  w_begin: "al_pc A = Check \<Longrightarrow> al_running A \<Longrightarrow> al_begin A = Some A' \<Longrightarrow> al_writer app fl A A'"
| w_wait: "al_pc A = Locked \<Longrightarrow> al_buffers A = [] \<Longrightarrow> al_writer app fl A (A\<lparr>al_pc := Waiting\<rparr>)"
| w_take: "al_pc A = Waiting \<or> al_pc A = Locked \<and> al_buffers A \<noteq> [] \<Longrightarrow> al_take A = Some A' \<Longrightarrow> al_writer app fl A A'"
| w_write: "al_pc A = Writing \<Longrightarrow> al_write app fl stamp A = Some A' \<Longrightarrow> al_writer app fl A A'"
| w_exit: "al_pc A = Check \<Longrightarrow> \<not> al_running A \<Longrightarrow> al_exit fl A = Some A' \<Longrightarrow> al_writer app fl A A'"

text \<open>No more than 25 buffers are taken at once in the rounds to come, and the thread does not leave its loop.\<close>

definition can_flush :: "'f async \<Rightarrow> bool" where
  "can_flush A \<longleftrightarrow> al_running A \<and> al_pc A \<noteq> Finished \<and> length (al_buffers A) < 25 \<and> length (al_buffersToWrite A) \<le> 25"

section \<open>The invariant\<close>

text \<open>A buffer that is there is in order; a spare buffer is also empty.\<close>

definition spare :: "nat \<Rightarrow> fixed_buffer \<Rightarrow> bool" where
  "spare n b \<longleftrightarrow> fb_ok n b \<and> fb_cur b = 0"

abbreviation buffers_text :: "fixed_buffer list \<Rightarrow> string" where
  "buffers_text bs \<equiv> concat (map fb_text bs)"

definition pending_text :: "'f async \<Rightarrow> string" where
  "pending_text A = buffers_text (al_buffersToWrite A) @ buffers_text (al_buffers A) @ (case al_currentBuffer A of None \<Rightarrow> '''' | Some b \<Rightarrow> fb_text b)"

text \<open>
  The spare buffer of the front may only be gone when a full buffer is queued; this is why the writing
  thread always has enough buffers to hand back.
\<close>

definition al_shape :: "nat \<Rightarrow> 'f async \<Rightarrow> bool" where
  "al_shape n A \<longleftrightarrow> (\<exists>c. al_currentBuffer A = Some c \<and> fb_ok n c) \<and> (\<forall>b \<in> set_option (al_nextBuffer A). spare n b)
     \<and> (al_nextBuffer A = None \<longrightarrow> al_buffers A \<noteq> []) \<and> (\<forall>b \<in> set (al_buffers A). fb_ok n b)
     \<and> (\<forall>b \<in> set (al_buffersToWrite A). fb_ok n b)
     \<and> (\<forall>b \<in> set_option (al_newBuffer1 A). spare n b) \<and> (\<forall>b \<in> set_option (al_newBuffer2 A). spare n b)
     \<and> (if al_pc A = Writing
        then al_newBuffer1 A = None \<and> al_buffersToWrite A \<noteq> [] \<and> (al_newBuffer2 A = None \<longrightarrow> 2 \<le> length (al_buffersToWrite A))
        else al_newBuffer1 A \<noteq> None \<and> al_newBuffer2 A \<noteq> None \<and> al_buffersToWrite A = [])"

text \<open>The lines that fit into a buffer at all.\<close>

definition fitting :: "nat \<Rightarrow> string list \<Rightarrow> string" where
  "fitting n ls = concat (filter (\<lambda>l. length l < n) ls)"

lemma fitting_snoc: "fitting n (ls @ [l]) = fitting n ls @ (if length l < n then l else '''')"
  by (simp add: fitting_def)

lemma spare_new: "length junk = n \<Longrightarrow> n < 2 ^ 31 \<Longrightarrow> spare n (fb_bzero (fb_new junk))"
  by (simp add: spare_def)

lemma spare_text: "spare n b \<Longrightarrow> fb_text b = ''''"
  by (simp add: spare_def fb_text_def)

lemma shape_start: "length junk = n \<Longrightarrow> n < 2 ^ 31 \<Longrightarrow> al_shape n (al_start junk out)"
  using spare_new by (auto simp: al_shape_def al_start_def Let_def spare_def)

lemma al_append_shape:
  assumes A: "al_shape n A" and junk: "length junk = n" "n < 2 ^ 31"
  shows "\<exists>A'. al_append junk l (length l) A = Some A' \<and> al_shape n A' \<and> al_output A' = al_output A \<and> al_pc A' = al_pc A
    \<and> al_buffersToWrite A' = al_buffersToWrite A \<and> length (al_buffers A') \<le> length (al_buffers A) + 1
    \<and> pending_text A' = pending_text A @ (if length l < n then l else '''')"
proof -
  obtain c where c: "al_currentBuffer A = Some c" "fb_ok n c" using A by (auto simp: al_shape_def)
  have len: "length (fb_text c) \<le> n" using fb_text_length [OF c(2)] c(2) by (simp add: fb_ok_def)
  have av: "fb_avail c > int (length l) \<longleftrightarrow> length (fb_text c) + length l < n" using fb_avail_text [OF c(2)] by auto
  show ?thesis
  proof (cases "length (fb_text c) + length l < n")
    case True
    obtain c' where "fb_append l (length l) c = Some c'" "fb_ok n c'" "fb_text c' = put_text n l (fb_text c)"
      using fb_append_text [OF c(2) refl, of l "''''"] by auto
    then show ?thesis using A c av True by (auto simp: al_append_def al_shape_def pending_text_def put_text_def)
  next
    case False
    define nb where "nb = (case al_nextBuffer A of Some b \<Rightarrow> b | None \<Rightarrow> fb_new junk)"
    have nb: "spare n nb" using A junk by (auto simp: nb_def al_shape_def spare_def split: option.splits)
    obtain c' where c': "fb_append l (length l) nb = Some c'" "fb_ok n c'" "fb_text c' = put_text n l ''''"
      using fb_append_text [of n nb l "length l" "''''"] nb spare_text [OF nb] by (auto simp: spare_def)
    have "al_append junk l (length l) A = Some (A\<lparr>al_buffers := al_buffers A @ [c], al_currentBuffer := Some c', al_nextBuffer := None\<rparr>)"
      using c av False c' by (simp add: al_append_def nb_def [symmetric])
    then show ?thesis using A c c' by (auto simp: al_shape_def pending_text_def put_text_def)
  qed
qed

lemma al_begin_shape:
  assumes "al_shape n A" "al_pc A = Check"
  shows "al_begin A = Some (A\<lparr>al_pc := Locked\<rparr>)" "al_shape n (A\<lparr>al_pc := Locked\<rparr>)"
  using assms by (auto simp: al_begin_def al_shape_def is_empty_buffer_def spare_def)

lemma al_take_shape:
  assumes A: "al_shape n A" and pc: "al_pc A \<noteq> Writing"
  shows "\<exists>A'. al_take A = Some A' \<and> al_shape n A' \<and> al_pc A' = Writing \<and> al_output A' = al_output A \<and> pending_text A' = pending_text A
    \<and> al_running A' = al_running A \<and> length (al_buffersToWrite A') = length (al_buffers A) + 1 \<and> al_buffers A' = []
    \<and> buffers_text (al_buffersToWrite A') = pending_text A"
proof -
  obtain c b1 b2 where c: "al_currentBuffer A = Some c" "al_newBuffer1 A = Some b1" "al_newBuffer2 A = Some b2"
    using A pc by (auto simp: al_shape_def)
  then have "spare n b1" using A by (auto simp: al_shape_def)
  then show ?thesis using A pc c spare_text [of n b1] by (auto simp: al_take_def Let_def al_shape_def pending_text_def spare_def Suc_le_eq)
qed

lemma reuse_Some: "reuse (Some b) bs = Some (Some b, bs)"
  by (simp add: reuse_def)

lemma reuse_None: "bs \<noteq> [] \<Longrightarrow> reuse None bs = Some (Some (fb_reset (last bs)), butlast bs)"
  by (simp add: reuse_def)

text \<open>Handing back the written buffers: the last ones become the spare buffers.\<close>

lemma reuse_both:
  assumes "bs \<noteq> []" "new2 = None \<Longrightarrow> 2 \<le> length bs" "\<forall>b \<in> set bs. fb_ok n b" "\<forall>b \<in> set_option new2. spare n b"
  shows "\<exists>p1 p2 r1 r2. reuse None bs = Some (Some p1, r1) \<and> reuse new2 r1 = Some (Some p2, r2) \<and> spare n p1 \<and> spare n p2"
proof -
  have l: "spare n (fb_reset (last bs))" using assms(1,3) by (simp add: spare_def)
  show ?thesis
  proof (cases new2)
    case None
    then have "butlast bs \<noteq> []" using assms(2) by (cases bs rule: rev_cases) auto
    moreover have "last (butlast bs) \<in> set bs" using last_in_set [OF calculation] in_set_butlastD by metis
    ultimately have "spare n (fb_reset (last (butlast bs)))" using assms(3) by (simp add: spare_def)
    then show ?thesis using None l assms(1) \<open>butlast bs \<noteq> []\<close> by (simp add: reuse_None)
  next
    case (Some b)
    then show ?thesis using l assms(1,4) by (simp add: reuse_None reuse_Some)
  qed
qed

context log_sink
begin

lemma write_buffers_text: "good f \<Longrightarrow> \<exists>f'. write_buffers app bs f = Some f' \<and> good f' \<and> sink f' = sink f @ buffers_text bs"
proof (induction bs arbitrary: f)
  case (Cons b bs)
  obtain f1 where f1: "app (fb_text b) f = Some f1" "good f1" "sink f1 = sink f @ fb_text b" using app_law [OF Cons.prems] by blast
  then show ?case using Cons.IH [OF f1(2)] by auto
qed simp

lemma al_write_shape:
  assumes A: "al_shape n A" and pc: "al_pc A = Writing" and f: "good (al_output A)"
  shows "\<exists>A'. al_write app fl stamp A = Some A' \<and> al_shape n A' \<and> al_pc A' = Check \<and> good (al_output A') \<and> al_running A' = al_running A
    \<and> al_buffers A' = al_buffers A \<and> al_buffersToWrite A' = [] \<and> al_currentBuffer A' = al_currentBuffer A
    \<and> sink (al_output A') = sink (al_output A)
        @ (if length (al_buffersToWrite A) > 25 then dropped_message stamp (length (al_buffersToWrite A)) @ buffers_text (take 2 (al_buffersToWrite A))
           else buffers_text (al_buffersToWrite A))"
proof -
  define bs where "bs = al_buffersToWrite A"
  define kept where "kept = (if length bs > 25 then take 2 bs else bs)"
  define m where "m = (if length bs > 25 then dropped_message stamp (length bs) else '''')"
  have b: "bs \<noteq> []" "al_newBuffer1 A = None" "al_newBuffer2 A = None \<Longrightarrow> 2 \<le> length bs" "\<forall>b \<in> set bs. fb_ok n b"
    "\<forall>b \<in> set_option (al_newBuffer2 A). spare n b" using A pc by (auto simp: al_shape_def bs_def)
  obtain f1 where f1: "(if length bs > 25 then do { f \<leftarrow> app (dropped_message stamp (length bs)) (al_output A); Some (f, take 2 bs) } else Some (al_output A, bs)) = Some (f1, kept)"
    "good f1" "sink f1 = sink (al_output A) @ m" 
  proof (cases "length bs > 25")
    case True
    then show ?thesis using that app_law [OF f, of "dropped_message stamp (length bs)"] by (auto simp: kept_def m_def)
  next
    case False
    then show ?thesis using that [of "al_output A"] f by (simp add: kept_def m_def)
  qed
  obtain f2 where f2: "write_buffers app kept f1 = Some f2" "good f2" "sink f2 = sink f1 @ buffers_text kept" using write_buffers_text [OF f1(2)] by blast
  obtain f3 where f3: "fl f2 = Some f3" "good f3" "sink f3 = sink f2" using fl_law [OF f2(2)] by blast
  define two where "two = (if length kept > 2 then take 2 kept else kept)"
  have two: "two \<noteq> []" "al_newBuffer2 A = None \<Longrightarrow> 2 \<le> length two" "\<forall>b \<in> set two. fb_ok n b"
    using b by (auto simp: two_def kept_def dest: in_set_takeD)
  obtain p1 p2 r1 r2 where r: "reuse None two = Some (Some p1, r1)" "reuse (al_newBuffer2 A) r1 = Some (Some p2, r2)" "spare n p1" "spare n p2"
    using reuse_both [OF two b(5)] by blast
  have "al_write app fl stamp A = Some (A\<lparr>al_output := f3, al_newBuffer1 := Some p1, al_newBuffer2 := Some p2, al_buffersToWrite := [], al_pc := Check\<rparr>)"
    unfolding al_write_def bs_def [symmetric] Let_def using b(1,2) f1(1) f2(1) f3(1) r by (simp add: two_def [symmetric])
  then show ?thesis using A f1 f2 f3 r bs_def pc by (auto simp: al_shape_def m_def kept_def)
qed

lemma al_exit_shape:
  assumes "al_shape n A" "good (al_output A)" "al_pc A = Check"
  shows "\<exists>A'. al_exit fl A = Some A' \<and> al_shape n A' \<and> good (al_output A') \<and> sink (al_output A') = sink (al_output A) \<and> pending_text A' = pending_text A"
  using fl_law [OF assms(2)] assms by (auto simp: al_exit_def al_shape_def pending_text_def)

lemma shape_run:
  assumes "al_run app fl junk out ls d A" "good out" "length junk = n" "n < 2 ^ 31"
  shows "al_shape n A \<and> good (al_output A) \<and> (\<not> d \<longrightarrow> sink (al_output A) @ pending_text A = sink out @ fitting n ls)"
  using assms
proof (induction rule: al_run.induct)
  case run_start
  have "pending_text (al_start junk out) = ''''" using spare_new [of junk n] run_start(2,3) by (simp add: pending_text_def al_start_def Let_def spare_text)
  then show ?case using run_start shape_start [of junk n out] by (simp add: fitting_def) (simp add: al_start_def Let_def)
next
  case (run_append ls d A l A')
  then show ?case using al_append_shape [of n A junk l] by (auto simp: fitting_snoc)
next
  case (run_begin ls d A A')
  then show ?case using al_begin_shape [of n A] by (auto simp: pending_text_def)
next
  case (run_wait ls d A)
  then show ?case by (auto simp: al_shape_def pending_text_def)
next
  case (run_take ls d A A')
  then have "al_pc A \<noteq> Writing" by auto
  then show ?case using run_take al_take_shape [of n A] by auto
next
  case (run_write ls d A stamp A')
  then have s: "al_shape n A" "good (al_output A)" and t: "\<not> d \<longrightarrow> sink (al_output A) @ pending_text A = sink out @ fitting n ls" by auto
  from al_write_shape [OF s(1) run_write(2) s(2), of stamp] run_write(3) t show ?case by (auto simp: pending_text_def)
next
  case (run_stop ls d A)
  then show ?case by (auto simp: al_stop_def al_shape_def pending_text_def)
next
  case (run_exit ls d A A')
  then have s: "al_shape n A" "good (al_output A)" by auto
  from al_exit_shape [OF s run_exit(2)] run_exit(4,5) show ?case using run_exit.IH run_exit.prems by auto
qed

text \<open>The writing thread goes on: its steps keep the state reachable, and it can still flush.\<close>

lemma al_writer_run:
  assumes w: "al_writer app fl A A'" and r: "al_run app fl junk out ls False A" and g: "good out" "length junk = n" "n < 2 ^ 31" and c: "can_flush A"
  shows "al_run app fl junk out ls False A' \<and> can_flush A'"
  using w
proof cases
  case w_begin
  then show ?thesis using run_begin [OF r] c by (auto simp: can_flush_def al_begin_def split: if_splits)
next
  case w_wait
  then show ?thesis using run_wait [OF r] c by (auto simp: can_flush_def)
next
  case w_take
  then have "al_pc A \<noteq> Writing" by auto
  then show ?thesis using run_take [OF r w_take] al_take_shape [of n A] shape_run [OF r g] w_take(2) c by (auto simp: can_flush_def)
next
  case (w_write stamp)
  have s: "al_shape n A" "good (al_output A)" using shape_run [OF r g] by blast+
  have le: "\<not> 25 < length (al_buffersToWrite A)" using c by (simp add: can_flush_def)
  have "al_run app fl junk out ls False A'" using run_write [OF r w_write] le by simp
  moreover have "can_flush A'" using w_write c by (auto simp: can_flush_def al_write_def Let_def split: bind_splits if_splits)
  ultimately show ?thesis by blast
next
  case w_exit
  then show ?thesis using c by (simp add: can_flush_def)
qed

lemma al_writers_run:
  assumes "(al_writer app fl)\<^sup>*\<^sup>* A A'" "al_run app fl junk out ls False A" "good out" "length junk = n" "n < 2 ^ 31" "can_flush A"
  shows "al_run app fl junk out ls False A' \<and> can_flush A'"
  using assms(1) by (induction rule: rtranclp_induct) (use assms(2-) al_writer_run in blast)+

text \<open>From the head of the loop, from the mutex or from the wait, one round brings everything to the log.\<close>

lemma al_round:
  assumes r: "al_run app fl junk out ls False A" and g: "good out" "length junk = n" "n < 2 ^ 31"
    and c: "can_flush A" "al_pc A = Check \<or> al_pc A = Locked \<or> al_pc A = Waiting"
  shows "\<exists>A'. (al_writer app fl)\<^sup>*\<^sup>* A A' \<and> al_pc A' = Check \<and> sink (al_output A') = sink out @ fitting n ls"
proof -
  let ?to = "(al_writer app fl)\<^sup>*\<^sup>*"
  note s = shape_run [OF r g]
  obtain A0 where A0: "?to A A0" "al_pc A0 = Locked \<or> al_pc A0 = Waiting"
  proof (cases "al_pc A = Check")
    case True
    then have "al_writer app fl A (A\<lparr>al_pc := Locked\<rparr>)" using al_begin_shape(1) [of n A] s c(1) by (intro w_begin) (simp_all add: can_flush_def)
    then show ?thesis using that [of "A\<lparr>al_pc := Locked\<rparr>"] by auto
  qed (use c(2) that in blast)
  obtain A1 where A1: "?to A A1" "al_pc A1 = Waiting \<or> al_pc A1 = Locked \<and> al_buffers A1 \<noteq> []"
  proof (cases "al_pc A0 = Locked \<and> al_buffers A0 = []")
    case True
    then have "al_writer app fl A0 (A0\<lparr>al_pc := Waiting\<rparr>)" by (intro w_wait) simp_all
    then show ?thesis using that [of "A0\<lparr>al_pc := Waiting\<rparr>"] A0(1) by (auto intro: rtranclp.rtrancl_into_rtrancl)
  qed (use A0 that in blast)
  have 1: "al_run app fl junk out ls False A1" "can_flush A1" using al_writers_run [OF A1(1) r g c(1)] by blast+
  have "al_pc A1 \<noteq> Writing" using A1(2) by auto
  then obtain A2 where A2: "al_take A1 = Some A2" "al_shape n A2" "al_pc A2 = Writing" "al_output A2 = al_output A1"
    "length (al_buffersToWrite A2) = length (al_buffers A1) + 1" "buffers_text (al_buffersToWrite A2) = pending_text A1"
    using al_take_shape [of n A1] shape_run [OF 1(1) g] by blast
  have w2: "al_writer app fl A1 A2" by (rule w_take [OF A1(2) A2(1)])
  have le: "\<not> length (al_buffersToWrite A2) > 25" using A2(5) 1(2) by (simp add: can_flush_def)
  obtain A3 where A3: "al_write app fl '''' A2 = Some A3" "al_pc A3 = Check"
    "sink (al_output A3) = sink (al_output A2) @ buffers_text (al_buffersToWrite A2)"
    using al_write_shape [OF A2(2,3), of "''''"] shape_run [OF 1(1) g] A2(4) le by auto
  have "al_writer app fl A2 A3" by (rule w_write [OF A2(3) A3(1)])
  then have "?to A A3" using A1(1) w2 by (meson rtranclp.rtrancl_into_rtrancl)
  moreover have "sink (al_output A3) = sink out @ fitting n ls" using A3(3) A2(4,6) shape_run [OF 1(1) g] by simp
  ultimately show ?thesis using A3(2) by blast
qed

text \<open>A thread that is writing ends its write first.\<close>

lemma al_flushes:
  assumes r: "al_run app fl junk out ls False A" and g: "good out" "length junk = n" "n < 2 ^ 31" and c: "can_flush A"
  shows "\<exists>A'. (al_writer app fl)\<^sup>*\<^sup>* A A' \<and> al_pc A' = Check \<and> sink (al_output A') = sink out @ fitting n ls"
proof (cases "al_pc A = Writing")
  case True
  have s: "al_shape n A" "good (al_output A)" using shape_run [OF r g] by blast+
  obtain A1 where A1: "al_write app fl '''' A = Some A1" "al_pc A1 = Check"
    using al_write_shape [OF s(1) True s(2), of "''''"] by blast
  have w: "al_writer app fl A A1" by (rule w_write [OF True A1(1)])
  from al_writer_run [OF w r g c] have "al_run app fl junk out ls False A1" "can_flush A1" by blast+
  from al_round [OF this(1) g this(2)] A1(2) w show ?thesis by (meson converse_rtranclp_into_rtranclp)
next
  case False
  then show ?thesis using al_round [OF r g c] c by (cases "al_pc A") (auto simp: can_flush_def)
qed

end

section \<open>The logger on its log file\<close>

text \<open>
  C11. The logger is safe and loses nothing while it runs: in every state that threads appending lines, the
  writing thread and \<open>stop\<close> can reach, each operation that can come next returns (no assertion fails, no
  null pointer is used, the writing thread has the buffers it hands back), and as long as no more than
  25 buffers were found at once, the text in the log files followed by what is still in the buffers is every
  line shorter than a buffer, in the order of the appends. The hypothesis \<open>fwrite_works\<close> is about the C library:
  every call of \<open>fwrite\<close> writes at least a byte.
\<close>

theorem async_logging_keeps_lines:
  assumes "al_run (append_unlocked E) LogFile_flush junk out ls d A" "fwrite_works E" "lf_ok out" "length junk < 2 ^ 31"
  shows "al_append junk l (length l) A \<noteq> None \<and> (al_pc A = Check \<longrightarrow> al_begin A \<noteq> None \<and> al_exit LogFile_flush A \<noteq> None)
    \<and> (al_pc A = Locked \<or> al_pc A = Waiting \<longrightarrow> al_take A \<noteq> None) \<and> (al_pc A = Writing \<longrightarrow> al_write (append_unlocked E) LogFile_flush stamp A \<noteq> None)
    \<and> (\<not> d \<longrightarrow> lf_text (al_output A) @ pending_text A = lf_text out @ fitting (length junk) ls)"
proof -
  have s: "al_shape (length junk) A" "fwrite_works E \<and> lf_ok (al_output A)" "\<not> d \<longrightarrow> lf_text (al_output A) @ pending_text A = lf_text out @ fitting (length junk) ls"
    using lf.shape_run [OF assms(1) _ refl assms(4)] assms(2,3) by simp_all
  have "al_append junk l (length l) A \<noteq> None" using al_append_shape [OF s(1) refl assms(4), of l] by auto
  moreover have "al_begin A \<noteq> None" "al_exit LogFile_flush A \<noteq> None" if "al_pc A = Check"
    using al_begin_shape(1) [OF s(1) that] lf.al_exit_shape [OF s(1,2) that] by auto
  moreover have "al_take A \<noteq> None" if "al_pc A = Locked \<or> al_pc A = Waiting" using al_take_shape [OF s(1)] that by auto
  moreover have "al_write (append_unlocked E) LogFile_flush stamp A \<noteq> None" if "al_pc A = Writing"
    using lf.al_write_shape [OF s(1) that s(2), of stamp] by auto
  ultimately show ?thesis using s(3) by blast
qed

definition demo_env :: log_env where
  "demo_env = \<lparr>env_time = (\<lambda>k. 1 + int k), env_fwrite = (\<lambda>k. 512), env_hostname = ''host'', env_pid = 7\<rparr>"

definition demo_log :: log_file where
  "demo_log = LogFile_new demo_env ''log'' 1000 3 1024"

lemma demo_log: "fwrite_works demo_env" "lf_ok demo_log" "lf_text demo_log = ''''"
  using LogFile_new_ok [of demo_env "''log''" 1000 3 1024] by (simp_all add: demo_env_def fwrite_works_def demo_log_def)

theorem async_logging_keeps_lines_witness:
  "\<exists>A. al_run (append_unlocked demo_env) LogFile_flush (replicate 8 NUL) demo_log [''ab'', ''0123456789''] False A
    \<and> lf_text (al_output A) @ pending_text A = ''ab''"
proof -
  let ?run = "al_run (append_unlocked demo_env) LogFile_flush (replicate 8 NUL) demo_log"
  have n: "length (replicate 8 NUL) < 2 ^ 31" by simp
  obtain A1 where "al_append (replicate 8 NUL) ''ab'' (length ''ab'') (al_start (replicate 8 NUL) demo_log) = Some A1"
    using async_logging_keeps_lines [OF run_start demo_log(1,2) n, of "''ab''"] by blast
  from run_append [OF run_start this] have r1: "?run [''ab''] False A1" by simp
  obtain A2 where "al_append (replicate 8 NUL) ''0123456789'' (length ''0123456789'') A1 = Some A2"
    using async_logging_keeps_lines [OF r1 demo_log(1,2) n, of "''0123456789''"] by blast
  from run_append [OF r1 this] have r2: "?run [''ab'', ''0123456789''] False A2" by simp
  show ?thesis using r2 async_logging_keeps_lines [OF r2 demo_log(1,2) n] by (auto simp: demo_log(3) fitting_def)
qed



text \<open>
  Lines appended before \<open>stop\<close> can be lost: a line that comes while the writing thread writes is still
  in the buffers when \<open>stop\<close> is called, and the thread leaves its loop without looking at them again.
\<close>

theorem stop_loses_lines:
  assumes "fwrite_works E" "lf_ok out" "length junk < 2 ^ 31" "0 < length l" "length l < length junk"
  shows "\<exists>A. al_run (append_unlocked E) LogFile_flush junk out [l] False A \<and> al_pc A = Finished \<and> lf_text (al_output A) = lf_text out \<and> pending_text A = l"
proof -
  let ?run = "al_run (append_unlocked E) LogFile_flush junk out"
  define A0 where "A0 = al_start junk out"
  have sh: "al_shape (length junk) A0" "al_pc A0 = Check" "al_running A0" "al_output A0 = out" "al_buffers A0 = []"
    using shape_start [OF refl assms(3), of out] by (simp_all add: A0_def al_start_def Let_def)
  have r0: "?run [] False A0" unfolding A0_def by (rule run_start)
  define A1 where "A1 = A0\<lparr>al_pc := Locked\<rparr>"
  have r1: "?run [] False A1" unfolding A1_def by (rule run_begin [OF r0 sh(2,3) al_begin_shape(1) [OF sh(1,2)]])
  define A2 where "A2 = A1\<lparr>al_pc := Waiting\<rparr>"
  have r2: "?run [] False A2" unfolding A2_def by (rule run_wait [OF r1]) (simp_all add: A1_def sh)
  have s2: "al_shape (length junk) A2" "al_pc A2 = Waiting" "al_output A2 = out" "al_running A2" "al_buffers A2 = []"
    using lf.shape_run [OF r2 _ refl assms(3)] assms(1,2) sh by (simp_all add: A2_def A1_def)
  obtain A3 where A3: "al_take A2 = Some A3" "al_shape (length junk) A3" "al_pc A3 = Writing" "al_output A3 = al_output A2" "al_running A3 = al_running A2" "length (al_buffersToWrite A3) = 1"
    using al_take_shape [OF s2(1)] s2(2,5) by auto
  have r3: "?run [] False A3" by (rule run_take [OF r2 _ A3(1)]) (simp add: s2(2))
  obtain A4 where A4: "al_append junk l (length l) A3 = Some A4" "al_shape (length junk) A4" "al_pc A4 = Writing" "al_output A4 = out" "length (al_buffersToWrite A4) = 1"
    using al_append_shape [OF A3(2) refl assms(3), of l] A3 s2 by auto
  have r4: "?run [l] False A4" using run_append [OF r3 A4(1)] by simp
  have g4: "fwrite_works E \<and> lf_ok (al_output A4)" using A4(4) assms(1,2) by simp
  obtain A5 where A5: "al_write (append_unlocked E) LogFile_flush '''' A4 = Some A5" "al_shape (length junk) A5" "al_pc A5 = Check" "lf_ok (al_output A5)"
    "lf_text (al_output A5) = lf_text out @ buffers_text (al_buffersToWrite A4)"
    using lf.al_write_shape [OF A4(2,3) g4, of "''''"] A4(4,5) by auto
  have r5: "?run [l] False A5" using run_write [OF r4 A4(3) A5(1)] A4(5) by simp
  have r6: "?run [l] False (al_stop A5)" by (rule run_stop [OF r5])
  have c: "al_pc (al_stop A5) = Check" "\<not> al_running (al_stop A5)" "al_output (al_stop A5) = al_output A5" "pending_text (al_stop A5) = pending_text A5"
    using A5(3) by (simp_all add: al_stop_def pending_text_def)
  have s6: "al_shape (length junk) (al_stop A5)" "fwrite_works E \<and> lf_ok (al_output (al_stop A5))" using lf.shape_run [OF r6 _ refl assms(3)] assms(1,2) by simp_all
  obtain A7 where A7: "al_exit LogFile_flush (al_stop A5) = Some A7" "lf_text (al_output A7) = lf_text (al_output A5)" "pending_text A7 = pending_text A5"
    using lf.al_exit_shape [OF s6 c(1)] c(3,4) by auto
  have r7: "?run [l] False A7" by (rule run_exit [OF r6 c(1,2) A7(1)])
  have "al_pc A7 = Finished" using A7(1) by (auto simp: al_exit_def split: bind_splits)
  moreover have "buffers_text (al_buffersToWrite A4) = ''''"
    using lf.shape_run [OF r3 _ refl assms(3)] assms(1,2) A3(4) s2(3) A4(1) by (auto simp: pending_text_def fitting_def al_append_def Let_def split: bind_splits if_splits)
  moreover have "lf_text (al_output A7) @ pending_text A7 = lf_text out @ l"
    using lf.shape_run [OF r7 _ refl assms(3)] assms(1,2,5) by (simp add: fitting_def)
  ultimately show ?thesis using r7 A7(2) A5(5) by auto
qed

theorem stop_loses_lines_witness:
  "\<exists>A. al_run (append_unlocked demo_env) LogFile_flush (replicate 8 NUL) demo_log [''lost''] False A \<and> al_pc A = Finished
    \<and> lf_text (al_output A) = '''' \<and> pending_text A = ''lost''"
  using stop_loses_lines [OF demo_log(1,2), of "replicate 8 NUL" "''lost''"] by (simp add: demo_log(3))

end
