(* ===== verification/TimeZone.thy ===== *)
theory TimeZone
  imports UtcTime
begin

text \<open>
  The time zones of \<open>TimeZone.cc\<close>: the table of a zone, the reader of compiled zone files with its
  exceptions, the search for the rule in force and the conversions to and from local time.
\<close>

section \<open>The tables\<close>

record Transition =
  tr_gmttime :: int
  tr_localtime :: int
  tr_localtimeIdx :: int

record Localtime =
  lt_gmtOffset :: int
  lt_isDst :: bool
  lt_arrbIdx :: int

record zone_data =
  tz_transitions :: "Transition list"
  tz_localtimes :: "Localtime list"
  tz_abbreviation :: string

definition empty_data :: zone_data where
  "empty_data = \<lparr>tz_transitions = [], tz_localtimes = [], tz_abbreviation = ''''\<rparr>"

text \<open>The class \<open>Comp\<close>; its flag is the first argument.\<close>

definition Comp_less :: "bool \<Rightarrow> Transition \<Rightarrow> Transition \<Rightarrow> bool" where
  "Comp_less compareGmt lhs rhs = (if compareGmt then tr_gmttime lhs < tr_gmttime rhs else tr_localtime lhs < tr_localtime rhs)"

definition Comp_equal :: "bool \<Rightarrow> Transition \<Rightarrow> Transition \<Rightarrow> bool" where
  "Comp_equal compareGmt lhs rhs = (if compareGmt then tr_gmttime lhs = tr_gmttime rhs else tr_localtime lhs = tr_localtime rhs)"

section \<open>Reading a zone file\<close>

text \<open>
  A run of the reader ends with a value, with a \<open>logic_error\<close>, whose changes to the table stay, or is
  undefined. The state is what is left of the file and the table.
\<close>

type_synonym reader = "uint8 list \<times> zone_data"

datatype 'a run = Undefined | Throws string reader | Returns 'a reader

type_synonym 'a prog = "reader \<Rightarrow> 'a run"

definition ret :: "'a \<Rightarrow> 'a prog" where "ret x s = Returns x s"

definition throw :: "string \<Rightarrow> 'a prog" where "throw e s = Throws e s"

definition and_then :: "'a prog \<Rightarrow> ('a \<Rightarrow> 'b prog) \<Rightarrow> 'b prog" where
  "and_then m f s = (case m s of Undefined \<Rightarrow> Undefined | Throws e s \<Rightarrow> Throws e s | Returns x s \<Rightarrow> f x s)"

definition fread :: "nat \<Rightarrow> uint8 list prog" where
  "fread n s = Returns (take n (fst s)) (drop n (fst s), snd s)"

text \<open>An array of negative length is undefined.\<close>

definition readBytes :: "int \<Rightarrow> uint8 list prog" where
  "readBytes n =
     (if n < 0 then (\<lambda>s. Undefined)
      else and_then (fread (nat n)) (\<lambda>buf. if int (length buf) \<noteq> n then throw ''no enough data'' else ret buf))"

definition be32toh :: "uint8 list \<Rightarrow> int" where
  "be32toh bs = sint (word_of_int (foldl (\<lambda>n b. 256 * n + uint b) 0 bs) :: 32 word)"

definition readInt32 :: "int prog" where
  "readInt32 = and_then (fread 4) (\<lambda>buf. if length buf \<noteq> 4 then throw ''bad int32_t data'' else ret (be32toh buf))"

definition readUInt8 :: "int prog" where
  "readUInt8 = and_then (fread 1) (\<lambda>buf. case buf of [b] \<Rightarrow> ret (uint b) | _ \<Rightarrow> throw ''bad uint8_t data'')"

text \<open>A loop that reads into a vector.\<close>

fun read_many :: "nat \<Rightarrow> int prog \<Rightarrow> int list \<Rightarrow> int list prog" where
  "read_many 0 rd1 xs = ret xs"
| "read_many (Suc n) rd1 xs = and_then rd1 (\<lambda>x. read_many n rd1 (xs @ [x]))"

definition push_localtime :: "Localtime \<Rightarrow> unit prog" where
  "push_localtime l s = Returns () (fst s, (snd s)\<lparr>tz_localtimes := tz_localtimes (snd s) @ [l]\<rparr>)"

fun read_localtimes :: "nat \<Rightarrow> unit prog" where
  "read_localtimes 0 = ret ()"
| "read_localtimes (Suc n) =
     and_then readInt32 (\<lambda>gmtoff.
     and_then readUInt8 (\<lambda>isdst.
     and_then readUInt8 (\<lambda>abbrind.
     and_then (push_localtime \<lparr>lt_gmtOffset = gmtoff, lt_isDst = (isdst \<noteq> 0), lt_arrbIdx = abbrind\<rparr>) (\<lambda>_.
     read_localtimes n))))"

text \<open>The index of a rule is not checked against the table.\<close>

fun push_transitions :: "(int \<times> int) list \<Rightarrow> unit prog" where
  "push_transitions [] = ret ()"
| "push_transitions ((t, localIdx) # xs) =
     (\<lambda>s. let ls = tz_localtimes (snd s)
          in if nat localIdx < length ls
             then push_transitions xs (fst s, (snd s)\<lparr>tz_transitions := tz_transitions (snd s)
                    @ [\<lparr>tr_gmttime = t, tr_localtime = t + lt_gmtOffset (ls ! nat localIdx), tr_localtimeIdx = localIdx\<rparr>]\<rparr>)
             else Undefined)"

definition set_abbreviation :: "uint8 list \<Rightarrow> unit prog" where
  "set_abbreviation bs s = Returns () (fst s, (snd s)\<lparr>tz_abbreviation := map (\<lambda>b. char_of (unat b)) bs\<rparr>)"

text \<open>\<open>reserve\<close> with a negative count throws a \<open>length_error\<close>, which is a \<open>logic_error\<close>.\<close>

definition tz_body :: "unit prog" where
  "tz_body =
     and_then (readBytes 4) (\<lambda>head.
     if map (\<lambda>b. char_of (unat b)) head \<noteq> ''TZif'' then throw ''bad head'' else
     and_then (readBytes 1) (\<lambda>version.
     and_then (readBytes 15) (\<lambda>_.
     and_then readInt32 (\<lambda>isgmtcnt.
     and_then readInt32 (\<lambda>isstdcnt.
     and_then readInt32 (\<lambda>leapcnt.
     and_then readInt32 (\<lambda>timecnt.
     and_then readInt32 (\<lambda>typecnt.
     and_then readInt32 (\<lambda>charcnt.
     if timecnt < 0 then throw ''vector::reserve'' else
     and_then (read_many (nat timecnt) readInt32 []) (\<lambda>trs.
     and_then (read_many (nat timecnt) readUInt8 []) (\<lambda>localtimes.
     and_then (read_localtimes (nat typecnt)) (\<lambda>_.
     and_then (push_transitions (zip trs localtimes)) (\<lambda>_.
     and_then (readBytes charcnt) set_abbreviation)))))))))))))"

text \<open>A file that cannot be opened is \<^const>\<open>None\<close>. The messages go to \<open>stderr\<close>.\<close>

definition readTimeZoneFile :: "uint8 list option \<Rightarrow> zone_data \<Rightarrow> (bool \<times> zone_data \<times> string list) option" where
  "readTimeZoneFile zonefile data =
     (case zonefile of
        None \<Rightarrow> Some (True, data, [])
      | Some bytes \<Rightarrow>
          (case tz_body (bytes, data) of
             Undefined \<Rightarrow> None
           | Throws e s \<Rightarrow> Some (True, snd s, [e])
           | Returns _ s \<Rightarrow> Some (True, snd s, [])))"

text \<open>The constructors; \<open>valid()\<close> says whether there is a table.\<close>

definition TimeZone_file :: "uint8 list option \<Rightarrow> zone_data option option" where
  "TimeZone_file zonefile = map_option (\<lambda>r. if fst r then Some (fst (snd r)) else None) (readTimeZoneFile zonefile empty_data)"

definition TimeZone_fixed :: "int \<Rightarrow> string \<Rightarrow> zone_data" where
  "TimeZone_fixed eastOfUtc name =
     empty_data\<lparr>tz_localtimes := [\<lparr>lt_gmtOffset = eastOfUtc, lt_isDst = False, lt_arrbIdx = 0\<rparr>], tz_abbreviation := name\<rparr>"

section \<open>The rule in force\<close>

text \<open>\<open>std::lower_bound\<close>, with \<open>before x\<close> for \<open>comp(x, sentry)\<close>: bisection from \<open>first\<close> over \<open>len\<close> elements.\<close>

function lower_bound_loop :: "('a \<Rightarrow> bool) \<Rightarrow> 'a list \<Rightarrow> nat \<Rightarrow> nat \<Rightarrow> nat" where
  "lower_bound_loop before xs first len =
     (if len = 0 then first
      else let half = len div 2; middle = first + half
           in if before (xs ! middle) then lower_bound_loop before xs (middle + 1) (len - half - 1)
              else lower_bound_loop before xs first half)"
  by pat_completeness auto
termination by (relation "measure (\<lambda>(before, xs, first, len). len)") auto

declare lower_bound_loop.simps [simp del]

definition lower_bound :: "('a \<Rightarrow> bool) \<Rightarrow> 'a list \<Rightarrow> nat" where
  "lower_bound before xs = lower_bound_loop before xs 0 (length xs)"

definition nth_opt :: "'a list \<Rightarrow> int \<Rightarrow> 'a option" where
  "nth_opt xs i = (if 0 \<le> i \<and> i < int (length xs) then Some (xs ! nat i) else None)"

definition findLocaltime :: "zone_data \<Rightarrow> Transition \<Rightarrow> bool \<Rightarrow> Localtime option" where
  "findLocaltime data sentry gmt =
     (let ts = tz_transitions data
      in if ts = [] \<or> Comp_less gmt sentry (hd ts) then nth_opt (tz_localtimes data) 0
         else (let i = lower_bound (\<lambda>x. Comp_less gmt x sentry) ts
               in if i < length ts
                  then if \<not> Comp_equal gmt sentry (ts ! i)
                       then if i \<noteq> 0 then nth_opt (tz_localtimes data) (tr_localtimeIdx (ts ! (i - 1))) else None
                       else nth_opt (tz_localtimes data) (tr_localtimeIdx (ts ! i))
                  else nth_opt (tz_localtimes data) (tr_localtimeIdx (last ts))))"

section \<open>Local time\<close>

definition i64 :: "int \<Rightarrow> int option" where
  "i64 x = (if - (2 ^ 63) \<le> x \<and> x < 2 ^ 63 then Some x else None)"

definition toLocalTime :: "zone_data \<Rightarrow> int \<Rightarrow> tm option" where
  "toLocalTime data seconds =
     do { local \<leftarrow> findLocaltime data \<lparr>tr_gmttime = seconds, tr_localtime = 0, tr_localtimeIdx = 0\<rparr> True;
          localSeconds \<leftarrow> i64 (seconds + lt_gmtOffset local);
          let localTime = c_gmtime localSeconds;
          if 0 \<le> lt_arrbIdx local \<and> lt_arrbIdx local \<le> int (length (tz_abbreviation data))
          then Some (localTime\<lparr>tm_isdst := of_bool (lt_isDst local), tm_gmtoff := lt_gmtOffset local,
                      tm_zone := Some (drop (nat (lt_arrbIdx local)) (tz_abbreviation data))\<rparr>)
          else None }"

definition fromLocalTime :: "zone_data \<Rightarrow> tm \<Rightarrow> int option" where
  "fromLocalTime data localTm =
     do { let seconds = c_timegm localTm;
          local \<leftarrow> findLocaltime data \<lparr>tr_gmttime = 0, tr_localtime = seconds, tr_localtimeIdx = 0\<rparr> False;
          seconds \<leftarrow> (if tm_isdst localTm \<noteq> 0
             then do { t \<leftarrow> i64 (seconds - lt_gmtOffset local);
                       tryTm \<leftarrow> toLocalTime data t;
                       if tm_isdst tryTm = 0 \<and> tm_hour tryTm = tm_hour localTm \<and> tm_min tryTm = tm_min localTm
                       then i64 (seconds - 3600) else Some seconds }
             else Some seconds);
          i64 (seconds - lt_gmtOffset local) }"

section \<open>The search finds the rule in force\<close>

lemma lower_bound_loop_partition:
  "(\<And>i. i < length xs \<Longrightarrow> before (xs ! i) \<longleftrightarrow> i < k) \<Longrightarrow> first \<le> k \<Longrightarrow> k \<le> first + len \<Longrightarrow> first + len \<le> length xs
   \<Longrightarrow> lower_bound_loop before xs first len = k"
proof (induction before xs first len rule: lower_bound_loop.induct)
  case (1 before xs first len)
  show ?case
  proof (cases "len = 0")
    case True
    then show ?thesis using 1(4,5) by (subst lower_bound_loop.simps) simp
  next
    case False
    define mid where "mid = first + len div 2"
    have m: "mid < length xs" "first \<le> mid" "mid < first + len" using False 1(6) by (auto simp: mid_def)
    show ?thesis
    proof (cases "before (xs ! mid)")
      case True
      then have "mid < k" using 1(3) [OF m(1)] by simp
      then show ?thesis using 1(1) [OF False refl refl] True False 1(3-6) m
        by (subst lower_bound_loop.simps) (simp add: Let_def mid_def)
    next
      case f: False
      then have "k \<le> mid" using 1(3) [OF m(1)] by simp
      then show ?thesis using 1(2) [OF False refl refl] f False 1(3-6) m
        by (subst lower_bound_loop.simps) (simp add: Let_def mid_def)
    qed
  qed
qed

lemma lower_bound_takeWhile:
  assumes "sorted_wrt (\<lambda>a b. before b \<longrightarrow> before a) xs"
  shows "lower_bound before xs = length (takeWhile before xs)"
proof -
  have "before (xs ! i) \<longleftrightarrow> i < length (takeWhile before xs)" if i: "i < length xs" for i
  proof
    assume b: "before (xs ! i)"
    show "i < length (takeWhile before xs)"
    proof (rule ccontr)
      assume n: "\<not> i < length (takeWhile before xs)"
      define l where "l = length (takeWhile before xs)"
      have l: "l \<le> i" "\<not> before (xs ! l)" using n i nth_length_takeWhile [of before xs] by (simp_all add: l_def)
      then have "l < i" using b by (cases "l = i") auto
      then show False using assms i l b by (auto simp: sorted_wrt_iff_nth_less)
    qed
  next
    assume "i < length (takeWhile before xs)"
    then show "before (xs ! i)" using nth_mem [of i "takeWhile before xs"] set_takeWhileD [of _ before xs] takeWhile_nth [of i before xs] by metis
  qed
  then show ?thesis unfolding lower_bound_def by (intro lower_bound_loop_partition) (simp_all add: length_takeWhile_le)
qed

definition tr_key :: "bool \<Rightarrow> Transition \<Rightarrow> int" where
  "tr_key gmt t = (if gmt then tr_gmttime t else tr_localtime t)"

text \<open>A table whose transitions are in order and point to rules that exist.\<close>

definition zone_ok :: "bool \<Rightarrow> zone_data \<Rightarrow> bool" where
  "zone_ok gmt data \<longleftrightarrow> tz_localtimes data \<noteq> [] \<and> sorted_wrt (\<lambda>a b. tr_key gmt a < tr_key gmt b) (tz_transitions data)
     \<and> (\<forall>t \<in> set (tz_transitions data). 0 \<le> tr_localtimeIdx t \<and> tr_localtimeIdx t < int (length (tz_localtimes data)))"

text \<open>The rule of the last transition that is not later, and the first rule before all transitions.\<close>

definition rule_at :: "bool \<Rightarrow> zone_data \<Rightarrow> int \<Rightarrow> Localtime" where
  "rule_at gmt data x =
     (case filter (\<lambda>t. tr_key gmt t \<le> x) (tz_transitions data) of
        [] \<Rightarrow> hd (tz_localtimes data)
      | ts \<Rightarrow> tz_localtimes data ! nat (tr_localtimeIdx (last ts)))"

lemma Comp_key: "Comp_less gmt a b \<longleftrightarrow> tr_key gmt a < tr_key gmt b" "Comp_equal gmt a b \<longleftrightarrow> tr_key gmt a = tr_key gmt b"
  by (simp_all add: Comp_less_def Comp_equal_def tr_key_def)

lemma filter_not_later:
  assumes "sorted_wrt (\<lambda>a b. f a < f b) (as @ bs)" "\<forall>a \<in> set as. f a < (x :: int)" "bs = [] \<or> x \<le> f (hd bs)"
  shows "filter (\<lambda>t. f t \<le> x) (as @ bs) = as @ (if bs \<noteq> [] \<and> f (hd bs) = x then [hd bs] else [])"
proof -
  have "filter (\<lambda>t. f t \<le> x) as = as" using assms(2) by (auto simp: filter_id_conv intro: less_imp_le)
  moreover have "filter (\<lambda>t. f t \<le> x) bs = (if bs \<noteq> [] \<and> f (hd bs) = x then [hd bs] else [])"
  proof (cases bs)
    case (Cons b cs)
    then have "\<forall>c \<in> set cs. x < f c" using assms(1,3) by (fastforce simp: sorted_wrt_append)
    then have "filter (\<lambda>t. f t \<le> x) cs = []" by (auto simp: filter_empty_conv)
    then show ?thesis using Cons assms(3) by auto
  qed simp
  ultimately show ?thesis by simp
qed

lemma nth_opt_in: "0 \<le> i \<Longrightarrow> i < int (length xs) \<Longrightarrow> nth_opt xs i = Some (xs ! nat i)"
  by (simp add: nth_opt_def)

lemma findLocaltime_rule:
  assumes "zone_ok gmt data"
  shows "findLocaltime data sentry gmt = Some (rule_at gmt data (tr_key gmt sentry))"
proof -
  define ts x where "ts = tz_transitions data" and "x = tr_key gmt sentry"
  define as bs where "as = takeWhile (\<lambda>t. tr_key gmt t < x) ts" and "bs = dropWhile (\<lambda>t. tr_key gmt t < x) ts"
  have ts: "ts = as @ bs" by (simp add: as_def bs_def)
  have z: "tz_localtimes data \<noteq> []" "sorted_wrt (\<lambda>a b. tr_key gmt a < tr_key gmt b) (as @ bs)"
    "\<forall>t \<in> set as \<union> set bs. 0 \<le> tr_localtimeIdx t \<and> tr_localtimeIdx t < int (length (tz_localtimes data))"
    using assms ts by (auto simp: zone_ok_def ts_def)
  have as: "\<forall>a \<in> set as. tr_key gmt a < x" by (auto simp: as_def dest: set_takeWhileD)
  have bs: "bs = [] \<or> x \<le> tr_key gmt (hd bs)" using hd_dropWhile [of "\<lambda>t. tr_key gmt t < x" ts] by (cases "bs = []") (simp_all add: bs_def not_less del: dropWhile_eq_Nil_conv)
  have lb: "lower_bound (\<lambda>t. Comp_less gmt t sentry) ts = length as"
    unfolding as_def Comp_key x_def [symmetric] using z(2) ts by (intro lower_bound_takeWhile) (auto elim!: sorted_wrt_mono_rel [rotated])
  have r: "rule_at gmt data x = (case as @ (if bs \<noteq> [] \<and> tr_key gmt (hd bs) = x then [hd bs] else []) of [] \<Rightarrow> hd (tz_localtimes data)
      | us \<Rightarrow> tz_localtimes data ! nat (tr_localtimeIdx (last us)))"
    unfolding rule_at_def ts_def [symmetric] ts filter_not_later [OF z(2) as bs] ..
  have first: "ts = [] \<or> Comp_less gmt sentry (hd ts) \<longleftrightarrow> as = [] \<and> (bs = [] \<or> tr_key gmt (hd bs) \<noteq> x)"
  proof (cases as)
    case Nil
    then show ?thesis using bs ts by (auto simp: Comp_key x_def)
  next
    case (Cons a as')
    then show ?thesis using as ts by (auto simp: Comp_key x_def)
  qed
  show ?thesis
  proof (cases "as = [] \<and> (bs = [] \<or> tr_key gmt (hd bs) \<noteq> x)")
    case True
    then show ?thesis using first z(1) r unfolding findLocaltime_def Let_def ts_def [symmetric] x_def [symmetric]
      by (auto simp: nth_opt_def hd_conv_nth)
  next
    case False
    then have f: "findLocaltime data sentry gmt = (if length as < length ts
        then if tr_key gmt sentry \<noteq> tr_key gmt (ts ! length as)
             then if length as \<noteq> 0 then nth_opt (tz_localtimes data) (tr_localtimeIdx (ts ! (length as - 1))) else None
             else nth_opt (tz_localtimes data) (tr_localtimeIdx (ts ! length as))
        else nth_opt (tz_localtimes data) (tr_localtimeIdx (last ts)))"
      using first unfolding findLocaltime_def Let_def ts_def [symmetric] lb Comp_key(2) by simp
    show ?thesis
    proof (cases bs)
      case Nil
      then have "as \<noteq> []" using False by simp
      then show ?thesis using f r z(3) Nil unfolding x_def [symmetric] by (cases as) (auto simp: ts nth_opt_in)
    next
      case (Cons b cs)
      then show ?thesis
      proof (cases "tr_key gmt b = x")
        case True
        then show ?thesis using f r z(3) Cons unfolding x_def [symmetric] by (cases as) (auto simp: ts nth_opt_in nth_append)
      next
        case n: False
        then have "as \<noteq> []" using False Cons by simp
        then have "ts ! (length as - 1) = last as" by (simp add: ts nth_append last_conv_nth)
        then show ?thesis using f r z(3) Cons n \<open>as \<noteq> []\<close> unfolding x_def [symmetric] by (cases as) (auto simp: ts nth_opt_in)
      qed
    qed
  qed
qed

text \<open>
  C34. The rule in force: in a table whose transitions are in order and point to rules that exist,
  \<open>findLocaltime\<close> returns the rule of the last transition that is not later than the time, and the first
  rule when there is none, for UTC and for local time; the bisection stays inside the table.
\<close>

theorem findLocaltime_in_force:
  assumes "zone_ok gmt data"
  shows "findLocaltime data sentry gmt = Some (rule_at gmt data (tr_key gmt sentry))"
  by (rule findLocaltime_rule [OF assms])

definition demo_zone :: zone_data where
  "demo_zone = \<lparr>tz_transitions = [\<lparr>tr_gmttime = 100, tr_localtime = 160, tr_localtimeIdx = 1\<rparr>, \<lparr>tr_gmttime = 200, tr_localtime = 230, tr_localtimeIdx = 0\<rparr>],
     tz_localtimes = [\<lparr>lt_gmtOffset = 30, lt_isDst = False, lt_arrbIdx = 0\<rparr>, \<lparr>lt_gmtOffset = 60, lt_isDst = True, lt_arrbIdx = 4\<rparr>],
     tz_abbreviation = ''STD'' @ [char_of (0::nat)] @ ''DST''\<rparr>"

theorem findLocaltime_in_force_witness:
  "map_option lt_gmtOffset (findLocaltime demo_zone \<lparr>tr_gmttime = 150, tr_localtime = 0, tr_localtimeIdx = 0\<rparr> True) = Some 60"
  by (subst findLocaltime_in_force) (simp_all add: demo_zone_def zone_ok_def rule_at_def tr_key_def)

section \<open>Zone files\<close>

text \<open>A number of 32 bits in the byte order of the file.\<close>

definition enc32 :: "int \<Rightarrow> uint8 list" where
  "enc32 x = [word_of_int (x div 2 ^ 24), word_of_int (x div 2 ^ 16), word_of_int (x div 2 ^ 8), word_of_int x]"

lemma be32toh_enc32:
  assumes "- (2 ^ 31) \<le> x" "x < 2 ^ 31"
  shows "be32toh (enc32 x) = x"
proof -
  have b: "uint (word_of_int y :: 8 word) = y mod 256" for y by (simp add: unsigned_of_int take_bit_eq_mod)
  have step: "a mod (256 * m) = 256 * (a div 256 mod m) + a mod 256" if "0 < m" for a m :: int
    using zmod_zmult2_eq [of m a 256] that by simp
  define y1 y2 y3 where "y1 = x div 2 ^ 8" and "y2 = x div 2 ^ 16" and "y3 = x div 2 ^ 24"
  have d: "x div 256 = y1" "y1 div 256 = y2" "y2 div 256 = y3"
    using zdiv_zmult2_eq [of 256 x "2 ^ 8"] zdiv_zmult2_eq [of 256 x "2 ^ 16"] by (simp_all add: y1_def y2_def y3_def)
  have "256 * (256 * (256 * (y3 mod 256) + y2 mod 256) + y1 mod 256) + x mod 256 = x mod (256 * (256 * (256 * 256)))"
    by (simp only: step d zero_less_mult_iff zero_less_numeral simp_thms)
  moreover have "256 * (256 * (256 * 256)) = (2 ^ 32 :: int)" by simp
  ultimately have "256 * (256 * (256 * (x div 2 ^ 24 mod 256) + x div 2 ^ 16 mod 256) + x div 2 ^ 8 mod 256) + x mod 256 = x mod 2 ^ 32"
    unfolding y1_def y2_def y3_def by (simp only:)
  then have "foldl (\<lambda>n b. 256 * n + uint b) 0 (enc32 x) = x mod 2 ^ 32" by (simp only: enc32_def b foldl.simps mult_zero_right add_0_left)
  moreover have "(word_of_int (x mod 2 ^ 32) :: 32 word) = word_of_int x" by (simp add: word_of_int_eq_iff take_bit_eq_mod)
  ultimately show ?thesis unfolding be32toh_def using sint_small32 [OF assms] by simp
qed

lemma enc32_length [simp]: "length (enc32 x) = 4"
  by (simp add: enc32_def)

text \<open>What the reader does at the head of the file.\<close>

lemma and_then_Returns: "m s = Returns x s' \<Longrightarrow> and_then m f s = f x s'"
  by (simp add: and_then_def)

lemma readBytes_run: "int (length u) = n \<Longrightarrow> readBytes n (u @ bs, d) = Returns u (bs, d)"
  by (auto simp: readBytes_def and_then_def fread_def ret_def)

lemma readInt32_run: "- (2 ^ 31) \<le> x \<Longrightarrow> x < 2 ^ 31 \<Longrightarrow> readInt32 (enc32 x @ bs, d) = Returns x (bs, d)"
  by (simp add: readInt32_def and_then_def fread_def ret_def be32toh_enc32)

lemma readUInt8_run: "readUInt8 (b # bs, d) = Returns (uint b) (bs, d)"
  by (simp add: readUInt8_def and_then_def fread_def ret_def)

lemma read_many_run:
  assumes "\<And>x bs d. x \<in> set vs \<Longrightarrow> rd1 (enc x @ bs, d) = Returns (val x) (bs, d)"
  shows "read_many (length vs) rd1 xs (concat (map enc vs) @ bs, d) = Returns (xs @ map val vs) (bs, d)"
  using assms
proof (induction vs arbitrary: xs)
  case Nil
  then show ?case by (simp add: ret_def)
next
  case (Cons v vs)
  have "rd1 (enc v @ (concat (map enc vs) @ bs), d) = Returns (val v) (concat (map enc vs) @ bs, d)" by (rule Cons.prems) simp
  then show ?case using Cons.IH [of "xs @ [val v]"] Cons.prems by (simp add: and_then_Returns)
qed

text \<open>The description of a zone, its file and its table.\<close>

type_synonym zone_source = "(int \<times> uint8) list \<times> (int \<times> uint8 \<times> uint8) list \<times> uint8 list"

definition enc_type :: "int \<times> uint8 \<times> uint8 \<Rightarrow> uint8 list" where
  "enc_type t = enc32 (fst t) @ [fst (snd t), snd (snd t)]"

definition type_rule :: "int \<times> uint8 \<times> uint8 \<Rightarrow> Localtime" where
  "type_rule t = \<lparr>lt_gmtOffset = fst t, lt_isDst = (fst (snd t) \<noteq> 0), lt_arrbIdx = uint (snd (snd t))\<rparr>"

definition tz_magic :: "uint8 list" where "tz_magic = [84, 90, 105, 102]"

lemma tz_magic: "length tz_magic = 4" "map (\<lambda>b. char_of (unat b)) tz_magic = ''TZif''"
  by (simp_all add: tz_magic_def) code_simp

definition zone_image :: "uint8 \<Rightarrow> uint8 list \<Rightarrow> int \<Rightarrow> int \<Rightarrow> int \<Rightarrow> zone_source \<Rightarrow> uint8 list" where
  "zone_image version reserved isgmt isstd leap z =
     (case z of (trs, types, abbr) \<Rightarrow>
        tz_magic @ [version] @ reserved
        @ enc32 isgmt @ enc32 isstd @ enc32 leap @ enc32 (int (length trs)) @ enc32 (int (length types)) @ enc32 (int (length abbr))
        @ concat (map (\<lambda>t. enc32 (fst t)) trs) @ map snd trs @ concat (map enc_type types) @ abbr)"

definition zone_table :: "zone_source \<Rightarrow> zone_data" where
  "zone_table z =
     (case z of (trs, types, abbr) \<Rightarrow>
        \<lparr>tz_transitions = map (\<lambda>(t, i). \<lparr>tr_gmttime = t, tr_localtime = t + fst (types ! unat i), tr_localtimeIdx = uint i\<rparr>) trs,
         tz_localtimes = map type_rule types, tz_abbreviation = map (\<lambda>b. char_of (unat b)) abbr\<rparr>)"

definition int32 :: "int \<Rightarrow> bool" where "int32 x \<longleftrightarrow> - (2 ^ 31) \<le> x \<and> x < 2 ^ 31"

definition zone_source_ok :: "zone_source \<Rightarrow> bool" where
  "zone_source_ok z \<longleftrightarrow> (case z of (trs, types, abbr) \<Rightarrow>
     (\<forall>t \<in> set trs. int32 (fst t) \<and> unat (snd t) < length types) \<and> (\<forall>t \<in> set types. int32 (fst t))
     \<and> length trs < 2 ^ 31 \<and> length types < 2 ^ 31 \<and> length abbr < 2 ^ 31)"

lemma read_localtimes_run:
  assumes "\<forall>t \<in> set types. int32 (fst t)"
  shows "read_localtimes (length types) (concat (map enc_type types) @ bs, d)
    = Returns () (bs, d\<lparr>tz_localtimes := tz_localtimes d @ map type_rule types\<rparr>)"
  using assms
proof (induction types arbitrary: d)
  case Nil
  then show ?case by (simp add: ret_def)
next
  case (Cons t types)
  have "readInt32 (enc32 (fst t) @ r, e) = Returns (fst t) (r, e)" for r e using Cons.prems by (intro readInt32_run) (simp_all add: int32_def)
  then show ?case using Cons by (simp add: enc_type_def and_then_def readUInt8_run push_localtime_def type_rule_def uint_0_iff)
qed

lemma push_transitions_run:
  assumes "\<forall>t \<in> set trs. unat (snd t) < length (tz_localtimes d)"
  shows "push_transitions (map (\<lambda>t. (fst t, uint (snd t))) trs) (bs, d) = Returns () (bs, d\<lparr>tz_transitions := tz_transitions d
    @ map (\<lambda>(t, i). \<lparr>tr_gmttime = t, tr_localtime = t + lt_gmtOffset (tz_localtimes d ! unat i), tr_localtimeIdx = uint i\<rparr>) trs\<rparr>)"
  using assms
proof (induction trs arbitrary: d)
  case Nil
  then show ?case by (simp add: ret_def)
next
  case (Cons t trs)
  then show ?case by (simp add: Let_def split: prod.split)
qed

lemma tz_body_run:
  assumes z: "zone_source_ok z" and h: "length reserved = 15" "int32 isgmt" "int32 isstd" "int32 leap"
  shows "tz_body (zone_image version reserved isgmt isstd leap z @ rest, empty_data) = Returns () (rest, zone_table z)"
proof -
  obtain trs types abbr where z': "z = (trs, types, abbr)" by (cases z) auto
  have ok: "\<forall>t \<in> set trs. int32 (fst t) \<and> unat (snd t) < length types" "\<forall>t \<in> set types. int32 (fst t)"
    "length trs < 2 ^ 31" "length types < 2 ^ 31" "length abbr < 2 ^ 31" using z by (simp_all add: zone_source_ok_def z')
  define b4 where "b4 = abbr @ rest"
  define b3 where "b3 = concat (map enc_type types) @ b4"
  define b2 where "b2 = map snd trs @ b3"
  define b1 where "b1 = concat (map (\<lambda>t. enc32 (fst t)) trs) @ b2"
  have len: "int32 (int (length trs))" "int32 (int (length types))" "int32 (int (length abbr))"
    using ok(3-5) by (simp_all add: int32_def)
  have trs: "read_many (length trs) readInt32 [] (b1, d) = Returns (map fst trs) (b2, d)" for d
    using read_many_run [of trs readInt32 "\<lambda>t. enc32 (fst t)" fst "[]" b2 d] ok(1) by (simp add: b1_def readInt32_run int32_def)
  have idx: "read_many (length trs) readUInt8 [] (b2, d) = Returns (map (\<lambda>t. uint (snd t)) trs) (b3, d)" for d
    using read_many_run [of trs readUInt8 "\<lambda>t. [snd t]" "\<lambda>t. uint (snd t)" "[]" b3 d] by (simp add: b2_def readUInt8_run concat_map_singleton)
  have types: "read_localtimes (length types) (b3, d) = Returns () (b4, d\<lparr>tz_localtimes := tz_localtimes d @ map type_rule types\<rparr>)" for d
    unfolding b3_def by (rule read_localtimes_run [OF ok(2)])
  have zip: "zip (map fst trs) (map (\<lambda>t. uint (snd t)) trs) = map (\<lambda>t. (fst t, uint (snd t))) trs" by (simp add: zip_map_map zip_same_conv_map)
  have push: "push_transitions (map (\<lambda>t. (fst t, uint (snd t))) trs) (b4, empty_data\<lparr>tz_localtimes := map type_rule types\<rparr>)
      = Returns () (b4, (zone_table z)\<lparr>tz_abbreviation := ''''\<rparr>)"
    using push_transitions_run [of trs "empty_data\<lparr>tz_localtimes := map type_rule types\<rparr>" b4] ok(1)
    by (auto simp: z' zone_table_def empty_data_def type_rule_def split_def)
  have e: "tz_localtimes empty_data = []" by (simp add: empty_data_def)
  have head: "readBytes 4 (tz_magic @ version # reserved @ bs, d) = Returns tz_magic (version # reserved @ bs, d)" for bs d using tz_magic by (intro readBytes_run) simp
  have ver: "readBytes 1 (version # reserved @ bs, d) = Returns [version] (reserved @ bs, d)" for bs d using readBytes_run [of "[version]" 1] by simp
  have res: "readBytes 15 (reserved @ bs, d) = Returns reserved (bs, d)" for bs d using h(1) by (intro readBytes_run) simp
  have int: "readInt32 (enc32 x @ bs, d) = Returns x (bs, d)" if "int32 x" for x bs d using that by (simp add: readInt32_run int32_def)
  have abbr: "readBytes (int (length abbr)) (b4, d) = Returns abbr (rest, d)" for d unfolding b4_def by (rule readBytes_run) simp
  have img: "zone_image version reserved isgmt isstd leap z @ rest = tz_magic @ version # reserved @ enc32 isgmt @ enc32 isstd @ enc32 leap
      @ enc32 (int (length trs)) @ enc32 (int (length types)) @ enc32 (int (length abbr)) @ b1"
    by (simp add: zone_image_def z' b1_def b2_def b3_def b4_def)
  show ?thesis
    unfolding tz_body_def img
    by (simp add: and_then_def e head tz_magic(2) ver res int h len trs idx types zip push abbr set_abbreviation_def)
      (simp add: z' zone_table_def)
qed

text \<open>
  C37. Zone files are read back: the file of a zone, with any version, reserved bytes and unused counts and
  with anything after it (the second part of newer files), is read into the table of that zone, and the
  constructor returns a valid zone.
\<close>

theorem tz_file_roundtrip:
  assumes "zone_source_ok z" "length reserved = 15" "int32 isgmt" "int32 isstd" "int32 leap"
  shows "TimeZone_file (Some (zone_image version reserved isgmt isstd leap z @ rest)) = Some (Some (zone_table z))"
  using tz_body_run [OF assms] by (simp add: TimeZone_file_def readTimeZoneFile_def)

theorem tz_file_roundtrip_witness:
  "TimeZone_file (Some (zone_image 0 (replicate 15 0) 1 1 0 ([(100, 1), (200, 0)], [(3600, 0, 0), (7200, 1, 2)], [65, 0, 66, 0]) @ [1, 2]))
   = Some (Some (zone_table ([(100, 1), (200, 0)], [(3600, 0, 0), (7200, 1, 2)], [65, 0, 66, 0])))"
  by (rule tz_file_roundtrip) (simp_all add: zone_source_ok_def int32_def)

text \<open>A step that takes \<open>n\<close> bytes, does not look at the table, and throws when they are not there.\<close>

definition takes :: "nat \<Rightarrow> 'a prog \<Rightarrow> bool" where
  "takes n m \<longleftrightarrow> (\<forall>bs d. if n \<le> length bs then \<exists>x. m (bs, d) = Returns x (drop n bs, d) else \<exists>e bs'. m (bs, d) = Throws e (bs', d))"

lemma takes_readBytes: "takes n (readBytes (int n))"
  by (simp add: takes_def readBytes_def and_then_def fread_def ret_def throw_def)

lemma takes_readInt32: "takes 4 readInt32"
  by (simp add: takes_def readInt32_def and_then_def fread_def ret_def throw_def)

lemma takes_then:
  assumes m: "takes n m" and short: "length bs < k" and f: "\<And>x bs. length bs < k - n \<Longrightarrow> \<exists>e bs'. f x (bs, d) = Throws e (bs', d)"
  shows "\<exists>e bs'. and_then m f (bs, d) = Throws e (bs', d)"
proof (cases "n \<le> length bs")
  case True
  then obtain x where "m (bs, d) = Returns x (drop n bs, d)" using m unfolding takes_def by metis
  then show ?thesis using f [of "drop n bs" x] short True by (simp add: and_then_def)
next
  case False
  then obtain e bs' where "m (bs, d) = Throws e (bs', d)" using m unfolding takes_def by metis
  then show ?thesis by (simp add: and_then_def)
qed

lemma if_throw: "(\<not> c \<Longrightarrow> \<exists>e bs'. m s = Throws e (bs', snd s)) \<Longrightarrow> \<exists>e bs'. (if c then throw msg else m) s = Throws e (bs', snd s)"
  by (cases s) (simp add: throw_def)

lemma tz_body_short:
  assumes "length bs < 44"
  shows "\<exists>e bs'. tz_body (bs, d) = Throws e (bs', d)"
proof -
  have t: "takes 4 (readBytes 4)" "takes 1 (readBytes 1)" "takes 15 (readBytes 15)"
    using takes_readBytes [of 4] takes_readBytes [of 1] takes_readBytes [of 15] by simp_all
  show ?thesis
    unfolding tz_body_def
    apply (rule takes_then [OF t(1) assms])
    apply (rule if_throw [where s = "(b, d)" for b, unfolded snd_conv])
    apply (rule takes_then [OF t(2)], assumption)
    apply (rule takes_then [OF t(3)], assumption)
    apply (rule takes_then [OF takes_readInt32], assumption)+
    apply simp
    done
qed

text \<open>
  C40. A zone that cannot be read is taken for a valid one: when the file does not exist, is shorter than its
  header or does not start with TZif, the exception ends inside \<open>readTimeZoneFile\<close>, which returns true in any
  case; the zone is valid but has no rules, and the first conversion reads the front of an empty vector.
\<close>

theorem broken_zone_file_undefined:
  assumes "\<forall>bytes. zonefile = Some bytes \<longrightarrow> length bytes < 44 \<or> map (\<lambda>b. char_of (unat b)) (take 4 bytes) \<noteq> ''TZif''"
  shows "TimeZone_file zonefile = Some (Some empty_data) \<and> toLocalTime empty_data t = None \<and> fromLocalTime empty_data u = None"
proof -
  have "TimeZone_file zonefile = Some (Some empty_data)"
  proof (cases zonefile)
    case None
    then show ?thesis by (simp add: TimeZone_file_def readTimeZoneFile_def)
  next
    case (Some bytes)
    have "\<exists>e bs'. tz_body (bytes, empty_data) = Throws e (bs', empty_data)"
    proof (cases "length bytes < 44")
      case True
      then show ?thesis by (rule tz_body_short)
    next
      case False
      have m: "map (\<lambda>b. char_of (unat b)) (take 4 bytes) \<noteq> ''TZif''"
        using assms [rule_format, OF Some] False by (simp only: simp_thms)
      have "readBytes 4 (take 4 bytes @ drop 4 bytes, empty_data) = Returns (take 4 bytes) (drop 4 bytes, empty_data)"
        using False by (intro readBytes_run) simp
      then have "readBytes 4 (bytes, empty_data) = Returns (take 4 bytes) (drop 4 bytes, empty_data)" by simp
      then have "tz_body (bytes, empty_data) = Throws ''bad head'' (drop 4 bytes, empty_data)"
        unfolding tz_body_def and_then_def throw_def by (simp only: run.case m simp_thms if_True)
      then show ?thesis by blast
    qed
    then obtain e bs' where "tz_body (bytes, empty_data) = Throws e (bs', empty_data)" by (elim exE)
    then show ?thesis unfolding Some TimeZone_file_def readTimeZoneFile_def by simp
  qed
  moreover have "findLocaltime empty_data s g = None" for s g by (simp add: findLocaltime_def empty_data_def nth_opt_def)
  ultimately show ?thesis by (simp add: toLocalTime_def fromLocalTime_def)
qed

theorem broken_zone_file_undefined_witness:
  "TimeZone_file (Some [84, 90, 105, 102, 50]) = Some (Some empty_data) \<and> toLocalTime empty_data 0 = None"
proof -
  have "\<forall>bytes. Some [84, 90, 105, 102, 50] = Some bytes \<longrightarrow> length bytes < 44 \<or> map (\<lambda>b. char_of (unat b)) (take 4 bytes) \<noteq> ''TZif''" by auto
  from broken_zone_file_undefined [OF this] show ?thesis by blast
qed

section \<open>Local time of a fixed zone\<close>

text \<open>
  In a zone with a fixed offset a time is converted to local time and back without loss; the local time
  carries the offset and the name of the zone.
\<close>

theorem fixed_zone_roundtrip:
  assumes "utc_range (t + east)" "- (2 ^ 62) \<le> t" "t < 2 ^ 62" "- (2 ^ 31) \<le> east" "east < 2 ^ 31"
  shows "\<exists>u. toLocalTime (TimeZone_fixed east name) t = Some u \<and> fromLocalTime (TimeZone_fixed east name) u = Some t
    \<and> tm_gmtoff u = east \<and> tm_zone u = Some name \<and> tm_isdst u = 0"
proof -
  let ?z = "TimeZone_fixed east name"
  let ?l = "\<lparr>lt_gmtOffset = east, lt_isDst = False, lt_arrbIdx = 0\<rparr>"
  have f: "findLocaltime ?z s g = Some ?l" for s g
    by (simp add: findLocaltime_def TimeZone_fixed_def empty_data_def nth_opt_def)
  define u where "u = (c_gmtime (t + east))\<lparr>tm_isdst := 0, tm_gmtoff := east, tm_zone := Some name\<rparr>"
  have i: "i64 (t + east) = Some (t + east)" "i64 t = Some t" using assms(2-5) by (simp_all add: i64_def)
  have "toLocalTime ?z t = Some u" using f i(1) by (simp add: toLocalTime_def u_def TimeZone_fixed_def empty_data_def)
  moreover have "c_timegm u = c_timegm (c_gmtime (t + east))" by (simp add: c_timegm_def u_def)
  then have "c_timegm u = t + east" using gmtime_back(2) [OF assms(1)] by simp
  then have "fromLocalTime ?z u = Some t" using f i(2) by (simp add: fromLocalTime_def u_def)
  ultimately show ?thesis by (auto simp: u_def)
qed

theorem fixed_zone_roundtrip_witness:
  "\<exists>u. toLocalTime (TimeZone_fixed 28800 ''CST'') 0 = Some u \<and> fromLocalTime (TimeZone_fixed 28800 ''CST'') u = Some 0"
proof -
  have a: "utc_range (0 + 28800)" by (simp add: utc_range_def)
  have b: "- (2 ^ 62) \<le> (0::int)" "(0::int) < 2 ^ 62" "- (2 ^ 31) \<le> (28800::int)" "(28800::int) < 2 ^ 31" by simp_all
  obtain u where "toLocalTime (TimeZone_fixed 28800 ''CST'') 0 = Some u" "fromLocalTime (TimeZone_fixed 28800 ''CST'') u = Some 0"
    using fixed_zone_roundtrip [OF a b] by blast
  then show ?thesis by (intro exI conjI)
qed

end
