(* ===== verification/Logging.thy ===== *)
theory Logging
  imports LogStream TimeZone
begin

text \<open>
  \<open>Logging.cc\<close>: one line of the log, put together from the time, the thread, the level, what the program
  writes and the place in the source. A failed assertion is \<^const>\<open>None\<close>. The clock, the number of the
  thread and the text of an error number are inputs.
\<close>

section \<open>Levels, files and threads\<close>

datatype LogLevel = TRACE | DEBUG | INFO | WARN | ERROR | FATAL

fun level_number :: "LogLevel \<Rightarrow> nat" where
  "level_number TRACE = 0"
| "level_number DEBUG = 1"
| "level_number INFO = 2"
| "level_number WARN = 3"
| "level_number ERROR = 4"
| "level_number FATAL = 5"

fun LogLevelName :: "LogLevel \<Rightarrow> string" where
  "LogLevelName TRACE = ''TRACE ''"
| "LogLevelName DEBUG = ''DEBUG ''"
| "LogLevelName INFO = ''INFO  ''"
| "LogLevelName WARN = ''WARN  ''"
| "LogLevelName ERROR = ''ERROR ''"
| "LogLevelName FATAL = ''FATAL ''"

text \<open>The arguments say which variables are in the environment.\<close>

definition initLogLevel :: "bool \<Rightarrow> bool \<Rightarrow> LogLevel" where
  "initLogLevel trace debug = (if trace then TRACE else if debug then DEBUG else INFO)"

text \<open>The macros: whether a line of the level is written at all.\<close>

definition log_enabled :: "LogLevel \<Rightarrow> LogLevel \<Rightarrow> bool" where
  "log_enabled g_logLevel level = (if level \<in> {TRACE, DEBUG, INFO} then level_number g_logLevel \<le> level_number level else True)"

text \<open>The name of a source file after the last slash.\<close>

definition SourceFile :: "string \<Rightarrow> string" where
  "SourceFile filename = rev (takeWhile (\<lambda>c. c \<noteq> CHR ''/'') (rev filename))"

text \<open>A number in a field of \<open>printf\<close>; the fields here only get numbers that are not negative.\<close>

definition padded :: "char \<Rightarrow> nat \<Rightarrow> int \<Rightarrow> string" where
  "padded c w n = replicate (w - length (int_text n)) c @ int_text n"

text \<open>\<open>cacheTid\<close> of \<open>Thread.cc\<close>.\<close>

definition tidString :: "int \<Rightarrow> string" where
  "tidString tid = padded CHR '' '' 5 tid @ '' ''"

text \<open>The class \<open>T\<close>, with the text before the terminator.\<close>

definition known_text :: "string \<Rightarrow> nat \<Rightarrow> operand option" where
  "known_text str len = (if length str = len then Some (OPiece (str @ [NUL]) len) else None)"

section \<open>The time of a line\<close>

definition kMicroSecondsPerSecond :: int where "kMicroSecondsPerSecond = 1000 * 1000"

definition Timestamp_now :: "int \<Rightarrow> int \<Rightarrow> int" where
  "Timestamp_now tv_sec tv_usec = tv_sec * kMicroSecondsPerSecond + tv_usec"

definition time_text :: "tm \<Rightarrow> string" where
  "time_text t = padded CHR '' '' 4 (tm_year t + 1900) @ padded CHR ''0'' 2 (tm_mon t + 1) @ padded CHR ''0'' 2 (tm_mday t) @ '' ''
     @ padded CHR ''0'' 2 (tm_hour t) @ '':'' @ padded CHR ''0'' 2 (tm_min t) @ '':'' @ padded CHR ''0'' 2 (tm_sec t)"

text \<open>The variables of a thread: the text of the last second.\<close>

record log_thread =
  t_time :: string
  t_lastSecond :: int

definition zone_time :: "zone_data option \<Rightarrow> int \<Rightarrow> tm option" where
  "zone_time g_logTimeZone seconds = (case g_logTimeZone of Some z \<Rightarrow> toLocalTime z seconds | None \<Rightarrow> Some (c_gmtime seconds))"

definition formatTime :: "zone_data option \<Rightarrow> log_thread \<Rightarrow> int \<Rightarrow> (log_thread \<times> operand list) option" where
  "formatTime g_logTimeZone th microSecondsSinceEpoch =
     do { let seconds = microSecondsSinceEpoch sdiv kMicroSecondsPerSecond;
          let microseconds = microSecondsSinceEpoch smod kMicroSecondsPerSecond;
          th \<leftarrow> (if seconds \<noteq> t_lastSecond th
             then do { t \<leftarrow> zone_time g_logTimeZone seconds;
                       if length (time_text t) = 17 then Some \<lparr>t_time = time_text t, t_lastSecond = seconds\<rparr> else None }
             else Some th);
          let us = ''.'' @ padded CHR ''0'' 6 microseconds @ (if g_logTimeZone = None then ''Z '' else '' '');
          u \<leftarrow> known_text us (if g_logTimeZone = None then 9 else 8);
          t \<leftarrow> known_text (t_time th) 17;
          Some (th, [t, u]) }"

section \<open>A line\<close>

text \<open>The constructor of \<open>Impl\<close>; the error is its number and its text.\<close>

definition Impl :: "zone_data option \<Rightarrow> log_thread \<Rightarrow> int \<Rightarrow> int \<Rightarrow> LogLevel \<Rightarrow> (32 word \<times> string) \<Rightarrow> (log_thread \<times> operand list) option" where
  "Impl zone th now tid level savedErrno =
     do { (th, time) \<leftarrow> formatTime zone th now;
          t \<leftarrow> known_text (tidString tid) (length (tidString tid));
          l \<leftarrow> known_text (LogLevelName level) 6;
          Some (th, time @ [t, l] @ (if fst savedErrno \<noteq> 0
            then [OCStr (Some (snd savedErrno @ [NUL])), OCStr (Some ('' (errno='' @ [NUL])), OInt (fst savedErrno), OCStr (Some ('') '' @ [NUL]))] else [])) }"

definition finish :: "string \<Rightarrow> 32 word \<Rightarrow> operand list" where
  "finish basename line =
     [OCStr (Some ('' - '' @ [NUL])), OPiece (basename @ [NUL]) (length basename), OChar CHR '':'', OInt line, OChar (char_of (10::nat))]"

text \<open>The name of the function is only written by one of the constructors.\<close>

definition Logger_line :: "string \<Rightarrow> zone_data option \<Rightarrow> log_thread \<Rightarrow> int \<Rightarrow> int \<Rightarrow> LogLevel \<Rightarrow> (32 word \<times> string) \<Rightarrow> string option \<Rightarrow> string \<Rightarrow> 32 word
    \<Rightarrow> operand list \<Rightarrow> (log_thread \<times> string) option" where
  "Logger_line junk zone th now tid level savedErrno func filename line msg =
     do { (th, head) \<leftarrow> Impl zone th now tid level savedErrno;
          let f = (case func of None \<Rightarrow> [] | Some f \<Rightarrow> [OCStr (Some (f @ [NUL])), OChar CHR '' '']);
          b \<leftarrow> stream_outs (head @ f @ msg @ finish (SourceFile filename) line) (fb_new junk);
          Some (th, fb_text b) }"

section \<open>Lines have their format\<close>

text \<open>The text kept by the thread is the one of the last second, in the zone of the log.\<close>

definition cache_ok :: "zone_data option \<Rightarrow> log_thread \<Rightarrow> bool" where
  "cache_ok zone th \<longleftrightarrow> (\<exists>t. zone_time zone (t_lastSecond th) = Some t \<and> t_time th = time_text t \<and> length (time_text t) = 17)"

definition error_text :: "32 word \<times> string \<Rightarrow> string" where
  "error_text e = (if fst e \<noteq> 0 then snd e @ '' (errno='' @ int_text (sint (fst e)) @ '') '' else '''')"

definition line_text :: "zone_data option \<Rightarrow> tm \<Rightarrow> int \<Rightarrow> int \<Rightarrow> LogLevel \<Rightarrow> 32 word \<times> string \<Rightarrow> string option \<Rightarrow> string \<Rightarrow> 32 word \<Rightarrow> string \<Rightarrow> string" where
  "line_text zone t us tid level e func filename line msg =
     time_text t @ ''.'' @ padded CHR ''0'' 6 us @ (if zone = None then ''Z '' else '' '') @ tidString tid @ LogLevelName level @ error_text e
     @ (case func of None \<Rightarrow> '''' | Some f \<Rightarrow> f @ '' '') @ msg @ '' - '' @ SourceFile filename @ '':'' @ int_text (sint line) @ [char_of (10::nat)]"

lemma padded_length: "length (int_text n) \<le> w \<Longrightarrow> length (padded c w n) = w"
  by (simp add: padded_def)

lemma small_int_text: "0 \<le> n \<Longrightarrow> n < 10 ^ Suc k \<Longrightarrow> length (int_text n) \<le> Suc k"
proof -
  assume n: "0 \<le> n" "n < 10 ^ Suc k"
  then have "nat n < nat (10 ^ Suc k)" by (subst nat_less_eq_zless) simp_all
  then have "nat n < 10 ^ Suc k" by (simp add: nat_power_eq nat_mult_distrib)
  then show ?thesis using n(1) num_text_length [of 10 "nat n" k] by (simp add: int_text_def)
qed

lemma micros: "0 \<le> us \<Longrightarrow> us < 1000000 \<Longrightarrow> length (padded CHR ''0'' 6 us) = 6"
  using small_int_text [of us 5] by (simp add: padded_length)

lemma time_split: "0 \<le> s \<Longrightarrow> 0 \<le> us \<Longrightarrow> us < 1000000 \<Longrightarrow>
   (s * 1000000 + us) sdiv 1000000 = s \<and> (s * 1000000 + us) smod 1000000 = us" for s us :: int
proof -
  assume a: "0 \<le> s" "0 \<le> us" "us < 1000000"
  have n: "s * 1000000 + us = 1000000 * s + us" by simp
  have d: "(s * 1000000 + us) sdiv 1000000 = s" using sdiv_nonneg [of "s * 1000000 + us" 1000000] div_is [OF n] a by simp
  then show ?thesis using sdiv_mult_smod_eq [of "s * 1000000 + us" 1000000] by simp
qed

lemma formatTime_text:
  assumes cache: "t_lastSecond th = s \<Longrightarrow> cache_ok zone th" and s: "0 \<le> s" "0 \<le> us" "us < 1000000" and t: "zone_time zone s = Some t" "length (time_text t) = 17"
  shows "\<exists>th' ops. formatTime zone th (Timestamp_now s us) = Some (th', ops) \<and> cache_ok zone th' \<and> (\<forall>x \<in> set ops. operand_ok x)
    \<and> concat (map operand_text ops) = time_text t @ ''.'' @ padded CHR ''0'' 6 us @ (if zone = None then ''Z '' else '' '')"
proof -
  define us_text where "us_text = ''.'' @ padded CHR ''0'' 6 us @ (if zone = None then ''Z '' else '' '')"
  have u: "length us_text = (if zone = None then 9 else 8)" using micros [OF s(2,3)] by (simp add: us_text_def)
  define th' where "th' = (if s \<noteq> t_lastSecond th then \<lparr>t_time = time_text t, t_lastSecond = s\<rparr> else th)"
  have th': "t_time th' = time_text t" "cache_ok zone th'" using cache t by (auto simp: th'_def cache_ok_def split: if_splits)
  have upd: "(if s \<noteq> t_lastSecond th then do { t \<leftarrow> zone_time zone s; if length (time_text t) = 17 then Some \<lparr>t_time = time_text t, t_lastSecond = s\<rparr> else None } else Some th) = Some th'"
    using t by (simp add: th'_def)
  have k: "kMicroSecondsPerSecond = 1000000" by (simp add: kMicroSecondsPerSecond_def)
  note sp = time_split [OF s]
  have ops: "known_text us_text (if zone = None then 9 else 8) = Some (OPiece (us_text @ [NUL]) (length us_text))"
    "known_text (t_time th') 17 = Some (OPiece (time_text t @ [NUL]) 17)"
    by (simp_all only: known_text_def u th'(1) t(2) if_True refl)
  have "formatTime zone th (Timestamp_now s us) = Some (th', [OPiece (time_text t @ [NUL]) 17, OPiece (us_text @ [NUL]) (length us_text)])"
    unfolding formatTime_def Timestamp_now_def k Let_def conjunct1 [OF sp] conjunct2 [OF sp] upd us_text_def [symmetric]
    by (simp only: Option.bind.bind_lunit ops)
  then show ?thesis using th' t(2) us_text_def by auto
qed

lemma cstr_text: "NUL \<notin> set s \<Longrightarrow> takeWhile (\<lambda>c. c \<noteq> NUL) (s @ [NUL]) = s"
  by (induction s) auto

lemma Impl_text:
  assumes f: "formatTime zone th now = Some (th', time)" "\<forall>x \<in> set time. operand_ok x"
  shows "\<exists>ops. Impl zone th now tid level e = Some (th', ops) \<and> (\<forall>x \<in> set ops. operand_ok x)
    \<and> (NUL \<notin> set (snd e) \<longrightarrow> concat (map operand_text ops) = concat (map operand_text time) @ tidString tid @ LogLevelName level @ error_text e)"
proof -
  have l: "length (LogLevelName level) = 6" by (cases level) simp_all
  show ?thesis using f l by (auto simp: Impl_def known_text_def error_text_def cstr_text)
qed

lemma finish_text: "(\<forall>x \<in> set (finish basename line). operand_ok x) \<and>
    concat (map operand_text (finish basename line)) = '' - '' @ basename @ '':'' @ int_text (sint line) @ [char_of (10::nat)]"
  by (simp add: finish_def)

lemma Logger_line_text:
  assumes cache: "t_lastSecond th = s \<Longrightarrow> cache_ok zone th" and s: "0 \<le> s" "0 \<le> us" "us < 1000000" and t: "zone_time zone s = Some t" "length (time_text t) = 17"
    and nn: "NUL \<notin> set (snd e)" "\<forall>f. func = Some f \<longrightarrow> NUL \<notin> set f" "\<forall>x \<in> set msg. operand_ok x"
    and room: "length (line_text zone t us tid level e func filename line (concat (map operand_text msg))) + kMaxNumericSize \<le> length junk"
      "length junk < 2 ^ 31"
  shows "\<exists>th'. Logger_line junk zone th (Timestamp_now s us) tid level e func filename line msg
      = Some (th', line_text zone t us tid level e func filename line (concat (map operand_text msg))) \<and> cache_ok zone th'"
proof -
  obtain th' time where f: "formatTime zone th (Timestamp_now s us) = Some (th', time)" "cache_ok zone th'" "\<forall>x \<in> set time. operand_ok x"
    "concat (map operand_text time) = time_text t @ ''.'' @ padded CHR ''0'' 6 us @ (if zone = None then ''Z '' else '' '')"
    using formatTime_text [OF cache s t] by auto
  obtain head where h: "Impl zone th (Timestamp_now s us) tid level e = Some (th', head)" "\<forall>x \<in> set head. operand_ok x"
    "concat (map operand_text head) = concat (map operand_text time) @ tidString tid @ LogLevelName level @ error_text e"
    using Impl_text [OF f(1,3), of tid level e] nn(1) by auto
  define fs where "fs = (case func of None \<Rightarrow> [] | Some f \<Rightarrow> [OCStr (Some (f @ [NUL])), OChar CHR '' ''])"
  have fs: "\<forall>x \<in> set fs. operand_ok x" "concat (map operand_text fs) = (case func of None \<Rightarrow> '''' | Some f \<Rightarrow> f @ '' '')"
    using nn(2) by (auto simp: fs_def cstr_text split: option.split)
  define ops where "ops = head @ fs @ msg @ finish (SourceFile filename) line"
  have all: "\<forall>x \<in> set ops. operand_ok x" using h(2) fs(1) nn(3) finish_text by (auto simp: ops_def)
  have text_ops: "concat (map operand_text ops) = line_text zone t us tid level e func filename line (concat (map operand_text msg))"
    using finish_text by (simp add: ops_def h(3) f(4) fs(2) line_text_def)
  have ok: "fb_ok (length junk) (fb_new junk)" using room(2) by simp
  obtain b where b: "stream_outs ops (fb_new junk) = Some b" "fb_text b = fold (put_operand (length junk)) ops ''''"
    using stream_outs_put [OF ok all] by auto
  have "fb_text b = concat (map operand_text ops)"
    using put_operands_all [of "''''" ops "length junk"] b(2) room(1) text_ops by simp
  then show ?thesis using b(1) f(2) text_ops h(1) by (simp add: Logger_line_def fs_def [symmetric] ops_def [symmetric])
qed

text \<open>
  C38. A line of the log has its format: the time of the clock in the zone of the log, to the microsecond,
  the thread, the level, the error when there is one, the function when it is named, the message exactly as the
  program wrote it, the name of the file without its directories and the line. This needs room in the buffer.
  No assertion fails, and the text of the second, which the thread keeps for its next line, is that of the
  second it was made for; this holds from the first line of a thread on.
\<close>

theorem log_line_format:
  assumes "t_lastSecond th = s \<Longrightarrow> cache_ok zone th" "0 \<le> s" "0 \<le> us" "us < 1000000" "zone_time zone s = Some t" "length (time_text t) = 17"
    and "NUL \<notin> set (snd e)" "\<forall>f. func = Some f \<longrightarrow> NUL \<notin> set f" "\<forall>x \<in> set msg. operand_ok x"
    and "length (line_text zone t us tid level e func filename line (concat (map operand_text msg))) + kMaxNumericSize \<le> length junk"
      "length junk < 2 ^ 31"
  shows "\<exists>th'. Logger_line junk zone th (Timestamp_now s us) tid level e func filename line msg
      = Some (th', line_text zone t us tid level e func filename line (concat (map operand_text msg))) \<and> cache_ok zone th'"
  by (rule Logger_line_text [OF assms])

theorem log_line_format_witness:
  "\<exists>th'. Logger_line (replicate 200 CHR ''?'') None \<lparr>t_time = '''', t_lastSecond = 0\<rparr> (Timestamp_now 86399 42) 77 WARN (0, '''')
      (Some ''main'') ''src/a.cc'' 12 [OString ''n = '', OInt (- 1)]
    = Some (th', ''19700101 23:59:59.000042Z    77 WARN  main n = -1 - a.cc:12'' @ [char_of (10::nat)]) \<and> cache_ok None th'"
proof -
  have b: "length (time_text (c_gmtime 86399)) = 17" by code_simp
  have l: "line_text None (c_gmtime 86399) 42 77 WARN (0, '''') (Some ''main'') ''src/a.cc'' 12 (concat (map operand_text [OString ''n = '', OInt (- 1)]))
    = ''19700101 23:59:59.000042Z    77 WARN  main n = -1 - a.cc:12'' @ [char_of (10::nat)]" by code_simp
  show ?thesis
    using log_line_format [of "\<lparr>t_time = '''', t_lastSecond = 0\<rparr>" 86399 None 42 "c_gmtime 86399" "(0, '''')" "Some ''main''" "[OString ''n = '', OInt (- 1)]" 77 WARN "''src/a.cc''" 12 "replicate 200 CHR ''?''"]
    unfolding l using b by (simp add: zone_time_def kMaxNumericSize_def)
qed

end
