(* ===== verification/Spec2Isabelle.thy ===== *)
theory Spec2Isabelle
  imports TryCatch NtyChannel HttpServer EchoReactor BTreeMain RBMain RbtTimer SklTimer MhTimer TimeWheel ThreadPool DeadlockGraph MMPool LinkedList NetInvariant AppServer DdosDetect AsyncLogging Logging
begin

text \<open>
  \<^bold>\<open>Verification of the components of the back-end course repository.\<close>

  The repository is a collection of C and C++ components of a server: containers, timers, pools, a
  dead-lock detector, exceptions for C, a logger, a reactor with an HTTP server, a character device and a
  network stack in user space. The components are separate programs; the ones that build on each other are the
  timers (a queue below, the timer module above), the reactor with the two servers on it, the parts of
  the logger and the parts of the network stack. Paths below are relative to \<open>src/\<close>, directories with their number.

  \<^bold>\<open>Conventions.\<close> A definition has the name of the C function it models. State is passed explicitly: a
  \<open>struct\<close> is a record, a pointer an address (a number, with 0 for \<open>NULL\<close>) into a store that is part of
  the state, an array a list. A result \<^const>\<open>None\<close> is a step that C leaves undefined, such as an access
  outside an array, through \<open>NULL\<close> or to freed memory, or a loop that does not end. Errors that the code
  reports are values of the result. Machine words keep their width where the code depends on it. What the
  kernel, the C library's allocator, the clock, \<open>rand\<close>, DPDK or uninitialised memory contribute is an
  argument. Output to the terminal is left out unless a theorem is about it.

  \<^bold>\<open>Shared theories.\<close> \<open>Prelude\<close> has the integer conventions, \<open>realloc\<close> and lemmas on lists and words;
  \<open>CArray\<close> arrays and null-terminated strings. Interfaces are locales: \<open>timer_queue\<close> (\<open>TimerQueue\<close>: a queue
  with a first element and the expiry loop over it; interpreted by the min-heap, the skip list and
  the tree of nginx),
  \<open>bounded_fifo\<close> (\<open>BoundedFifo\<close>: interpreted by the ring of the thread pool), \<open>key_store\<close> (\<open>RBMain\<close>: interpreted
  by the red-black tree), \<open>sorted_bag\<close> (\<open>BTreeMain\<close>: interpreted by the B-tree), \<open>log_sink\<close>
  (\<open>AsyncLogging\<close>: where the logger writes; interpreted by the rolling log file) and \<open>reactor_server\<close>
  (\<open>Reactor\<close>: callbacks that keep the connections armed; interpreted by the HTTP and by the echo server).

  \<^bold>\<open>Containers\<close> (directory 1).
  \<open>RBTree\<close>, \<open>RBInsert\<close>, \<open>RBSearch\<close>, \<open>RBDelete\<close>, \<open>RBRemove\<close>, \<open>RBMain\<close> model \<open>rbtree.c\<close> with parent pointers and the
  sentinel. Insertion and deletion return and keep order, colours and black heights; search and traversal
  are right, the depth is logarithmic; the program's \<open>main\<close> frees every node. The repair loops are
  \<open>partial_function\<close>s, and that they end is part of the theorems.
  \<open>BTree\<close>, \<open>BTreeInsert\<close>, \<open>BTreeDelete\<close>, \<open>BTreeMain\<close> model \<open>btree.c\<close>. Insertion keeps a B-tree (node sizes,
  equal depth, order), stays inside the arrays and puts the key at its place; the depth is logarithmic, and
  \<open>btree_traverse\<close>, whose fuel bounds the depth of the recursion, needs fuel one more than the depth, for which
  the number of keys plus one is enough. Deletion is modelled whole and shown to leave its arrays and to
  break the order.

  \<^bold>\<open>Timers\<close> (directory 7, 2207-timers).
  \<open>MinHeap\<close> and \<open>MhTimer\<close>: \<open>minheap.c\<close> and \<open>mh-timer.h\<close>; heap order, back pointers, and the expiry loop calls
  exactly the due timers in time order. \<open>SkipList\<close>, \<open>SkipListOps\<close>, \<open>SklTimer\<close>: \<open>skiplist.c\<close> and \<open>skl-timer.c\<close>;
  every level is a sublist of the one below and sorted, whatever levels are drawn. \<open>TimeWheel\<close>: \<open>timewheel.c\<close>
  with \<open>spinlock.h\<close>; cascading, and which timers fire after n ticks.
  \<open>NgxRbtree\<close> models \<open>rbtree.c\<close> and \<open>rbtree.h\<close> of the timers, the tree of nginx. Its store is read as one of
  \<open>RBTree\<close>, and \<open>NgxBalance\<close>, \<open>NgxInsert\<close>, \<open>NgxDelete\<close>, \<open>NgxRemove\<close> show that its rotations and repair loops are
  simulated by that theory, so that insertion and deletion end and keep a red-black search tree, here with
  equal keys and with deletion moving the node. \<open>RbtTimer\<close>: \<open>rbt-timer.h\<close>; adding, deleting and firing
  timers, the next node in order, and the overflow of the clock.

  \<^bold>\<open>Pools\<close> (directory 6).
  \<open>ThreadPool\<close>: \<open>thrd_pool.c\<close> as a step relation of callers and workers; tasks run in order, none is lost, no
  wake-up is lost, shutting down ends. \<open>MMPool\<close>: \<open>mmpool.c\<close>; blocks do not overlap, every block of the system is
  freed once, and where rounding leaves the node.

  \<^bold>\<open>Dead locks and exceptions\<close> (directory 7).
  \<open>DeadlockGraph\<close>: \<open>deadlock_success.c\<close>; the search finds every cycle; the hooks of
  interleaved threads keep the wait-for graph while one thread at a time asks for a mutex, and what a second one breaks.
  \<open>TryCatch\<close>: the macros of \<open>trycatch_finally.c\<close> as the execution of statements with frames and jumps, refined
  to a meaning without frames.

  \<^bold>\<open>Logging\<close> (directory 7, \<open>muduo_log\<close>).
  \<open>FixedBuffer\<close>, \<open>LogStream\<close>: \<open>LogStream.cc\<close> and its header; the conversions print every 64-bit integer as it is, and
  the stream is a bounded text that is never left. \<open>CalendarDate\<close>, \<open>UtcTime\<close>: \<open>Date.cc\<close> and the zone-free part of
  \<open>TimeZone.cc\<close>; the day numbers are the Gregorian calendar, the conversions are \<open>gmtime_r\<close> and \<open>timegm\<close> and
  undo each other, for a range of years given there, without overflow. \<open>TimeZone\<close>: the reader of zone files with its
  exceptions, the search for the rule in force, local time. \<open>Logging\<close>: a line of \<open>Logging.cc\<close> and its format.
  \<open>LogFile\<close>: \<open>LogFile.cc\<close> and \<open>FileUtil.cc\<close>; rolling and appending lose no text. \<open>AsyncLogging\<close>:
  \<open>AsyncLogging.cc\<close> as a step relation of threads that append, the writing thread and \<open>stop\<close>; no line is lost while
  it runs and all lines reach the files, and what \<open>stop\<close> loses.

  \<^bold>\<open>Network programming\<close> (directory 5).
  \<open>Reactor\<close>: the connection blocks and the event loop shared by \<open>httpserver.cpp\<close> and \<open>reactor.cpp\<close>; the blocks are
  one table by descriptor. \<open>HttpParse\<close>, \<open>HttpServer\<close>: the request, response and callbacks of \<open>httpserver.cpp\<close>; the
  states of the running server, serving a file, and the header loop that leaves its buffer. \<open>EchoReactor\<close>: the
  callbacks of \<open>reactor.cpp\<close> and what a client gets back.

  \<^bold>\<open>Character device\<close> (directory 8).
  \<open>NtyChannel\<close>: \<open>ntychannel_mmap.c\<close>; every call on a well-typed state stays in range, and what is written is read.

  \<^bold>\<open>Network stack\<close> (\<open>tcp.c\<close>).
  \<open>LinkedList\<close>, \<open>ArpTable\<close>, \<open>FdBitmap\<close>: the list macros, the ARP table and the descriptors. \<open>NetPacket\<close>: packets as
  bytes, written and read back. \<open>NetSocket\<close>: the socket calls. \<open>TcpStack\<close>: input and output of UDP and TCP.
  \<open>TcpBehaviour\<close>: handshake, transfer between two stacks, the transitions of a stream. \<open>NetInvariant\<close>: the stack
  as a transition system with its invariant. \<open>AppServer\<close>: the TCP and the UDP server on the socket calls; the
  TCP server echoes a connection to its end. \<open>DdosDetect\<close>: the bit count and the window of the flood detector.

  \<^bold>\<open>Fuel.\<close> Loops are structural or have a termination proof; the ones that may not end are
  \<open>partial_function\<close>s into option, and the theorems say that they return. Fuel occurs in the traversals of the
  B-tree (above), in the depth-first search of the dead-lock detector, where the number of vertices plus one is
  shown to be enough, and in \<open>digits\<close> of \<open>HttpParse\<close>, which prints a number n with fuel n + 1, more than its
  digits.

  \<^bold>\<open>Not modelled.\<close> The wrappers of threads, mutexes and \<open>/proc\<close> of the log
  library and its functions that print floating-point numbers, demos of one system call or library (affinity, shared memory, ucontext, hooks, epoll and io_uring
  servers, MySQL clients, log4cpp tests), nginx modules, whose data structures are those of nginx, the C++ teaching
  examples, unfinished copies of files that are modelled, and build examples with generated files. Of
  \<open>tcp.c\<close>: the set-up of DPDK ports and the kernel interface, the endless loop around the modelled dispatch, and
  ICMP, which the preprocessor disables. Concurrency is modelled for the thread pool, the
  hooks of the dead-lock detector and the asynchronous logger; elsewhere a function runs alone, as under its
  lock.
\<close>

end
